(* ===== verification/Prelude.thy ===== *)
theory Prelude
  imports Main "HOL-Library.Word" "HOL-Library.Monad_Syntax"
begin

text \<open>
  Common ground of the RT-Thread Nano development (\<^verbatim>\<open>os/rt-thread-nano\<close>): the C integer
  types of \<^verbatim>\<open>include/rtdef.h\<close>, the error codes, the meaning given to \<^verbatim>\<open>RT_ASSERT\<close>, and the
  generic facts on words, options and lists that the component theories share.

  A C function that can be cut short by a failed \<^verbatim>\<open>RT_ASSERT\<close> (\<^verbatim>\<open>rt_assert_handler\<close> then
  spins for ever, \<^verbatim>\<open>src/kservice.c\<close>) or by following a pointer that does not point to an
  object of the expected type is modelled with a result of type \<open>'a option\<close>:
  \<^const>\<open>None\<close> is "the code does not continue".  A theorem of the form \<open>f x = Some y\<close>
  therefore states that no assertion fails and no wild pointer is followed.
\<close>

unbundle bit_operations_syntax

named_theorems kernel_simps \<open>closed forms of the kernel operations\<close>
named_theorems frame \<open>what an operation leaves unchanged\<close>

subsection \<open>C types\<close>

type_synonym u8 = "8 word"
type_synonym u16 = "16 word"
type_synonym u32 = "32 word"
type_synonym u64 = "64 word"

text \<open>\<^verbatim>\<open>rt_err_t\<close> is a signed \<^verbatim>\<open>long\<close>; only small negative codes are ever stored in it.\<close>

type_synonym err = int

abbreviation (input) RT_EOK :: err where "RT_EOK \<equiv> 0"
abbreviation (input) RT_ERROR :: err where "RT_ERROR \<equiv> 1"
abbreviation (input) RT_ETIMEOUT :: err where "RT_ETIMEOUT \<equiv> 2"
abbreviation (input) RT_EFULL :: err where "RT_EFULL \<equiv> 3"
abbreviation (input) RT_EEMPTY :: err where "RT_EEMPTY \<equiv> 4"
abbreviation (input) RT_ENOMEM :: err where "RT_ENOMEM \<equiv> 5"
abbreviation (input) RT_ENOSYS :: err where "RT_ENOSYS \<equiv> 6"
abbreviation (input) RT_EBUSY :: err where "RT_EBUSY \<equiv> 7"
abbreviation (input) RT_EIO :: err where "RT_EIO \<equiv> 8"
abbreviation (input) RT_EINVAL :: err where "RT_EINVAL \<equiv> 10"

abbreviation (input) RT_TICK_MAX :: u32 where "RT_TICK_MAX \<equiv> 0xffffffff"
abbreviation (input) RT_ALIGN_SIZE :: u32 where "RT_ALIGN_SIZE \<equiv> 4"

text \<open>The alignment macros of \<^verbatim>\<open>rtdef.h\<close>, on 32-bit unsigned operands (they wrap).\<close>

definition RT_ALIGN :: "u32 \<Rightarrow> u32 \<Rightarrow> u32" where
  "RT_ALIGN sz align = (sz + align - 1) AND NOT (align - 1)"

definition RT_ALIGN_DOWN :: "u32 \<Rightarrow> u32 \<Rightarrow> u32" where
  "RT_ALIGN_DOWN sz align = sz AND NOT (align - 1)"

subsection \<open>Assertions\<close>

definition RT_ASSERT :: "bool \<Rightarrow> unit option" where
  "RT_ASSERT P = (if P then Some () else None)"

lemma RT_ASSERT_bind [simp]: "(RT_ASSERT P \<bind> f) = (if P then f () else None)"
  by (simp add: RT_ASSERT_def)

lemma RT_ASSERT_eq_Some [simp]: "RT_ASSERT P = Some u \<longleftrightarrow> P"
  by (simp add: RT_ASSERT_def)

subsection \<open>Words\<close>

lemma and_or_cancel:
  fixes a m x :: "'a::len word"
  assumes "a AND m = a"
  shows "(a OR (x AND NOT m)) AND m = a"
proof (rule bit_word_eqI)
  fix n assume "n < LENGTH('a)"
  from assms have "bit (a AND m) n = bit a n" by simp
  then show "bit ((a OR (x AND NOT m)) AND m) n = bit a n"
    using \<open>n < LENGTH('a)\<close> by (auto simp: bit_simps)
qed

lemma unat_of_nat_id: "n < 2 ^ LENGTH('a) \<Longrightarrow> unat (of_nat n :: 'a::len word) = n"
  by (simp add: unat_of_nat)

lemma unat_eq_numeral:
  fixes x :: "'a::len word"
  assumes "unat x = n"
  shows "x = of_nat n"
  using assms by (metis of_nat_unat word_unat_eq_iff ucast_id of_nat_unat unsigned_of_nat word_of_nat_eq_iff)

text \<open>Rounding to a multiple of 4.\<close>

lemma and3_mod4: "(w :: u32) AND 3 = w mod 4"
proof -
  have "w AND 3 = take_bit 2 w" by (simp add: take_bit_eq_mask mask_eq_exp_minus_1)
  then show ?thesis by (simp add: take_bit_eq_mod)
qed

lemma and_not3: "(w :: u32) AND NOT 3 = w - w mod 4"
proof -
  have "w AND NOT (w AND 3) = w - (w AND 3)"
    by (rule disjunctive_diff_eq_and_not [symmetric]) (rule bit_word_eqI, simp add: bit_simps)
  moreover have "w AND NOT (w AND 3) = w AND NOT 3"
    by (rule bit_word_eqI) (auto simp: bit_simps)
  ultimately show ?thesis by (simp add: and3_mod4)
qed

lemma unat_and_not3: "unat ((w :: u32) AND NOT 3) = 4 * (unat w div 4)"
proof -
  have "unat (w mod 4) = unat w mod 4" by (simp add: unat_mod)
  moreover have "w mod 4 \<le> w" by (simp add: word_le_nat_alt unat_mod)
  ultimately have "unat (w - w mod 4) = unat w - unat w mod 4" by (simp add: unat_sub)
  then show ?thesis unfolding and_not3 by (simp only: minus_mod_eq_mult_div)
qed

lemma unat_RT_ALIGN_DOWN: "unat (RT_ALIGN_DOWN sz RT_ALIGN_SIZE) = 4 * (unat sz div 4)"
proof -
  have "RT_ALIGN_DOWN sz RT_ALIGN_SIZE = sz AND NOT 3" by (simp add: RT_ALIGN_DOWN_def)
  then show ?thesis by (simp only: unat_and_not3)
qed

lemma unat_RT_ALIGN:
  assumes "sz \<le> 0xfffffffc"
  shows "unat (RT_ALIGN sz RT_ALIGN_SIZE) = 4 * ((unat sz + 3) div 4)"
proof -
  have "unat sz \<le> 0xfffffffc" using assms by (simp add: word_le_nat_alt)
  then have "unat (sz + 3) = unat sz + 3" by (simp add: unat_word_ariths)
  moreover have "RT_ALIGN sz RT_ALIGN_SIZE = (sz + 3) AND NOT 3" unfolding RT_ALIGN_def by (simp add: algebra_simps)
  ultimately show ?thesis by (simp only: unat_and_not3)
qed

subsection \<open>Lists\<close>

lemma removeAll_split:
  "distinct (as @ n # bs) \<Longrightarrow> removeAll n (as @ n # bs) = as @ bs"
  by (simp add: removeAll_append)

end
