(* ===== verification/RtList.thy ===== *)
theory RtList
  imports Prelude
begin

text \<open>
  The intrusive lists of \<^verbatim>\<open>include/rtservice.h\<close>: the circular doubly linked
  \<^verbatim>\<open>rt_list_t\<close> and the singly linked \<^verbatim>\<open>rt_slist_t\<close>.  A list heap holds the \<^verbatim>\<open>next\<close> and
  \<^verbatim>\<open>prev\<close> fields of every node; the operations are the assignments of the C code, in their
  order.  \<open>dll h x xs\<close> says that the nodes \<open>xs\<close> hang, in this order, off the list head
  \<open>x\<close>; every operation is shown to refine the obvious operation on \<open>xs\<close>, and \<open>rings\<close> lifts
  these facts to all the lists of a system at once.
\<close>

section \<open>The operations\<close>

record 'n lheap =
  nxt :: "'n \<Rightarrow> 'n"
  prv :: "'n \<Rightarrow> 'n"

definition set_next :: "'n \<Rightarrow> 'n \<Rightarrow> 'n lheap \<Rightarrow> 'n lheap" where
  "set_next a b h = h\<lparr>nxt := (nxt h)(a := b)\<rparr>"

definition set_prev :: "'n \<Rightarrow> 'n \<Rightarrow> 'n lheap \<Rightarrow> 'n lheap" where
  "set_prev a b h = h\<lparr>prv := (prv h)(a := b)\<rparr>"

definition rt_list_init :: "'n \<Rightarrow> 'n lheap \<Rightarrow> 'n lheap" where
  "rt_list_init l h = (let h = set_prev l l h in set_next l l h)"

definition rt_list_insert_after :: "'n \<Rightarrow> 'n \<Rightarrow> 'n lheap \<Rightarrow> 'n lheap" where
  "rt_list_insert_after l n h = (let
     h = set_prev (nxt h l) n h;
     h = set_next n (nxt h l) h;
     h = set_next l n h
   in set_prev n l h)"

definition rt_list_insert_before :: "'n \<Rightarrow> 'n \<Rightarrow> 'n lheap \<Rightarrow> 'n lheap" where
  "rt_list_insert_before l n h = (let
     h = set_next (prv h l) n h;
     h = set_prev n (prv h l) h;
     h = set_prev l n h
   in set_next n l h)"

definition rt_list_remove :: "'n \<Rightarrow> 'n lheap \<Rightarrow> 'n lheap" where
  "rt_list_remove n h = (let
     h = set_prev (nxt h n) (prv h n) h;
     h = set_next (prv h n) (nxt h n) h;
     h = set_prev n n h
   in set_next n n h)"

definition rt_list_isempty :: "'n \<Rightarrow> 'n lheap \<Rightarrow> bool" where
  "rt_list_isempty l h = (nxt h l = l)"

text \<open>The loops follow \<^verbatim>\<open>next\<close> until they are back at the head; on a corrupt heap they need
  not end, which is the result \<^const>\<open>None\<close>.\<close>

partial_function (option) rt_list_len_from :: "'n \<Rightarrow> 'n \<Rightarrow> nat \<Rightarrow> 'n lheap \<Rightarrow> nat option" where
  "rt_list_len_from l p len h =
     (if nxt h p \<noteq> l then rt_list_len_from l (nxt h p) (Suc len) h else Some len)"

definition rt_list_len :: "'n \<Rightarrow> 'n lheap \<Rightarrow> nat option" where
  "rt_list_len l h = rt_list_len_from l l 0 h"

text \<open>\<^verbatim>\<open>rt_list_for_each\<close> with a body that leaves the loop at the first node satisfying \<open>P\<close>:
  the result is that node, or the head when the loop ran to its end.\<close>

partial_function (option) rt_list_search :: "('n \<Rightarrow> bool) \<Rightarrow> 'n \<Rightarrow> 'n \<Rightarrow> 'n lheap \<Rightarrow> 'n option" where
  "rt_list_search P head pos h =
     (if pos = head then Some head
      else if P pos then Some pos
      else rt_list_search P head (nxt h pos) h)"

definition rt_list_for_each :: "('n \<Rightarrow> bool) \<Rightarrow> 'n \<Rightarrow> 'n lheap \<Rightarrow> 'n option" where
  "rt_list_for_each P head h = rt_list_search P head (nxt h head) h"

section \<open>Field lemmas\<close>

lemma nxt_set_next [simp]: "nxt (set_next a b h) = (nxt h)(a := b)"
  and prv_set_next [simp]: "prv (set_next a b h) = prv h"
  and nxt_set_prev [simp]: "nxt (set_prev a b h) = nxt h"
  and prv_set_prev [simp]: "prv (set_prev a b h) = (prv h)(a := b)"
  by (simp_all add: set_next_def set_prev_def)

lemma nxt_init: "nxt (rt_list_init l h) = (nxt h)(l := l)"
  and prv_init: "prv (rt_list_init l h) = (prv h)(l := l)"
  by (simp_all add: rt_list_init_def)

lemma nxt_insert_after: "nxt (rt_list_insert_after l n h) = (nxt h)(n := nxt h l, l := n)"
  and prv_insert_after: "prv (rt_list_insert_after l n h) = (prv h)(nxt h l := n, n := l)"
  by (simp_all add: rt_list_insert_after_def Let_def)

lemma nxt_insert_before: "nxt (rt_list_insert_before l n h) = (nxt h)(prv h l := n, n := l)"
  and prv_insert_before: "prv (rt_list_insert_before l n h) = (prv h)(n := prv h l, l := n)"
  by (simp_all add: rt_list_insert_before_def Let_def)

lemma nxt_remove:
  "nxt (rt_list_remove n h) =
     (nxt h)(((prv h)(nxt h n := prv h n)) n := nxt h n, n := n)"
  and prv_remove: "prv (rt_list_remove n h) = (prv h)(nxt h n := prv h n, n := n)"
  by (simp_all add: rt_list_remove_def Let_def)

section \<open>The list behind a head\<close>

fun linked :: "'n lheap \<Rightarrow> 'n list \<Rightarrow> bool" where
  "linked h (a # b # xs) \<longleftrightarrow> nxt h a = b \<and> prv h b = a \<and> linked h (b # xs)"
| "linked h _ \<longleftrightarrow> True"

definition dll :: "'n lheap \<Rightarrow> 'n \<Rightarrow> 'n list \<Rightarrow> bool" where
  "dll h x xs \<longleftrightarrow> distinct (x # xs) \<and> linked h (x # xs @ [x])"

lemma linked_append:
  "linked h (xs @ y # ys) \<longleftrightarrow> linked h (xs @ [y]) \<and> linked h (y # ys)"
proof (induction xs)
  case (Cons a xs)
  then show ?case by (cases xs) auto
qed simp

text \<open>An update of \<^verbatim>\<open>next\<close> or \<^verbatim>\<open>prev\<close> is harmless to a segment whose inner end does not contain
  the node.\<close>

lemma linked_frame:
  assumes "\<And>a. a \<in> set (butlast xs) \<Longrightarrow> nxt h' a = nxt h a"
    and "\<And>a. a \<in> set (tl xs) \<Longrightarrow> prv h' a = prv h a"
  shows "linked h' xs \<longleftrightarrow> linked h xs"
  using assms by (induction xs rule: induct_list012) auto


lemma linked_snoc2: "linked h (xs @ [p, q]) \<longleftrightarrow> linked h (xs @ [p]) \<and> nxt h p = q \<and> prv h q = p"
  using linked_append [of h xs p "[q]"] by simp

lemma dll_split:
  assumes "dll h x (as @ bs)"
  shows "prv h (hd (bs @ [x])) = last (x # as)" "nxt h (last (x # as)) = hd (bs @ [x])"
    "linked h (x # as)" "linked h (bs @ [x])"
proof -
  obtain as' p where p: "x # as = as' @ [p]" by (metis rev_exhaust list.distinct(1))
  obtain y ys where y: "bs @ [x] = y # ys" by (cases "bs @ [x]") auto
  have "x # (as @ bs) @ [x] = as' @ p # y # ys"
    using p y by (metis append_Cons append.assoc append_Nil)
  then have "linked h (as' @ p # y # ys)" using assms by (simp add: dll_def)
  then have *: "linked h (as' @ [p])" "nxt h p = y" "prv h y = p" "linked h (y # ys)"
    using linked_append [of h as' p "y # ys"] by auto
  have last: "last (x # as) = p" using p by simp
  show "prv h (hd (bs @ [x])) = last (x # as)" "nxt h (last (x # as)) = hd (bs @ [x])"
    "linked h (x # as)" "linked h (bs @ [x])"
    using * p y last by simp_all
qed

lemma dll_join:
  assumes "distinct (x # as @ bs)" "linked h (x # as)" "linked h (bs @ [x])"
    "nxt h (last (x # as)) = hd (bs @ [x])" "prv h (hd (bs @ [x])) = last (x # as)"
  shows "dll h x (as @ bs)"
proof -
  obtain as' p where p: "x # as = as' @ [p]" by (metis rev_exhaust list.distinct(1))
  obtain y ys where y: "bs @ [x] = y # ys" by (cases "bs @ [x]") auto
  have eq: "x # (as @ bs) @ [x] = as' @ p # y # ys"
    using p y by (metis append_Cons append.assoc append_Nil)
  have "linked h (as' @ p # y # ys)"
    using assms p y linked_append [of h as' p "y # ys"] by auto
  then show ?thesis using assms(1) eq by (simp add: dll_def)
qed

lemma hd_snoc_in: "hd (bs @ [x]) \<in> set (x # bs)"
  by (cases bs) auto

lemma last_Cons_in: "last (x # as) \<in> set (x # as)"
  using last_in_set by blast

theorem dll_init: "dll (rt_list_init x h) x []"
  by (simp add: dll_def nxt_init prv_init)

theorem dll_insert_before:
  assumes d: "dll h x (as @ bs)" and n: "n \<notin> set (x # as @ bs)"
  shows "dll (rt_list_insert_before (hd (bs @ [x])) n h) x (as @ n # bs)"
proof (rule dll_join)
  let ?y = "hd (bs @ [x])" and ?p = "last (x # as)"
  let ?h = "rt_list_insert_before ?y n h"
  note sp = dll_split [OF d]
  have dist: "distinct (x # as @ bs)" using d by (simp add: dll_def)
  have y: "?y \<in> set (x # bs)" by (rule hd_snoc_in)
  have p: "?p \<in> set (x # as)" by (rule last_Cons_in)
  have nx: "nxt ?h = (nxt h)(?p := n, n := ?y)"
    using sp(1) by (simp add: nxt_insert_before)
  have pv: "prv ?h = (prv h)(n := ?p, ?y := n)"
    using sp(1) by (simp add: prv_insert_before)
  show "distinct (x # as @ n # bs)" using dist n by auto
  show "linked ?h (x # as)"
  proof -
    have "linked ?h (x # as) = linked h (x # as)"
    proof (rule linked_frame)
      fix a assume a: "a \<in> set (butlast (x # as))"
      have "distinct (butlast (x # as) @ [?p])"
        using dist by (metis append_butlast_last_id distinct_append distinct_append list.distinct(1) append_Cons)
      then have "a \<noteq> ?p" using a by auto
      moreover have "a \<noteq> n" using a n by (metis UnI1 in_set_butlastD set_append append_Cons)
      ultimately show "nxt ?h a = nxt h a" by (simp add: nx)
    next
      fix a assume a: "a \<in> set (tl (x # as))"
      then have "a \<noteq> ?y" using y dist by auto
      moreover have "a \<noteq> n" using a n by auto
      ultimately show "prv ?h a = prv h a" by (simp add: pv)
    qed
    then show ?thesis using sp(3) by simp
  qed
  show "linked ?h ((n # bs) @ [x])"
  proof -
    have "linked ?h (bs @ [x]) = linked h (bs @ [x])"
    proof (rule linked_frame)
      fix a assume "a \<in> set (butlast (bs @ [x]))"
      then have a: "a \<in> set bs" by simp
      then have "a \<noteq> ?p" using p dist by auto
      moreover have "a \<noteq> n" using a n by auto
      ultimately show "nxt ?h a = nxt h a" by (simp add: nx)
    next
      fix a assume a: "a \<in> set (tl (bs @ [x]))"
      then have "a \<noteq> ?y" using dist by (cases bs) auto
      moreover have "a \<noteq> n" using a n by (cases bs) auto
      ultimately show "prv ?h a = prv h a" by (simp add: pv)
    qed
    moreover have "nxt ?h n = ?y" "prv ?h ?y = n" by (simp_all add: nx pv)
    ultimately show ?thesis using sp(4) by (cases bs) auto
  qed
  have "n \<noteq> ?p" "n \<noteq> ?y" using p y n by auto
  then show "nxt ?h ?p = hd ((n # bs) @ [x])" "prv ?h (hd ((n # bs) @ [x])) = ?p"
    by (simp_all add: nx pv)
qed

lemma insert_after_eq_before:
  assumes "prv h (nxt h l) = l" "n \<noteq> l" "n \<noteq> nxt h l"
  shows "rt_list_insert_after l n h = rt_list_insert_before (nxt h l) n h"
  using assms
  by (intro lheap.equality)
     (auto simp: nxt_insert_after prv_insert_after nxt_insert_before prv_insert_before)

theorem dll_insert_after:
  assumes d: "dll h x xs" and n: "n \<notin> set (x # xs)"
  shows "dll (rt_list_insert_after x n h) x (n # xs)"
proof -
  have d': "dll h x ([] @ xs)" using d by simp
  note sp = dll_split [OF d']
  have y: "nxt h x = hd (xs @ [x])" using sp(2) by simp
  then have "n \<noteq> nxt h x" using n hd_snoc_in [of xs x] by auto
  then have "rt_list_insert_after x n h = rt_list_insert_before (hd (xs @ [x])) n h"
    using sp(1) y n by (simp add: insert_after_eq_before)
  then show ?thesis using dll_insert_before [OF d'] n by simp
qed

lemma nxt_remove_simple:
  assumes "nxt h n \<noteq> n"
  shows "nxt (rt_list_remove n h) = (nxt h)(prv h n := nxt h n, n := n)"
  using assms by (simp add: nxt_remove)

theorem dll_remove:
  assumes d: "dll h x (as @ n # bs)"
  shows "dll (rt_list_remove n h) x (as @ bs)"
proof (rule dll_join)
  let ?y = "hd (bs @ [x])" and ?p = "last (x # as)"
  let ?h = "rt_list_remove n h"
  have d': "dll h x ((as @ [n]) @ bs)" using d by simp
  note sp = dll_split [OF d] and sp' = dll_split [OF d']
  have dist: "distinct (x # as @ n # bs)" using d by (simp add: dll_def)
  have y: "?y \<in> set (x # bs)" by (rule hd_snoc_in)
  have p: "?p \<in> set (x # as)" by (rule last_Cons_in)
  have pn: "prv h n = ?p" using sp(1) by simp
  have nn: "nxt h n = ?y" using sp'(2) by simp
  have ne: "n \<noteq> ?y" "n \<noteq> ?p" using y p dist by auto
  have nx: "nxt ?h = (nxt h)(?p := ?y, n := n)"
    using ne nn pn by (simp add: nxt_remove_simple)
  have pv: "prv ?h = (prv h)(?y := ?p, n := n)"
    by (simp only: prv_remove nn pn)
  show "distinct (x # as @ bs)" using dist by auto
  show "linked ?h (x # as)"
  proof -
    have "linked ?h (x # as) = linked h (x # as)"
    proof (rule linked_frame)
      fix a assume a: "a \<in> set (butlast (x # as))"
      have "distinct (butlast (x # as) @ [?p])"
        using dist by (metis append_butlast_last_id distinct_append list.distinct(1) append_Cons)
      then have "a \<noteq> ?p" using a by auto
      moreover have "a \<in> set (x # as)" using a by (rule in_set_butlastD)
      then have "a \<noteq> n" using dist by auto
      ultimately show "nxt ?h a = nxt h a" by (simp add: nx)
    next
      fix a assume a: "a \<in> set (tl (x # as))"
      then have "a \<noteq> ?y" using y dist by auto
      moreover have "a \<noteq> n" using a dist by auto
      ultimately show "prv ?h a = prv h a" by (simp add: pv)
    qed
    then show ?thesis using sp(3) by simp
  qed
  show "linked ?h (bs @ [x])"
  proof -
    have "linked ?h (bs @ [x]) = linked h (bs @ [x])"
    proof (rule linked_frame)
      fix a assume "a \<in> set (butlast (bs @ [x]))"
      then have a: "a \<in> set bs" by simp
      then have "a \<noteq> ?p" using p dist by auto
      moreover have "a \<noteq> n" using a dist by auto
      ultimately show "nxt ?h a = nxt h a" by (simp add: nx)
    next
      fix a assume a: "a \<in> set (tl (bs @ [x]))"
      then have "a \<noteq> ?y" using dist by (cases bs) auto
      moreover have "a \<noteq> n" using a dist by (cases bs) auto
      ultimately show "prv ?h a = prv h a" by (simp add: pv)
    qed
    then show ?thesis using sp'(4) by simp
  qed
  show "nxt ?h ?p = ?y" "prv ?h ?y = ?p" using ne by (simp_all add: nx pv)
qed


lemma dll_distinct: "dll h x xs \<Longrightarrow> distinct (x # xs)"
  by (simp add: dll_def)

lemma dll_next: "dll h x xs \<Longrightarrow> nxt h x = hd (xs @ [x])"
  using dll_split(2) [of h x "[]" xs] by simp

lemma dll_prev: "dll h x xs \<Longrightarrow> prv h x = last (x # xs)"
  using dll_split(1) [of h x xs "[]"] by simp

lemma dll_isempty: "dll h x xs \<Longrightarrow> rt_list_isempty x h \<longleftrightarrow> xs = []"
  by (cases xs) (auto simp: rt_list_isempty_def dll_next dll_def)

lemma dll_first_prev: "dll h x xs \<Longrightarrow> prv h (nxt h x) = x"
  using dll_split(1) [of h x "[]" xs] dll_next [of h x xs] by simp

text \<open>Inserting behind a node is inserting before its successor.\<close>

lemma insert_after_before:
  "prv h (nxt h l) = l \<Longrightarrow> n \<noteq> l \<Longrightarrow> n \<noteq> nxt h l \<Longrightarrow>
   rt_list_insert_after l n h = rt_list_insert_before (nxt h l) n h"
  by (auto simp: rt_list_insert_after_def rt_list_insert_before_def Let_def set_next_def set_prev_def
      fun_eq_iff intro!: lheap.equality)

lemma dll_next_mem: "dll h x (as @ a # bs) \<Longrightarrow> nxt h a = hd (bs @ [x])"
  using dll_split(2) [of h x "as @ [a]" bs] by simp

lemma dll_prev_mem: "dll h x (as @ a # bs) \<Longrightarrow> prv h a = last (x # as)"
  using dll_split(1) [of h x as "a # bs"] by simp

lemma dll_insert_back:
  "dll h x xs \<Longrightarrow> n \<notin> set (x # xs) \<Longrightarrow> dll (rt_list_insert_before x n h) x (xs @ [n])"
  using dll_insert_before [of h x xs "[]" n] by simp

lemma dll_cong:
  assumes "\<And>a. a \<in> set (x # xs) \<Longrightarrow> nxt h' a = nxt h a \<and> prv h' a = prv h a"
  shows "dll h' x xs \<longleftrightarrow> dll h x xs"
proof -
  have "linked h' (x # xs @ [x]) = linked h (x # xs @ [x])"
  proof (rule linked_frame)
    fix a assume "a \<in> set (butlast (x # xs @ [x]))"
    then have "a \<in> set (x # xs)" by (metis append_Cons butlast_snoc)
    then show "nxt h' a = nxt h a" using assms by blast
  next
    fix a assume "a \<in> set (tl (x # xs @ [x]))"
    then have "a \<in> set (x # xs)" by auto
    then show "prv h' a = prv h a" using assms by blast
  qed
  then show ?thesis by (simp add: dll_def)
qed

subsection \<open>The loops end on a well-formed list\<close>

lemma rt_list_len_from_dll:
  assumes "dll h x (as @ bs)"
  shows "rt_list_len_from x (last (x # as)) n h = Some (n + length bs)"
  using assms
proof (induction bs arbitrary: as n)
  case Nil
  then show ?case
    using dll_split(2) [OF Nil] by (subst rt_list_len_from.simps) simp
next
  case (Cons b bs)
  have "nxt h (last (x # as)) = b" using dll_split(2) [OF Cons.prems] by simp
  moreover have "b \<noteq> x" using Cons.prems by (auto simp: dll_def)
  moreover have "rt_list_len_from x b (Suc n) h = Some (Suc n + length bs)"
    using Cons.IH [of "as @ [b]" "Suc n"] Cons.prems by simp
  ultimately show ?case by (subst rt_list_len_from.simps) simp
qed

theorem rt_list_len_dll: "dll h x xs \<Longrightarrow> rt_list_len x h = Some (length xs)"
  using rt_list_len_from_dll [of h x "[]" xs 0] by (simp add: rt_list_len_def)

lemma rt_list_search_dll:
  assumes "dll h x (as @ bs)"
  shows "rt_list_search P x (hd (bs @ [x])) h =
    Some (case find P bs of None \<Rightarrow> x | Some y \<Rightarrow> y)"
  using assms
proof (induction bs arbitrary: as)
  case Nil
  then show ?case by (subst rt_list_search.simps) simp
next
  case (Cons b bs)
  have "b \<noteq> x" using Cons.prems by (auto simp: dll_def)
  moreover have "nxt h b = hd (bs @ [x])" by (rule dll_next_mem [OF Cons.prems])
  moreover have "rt_list_search P x (hd (bs @ [x])) h =
      Some (case find P bs of None \<Rightarrow> x | Some y \<Rightarrow> y)"
    using Cons.IH [of "as @ [b]"] Cons.prems by simp
  ultimately show ?case by (subst rt_list_search.simps) simp
qed

theorem rt_list_for_each_dll:
  "dll h x xs \<Longrightarrow> rt_list_for_each P x h = Some (case find P xs of None \<Rightarrow> x | Some y \<Rightarrow> y)"
  using rt_list_search_dll [of h x "[]" xs P] by (simp add: rt_list_for_each_def dll_next)

section \<open>All the lists of a system\<close>

text \<open>
  \<open>hd\<close> tells the list heads from the nodes embedded in objects.  \<open>rings hd h L\<close>: every head
  \<open>x\<close> carries exactly the nodes \<open>L x\<close>, no node is on two lists, and a node that is on no list
  points to itself, as \<^verbatim>\<open>rt_list_init\<close> and \<^verbatim>\<open>rt_list_remove\<close> leave it.
\<close>

definition rings :: "('n \<Rightarrow> bool) \<Rightarrow> 'n lheap \<Rightarrow> ('n \<Rightarrow> 'n list) \<Rightarrow> bool" where
  "rings is_hd h L \<longleftrightarrow>
     (\<forall>x. is_hd x \<longrightarrow> dll h x (L x) \<and> (\<forall>n \<in> set (L x). \<not> is_hd n)) \<and>
     (\<forall>x y n. is_hd x \<longrightarrow> is_hd y \<longrightarrow> n \<in> set (L x) \<longrightarrow> n \<in> set (L y) \<longrightarrow> x = y) \<and>
     (\<forall>n. \<not> is_hd n \<longrightarrow> (\<forall>x. is_hd x \<longrightarrow> n \<notin> set (L x)) \<longrightarrow> nxt h n = n \<and> prv h n = n)"

definition on_list :: "('n \<Rightarrow> bool) \<Rightarrow> ('n \<Rightarrow> 'n list) \<Rightarrow> 'n \<Rightarrow> bool" where
  "on_list is_hd L n \<longleftrightarrow> (\<exists>x. is_hd x \<and> n \<in> set (L x))"

lemma rings_dll: "rings is_hd h L \<Longrightarrow> is_hd x \<Longrightarrow> dll h x (L x)"
  by (simp add: rings_def)

lemma rings_node: "rings is_hd h L \<Longrightarrow> is_hd x \<Longrightarrow> n \<in> set (L x) \<Longrightarrow> \<not> is_hd n"
  by (simp add: rings_def)

lemma rings_unique:
  "rings is_hd h L \<Longrightarrow> is_hd x \<Longrightarrow> is_hd y \<Longrightarrow> n \<in> set (L x) \<Longrightarrow> n \<in> set (L y) \<Longrightarrow> x = y"
  unfolding rings_def by blast

lemma rings_cong:
  "rings is_hd h L \<Longrightarrow> (\<And>x. is_hd x \<Longrightarrow> L' x = L x) \<Longrightarrow> rings is_hd h L'"
  unfolding rings_def by metis

lemma rings_detached:
  "rings is_hd h L \<Longrightarrow> \<not> is_hd n \<Longrightarrow> \<not> on_list is_hd L n \<Longrightarrow> nxt h n = n \<and> prv h n = n"
  by (auto simp: rings_def on_list_def)

lemma rings_distinct: "rings is_hd h L \<Longrightarrow> is_hd x \<Longrightarrow> distinct (L x)"
  using rings_dll dll_distinct by fastforce

lemma rings_isempty: "rings is_hd h L \<Longrightarrow> is_hd x \<Longrightarrow> rt_list_isempty x h \<longleftrightarrow> L x = []"
  by (simp add: rings_dll dll_isempty)

lemma rings_first: "rings is_hd h L \<Longrightarrow> is_hd x \<Longrightarrow> L x \<noteq> [] \<Longrightarrow> nxt h x = hd (L x)"
  by (metis dll_next rings_dll hd_append2)

text \<open>An operation that works on one list and one extra node leaves every other list alone.\<close>

lemma rings_update:
  assumes r: "rings is_hd h L" and x: "is_hd x"
    and new: "dll h' x xs" and nodes: "\<forall>n \<in> set xs. \<not> is_hd n"
    and fresh: "\<And>n y. n \<in> set xs \<Longrightarrow> is_hd y \<Longrightarrow> n \<in> set (L y) \<Longrightarrow> y = x"
    and same: "\<And>a. a \<notin> set (x # L x @ xs) \<Longrightarrow> nxt h' a = nxt h a \<and> prv h' a = prv h a"
    and gone: "\<And>a. a \<in> set (L x) - set xs \<Longrightarrow> nxt h' a = a \<and> prv h' a = a"
  shows "rings is_hd h' (L(x := xs))"
  unfolding rings_def
proof (intro conjI allI impI ballI)
  fix y assume y: "is_hd y"
  show "dll h' y ((L(x := xs)) y)"
  proof (cases "y = x")
    case False
    have "dll h' y (L y) \<longleftrightarrow> dll h y (L y)"
    proof (rule dll_cong)
      fix a assume a: "a \<in> set (y # L y)"
      have "a \<notin> set (x # L x @ xs)"
      proof (cases "a = y")
        case True
        then show ?thesis using False y x nodes rings_node [OF r x] by auto
      next
        case neq: False
        with a have ay: "a \<in> set (L y)" by simp
        have "a \<noteq> x" using rings_node [OF r y ay] x by auto
        moreover have "a \<notin> set (L x)" using rings_unique [OF r x y _ ay] False by auto
        moreover have "a \<notin> set xs" using fresh [OF _ y ay] False by auto
        ultimately show ?thesis by simp
      qed
      then show "nxt h' a = nxt h a \<and> prv h' a = prv h a" by (rule same)
    qed
    then show ?thesis using False rings_dll [OF r y] by simp
  qed (use new in simp)
  show "\<not> is_hd n" if "n \<in> set ((L(x := xs)) y)" for n
    using that nodes rings_node [OF r y] by (auto split: if_splits)
next
  fix y z n
  assume y: "is_hd y" "n \<in> set ((L(x := xs)) y)" and z: "is_hd z" "n \<in> set ((L(x := xs)) z)"
  show "y = z"
  proof (cases "n \<in> set xs")
    case True
    have "y = x" using True y fresh by (metis fun_upd_other)
    moreover have "z = x" using True z fresh by (metis fun_upd_other)
    ultimately show ?thesis by simp
  next
    case False
    then have "n \<in> set (L y)" "n \<in> set (L z)" using y z by (auto split: if_splits)
    then show ?thesis using rings_unique [OF r y(1) z(1)] by blast
  qed
next
  fix n assume n: "\<not> is_hd n" "\<forall>y. is_hd y \<longrightarrow> n \<notin> set ((L(x := xs)) y)"
  have nxs: "n \<notin> set xs" using n(2) x by (auto dest: spec [of _ x])
  have nx: "n \<noteq> x" using n(1) x by auto
  have "nxt h' n = n \<and> prv h' n = n"
  proof (cases "n \<in> set (L x)")
    case True
    then show ?thesis using gone nxs by blast
  next
    case False
    have "\<not> on_list is_hd L n"
      using n(2) False by (auto simp: on_list_def split: if_splits)
    then have "nxt h n = n \<and> prv h n = n" by (rule rings_detached [OF r n(1)])
    then show ?thesis using same [of n] False nxs nx by simp
  qed
  then show "nxt h' n = n" "prv h' n = n" by simp_all
qed


lemma rings_insert_at:
  assumes r: "rings is_hd h L" and x: "is_hd x" and L: "L x = as @ bs"
    and n: "\<not> is_hd n" "\<not> on_list is_hd L n"
  shows "rings is_hd (rt_list_insert_before (hd (bs @ [x])) n h) (L(x := as @ n # bs))"
proof (rule rings_update [OF r x])
  have d: "dll h x (as @ bs)" using rings_dll [OF r x] L by simp
  have fresh: "n \<notin> set (x # as @ bs)"
    using n x L by (auto simp: on_list_def)
  show "dll (rt_list_insert_before (hd (bs @ [x])) n h) x (as @ n # bs)"
    by (rule dll_insert_before [OF d fresh])
  show "\<forall>m \<in> set (as @ n # bs). \<not> is_hd m"
    using rings_node [OF r x] L n by auto
  show "y = x" if "m \<in> set (as @ n # bs)" "is_hd y" "m \<in> set (L y)" for m y
    using that n(2) rings_unique [OF r _ x] L by (auto simp: on_list_def)
  fix a assume a: "a \<notin> set (x # L x @ as @ n # bs)"
  have "prv h (hd (bs @ [x])) = last (x # as)" using dll_split(1) [OF d] .
  moreover have "a \<noteq> last (x # as)" using a last_Cons_in [of x as] L by auto
  moreover have "a \<noteq> hd (bs @ [x])" using a hd_snoc_in [of bs x] L by auto
  moreover have "a \<noteq> n" using a by simp
  ultimately show "nxt (rt_list_insert_before (hd (bs @ [x])) n h) a = nxt h a \<and>
      prv (rt_list_insert_before (hd (bs @ [x])) n h) a = prv h a"
    by (simp add: nxt_insert_before prv_insert_before)
qed (use L in auto)

theorem rings_insert_before:
  assumes "rings is_hd h L" "is_hd x" "\<not> is_hd n" "\<not> on_list is_hd L n"
  shows "rings is_hd (rt_list_insert_before x n h) (L(x := L x @ [n]))"
  using rings_insert_at [of is_hd h L x "L x" "[]" n] assms by simp

theorem rings_insert_after:
  assumes r: "rings is_hd h L" and x: "is_hd x" and n: "\<not> is_hd n" "\<not> on_list is_hd L n"
  shows "rings is_hd (rt_list_insert_after x n h) (L(x := n # L x))"
proof -
  have d: "dll h x ([] @ L x)" using rings_dll [OF r x] by simp
  have nx: "nxt h x = hd (L x @ [x])" using dll_split(2) [OF d] by simp
  have "hd (L x @ [x]) \<in> set (x # L x)" by (rule hd_snoc_in)
  then have "n \<noteq> nxt h x" using n x nx by (auto simp: on_list_def)
  moreover have "n \<noteq> x" using n x by auto
  ultimately have "rt_list_insert_after x n h = rt_list_insert_before (hd (L x @ [x])) n h"
    using dll_split(1) [OF d] nx by (simp add: insert_after_eq_before)
  then show ?thesis using rings_insert_at [OF r x, of "[]" "L x" n] n by simp
qed

text \<open>Inserting before a node that is itself on a list.\<close>

theorem rings_insert_before_node:
  assumes "rings is_hd h L" "is_hd x" "L x = as @ y # bs" "\<not> is_hd n" "\<not> on_list is_hd L n"
  shows "rings is_hd (rt_list_insert_before y n h) (L(x := as @ n # y # bs))"
  using rings_insert_at [of is_hd h L x as "y # bs" n] assms by simp

text \<open>The node directly before an insertion point: \<^verbatim>\<open>rt_list_insert_after\<close> at a list node.\<close>

theorem rings_insert_after_node:
  assumes r: "rings is_hd h L" and x: "is_hd x" and L: "L x = as @ bs"
    and n: "\<not> is_hd n" "\<not> on_list is_hd L n"
  shows "rings is_hd (rt_list_insert_after (last (x # as)) n h) (L(x := as @ n # bs))"
proof -
  have d: "dll h x (as @ bs)" using rings_dll [OF r x] L by simp
  have "hd (bs @ [x]) \<in> set (x # bs)" "last (x # as) \<in> set (x # as)"
    by (rule hd_snoc_in, rule last_Cons_in)
  then have "n \<noteq> hd (bs @ [x])" "n \<noteq> last (x # as)"
    using n x L by (auto simp: on_list_def)
  then have "rt_list_insert_after (last (x # as)) n h = rt_list_insert_before (hd (bs @ [x])) n h"
    using dll_split(1,2) [OF d] by (subst insert_after_eq_before) simp_all
  then show ?thesis using rings_insert_at [OF r x L n] by simp
qed

lemma remove_detached:
  assumes "nxt h n = n" "prv h n = n"
  shows "rt_list_remove n h = h"
  using assms by (intro lheap.equality) (auto simp: nxt_remove prv_remove)

theorem rings_remove_from:
  assumes r: "rings is_hd h L" and x: "is_hd x" and n: "n \<in> set (L x)"
  shows "rings is_hd (rt_list_remove n h) (L(x := removeAll n (L x)))"
proof -
  obtain as bs where L: "L x = as @ n # bs" using n by (meson split_list)
  have dist: "distinct (L x)" by (rule rings_distinct [OF r x])
  have rem: "removeAll n (L x) = as @ bs" using L dist by (simp add: removeAll_split)
  have d: "dll h x (as @ n # bs)" using rings_dll [OF r x] L by simp
  have pn: "prv h n = last (x # as)" and nn: "nxt h n = hd (bs @ [x])"
    using dll_prev_mem [OF d] dll_next_mem [OF d] by simp_all
  have nx: "n \<noteq> x" using rings_node [OF r x n] x by auto
  have y: "hd (bs @ [x]) \<in> set (x # bs)" and p: "last (x # as) \<in> set (x # as)"
    by (rule hd_snoc_in, rule last_Cons_in)
  have ne: "n \<noteq> hd (bs @ [x])" using y nx dist L by auto
  have nxt': "nxt (rt_list_remove n h) = (nxt h)(last (x # as) := hd (bs @ [x]), n := n)"
    using ne nn pn by (simp add: nxt_remove_simple)
  have prv': "prv (rt_list_remove n h) = (prv h)(hd (bs @ [x]) := last (x # as), n := n)"
    by (simp only: prv_remove nn pn)
  have "rings is_hd (rt_list_remove n h) (L(x := as @ bs))"
  proof (rule rings_update [OF r x])
    show "dll (rt_list_remove n h) x (as @ bs)" by (rule dll_remove [OF d])
    show "\<forall>m \<in> set (as @ bs). \<not> is_hd m" using rings_node [OF r x] L by auto
    show "z = x" if "m \<in> set (as @ bs)" "is_hd z" "m \<in> set (L z)" for m z
      by (rule rings_unique [OF r that(2) x that(3)]) (use that L in auto)
    show "nxt (rt_list_remove n h) a = nxt h a \<and> prv (rt_list_remove n h) a = prv h a"
      if "a \<notin> set (x # L x @ as @ bs)" for a
    proof -
      have "a \<noteq> last (x # as)" "a \<noteq> hd (bs @ [x])" "a \<noteq> n" using that y p L by auto
      then show ?thesis by (simp add: nxt' prv')
    qed
    show "nxt (rt_list_remove n h) a = a \<and> prv (rt_list_remove n h) a = a"
      if "a \<in> set (L x) - set (as @ bs)" for a
    proof -
      have "a = n" using that L by auto
      then show ?thesis by (simp add: nxt' prv')
    qed
  qed
  then show ?thesis using rem by simp
qed

text \<open>\<^verbatim>\<open>rt_list_remove\<close> takes a node off whatever list it is on; on a detached node it does
  nothing.\<close>

theorem rings_remove:
  assumes r: "rings is_hd h L" and n: "\<not> is_hd n"
  shows "rings is_hd (rt_list_remove n h) (\<lambda>x. removeAll n (L x))"
proof (cases "on_list is_hd L n")
  case True
  then obtain x where x: "is_hd x" "n \<in> set (L x)" by (auto simp: on_list_def)
  show ?thesis
  proof (rule rings_cong [OF rings_remove_from [OF r x]])
    fix y assume y: "is_hd y"
    show "removeAll n (L y) = (L(x := removeAll n (L x))) y"
    proof (cases "y = x")
      case False
      then have "n \<notin> set (L y)" using rings_unique [OF r x(1) y x(2)] by auto
      then show ?thesis using False by simp
    qed simp
  qed
next
  case False
  have h: "rt_list_remove n h = h" using rings_detached [OF r n False] by (simp add: remove_detached)
  have "removeAll n (L y) = L y" if "is_hd y" for y
    using False that by (simp add: on_list_def)
  then show ?thesis unfolding h by (rule rings_cong [OF r])
qed

lemma not_on_list_removeAll [simp]: "\<not> on_list is_hd (\<lambda>x. removeAll n (L x)) n"
  by (simp add: on_list_def)

lemma rings_init:
  assumes r: "rings is_hd h L" and n: "\<not> is_hd n" "\<not> on_list is_hd L n"
  shows "rt_list_init n h = h"
proof -
  have "nxt h n = n" "prv h n = n" using rings_detached [OF r n] by auto
  then show ?thesis by (intro lheap.equality) (auto simp: nxt_init prv_init)
qed

lemma rings_init_hd_nil:
  assumes r: "rings is_hd h L" and x: "is_hd x" "L x = []"
  shows "rt_list_init x h = h"
proof -
  have "nxt h x = x" "prv h x = x"
    using rings_dll [OF r x(1)] x(2) dll_next [of h x "[]"] dll_prev [of h x "[]"] by auto
  then show ?thesis by (intro lheap.equality) (auto simp: nxt_init prv_init)
qed

end
