(* ===== verification/KMem.thy ===== *)
theory KMem
  imports Prelude
begin

text \<open>
  The memory routines of \<^verbatim>\<open>src/kservice.c\<close> (\<^verbatim>\<open>rt_memset\<close>, \<^verbatim>\<open>rt_memcpy\<close>, \<^verbatim>\<open>rt_memmove\<close>)
  on a byte-addressed 32-bit memory, in the variant without \<^verbatim>\<open>RT_USING_TINY_SIZE\<close>: the word-at-a-time loops are kept and shown equal to the byte-wise
  meaning.  Addresses wrap at \<open>2 ^ 32\<close> as on the 32-bit core; \<^verbatim>\<open>long\<close> is 4 bytes, little
  endian.
\<close>

type_synonym memory = "u32 \<Rightarrow> u8"

section \<open>Words in memory\<close>

definition load32 :: "memory \<Rightarrow> u32 \<Rightarrow> u32" where
  "load32 m p = ucast (m p) OR push_bit 8 (ucast (m (p + 1))) OR
     push_bit 16 (ucast (m (p + 2))) OR push_bit 24 (ucast (m (p + 3)))"

definition store32 :: "u32 \<Rightarrow> u32 \<Rightarrow> memory \<Rightarrow> memory" where
  "store32 p w m = m(p := ucast w, p + 1 := ucast (drop_bit 8 w),
     p + 2 := ucast (drop_bit 16 w), p + 3 := ucast (drop_bit 24 w))"

section \<open>The routines\<close>

definition UNALIGNED :: "u32 \<Rightarrow> bool" where
  "UNALIGNED x \<longleftrightarrow> x AND 3 \<noteq> 0"

fun memset_bytes :: "u32 \<Rightarrow> u8 \<Rightarrow> nat \<Rightarrow> memory \<Rightarrow> memory" where
  "memset_bytes p d 0 m = m"
| "memset_bytes p d (Suc count) m = memset_bytes (p + 1) d count (m(p := d))"

fun memset_words :: "u32 \<Rightarrow> u32 \<Rightarrow> nat \<Rightarrow> memory \<Rightarrow> u32 \<times> nat \<times> memory" where
  "memset_words p buffer count m =
     (if 4 \<le> count then memset_words (p + 4) buffer (count - 4) (store32 p buffer m)
      else (p, count, m))"

fun memset_words4 :: "u32 \<Rightarrow> u32 \<Rightarrow> nat \<Rightarrow> memory \<Rightarrow> u32 \<times> nat \<times> memory" where
  "memset_words4 p buffer count m =
     (if 16 \<le> count then
        let m = store32 p buffer m;
            m = store32 (p + 4) buffer m;
            m = store32 (p + 8) buffer m;
            m = store32 (p + 12) buffer m
        in memset_words4 (p + 16) buffer (count - 16) m
      else (p, count, m))"

definition rt_memset :: "u32 \<Rightarrow> u32 \<Rightarrow> u32 \<Rightarrow> memory \<Rightarrow> memory" where
  "rt_memset s c count m = (let
     d = c AND 0xff;
     n = unat count
   in if \<not> n < 4 \<and> \<not> UNALIGNED s then
        let buffer = push_bit 8 d OR d;
            buffer = buffer OR push_bit 16 buffer;
            (p, n, m) = memset_words4 s buffer n m;
            (p, n, m) = memset_words p buffer n m
        in memset_bytes p (ucast d) n m
      else memset_bytes s (ucast d) n m)"

fun memcpy_bytes :: "u32 \<Rightarrow> u32 \<Rightarrow> nat \<Rightarrow> memory \<Rightarrow> memory" where
  "memcpy_bytes d s 0 m = m"
| "memcpy_bytes d s (Suc len) m = memcpy_bytes (d + 1) (s + 1) len (m(d := m s))"

fun memcpy_words :: "u32 \<Rightarrow> u32 \<Rightarrow> nat \<Rightarrow> memory \<Rightarrow> u32 \<times> u32 \<times> nat \<times> memory" where
  "memcpy_words d s len m =
     (if 4 \<le> len then memcpy_words (d + 4) (s + 4) (len - 4) (store32 d (load32 m s) m)
      else (d, s, len, m))"

fun memcpy_words4 :: "u32 \<Rightarrow> u32 \<Rightarrow> nat \<Rightarrow> memory \<Rightarrow> u32 \<times> u32 \<times> nat \<times> memory" where
  "memcpy_words4 d s len m =
     (if 16 \<le> len then
        let m = store32 d (load32 m s) m;
            m = store32 (d + 4) (load32 m (s + 4)) m;
            m = store32 (d + 8) (load32 m (s + 8)) m;
            m = store32 (d + 12) (load32 m (s + 12)) m
        in memcpy_words4 (d + 16) (s + 16) (len - 16) m
      else (d, s, len, m))"

text \<open>\<^verbatim>\<open>int len = count\<close>: \<^verbatim>\<open>TOO_SMALL(len)\<close> and the loops over words compare \<^verbatim>\<open>len\<close> with an unsigned
  \<^verbatim>\<open>sizeof\<close>, so the bits of \<^verbatim>\<open>count\<close> are read as unsigned.  The bytewise loop \<^verbatim>\<open>while (len--)\<close> is
  taken to count the bits of \<^verbatim>\<open>count\<close> down as well, as the compiled code does; in C, where \<^verbatim>\<open>len\<close>
  is negative, for a \<^verbatim>\<open>count\<close> of \<open>2 ^ 31\<close> or more that is not copied in words, it would end with
  an overflow.\<close>

definition rt_memcpy :: "u32 \<Rightarrow> u32 \<Rightarrow> u32 \<Rightarrow> memory \<Rightarrow> memory" where
  "rt_memcpy dst src count m = (let len = unat count
   in if \<not> len < 16 \<and> \<not> (UNALIGNED src \<or> UNALIGNED dst) then
        let (d, s, len, m) = memcpy_words4 dst src len m;
            (d, s, len, m) = memcpy_words d s len m
        in memcpy_bytes d s len m
      else memcpy_bytes dst src len m)"

fun memmove_down :: "u32 \<Rightarrow> u32 \<Rightarrow> nat \<Rightarrow> memory \<Rightarrow> memory" where
  "memmove_down d s 0 m = m"
| "memmove_down d s (Suc n) m = memmove_down (d - 1) (s - 1) n (m(d - 1 := m (s - 1)))"

definition rt_memmove :: "u32 \<Rightarrow> u32 \<Rightarrow> u32 \<Rightarrow> memory \<Rightarrow> memory" where
  "rt_memmove dest src n m =
     (if src < dest \<and> dest < src + n then memmove_down (dest + n) (src + n) (unat n) m
      else memcpy_bytes dest src (unat n) m)"

section \<open>Byte-wise meaning\<close>

definition fill :: "u32 \<Rightarrow> u8 \<Rightarrow> nat \<Rightarrow> memory \<Rightarrow> memory" where
  "fill p d n m = (\<lambda>a. if unat (a - p) < n then d else m a)"

definition copy :: "u32 \<Rightarrow> u32 \<Rightarrow> nat \<Rightarrow> memory \<Rightarrow> memory" where
  "copy d s n m = (\<lambda>a. if unat (a - d) < n then m (s + (a - d)) else m a)"

declare memset_words.simps [simp del] memset_words4.simps [simp del]
  memcpy_words.simps [simp del] memcpy_words4.simps [simp del]

text \<open>Offsets from a base address.\<close>

lemma unat_offset:
  fixes a p :: u32
  assumes "i + j \<le> 2 ^ 32"
  shows "unat (a - (p + of_nat i)) < j \<longleftrightarrow> i \<le> unat (a - p) \<and> unat (a - p) < i + j"
proof -
  let ?x = "unat (a - p)"
  have x: "?x < 2 ^ 32" using unsigned_less [of "a - p", where 'a = nat] by simp
  have eq: "unat (a - (p + of_nat i)) = unat (of_nat ?x - (of_nat i :: u32))"
    by (simp add: diff_diff_eq)
  show ?thesis
  proof (cases "i \<le> ?x")
    case True
    then have "of_nat ?x - (of_nat i :: u32) = of_nat (?x - i)" by (simp add: of_nat_diff)
    moreover have "unat (of_nat (?x - i) :: u32) = ?x - i"
      using x by (simp add: unat_of_nat_id)
    ultimately show ?thesis using eq True by auto
  next
    case False
    have "of_nat ?x - (of_nat i :: u32) = of_nat (2 ^ 32 + ?x - i)"
    proof -
      have "(of_nat (2 ^ 32 + ?x - i) :: u32) = of_nat (2 ^ 32 + ?x) - of_nat i"
        using assms by (intro of_nat_diff) simp
      also have "(of_nat (2 ^ 32 + ?x) :: u32) = of_nat ?x"
        by simp
      finally show ?thesis by simp
    qed
    moreover have "unat (of_nat (2 ^ 32 + ?x - i) :: u32) = 2 ^ 32 + ?x - i"
      using False by (intro unat_of_nat_id) simp
    ultimately show ?thesis using eq False assms by auto
  qed
qed


lemma unat_less_4:
  fixes x :: u32
  shows "unat x < 4 \<longleftrightarrow> x = 0 \<or> x = 1 \<or> x = 2 \<or> x = 3"
proof
  assume "unat x < 4"
  then have "unat x = 0 \<or> unat x = 1 \<or> unat x = 2 \<or> unat x = 3" by linarith
  then show "x = 0 \<or> x = 1 \<or> x = 2 \<or> x = 3" by (auto dest: unat_eq_numeral)
qed auto

lemma fill_0 [simp]: "fill p d 0 m = m"
  by (simp add: fill_def)

lemma fill_append:
  assumes "i + j \<le> 2 ^ 32"
  shows "fill (p + of_nat i) d j (fill p d i m) = fill p d (i + j) m"
  using assms by (auto simp: fill_def fun_eq_iff unat_offset)

lemma fill_1: "fill p d 1 m = m(p := d)"
  by (auto simp: fill_def fun_eq_iff unat_eq_0)

lemma memset_bytes_fill: "n \<le> 2 ^ 32 \<Longrightarrow> memset_bytes p d n m = fill p d n m"
proof (induction n arbitrary: p m)
  case (Suc n)
  then show ?case using fill_append [of 1 n p d m] by (simp add: fill_1 [simplified])
qed simp


subsection \<open>\<^verbatim>\<open>rt_memset\<close>\<close>

text \<open>\<open>buffer\<close> holds the byte four times.\<close>

definition rep4 :: "u8 \<Rightarrow> u32" where
  "rep4 b = (let d = ucast b; w = push_bit 8 d OR d in w OR push_bit 16 w)"

lemma bit_u8: "bit (b :: u8) m \<Longrightarrow> m < 8"
  using bit_imp_le_length [of b m] by simp

lemma rep4_bytes:
  "ucast (rep4 b) = b" "ucast (drop_bit 8 (rep4 b)) = b"
  "ucast (drop_bit 16 (rep4 b)) = b" "ucast (drop_bit 24 (rep4 b)) = b"
  by (rule bit_word_eqI; auto simp: rep4_def Let_def bit_push_bit_iff bit_or_iff bit_drop_bit_eq
      bit_unsigned_iff dest: bit_u8; fail)+

lemma store32_rep4: "store32 p (rep4 b) m = fill p b 4 m"
proof
  fix a
  have "a = p + x \<longleftrightarrow> a - p = x" for x :: u32 by (auto simp: algebra_simps)
  then show "store32 p (rep4 b) m a = fill p b 4 m a"
    by (auto simp: store32_def rep4_bytes fill_def unat_less_4)
qed

lemma fill_append4:
  "i + 4 \<le> 2 ^ 32 \<Longrightarrow> store32 (p + of_nat i) (rep4 b) (fill p b i m) = fill p b (i + 4) m"
  by (simp add: store32_rep4 fill_append)

lemma memset_words_fill:
  "n \<le> 2 ^ 32 \<Longrightarrow> memset_words p (rep4 b) n m =
     (p + of_nat (4 * (n div 4)), n mod 4, fill p b (4 * (n div 4)) m)"
proof (induction p "rep4 b" n m rule: memset_words.induct)
  case (1 p n m)
  show ?case
  proof (cases "4 \<le> n")
    case True
    define q where "q = (n - 4) div 4"
    have q: "n div 4 = Suc q" "(n - 4) mod 4 = n mod 4"
      using True by (simp_all add: q_def le_div_geq le_mod_geq)
    have bound: "4 + 4 * q \<le> 2 ^ 32" using 1(2) True by (simp add: q_def)
    have "fill (p + of_nat 4) b (4 * q) (fill p b 4 m) = fill p b (4 + 4 * q) m"
      using bound by (rule fill_append)
    then have "fill (p + 4) b (4 * q) (store32 p (rep4 b) m) = fill p b (4 * Suc q) m"
      by (simp add: store32_rep4)
    then show ?thesis
      using 1 True q by (subst memset_words.simps) (simp add: q_def [symmetric] algebra_simps)
  next
    case False
    then show ?thesis by (subst memset_words.simps) simp
  qed
qed

lemma memset_words4_fill:
  "n \<le> 2 ^ 32 \<Longrightarrow> memset_words4 p (rep4 b) n m =
     (p + of_nat (16 * (n div 16)), n mod 16, fill p b (16 * (n div 16)) m)"
proof (induction p "rep4 b" n m rule: memset_words4.induct)
  case (1 p n m)
  show ?case
  proof (cases "16 \<le> n")
    case True
    define q where "q = (n - 16) div 16"
    have q: "n div 16 = Suc q" "(n - 16) mod 16 = n mod 16"
      using True by (simp_all add: q_def le_div_geq le_mod_geq)
    have bound: "16 + 16 * q \<le> 2 ^ 32" using 1(2) True by (simp add: q_def)
    let ?m = "store32 (p + 12) (rep4 b) (store32 (p + 8) (rep4 b)
      (store32 (p + 4) (rep4 b) (store32 p (rep4 b) m)))"
    have m: "?m = fill p b 16 m"
      using fill_append4 [of 0 p b m] fill_append4 [of 4 p b m]
        fill_append4 [of 8 p b m] fill_append4 [of 12 p b m] by simp
    have "fill (p + of_nat 16) b (16 * q) (fill p b 16 m) = fill p b (16 + 16 * q) m"
      using bound by (rule fill_append)
    then have "fill (p + 16) b (16 * q) ?m = fill p b (16 * Suc q) m"
      unfolding m by simp
    then show ?thesis
      using 1 True q
      by (subst memset_words4.simps) (simp add: Let_def q_def [symmetric] algebra_simps)
  next
    case False
    then show ?thesis by (subst memset_words4.simps) simp
  qed
qed

theorem rt_memset_fill: "rt_memset s c count m = fill s (ucast c) (unat count) m"
proof -
  let ?n = "unat count" and ?b = "ucast c :: u8"
  have n: "?n < 2 ^ 32" using unsigned_less [of count, where 'a = nat] by simp
  have d: "ucast (c AND 0xff) = ?b" "ucast ?b = c AND (0xff :: u32)"
  proof -
    have ff: "(0xff :: u32) = mask 8" by (simp add: mask_eq_exp_minus_1)
    show "ucast (c AND 0xff) = ?b" "ucast ?b = c AND (0xff :: u32)"
      unfolding ff by (rule bit_word_eqI; auto simp: bit_simps)+
  qed
  have buf: "(let buffer = push_bit 8 (c AND 0xff) OR (c AND 0xff) in
      buffer OR push_bit 16 buffer) = rep4 ?b"
    by (simp add: rep4_def d Let_def)
  define q where "q = 16 * (?n div 16)"
  define r where "r = 4 * (?n mod 16 div 4)"
  have split: "q + r + ?n mod 16 mod 4 = ?n" unfolding q_def r_def by presburger
  have "fill (s + of_nat q + of_nat r) ?b (?n mod 16 mod 4)
      (fill (s + of_nat q) ?b r (fill s ?b q m)) = fill s ?b ?n m"
    using split n fill_append [of q r s ?b m]
      fill_append [of "q + r" "?n mod 16 mod 4" s ?b m] by (simp add: add.assoc)
  moreover have "?n mod 16 \<le> 2 ^ 32" "?n mod 16 mod 4 \<le> 2 ^ 32"
    using n by (meson le_trans less_imp_le mod_less_eq_dividend)+
  ultimately have "(let (p, n, m) = memset_words4 s (rep4 ?b) ?n m;
       (p, n, m) = memset_words p (rep4 ?b) n m
     in memset_bytes p ?b n m) = fill s ?b ?n m"
    using n by (simp add: memset_words4_fill memset_words_fill memset_bytes_fill q_def r_def)
  then show ?thesis
    using n buf d(1) by (simp add: rt_memset_def Let_def memset_bytes_fill)
qed


subsection \<open>\<^verbatim>\<open>rt_memcpy\<close>\<close>

text \<open>Copying upwards is safe unless the destination starts inside the source, behind its
  start.\<close>

definition copies_up :: "u32 \<Rightarrow> u32 \<Rightarrow> nat \<Rightarrow> bool" where
  "copies_up d s n \<longleftrightarrow> d = s \<or> n \<le> unat (d - s)"

lemma copies_up_less: "copies_up d s n \<Longrightarrow> k \<le> n \<Longrightarrow> copies_up d s k"
  by (auto simp: copies_up_def)

lemma copies_up_offset [simp]: "copies_up (d + x) (s + x) n \<longleftrightarrow> copies_up d s n"
  by (simp add: copies_up_def)

lemma unat_diff_wrap:
  fixes x y :: u32
  assumes "unat x < unat y"
  shows "unat (x - y) = 2 ^ 32 + unat x - unat y"
proof -
  have "x < y" using assms by (simp add: word_less_nat_alt)
  then have "\<not> y \<le> x" by simp
  then show ?thesis
    using unat_sub_if_size [of x y] assms by (simp add: word_size word_le_nat_alt)
qed

lemma copy_0 [simp]: "copy d s 0 m = m"
  by (simp add: copy_def)

lemma copy_append:
  assumes n: "i + j \<le> 2 ^ 32" and up: "copies_up d s (i + j)"
  shows "copy (d + of_nat i) (s + of_nat i) j (copy d s i m) = copy d s (i + j) m"
proof
  fix a
  let ?x = "unat (a - d)" and ?b = "s + (a - d)"
  have "unat (?b - d) \<ge> i" if x: "i \<le> ?x" "?x < i + j"
  proof (cases "d = s")
    case False
    have eq: "?b - d = (a - d) - (d - s)" by simp
    have "?x < unat (d - s)" using up False x by (simp add: copies_up_def)
    then have "unat (?b - d) = 2 ^ 32 + ?x - unat (d - s)"
      unfolding eq by (rule unat_diff_wrap)
    moreover have "unat (d - s) < 2 ^ 32" using unsigned_less [of "d - s", where 'a = nat] by simp
    ultimately show ?thesis using x by linarith
  qed (use x in simp)
  then show "copy (d + of_nat i) (s + of_nat i) j (copy d s i m) a = copy d s (i + j) m a"
    using unat_offset [OF n, of a d] by (auto simp: copy_def algebra_simps)
qed

lemma copy_1: "copy d s 1 m = m(d := m s)"
  by (auto simp: copy_def fun_eq_iff unat_eq_0)

lemma memcpy_bytes_copy:
  "n \<le> 2 ^ 32 \<Longrightarrow> copies_up d s n \<Longrightarrow> memcpy_bytes d s n m = copy d s n m"
proof (induction n arbitrary: d s m)
  case (Suc n)
  then show ?case using copy_append [of 1 n d s m] copies_up_less [of d s "Suc n" n]
    by (simp add: copy_1 [simplified])
qed simp

lemma load32_bytes:
  "ucast (load32 m p) = m p" "ucast (drop_bit 8 (load32 m p)) = m (p + 1)"
  "ucast (drop_bit 16 (load32 m p)) = m (p + 2)" "ucast (drop_bit 24 (load32 m p)) = m (p + 3)"
  by (rule bit_word_eqI; auto simp: load32_def bit_push_bit_iff bit_or_iff bit_drop_bit_eq
      bit_unsigned_iff dest: bit_u8; fail)+

lemma store32_load32: "store32 d (load32 m s) m = copy d s 4 m"
proof
  fix a
  have "a = d + x \<longleftrightarrow> a - d = x" for x :: u32 by (auto simp: algebra_simps)
  then show "store32 d (load32 m s) m a = copy d s 4 m a"
    by (auto simp: store32_def load32_bytes copy_def unat_less_4)
qed

lemma load32_store32 [simp]: "load32 (store32 p w m) p = w"
proof (rule bit_word_eqI)
  fix n assume "n < LENGTH(32)"
  then consider "n < 8" | "8 \<le> n \<and> n < 16" | "16 \<le> n \<and> n < 24" | "24 \<le> n \<and> n < 32"
    by fastforce
  then show "bit (load32 (store32 p w m) p) n = bit w n"
    by cases (auto simp: load32_def store32_def bit_push_bit_iff bit_or_iff bit_drop_bit_eq
        bit_unsigned_iff)
qed

lemma unat_minus_wrap: "w \<noteq> 0 \<Longrightarrow> unat (- w :: u32) = 2 ^ 32 - unat w"
  using unat_diff_wrap [of 0 w] by (simp add: unat_gt_0)

text \<open>Words at a distance of at least 4 do not touch each other.\<close>

lemma store32_other: "4 \<le> a - p \<Longrightarrow> store32 p w m a = m a"
proof -
  assume "4 \<le> a - p"
  then have "a - p \<noteq> 0 \<and> a - p \<noteq> 1 \<and> a - p \<noteq> 2 \<and> a - p \<noteq> 3" by (auto simp: word_le_nat_alt)
  then show ?thesis by (auto simp: store32_def algebra_simps)
qed

lemma load32_cong:
  "m' q = m q \<Longrightarrow> m' (q + 1) = m (q + 1) \<Longrightarrow> m' (q + 2) = m (q + 2) \<Longrightarrow> m' (q + 3) = m (q + 3) \<Longrightarrow>
    load32 m' q = load32 m q"
  by (simp add: load32_def)

lemma word_apart:
  fixes p q :: u32
  assumes "4 \<le> q - p" "4 \<le> p - q" "j < 4"
  shows "4 \<le> q + of_nat j - p"
proof -
  let ?d = "unat (q - p)"
  have "?d \<ge> 4" using assms(1) by (simp add: word_le_nat_alt)
  moreover have "?d + 4 \<le> 2 ^ 32"
  proof -
    have "unat (p - q) = 2 ^ 32 - ?d"
      using unat_minus_wrap [of "q - p"] assms(1) by (cases "q = p") (simp_all add: word_le_nat_alt)
    then show ?thesis using assms(2) unsigned_less [of "q - p", where 'a = nat] by (simp add: word_le_nat_alt)
  qed
  moreover have e: "q + of_nat j - p = (q - p) + of_nat j" by simp
  moreover have "unat (of_nat j :: u32) = j" using assms(3) by (simp add: unat_of_nat)
  ultimately have "unat ((q - p) + of_nat j) = ?d + j" using assms(3) by (simp only: unat_word_ariths) simp
  then show ?thesis unfolding e using \<open>?d \<ge> 4\<close> by (simp only: word_le_nat_alt) simp
qed

lemma load32_store32_other:
  "4 \<le> q - p \<Longrightarrow> 4 \<le> p - q \<Longrightarrow> load32 (store32 p w m) q = load32 m q"
  using word_apart [of q p 0] word_apart [of q p 1] word_apart [of q p 2] word_apart [of q p 3]
  by (intro load32_cong store32_other) simp_all

text \<open>The slots of an array of words.\<close>

lemma slot_apart:
  assumes "i < 2 ^ 16" "j < 2 ^ 16" "i \<noteq> j"
  shows "4 \<le> (p + 4 * of_nat i) - (p + 4 * of_nat j :: u32)"
proof (cases "j < i")
  case True
  then have "(p + 4 * of_nat i) - (p + 4 * of_nat j :: u32) = of_nat (4 * (i - j))"
    by (simp add: of_nat_diff algebra_simps)
  moreover have "unat (of_nat (4 * (i - j)) :: u32) = 4 * (i - j)"
    using assms(1) by (intro unat_of_nat_id) simp
  ultimately show ?thesis using True by (simp add: word_le_nat_alt del: of_nat_mult)
next
  case False
  then have e: "(p + 4 * of_nat i) - (p + 4 * of_nat j :: u32) = - of_nat (4 * (j - i))"
    using assms(3) by (simp add: of_nat_diff algebra_simps)
  have u: "unat (of_nat (4 * (j - i)) :: u32) = 4 * (j - i)"
    using assms(2) by (intro unat_of_nat_id) simp
  then have "(of_nat (4 * (j - i)) :: u32) \<noteq> 0" using False assms(3) by (auto simp: unat_eq_0 [symmetric])
  then have "unat (- of_nat (4 * (j - i)) :: u32) = 2 ^ 32 - 4 * (j - i)" using u by (simp add: unat_minus_wrap)
  then show ?thesis unfolding e using assms(2) by (simp add: word_le_nat_alt del: of_nat_mult)
qed

lemma load32_slot_other:
  "i < 2 ^ 16 \<Longrightarrow> j < 2 ^ 16 \<Longrightarrow> i \<noteq> j \<Longrightarrow>
    load32 (store32 (p + 4 * of_nat i) w m) (p + 4 * of_nat j) = load32 m (p + 4 * of_nat j)"
  using slot_apart [of j i p] slot_apart [of i j p] by (intro load32_store32_other) auto

lemma copy_append4:
  "i + 4 \<le> 2 ^ 32 \<Longrightarrow> copies_up d s (i + 4) \<Longrightarrow>
     store32 (d + of_nat i) (load32 (copy d s i m) (s + of_nat i)) (copy d s i m) =
     copy d s (i + 4) m"
  by (simp add: store32_load32 copy_append)

lemma memcpy_words_copy:
  "n \<le> 2 ^ 32 \<Longrightarrow> copies_up d s n \<Longrightarrow> memcpy_words d s n m =
     (d + of_nat (4 * (n div 4)), s + of_nat (4 * (n div 4)), n mod 4, copy d s (4 * (n div 4)) m)"
proof (induction d s n m rule: memcpy_words.induct)
  case (1 d s n m)
  show ?case
  proof (cases "4 \<le> n")
    case True
    define q where "q = (n - 4) div 4"
    have q: "n div 4 = Suc q" "(n - 4) mod 4 = n mod 4"
      using True by (simp_all add: q_def le_div_geq le_mod_geq)
    have bound: "4 + 4 * q \<le> 2 ^ 32" "4 + 4 * q \<le> n" using 1(2) True by (simp_all add: q_def)
    have up: "copies_up d s (n - 4)" using 1(3) by (rule copies_up_less) simp
    have "copy (d + of_nat 4) (s + of_nat 4) (4 * q) (copy d s 4 m) = copy d s (4 + 4 * q) m"
      using bound 1(3) by (intro copy_append) (auto intro: copies_up_less)
    then have "copy (d + 4) (s + 4) (4 * q) (store32 d (load32 m s) m) = copy d s (4 * Suc q) m"
      by (simp add: store32_load32)
    then show ?thesis
      using 1 True q up by (subst memcpy_words.simps) (simp add: q_def [symmetric] algebra_simps)
  next
    case False
    then show ?thesis by (subst memcpy_words.simps) simp
  qed
qed

lemma memcpy_words4_copy:
  "n \<le> 2 ^ 32 \<Longrightarrow> copies_up d s n \<Longrightarrow> memcpy_words4 d s n m =
     (d + of_nat (16 * (n div 16)), s + of_nat (16 * (n div 16)), n mod 16,
      copy d s (16 * (n div 16)) m)"
proof (induction d s n m rule: memcpy_words4.induct)
  case (1 d s n m)
  show ?case
  proof (cases "16 \<le> n")
    case True
    define q where "q = (n - 16) div 16"
    have q: "n div 16 = Suc q" "(n - 16) mod 16 = n mod 16"
      using True by (simp_all add: q_def le_div_geq le_mod_geq)
    have bound: "16 + 16 * q \<le> 2 ^ 32" "16 + 16 * q \<le> n"
      using 1(2) True by (simp_all add: q_def)
    have up: "copies_up d s (n - 16)" using 1(3) by (rule copies_up_less) simp
    have ups: "copies_up d s 4" "copies_up d s 8" "copies_up d s 12" "copies_up d s 16"
      using 1(3) True by (auto intro: copies_up_less)
    define m4 where "m4 = (let m = store32 d (load32 m s) m;
            m = store32 (d + 4) (load32 m (s + 4)) m;
            m = store32 (d + 8) (load32 m (s + 8)) m
        in store32 (d + 12) (load32 m (s + 12)) m)"
    have m: "m4 = copy d s 16 m"
      using copy_append4 [of 0 d s m] copy_append4 [of 4 d s m]
        copy_append4 [of 8 d s m] copy_append4 [of 12 d s m] ups
      by (simp add: m4_def Let_def)
    have "copy (d + of_nat 16) (s + of_nat 16) (16 * q) (copy d s 16 m) = copy d s (16 + 16 * q) m"
      using bound 1(3) by (intro copy_append) (auto intro: copies_up_less)
    then have c: "copy (d + 16) (s + 16) (16 * q) m4 = copy d s (16 * Suc q) m"
      unfolding m by simp
    have "memcpy_words4 d s n m = memcpy_words4 (d + 16) (s + 16) (n - 16) m4"
      using True by (subst memcpy_words4.simps) (simp add: m4_def Let_def)
    also have "\<dots> = (d + 16 + of_nat (16 * q), s + 16 + of_nat (16 * q), n mod 16,
        copy (d + 16) (s + 16) (16 * q) m4)"
      using 1 True up q by (simp add: m4_def Let_def q_def)
    finally show ?thesis using c q by (simp add: algebra_simps)
  next
    case False
    then show ?thesis by (subst memcpy_words4.simps) simp
  qed
qed

theorem rt_memcpy_copy:
  assumes up: "copies_up dst src (unat count)"
  shows "rt_memcpy dst src count m = copy dst src (unat count) m"
proof -
  let ?n = "unat count"
  have n: "?n < 2 ^ 32" using unsigned_less [of count, where 'a = nat] by simp
  define q where "q = 16 * (?n div 16)"
  define r where "r = 4 * (?n mod 16 div 4)"
  have split: "q + r + ?n mod 16 mod 4 = ?n" unfolding q_def r_def by presburger
  have le: "?n mod 16 \<le> ?n" "?n mod 16 mod 4 \<le> ?n" "q + r \<le> ?n"
    using split by (auto intro: order.trans [OF mod_less_eq_dividend])
  have c1: "copy (dst + of_nat q) (src + of_nat q) r (copy dst src q m) = copy dst src (q + r) m"
    using le n by (intro copy_append copies_up_less [OF up]) auto
  have c2: "copy (dst + of_nat (q + r)) (src + of_nat (q + r)) (?n mod 16 mod 4)
      (copy dst src (q + r) m) = copy dst src ?n m"
    using split n copy_append [of "q + r" "?n mod 16 mod 4" dst src m] up by simp
  have ups: "copies_up dst src (?n mod 16)" "copies_up dst src (?n mod 16 mod 4)"
    using le by (auto intro: copies_up_less [OF up])
  have "(let (d, s, len, m) = memcpy_words4 dst src ?n m;
       (d, s, len, m) = memcpy_words d s len m
     in memcpy_bytes d s len m) = copy dst src ?n m"
    using n le ups c1 c2 up
    by (simp add: memcpy_words4_copy memcpy_words_copy memcpy_bytes_copy q_def [symmetric]
        r_def [symmetric] add.assoc)
  then show ?thesis
    using n up by (simp add: rt_memcpy_def Let_def memcpy_bytes_copy)
qed


subsection \<open>\<^verbatim>\<open>rt_memmove\<close>\<close>

lemma memmove_down_copy:
  "n < 2 ^ 32 \<Longrightarrow> d = s \<or> n \<le> unat (s - d) \<Longrightarrow>
     memmove_down (d + of_nat n) (s + of_nat n) n m = copy d s n m"
proof (induction n arbitrary: m)
  case (Suc n)
  let ?m = "m(d + of_nat n := m (s + of_nat n))"
  have "memmove_down (d + of_nat (Suc n)) (s + of_nat (Suc n)) (Suc n) m = copy d s n ?m"
  proof -
    have "d = s \<or> n \<le> unat (s - d)" using Suc.prems(2) by auto
    moreover have "n < 2 ^ 32" using Suc.prems(1) by simp
    ultimately have "memmove_down (d + of_nat n) (s + of_nat n) n ?m = copy d s n ?m"
      by (intro Suc.IH)
    moreover have "x + of_nat (Suc n) - 1 = x + of_nat n" for x :: u32 by simp
    ultimately show ?thesis by (simp only: memmove_down.simps)
  qed
  also have "\<dots> = copy d s (Suc n) m"
  proof
    fix a
    let ?x = "unat (a - d)"
    have x: "a - d = of_nat ?x" by simp
    have "s + (a - d) \<noteq> d + of_nat n" if "?x < n"
    proof
      assume "s + (a - d) = d + of_nat n"
      then have "s - d = of_nat n - of_nat ?x" by (simp add: algebra_simps)
      then have "s - d = of_nat (n - ?x)" using that by (simp add: of_nat_diff)
      then have "unat (s - d) = n - ?x" using Suc.prems by (simp add: unat_of_nat_id)
      then show False using Suc.prems(2) that by auto
    qed
    moreover have "?x = n \<longleftrightarrow> a = d + of_nat n"
    proof
      assume "?x = n"
      with x have "a - d = of_nat n" by simp
      then show "a = d + of_nat n" by (simp add: algebra_simps)
    qed (use Suc.prems in \<open>simp add: unat_of_nat_id\<close>)
    ultimately show "copy d s n ?m a = copy d s (Suc n) m a"
      unfolding copy_def less_Suc_eq fun_upd_def by (cases "a = d + of_nat n") simp_all
  qed
  finally show ?case .
qed simp

theorem rt_memmove_copy:
  assumes s: "unat src + unat n < 2 ^ 32" and d: "unat dest + unat n \<le> 2 ^ 32"
  shows "rt_memmove dest src n m = copy dest src (unat n) m"
proof -
  have n: "unat n < 2 ^ 32" using unsigned_less [of n, where 'a = nat] by simp
  have sn: "unat (src + n) = unat src + unat n" using s by (simp add: unat_word_ariths)
  show ?thesis
  proof (cases "src < dest \<and> dest < src + n")
    case True
    then have lt: "unat src < unat dest" by (simp add: word_less_nat_alt)
    have "unat (src - dest) = 2 ^ 32 + unat src - unat dest" using lt by (rule unat_diff_wrap)
    then have "unat n \<le> unat (src - dest)" using d by linarith
    then show ?thesis using True n memmove_down_copy [of "unat n" dest src m]
      by (simp add: rt_memmove_def)
  next
    case False
    have "copies_up dest src (unat n)"
    proof (cases "dest < src")
      case True
      then have lt: "unat dest < unat src" by (simp add: word_less_nat_alt)
      then have "unat (dest - src) = 2 ^ 32 + unat dest - unat src" by (rule unat_diff_wrap)
      then show ?thesis using s unfolding copies_up_def by linarith
    next
      case ge: False
      show ?thesis
      proof (cases "dest = src")
        case False': False
        then have "src + n \<le> dest" using False ge by auto
        then have "unat src + unat n \<le> unat dest" using sn by (simp add: word_le_nat_alt)
        moreover have "unat (dest - src) = unat dest - unat src"
          using ge by (simp add: unat_sub not_less)
        ultimately show ?thesis unfolding copies_up_def by linarith
      qed (simp add: copies_up_def)
    qed
    then show ?thesis using n unfolding rt_memmove_def if_not_P [OF False]
      by (simp add: memcpy_bytes_copy)
  qed
qed

definition bytes :: "memory \<Rightarrow> u32 \<Rightarrow> nat \<Rightarrow> u8 list" where
  "bytes m p n = map (\<lambda>i. m (p + of_nat i)) [0..<n]"

lemma bytes_0 [simp]: "bytes m p 0 = []"
  and bytes_Suc [simp]: "bytes m p (Suc n) = m p # bytes m (p + 1) n"
proof -
  show "bytes m p (Suc n) = m p # bytes m (p + 1) n"
    unfolding bytes_def upt_conv_Cons [OF zero_less_Suc] list.map
    by (simp add: map_Suc_upt [symmetric] comp_def algebra_simps del: upt_Suc)
qed (simp add: bytes_def)

lemma length_bytes [simp]: "length (bytes m p n) = n"
  by (simp add: bytes_def)

lemma nth_bytes [simp]: "i < n \<Longrightarrow> bytes m p n ! i = m (p + of_nat i)"
  by (simp add: bytes_def)

text \<open>After a copy the destination holds what the source held.\<close>

lemma bytes_copy: "n \<le> 2 ^ 32 \<Longrightarrow> bytes (copy d s n m) d n = bytes m s n"
  by (auto simp: bytes_def copy_def unat_of_nat_id)

section \<open>Properties\<close>

text \<open>C37: Unless the destination starts behind the start of the source and inside it, \<open>rt_memcpy\<close>,
  with its unrolled loops over words, makes every byte of the destination equal to the
  corresponding byte of the source as it was, and changes no other byte of the memory.\<close>

theorem rt_memcpy_bytes:
  assumes "dst = src \<or> count \<le> dst - src"
  shows "rt_memcpy dst src count m a =
    (if a - dst < count then m (src + (a - dst)) else m a)"
proof -
  have "copies_up dst src (unat count)" using assms by (auto simp: copies_up_def word_le_nat_alt)
  then show ?thesis by (simp add: rt_memcpy_copy copy_def word_less_nat_alt)
qed

theorem rt_memcpy_bytes_witness:
  "rt_memcpy 0x2000 0x1000 22 (\<lambda>a. ucast a) 0x2015 = 0x15"
  using rt_memcpy_bytes [of "0x2000" "0x1000" 22 "\<lambda>a. ucast a" "0x2015"] by simp

text \<open>C38: \<open>rt_memmove\<close> copies a block that does not run around the end of the address space onto
  any other, overlapping or not: the destination gets the source as it was, and nothing else
  changes.\<close>

theorem rt_memmove_bytes:
  assumes "unat src + unat n < 2 ^ 32" "unat dest + unat n \<le> 2 ^ 32"
  shows "rt_memmove dest src n m a =
    (if a - dest < n then m (src + (a - dest)) else m a)"
  by (simp add: rt_memmove_copy [OF assms] copy_def word_less_nat_alt)

theorem rt_memmove_bytes_witness:
  "rt_memmove 0x1002 0x1000 8 (\<lambda>a. ucast a) 0x1009 = 7"
  using rt_memmove_bytes [of "0x1000" 8 "0x1002" "\<lambda>a. ucast a" "0x1009"] by simp

text \<open>\<open>rt_memset\<close>, which stores words when it can, sets exactly the \<open>count\<close> bytes from \<open>s\<close> on to
  the low byte of \<open>c\<close>.\<close>

theorem rt_memset_bytes: "rt_memset s c count m a = (if a - s < count then ucast c else m a)"
  by (simp add: rt_memset_fill fill_def word_less_nat_alt)

end
