(* ===== verification/KStrings.thy ===== *)
theory KStrings
  imports Prelude
begin

text \<open>
  The string routines of \<^verbatim>\<open>src/kservice.c\<close>.  A \<^verbatim>\<open>char *\<close> is the list of the bytes from the
  pointer to the end of the object it points into: \<^verbatim>\<open>p++\<close> drops the first byte, and reading or
  writing outside the object is the result \<^const>\<open>None\<close>.  \<^verbatim>\<open>char\<close> is unsigned, as in the
  RISC-V ABI the kernel is built for.
\<close>

type_synonym char_ptr = "u8 list"

section \<open>The routines\<close>

fun strlen_from :: "char_ptr \<Rightarrow> nat \<Rightarrow> nat option" where
  "strlen_from [] n = None"
| "strlen_from (c # sc) n = (if c \<noteq> 0 then strlen_from sc (Suc n) else Some n)"

definition rt_strlen :: "char_ptr \<Rightarrow> nat option" where
  "rt_strlen s = strlen_from s 0"

text \<open>The byte is read before its index is compared with \<open>maxlen\<close>.\<close>

fun strnlen_from :: "char_ptr \<Rightarrow> nat \<Rightarrow> nat \<Rightarrow> nat option" where
  "strnlen_from [] maxlen n = None"
| "strnlen_from (c # sc) maxlen n =
     (if c \<noteq> 0 \<and> n < maxlen then strnlen_from sc maxlen (Suc n) else Some n)"

definition rt_strnlen :: "char_ptr \<Rightarrow> nat \<Rightarrow> nat option" where
  "rt_strnlen s maxlen = strnlen_from s maxlen 0"

fun rt_strcmp :: "char_ptr \<Rightarrow> char_ptr \<Rightarrow> int option" where
  "rt_strcmp (c # cs) (d # ct) =
     (if c \<noteq> 0 \<and> c = d then rt_strcmp cs ct else Some (uint c - uint d))"
| "rt_strcmp _ _ = None"

text \<open>\<^verbatim>\<open>__res\<close> is a \<^verbatim>\<open>signed char\<close>: the difference is truncated to 8 bits.\<close>

fun strncmp_from :: "char_ptr \<Rightarrow> char_ptr \<Rightarrow> nat \<Rightarrow> int \<Rightarrow> int option" where
  "strncmp_from cs ct 0 res = Some res"
| "strncmp_from (c # cs) (d # ct) (Suc count) res = (let res = sint (c - d)
     in if res \<noteq> 0 \<or> c = 0 then Some res else strncmp_from cs ct count res)"
| "strncmp_from _ _ _ _ = None"

definition rt_strncmp :: "char_ptr \<Rightarrow> char_ptr \<Rightarrow> nat \<Rightarrow> int option" where
  "rt_strncmp cs ct count = strncmp_from cs ct count 0"

definition to_lower :: "u8 \<Rightarrow> int" where
  "to_lower c = (if 65 \<le> uint c \<and> uint c \<le> 90 then uint c + (97 - 65) else uint c)"

fun rt_strcasecmp :: "char_ptr \<Rightarrow> char_ptr \<Rightarrow> int option" where
  "rt_strcasecmp (a # as) (b # bs) = (let ca = to_lower a; cb = to_lower b
     in if ca = cb \<and> ca \<noteq> 0 then rt_strcasecmp as bs else Some (ca - cb))"
| "rt_strcasecmp _ _ = None"

text \<open>\<open>zero_fill\<close> is the inner loop, which pads with NUL.\<close>

fun zero_fill :: "char_ptr \<Rightarrow> nat \<Rightarrow> char_ptr option" where
  "zero_fill d 0 = Some d"
| "zero_fill (_ # d) (Suc n) = do { d' \<leftarrow> zero_fill d n; Some (0 # d') }"
| "zero_fill [] (Suc n) = None"

fun rt_strncpy :: "char_ptr \<Rightarrow> char_ptr \<Rightarrow> nat \<Rightarrow> char_ptr option" where
  "rt_strncpy d s 0 = Some d"
| "rt_strncpy (_ # d) (c # s) (Suc n) = do {
     d' \<leftarrow> if c = 0 then zero_fill d n else rt_strncpy d s n;
     Some (c # d')
   }"
| "rt_strncpy _ _ (Suc n) = None"

fun rt_memcmp :: "char_ptr \<Rightarrow> char_ptr \<Rightarrow> nat \<Rightarrow> int option" where
  "rt_memcmp _ _ 0 = Some 0"
| "rt_memcmp (c # su1) (d # su2) (Suc count) = (let res = uint c - uint d
     in if res \<noteq> 0 then Some res else rt_memcmp su1 su2 count)"
| "rt_memcmp _ _ (Suc count) = None"

text \<open>\<open>i\<close> counts the increments of \<^verbatim>\<open>s1\<close>: the result is the offset of the occurrence.\<close>

fun strstr_from :: "char_ptr \<Rightarrow> char_ptr \<Rightarrow> int \<Rightarrow> int \<Rightarrow> nat \<Rightarrow> nat option option" where
  "strstr_from s1 s2 l1 l2 i =
     (if l1 \<ge> l2 then do {
        r \<leftarrow> rt_memcmp s1 s2 (nat l2);
        if r = 0 then Some (Some i)
        else case s1 of [] \<Rightarrow> None | _ # s1' \<Rightarrow> strstr_from s1' s2 (l1 - 1) l2 (Suc i)
      } else Some None)"

definition rt_strstr :: "char_ptr \<Rightarrow> char_ptr \<Rightarrow> nat option option" where
  "rt_strstr s1 s2 = do {
     l2 \<leftarrow> rt_strlen s2;
     if l2 = 0 then Some (Some 0)
     else do {
       l1 \<leftarrow> rt_strlen s1;
       strstr_from s1 s2 (int l1) (int l2) 0
     }
   }"

section \<open>What they compute\<close>

text \<open>The string at a pointer: the bytes before the first NUL, if there is one.\<close>

definition c_string :: "char_ptr \<Rightarrow> u8 list option" where
  "c_string s = (if 0 \<in> set s then Some (takeWhile (\<lambda>c. c \<noteq> 0) s) else None)"

lemma c_string_Nil [simp]: "c_string [] = None"
  and c_string_Cons [simp]:
    "c_string (c # s) = (if c = 0 then Some [] else map_option ((#) c) (c_string s))"
  by (auto simp: c_string_def)

lemma strlen_from_c_string: "strlen_from s n = map_option (\<lambda>a. n + length a) (c_string s)"
  by (induction s arbitrary: n) (auto simp: option.map_comp comp_def)

theorem rt_strlen_c_string: "rt_strlen s = map_option length (c_string s)"
  by (simp add: rt_strlen_def strlen_from_c_string)

text \<open>\<open>rt_strnlen\<close> needs one readable byte behind the limit.\<close>

lemma strnlen_from_eq:
  "n \<le> maxlen \<Longrightarrow> strnlen_from s maxlen n =
     (case c_string s of Some a \<Rightarrow> Some (min maxlen (n + length a))
      | None \<Rightarrow> if maxlen - n < length s then Some maxlen else None)"
  by (induction s arbitrary: n) (auto split: option.splits simp: Suc_diff_le not_less)

theorem rt_strnlen_eq:
  "rt_strnlen s maxlen =
     (case c_string s of Some a \<Rightarrow> Some (min maxlen (length a))
      | None \<Rightarrow> if maxlen < length s then Some maxlen else None)"
  by (simp add: rt_strnlen_def strnlen_from_eq split: option.splits)

theorem rt_strcmp_zero:
  assumes "c_string s = Some a" "c_string t = Some b"
  shows "\<exists>r. rt_strcmp s t = Some r \<and> (r = 0 \<longleftrightarrow> a = b)"
  using assms
proof (induction s t arbitrary: a b rule: rt_strcmp.induct)
  case (1 c cs d ct)
  then show ?case by (cases "c = d") (auto split: if_splits simp: word_uint_eq_iff [symmetric])
qed auto

lemma sint_diff_zero: "sint (c - d) = 0 \<longleftrightarrow> c = (d :: u8)"
  by (metis eq_iff_diff_eq_0 signed_0 signed_word_eqI)

lemma strncmp_from_zero:
  assumes "c_string s = Some a" "c_string t = Some b"
  shows "\<exists>r. strncmp_from s t n 0 = Some r \<and> (r = 0 \<longleftrightarrow> take n a = take n b)"
  using assms
proof (induction s t n "0 :: int" arbitrary: a b rule: strncmp_from.induct)
  case (2 c cs d ct count)
  then show ?case by (cases "c = d") (auto split: if_splits simp: sint_diff_zero Let_def)
qed auto

theorem rt_strncmp_zero:
  assumes "c_string s = Some a" "c_string t = Some b"
  shows "\<exists>r. rt_strncmp s t n = Some r \<and> (r = 0 \<longleftrightarrow> take n a = take n b)"
  unfolding rt_strncmp_def by (rule strncmp_from_zero [OF assms])

text \<open>Object names are stored in a field of fixed size, with or without a NUL, and compared over
  its size.\<close>

definition name_field :: "nat \<Rightarrow> u8 list \<Rightarrow> char_ptr" where
  "name_field n a = take n (a @ replicate n 0)"

lemma length_name_field [simp]: "length (name_field n a) = n"
  by (simp add: name_field_def)

lemma name_field_0 [simp]: "name_field 0 a = []"
  and name_field_Suc: "name_field (Suc n) a =
    (case a of [] \<Rightarrow> 0 # replicate n 0 | c # a \<Rightarrow> c # name_field n a)"
proof -
  have "0 # replicate n 0 = replicate n (0 :: u8) @ [0]" by (simp add: replicate_append_same)
  then have "take n (as @ 0 # replicate n 0) = take n (as @ replicate n 0)" for as :: char_ptr
    by simp
  then show "name_field (Suc n) a =
    (case a of [] \<Rightarrow> 0 # replicate n 0 | c # a \<Rightarrow> c # name_field n a)"
    by (cases a) (simp_all add: name_field_def)
qed (simp add: name_field_def)

theorem rt_strncmp_name_field:
  assumes "0 \<notin> set a" "c_string t = Some b"
  shows "\<exists>r. rt_strncmp (name_field n a) t n = Some r \<and> (r = 0 \<longleftrightarrow> take n a = take n b)"
  using assms unfolding rt_strncmp_def
proof (induction n arbitrary: a b t)
  case (Suc n)
  obtain d t' where t: "t = d # t'" using Suc.prems(2) by (cases t) auto
  show ?case
  proof (cases a)
    case Nil
    have "sint (- d) = 0 \<longleftrightarrow> d = 0" using sint_diff_zero [of 0 d] by auto
    then show ?thesis using Suc.prems(2) Nil t
      by (auto simp: name_field_Suc Let_def split: if_splits)
  next
    case (Cons c a')
    show ?thesis
    proof (cases "c = d")
      case True
      then have "\<exists>r. strncmp_from (name_field n a') t' n 0 = Some r \<and>
          (r = 0 \<longleftrightarrow> take n a' = take n (tl b))"
        using Suc.prems Cons t by (intro Suc.IH) (auto split: if_splits)
      then show ?thesis using True Suc.prems Cons t
        by (auto simp: name_field_Suc Let_def split: if_splits)
    next
      case False
      then show ?thesis using Suc.prems Cons t sint_diff_zero [of c d]
        by (auto simp: name_field_Suc Let_def split: if_splits)
    qed
  qed
qed simp

lemma zero_fill_eq:
  "n \<le> length d \<Longrightarrow> zero_fill d n = Some (replicate n 0 @ drop n d)"
  by (induction d n rule: zero_fill.induct) auto

theorem rt_strncpy_eq:
  assumes "c_string s = Some a" "n \<le> length d"
  shows "rt_strncpy d s n = Some (name_field n a @ drop n d)"
  using assms
proof (induction d s n arbitrary: a rule: rt_strncpy.induct)
  case (2 x d c s n)
  then show ?case
    by (auto simp: zero_fill_eq name_field_Suc split: if_splits)
qed auto

lemma rt_strncpy_length: "rt_strncpy d s n = Some d' \<Longrightarrow> length d' = length d"
proof (induction d s n arbitrary: d' rule: rt_strncpy.induct)
  case (2 x d c s n)
  have "zero_fill d n = Some e \<Longrightarrow> length e = length d" for e
    by (induction d n arbitrary: e rule: zero_fill.induct) (auto split: bind_splits)
  with 2 show ?case by (auto split: bind_splits if_splits)
qed auto

lemma to_lower_zero [simp]: "to_lower c = 0 \<longleftrightarrow> c = 0" "0 = to_lower c \<longleftrightarrow> c = 0"
  and to_lower_0 [simp]: "to_lower 0 = 0"
  by (auto simp: to_lower_def word_uint_eq_iff)

theorem rt_strcasecmp_zero:
  assumes "c_string s = Some a" "c_string t = Some b"
  shows "\<exists>r. rt_strcasecmp s t = Some r \<and> (r = 0 \<longleftrightarrow> map to_lower a = map to_lower b)"
  using assms
proof (induction s t arbitrary: a b rule: rt_strcasecmp.induct)
  case (1 c cs d ct)
  then show ?case
    by (cases "to_lower c = to_lower d") (auto split: if_splits simp: Let_def)
qed auto

lemma rt_memcmp_zero:
  assumes "n \<le> length xs" "n \<le> length ys"
  shows "\<exists>r. rt_memcmp xs ys n = Some r \<and> (r = 0 \<longleftrightarrow> take n xs = take n ys)"
  using assms
  by (induction xs ys n rule: rt_memcmp.induct)
     (auto simp: Let_def word_uint_eq_iff [symmetric])

declare strstr_from.simps [simp del]


text \<open>\<open>rt_strstr\<close> finds the first occurrence.\<close>

definition occurs_at :: "u8 list \<Rightarrow> u8 list \<Rightarrow> nat \<Rightarrow> bool" where
  "occurs_at a b i \<longleftrightarrow> i + length b \<le> length a \<and> take (length b) (drop i a) = b"

definition first_occurrence :: "u8 list \<Rightarrow> u8 list \<Rightarrow> nat option" where
  "first_occurrence a b = find (occurs_at a b) [0..<Suc (length a)]"

lemma c_string_prefix: "c_string s = Some a \<Longrightarrow> \<exists>r. s = a @ r"
proof (induction s arbitrary: a)
  case (Cons c s)
  then show ?case by (auto split: if_splits)
qed simp

lemma find_upt_Suc:
  "m \<le> n \<Longrightarrow> find P [m..<Suc n] = (if P m then Some m else find P [Suc m..<Suc n])"
  by (simp add: upt_conv_Cons del: upt_Suc)

lemma find_none_upt: "(\<And>i. m \<le> i \<Longrightarrow> i < n \<Longrightarrow> \<not> P i) \<Longrightarrow> find P [m..<n] = None"
  by (auto simp: find_None_iff)

lemma strstr_from_eq:
  assumes "c_string s2 = Some b" "b \<noteq> []" "i \<le> length a" "s1 = drop i a @ r"
  shows "strstr_from s1 s2 (int (length a - i)) (int (length b)) i =
    Some (find (occurs_at a b) [i..<Suc (length a)])"
  using assms
proof (induction "length a - i" arbitrary: i s1)
  case 0
  then show ?case
    by (subst strstr_from.simps) (auto simp: occurs_at_def)
next
  case (Suc n)
  obtain t where s2: "s2 = b @ t" using c_string_prefix [OF Suc.prems(1)] by blast
  have il: "i < length a" using Suc.hyps(2) by linarith
  show ?case
  proof (cases "length b \<le> length a - i")
    case True
    then have "\<exists>v. rt_memcmp s1 s2 (length b) = Some v \<and> (v = 0 \<longleftrightarrow> take (length b) s1 = take (length b) s2)"
      using Suc.prems(4) s2 by (intro rt_memcmp_zero) auto
    then obtain v where v: "rt_memcmp s1 s2 (length b) = Some v"
      and v0: "v = 0 \<longleftrightarrow> occurs_at a b i"
      using Suc.prems(4) s2 True il by (auto simp: occurs_at_def)
    obtain c where s1: "s1 = c # drop (Suc i) a @ r"
      using Suc.prems(4) il by (simp add: Cons_nth_drop_Suc [symmetric])
    have "strstr_from (drop (Suc i) a @ r) s2 (int (length a - Suc i)) (int (length b)) (Suc i) =
        Some (find (occurs_at a b) [Suc i..<Suc (length a)])"
      using Suc.hyps il Suc.prems by (intro Suc.hyps(1)) auto
    moreover have "int (length a - Suc i) = int (length a - i) - 1" using il by simp
    ultimately show ?thesis
      using v v0 True il s1
      by (subst strstr_from.simps) (auto simp: find_upt_Suc simp del: upt_Suc)
  next
    case False
    then have "find (occurs_at a b) [i..<Suc (length a)] = None"
      by (intro find_none_upt) (auto simp: occurs_at_def)
    then show ?thesis using False by (subst strstr_from.simps) simp
  qed
qed

theorem rt_strstr_first:
  assumes "c_string s1 = Some a" "c_string s2 = Some b"
  shows "rt_strstr s1 s2 = Some (first_occurrence a b)"
proof (cases "b = []")
  case True
  then show ?thesis using assms
    by (simp add: rt_strstr_def rt_strlen_c_string first_occurrence_def occurs_at_def upt_conv_Cons
        del: upt_Suc)
next
  case False
  obtain r where "s1 = a @ r" using c_string_prefix [OF assms(1)] by blast
  then have "strstr_from s1 s2 (int (length a - 0)) (int (length b)) 0 =
      Some (find (occurs_at a b) [0..<Suc (length a)])"
    by (intro strstr_from_eq [OF assms(2) False]) simp_all
  then show ?thesis using assms False
    by (simp add: rt_strstr_def rt_strlen_c_string first_occurrence_def del: upt_Suc)
qed

section \<open>Properties\<close>

text \<open>An object name that has been stored with \<open>rt_strncpy\<close> in a field of \<open>n\<close> bytes, truncated
  or padded, is recognised by \<open>rt_strncmp\<close> over the size of the field: the comparison with a
  string yields 0 exactly when the two agree in their first \<open>n\<close> characters, and it never reads
  behind the field.\<close>

theorem rt_strncpy_strncmp:
  assumes "c_string s = Some a" "c_string t = Some b" "length d = n"
  shows "\<exists>f r. rt_strncpy d s n = Some f \<and> length f = n \<and> rt_strncmp f t n = Some r \<and>
    (r = 0 \<longleftrightarrow> take n a = take n b)"
proof -
  have "rt_strncpy d s n = Some (name_field n a)"
    using rt_strncpy_eq [OF assms(1), of n d] assms(3) by simp
  moreover have "0 \<notin> set a" using assms(1) by (auto simp: c_string_def split: if_splits dest: set_takeWhileD)
  ultimately show ?thesis using rt_strncmp_name_field [OF _ assms(2), of a n]
    by (auto simp: name_field_def)
qed

theorem rt_strncpy_strncmp_witness:
  "\<exists>f r. rt_strncpy (replicate 4 1) [105, 100, 108, 101, 48, 0] 4 = Some f \<and> length f = 4 \<and>
    rt_strncmp f [105, 100, 108, 101, 49, 0] 4 = Some r \<and> r = 0"
  using rt_strncpy_strncmp [of "[105, 100, 108, 101, 48, 0]" "[105, 100, 108, 101, 48]"
      "[105, 100, 108, 101, 49, 0]" "[105, 100, 108, 101, 49]" "replicate 4 1" 4] by simp

text \<open>C40: \<open>rt_strstr\<close> finds the first occurrence of one string in another, and none exactly when
  there is none; the empty string occurs at once.\<close>

theorem rt_strstr_correct:
  assumes "c_string s1 = Some a" "c_string s2 = Some b"
  shows "\<exists>r. rt_strstr s1 s2 = Some r \<and>
    (case r of None \<Rightarrow> \<forall>i. \<not> occurs_at a b i
     | Some i \<Rightarrow> occurs_at a b i \<and> (\<forall>j<i. \<not> occurs_at a b j))"
proof (cases "first_occurrence a b")
  case None
  have "\<not> occurs_at a b i" for i
    using None by (cases "i \<le> length a") (auto simp: first_occurrence_def find_None_iff occurs_at_def simp del: upt_Suc)
  then show ?thesis using rt_strstr_first [OF assms] None by simp
next
  case (Some i)
  then have "occurs_at a b i \<and> (\<forall>j<i. \<not> occurs_at a b j)"
    by (auto simp: first_occurrence_def find_Some_iff simp del: upt_Suc)
  then show ?thesis using rt_strstr_first [OF assms] Some by simp
qed

theorem rt_strstr_correct_witness:
  "\<exists>r. rt_strstr [1, 2, 1, 3, 0] [1, 3, 0] = Some r \<and> r = Some 2"
proof -
  from rt_strstr_correct [of "[1, 2, 1, 3, 0]" "[1, 2, 1, 3]" "[1, 3, 0]" "[1, 3]"]
  obtain r where r: "rt_strstr [1, 2, 1, 3, 0] [1, 3, 0] = Some r"
    "case r of None \<Rightarrow> \<forall>i. \<not> occurs_at [1, 2, 1, 3] [1, 3] i
     | Some i \<Rightarrow> occurs_at [1, 2, 1, 3] [1, 3] i \<and> (\<forall>j<i. \<not> occurs_at [1, 2, 1, 3] [1, 3] j)" by auto
  have o: "occurs_at [1, 2, 1, 3] [1, 3 :: u8] 2" by (simp add: occurs_at_def)
  have "\<not> occurs_at [1, 2, 1, 3] [1, 3 :: u8] j" if "j \<noteq> 2" for j
  proof (cases "j \<le> 2")
    case True
    then have "j = 0 \<or> j = 1" using that by linarith
    then show ?thesis by (auto simp: occurs_at_def)
  qed (simp add: occurs_at_def)
  then have "r = Some 2" using r(2) o by (cases r) auto
  then show ?thesis using r(1) by blast
qed

end
