(* ===== verification/Kernel.thy ===== *)
theory Kernel
  imports RtList KMem KStrings
begin

text \<open>
  The data of the kernel: the structures of \<^verbatim>\<open>include/rtdef.h\<close> as records, the global
  variables of \<^verbatim>\<open>src/scheduler.c\<close>, \<^verbatim>\<open>src/irq.c\<close>, \<^verbatim>\<open>src/clock.c\<close>, \<^verbatim>\<open>src/timer.c\<close>,
  \<^verbatim>\<open>src/object.c\<close> and \<^verbatim>\<open>libcpu/risc-v/lltrisc-v/cpuport.c\<close> as the fields of one record
  \<open>kernel\<close>, and \<open>node\<close>, the addresses of all the \<^verbatim>\<open>rt_list_t\<close> nodes the kernel links.

  Pointers to kernel objects are values of the pointer types below; a C pointer that may be
  \<^verbatim>\<open>RT_NULL\<close> is an \<open>option\<close>.  Casting an object to \<^verbatim>\<open>rt_object_t\<close> is applying a
  constructor of \<open>obj_ptr\<close>; \<^verbatim>\<open>rt_list_entry\<close> is the partial inverse of the constructor of
  the node.
\<close>

section \<open>Configuration\<close>

text \<open>\<^verbatim>\<open>bsp/tang-nano-9k/rtconfig.h\<close>; one timer row (\<^verbatim>\<open>RT_TIMER_SKIP_LIST_LEVEL\<close> is 1), the
  bitmap of ready priorities in one word (at most 32 priorities).\<close>

definition RT_THREAD_PRIORITY_MAX :: nat where "RT_THREAD_PRIORITY_MAX = 8"
definition RT_NAME_MAX :: nat where "RT_NAME_MAX = 8"
definition RT_TICK_PER_SECOND :: u32 where "RT_TICK_PER_SECOND = 10000"

definition RT_WAITING_FOREVER :: u32 where "RT_WAITING_FOREVER = - 1"

section \<open>Pointers and list nodes\<close>

type_synonym tid = nat

datatype timer_ptr = Thread_timer tid | User_timer nat

datatype obj_ptr =
    Obj_thread tid | Obj_timer timer_ptr | Obj_sem nat | Obj_mutex nat | Obj_event nat
  | Obj_mb nat | Obj_mq nat | Obj_mempool nat | Obj_memheap nat | Obj_device nat

datatype node =
    Ready_head nat         \<comment> \<open>\<^verbatim>\<open>rt_thread_priority_table[i]\<close>\<close>
  | Defunct_head           \<comment> \<open>\<^verbatim>\<open>rt_thread_defunct\<close>\<close>
  | Timer_head             \<comment> \<open>\<^verbatim>\<open>rt_timer_list[0]\<close>\<close>
  | Timer_tmp_head         \<comment> \<open>the local \<^verbatim>\<open>list\<close> of \<^verbatim>\<open>rt_timer_check\<close>\<close>
  | Container_head nat     \<comment> \<open>\<^verbatim>\<open>rt_object_container[i].object_list\<close>\<close>
  | Suspend_head obj_ptr   \<comment> \<open>\<^verbatim>\<open>parent.suspend_thread\<close> of an IPC object\<close>
  | Sender_head obj_ptr    \<comment> \<open>\<^verbatim>\<open>suspend_sender_thread\<close> of a mailbox or message queue\<close>
  | Tlist tid              \<comment> \<open>\<^verbatim>\<open>thread->tlist\<close>\<close>
  | Row timer_ptr          \<comment> \<open>\<^verbatim>\<open>timer->row[0]\<close>\<close>
  | Obj_list obj_ptr       \<comment> \<open>\<^verbatim>\<open>object->list\<close>\<close>

fun is_head :: "node \<Rightarrow> bool" where
  "is_head (Tlist _) = False"
| "is_head (Row _) = False"
| "is_head (Obj_list _) = False"
| "is_head _ = True"

text \<open>\<^verbatim>\<open>rt_list_entry(n, struct rt_thread, tlist)\<close> and its companions: defined on the nodes that
  are embedded in an object of that type.\<close>

fun thread_entry :: "node \<Rightarrow> tid option" where
  "thread_entry (Tlist t) = Some t"
| "thread_entry _ = None"

fun timer_entry :: "node \<Rightarrow> timer_ptr option" where
  "timer_entry (Row t) = Some t"
| "timer_entry _ = None"

fun object_entry :: "node \<Rightarrow> obj_ptr option" where
  "object_entry (Obj_list ob) = Some ob"
| "object_entry _ = None"

section \<open>Kernel objects\<close>

record rt_object =
  name :: char_ptr
  type :: u8
  flag :: u8

text \<open>A timeout function is \<^verbatim>\<open>rt_thread_timeout\<close> on a thread, or a function of the application.\<close>

datatype timeout_fn = Rt_thread_timeout tid | Timeout_fn nat u32

record rt_timer =
  timeout_func :: timeout_fn
  init_tick :: u32
  timeout_tick :: u32

record rt_thread =
  sp :: u32
  entry :: u32
  parameter :: u32
  stack_addr :: u32
  stack_size :: u32
  error :: err
  stat :: u8
  current_priority :: u8
  init_priority :: u8
  number_mask :: u32
  event_set :: u32
  event_info :: u8
  thread_init_tick :: u32
  remaining_tick :: u32
  cleanup :: "nat option"
  user_data :: u32

record rt_semaphore =
  sem_value :: u16

record rt_mutex =
  mutex_value :: u16
  original_priority :: u8
  hold :: u8
  owner :: "tid option"

record rt_event =
  event_bits :: u32

record rt_mailbox =
  msg_pool :: u32
  mb_size :: u16
  mb_entry :: u16
  in_offset :: u16
  out_offset :: u16

text \<open>A message of a queue is a node of a list in memory: its \<^verbatim>\<open>next\<close> pointer, then the data.\<close>

record rt_messagequeue =
  mq_msg_pool :: u32
  msg_size :: u16
  max_msgs :: u16
  mq_entry :: u16
  msg_queue_head :: u32
  msg_queue_tail :: u32
  msg_queue_free :: u32

record rt_mempool =
  start_address :: u32
  mp_size :: u32
  block_size :: u32
  block_list :: u32
  block_total_count :: u32
  block_free_count :: u32

section \<open>The state of the kernel\<close>

text \<open>
  \<open>cpu_context\<close> is the thread whose registers the CPU holds, the effect of
  \<^verbatim>\<open>libcpu/risc-v/lltrisc-v/context_gcc.S\<close> that the rest of the kernel depends on.
\<close>

record kernel =
  mem :: memory
  lists :: "node lheap"
  objects :: "obj_ptr \<Rightarrow> rt_object"
  threads :: "tid \<Rightarrow> rt_thread"
  timers :: "timer_ptr \<Rightarrow> rt_timer"
  sems :: "nat \<Rightarrow> rt_semaphore"
  mutexes :: "nat \<Rightarrow> rt_mutex"
  events :: "nat \<Rightarrow> rt_event"
  mailboxes :: "nat \<Rightarrow> rt_mailbox"
  mqs :: "nat \<Rightarrow> rt_messagequeue"
  mempools :: "nat \<Rightarrow> rt_mempool"
  rt_thread_ready_priority_group :: u32
  rt_scheduler_lock_nest :: u16
  rt_current_thread :: "tid option"
  rt_current_priority :: u8
  rt_interrupt_nest :: u8
  rt_tick :: u32
  rt_errno :: err
  random_nr :: u32
  rt_thread_switch_interrupt_flag :: u32
  rt_interrupt_from_thread :: "tid option"
  rt_interrupt_to_thread :: "tid option"
  cpu_context :: "tid option"

text \<open>Assignment to a field of an object.\<close>

abbreviation upd_thread :: "tid \<Rightarrow> (rt_thread \<Rightarrow> rt_thread) \<Rightarrow> kernel \<Rightarrow> kernel" where
  "upd_thread t f \<equiv> threads_update (\<lambda>m. m(t := f (m t)))"

abbreviation upd_timer :: "timer_ptr \<Rightarrow> (rt_timer \<Rightarrow> rt_timer) \<Rightarrow> kernel \<Rightarrow> kernel" where
  "upd_timer t f \<equiv> timers_update (\<lambda>m. m(t := f (m t)))"

abbreviation upd_object :: "obj_ptr \<Rightarrow> (rt_object \<Rightarrow> rt_object) \<Rightarrow> kernel \<Rightarrow> kernel" where
  "upd_object ob f \<equiv> objects_update (\<lambda>m. m(ob := f (m ob)))"

abbreviation upd_sem :: "nat \<Rightarrow> (rt_semaphore \<Rightarrow> rt_semaphore) \<Rightarrow> kernel \<Rightarrow> kernel" where
  "upd_sem i f \<equiv> sems_update (\<lambda>m. m(i := f (m i)))"

abbreviation upd_mutex :: "nat \<Rightarrow> (rt_mutex \<Rightarrow> rt_mutex) \<Rightarrow> kernel \<Rightarrow> kernel" where
  "upd_mutex i f \<equiv> mutexes_update (\<lambda>m. m(i := f (m i)))"

abbreviation upd_event :: "nat \<Rightarrow> (rt_event \<Rightarrow> rt_event) \<Rightarrow> kernel \<Rightarrow> kernel" where
  "upd_event i f \<equiv> events_update (\<lambda>m. m(i := f (m i)))"

abbreviation upd_mailbox :: "nat \<Rightarrow> (rt_mailbox \<Rightarrow> rt_mailbox) \<Rightarrow> kernel \<Rightarrow> kernel" where
  "upd_mailbox i f \<equiv> mailboxes_update (\<lambda>m. m(i := f (m i)))"

abbreviation upd_mq :: "nat \<Rightarrow> (rt_messagequeue \<Rightarrow> rt_messagequeue) \<Rightarrow> kernel \<Rightarrow> kernel" where
  "upd_mq i f \<equiv> mqs_update (\<lambda>m. m(i := f (m i)))"

abbreviation upd_mempool :: "nat \<Rightarrow> (rt_mempool \<Rightarrow> rt_mempool) \<Rightarrow> kernel \<Rightarrow> kernel" where
  "upd_mempool i f \<equiv> mempools_update (\<lambda>m. m(i := f (m i)))"

abbreviation upd_lists :: "(node lheap \<Rightarrow> node lheap) \<Rightarrow> kernel \<Rightarrow> kernel" where
  "upd_lists f \<equiv> lists_update f"

abbreviation (input) RT_THREAD_INIT :: u8 where "RT_THREAD_INIT \<equiv> 0x00"
abbreviation (input) RT_THREAD_READY :: u8 where "RT_THREAD_READY \<equiv> 0x01"
abbreviation (input) RT_THREAD_SUSPEND :: u8 where "RT_THREAD_SUSPEND \<equiv> 0x02"
abbreviation (input) RT_THREAD_CLOSE :: u8 where "RT_THREAD_CLOSE \<equiv> 0x04"
abbreviation (input) RT_THREAD_STAT_MASK :: u8 where "RT_THREAD_STAT_MASK \<equiv> 0x0f"

abbreviation (input) RT_Object_Class_Null :: u8 where "RT_Object_Class_Null \<equiv> 0x00"
abbreviation (input) RT_Object_Class_Thread :: u8 where "RT_Object_Class_Thread \<equiv> 0x01"
abbreviation (input) RT_Object_Class_Semaphore :: u8 where "RT_Object_Class_Semaphore \<equiv> 0x02"
abbreviation (input) RT_Object_Class_Mutex :: u8 where "RT_Object_Class_Mutex \<equiv> 0x03"
abbreviation (input) RT_Object_Class_Event :: u8 where "RT_Object_Class_Event \<equiv> 0x04"
abbreviation (input) RT_Object_Class_MailBox :: u8 where "RT_Object_Class_MailBox \<equiv> 0x05"
abbreviation (input) RT_Object_Class_MessageQueue :: u8 where "RT_Object_Class_MessageQueue \<equiv> 0x06"
abbreviation (input) RT_Object_Class_MemHeap :: u8 where "RT_Object_Class_MemHeap \<equiv> 0x07"
abbreviation (input) RT_Object_Class_MemPool :: u8 where "RT_Object_Class_MemPool \<equiv> 0x08"
abbreviation (input) RT_Object_Class_Device :: u8 where "RT_Object_Class_Device \<equiv> 0x09"
abbreviation (input) RT_Object_Class_Timer :: u8 where "RT_Object_Class_Timer \<equiv> 0x0a"
abbreviation (input) RT_Object_Class_Static :: u8 where "RT_Object_Class_Static \<equiv> 0x80"

abbreviation (input) RT_TIMER_FLAG_ACTIVATED :: u8 where "RT_TIMER_FLAG_ACTIVATED \<equiv> 0x1"
abbreviation (input) RT_TIMER_FLAG_PERIODIC :: u8 where "RT_TIMER_FLAG_PERIODIC \<equiv> 0x2"

end
