(* ===== verification/KService.thy ===== *)
theory KService
  imports Kernel
begin

text \<open>Part of \<^verbatim>\<open>src/kservice.c\<close>.\<close>

text \<open>The table \<^verbatim>\<open>__lowest_bit_bitmap\<close> of \<^verbatim>\<open>src/kservice.c\<close>, row by row.\<close>

definition lowest_bit_bitmap :: "nat list" where
  "lowest_bit_bitmap =
    [0, 0, 1, 0, 2, 0, 1, 0, 3, 0, 1, 0, 2, 0, 1, 0,
     4, 0, 1, 0, 2, 0, 1, 0, 3, 0, 1, 0, 2, 0, 1, 0,
     5, 0, 1, 0, 2, 0, 1, 0, 3, 0, 1, 0, 2, 0, 1, 0,
     4, 0, 1, 0, 2, 0, 1, 0, 3, 0, 1, 0, 2, 0, 1, 0,
     6, 0, 1, 0, 2, 0, 1, 0, 3, 0, 1, 0, 2, 0, 1, 0,
     4, 0, 1, 0, 2, 0, 1, 0, 3, 0, 1, 0, 2, 0, 1, 0,
     5, 0, 1, 0, 2, 0, 1, 0, 3, 0, 1, 0, 2, 0, 1, 0,
     4, 0, 1, 0, 2, 0, 1, 0, 3, 0, 1, 0, 2, 0, 1, 0,
     7, 0, 1, 0, 2, 0, 1, 0, 3, 0, 1, 0, 2, 0, 1, 0,
     4, 0, 1, 0, 2, 0, 1, 0, 3, 0, 1, 0, 2, 0, 1, 0,
     5, 0, 1, 0, 2, 0, 1, 0, 3, 0, 1, 0, 2, 0, 1, 0,
     4, 0, 1, 0, 2, 0, 1, 0, 3, 0, 1, 0, 2, 0, 1, 0,
     6, 0, 1, 0, 2, 0, 1, 0, 3, 0, 1, 0, 2, 0, 1, 0,
     4, 0, 1, 0, 2, 0, 1, 0, 3, 0, 1, 0, 2, 0, 1, 0,
     5, 0, 1, 0, 2, 0, 1, 0, 3, 0, 1, 0, 2, 0, 1, 0,
     4, 0, 1, 0, 2, 0, 1, 0, 3, 0, 1, 0, 2, 0, 1, 0]"

text \<open>\<^verbatim>\<open>value\<close> is a signed \<^verbatim>\<open>int\<close>: in the last case \<^verbatim>\<open>0xff000000\<close> is unsigned, so the operand
  is converted and the shift is a logical one.\<close>

definition rt_ffs :: "u32 \<Rightarrow> nat" where
  "rt_ffs value =
     (if value = 0 then 0
      else if value AND 0xff \<noteq> 0 then lowest_bit_bitmap ! unat (value AND 0xff) + 1
      else if value AND 0xff00 \<noteq> 0 then
        lowest_bit_bitmap ! unat (drop_bit 8 (value AND 0xff00)) + 9
      else if value AND 0xff0000 \<noteq> 0 then
        lowest_bit_bitmap ! unat (drop_bit 16 (value AND 0xff0000)) + 17
      else lowest_bit_bitmap ! unat (drop_bit 24 (value AND 0xff000000)) + 25)"

text \<open>The table is right: entry \<open>b\<close> is the largest \<open>e\<close> such that \<open>2 ^ e\<close> divides \<open>b\<close>.\<close>

fun table_from :: "nat \<Rightarrow> nat list \<Rightarrow> bool" where
  "table_from b [] = True"
| "table_from b (e # es) \<longleftrightarrow>
     b mod 2 ^ e = 0 \<and> b mod (2 * 2 ^ e) \<noteq> 0 \<and> table_from (b + 1) es"

lemma lowest_bit_bitmap_table: "table_from 1 (tl lowest_bit_bitmap)"
  by (simp add: lowest_bit_bitmap_def)


lemma table_from_nth:
  "table_from b es \<Longrightarrow> i < length es \<Longrightarrow>
     (b + i) mod 2 ^ (es ! i) = 0 \<and> (b + i) mod (2 * 2 ^ (es ! i)) \<noteq> 0"
proof (induction b es arbitrary: i rule: table_from.induct)
  case (2 b e es)
  then show ?case by (cases i) (auto simp: add.assoc [symmetric])
qed simp

lemma lowest_bit_bitmap_length: "length lowest_bit_bitmap = 256"
  by (simp add: lowest_bit_bitmap_def)

definition lowest_bit :: "'a::semiring_bits \<Rightarrow> nat \<Rightarrow> bool" where
  "lowest_bit w e \<longleftrightarrow> bit w e \<and> (\<forall>i<e. \<not> bit w i)"

lemma lowest_bit_nat:
  fixes n :: nat
  assumes "n mod 2 ^ e = 0" "n mod (2 * 2 ^ e) \<noteq> 0"
  shows "lowest_bit n e"
proof -
  have t: "take_bit e n = 0" "take_bit (Suc e) n \<noteq> 0"
    using assms by (simp_all add: take_bit_eq_mod)
  have below: "\<not> bit n i" if "i < e" for i
  proof -
    have "\<not> bit (take_bit e n) i" using t(1) by simp
    then show ?thesis using that by (simp add: bit_take_bit_iff)
  qed
  moreover have "bit n e"
  proof (rule ccontr)
    assume ne: "\<not> bit n e"
    have "take_bit (Suc e) n = 0"
      by (rule bit_eqI) (use below ne in \<open>auto simp: bit_take_bit_iff less_Suc_eq\<close>)
    with t(2) show False by simp
  qed
  ultimately show ?thesis by (simp add: lowest_bit_def)
qed

lemma lowest_bit_bitmap_nat:
  assumes "0 < n" "n < 256"
  shows "lowest_bit n (lowest_bit_bitmap ! n)"
proof -
  have "lowest_bit_bitmap ! n = tl lowest_bit_bitmap ! (n - 1)"
    using assms by (simp add: nth_tl lowest_bit_bitmap_length)
  then show ?thesis
    using table_from_nth [OF lowest_bit_bitmap_table, of "n - 1"] assms
    by (auto simp: lowest_bit_bitmap_length intro!: lowest_bit_nat)
qed

lemma lowest_bit_bitmap_word:
  fixes w :: u32
  assumes "w \<noteq> 0" "\<forall>i. bit w i \<longrightarrow> i < 8"
  shows "lowest_bit w (lowest_bit_bitmap ! unat w)"
proof -
  have "w = take_bit 8 w"
    by (rule bit_word_eqI) (use assms(2) in \<open>auto simp: bit_take_bit_iff\<close>)
  then have "unat w = take_bit 8 (unat w)" by (metis unsigned_take_bit_eq)
  then have "unat w < 256" using take_bit_nat_less_exp [of 8 "unat w"] by simp
  moreover have "0 < unat w" using assms(1) by (simp add: unat_gt_0)
  ultimately have "lowest_bit (unat w) (lowest_bit_bitmap ! unat w)"
    by (intro lowest_bit_bitmap_nat)
  then show ?thesis by (auto simp: lowest_bit_def bit_unsigned_iff)
qed

lemma lowest_bit_byte:
  fixes v :: u32
  assumes low: "\<forall>i < s. \<not> bit v i" and nz: "v AND push_bit s (mask 8) \<noteq> 0" and s: "s \<le> 24"
  shows "lowest_bit v (lowest_bit_bitmap ! unat (drop_bit s (v AND push_bit s (mask 8))) + s)"
proof -
  let ?w = "drop_bit s (v AND push_bit s (mask 8))"
  have bw: "bit ?w i \<longleftrightarrow> i < 8 \<and> bit v (s + i)" for i
    using s by (auto simp: bit_simps dest: bit_imp_le_length)
  obtain j where j: "j < 32" "bit (v AND push_bit s (mask 8)) j"
  proof (rule ccontr)
    assume "\<not> thesis"
    with that have "v AND push_bit s (mask 8) = 0" by (intro bit_word_eqI) auto
    with nz show False by simp
  qed
  then have "bit v (s + (j - s))" "j - s < 8" by (auto simp: bit_simps)
  then have "bit ?w (j - s)" by (simp only: bw)
  then have "?w \<noteq> 0" by (metis bit_0_eq bot_apply bot_bool_def)
  then have l: "lowest_bit ?w (lowest_bit_bitmap ! unat ?w)"
    by (rule lowest_bit_bitmap_word) (simp only: bw, simp)
  then have "bit v (s + lowest_bit_bitmap ! unat ?w)"
    unfolding lowest_bit_def bw by blast
  moreover have "\<not> bit v i" if i: "i < s + lowest_bit_bitmap ! unat ?w" for i
  proof (cases "i < s")
    case False
    then obtain p where p: "i = s + p" by (metis le_iff_add not_le)
    then have "p < lowest_bit_bitmap ! unat ?w" using i by linarith
    then show ?thesis using l unfolding lowest_bit_def bw p by auto
  qed (use low in simp)
  ultimately show ?thesis by (simp add: lowest_bit_def add.commute)
qed

lemma byte_masks:
  "(0xff :: u32) = push_bit 0 (mask 8)" "(0xff00 :: u32) = push_bit 8 (mask 8)"
  "(0xff0000 :: u32) = push_bit 16 (mask 8)" "(0xff000000 :: u32) = push_bit 24 (mask 8)"
  by (simp_all add: push_bit_eq_mult mask_eq_exp_minus_1)

lemma masked_zero_low:
  fixes v :: u32
  assumes low: "\<forall>i < s. \<not> bit v i" and z: "v AND push_bit s (mask 8) = 0"
  shows "\<forall>i < s + 8. \<not> bit v i"
proof (intro allI impI notI)
  fix i assume i: "i < s + 8" "bit v i"
  then have "s \<le> i" using low by (meson not_le)
  then have "bit (v AND push_bit s (mask 8)) i"
    using i by (auto simp: bit_simps dest: bit_imp_le_length)
  then show False using z by simp
qed

theorem rt_ffs_lowest_bit:
  assumes "v \<noteq> 0"
  shows "0 < rt_ffs v \<and> rt_ffs v \<le> 32 \<and> lowest_bit v (rt_ffs v - 1)"
proof -
  have l0: "\<forall>i<0. \<not> bit v i" by simp
  have "0 < rt_ffs v \<and> lowest_bit v (rt_ffs v - 1)"
  proof (cases "v AND push_bit 0 (mask 8) = 0")
    case False
    then show ?thesis using lowest_bit_byte [OF l0 False] assms
      by (simp add: rt_ffs_def byte_masks(1))
  next
    case z0: True
    have l8: "\<forall>i<8. \<not> bit v i" using masked_zero_low [OF l0 z0] by simp
    show ?thesis
    proof (cases "v AND push_bit 8 (mask 8) = 0")
      case False
      then show ?thesis using lowest_bit_byte [OF l8 False] assms z0
        by (simp only: rt_ffs_def byte_masks) (simp add: add.commute)
    next
      case z8: True
      have l16: "\<forall>i<16. \<not> bit v i" using masked_zero_low [OF l8 z8] by simp
      show ?thesis
      proof (cases "v AND push_bit 16 (mask 8) = 0")
        case False
        then show ?thesis using lowest_bit_byte [OF l16 False] assms z0 z8
          by (simp only: rt_ffs_def byte_masks) (simp add: add.commute)
      next
        case z16: True
        have l24: "\<forall>i<24. \<not> bit v i" using masked_zero_low [OF l16 z16] by simp
        have z24: "v AND push_bit 24 (mask 8) \<noteq> 0"
        proof
          assume "v AND push_bit 24 (mask 8) = 0"
          from masked_zero_low [OF l24 this] have "v = 0" by (intro bit_word_eqI) auto
          with assms show False by simp
        qed
        then show ?thesis using lowest_bit_byte [OF l24 z24] assms z0 z8 z16
          by (simp only: rt_ffs_def byte_masks) (simp add: add.commute)
      qed
    qed
  qed
  moreover have "rt_ffs v - 1 < 32"
    using calculation by (auto simp: lowest_bit_def dest: bit_imp_le_length)
  ultimately show ?thesis by auto
qed

lemma lowest_bit_unique: "lowest_bit v i \<Longrightarrow> lowest_bit v j \<Longrightarrow> i = j"
  unfolding lowest_bit_def by (metis nat_neq_iff)

text \<open>\<open>__rt_ffs\<close>, computed byte by byte from a table, is one more than the index of the
  lowest bit that is set, and 0 when there is none.\<close>

theorem rt_ffs_least: "rt_ffs v = (if v = 0 then 0 else Suc (LEAST i. bit v i))"
proof (cases "v = 0")
  case False
  from rt_ffs_lowest_bit [OF this] have f: "0 < rt_ffs v" "lowest_bit v (rt_ffs v - 1)" by auto
  then have "(LEAST i. bit v i) = rt_ffs v - 1"
    by (intro Least_equality) (auto simp: lowest_bit_def not_less [symmetric])
  then show ?thesis using f(1) False by simp
qed (simp add: rt_ffs_def)

end
