(* ===== verification/Scheduler.thy ===== *)
theory Scheduler
  imports Kernel KService
begin

text \<open>
  \<^verbatim>\<open>src/scheduler.c\<close>, \<^verbatim>\<open>src/irq.c\<close> and the context switch of
  \<^verbatim>\<open>libcpu/risc-v/lltrisc-v\<close>.  Every section between \<^verbatim>\<open>rt_hw_interrupt_disable\<close> and
  \<^verbatim>\<open>rt_hw_interrupt_enable\<close> is one step of the model.  \<open>rt_schedule\<close> yields the state right
  after the switch: what the calling thread does when it runs again is modelled by its
  caller.
\<close>

section \<open>Context switch\<close>

text \<open>\<^verbatim>\<open>rt_hw_context_switch\<close> (\<^verbatim>\<open>context_gcc.S\<close>) stores the registers through \<^verbatim>\<open>from\<close> and loads
  those of \<^verbatim>\<open>to\<close>.\<close>

definition rt_hw_context_switch :: "tid option \<Rightarrow> tid \<Rightarrow> kernel \<Rightarrow> kernel option" where
  "rt_hw_context_switch from to k = do {
     _ \<leftarrow> from;
     Some (k\<lparr>cpu_context := Some to\<rparr>)
   }"

definition rt_hw_context_switch_to :: "tid \<Rightarrow> kernel \<Rightarrow> kernel" where
  "rt_hw_context_switch_to to k = k\<lparr>cpu_context := Some to\<rparr>"

definition rt_hw_context_switch_interrupt :: "tid option \<Rightarrow> tid \<Rightarrow> kernel \<Rightarrow> kernel" where
  "rt_hw_context_switch_interrupt from to k = (let
     k = (if rt_thread_switch_interrupt_flag k = 0
          then k\<lparr>rt_interrupt_from_thread := from\<rparr> else k);
     k = k\<lparr>rt_interrupt_to_thread := Some to\<rparr>
   in k\<lparr>rt_thread_switch_interrupt_flag := 1\<rparr>)"

section \<open>Interrupt nesting\<close>

definition rt_interrupt_enter :: "kernel \<Rightarrow> kernel" where
  "rt_interrupt_enter k = k\<lparr>rt_interrupt_nest := rt_interrupt_nest k + 1\<rparr>"

definition rt_interrupt_leave :: "kernel \<Rightarrow> kernel" where
  "rt_interrupt_leave k = k\<lparr>rt_interrupt_nest := rt_interrupt_nest k - 1\<rparr>"

definition rt_interrupt_get_nest :: "kernel \<Rightarrow> u8" where
  "rt_interrupt_get_nest k = rt_interrupt_nest k"

text \<open>The end of \<^verbatim>\<open>irq_entry\<close> in \<^verbatim>\<open>interrupt_gcc.S\<close>: a pending switch is carried out.\<close>

definition irq_exit :: "kernel \<Rightarrow> kernel" where
  "irq_exit k =
     (if rt_thread_switch_interrupt_flag k = 0 then k
      else k\<lparr>rt_thread_switch_interrupt_flag := 0, cpu_context := rt_interrupt_to_thread k\<rparr>)"

section \<open>Ready queue\<close>

text \<open>\<^verbatim>\<open>&rt_thread_priority_table[i]\<close>, and \<^const>\<open>None\<close> outside the array.\<close>

definition rt_thread_priority_table :: "nat \<Rightarrow> node option" where
  "rt_thread_priority_table i = (if i < RT_THREAD_PRIORITY_MAX then Some (Ready_head i) else None)"

fun init_priority_table :: "nat \<Rightarrow> nat \<Rightarrow> node lheap \<Rightarrow> node lheap" where
  "init_priority_table offset 0 h = h"
| "init_priority_table offset (Suc n) h =
     init_priority_table (Suc offset) n (rt_list_init (Ready_head offset) h)"

definition rt_system_scheduler_init :: "kernel \<Rightarrow> kernel" where
  "rt_system_scheduler_init k = (let
     k = k\<lparr>rt_scheduler_lock_nest := 0\<rparr>;
     k = upd_lists (init_priority_table 0 RT_THREAD_PRIORITY_MAX) k;
     k = k\<lparr>rt_current_priority := of_nat (RT_THREAD_PRIORITY_MAX - 1)\<rparr>;
     k = k\<lparr>rt_current_thread := None\<rparr>;
     k = k\<lparr>rt_thread_ready_priority_group := 0\<rparr>
   in upd_lists (rt_list_init Defunct_head) k)"

text \<open>\<^verbatim>\<open>__rt_ffs(group) - 1\<close>; with no bit set the index is \<^verbatim>\<open>-1\<close>, outside the table.\<close>

definition highest_ready_priority :: "kernel \<Rightarrow> nat option" where
  "highest_ready_priority k =
     (let n = rt_ffs (rt_thread_ready_priority_group k) in if n = 0 then None else Some (n - 1))"

definition highest_ready_thread :: "kernel \<Rightarrow> (nat \<times> tid) option" where
  "highest_ready_thread k = do {
     p \<leftarrow> highest_ready_priority k;
     hd \<leftarrow> rt_thread_priority_table p;
     to_thread \<leftarrow> thread_entry (nxt (lists k) hd);
     Some (p, to_thread)
   }"

definition rt_system_scheduler_start :: "kernel \<Rightarrow> kernel option" where
  "rt_system_scheduler_start k = do {
     (_, to_thread) \<leftarrow> highest_ready_thread k;
     let k = k\<lparr>rt_current_thread := Some to_thread\<rparr>;
     Some (rt_hw_context_switch_to to_thread k)
   }"

definition rt_schedule :: "kernel \<Rightarrow> kernel option" where
  "rt_schedule k =
     (if rt_scheduler_lock_nest k = 0 then do {
        (p, to_thread) \<leftarrow> highest_ready_thread k;
        if Some to_thread \<noteq> rt_current_thread k then do {
          let k = k\<lparr>rt_current_priority := of_nat p\<rparr>;
          let from_thread = rt_current_thread k;
          let k = k\<lparr>rt_current_thread := Some to_thread\<rparr>;
          if rt_interrupt_nest k = 0
          then rt_hw_context_switch from_thread to_thread k
          else Some (rt_hw_context_switch_interrupt from_thread to_thread k)
        } else Some k
      } else Some k)"

definition rt_schedule_insert_thread :: "tid \<Rightarrow> kernel \<Rightarrow> kernel option" where
  "rt_schedule_insert_thread t k = do {
     let k = upd_thread t
       (\<lambda>th. th\<lparr>stat := RT_THREAD_READY OR (stat th AND NOT RT_THREAD_STAT_MASK)\<rparr>) k;
     hd \<leftarrow> rt_thread_priority_table (unat (current_priority (threads k t)));
     let k = upd_lists (rt_list_insert_before hd (Tlist t)) k;
     Some (k\<lparr>rt_thread_ready_priority_group :=
               rt_thread_ready_priority_group k OR number_mask (threads k t)\<rparr>)
   }"

definition rt_schedule_remove_thread :: "tid \<Rightarrow> kernel \<Rightarrow> kernel option" where
  "rt_schedule_remove_thread t k = do {
     let k = upd_lists (rt_list_remove (Tlist t)) k;
     hd \<leftarrow> rt_thread_priority_table (unat (current_priority (threads k t)));
     if rt_list_isempty hd (lists k)
     then Some (k\<lparr>rt_thread_ready_priority_group :=
                    rt_thread_ready_priority_group k AND NOT (number_mask (threads k t))\<rparr>)
     else Some k
   }"

section \<open>Scheduler lock\<close>

definition rt_enter_critical :: "kernel \<Rightarrow> kernel" where
  "rt_enter_critical k = k\<lparr>rt_scheduler_lock_nest := rt_scheduler_lock_nest k + 1\<rparr>"

definition rt_exit_critical :: "kernel \<Rightarrow> kernel option" where
  "rt_exit_critical k = (let
     k = k\<lparr>rt_scheduler_lock_nest := rt_scheduler_lock_nest k - 1\<rparr>
   in if sint (rt_scheduler_lock_nest k) \<le> 0 then
        let k = k\<lparr>rt_scheduler_lock_nest := 0\<rparr>
        in if rt_current_thread k \<noteq> None then rt_schedule k else Some k
      else Some k)"

definition rt_critical_level :: "kernel \<Rightarrow> u16" where
  "rt_critical_level k = rt_scheduler_lock_nest k"

section \<open>The ready queue and its bitmap agree\<close>

definition thread_state :: "kernel \<Rightarrow> tid \<Rightarrow> u8" where
  "thread_state k t = stat (threads k t) AND RT_THREAD_STAT_MASK"

abbreviation prio :: "kernel \<Rightarrow> tid \<Rightarrow> nat" where
  "prio k t \<equiv> unat (current_priority (threads k t))"

definition prio_ok :: "kernel \<Rightarrow> tid \<Rightarrow> bool" where
  "prio_ok k t \<longleftrightarrow> prio k t < RT_THREAD_PRIORITY_MAX \<and>
     number_mask (threads k t) = push_bit (prio k t) 1"

text \<open>
  \<open>queue_ok X L k\<close>: the ready list of priority \<open>i\<close> holds exactly the ready threads of that
  priority (the threads of \<open>X\<close> are in transit and may be missing from it), every thread that
  can become ready has a valid priority mask, and bit \<open>i\<close> of the group says whether list \<open>i\<close>
  is occupied.
\<close>

definition queue_ok :: "tid set \<Rightarrow> (node \<Rightarrow> node list) \<Rightarrow> kernel \<Rightarrow> bool" where
  "queue_ok X L k \<longleftrightarrow>
     rings is_head (lists k) L \<and>
     (\<forall>i n. n \<in> set (L (Ready_head i)) \<longrightarrow>
        (\<exists>t. n = Tlist t \<and> thread_state k t = RT_THREAD_READY \<and> prio k t = i)) \<and>
     (\<forall>t. t \<notin> X \<longrightarrow> thread_state k t = RT_THREAD_READY \<longrightarrow>
        Tlist t \<in> set (L (Ready_head (prio k t)))) \<and>
     (\<forall>t. thread_state k t \<in> {RT_THREAD_READY, RT_THREAD_SUSPEND} \<longrightarrow> prio_ok k t) \<and>
     (\<forall>i. bit (rt_thread_ready_priority_group k) i \<longleftrightarrow>
        i < RT_THREAD_PRIORITY_MAX \<and> L (Ready_head i) \<noteq> [])"

lemma queue_ok_rings: "queue_ok X L k \<Longrightarrow> rings is_head (lists k) L"
  by (simp add: queue_ok_def)

lemma queue_ok_member:
  "queue_ok X L k \<Longrightarrow> n \<in> set (L (Ready_head i)) \<Longrightarrow>
     \<exists>t. n = Tlist t \<and> thread_state k t = RT_THREAD_READY \<and> prio k t = i"
  by (simp add: queue_ok_def)

lemma queue_ok_ready:
  "queue_ok X L k \<Longrightarrow> t \<notin> X \<Longrightarrow> thread_state k t = RT_THREAD_READY \<Longrightarrow>
     Tlist t \<in> set (L (Ready_head (prio k t)))"
  by (simp add: queue_ok_def)

lemma queue_ok_prio:
  "queue_ok X L k \<Longrightarrow> thread_state k t \<in> {RT_THREAD_READY, RT_THREAD_SUSPEND} \<Longrightarrow> prio_ok k t"
  unfolding queue_ok_def by blast

lemma queue_ok_group:
  "queue_ok X L k \<Longrightarrow> bit (rt_thread_ready_priority_group k) i \<longleftrightarrow>
     i < RT_THREAD_PRIORITY_MAX \<and> L (Ready_head i) \<noteq> []"
  by (simp add: queue_ok_def)

lemma queue_ok_index:
  assumes "queue_ok X L k" "L (Ready_head i) \<noteq> []"
  shows "i < RT_THREAD_PRIORITY_MAX"
proof -
  from assms(2) have "hd (L (Ready_head i)) \<in> set (L (Ready_head i))" by simp
  then obtain t where "thread_state k t = RT_THREAD_READY" "prio k t = i"
    using queue_ok_member [OF assms(1)] by blast
  then show ?thesis using queue_ok_prio [OF assms(1), of t] by (auto simp: prio_ok_def)
qed

text \<open>Work on the other lists, and on other data, does not disturb the ready queue.\<close>

lemma queue_ok_frame:
  assumes q: "queue_ok X L k" and r: "rings is_head (lists k') L'"
    and l: "\<And>i. L' (Ready_head i) = L (Ready_head i)"
    and t: "\<And>t. stat (threads k' t) = stat (threads k t)"
      "\<And>t. current_priority (threads k' t) = current_priority (threads k t)"
      "\<And>t. number_mask (threads k' t) = number_mask (threads k t)"
    and g: "rt_thread_ready_priority_group k' = rt_thread_ready_priority_group k"
  shows "queue_ok X L' k'"
proof -
  have s: "thread_state k' = thread_state k" by (simp add: fun_eq_iff thread_state_def t(1))
  have p: "prio_ok k' = prio_ok k" by (simp add: fun_eq_iff prio_ok_def t)
  show ?thesis
    using q r unfolding queue_ok_def s p g by (simp add: t(2) l)
qed

subsection \<open>Choosing the next thread\<close>

text \<open>The specification: the first thread of the lowest-numbered occupied list.\<close>

definition ready_threads :: "(node \<Rightarrow> node list) \<Rightarrow> nat \<Rightarrow> tid list" where
  "ready_threads L i = List.map_filter thread_entry (L (Ready_head i))"

definition is_next_thread :: "(node \<Rightarrow> node list) \<Rightarrow> nat \<Rightarrow> tid \<Rightarrow> bool" where
  "is_next_thread L p t \<longleftrightarrow>
     L (Ready_head p) \<noteq> [] \<and> hd (L (Ready_head p)) = Tlist t \<and>
     (\<forall>i<p. L (Ready_head i) = [])"

lemma is_next_thread_unique:
  "is_next_thread L p t \<Longrightarrow> is_next_thread L q u \<Longrightarrow> p = q \<and> t = u"
  unfolding is_next_thread_def by (metis nat_neq_iff node.inject)

lemma highest_ready_thread_eq:
  assumes q: "queue_ok X L k" and nt: "is_next_thread L p t"
  shows "highest_ready_thread k = Some (p, t)"
proof -
  have p: "p < RT_THREAD_PRIORITY_MAX"
    using queue_ok_index [OF q] nt by (simp add: is_next_thread_def)
  let ?g = "rt_thread_ready_priority_group k"
  have low: "lowest_bit ?g p"
    using nt p queue_ok_group [OF q] by (auto simp: lowest_bit_def is_next_thread_def)
  then have "?g \<noteq> 0" by (auto simp: lowest_bit_def)
  from rt_ffs_lowest_bit [OF this] have f: "0 < rt_ffs ?g" "lowest_bit ?g (rt_ffs ?g - 1)"
    by auto
  then have "rt_ffs ?g - 1 = p" using lowest_bit_unique [OF f(2) low] by simp
  then have "highest_ready_priority k = Some p"
    using f(1) by (auto simp: highest_ready_priority_def Let_def)
  moreover have "nxt (lists k) (Ready_head p) = Tlist t"
    using rings_first [OF queue_ok_rings [OF q], of "Ready_head p"] nt
    by (simp add: is_next_thread_def)
  ultimately show ?thesis
    using p by (simp add: highest_ready_thread_def rt_thread_priority_table_def)
qed

lemma next_thread_exists:
  assumes q: "queue_ok X L k" and ne: "L (Ready_head i) \<noteq> []"
  shows "\<exists>p t. is_next_thread L p t"
proof -
  let ?p = "LEAST i. L (Ready_head i) \<noteq> []"
  have 1: "L (Ready_head ?p) \<noteq> []" using ne by (rule LeastI)
  have 2: "\<forall>i<?p. L (Ready_head i) = []" using not_less_Least by blast
  from 1 have "hd (L (Ready_head ?p)) \<in> set (L (Ready_head ?p))" by simp
  then obtain t where "hd (L (Ready_head ?p)) = Tlist t" using queue_ok_member [OF q] by blast
  then show ?thesis using 1 2 unfolding is_next_thread_def by blast
qed

lemma next_thread_ready:
  assumes "queue_ok X L k" "is_next_thread L p t"
  shows "thread_state k t = RT_THREAD_READY \<and> prio k t = p"
proof -
  have "Tlist t \<in> set (L (Ready_head p))"
    using assms(2) unfolding is_next_thread_def by (metis hd_in_set)
  then show ?thesis using queue_ok_member [OF assms(1), of "Tlist t" p] by auto
qed

subsection \<open>Insertion and removal\<close>

definition insert_ready :: "tid \<Rightarrow> kernel \<Rightarrow> kernel" where
  "insert_ready t k = k\<lparr>
     threads := (threads k)(t := (threads k t)
       \<lparr>stat := RT_THREAD_READY OR (stat (threads k t) AND NOT RT_THREAD_STAT_MASK)\<rparr>),
     lists := rt_list_insert_before (Ready_head (prio k t)) (Tlist t) (lists k),
     rt_thread_ready_priority_group :=
       rt_thread_ready_priority_group k OR number_mask (threads k t)\<rparr>"

lemma insert_thread_closed [kernel_simps]:
  "prio k t < RT_THREAD_PRIORITY_MAX \<Longrightarrow>
     rt_schedule_insert_thread t k = Some (insert_ready t k)"
  by (cases k) (simp add: rt_schedule_insert_thread_def insert_ready_def
      rt_thread_priority_table_def)

lemma state_of_insert [simp]:
  "thread_state (insert_ready t k) u =
     (if u = t then RT_THREAD_READY else thread_state k u)"
proof -
  have "(RT_THREAD_READY OR (x AND NOT RT_THREAD_STAT_MASK)) AND RT_THREAD_STAT_MASK
      = RT_THREAD_READY" for x :: u8
    by (rule and_or_cancel) simp
  then show ?thesis by (simp add: thread_state_def insert_ready_def)
qed

lemma prio_insert [simp]: "prio (insert_ready t k) u = prio k u"
  and prio_ok_insert [simp]: "prio_ok (insert_ready t k) u = prio_ok k u"
  by (simp_all add: insert_ready_def prio_ok_def)

lemma queue_ok_insert:
  assumes q: "queue_ok X L k" and d: "\<not> on_list is_head L (Tlist t)" and p: "prio_ok k t"
  shows "queue_ok (X - {t}) (L(Ready_head (prio k t) := L (Ready_head (prio k t)) @ [Tlist t]))
    (insert_ready t k)" (is "queue_ok _ ?L ?k")
  unfolding queue_ok_def
proof (intro conjI allI impI)
  show "rings is_head (lists ?k) ?L"
    using rings_insert_before [OF queue_ok_rings [OF q], of "Ready_head (prio k t)" "Tlist t"] d
    by (simp add: insert_ready_def)
  show "\<exists>u. n = Tlist u \<and> thread_state ?k u = RT_THREAD_READY \<and> prio ?k u = i"
    if n: "n \<in> set (?L (Ready_head i))" for i n
  proof (cases "n = Tlist t")
    case True
    have "i = prio k t"
    proof (rule ccontr)
      assume "i \<noteq> prio k t"
      then have "n \<in> set (L (Ready_head i))" using n by simp
      then show False using d True by (auto simp: on_list_def)
    qed
    then show ?thesis using True by auto
  next
    case False
    then have "n \<in> set (L (Ready_head i))" using n by (auto split: if_splits)
    from queue_ok_member [OF q this] False show ?thesis by auto
  qed
  show "Tlist u \<in> set (?L (Ready_head (prio ?k u)))"
    if "u \<notin> X - {t}" "thread_state ?k u = RT_THREAD_READY" for u
    using that queue_ok_ready [OF q, of u] by (cases "u = t") auto
  show "prio_ok ?k u" if "thread_state ?k u \<in> {RT_THREAD_READY, RT_THREAD_SUSPEND}" for u
    using that queue_ok_prio [OF q, of u] p by (cases "u = t") auto
  show "bit (rt_thread_ready_priority_group ?k) i \<longleftrightarrow>
      i < RT_THREAD_PRIORITY_MAX \<and> ?L (Ready_head i) \<noteq> []" for i
    using queue_ok_group [OF q, of i] p
    by (auto simp: insert_ready_def prio_ok_def bit_simps RT_THREAD_PRIORITY_MAX_def)
qed

definition remove_ready :: "tid \<Rightarrow> kernel \<Rightarrow> kernel" where
  "remove_ready t k = k\<lparr>
     lists := rt_list_remove (Tlist t) (lists k),
     rt_thread_ready_priority_group :=
       (if rt_list_isempty (Ready_head (prio k t)) (rt_list_remove (Tlist t) (lists k))
        then rt_thread_ready_priority_group k AND NOT (number_mask (threads k t))
        else rt_thread_ready_priority_group k)\<rparr>"

lemma remove_thread_closed [kernel_simps]:
  "prio k t < RT_THREAD_PRIORITY_MAX \<Longrightarrow>
     rt_schedule_remove_thread t k = Some (remove_ready t k)"
  by (cases k) (simp add: rt_schedule_remove_thread_def remove_ready_def
      rt_thread_priority_table_def)

lemma remove_ready_threads [simp]: "threads (remove_ready t k) = threads k"
  by (simp add: remove_ready_def)

lemma state_of_remove [simp]:
  "thread_state (remove_ready t k) = thread_state k" "prio_ok (remove_ready t k) = prio_ok k"
  by (simp_all add: thread_state_def prio_ok_def fun_eq_iff)

lemma queue_ok_remove:
  assumes q: "queue_ok X L k" and p: "prio_ok k t"
  shows "queue_ok (insert t X) (\<lambda>x. removeAll (Tlist t) (L x)) (remove_ready t k)"
    (is "queue_ok _ ?L ?k")
  unfolding queue_ok_def
proof (intro conjI allI impI)
  show r: "rings is_head (lists ?k) ?L"
    using rings_remove [OF queue_ok_rings [OF q], of "Tlist t"] by (simp add: remove_ready_def)
  show "\<exists>u. n = Tlist u \<and> thread_state ?k u = RT_THREAD_READY \<and> prio ?k u = i"
    if "n \<in> set (?L (Ready_head i))" for i n
    using that queue_ok_member [OF q, of n i] by auto
  show "Tlist u \<in> set (?L (Ready_head (prio ?k u)))"
    if "u \<notin> insert t X" "thread_state ?k u = RT_THREAD_READY" for u
    using that queue_ok_ready [OF q, of u] by auto
  show "prio_ok ?k u" if "thread_state ?k u \<in> {RT_THREAD_READY, RT_THREAD_SUSPEND}" for u
    using that queue_ok_prio [OF q, of u] by auto
  fix i
  have e: "rt_list_isempty (Ready_head j) (rt_list_remove (Tlist t) (lists k)) \<longleftrightarrow>
      ?L (Ready_head j) = []" for j
    using rings_isempty [OF r, of "Ready_head j"] by (simp add: remove_ready_def)
  have other: "?L (Ready_head i) = L (Ready_head i)" if "i \<noteq> prio k t"
    using queue_ok_member [OF q, of "Tlist t" i] that by (intro removeAll_id) auto
  show "bit (rt_thread_ready_priority_group ?k) i \<longleftrightarrow>
      i < RT_THREAD_PRIORITY_MAX \<and> ?L (Ready_head i) \<noteq> []"
  proof (cases "i = prio k t")
    case True
    have "i < 32" using p True by (simp add: prio_ok_def RT_THREAD_PRIORITY_MAX_def)
    then show ?thesis
      using True p queue_ok_group [OF q, of i]
      by (auto simp: remove_ready_def e prio_ok_def bit_simps)
  next
    case False
    then show ?thesis
      using other p queue_ok_group [OF q, of i]
      by (auto simp: remove_ready_def prio_ok_def bit_simps RT_THREAD_PRIORITY_MAX_def)
  qed
qed

lemma remove_ready_detached:
  "\<not> on_list is_head (\<lambda>x. removeAll (Tlist t) (L x)) (Tlist t)"
  by simp

section \<open>Scheduling\<close>

text \<open>The effect of \<open>rt_schedule\<close> when thread \<open>t\<close> of priority \<open>p\<close> is the one to run.\<close>

definition switch_to :: "nat \<Rightarrow> tid \<Rightarrow> kernel \<Rightarrow> kernel" where
  "switch_to p t k =
     (if rt_scheduler_lock_nest k \<noteq> 0 \<or> rt_current_thread k = Some t then k
      else if rt_interrupt_nest k = 0 then
        k\<lparr>rt_current_priority := of_nat p, rt_current_thread := Some t, cpu_context := Some t\<rparr>
      else k\<lparr>rt_current_priority := of_nat p, rt_current_thread := Some t,
             rt_interrupt_from_thread :=
               (if rt_thread_switch_interrupt_flag k = 0 then rt_current_thread k
                else rt_interrupt_from_thread k),
             rt_interrupt_to_thread := Some t, rt_thread_switch_interrupt_flag := 1\<rparr>)"

lemma switch_to_frame [simp, frame]:
  "lists (switch_to p t k) = lists k" "threads (switch_to p t k) = threads k"
  "timers (switch_to p t k) = timers k" "objects (switch_to p t k) = objects k"
  "sems (switch_to p t k) = sems k" "mutexes (switch_to p t k) = mutexes k"
  "events (switch_to p t k) = events k" "mailboxes (switch_to p t k) = mailboxes k"
  "mqs (switch_to p t k) = mqs k" "mempools (switch_to p t k) = mempools k"
  "mem (switch_to p t k) = mem k" "rt_tick (switch_to p t k) = rt_tick k"
  "rt_thread_ready_priority_group (switch_to p t k) = rt_thread_ready_priority_group k"
  "rt_scheduler_lock_nest (switch_to p t k) = rt_scheduler_lock_nest k"
  "rt_interrupt_nest (switch_to p t k) = rt_interrupt_nest k"
  by (simp_all add: switch_to_def)

lemma thread_state_switch [simp]: "thread_state (switch_to p t k) = thread_state k"
  and prio_ok_switch [simp]: "prio_ok (switch_to p t k) = prio_ok k"
  by (simp_all add: fun_eq_iff thread_state_def prio_ok_def)

lemma queue_ok_switch [simp]: "queue_ok X L (switch_to p t k) = queue_ok X L k"
  by (simp add: queue_ok_def)

lemma rt_schedule_closed [kernel_simps]:
  assumes "queue_ok X L k" "is_next_thread L p t" "rt_current_thread k \<noteq> None"
  shows "rt_schedule k = Some (switch_to p t k)"
proof -
  have h: "highest_ready_thread k = Some (p, t)" by (rule highest_ready_thread_eq [OF assms(1,2)])
  from assms(3) obtain c where c: "rt_current_thread k = Some c" by auto
  show ?thesis
  proof (cases "rt_scheduler_lock_nest k = 0 \<and> c \<noteq> t")
    case True
    then show ?thesis using h c
      by (cases k) (auto simp: rt_schedule_def switch_to_def Let_def rt_hw_context_switch_def
          rt_hw_context_switch_interrupt_def)
  next
    case False
    then show ?thesis using h c by (auto simp: rt_schedule_def switch_to_def)
  qed
qed

text \<open>While the current thread is the one the scheduler would choose, as it always is when it
  executes outside a scheduler lock, a critical section leaves everything as it was.\<close>

definition runs_highest :: "(node \<Rightarrow> node list) \<Rightarrow> kernel \<Rightarrow> bool" where
  "runs_highest L k \<longleftrightarrow>
     (case rt_current_thread k of None \<Rightarrow> True | Some c \<Rightarrow> \<exists>p. is_next_thread L p c)"

lemma queue_ok_lock [simp]: "queue_ok X L (k\<lparr>rt_scheduler_lock_nest := n\<rparr>) = queue_ok X L k"
  by (simp add: queue_ok_def thread_state_def prio_ok_def)

lemma critical_section [kernel_simps]:
  assumes q: "queue_ok X L k" and r: "runs_highest L k" and n: "0 \<le> sint (rt_scheduler_lock_nest k)"
  shows "rt_exit_critical (rt_enter_critical k) = Some k"
proof -
  let ?n = "rt_scheduler_lock_nest k"
  have ee: "rt_exit_critical (rt_enter_critical k) =
      (if sint ?n \<le> 0 then
         let k = k\<lparr>rt_scheduler_lock_nest := 0\<rparr>
         in if rt_current_thread k \<noteq> None then rt_schedule k else Some k
       else Some k)"
    by (cases k) (simp add: rt_enter_critical_def rt_exit_critical_def)
  show ?thesis
  proof (cases "?n = 0")
    case True
    then have k: "k\<lparr>rt_scheduler_lock_nest := 0\<rparr> = k" by simp
    show ?thesis
    proof (cases "rt_current_thread k")
      case (Some c)
      then obtain p where p: "is_next_thread L p c" using r by (auto simp: runs_highest_def)
      have "rt_schedule k = Some (switch_to p c k)"
        using Some by (intro rt_schedule_closed [OF q p]) simp
      then show ?thesis using ee k True Some by (simp add: switch_to_def Let_def)
    qed (use ee k True in simp)
  next
    case False
    then have "0 < sint ?n" using n by (metis order_less_le signed_0 signed_word_eqI)
    then show ?thesis using ee by simp
  qed
qed

text \<open>The CPU runs the thread the scheduler believes to be current, up to a switch requested
  inside an interrupt handler and carried out when it returns.\<close>

definition cpu_ok :: "kernel \<Rightarrow> bool" where
  "cpu_ok k \<longleftrightarrow>
     (if rt_thread_switch_interrupt_flag k = 0 then cpu_context k = rt_current_thread k
      else rt_interrupt_to_thread k = rt_current_thread k \<and>
           rt_interrupt_from_thread k = cpu_context k \<and> rt_interrupt_nest k \<noteq> 0)"

lemma cpu_ok_switch: "cpu_ok k \<Longrightarrow> cpu_ok (switch_to p t k)"
  by (auto simp: cpu_ok_def switch_to_def)

lemma irq_exit_runs_current: "cpu_ok k \<Longrightarrow> cpu_context (irq_exit k) = rt_current_thread (irq_exit k)"
  by (auto simp: cpu_ok_def irq_exit_def split: if_splits)

section \<open>Yielding puts a thread behind its equals\<close>

lemma is_next_thread_rotate:
  assumes "is_next_thread L p t" "L (Ready_head p) = Tlist t # Tlist u # ns"
  shows "is_next_thread (L(Ready_head p := Tlist u # ns @ [Tlist t])) p u"
  using assms by (simp add: is_next_thread_def)

end
