(* ===== verification/Object.thy ===== *)
theory Object
  imports Scheduler
begin

text \<open>
  \<^verbatim>\<open>src/object.c\<close>: the containers that list the objects of each class.  All classes of the
  source are enabled (in the order of \<^verbatim>\<open>enum rt_object_info_type\<close>), the hooks are not.
\<close>

section \<open>The operations\<close>

text \<open>The \<^verbatim>\<open>type\<close> field of the entries of \<^verbatim>\<open>rt_object_container\<close>.\<close>

definition rt_object_container :: "u8 list" where
  "rt_object_container =
    [RT_Object_Class_Thread, RT_Object_Class_Semaphore, RT_Object_Class_Mutex,
     RT_Object_Class_Event, RT_Object_Class_MailBox, RT_Object_Class_MessageQueue,
     RT_Object_Class_MemHeap, RT_Object_Class_MemPool, RT_Object_Class_Device,
     RT_Object_Class_Timer]"

fun get_information_from :: "u8 \<Rightarrow> nat \<Rightarrow> u8 list \<Rightarrow> nat option" where
  "get_information_from ty index [] = None"
| "get_information_from ty index (c # cs) =
     (if c = ty then Some index else get_information_from ty (Suc index) cs)"

definition rt_object_get_information :: "u8 \<Rightarrow> nat option" where
  "rt_object_get_information ty = get_information_from ty 0 rt_object_container"

partial_function (option) count_from :: "node \<Rightarrow> node \<Rightarrow> nat \<Rightarrow> node lheap \<Rightarrow> nat option" where
  "count_from head node count h =
     (if node = head then Some count else count_from head (nxt h node) (Suc count) h)"

definition rt_object_get_length :: "u8 \<Rightarrow> kernel \<Rightarrow> nat option" where
  "rt_object_get_length ty k =
     (case rt_object_get_information ty of
        None \<Rightarrow> Some 0
      | Some info \<Rightarrow> (let head = Container_head info
          in count_from head (nxt (lists k) head) 0 (lists k)))"

text \<open>\<open>ps\<close> are the pointers stored so far, \<^verbatim>\<open>pointers[0..index-1]\<close>.\<close>

partial_function (option) pointers_from ::
  "node \<Rightarrow> node \<Rightarrow> int \<Rightarrow> obj_ptr list \<Rightarrow> node lheap \<Rightarrow> obj_ptr list option" where
  "pointers_from head node maxlen ps h =
     (if node = head then Some ps
      else do {
        object \<leftarrow> object_entry node;
        let ps = ps @ [object];
        if int (length ps) \<ge> maxlen then Some ps
        else pointers_from head (nxt h node) maxlen ps h
      })"

definition rt_object_get_pointers :: "u8 \<Rightarrow> int \<Rightarrow> kernel \<Rightarrow> obj_ptr list option" where
  "rt_object_get_pointers ty maxlen k =
     (if maxlen \<le> 0 then Some []
      else case rt_object_get_information ty of
        None \<Rightarrow> Some []
      | Some info \<Rightarrow> (let head = Container_head info
          in pointers_from head (nxt (lists k) head) maxlen [] (lists k)))"

definition rt_object_init :: "obj_ptr \<Rightarrow> u8 \<Rightarrow> char_ptr \<Rightarrow> kernel \<Rightarrow> kernel option" where
  "rt_object_init object ty nm k = do {
     info \<leftarrow> rt_object_get_information ty;
     let k = rt_enter_critical k;
     found \<leftarrow> rt_list_for_each (\<lambda>n. object_entry n = Some object) (Container_head info) (lists k);
     RT_ASSERT (found = Container_head info);
     k \<leftarrow> rt_exit_critical k;
     let k = upd_object object (\<lambda>ob. ob\<lparr>type := ty OR RT_Object_Class_Static\<rparr>) k;
     nm' \<leftarrow> rt_strncpy (name (objects k object)) nm RT_NAME_MAX;
     let k = upd_object object (\<lambda>ob. ob\<lparr>name := nm'\<rparr>) k;
     Some (upd_lists (rt_list_insert_after (Container_head info) (Obj_list object)) k)
   }"

definition rt_object_detach :: "obj_ptr \<Rightarrow> kernel \<Rightarrow> kernel" where
  "rt_object_detach object k = (let
     k = upd_object object (\<lambda>ob. ob\<lparr>type := 0\<rparr>) k
   in upd_lists (rt_list_remove (Obj_list object)) k)"

definition rt_object_is_systemobject :: "obj_ptr \<Rightarrow> kernel \<Rightarrow> bool" where
  "rt_object_is_systemobject object k \<longleftrightarrow>
     type (objects k object) AND RT_Object_Class_Static \<noteq> 0"

definition rt_object_get_type :: "obj_ptr \<Rightarrow> kernel \<Rightarrow> u8" where
  "rt_object_get_type object k = type (objects k object) AND NOT RT_Object_Class_Static"

partial_function (option) find_from ::
  "node \<Rightarrow> node \<Rightarrow> char_ptr \<Rightarrow> kernel \<Rightarrow> obj_ptr option option" where
  "find_from head node nm k =
     (if node = head then Some None
      else do {
        object \<leftarrow> object_entry node;
        r \<leftarrow> rt_strncmp (name (objects k object)) nm RT_NAME_MAX;
        if r = 0 then Some (Some object)
        else find_from head (nxt (lists k) node) nm k
      })"

text \<open>\<open>nm\<close> is \<^const>\<open>None\<close> for the null pointer.\<close>

definition rt_object_find ::
  "char_ptr option \<Rightarrow> u8 \<Rightarrow> kernel \<Rightarrow> (obj_ptr option \<times> kernel) option" where
  "rt_object_find nm ty k =
     (case (nm, rt_object_get_information ty) of
        (Some nm, Some info) \<Rightarrow> do {
          let k = rt_enter_critical k;
          let head = Container_head info;
          object \<leftarrow> find_from head (nxt (lists k) head) nm k;
          k \<leftarrow> rt_exit_critical k;
          Some (object, k)
        }
      | _ \<Rightarrow> Some (None, k))"

section \<open>Object types\<close>

text \<open>The class of the container an object belongs to.\<close>

fun object_class :: "obj_ptr \<Rightarrow> u8" where
  "object_class (Obj_thread _) = RT_Object_Class_Thread"
| "object_class (Obj_timer _) = RT_Object_Class_Timer"
| "object_class (Obj_sem _) = RT_Object_Class_Semaphore"
| "object_class (Obj_mutex _) = RT_Object_Class_Mutex"
| "object_class (Obj_event _) = RT_Object_Class_Event"
| "object_class (Obj_mb _) = RT_Object_Class_MailBox"
| "object_class (Obj_mq _) = RT_Object_Class_MessageQueue"
| "object_class (Obj_mempool _) = RT_Object_Class_MemPool"
| "object_class (Obj_memheap _) = RT_Object_Class_MemHeap"
| "object_class (Obj_device _) = RT_Object_Class_Device"

text \<open>An object is live when its type field names its class, statically or not.\<close>

definition live :: "kernel \<Rightarrow> obj_ptr \<Rightarrow> bool" where
  "live k ob \<longleftrightarrow> rt_object_get_type ob k = object_class ob"

lemma get_type_static:
  "t \<in> set rt_object_container \<Longrightarrow> (t OR RT_Object_Class_Static) AND NOT RT_Object_Class_Static = t"
  by (auto simp: rt_object_container_def)

lemma object_class_container: "object_class ob \<in> set rt_object_container"
  by (cases ob) (simp_all add: rt_object_container_def)

lemma get_information_from_nth:
  "get_information_from ty n cs = Some i \<Longrightarrow>
     n \<le> i \<and> i < n + length cs \<and> cs ! (i - n) = ty \<and> (\<forall>j < i - n. cs ! j \<noteq> ty)"
proof (induction cs arbitrary: n)
  case (Cons c cs)
  show ?case
  proof (cases "c = ty")
    case False
    with Cons have *: "Suc n \<le> i" "i < Suc n + length cs" "cs ! (i - Suc n) = ty"
      "\<forall>j < i - Suc n. cs ! j \<noteq> ty"
      by (auto dest: Cons.IH)
    then have "i - n = Suc (i - Suc n)" by simp
    with * False show ?thesis by (auto simp: less_Suc_eq_0_disj)
  qed (use Cons.prems in auto)
qed simp

lemma get_information_from_mem:
  "ty \<in> set cs \<Longrightarrow> \<exists>i. get_information_from ty n cs = Some i"
  by (induction cs arbitrary: n) auto

theorem rt_object_get_information_container:
  "ty \<in> set rt_object_container \<Longrightarrow>
     \<exists>i. rt_object_get_information ty = Some i \<and> i < length rt_object_container \<and>
         rt_object_container ! i = ty"
  using get_information_from_mem [of ty rt_object_container 0] get_information_from_nth
  by (fastforce simp: rt_object_get_information_def)

lemma information_class: "\<exists>i. rt_object_get_information (object_class ob) = Some i"
  using rt_object_get_information_container object_class_container by blast

section \<open>The loops over a container\<close>

lemma count_from_dll:
  assumes "dll h x (as @ bs)"
  shows "count_from x (hd (bs @ [x])) n h = Some (n + length bs)"
  using assms
proof (induction bs arbitrary: as n)
  case Nil
  then show ?case by (subst count_from.simps) simp
next
  case (Cons b bs)
  have "b \<noteq> x" using Cons.prems by (auto simp: dll_def)
  moreover have "nxt h b = hd (bs @ [x])" by (rule dll_next_mem [OF Cons.prems])
  ultimately show ?case
    using Cons.IH [of "as @ [b]" "Suc n"] Cons.prems by (subst count_from.simps) simp
qed

lemma pointers_from_dll:
  assumes "dll h x (as @ map Obj_list obs)" "int (length ps) < m"
  shows "pointers_from x (hd (map Obj_list obs @ [x])) m ps h =
    Some (take (nat m) (ps @ obs))"
  using assms
proof (induction obs arbitrary: as ps)
  case Nil
  then show ?case by (subst pointers_from.simps) simp
next
  case (Cons ob obs)
  have "Obj_list ob \<noteq> x" using Cons.prems(1) by (auto simp: dll_def)
  moreover have "nxt h (Obj_list ob) = hd (map Obj_list obs @ [x])"
    using Cons.prems(1) by (intro dll_next_mem [of h x as]) simp
  moreover have "pointers_from x (hd (map Obj_list obs @ [x])) m (ps @ [ob]) h =
      Some (take (nat m) ((ps @ [ob]) @ obs))" if "int (length ps) + 1 < m"
    using Cons.IH [of "as @ [Obj_list ob]" "ps @ [ob]"] Cons.prems(1) that by simp
  moreover have "take (nat m) (ps @ ob # obs) = ps @ [ob]" if "\<not> int (length ps) + 1 < m"
  proof -
    have "nat m = length (ps @ [ob])" using that Cons.prems(2) by simp
    then show ?thesis by (metis append_Cons append_Nil append_assoc append_eq_conv_conj)
  qed
  ultimately show ?case
    by (cases "int (length ps) + 1 < m"; subst pointers_from.simps) (simp_all add: Let_def)
qed

lemma find_from_dll:
  assumes "dll (lists k) x (as @ map Obj_list obs)"
    and "\<And>ob. ob \<in> set obs \<Longrightarrow>
      \<exists>r. rt_strncmp (name (objects k ob)) nm RT_NAME_MAX = Some r \<and> (r = 0 \<longleftrightarrow> P ob)"
  shows "find_from x (hd (map Obj_list obs @ [x])) nm k = Some (find P obs)"
  using assms
proof (induction obs arbitrary: as)
  case Nil
  then show ?case by (subst find_from.simps) simp
next
  case (Cons ob obs)
  have "Obj_list ob \<noteq> x" using Cons.prems(1) by (auto simp: dll_def)
  moreover have "nxt (lists k) (Obj_list ob) = hd (map Obj_list obs @ [x])"
    using Cons.prems(1) by (intro dll_next_mem [of _ x as]) simp
  moreover have "find_from x (hd (map Obj_list obs @ [x])) nm k = Some (find P obs)"
    using Cons.IH [of "as @ [Obj_list ob]"] Cons.prems by simp
  moreover obtain r where "rt_strncmp (name (objects k ob)) nm RT_NAME_MAX = Some r" "r = 0 \<longleftrightarrow> P ob"
    using Cons.prems(2) [of ob] by auto
  ultimately show ?case by (subst find_from.simps) auto
qed

section \<open>The containers\<close>

text \<open>Every container lists live objects of its class, whose names are stored as
  \<^verbatim>\<open>rt_object_init\<close> stores them.\<close>

definition named :: "kernel \<Rightarrow> obj_ptr \<Rightarrow> u8 list \<Rightarrow> bool" where
  "named k ob a \<longleftrightarrow> 0 \<notin> set a \<and> name (objects k ob) = name_field RT_NAME_MAX a"

definition containers_ok :: "(node \<Rightarrow> node list) \<Rightarrow> kernel \<Rightarrow> bool" where
  "containers_ok L k \<longleftrightarrow> rings is_head (lists k) L \<and>
     (\<forall>i. \<forall>n \<in> set (L (Container_head i)). \<exists>ob. n = Obj_list ob \<and>
        rt_object_get_information (object_class ob) = Some i \<and> live k ob \<and> (\<exists>a. named k ob a))"

definition container :: "(node \<Rightarrow> node list) \<Rightarrow> nat \<Rightarrow> obj_ptr list" where
  "container L i = List.map_filter object_entry (L (Container_head i))"

lemma container_map: "containers_ok L k \<Longrightarrow> L (Container_head i) = map Obj_list (container L i)"
proof -
  assume c: "containers_ok L k"
  have "set ns \<subseteq> set (L (Container_head i)) \<Longrightarrow>
      ns = map Obj_list (List.map_filter object_entry ns)" for ns
  proof (induction ns)
    case (Cons n ns)
    then have "n \<in> set (L (Container_head i))" by simp
    then obtain ob where "n = Obj_list ob" using c unfolding containers_ok_def by blast
    then show ?case using Cons by (simp add: map_filter_simps)
  qed (simp add: map_filter_simps)
  then show ?thesis by (simp add: container_def)
qed

lemma containers_ok_member:
  assumes "containers_ok L k" "ob \<in> set (container L i)"
  shows "rt_object_get_information (object_class ob) = Some i" "live k ob" "\<exists>a. named k ob a"
proof -
  have "Obj_list ob \<in> set (L (Container_head i))"
    using assms(2) unfolding container_map [OF assms(1), of i] by simp
  with assms(1) show "rt_object_get_information (object_class ob) = Some i" "live k ob"
    "\<exists>a. named k ob a"
    by (auto simp: containers_ok_def)
qed

lemma containers_ok_dll:
  assumes "containers_ok L k"
  shows "dll (lists k) (Container_head i) (map Obj_list (container L i))"
  using assms rings_dll [of is_head "lists k" L "Container_head i"]
  by (simp add: container_map [OF assms, symmetric] containers_ok_def)

theorem rt_object_get_length_container:
  assumes "containers_ok L k" "rt_object_get_information ty = Some i"
  shows "rt_object_get_length ty k = Some (length (container L i))"
proof -
  note d = containers_ok_dll [OF assms(1), of i]
  show ?thesis
    using count_from_dll [of "lists k" "Container_head i" "[]" "map Obj_list (container L i)" 0]
      dll_next [OF d] d assms(2)
    by (simp add: rt_object_get_length_def)
qed

theorem rt_object_get_pointers_container:
  assumes "containers_ok L k" "rt_object_get_information ty = Some i"
  shows "rt_object_get_pointers ty maxlen k = Some (take (nat maxlen) (container L i))"
proof -
  note d = containers_ok_dll [OF assms(1), of i]
  show ?thesis
    using pointers_from_dll [of "lists k" "Container_head i" "[]" "container L i" "[]" maxlen]
      dll_next [OF d] d assms(2)
    by (simp add: rt_object_get_pointers_def)
qed

section \<open>Adding and removing objects\<close>

lemma is_head_Obj_list [simp]: "\<not> is_head (Obj_list ob)" by simp

definition init_object :: "obj_ptr \<Rightarrow> nat \<Rightarrow> u8 list \<Rightarrow> kernel \<Rightarrow> kernel" where
  "init_object ob i a k = upd_lists (rt_list_insert_after (Container_head i) (Obj_list ob))
     (upd_object ob (\<lambda>r. r\<lparr>type := object_class ob OR RT_Object_Class_Static,
        name := name_field RT_NAME_MAX a\<rparr>) k)"

lemma c_string_no_NUL: "c_string s = Some a \<Longrightarrow> 0 \<notin> set a"
  by (auto simp: c_string_def split: if_splits dest: set_takeWhileD)

lemma rt_object_init_closed [kernel_simps]:
  assumes q: "queue_ok X L k" "runs_highest L k" "0 \<le> sint (rt_scheduler_lock_nest k)"
    and i: "rt_object_get_information (object_class ob) = Some i"
    and fresh: "\<not> on_list is_head L (Obj_list ob)"
    and nm: "c_string nm = Some a" "length (name (objects k ob)) = RT_NAME_MAX"
  shows "rt_object_init ob (object_class ob) nm k = Some (init_object ob i a k)"
proof -
  have d: "dll (lists k) (Container_head i) (L (Container_head i))"
    using rings_dll [OF queue_ok_rings [OF q(1)]] by simp
  have "object_entry n = Some ob \<Longrightarrow> n = Obj_list ob" for n by (cases n) auto
  then have "find (\<lambda>n. object_entry n = Some ob) (L (Container_head i)) = None"
    using fresh by (auto simp: find_None_iff on_list_def)
  then have f: "rt_list_for_each (\<lambda>n. object_entry n = Some ob) (Container_head i) (lists k) =
      Some (Container_head i)"
    using rt_list_for_each_dll [OF d] by simp
  have l: "lists (rt_enter_critical k) = lists k" by (simp add: rt_enter_critical_def)
  have n: "rt_strncpy (name (objects k ob)) nm RT_NAME_MAX = Some (name_field RT_NAME_MAX a)"
    using rt_strncpy_eq [OF nm(1), of RT_NAME_MAX "name (objects k ob)"] nm(2) by simp
  show ?thesis
    using n by (simp add: rt_object_init_def i l f Let_def init_object_def comp_def
        critical_section [OF q])
qed

text \<open>An object that is in its container is refused.\<close>

theorem rt_object_init_twice:
  assumes c: "containers_ok L k" and ob: "ob \<in> set (container L i)"
  shows "rt_object_init ob (object_class ob) nm k = None"
proof -
  have i: "rt_object_get_information (object_class ob) = Some i"
    by (rule containers_ok_member(1) [OF c ob])
  have "Obj_list ob \<in> set (L (Container_head i))"
    using ob by (simp add: container_map [OF c])
  then obtain n where n: "find (\<lambda>n. object_entry n = Some ob) (L (Container_head i)) = Some n"
    by (cases "find (\<lambda>n. object_entry n = Some ob) (L (Container_head i))")
       (auto simp: find_None_iff)
  then have "object_entry n = Some ob" by (auto simp: find_Some_iff)
  then have "n \<noteq> Container_head i" by auto
  moreover have "dll (lists k) (Container_head i) (L (Container_head i))"
    using containers_ok_dll [OF c, of i] by (simp add: container_map [OF c])
  ultimately show ?thesis
    using n by (simp add: rt_object_init_def i rt_enter_critical_def Let_def rt_list_for_each_dll)
qed

lemma live_init_object [simp]: "live (init_object ob i a k) u \<longleftrightarrow> u = ob \<or> live k u"
  using get_type_static [OF object_class_container, of ob]
  by (auto simp: live_def rt_object_get_type_def init_object_def)

lemma named_init_object:
  "named (init_object ob i a k) u b \<longleftrightarrow>
     (if u = ob then 0 \<notin> set b \<and> name_field RT_NAME_MAX a = name_field RT_NAME_MAX b
      else named k u b)"
  by (simp add: named_def init_object_def)

lemma containers_ok_init_object:
  assumes c: "containers_ok L k" and i: "rt_object_get_information (object_class ob) = Some i"
    and fresh: "\<not> on_list is_head L (Obj_list ob)" and a: "0 \<notin> set a"
  shows "containers_ok (L(Container_head i := Obj_list ob # L (Container_head i)))
    (init_object ob i a k)"
  unfolding containers_ok_def
proof (intro conjI allI ballI)
  have r: "rings is_head (lists k) L" using c by (simp add: containers_ok_def)
  show "rings is_head (lists (init_object ob i a k))
      (L(Container_head i := Obj_list ob # L (Container_head i)))"
    using rings_insert_after [OF r _ _ fresh] by (simp add: init_object_def)
  fix j n assume n: "n \<in> set ((L(Container_head i := Obj_list ob # L (Container_head i)))
    (Container_head j))"
  show "\<exists>u. n = Obj_list u \<and> rt_object_get_information (object_class u) = Some j \<and>
      live (init_object ob i a k) u \<and> (\<exists>b. named (init_object ob i a k) u b)"
  proof (cases "n = Obj_list ob")
    case True
    moreover have "j = i"
    proof (rule ccontr)
      assume "j \<noteq> i"
      then have "n \<in> set (L (Container_head j))" using n by simp
      then show False using fresh True by (auto simp: on_list_def)
    qed
    ultimately show ?thesis using i a by (auto simp: named_init_object)
  next
    case False
    then have "n \<in> set (L (Container_head j))" using n by (auto split: if_splits)
    then obtain u where "n = Obj_list u" "rt_object_get_information (object_class u) = Some j"
      "live k u" "\<exists>b. named k u b"
      using c unfolding containers_ok_def by blast
    with False show ?thesis by (auto simp: named_init_object)
  qed
qed

lemma queue_ok_init_object:
  assumes q: "queue_ok X L k" and fresh: "\<not> on_list is_head L (Obj_list ob)"
  shows "queue_ok X (L(Container_head i := Obj_list ob # L (Container_head i)))
    (init_object ob i a k)"
  using rings_insert_after [OF queue_ok_rings [OF q] _ _ fresh, of "Container_head i"]
  by (intro queue_ok_frame [OF q]) (simp_all add: init_object_def)

lemma detached_object [simp]:
  "live (rt_object_detach ob k) u \<longleftrightarrow> u \<noteq> ob \<and> live k u"
  "named (rt_object_detach ob k) u b = named k u b"
  "threads (rt_object_detach ob k) = threads k" "timers (rt_object_detach ob k) = timers k"
proof -
  have "object_class ob \<noteq> 0" by (cases ob) simp_all
  then show "live (rt_object_detach ob k) u \<longleftrightarrow> u \<noteq> ob \<and> live k u"
    by (auto simp: live_def rt_object_get_type_def rt_object_detach_def)
qed (simp_all add: rt_object_detach_def named_def)

lemma containers_ok_detach:
  assumes c: "containers_ok L k"
  shows "containers_ok (\<lambda>x. removeAll (Obj_list ob) (L x)) (rt_object_detach ob k)"
  unfolding containers_ok_def
proof (intro conjI allI ballI)
  show "rings is_head (lists (rt_object_detach ob k)) (\<lambda>x. removeAll (Obj_list ob) (L x))"
    using c rings_remove [of is_head "lists k" L "Obj_list ob"]
    by (simp add: containers_ok_def rt_object_detach_def)
  fix i n assume "n \<in> set (removeAll (Obj_list ob) (L (Container_head i)))"
  then have n: "n \<in> set (L (Container_head i))" "n \<noteq> Obj_list ob" by auto
  then obtain u where "n = Obj_list u" "rt_object_get_information (object_class u) = Some i"
      "live k u" "\<exists>b. named k u b"
    using c unfolding containers_ok_def by blast
  then show "\<exists>u. n = Obj_list u \<and> rt_object_get_information (object_class u) = Some i \<and>
      live (rt_object_detach ob k) u \<and> (\<exists>b. named (rt_object_detach ob k) u b)"
    using n(2) by auto
qed

section \<open>Finding objects by name\<close>

text \<open>\<open>rt_object_find\<close> returns the first object of the container whose name agrees with the given
  one on the first \<^verbatim>\<open>RT_NAME_MAX\<close> characters.\<close>

definition has_name :: "kernel \<Rightarrow> u8 list \<Rightarrow> obj_ptr \<Rightarrow> bool" where
  "has_name k b ob \<longleftrightarrow> name (objects k ob) = name_field RT_NAME_MAX b"

lemma name_field_take: "0 \<notin> set a \<Longrightarrow> 0 \<notin> set b \<Longrightarrow>
    name_field n a = name_field n b \<longleftrightarrow> take n a = take n b"
proof (induction n arbitrary: a b)
  case (Suc n)
  then show ?case
    by (cases a; cases b) (auto simp: name_field_Suc)
qed simp

theorem rt_object_find_first:
  assumes q: "queue_ok X L k" "runs_highest L k" "0 \<le> sint (rt_scheduler_lock_nest k)"
    and c: "containers_ok L k" and i: "rt_object_get_information ty = Some i"
    and nm: "c_string nm = Some b"
  shows "rt_object_find (Some nm) ty k = Some (find (has_name k b) (container L i), k)"
proof -
  have "\<exists>r. rt_strncmp (name (objects k ob)) nm RT_NAME_MAX = Some r \<and> (r = 0 \<longleftrightarrow> has_name k b ob)"
    if "ob \<in> set (container L i)" for ob
  proof -
    from containers_ok_member(3) [OF c that] obtain a where a: "named k ob a" by blast
    then have "has_name k b ob \<longleftrightarrow> take RT_NAME_MAX a = take RT_NAME_MAX b"
      using name_field_take [of a b RT_NAME_MAX] c_string_no_NUL [OF nm]
      by (simp add: has_name_def named_def)
    then show ?thesis using rt_strncmp_name_field [of a nm b RT_NAME_MAX] a nm
      by (simp add: named_def)
  qed
  moreover have e: "objects (rt_enter_critical k) = objects k" "lists (rt_enter_critical k) = lists k"
    by (simp_all add: rt_enter_critical_def)
  ultimately have "find_from (Container_head i)
      (hd (map Obj_list (container L i) @ [Container_head i])) nm (rt_enter_critical k) =
      Some (find (has_name k b) (container L i))"
    using containers_ok_dll [OF c, of i] by (intro find_from_dll [where as = "[]"]) auto
  moreover have "nxt (lists k) (Container_head i) =
      hd (map Obj_list (container L i) @ [Container_head i])"
    by (rule dll_next [OF containers_ok_dll [OF c]])
  ultimately show ?thesis
    by (simp add: rt_object_find_def i Let_def e critical_section [OF q])
qed

end
