(* ===== verification/Timer.thy ===== *)
theory Timer
  imports Object
begin

text \<open>
  \<^verbatim>\<open>src/timer.c\<close> with one skip-list row and without the soft timer thread: a sorted list of the
  active timers.  Ticks are 32-bit and wrap; \<open>remaining k t\<close> is the distance of a timeout from
  the current tick.
\<close>

section \<open>The operations\<close>

definition timer_flag :: "kernel \<Rightarrow> timer_ptr \<Rightarrow> u8" where
  "timer_flag k t = flag (objects k (Obj_timer t))"

abbreviation set_timer_flag :: "timer_ptr \<Rightarrow> (u8 \<Rightarrow> u8) \<Rightarrow> kernel \<Rightarrow> kernel" where
  "set_timer_flag t f \<equiv> upd_object (Obj_timer t) (\<lambda>ob. ob\<lparr>flag := f (flag ob)\<rparr>)"

definition HALF_TICK_MAX :: u32 where "HALF_TICK_MAX = RT_TICK_MAX div 2"

definition rt_system_timer_init :: "kernel \<Rightarrow> kernel" where
  "rt_system_timer_init k = upd_lists (rt_list_init Timer_head) k"

definition rt_timer_init0 :: "timer_ptr \<Rightarrow> timeout_fn \<Rightarrow> u32 \<Rightarrow> u8 \<Rightarrow> kernel \<Rightarrow> kernel" where
  "rt_timer_init0 t timeout time fl k = (let
     k = set_timer_flag t (\<lambda>_. fl) k;
     k = set_timer_flag t (\<lambda>fl. fl AND NOT RT_TIMER_FLAG_ACTIVATED) k;
     k = upd_timer t (\<lambda>tm. tm\<lparr>timeout_func := timeout\<rparr>) k;
     k = upd_timer t (\<lambda>tm. tm\<lparr>timeout_tick := 0\<rparr>) k;
     k = upd_timer t (\<lambda>tm. tm\<lparr>init_tick := time\<rparr>) k
   in upd_lists (rt_list_init (Row t)) k)"

definition rt_timer_init ::
  "timer_ptr \<Rightarrow> char_ptr \<Rightarrow> timeout_fn \<Rightarrow> u32 \<Rightarrow> u8 \<Rightarrow> kernel \<Rightarrow> kernel option" where
  "rt_timer_init t nm timeout time fl k = do {
     k \<leftarrow> rt_object_init (Obj_timer t) RT_Object_Class_Timer nm k;
     Some (rt_timer_init0 t timeout time fl k)
   }"

definition rt_timer_list_next_timeout :: "kernel \<Rightarrow> u32 option" where
  "rt_timer_list_next_timeout k =
     (if \<not> rt_list_isempty Timer_head (lists k) then do {
        timer \<leftarrow> timer_entry (nxt (lists k) Timer_head);
        Some (timeout_tick (timers k timer))
      } else Some RT_TICK_MAX)"

definition rt_timer_next_timeout_tick :: "kernel \<Rightarrow> u32 option" where
  "rt_timer_next_timeout_tick k = rt_timer_list_next_timeout k"

definition rt_timer_remove :: "timer_ptr \<Rightarrow> kernel \<Rightarrow> kernel" where
  "rt_timer_remove t k = upd_lists (rt_list_remove (Row t)) k"

definition rt_timer_detach :: "timer_ptr \<Rightarrow> kernel \<Rightarrow> (err \<times> kernel) option" where
  "rt_timer_detach t k = do {
     RT_ASSERT (rt_object_get_type (Obj_timer t) k = RT_Object_Class_Timer);
     RT_ASSERT (rt_object_is_systemobject (Obj_timer t) k);
     let k = rt_timer_remove t k;
     let k = set_timer_flag t (\<lambda>fl. fl AND NOT RT_TIMER_FLAG_ACTIVATED) k;
     let k = rt_object_detach (Obj_timer t) k;
     Some (RT_EOK, k)
   }"

text \<open>The loop of \<^verbatim>\<open>rt_timer_start\<close> that looks for the node to insert behind.\<close>

partial_function (option) timer_position :: "u32 \<Rightarrow> node \<Rightarrow> kernel \<Rightarrow> node option" where
  "timer_position timeout row_head k =
     (if row_head \<noteq> prv (lists k) Timer_head then do {
        let p = nxt (lists k) row_head;
        t \<leftarrow> timer_entry p;
        if timeout_tick (timers k t) - timeout = 0
        then timer_position timeout p k
        else if timeout_tick (timers k t) - timeout < HALF_TICK_MAX then Some row_head
        else timer_position timeout p k
      } else Some row_head)"

definition rt_timer_start :: "timer_ptr \<Rightarrow> kernel \<Rightarrow> (err \<times> kernel) option" where
  "rt_timer_start t k = do {
     RT_ASSERT (rt_object_get_type (Obj_timer t) k = RT_Object_Class_Timer);
     let k = rt_timer_remove t k;
     let k = set_timer_flag t (\<lambda>fl. fl AND NOT RT_TIMER_FLAG_ACTIVATED) k;
     RT_ASSERT (init_tick (timers k t) < HALF_TICK_MAX);
     let k = upd_timer t (\<lambda>tm. tm\<lparr>timeout_tick := rt_tick k + init_tick tm\<rparr>) k;
     row_head \<leftarrow> timer_position (timeout_tick (timers k t)) Timer_head k;
     let k = random_nr_update (\<lambda>n. n + 1) k;
     let k = upd_lists (rt_list_insert_after row_head (Row t)) k;
     let k = set_timer_flag t (\<lambda>fl. fl OR RT_TIMER_FLAG_ACTIVATED) k;
     Some (RT_EOK, k)
   }"

definition rt_timer_stop :: "timer_ptr \<Rightarrow> kernel \<Rightarrow> (err \<times> kernel) option" where
  "rt_timer_stop t k = do {
     RT_ASSERT (rt_object_get_type (Obj_timer t) k = RT_Object_Class_Timer);
     if timer_flag k t AND RT_TIMER_FLAG_ACTIVATED = 0 then Some (- RT_ERROR, k)
     else do {
       let k = rt_timer_remove t k;
       let k = set_timer_flag t (\<lambda>fl. fl AND NOT RT_TIMER_FLAG_ACTIVATED) k;
       Some (RT_EOK, k)
     }
   }"

abbreviation (input) RT_TIMER_CTRL_SET_TIME :: int where "RT_TIMER_CTRL_SET_TIME \<equiv> 0"
abbreviation (input) RT_TIMER_CTRL_GET_TIME :: int where "RT_TIMER_CTRL_GET_TIME \<equiv> 1"
abbreviation (input) RT_TIMER_CTRL_SET_ONESHOT :: int where "RT_TIMER_CTRL_SET_ONESHOT \<equiv> 2"
abbreviation (input) RT_TIMER_CTRL_SET_PERIODIC :: int where "RT_TIMER_CTRL_SET_PERIODIC \<equiv> 3"
abbreviation (input) RT_TIMER_CTRL_GET_STATE :: int where "RT_TIMER_CTRL_GET_STATE \<equiv> 4"

text \<open>\<open>arg\<close> is the tick \<^verbatim>\<open>arg\<close> points to, before and after the call.\<close>

definition rt_timer_control ::
  "timer_ptr \<Rightarrow> int \<Rightarrow> u32 \<Rightarrow> kernel \<Rightarrow> (err \<times> u32 \<times> kernel) option" where
  "rt_timer_control t cmd arg k = do {
     RT_ASSERT (rt_object_get_type (Obj_timer t) k = RT_Object_Class_Timer);
     Some (RT_EOK,
       if cmd = RT_TIMER_CTRL_GET_TIME then (init_tick (timers k t), k)
       else if cmd = RT_TIMER_CTRL_SET_TIME then
         (arg, upd_timer t (\<lambda>tm. tm\<lparr>init_tick := arg\<rparr>) k)
       else if cmd = RT_TIMER_CTRL_SET_ONESHOT then
         (arg, set_timer_flag t (\<lambda>fl. fl AND NOT RT_TIMER_FLAG_PERIODIC) k)
       else if cmd = RT_TIMER_CTRL_SET_PERIODIC then
         (arg, set_timer_flag t (\<lambda>fl. fl OR RT_TIMER_FLAG_PERIODIC) k)
       else if cmd = RT_TIMER_CTRL_GET_STATE then
         (if timer_flag k t AND RT_TIMER_FLAG_ACTIVATED \<noteq> 0 then (1, k) else (0, k))
       else (arg, k))
   }"

text \<open>\<open>call\<close> runs a timeout function.  The loop need not end: a function may start further
  timers that have expired at once.\<close>

partial_function (option) timer_check_loop ::
  "(timeout_fn \<Rightarrow> kernel \<Rightarrow> kernel option) \<Rightarrow> u32 \<Rightarrow> kernel \<Rightarrow> kernel option" where
  "timer_check_loop call current_tick k =
     (if \<not> rt_list_isempty Timer_head (lists k) then do {
        t \<leftarrow> timer_entry (nxt (lists k) Timer_head);
        if current_tick - timeout_tick (timers k t) < HALF_TICK_MAX then do {
          let k = rt_timer_remove t k;
          let k = (if timer_flag k t AND RT_TIMER_FLAG_PERIODIC = 0
            then set_timer_flag t (\<lambda>fl. fl AND NOT RT_TIMER_FLAG_ACTIVATED) k else k);
          let k = upd_lists (rt_list_insert_after Timer_tmp_head (Row t)) k;
          k \<leftarrow> call (timeout_func (timers k t)) k;
          let current_tick = rt_tick k;
          if rt_list_isempty Timer_tmp_head (lists k) then timer_check_loop call current_tick k
          else do {
            let k = upd_lists (rt_list_remove (Row t)) k;
            if timer_flag k t AND RT_TIMER_FLAG_PERIODIC \<noteq> 0 \<and>
               timer_flag k t AND RT_TIMER_FLAG_ACTIVATED \<noteq> 0
            then do {
              let k = set_timer_flag t (\<lambda>fl. fl AND NOT RT_TIMER_FLAG_ACTIVATED) k;
              (_, k) \<leftarrow> rt_timer_start t k;
              timer_check_loop call current_tick k
            }
            else timer_check_loop call current_tick k
          }
        } else Some k
      } else Some k)"

definition rt_timer_check ::
  "(timeout_fn \<Rightarrow> kernel \<Rightarrow> kernel option) \<Rightarrow> kernel \<Rightarrow> kernel option" where
  "rt_timer_check call k = (let
     k = upd_lists (rt_list_init Timer_tmp_head) k
   in timer_check_loop call (rt_tick k) k)"

section \<open>The timer list\<close>

definition remaining :: "kernel \<Rightarrow> timer_ptr \<Rightarrow> nat" where
  "remaining k t = unat (timeout_tick (timers k t) - rt_tick k)"

definition active :: "kernel \<Rightarrow> timer_ptr \<Rightarrow> bool" where
  "active k t \<longleftrightarrow> timer_flag k t AND RT_TIMER_FLAG_ACTIVATED \<noteq> 0"

definition one_shot :: "kernel \<Rightarrow> timer_ptr \<Rightarrow> bool" where
  "one_shot k t \<longleftrightarrow> timer_flag k t AND RT_TIMER_FLAG_PERIODIC = 0"

definition timer_list :: "(node \<Rightarrow> node list) \<Rightarrow> timer_ptr list" where
  "timer_list L = List.map_filter timer_entry (L Timer_head)"

text \<open>
  \<open>timers_ok P L k\<close>: the list holds live, active timers in the order of their timeouts, none
  of them half the tick range away, and every active timer is on it, but for those of \<open>P\<close>, which
  \<^verbatim>\<open>rt_timer_check\<close> is running.
\<close>

definition timers_ok :: "timer_ptr set \<Rightarrow> (node \<Rightarrow> node list) \<Rightarrow> kernel \<Rightarrow> bool" where
  "timers_ok P L k \<longleftrightarrow>
     rings is_head (lists k) L \<and>
     L Timer_head = map Row (timer_list L) \<and>
     sorted (map (remaining k) (timer_list L)) \<and>
     (\<forall>t \<in> set (timer_list L). live k (Obj_timer t) \<and> active k t \<and>
        remaining k t < unat HALF_TICK_MAX) \<and>
     (\<forall>t. active k t \<longrightarrow> t \<in> P \<or> t \<in> set (timer_list L)) \<and>
     (\<forall>x t. is_head x \<longrightarrow> Row t \<in> set (L x) \<longrightarrow> x = Timer_head \<or> x = Timer_tmp_head \<and> t \<in> P)"

lemma timers_okD:
  assumes "timers_ok P L k"
  shows "rings is_head (lists k) L" "L Timer_head = map Row (timer_list L)"
    "sorted (map (remaining k) (timer_list L))"
    "\<And>t. t \<in> set (timer_list L) \<Longrightarrow> live k (Obj_timer t) \<and> active k t \<and>
       remaining k t < unat HALF_TICK_MAX"
    "\<And>t. active k t \<Longrightarrow> t \<in> P \<or> t \<in> set (timer_list L)"
    "\<And>x t. is_head x \<Longrightarrow> Row t \<in> set (L x) \<Longrightarrow> x = Timer_head \<or> x = Timer_tmp_head \<and> t \<in> P"
  using assms unfolding timers_ok_def by blast+

lemma half_tick: "unat HALF_TICK_MAX = 2147483647"
  by (simp add: HALF_TICK_MAX_def unat_div)

subsection \<open>Comparing ticks across the wrap-around\<close>

lemma tick_compare:
  fixes a b now :: u32
  assumes "unat (a - now) < unat HALF_TICK_MAX" "unat (b - now) < unat HALF_TICK_MAX"
  shows "a - b = 0 \<longleftrightarrow> unat (a - now) = unat (b - now)"
    "a - b \<noteq> 0 \<Longrightarrow> a - b < HALF_TICK_MAX \<longleftrightarrow> unat (b - now) < unat (a - now)"
proof -
  let ?x = "a - now" and ?y = "b - now"
  have eq: "a - b = ?x - ?y" by simp
  show "a - b = 0 \<longleftrightarrow> unat ?x = unat ?y"
    unfolding eq by (simp add: word_unat_eq_iff [symmetric])
  show "a - b < HALF_TICK_MAX \<longleftrightarrow> unat ?y < unat ?x" if "a - b \<noteq> 0"
  proof (cases "unat ?x < unat ?y")
    case True
    then have "unat (?x - ?y) = 2 ^ 32 + unat ?x - unat ?y" by (rule unat_diff_wrap)
    then show ?thesis using assms True unfolding eq word_less_nat_alt half_tick by auto
  next
    case False
    then have "?y \<le> ?x" by (simp add: word_le_nat_alt)
    then have "unat (?x - ?y) = unat ?x - unat ?y" by (rule unat_sub)
    moreover have "?x \<noteq> ?y" using that by (metis diff_self eq)
    then have "unat ?x \<noteq> unat ?y" by (metis word_unat_eq_iff)
    ultimately show ?thesis using assms False unfolding eq word_less_nat_alt half_tick by auto
  qed
qed

subsection \<open>Where a timer goes\<close>

lemma timer_position_dll:
  assumes d: "dll (lists k) Timer_head (map Row (as @ bs))"
    and bs: "\<And>t. t \<in> set bs \<Longrightarrow> remaining k t < unat HALF_TICK_MAX"
    and new: "unat (timeout - rt_tick k) < unat HALF_TICK_MAX"
    and sorted: "sorted (map (remaining k) bs)"
  shows "timer_position timeout (last (Timer_head # map Row as)) k =
    Some (last (Timer_head # map Row (as @ takeWhile (\<lambda>t. remaining k t \<le> unat (timeout - rt_tick k)) bs)))"
  using d bs sorted
proof (induction bs arbitrary: as)
  case Nil
  have "prv (lists k) Timer_head = last (Timer_head # map Row as)"
    using dll_prev [of "lists k" Timer_head "map Row as"] Nil.prems(1) by simp
  then show ?case by (subst timer_position.simps) simp
next
  case (Cons b bs)
  have d': "dll (lists k) Timer_head (map Row as @ Row b # map Row bs)" using Cons.prems(1) by simp
  have nx: "nxt (lists k) (last (Timer_head # map Row as)) = Row b"
    using dll_split(2) [OF d'] by simp
  have "prv (lists k) Timer_head = last (Row b # map Row bs)"
    using dll_prev [OF d'] by simp
  moreover have "last (Row b # map Row bs) \<in> set (Row b # map Row bs)" by (rule last_Cons_in)
  moreover have "last (Timer_head # map Row as) \<in> set (Timer_head # map Row as)"
    by (rule last_Cons_in)
  moreover have "distinct (Timer_head # map Row as @ Row b # map Row bs)"
    using d' by (simp add: dll_def)
  ultimately have ne: "last (Timer_head # map Row as) \<noteq> prv (lists k) Timer_head"
    by (auto dest: last_in_set)
  have next_step: "timer_position timeout (Row b) k =
      Some (last (Timer_head # map Row ((as @ [b]) @ takeWhile (\<lambda>t. remaining k t \<le> unat (timeout - rt_tick k)) bs)))"
    using Cons.IH [of "as @ [b]"] Cons.prems by simp
  have b: "unat (timeout_tick (timers k b) - rt_tick k) < unat HALF_TICK_MAX"
    using Cons.prems(2) [of b] by (simp add: remaining_def)
  note cmp = tick_compare [OF b new]
  show ?case
  proof (cases "timeout_tick (timers k b) - timeout = 0")
    case True
    then have "remaining k b \<le> unat (timeout - rt_tick k)" using cmp(1) by (simp add: remaining_def)
    then show ?thesis using ne nx True next_step by (subst timer_position.simps) (simp add: Let_def)
  next
    case False
    show ?thesis
    proof (cases "unat (timeout - rt_tick k) < remaining k b")
      case True
      then have "timeout_tick (timers k b) - timeout < HALF_TICK_MAX"
        using cmp(2) [OF False] by (simp add: remaining_def)
      then show ?thesis using ne nx False True by (subst timer_position.simps) (simp add: Let_def)
    next
      case le: False
      then have "\<not> timeout_tick (timers k b) - timeout < HALF_TICK_MAX"
        using cmp(2) [OF False] by (simp add: remaining_def)
      then show ?thesis using ne nx False le next_step
        by (subst timer_position.simps) (simp add: Let_def)
    qed
  qed
qed

subsection \<open>Starting and stopping\<close>

text \<open>What \<open>rt_timer_stop\<close> and the first half of \<open>rt_timer_start\<close> do to a timer.\<close>

definition take_off :: "timer_ptr \<Rightarrow> kernel \<Rightarrow> kernel" where
  "take_off t k = set_timer_flag t (\<lambda>fl. fl AND NOT RT_TIMER_FLAG_ACTIVATED)
     (upd_lists (rt_list_remove (Row t)) k)"

lemma take_off_frame [simp, frame]:
  "threads (take_off t k) = threads k" "timers (take_off t k) = timers k"
  "rt_tick (take_off t k) = rt_tick k" "sems (take_off t k) = sems k"
  "mutexes (take_off t k) = mutexes k" "events (take_off t k) = events k"
  "mailboxes (take_off t k) = mailboxes k" "mqs (take_off t k) = mqs k"
  "mempools (take_off t k) = mempools k" "mem (take_off t k) = mem k"
  "rt_current_thread (take_off t k) = rt_current_thread k"
  "rt_thread_ready_priority_group (take_off t k) = rt_thread_ready_priority_group k"
  "rt_scheduler_lock_nest (take_off t k) = rt_scheduler_lock_nest k"
  "rt_interrupt_nest (take_off t k) = rt_interrupt_nest k"
  "lists (take_off t k) = rt_list_remove (Row t) (lists k)"
  "live (take_off t k) ob = live k ob" "named (take_off t k) ob a = named k ob a"
  "remaining (take_off t k) = remaining k"
  "active (take_off t k) u \<longleftrightarrow> u \<noteq> t \<and> active k u"
  "one_shot (take_off t k) = one_shot k"
proof -
  have p: "(x AND NOT RT_TIMER_FLAG_ACTIVATED) AND RT_TIMER_FLAG_PERIODIC = x AND RT_TIMER_FLAG_PERIODIC"
    for x :: u8 by (simp add: and.assoc)
  then show "one_shot (take_off t k) = one_shot k"
    by (simp add: fun_eq_iff one_shot_def timer_flag_def take_off_def)
  have "(x AND NOT RT_TIMER_FLAG_ACTIVATED) AND RT_TIMER_FLAG_ACTIVATED = 0" for x :: u8
    by (simp add: and.assoc)
  then show "active (take_off t k) u \<longleftrightarrow> u \<noteq> t \<and> active k u"
    by (auto simp: active_def timer_flag_def take_off_def)
qed (simp_all add: take_off_def live_def rt_object_get_type_def named_def remaining_def fun_eq_iff)

lemma timer_list_map: "L Timer_head = map Row ts \<Longrightarrow> timer_list L = ts"
proof -
  have "List.map_filter timer_entry (map Row ts) = ts" by (induction ts) (simp_all add: map_filter_simps)
  then show "L Timer_head = map Row ts \<Longrightarrow> timer_list L = ts" by (simp add: timer_list_def)
qed

lemma removeAll_map_Row: "removeAll (Row t) (map Row ts) = map Row (removeAll t ts)"
  by (induction ts) auto

lemma timer_list_remove:
  assumes "L Timer_head = map Row (timer_list L)"
  shows "timer_list (\<lambda>x. removeAll (Row t) (L x)) = removeAll t (timer_list L)"
  using assms by (intro timer_list_map) (metis removeAll_map_Row)

lemma sorted_map_removeAll: "sorted (map f xs) \<Longrightarrow> sorted (map f (removeAll t xs))"
  by (induction xs) auto

lemma timers_ok_take_off:
  assumes ok: "timers_ok P L k"
  shows "timers_ok (P - {t}) (\<lambda>x. removeAll (Row t) (L x)) (take_off t k)"
proof -
  note o = timers_okD [OF ok]
  note tl = timer_list_remove [OF o(2), of t]
  show ?thesis
    unfolding timers_ok_def tl
  proof (intro conjI allI ballI impI)
    show "rings is_head (lists (take_off t k)) (\<lambda>x. removeAll (Row t) (L x))"
      using rings_remove [OF o(1), of "Row t"] by simp
    show "removeAll (Row t) (L Timer_head) = map Row (removeAll t (timer_list L))"
      by (metis o(2) removeAll_map_Row)
    show "sorted (map (remaining (take_off t k)) (removeAll t (timer_list L)))"
      using sorted_map_removeAll [OF o(3)] by simp
  qed (use o in auto)
qed

text \<open>The closed form of a start: the timer goes behind those that expire no later.\<close>

definition begin_timer :: "timer_ptr \<Rightarrow> node \<Rightarrow> kernel \<Rightarrow> kernel" where
  "begin_timer t pos k =
     set_timer_flag t (\<lambda>fl. (fl AND NOT RT_TIMER_FLAG_ACTIVATED) OR RT_TIMER_FLAG_ACTIVATED)
     (upd_lists (\<lambda>h. rt_list_insert_after pos (Row t) (rt_list_remove (Row t) h))
     (random_nr_update (\<lambda>n. n + 1)
     (upd_timer t (\<lambda>tm. tm\<lparr>timeout_tick := rt_tick k + init_tick tm\<rparr>) k)))"

definition earlier :: "kernel \<Rightarrow> nat \<Rightarrow> timer_ptr list \<Rightarrow> timer_ptr list" where
  "earlier k n ts = takeWhile (\<lambda>u. remaining k u \<le> n) ts"

definition later :: "kernel \<Rightarrow> nat \<Rightarrow> timer_ptr list \<Rightarrow> timer_ptr list" where
  "later k n ts = dropWhile (\<lambda>u. remaining k u \<le> n) ts"

lemma rt_timer_start_closed [kernel_simps]:
  assumes ok: "timers_ok P L k" and t: "live k (Obj_timer t)"
    and i: "init_tick (timers k t) < HALF_TICK_MAX"
  defines "as \<equiv> earlier k (unat (init_tick (timers k t))) (removeAll t (timer_list L))"
  shows "rt_timer_start t k = Some (RT_EOK, begin_timer t (last (Timer_head # map Row as)) k)"
proof -
  let ?L = "\<lambda>x. removeAll (Row t) (L x)" and ?ts = "removeAll t (timer_list L)"
  let ?timeout = "rt_tick k + init_tick (timers k t)"
  let ?k = "upd_timer t (\<lambda>tm. tm\<lparr>timeout_tick := rt_tick k + init_tick tm\<rparr>) (take_off t k)"
  define pos where "pos = last (Timer_head # map Row as)"
  have off: "timers_ok (P - {t}) ?L (take_off t k)" by (rule timers_ok_take_off [OF ok])
  note o = timers_okD [OF off]
  have tl: "timer_list ?L = ?ts" by (rule timer_list_remove [OF timers_okD(2) [OF ok]])
  have d: "dll (lists ?k) Timer_head (map Row ([] @ ?ts))"
    using rings_dll [OF o(1), of Timer_head] o(2) tl by simp
  have rem: "remaining ?k u = remaining k u" if "u \<in> set ?ts" for u
    using that by (simp add: remaining_def)
  have 1: "remaining ?k u < unat HALF_TICK_MAX" if "u \<in> set ?ts" for u
    using o(4) [of u] that tl rem [OF that] by simp
  have 2: "sorted (map (remaining ?k) ?ts)"
  proof -
    have "map (remaining ?k) ?ts = map (remaining k) ?ts" using rem by (intro map_cong) auto
    then show ?thesis using o(3) by (simp only: tl take_off_frame)
  qed
  have 3: "unat (?timeout - rt_tick ?k) < unat HALF_TICK_MAX"
    using i by (simp add: word_less_nat_alt)
  have "timer_position ?timeout Timer_head ?k = Some pos"
  proof -
    have "takeWhile (\<lambda>u. remaining ?k u \<le> unat (?timeout - rt_tick ?k)) ?ts = as"
      unfolding as_def earlier_def using rem by (intro takeWhile_cong) auto
    then show ?thesis using timer_position_dll [OF d 1 3 2] by (simp add: pos_def)
  qed
  then show ?thesis
    unfolding pos_def [symmetric]
    using t i by (simp add: rt_timer_start_def live_def Let_def rt_timer_remove_def begin_timer_def
        take_off_def comp_def)
qed

text \<open>The list after the start.\<close>

definition start_ring :: "kernel \<Rightarrow> timer_ptr \<Rightarrow> (node \<Rightarrow> node list) \<Rightarrow> node \<Rightarrow> node list" where
  "start_ring k t L = (let n = unat (init_tick (timers k t)); ts = removeAll t (timer_list L)
     in (\<lambda>x. removeAll (Row t) (L x))
          (Timer_head := map Row (earlier k n ts @ t # later k n ts)))"

definition start_pos :: "kernel \<Rightarrow> timer_ptr \<Rightarrow> (node \<Rightarrow> node list) \<Rightarrow> node" where
  "start_pos k t L = last (Timer_head #
     map Row (earlier k (unat (init_tick (timers k t))) (removeAll t (timer_list L))))"

lemma earlier_later: "earlier k n ts @ later k n ts = ts"
  by (simp add: earlier_def later_def)

lemma earlier_le: "u \<in> set (earlier k n ts) \<Longrightarrow> remaining k u \<le> n"
  by (auto simp: earlier_def dest: set_takeWhileD)

lemma later_gt:
  assumes "sorted (map (remaining k) ts)" "u \<in> set (later k n ts)"
  shows "n < remaining k u"
proof -
  obtain v vs where v: "later k n ts = v # vs" using assms(2) by (cases "later k n ts") auto
  then have "\<not> remaining k v \<le> n"
    by (metis hd_dropWhile later_def list.distinct(1) list.sel(1))
  moreover have "sorted (map (remaining k) (later k n ts))"
    using assms(1) by (simp add: later_def dropWhile_eq_drop drop_map [symmetric] sorted_wrt_drop)
  then have "remaining k v \<le> remaining k u" using v assms(2) by auto
  ultimately show ?thesis by simp
qed

lemma begin_timer_frame [simp, frame]:
  "threads (begin_timer t p k) = threads k" "rt_tick (begin_timer t p k) = rt_tick k"
  "sems (begin_timer t p k) = sems k" "mutexes (begin_timer t p k) = mutexes k"
  "events (begin_timer t p k) = events k" "mailboxes (begin_timer t p k) = mailboxes k"
  "mqs (begin_timer t p k) = mqs k" "mempools (begin_timer t p k) = mempools k"
  "mem (begin_timer t p k) = mem k"
  "rt_current_thread (begin_timer t p k) = rt_current_thread k"
  "rt_thread_ready_priority_group (begin_timer t p k) = rt_thread_ready_priority_group k"
  "rt_scheduler_lock_nest (begin_timer t p k) = rt_scheduler_lock_nest k"
  "rt_interrupt_nest (begin_timer t p k) = rt_interrupt_nest k"
  "lists (begin_timer t p k) = rt_list_insert_after p (Row t) (rt_list_remove (Row t) (lists k))"
  "live (begin_timer t p k) ob = live k ob" "named (begin_timer t p k) ob a = named k ob a"
  "active (begin_timer t p k) u \<longleftrightarrow> u = t \<or> active k u"
  "remaining (begin_timer t p k) u =
     (if u = t then unat (init_tick (timers k t)) else remaining k u)"
  "init_tick (timers (begin_timer t p k) u) = init_tick (timers k u)"
  "timeout_func (timers (begin_timer t p k) u) = timeout_func (timers k u)"
  "one_shot (begin_timer t p k) = one_shot k"
proof -
  have p: "((x AND NOT RT_TIMER_FLAG_ACTIVATED) OR RT_TIMER_FLAG_ACTIVATED) AND RT_TIMER_FLAG_PERIODIC =
      x AND RT_TIMER_FLAG_PERIODIC"
    for x :: u8 by (simp add: and.assoc bit.conj_disj_distrib2)
  then show "one_shot (begin_timer t p k) = one_shot k"
    by (simp add: fun_eq_iff one_shot_def timer_flag_def begin_timer_def)
  have a: "(x OR RT_TIMER_FLAG_ACTIVATED) AND RT_TIMER_FLAG_ACTIVATED = RT_TIMER_FLAG_ACTIVATED"
    for x :: u8 by (simp add: bit.conj_disj_distrib2)
  then have "x OR RT_TIMER_FLAG_ACTIVATED \<noteq> 0 \<and>
      (x OR RT_TIMER_FLAG_ACTIVATED) AND RT_TIMER_FLAG_ACTIVATED = RT_TIMER_FLAG_ACTIVATED" for x :: u8
    by (metis bit.conj_zero_left one_neq_zero)
  then show "active (begin_timer t p k) u \<longleftrightarrow> u = t \<or> active k u"
    by (auto simp: active_def timer_flag_def begin_timer_def)
qed (auto simp: begin_timer_def live_def rt_object_get_type_def named_def remaining_def)

lemma timers_ok_start:
  assumes ok: "timers_ok P L k" and t: "live k (Obj_timer t)"
    and i: "init_tick (timers k t) < HALF_TICK_MAX"
  shows "timers_ok (P - {t}) (start_ring k t L) (begin_timer t (start_pos k t L) k)"
proof -
  define n where "n = unat (init_tick (timers k t))"
  define ts where "ts = removeAll t (timer_list L)"
  let ?L = "\<lambda>x. removeAll (Row t) (L x)" and ?k = "begin_timer t (start_pos k t L) k"
  let ?as = "earlier k n ts" and ?bs = "later k n ts"
  have ring: "start_ring k t L = ?L(Timer_head := map Row (?as @ t # ?bs))"
    by (simp add: start_ring_def n_def ts_def Let_def)
  have pos: "start_pos k t L = last (Timer_head # map Row ?as)"
    by (simp add: start_pos_def n_def ts_def)
  note o = timers_okD [OF ok]
  have head: "?L Timer_head = map Row ?as @ map Row ?bs"
    using earlier_later [of k n ts] o(2) unfolding ts_def
    by (metis map_append removeAll_map_Row)
  have mem: "set ts = set ?as \<union> set ?bs"
    by (metis earlier_later set_append)
  have srt: "sorted (map (remaining k) ts)" using sorted_map_removeAll [OF o(3)] by (simp add: ts_def)
  have tnot: "t \<notin> set ?as" "t \<notin> set ?bs" using mem by (auto simp: ts_def)
  have tl: "timer_list (start_ring k t L) = ?as @ t # ?bs"
    by (intro timer_list_map) (simp add: ring)
  show ?thesis
    unfolding timers_ok_def tl
  proof (intro conjI allI ballI impI)
    have r: "rings is_head (rt_list_remove (Row t) (lists k)) ?L"
      using rings_remove [OF o(1), of "Row t"] by simp
    show "rings is_head (lists ?k) (start_ring k t L)"
      using rings_insert_after_node [OF r _ head] by (simp add: pos ring)
    show "start_ring k t L Timer_head = map Row (?as @ t # ?bs)" by (simp add: ring)
    show "sorted (map (remaining ?k) (?as @ t # ?bs))"
    proof -
      have s: "sorted (map (remaining k) (?as @ ?bs))" using srt by (simp add: earlier_later)
      have same: "map (remaining ?k) us = map (remaining k) us" if "t \<notin> set us" for us
        using that by (intro map_cong) auto
      have b: "n \<le> remaining k u" if "u \<in> set ?bs" for u using later_gt [OF srt that] by simp
      have "\<forall>u \<in> set ?as. remaining k u \<le> n" using earlier_le by blast
      moreover have "sorted (map (remaining k) ?as)" "sorted (map (remaining k) ?bs)"
        "\<forall>u \<in> set ?as. \<forall>v \<in> set ?bs. remaining k u \<le> remaining k v"
        using s by (auto simp: sorted_append)
      ultimately show ?thesis
        using b tnot by (auto simp: sorted_append same n_def [symmetric])
    qed
    fix u assume u: "u \<in> set (?as @ t # ?bs)"
    then have "u = t \<or> u \<in> set (timer_list L)" using mem by (auto simp: ts_def)
    then show "live ?k (Obj_timer u)" "active ?k u" "remaining ?k u < unat HALF_TICK_MAX"
      using t i o(4) by (auto simp: word_less_nat_alt)
  next
    fix u assume "active ?k u"
    then show "u \<in> P - {t} \<or> u \<in> set (?as @ t # ?bs)"
      using o(5) [of u] mem by (auto simp: ts_def)
  next
    fix x u assume "is_head x" "Row u \<in> set (start_ring k t L x)"
    then show "x = Timer_head \<or> x = Timer_tmp_head \<and> u \<in> P - {t}"
      using o(6) [of x u] by (auto simp: ring split: if_splits)
  qed
qed

lemma rt_timer_stop_closed [kernel_simps]:
  assumes "live k (Obj_timer t)"
  shows "rt_timer_stop t k = Some (if active k t then (RT_EOK, take_off t k) else (- RT_ERROR, k))"
  using assms by (simp add: rt_timer_stop_def active_def live_def take_off_def rt_timer_remove_def Let_def)

text \<open>Whatever \<open>rt_timer_stop\<close> returns, the timer is then on no list.\<close>

lemma stop_no_row:
  assumes ok: "timers_ok {} L k" and n: "\<not> active k t"
  shows "\<not> on_list is_head L (Row t)"
proof
  assume "on_list is_head L (Row t)"
  then have "Row t \<in> set (L Timer_head)"
    using timers_okD(6) [OF ok] by (fastforce simp: on_list_def)
  then have "Row t \<in> set (map Row (timer_list L))" by (subst timers_okD(2) [OF ok, symmetric])
  then have "t \<in> set (timer_list L)" by auto
  then show False using timers_okD(4) [OF ok] n by blast
qed

end
