(* ===== verification/Thread.thy ===== *)
theory Thread
  imports Timer
begin

text \<open>
  \<^verbatim>\<open>src/thread.c\<close> (without the functions that need the heap) and \<^verbatim>\<open>rt_hw_stack_init\<close> of
  \<^verbatim>\<open>libcpu/risc-v/lltrisc-v/cpuport.c\<close>.

  A function that gives up the processor is cut at its call of \<^verbatim>\<open>rt_schedule\<close>: the part up to
  that call keeps the name of the function, the part that runs when the thread is scheduled
  again has the suffix \<open>_wake\<close>.
\<close>

section \<open>Initial stack\<close>

text \<open>The frame has 32 words; \<open>epc\<close>, \<open>ra\<close>, \<open>mstatus\<close> and \<open>a0\<close> are words 0, 1, 2 and 10.\<close>

fun fill_frame :: "u32 \<Rightarrow> nat \<Rightarrow> nat \<Rightarrow> memory \<Rightarrow> memory" where
  "fill_frame frame i 0 m = m"
| "fill_frame frame i (Suc n) m =
     fill_frame frame (Suc i) n (store32 (frame + 4 * of_nat i) 0xdeadbeef m)"

definition rt_hw_stack_init :: "u32 \<Rightarrow> u32 \<Rightarrow> u32 \<Rightarrow> u32 \<Rightarrow> memory \<Rightarrow> u32 \<times> memory" where
  "rt_hw_stack_init tentry param addr texit m = (let
     stk = addr + 4;
     stk = RT_ALIGN_DOWN stk 4;
     stk = stk - 128;
     m = fill_frame stk 0 32 m;
     m = store32 (stk + 4) texit m;
     m = store32 (stk + 40) param m;
     m = store32 stk tentry m;
     m = store32 (stk + 8) 0x7880 m
   in (stk, m))"

section \<open>Creation and end of threads\<close>

text \<open>\<^verbatim>\<open>cleanup\<close> functions belong to the application: \<open>app_cleanup\<close> runs them.\<close>

type_synonym cleanup_fn = "nat \<Rightarrow> tid \<Rightarrow> kernel \<Rightarrow> kernel option"

definition thread_cleanup_execute :: "cleanup_fn \<Rightarrow> tid \<Rightarrow> kernel \<Rightarrow> kernel option" where
  "thread_cleanup_execute app_cleanup t k =
     (case cleanup (threads k t) of None \<Rightarrow> Some k | Some f \<Rightarrow> app_cleanup f t k)"

text \<open>\<open>texit\<close> is the address of \<^verbatim>\<open>rt_thread_exit\<close>.\<close>

definition rt_thread_init0 ::
  "u32 \<Rightarrow> tid \<Rightarrow> u32 \<Rightarrow> u32 \<Rightarrow> u32 \<Rightarrow> u32 \<Rightarrow> u8 \<Rightarrow> u32 \<Rightarrow> kernel \<Rightarrow> (err \<times> kernel) option" where
  "rt_thread_init0 texit t ent param stack_start stk_size priority tick k = do {
     let k = upd_lists (rt_list_init (Tlist t)) k;
     let k = upd_thread t (\<lambda>th. th\<lparr>entry := ent\<rparr>) k;
     let k = upd_thread t (\<lambda>th. th\<lparr>parameter := param\<rparr>) k;
     let k = upd_thread t (\<lambda>th. th\<lparr>stack_addr := stack_start\<rparr>) k;
     let k = upd_thread t (\<lambda>th. th\<lparr>stack_size := stk_size\<rparr>) k;
     let k = mem_update (rt_memset stack_start 0x23 stk_size) k;
     let (stk, m) = rt_hw_stack_init ent param (stack_start + stk_size - 4) texit (mem k);
     let k = mem_update (\<lambda>_. m) k;
     let k = upd_thread t (\<lambda>th. th\<lparr>sp := stk\<rparr>) k;
     RT_ASSERT (unat priority < RT_THREAD_PRIORITY_MAX);
     let k = upd_thread t (\<lambda>th. th\<lparr>init_priority := priority\<rparr>) k;
     let k = upd_thread t (\<lambda>th. th\<lparr>current_priority := priority\<rparr>) k;
     let k = upd_thread t (\<lambda>th. th\<lparr>number_mask := 0\<rparr>) k;
     let k = upd_thread t (\<lambda>th. th\<lparr>thread_init_tick := tick\<rparr>) k;
     let k = upd_thread t (\<lambda>th. th\<lparr>remaining_tick := tick\<rparr>) k;
     let k = upd_thread t (\<lambda>th. th\<lparr>error := RT_EOK\<rparr>) k;
     let k = upd_thread t (\<lambda>th. th\<lparr>stat := RT_THREAD_INIT\<rparr>) k;
     let k = upd_thread t (\<lambda>th. th\<lparr>cleanup := None\<rparr>) k;
     let k = upd_thread t (\<lambda>th. th\<lparr>user_data := 0\<rparr>) k;
     k \<leftarrow> rt_timer_init (Thread_timer t) (name (objects k (Obj_thread t)))
            (Rt_thread_timeout t) 0 0 k;
     Some (RT_EOK, k)
   }"

definition rt_thread_init ::
  "u32 \<Rightarrow> tid \<Rightarrow> char_ptr \<Rightarrow> u32 \<Rightarrow> u32 \<Rightarrow> u32 \<Rightarrow> u32 \<Rightarrow> u8 \<Rightarrow> u32 \<Rightarrow> kernel \<Rightarrow> (err \<times> kernel) option" where
  "rt_thread_init texit t nm ent param stack_start stk_size priority tick k = do {
     RT_ASSERT (stack_start \<noteq> 0);
     k \<leftarrow> rt_object_init (Obj_thread t) RT_Object_Class_Thread nm k;
     rt_thread_init0 texit t ent param stack_start stk_size priority tick k
   }"

definition rt_thread_self :: "kernel \<Rightarrow> tid option" where
  "rt_thread_self k = rt_current_thread k"

text \<open>\<^verbatim>\<open>1L << p\<close>: the shift instruction of the core uses the low five bits of its operand.\<close>

definition priority_mask :: "u8 \<Rightarrow> u32" where
  "priority_mask p = push_bit (unat p mod 32) 1"

section \<open>Suspension and resumption\<close>

definition rt_thread_suspend :: "tid \<Rightarrow> kernel \<Rightarrow> (err \<times> kernel) option" where
  "rt_thread_suspend t k = do {
     RT_ASSERT (rt_object_get_type (Obj_thread t) k = RT_Object_Class_Thread);
     if stat (threads k t) AND RT_THREAD_STAT_MASK \<noteq> RT_THREAD_READY then Some (- RT_ERROR, k)
     else do {
       k \<leftarrow> rt_schedule_remove_thread t k;
       let k = upd_thread t
         (\<lambda>th. th\<lparr>stat := RT_THREAD_SUSPEND OR (stat th AND NOT RT_THREAD_STAT_MASK)\<rparr>) k;
       (_, k) \<leftarrow> rt_timer_stop (Thread_timer t) k;
       Some (RT_EOK, k)
     }
   }"

definition rt_thread_resume :: "tid \<Rightarrow> kernel \<Rightarrow> (err \<times> kernel) option" where
  "rt_thread_resume t k = do {
     RT_ASSERT (rt_object_get_type (Obj_thread t) k = RT_Object_Class_Thread);
     if stat (threads k t) AND RT_THREAD_STAT_MASK \<noteq> RT_THREAD_SUSPEND then Some (- RT_ERROR, k)
     else do {
       let k = upd_lists (rt_list_remove (Tlist t)) k;
       (_, k) \<leftarrow> rt_timer_stop (Thread_timer t) k;
       k \<leftarrow> rt_schedule_insert_thread t k;
       Some (RT_EOK, k)
     }
   }"

definition rt_thread_timeout :: "tid \<Rightarrow> kernel \<Rightarrow> kernel option" where
  "rt_thread_timeout t k = do {
     RT_ASSERT (stat (threads k t) AND RT_THREAD_STAT_MASK = RT_THREAD_SUSPEND);
     RT_ASSERT (rt_object_get_type (Obj_thread t) k = RT_Object_Class_Thread);
     let k = upd_thread t (\<lambda>th. th\<lparr>error := - RT_ETIMEOUT\<rparr>) k;
     let k = upd_lists (rt_list_remove (Tlist t)) k;
     k \<leftarrow> rt_schedule_insert_thread t k;
     rt_schedule k
   }"

definition rt_thread_startup :: "tid \<Rightarrow> kernel \<Rightarrow> (err \<times> kernel) option" where
  "rt_thread_startup t k = do {
     RT_ASSERT (stat (threads k t) AND RT_THREAD_STAT_MASK = RT_THREAD_INIT);
     RT_ASSERT (rt_object_get_type (Obj_thread t) k = RT_Object_Class_Thread);
     let k = upd_thread t (\<lambda>th. th\<lparr>current_priority := init_priority th\<rparr>) k;
     let k = upd_thread t (\<lambda>th. th\<lparr>number_mask := priority_mask (current_priority th)\<rparr>) k;
     let k = upd_thread t (\<lambda>th. th\<lparr>stat := RT_THREAD_SUSPEND\<rparr>) k;
     (_, k) \<leftarrow> rt_thread_resume t k;
     k \<leftarrow> if rt_thread_self k \<noteq> None then rt_schedule k else Some k;
     Some (RT_EOK, k)
   }"

definition rt_thread_detach :: "cleanup_fn \<Rightarrow> tid \<Rightarrow> kernel \<Rightarrow> (err \<times> kernel) option" where
  "rt_thread_detach app_cleanup t k = do {
     RT_ASSERT (rt_object_get_type (Obj_thread t) k = RT_Object_Class_Thread);
     RT_ASSERT (rt_object_is_systemobject (Obj_thread t) k);
     if stat (threads k t) AND RT_THREAD_STAT_MASK = RT_THREAD_CLOSE then Some (RT_EOK, k)
     else do {
       k \<leftarrow> if stat (threads k t) AND RT_THREAD_STAT_MASK \<noteq> RT_THREAD_INIT
            then rt_schedule_remove_thread t k else Some k;
       k \<leftarrow> thread_cleanup_execute app_cleanup t k;
       (_, k) \<leftarrow> rt_timer_detach (Thread_timer t) k;
       let k = upd_thread t (\<lambda>th. th\<lparr>stat := RT_THREAD_CLOSE\<rparr>) k;
       if rt_object_is_systemobject (Obj_thread t) k
       then Some (RT_EOK, rt_object_detach (Obj_thread t) k)
       else Some (RT_EOK, upd_lists (rt_list_insert_after Defunct_head (Tlist t)) k)
     }
   }"

definition rt_thread_exit :: "cleanup_fn \<Rightarrow> kernel \<Rightarrow> kernel option" where
  "rt_thread_exit app_cleanup k = do {
     t \<leftarrow> rt_current_thread k;
     k \<leftarrow> thread_cleanup_execute app_cleanup t k;
     k \<leftarrow> rt_schedule_remove_thread t k;
     let k = upd_thread t (\<lambda>th. th\<lparr>stat := RT_THREAD_CLOSE\<rparr>) k;
     (_, k) \<leftarrow> rt_timer_detach (Thread_timer t) k;
     let k = (if rt_object_is_systemobject (Obj_thread t) k
       then rt_object_detach (Obj_thread t) k
       else upd_lists (rt_list_insert_after Defunct_head (Tlist t)) k);
     rt_schedule k
   }"

section \<open>Giving up the processor\<close>

definition rt_thread_yield :: "kernel \<Rightarrow> (err \<times> kernel) option" where
  "rt_thread_yield k = do {
     t \<leftarrow> rt_current_thread k;
     if stat (threads k t) AND RT_THREAD_STAT_MASK = RT_THREAD_READY \<and>
        nxt (lists k) (Tlist t) \<noteq> prv (lists k) (Tlist t)
     then do {
       let k = upd_lists (rt_list_remove (Tlist t)) k;
       hd \<leftarrow> rt_thread_priority_table (unat (current_priority (threads k t)));
       let k = upd_lists (rt_list_insert_before hd (Tlist t)) k;
       k \<leftarrow> rt_schedule k;
       Some (RT_EOK, k)
     }
     else Some (RT_EOK, k)
   }"

definition rt_thread_sleep :: "u32 \<Rightarrow> kernel \<Rightarrow> kernel option" where
  "rt_thread_sleep tick k = do {
     t \<leftarrow> rt_current_thread k;
     RT_ASSERT (rt_object_get_type (Obj_thread t) k = RT_Object_Class_Thread);
     (_, k) \<leftarrow> rt_thread_suspend t k;
     (_, _, k) \<leftarrow> rt_timer_control (Thread_timer t) RT_TIMER_CTRL_SET_TIME tick k;
     (_, k) \<leftarrow> rt_timer_start (Thread_timer t) k;
     rt_schedule k
   }"

definition rt_thread_sleep_wake :: "tid \<Rightarrow> kernel \<Rightarrow> err \<times> kernel" where
  "rt_thread_sleep_wake t k =
     (RT_EOK, if error (threads k t) = - RT_ETIMEOUT
        then upd_thread t (\<lambda>th. th\<lparr>error := RT_EOK\<rparr>) k else k)"

definition rt_thread_delay :: "u32 \<Rightarrow> kernel \<Rightarrow> kernel option" where
  "rt_thread_delay tick k = rt_thread_sleep tick k"

text \<open>\<open>tick\<close> is the tick the argument points to.  The result is \<open>(False, tick, k)\<close> when the call
  returns at once, and \<open>(True, tick, k)\<close> when the thread has been suspended.\<close>

definition rt_thread_delay_until :: "u32 \<Rightarrow> u32 \<Rightarrow> kernel \<Rightarrow> (bool \<times> u32 \<times> kernel) option" where
  "rt_thread_delay_until tick inc_tick k = do {
     t \<leftarrow> rt_thread_self k;
     RT_ASSERT (rt_object_get_type (Obj_thread t) k = RT_Object_Class_Thread);
     if rt_tick k - tick < inc_tick then do {
       let tick = tick + inc_tick - rt_tick k;
       (_, k) \<leftarrow> rt_thread_suspend t k;
       (_, tick, k) \<leftarrow> rt_timer_control (Thread_timer t) RT_TIMER_CTRL_SET_TIME tick k;
       (_, k) \<leftarrow> rt_timer_start (Thread_timer t) k;
       k \<leftarrow> rt_schedule k;
       Some (True, tick, k)
     }
     else Some (False, rt_tick k, k)
   }"

definition rt_thread_delay_until_wake :: "tid \<Rightarrow> kernel \<Rightarrow> err \<times> u32 \<times> kernel" where
  "rt_thread_delay_until_wake t k = (let
     k = (if error (threads k t) = - RT_ETIMEOUT
          then upd_thread t (\<lambda>th. th\<lparr>error := RT_EOK\<rparr>) k else k)
   in (RT_EOK, rt_tick k, k))"

section \<open>Priorities\<close>

text \<open>The case \<^verbatim>\<open>RT_THREAD_CTRL_CHANGE_PRIORITY\<close> of \<^verbatim>\<open>rt_thread_control\<close>.\<close>

definition change_priority :: "tid \<Rightarrow> u8 \<Rightarrow> kernel \<Rightarrow> kernel option" where
  "change_priority t p k =
     (if stat (threads k t) AND RT_THREAD_STAT_MASK = RT_THREAD_READY then do {
        k \<leftarrow> rt_schedule_remove_thread t k;
        let k = upd_thread t (\<lambda>th. th\<lparr>current_priority := p\<rparr>) k;
        let k = upd_thread t (\<lambda>th. th\<lparr>number_mask := priority_mask (current_priority th)\<rparr>) k;
        rt_schedule_insert_thread t k
      } else do {
        let k = upd_thread t (\<lambda>th. th\<lparr>current_priority := p\<rparr>) k;
        Some (upd_thread t (\<lambda>th. th\<lparr>number_mask := priority_mask (current_priority th)\<rparr>) k)
      })"

definition rt_thread_find :: "char_ptr \<Rightarrow> kernel \<Rightarrow> (obj_ptr option \<times> kernel) option" where
  "rt_thread_find nm k = rt_object_find (Some nm) RT_Object_Class_Thread k"

section \<open>The invariant of threads, ready queue and timers\<close>

fun wait_head :: "node \<Rightarrow> bool" where
  "wait_head (Suspend_head _) = True"
| "wait_head (Sender_head _) = True"
| "wait_head _ = False"

lemma wait_head_is_head: "wait_head x \<Longrightarrow> is_head x"
  by (cases x) simp_all

text \<open>The timer built into a thread, as \<^verbatim>\<open>rt_thread_init\<close> sets it up.\<close>

definition timer_live :: "kernel \<Rightarrow> tid \<Rightarrow> bool" where
  "timer_live k t \<longleftrightarrow> live k (Obj_timer (Thread_timer t)) \<and> one_shot k (Thread_timer t) \<and>
     timeout_func (timers k (Thread_timer t)) = Rt_thread_timeout t"

text \<open>Threads that can run are live objects, a running thread timer belongs to a suspended
  thread, and only suspended threads wait for a resource.\<close>

definition threads_ok :: "(node \<Rightarrow> node list) \<Rightarrow> kernel \<Rightarrow> bool" where
  "threads_ok L k \<longleftrightarrow>
     (\<forall>t. thread_state k t \<in> {RT_THREAD_READY, RT_THREAD_SUSPEND} \<longrightarrow>
        live k (Obj_thread t) \<and> timer_live k t) \<and>
     (\<forall>t. active k (Thread_timer t) \<longrightarrow> thread_state k t = RT_THREAD_SUSPEND) \<and>
     (\<forall>x n. wait_head x \<longrightarrow> n \<in> set (L x) \<longrightarrow>
        (\<exists>t. n = Tlist t \<and> thread_state k t = RT_THREAD_SUSPEND))"

definition kernel_ok :: "(node \<Rightarrow> node list) \<Rightarrow> kernel \<Rightarrow> bool" where
  "kernel_ok L k \<longleftrightarrow> queue_ok {} L k \<and> timers_ok {} L k \<and> threads_ok L k"

lemma threads_okI:
  assumes "\<And>t. thread_state k t = RT_THREAD_READY \<or> thread_state k t = RT_THREAD_SUSPEND \<Longrightarrow>
      live k (Obj_thread t) \<and> timer_live k t"
    and "\<And>t. active k (Thread_timer t) \<Longrightarrow> thread_state k t = RT_THREAD_SUSPEND"
    and "\<And>x n. wait_head x \<Longrightarrow> n \<in> set (L x) \<Longrightarrow>
      \<exists>t. n = Tlist t \<and> thread_state k t = RT_THREAD_SUSPEND"
  shows "threads_ok L k"
  using assms unfolding threads_ok_def by blast

lemma kernel_okD:
  assumes "kernel_ok L k"
  shows "queue_ok {} L k" "timers_ok {} L k" "threads_ok L k" "rings is_head (lists k) L"
  using assms by (auto simp: kernel_ok_def intro: queue_ok_rings)

lemma kernel_ok_live:
  assumes "kernel_ok L k" "thread_state k t \<in> {RT_THREAD_READY, RT_THREAD_SUSPEND}"
  shows "live k (Obj_thread t)" "timer_live k t" "live k (Obj_timer (Thread_timer t))" "prio_ok k t"
  using assms queue_ok_prio unfolding kernel_ok_def threads_ok_def timer_live_def by blast+

lemma kernel_ok_active:
  assumes "kernel_ok L k" "active k (Thread_timer t)"
  shows "thread_state k t = RT_THREAD_SUSPEND"
  using assms by (auto simp: kernel_ok_def threads_ok_def)

lemma kernel_ok_waiting:
  assumes "kernel_ok L k" "wait_head x" "n \<in> set (L x)"
  shows "\<exists>t. n = Tlist t \<and> thread_state k t = RT_THREAD_SUSPEND"
  using assms unfolding kernel_ok_def threads_ok_def by blast

text \<open>The waiting threads of a head, in order.\<close>

definition waiting :: "(node \<Rightarrow> node list) \<Rightarrow> node \<Rightarrow> tid list" where
  "waiting L x = List.map_filter thread_entry (L x)"

lemma waiting_map:
  assumes "kernel_ok L k" "wait_head x"
  shows "L x = map Tlist (waiting L x)"
proof -
  have "set ns \<subseteq> set (L x) \<Longrightarrow> ns = map Tlist (List.map_filter thread_entry ns)" for ns
  proof (induction ns)
    case (Cons n ns)
    then obtain t where "n = Tlist t" using kernel_ok_waiting [OF assms, of n] by auto
    then show ?case using Cons by (simp add: map_filter_simps)
  qed (simp add: map_filter_simps)
  then show ?thesis by (simp add: waiting_def)
qed

subsection \<open>Frame rules\<close>

lemma timers_ok_frame:
  assumes ok: "timers_ok P L k" and r: "rings is_head (lists k') L'"
    and h: "L' Timer_head = L Timer_head"
    and row: "\<And>x t. is_head x \<Longrightarrow> Row t \<in> set (L' x) \<Longrightarrow> Row t \<in> set (L x)"
    and same: "\<And>t. timeout_tick (timers k' t) = timeout_tick (timers k t)" "rt_tick k' = rt_tick k"
      "\<And>t. timer_flag k' t = timer_flag k t" "\<And>t. live k' (Obj_timer t) = live k (Obj_timer t)"
  shows "timers_ok P L' k'"
proof -
  have l: "timer_list L' = timer_list L" by (simp add: timer_list_def h)
  have m: "remaining k' = remaining k" by (simp add: fun_eq_iff remaining_def same)
  have a: "active k' = active k" by (simp add: fun_eq_iff active_def same)
  show ?thesis
    using ok r row unfolding timers_ok_def l m a h by (auto simp: same(4))
qed

lemma threads_ok_frame:
  assumes ok: "threads_ok L k"
    and w: "\<And>x. wait_head x \<Longrightarrow> set (L' x) \<subseteq> set (L x)"
    and same: "\<And>t. stat (threads k' t) = stat (threads k t)"
      "\<And>t. active k' (Thread_timer t) \<Longrightarrow> active k (Thread_timer t)"
      "\<And>t. timer_live k' t = timer_live k t"
      "\<And>t. live k' (Obj_thread t) = live k (Obj_thread t)"
  shows "threads_ok L' k'"
proof -
  have s: "thread_state k' = thread_state k" by (simp add: fun_eq_iff thread_state_def same(1))
  show ?thesis
    using ok w same(2) unfolding threads_ok_def s same(3,4) by blast
qed

text \<open>Changes of other data: the invariant depends on these parts of the state only.\<close>

lemma kernel_ok_cong:
  assumes "lists k' = lists k" "objects k' = objects k" "timers k' = timers k" "rt_tick k' = rt_tick k"
    "rt_thread_ready_priority_group k' = rt_thread_ready_priority_group k"
    "\<And>t. stat (threads k' t) = stat (threads k t)"
    "\<And>t. current_priority (threads k' t) = current_priority (threads k t)"
    "\<And>t. number_mask (threads k' t) = number_mask (threads k t)"
  shows "kernel_ok L k' = kernel_ok L k"
proof -
  have s: "thread_state k' = thread_state k" by (simp add: fun_eq_iff thread_state_def assms)
  have p: "prio_ok k' = prio_ok k" by (simp add: fun_eq_iff prio_ok_def assms)
  have l: "live k' = live k" by (simp add: fun_eq_iff live_def rt_object_get_type_def assms)
  have o: "one_shot k' = one_shot k" by (simp add: fun_eq_iff one_shot_def timer_flag_def assms)
  have tl: "timer_live k' = timer_live k" by (simp add: fun_eq_iff timer_live_def l o assms)
  have m: "remaining k' = remaining k" by (simp add: fun_eq_iff remaining_def assms)
  have a: "active k' = active k" by (simp add: fun_eq_iff active_def timer_flag_def assms)
  show ?thesis
    unfolding kernel_ok_def queue_ok_def timers_ok_def threads_ok_def s p l m a tl
    by (simp add: assms)
qed

lemma kernel_ok_switch [simp]: "kernel_ok L (switch_to p t k) = kernel_ok L k"
  by (rule kernel_ok_cong) simp_all

subsection \<open>Suspending\<close>

abbreviation without :: "node \<Rightarrow> (node \<Rightarrow> node list) \<Rightarrow> node \<Rightarrow> node list" where
  "without n L \<equiv> \<lambda>x. removeAll n (L x)"

abbreviation append_to :: "node \<Rightarrow> node \<Rightarrow> (node \<Rightarrow> node list) \<Rightarrow> node \<Rightarrow> node list" where
  "append_to x n L \<equiv> L(x := L x @ [n])"

definition suspend_thread :: "tid \<Rightarrow> kernel \<Rightarrow> kernel" where
  "suspend_thread t k = upd_thread t
     (\<lambda>th. th\<lparr>stat := RT_THREAD_SUSPEND OR (stat th AND NOT RT_THREAD_STAT_MASK)\<rparr>) (remove_ready t k)"

lemma remove_ready_frame [simp, frame]:
  "timers (remove_ready t k) = timers k" "objects (remove_ready t k) = objects k"
  "sems (remove_ready t k) = sems k" "mutexes (remove_ready t k) = mutexes k"
  "events (remove_ready t k) = events k" "mailboxes (remove_ready t k) = mailboxes k"
  "mqs (remove_ready t k) = mqs k" "mempools (remove_ready t k) = mempools k"
  "mem (remove_ready t k) = mem k" "rt_tick (remove_ready t k) = rt_tick k"
  "rt_current_thread (remove_ready t k) = rt_current_thread k"
  "rt_scheduler_lock_nest (remove_ready t k) = rt_scheduler_lock_nest k"
  "rt_interrupt_nest (remove_ready t k) = rt_interrupt_nest k"
  "lists (remove_ready t k) = rt_list_remove (Tlist t) (lists k)"
  by (simp_all add: remove_ready_def)

lemma suspend_thread_frame [simp, frame]:
  "timers (suspend_thread t k) = timers k" "objects (suspend_thread t k) = objects k"
  "sems (suspend_thread t k) = sems k" "mutexes (suspend_thread t k) = mutexes k"
  "events (suspend_thread t k) = events k" "mailboxes (suspend_thread t k) = mailboxes k"
  "mqs (suspend_thread t k) = mqs k" "mempools (suspend_thread t k) = mempools k"
  "mem (suspend_thread t k) = mem k" "rt_tick (suspend_thread t k) = rt_tick k"
  "rt_current_thread (suspend_thread t k) = rt_current_thread k"
  "rt_scheduler_lock_nest (suspend_thread t k) = rt_scheduler_lock_nest k"
  "rt_interrupt_nest (suspend_thread t k) = rt_interrupt_nest k"
  "lists (suspend_thread t k) = rt_list_remove (Tlist t) (lists k)"
  "current_priority (threads (suspend_thread t k) u) = current_priority (threads k u)"
  "number_mask (threads (suspend_thread t k) u) = number_mask (threads k u)"
  "error (threads (suspend_thread t k) u) = error (threads k u)"
  "event_set (threads (suspend_thread t k) u) = event_set (threads k u)"
  "event_info (threads (suspend_thread t k) u) = event_info (threads k u)"
  by (simp_all add: suspend_thread_def)

lemma state_of_suspend [simp]:
  "thread_state (suspend_thread t k) u = (if u = t then RT_THREAD_SUSPEND else thread_state k u)"
proof -
  have "(RT_THREAD_SUSPEND OR (x AND NOT RT_THREAD_STAT_MASK)) AND RT_THREAD_STAT_MASK
      = RT_THREAD_SUSPEND" for x :: u8
    by (rule and_or_cancel) simp
  then show ?thesis by (simp add: thread_state_def suspend_thread_def)
qed

lemma object_facts_cong:
  "objects k' = objects k \<Longrightarrow> live k' = live k" "objects k' = objects k \<Longrightarrow> active k' = active k"
  "objects k' = objects k \<Longrightarrow> timer_flag k' = timer_flag k"
  "objects k' = objects k \<Longrightarrow> one_shot k' = one_shot k"
  "objects k' = objects k \<Longrightarrow> timers k' = timers k \<Longrightarrow> timer_live k' = timer_live k"
  by (simp_all add: fun_eq_iff live_def rt_object_get_type_def active_def timer_flag_def
      one_shot_def timer_live_def)

lemma suspend_thread_object_facts [simp]:
  "live (suspend_thread t k) = live k" "active (suspend_thread t k) = active k"
  "timer_flag (suspend_thread t k) = timer_flag k" "one_shot (suspend_thread t k) = one_shot k"
  "timer_live (suspend_thread t k) = timer_live k"
  by (rule object_facts_cong, simp, simp?)+

lemma rt_thread_suspend_closed [kernel_simps]:
  assumes ok: "kernel_ok L k" and t: "thread_state k t = RT_THREAD_READY"
  shows "rt_thread_suspend t k = Some (RT_EOK, suspend_thread t k)"
proof -
  note l = kernel_ok_live(1,3,4) [OF ok, of t, unfolded t, simplified]
  have "\<not> active k (Thread_timer t)" using kernel_ok_active [OF ok, of t] t by auto
  then have "rt_timer_stop (Thread_timer t) (suspend_thread t k) =
      Some (- RT_ERROR, suspend_thread t k)"
    using l(2) by (simp add: rt_timer_stop_closed)
  moreover have "rt_schedule_remove_thread t k = Some (remove_ready t k)"
    using l(3) by (intro remove_thread_closed) (simp add: prio_ok_def)
  moreover have "upd_thread t (\<lambda>th. th\<lparr>stat := RT_THREAD_SUSPEND OR
      (stat th AND NOT RT_THREAD_STAT_MASK)\<rparr>) (remove_ready t k) = suspend_thread t k"
    by (simp only: suspend_thread_def)
  moreover have "rt_object_get_type (Obj_thread t) k = RT_Object_Class_Thread"
    using l(1) by (simp add: live_def)
  moreover have "stat (threads k t) AND RT_THREAD_STAT_MASK = RT_THREAD_READY"
    using t by (simp only: thread_state_def)
  ultimately show ?thesis
    by (simp only: rt_thread_suspend_def RT_ASSERT_bind bind.bind_lunit Let_def if_True if_False
        simp_thms case_prod_conv)
qed

lemma rt_thread_suspend_error:
  assumes "live k (Obj_thread t)" "thread_state k t \<noteq> RT_THREAD_READY"
  shows "rt_thread_suspend t k = Some (- RT_ERROR, k)"
  using assms by (simp add: rt_thread_suspend_def live_def thread_state_def)

lemma kernel_ok_suspend:
  assumes ok: "kernel_ok L k" and t: "thread_state k t = RT_THREAD_READY"
  shows "kernel_ok (without (Tlist t) L) (suspend_thread t k)"
  unfolding kernel_ok_def
proof (intro conjI)
  note o = kernel_okD [OF ok]
  have p: "prio_ok k t" using kernel_ok_live(4) [OF ok, of t] t by simp
  have r: "rings is_head (lists (suspend_thread t k)) (without (Tlist t) L)"
    using rings_remove [OF o(4), of "Tlist t"] by simp
  have q: "queue_ok {t} (without (Tlist t) L) (remove_ready t k)"
    using queue_ok_remove [OF o(1) p] by simp
  show "queue_ok {} (without (Tlist t) L) (suspend_thread t k)"
    unfolding queue_ok_def
  proof (intro conjI allI impI)
    show "\<exists>u. n = Tlist u \<and> thread_state (suspend_thread t k) u = RT_THREAD_READY \<and>
        prio (suspend_thread t k) u = i" if "n \<in> set (without (Tlist t) L (Ready_head i))" for i n
      using queue_ok_member [OF q that] that by auto
    show "Tlist u \<in> set (without (Tlist t) L (Ready_head (prio (suspend_thread t k) u)))"
      if "thread_state (suspend_thread t k) u = RT_THREAD_READY" for u
      using queue_ok_ready [OF q, of u] that by (auto split: if_splits)
    show "prio_ok (suspend_thread t k) u"
      if "thread_state (suspend_thread t k) u \<in> {RT_THREAD_READY, RT_THREAD_SUSPEND}" for u
    proof -
      have "prio_ok k u" using queue_ok_prio [OF q, of u] that p by (cases "u = t") auto
      then show ?thesis by (simp add: prio_ok_def)
    qed
    show "bit (rt_thread_ready_priority_group (suspend_thread t k)) i \<longleftrightarrow>
        i < RT_THREAD_PRIORITY_MAX \<and> without (Tlist t) L (Ready_head i) \<noteq> []" for i
      using queue_ok_group [OF q, of i] by (simp add: suspend_thread_def)
  qed (rule r)
  show "timers_ok {} (without (Tlist t) L) (suspend_thread t k)"
    using timers_okD(2) [OF o(2)] r
    by (intro timers_ok_frame [OF o(2)]) (auto intro!: removeAll_id)
  show "threads_ok (without (Tlist t) L) (suspend_thread t k)"
  proof (rule threads_okI)
    show "live (suspend_thread t k) (Obj_thread u) \<and> timer_live (suspend_thread t k) u"
      if "thread_state (suspend_thread t k) u = RT_THREAD_READY \<or>
          thread_state (suspend_thread t k) u = RT_THREAD_SUSPEND" for u
      using kernel_ok_live [OF ok, of u] that t by (cases "u = t") auto
    show "thread_state (suspend_thread t k) u = RT_THREAD_SUSPEND"
      if "active (suspend_thread t k) (Thread_timer u)" for u
      using kernel_ok_active [OF ok, of u] that by simp
    show "\<exists>u. n = Tlist u \<and> thread_state (suspend_thread t k) u = RT_THREAD_SUSPEND"
      if w: "wait_head x" and n: "n \<in> set (without (Tlist t) L x)" for x n
    proof -
      obtain u where "n = Tlist u" "thread_state k u = RT_THREAD_SUSPEND"
        using kernel_ok_waiting [OF ok w, of n] n by auto
      then show ?thesis by (intro exI [of _ u]) simp
    qed
  qed
qed

subsection \<open>Waiting and timing out\<close>

text \<open>A suspended thread that is on no list joins the waiting threads of a resource.\<close>

lemma on_list_without [simp]: "on_list P (without m L) n \<longleftrightarrow> n \<noteq> m \<and> on_list P L n"
  by (auto simp: on_list_def)

lemma kernel_ok_wait:
  assumes ok: "kernel_ok L k" and x: "wait_head x" "L x = as @ bs"
    and t: "thread_state k t = RT_THREAD_SUSPEND" "\<not> on_list is_head L (Tlist t)"
  shows "kernel_ok (L(x := as @ Tlist t # bs))
    (upd_lists (rt_list_insert_before (hd (bs @ [x])) (Tlist t)) k)" (is "kernel_ok ?L ?k")
  unfolding kernel_ok_def
proof (intro conjI)
  note o = kernel_okD [OF ok]
  have r: "rings is_head (lists ?k) ?L"
    using rings_insert_at [OF o(4) wait_head_is_head [OF x(1)] x(2) _ t(2)] by simp
  have other: "x \<noteq> Ready_head i" "x \<noteq> Timer_head" for i using x(1) by auto
  show "queue_ok {} ?L ?k"
    using other by (intro queue_ok_frame [OF o(1) r]) auto
  show "timers_ok {} ?L ?k"
    using other x by (intro timers_ok_frame [OF o(2) r])
      (auto simp: timer_flag_def live_def rt_object_get_type_def split: if_splits)
  have same: "thread_state ?k = thread_state k" "live ?k = live k" "active ?k = active k"
    "timer_live ?k = timer_live k"
    by (auto simp: thread_state_def fun_eq_iff intro!: object_facts_cong [THEN fun_cong])
  show "threads_ok ?L ?k"
  proof (rule threads_okI)
    show "\<exists>u. n = Tlist u \<and> thread_state ?k u = RT_THREAD_SUSPEND"
      if w: "wait_head y" and n: "n \<in> set (?L y)" for y n
    proof (cases "n = Tlist t")
      case False
      then have "n \<in> set (L y)" using n x(2) by (auto split: if_splits)
      then show ?thesis using kernel_ok_waiting [OF ok w] by (simp add: same)
    qed (use t(1) same in auto)
  qed (use kernel_ok_live [OF ok] kernel_ok_active [OF ok] in \<open>auto simp: same\<close>)
qed

lemma kernel_ok_start_timer:
  assumes ok: "kernel_ok L k" and t: "thread_state k t = RT_THREAD_SUSPEND"
    and i: "init_tick (timers k (Thread_timer t)) < HALF_TICK_MAX"
  shows "kernel_ok (start_ring k (Thread_timer t) L)
    (begin_timer (Thread_timer t) (start_pos k (Thread_timer t) L) k)" (is "kernel_ok ?L ?k")
  unfolding kernel_ok_def
proof (intro conjI)
  note o = kernel_okD [OF ok]
  have l: "live k (Obj_timer (Thread_timer t))" using kernel_ok_live(3) [OF ok, of t] t by simp
  show t_ok: "timers_ok {} ?L ?k" using timers_ok_start [OF o(2) l i] by simp
  have r: "rings is_head (lists ?k) ?L" by (rule timers_okD(1) [OF t_ok])
  have ring: "?L x = L x" if "is_head x" "x \<noteq> Timer_head" for x
  proof -
    have "Row (Thread_timer t) \<notin> set (L x)"
      using timers_okD(6) [OF o(2) that(1), of "Thread_timer t"] that(2) by auto
    then show ?thesis using that(2) by (simp add: start_ring_def Let_def removeAll_id)
  qed
  show "queue_ok {} ?L ?k" using ring by (intro queue_ok_frame [OF o(1) r]) simp_all
  have same: "thread_state ?k = thread_state k" by (simp add: thread_state_def fun_eq_iff)
  have tl: "timer_live ?k = timer_live k" by (simp add: timer_live_def fun_eq_iff)
  show "threads_ok ?L ?k"
  proof (rule threads_okI)
    show "\<exists>u. n = Tlist u \<and> thread_state ?k u = RT_THREAD_SUSPEND"
      if w: "wait_head y" and n: "n \<in> set (?L y)" for y n
    proof -
      have "y \<noteq> Timer_head" using w by auto
      then have "?L y = L y" using ring [OF wait_head_is_head [OF w]] by blast
      then show ?thesis using kernel_ok_waiting [OF ok w, of n] n by (simp add: same)
    qed
  qed (use kernel_ok_live [OF ok] kernel_ok_active [OF ok] t in \<open>auto simp: same tl\<close>)
qed

subsection \<open>Resuming\<close>

definition stop_timer :: "timer_ptr \<Rightarrow> kernel \<Rightarrow> kernel" where
  "stop_timer t k = (if active k t then take_off t k else k)"

lemma stop_timer_frame [simp, frame]:
  "threads (stop_timer t k) = threads k" "timers (stop_timer t k) = timers k"
  "rt_tick (stop_timer t k) = rt_tick k" "sems (stop_timer t k) = sems k"
  "mutexes (stop_timer t k) = mutexes k" "events (stop_timer t k) = events k"
  "mailboxes (stop_timer t k) = mailboxes k" "mqs (stop_timer t k) = mqs k"
  "mempools (stop_timer t k) = mempools k" "mem (stop_timer t k) = mem k"
  "rt_current_thread (stop_timer t k) = rt_current_thread k"
  "rt_thread_ready_priority_group (stop_timer t k) = rt_thread_ready_priority_group k"
  "rt_scheduler_lock_nest (stop_timer t k) = rt_scheduler_lock_nest k"
  "rt_interrupt_nest (stop_timer t k) = rt_interrupt_nest k"
  "live (stop_timer t k) = live k" "one_shot (stop_timer t k) = one_shot k"
  "timer_live (stop_timer t k) = timer_live k" "remaining (stop_timer t k) = remaining k"
  "active (stop_timer t k) u \<longleftrightarrow> u \<noteq> t \<and> active k u"
  "thread_state (stop_timer t k) = thread_state k"
  by (auto simp: stop_timer_def fun_eq_iff timer_live_def thread_state_def)

lemma stop_timer_rings:
  assumes ok: "timers_ok {} L k"
  shows "timers_ok {} (without (Row t) L) (stop_timer t k)"
proof (cases "active k t")
  case True
  then show ?thesis using timers_ok_take_off [OF ok, of t] by (simp add: stop_timer_def)
next
  case False
  have "without (Row t) L x = L x" if "is_head x" for x
    using stop_no_row [OF ok False] that by (auto simp: on_list_def intro!: removeAll_id)
  then show ?thesis
    using False ok timers_okD(1) [OF ok]
    by (intro timers_ok_frame [OF ok]) (auto simp: stop_timer_def elim!: rings_cong)
qed

definition resume_thread :: "tid \<Rightarrow> kernel \<Rightarrow> kernel" where
  "resume_thread t k =
     insert_ready t (stop_timer (Thread_timer t) (upd_lists (rt_list_remove (Tlist t)) k))"

definition resume_ring :: "kernel \<Rightarrow> tid \<Rightarrow> (node \<Rightarrow> node list) \<Rightarrow> node \<Rightarrow> node list" where
  "resume_ring k t L = append_to (Ready_head (prio k t)) (Tlist t)
     (without (Row (Thread_timer t)) (without (Tlist t) L))"

lemma insert_ready_frame [simp, frame]:
  "timers (insert_ready t k) = timers k" "objects (insert_ready t k) = objects k"
  "sems (insert_ready t k) = sems k" "mutexes (insert_ready t k) = mutexes k"
  "events (insert_ready t k) = events k" "mailboxes (insert_ready t k) = mailboxes k"
  "mqs (insert_ready t k) = mqs k" "mempools (insert_ready t k) = mempools k"
  "mem (insert_ready t k) = mem k" "rt_tick (insert_ready t k) = rt_tick k"
  "rt_current_thread (insert_ready t k) = rt_current_thread k"
  "rt_scheduler_lock_nest (insert_ready t k) = rt_scheduler_lock_nest k"
  "rt_interrupt_nest (insert_ready t k) = rt_interrupt_nest k"
  "error (threads (insert_ready t k) u) = error (threads k u)"
  "event_set (threads (insert_ready t k) u) = event_set (threads k u)"
  "event_info (threads (insert_ready t k) u) = event_info (threads k u)"
  "current_priority (threads (insert_ready t k) u) = current_priority (threads k u)"
  "number_mask (threads (insert_ready t k) u) = number_mask (threads k u)"
  "live (insert_ready t k) = live k" "active (insert_ready t k) = active k"
  "one_shot (insert_ready t k) = one_shot k" "timer_flag (insert_ready t k) = timer_flag k"
  "timer_live (insert_ready t k) = timer_live k"
  by (simp_all add: insert_ready_def live_def fun_eq_iff rt_object_get_type_def active_def
      one_shot_def timer_flag_def timer_live_def)

lemma upd_lists_object_facts [simp]:
  "live (upd_lists f k) = live k" "active (upd_lists f k) = active k"
  "one_shot (upd_lists f k) = one_shot k" "timer_live (upd_lists f k) = timer_live k"
  "thread_state (upd_lists f k) = thread_state k" "timer_flag (upd_lists f k) = timer_flag k"
  "prio_ok (upd_lists f k) = prio_ok k" "remaining (upd_lists f k) = remaining k"
  by (simp_all add: live_def fun_eq_iff rt_object_get_type_def active_def one_shot_def timer_flag_def
      timer_live_def thread_state_def prio_ok_def remaining_def)

lemma rt_thread_resume_closed [kernel_simps]:
  assumes ok: "kernel_ok L k" and t: "thread_state k t = RT_THREAD_SUSPEND"
  shows "rt_thread_resume t k = Some (RT_EOK, resume_thread t k)"
proof -
  note l = kernel_ok_live(1,3,4) [OF ok, of t, unfolded t, simplified]
  let ?k = "upd_lists (rt_list_remove (Tlist t)) k"
  have "rt_timer_stop (Thread_timer t) ?k = Some (if active k (Thread_timer t) then RT_EOK else - RT_ERROR,
      stop_timer (Thread_timer t) ?k)"
    using l(2) by (simp add: rt_timer_stop_closed stop_timer_def)
  moreover have "rt_schedule_insert_thread t (stop_timer (Thread_timer t) ?k) = Some (resume_thread t k)"
    unfolding resume_thread_def
    using l(3) by (intro insert_thread_closed) (simp add: prio_ok_def)
  moreover have "rt_object_get_type (Obj_thread t) k = RT_Object_Class_Thread"
    using l(1) by (simp add: live_def)
  moreover have "stat (threads k t) AND RT_THREAD_STAT_MASK = RT_THREAD_SUSPEND"
    using t by (simp only: thread_state_def)
  ultimately show ?thesis
    by (simp only: rt_thread_resume_def RT_ASSERT_bind bind.bind_lunit Let_def if_True if_False
        simp_thms case_prod_conv)
qed

lemma rt_thread_resume_error:
  assumes "live k (Obj_thread t)" "thread_state k t \<noteq> RT_THREAD_SUSPEND"
  shows "rt_thread_resume t k = Some (- RT_ERROR, k)"
  using assms by (simp add: rt_thread_resume_def live_def thread_state_def)

lemma kernel_ok_resume:
  assumes ok: "kernel_ok L k" and t: "thread_state k t = RT_THREAD_SUSPEND"
  shows "kernel_ok (resume_ring k t L) (resume_thread t k)"
  unfolding kernel_ok_def
proof (intro conjI)
  note o = kernel_okD [OF ok]
  let ?k1 = "upd_lists (rt_list_remove (Tlist t)) k" and ?L1 = "without (Tlist t) L"
  let ?k2 = "stop_timer (Thread_timer t) ?k1" and ?L2 = "without (Row (Thread_timer t)) ?L1"
  have p: "prio_ok k t" using kernel_ok_live(4) [OF ok, of t] t by simp
  have r1: "rings is_head (lists ?k1) ?L1" using rings_remove [OF o(4), of "Tlist t"] by simp
  have tnot: "Tlist t \<notin> set (L (Ready_head i))" for i
    using queue_ok_member [OF o(1), of "Tlist t" i] t by auto
  have q1: "queue_ok {} ?L1 ?k1"
    using tnot by (intro queue_ok_frame [OF o(1) r1]) (auto intro!: removeAll_id)
  have t1: "timers_ok {} ?L1 ?k1"
    using timers_okD(2) [OF o(2)] r1
    by (intro timers_ok_frame [OF o(2)]) (auto intro!: removeAll_id)
  have t2: "timers_ok {} ?L2 ?k2" by (rule stop_timer_rings [OF t1])
  have r2: "rings is_head (lists ?k2) ?L2" by (rule timers_okD(1) [OF t2])
  have row: "Row u \<notin> set (L x)" if "is_head x" "x \<noteq> Timer_head" for x u
    using timers_okD(6) [OF o(2) that(1), of u] that(2) by auto
  have q2: "queue_ok {} ?L2 ?k2"
    using row by (intro queue_ok_frame [OF q1 r2]) (auto intro!: removeAll_id)
  have p2: "prio_ok ?k2 t" using p by (simp add: prio_ok_def)
  have d2: "\<not> on_list is_head ?L2 (Tlist t)" by simp
  show q3: "queue_ok {} (resume_ring k t L) (resume_thread t k)"
    using queue_ok_insert [OF q2 d2 p2] by (simp add: resume_ring_def resume_thread_def)
  show "timers_ok {} (resume_ring k t L) (resume_thread t k)"
    using queue_ok_rings [OF q3]
    by (intro timers_ok_frame [OF t2]) (auto simp: resume_ring_def resume_thread_def split: if_splits)
  show "threads_ok (resume_ring k t L) (resume_thread t k)"
  proof (rule threads_okI)
    show "live (resume_thread t k) (Obj_thread u) \<and> timer_live (resume_thread t k) u"
      if "thread_state (resume_thread t k) u = RT_THREAD_READY \<or>
          thread_state (resume_thread t k) u = RT_THREAD_SUSPEND" for u
      using kernel_ok_live [OF ok, of u] that t
      by (cases "u = t") (auto simp: resume_thread_def)
    show "thread_state (resume_thread t k) u = RT_THREAD_SUSPEND"
      if "active (resume_thread t k) (Thread_timer u)" for u
      using kernel_ok_active [OF ok, of u] that by (auto simp: resume_thread_def)
    show "\<exists>u. n = Tlist u \<and> thread_state (resume_thread t k) u = RT_THREAD_SUSPEND"
      if w: "wait_head x" and n: "n \<in> set (resume_ring k t L x)" for x n
    proof -
      have "x \<noteq> Ready_head i" for i using w by auto
      then have n': "n \<in> set (L x)" "n \<noteq> Tlist t" using n by (auto simp: resume_ring_def)
      obtain u where "n = Tlist u" "thread_state k u = RT_THREAD_SUSPEND"
        using kernel_ok_waiting [OF ok w n'(1)] by blast
      then show ?thesis using n'(2) by (intro exI [of _ u]) (auto simp: resume_thread_def)
    qed
  qed
qed

subsection \<open>Time out\<close>

definition timeout_thread :: "tid \<Rightarrow> kernel \<Rightarrow> kernel" where
  "timeout_thread t k = insert_ready t (upd_lists (rt_list_remove (Tlist t))
     (upd_thread t (\<lambda>th. th\<lparr>error := - RT_ETIMEOUT\<rparr>) k))"

definition requeue :: "kernel \<Rightarrow> tid \<Rightarrow> (node \<Rightarrow> node list) \<Rightarrow> node \<Rightarrow> node list" where
  "requeue k t L = append_to (Ready_head (prio k t)) (Tlist t) (without (Tlist t) L)"

lemma upd_error_facts [simp]:
  "thread_state (upd_thread t (\<lambda>th. th\<lparr>error := e\<rparr>) k) = thread_state k"
  "prio_ok (upd_thread t (\<lambda>th. th\<lparr>error := e\<rparr>) k) = prio_ok k"
  "prio (upd_thread t (\<lambda>th. th\<lparr>error := e\<rparr>) k) = prio k"
  "live (threads_update g k) = live k" "active (threads_update g k) = active k"
  "one_shot (threads_update g k) = one_shot k" "timer_live (threads_update g k) = timer_live k"
  "timer_flag (threads_update g k) = timer_flag k" "remaining (threads_update g k) = remaining k"
  by (auto simp: live_def fun_eq_iff rt_object_get_type_def active_def one_shot_def timer_flag_def
      timer_live_def thread_state_def prio_ok_def remaining_def)

lemma timeout_closed:
  assumes "prio_ok k t"
  shows "rt_schedule_insert_thread t (upd_lists (rt_list_remove (Tlist t))
     (upd_thread t (\<lambda>th. th\<lparr>error := e\<rparr>) k)) =
     Some (insert_ready t (upd_lists (rt_list_remove (Tlist t))
       (upd_thread t (\<lambda>th. th\<lparr>error := e\<rparr>) k)))"
  using assms by (intro insert_thread_closed) (simp add: prio_ok_def)

text \<open>The three parts of the invariant, since \<^verbatim>\<open>rt_timer_check\<close> calls the function while it
  works on the timer list.\<close>

lemma timeout_thread_ok:
  assumes q: "queue_ok {} L k" and tm: "timers_ok P L k" and th: "threads_ok L k"
    and t: "thread_state k t = RT_THREAD_SUSPEND" and na: "\<not> active k (Thread_timer t)"
  shows "queue_ok {} (requeue k t L) (timeout_thread t k)"
    "timers_ok P (requeue k t L) (timeout_thread t k)"
    "threads_ok (requeue k t L) (timeout_thread t k)"
proof -
  let ?k = "upd_lists (rt_list_remove (Tlist t)) (upd_thread t (\<lambda>th. th\<lparr>error := - RT_ETIMEOUT\<rparr>) k)"
  let ?L = "without (Tlist t) L"
  have p: "prio_ok k t" using queue_ok_prio [OF q] t by simp
  have r: "rings is_head (lists ?k) ?L"
    using rings_remove [OF queue_ok_rings [OF q], of "Tlist t"] by simp
  have tnot: "Tlist t \<notin> set (L (Ready_head i))" for i
    using queue_ok_member [OF q, of "Tlist t" i] t by auto
  have q1: "queue_ok {} ?L ?k"
    using tnot by (intro queue_ok_frame [OF q r]) (auto intro!: removeAll_id)
  have p1: "prio_ok ?k t" using p by simp
  have d1: "\<not> on_list is_head ?L (Tlist t)" by simp
  show q2: "queue_ok {} (requeue k t L) (timeout_thread t k)"
    using queue_ok_insert [OF q1 d1 p1] by (simp add: requeue_def timeout_thread_def)
  have th': "Tlist t \<notin> set (L Timer_head)" using timers_okD(2) [OF tm] by auto
  show "timers_ok P (requeue k t L) (timeout_thread t k)"
    using th' queue_ok_rings [OF q2] by (intro timers_ok_frame [OF tm])
       (auto simp: requeue_def timeout_thread_def removeAll_id split: if_splits)
  show "threads_ok (requeue k t L) (timeout_thread t k)"
  proof (rule threads_okI)
    show "\<exists>u. n = Tlist u \<and> thread_state (timeout_thread t k) u = RT_THREAD_SUSPEND"
      if w: "wait_head x" and n: "n \<in> set (requeue k t L x)" for x n
    proof -
      have "x \<noteq> Ready_head i" for i using w by auto
      then have "n \<in> set (L x)" "n \<noteq> Tlist t" using n by (auto simp: requeue_def)
      moreover from this obtain u where "n = Tlist u" "thread_state k u = RT_THREAD_SUSPEND"
        using th w unfolding threads_ok_def by blast
      ultimately show ?thesis by (intro exI [of _ u]) (auto simp: timeout_thread_def)
    qed
  next
    fix u assume "active (timeout_thread t k) (Thread_timer u)"
    then have a: "active k (Thread_timer u)" by (simp add: timeout_thread_def)
    then have "u \<noteq> t" using na by auto
    moreover have "thread_state k u = RT_THREAD_SUSPEND" using a th by (simp add: threads_ok_def)
    ultimately show "thread_state (timeout_thread t k) u = RT_THREAD_SUSPEND"
      by (simp add: timeout_thread_def)
  next
    fix u assume "thread_state (timeout_thread t k) u = RT_THREAD_READY \<or>
      thread_state (timeout_thread t k) u = RT_THREAD_SUSPEND"
    then have "thread_state k u \<in> {RT_THREAD_READY, RT_THREAD_SUSPEND}"
      using t by (cases "u = t") (auto simp: timeout_thread_def)
    then have "live k (Obj_thread u) \<and> timer_live k u" using th unfolding threads_ok_def by blast
    then show "live (timeout_thread t k) (Obj_thread u) \<and> timer_live (timeout_thread t k) u"
      by (simp add: timeout_thread_def)
  qed
qed

lemma rt_thread_timeout_closed [kernel_simps]:
  assumes q: "queue_ok {} L k" and tm: "timers_ok P L k" and th: "threads_ok L k"
    and t: "thread_state k t = RT_THREAD_SUSPEND" and na: "\<not> active k (Thread_timer t)"
    and nx: "is_next_thread (requeue k t L) p u" and c: "rt_current_thread k \<noteq> None"
  shows "rt_thread_timeout t k = Some (switch_to p u (timeout_thread t k))"
proof -
  have po: "prio_ok k t" using queue_ok_prio [OF q] t by simp
  have "rt_object_get_type (Obj_thread t) k = RT_Object_Class_Thread"
    using th t by (simp add: threads_ok_def live_def)
  moreover have "stat (threads k t) AND RT_THREAD_STAT_MASK = RT_THREAD_SUSPEND"
    using t by (simp only: thread_state_def)
  moreover have "rt_schedule (timeout_thread t k) = Some (switch_to p u (timeout_thread t k))"
    using c by (intro rt_schedule_closed [OF timeout_thread_ok(1) [OF q tm th t na] nx])
      (simp add: timeout_thread_def)
  ultimately show ?thesis
    using timeout_closed [OF po, of "- RT_ETIMEOUT"]
    by (simp add: rt_thread_timeout_def timeout_thread_def Let_def rt_object_get_type_def)
qed

section \<open>Sleeping\<close>

definition sleep_thread :: "tid \<Rightarrow> u32 \<Rightarrow> (node \<Rightarrow> node list) \<Rightarrow> kernel \<Rightarrow> kernel" where
  "sleep_thread t tick L k = (let
     k = suspend_thread t k;
     k = upd_timer (Thread_timer t) (\<lambda>tm. tm\<lparr>init_tick := tick\<rparr>) k
   in begin_timer (Thread_timer t) (start_pos k (Thread_timer t) L) k)"

lemma upd_init_tick_facts [simp]:
  "thread_state (timers_update g k) = thread_state k"
  "prio_ok (timers_update g k) = prio_ok k"
  "live (timers_update g k) = live k" "active (timers_update g k) = active k"
  "one_shot (timers_update g k) = one_shot k" "timer_flag (timers_update g k) = timer_flag k"
  "remaining (upd_timer t (\<lambda>tm. tm\<lparr>init_tick := i\<rparr>) k) = remaining k"
  "timer_live (upd_timer t (\<lambda>tm. tm\<lparr>init_tick := i\<rparr>) k) = timer_live k"
  by (auto simp: live_def fun_eq_iff rt_object_get_type_def active_def one_shot_def timer_flag_def
      timer_live_def thread_state_def prio_ok_def remaining_def)

lemma kernel_ok_init_tick [simp]:
  "kernel_ok L (upd_timer t (\<lambda>tm. tm\<lparr>init_tick := i\<rparr>) k) = kernel_ok L k"
  by (simp add: kernel_ok_def queue_ok_def timers_ok_def threads_ok_def)

text \<open>The list structure after \<open>sleep_thread\<close>.\<close>

definition sleep_ring :: "tid \<Rightarrow> u32 \<Rightarrow> (node \<Rightarrow> node list) \<Rightarrow> kernel \<Rightarrow> node \<Rightarrow> node list" where
  "sleep_ring t tick L k = start_ring
     (upd_timer (Thread_timer t) (\<lambda>tm. tm\<lparr>init_tick := tick\<rparr>) (suspend_thread t k))
     (Thread_timer t) (without (Tlist t) L)"

lemma sleep_closed [kernel_simps]:
  assumes ok: "kernel_ok L k" and t: "rt_current_thread k = Some t" "thread_state k t = RT_THREAD_READY"
    and tick: "tick < HALF_TICK_MAX"
  shows "do {
      (_, k) \<leftarrow> rt_thread_suspend t k;
      (_, _, k) \<leftarrow> rt_timer_control (Thread_timer t) RT_TIMER_CTRL_SET_TIME tick k;
      rt_timer_start (Thread_timer t) k
    } = Some (RT_EOK, sleep_thread t tick (without (Tlist t) L) k)"
    "kernel_ok (sleep_ring t tick L k) (sleep_thread t tick (without (Tlist t) L) k)"
proof -
  let ?k1 = "suspend_thread t k" and ?L = "without (Tlist t) L"
  let ?k2 = "upd_timer (Thread_timer t) (\<lambda>tm. tm\<lparr>init_tick := tick\<rparr>) ?k1"
  note l = kernel_ok_live(3) [OF ok, of t, unfolded t, simplified]
  have ok1: "kernel_ok ?L ?k1" by (rule kernel_ok_suspend [OF ok t(2)])
  then have ok2: "kernel_ok ?L ?k2" by simp
  have i: "init_tick (timers ?k2 (Thread_timer t)) < HALF_TICK_MAX" using tick by simp
  have st: "rt_timer_start (Thread_timer t) ?k2 =
      Some (RT_EOK, sleep_thread t tick ?L k)"
    using rt_timer_start_closed [OF kernel_okD(2) [OF ok2], of "Thread_timer t"] l tick
    by (simp add: sleep_thread_def start_pos_def Let_def)
  have ct: "rt_timer_control (Thread_timer t) RT_TIMER_CTRL_SET_TIME tick ?k1 = Some (RT_EOK, tick, ?k2)"
    using l by (simp add: rt_timer_control_def live_def [symmetric] rt_object_get_type_def
      live_def)
  show "do {
      (_, k) \<leftarrow> rt_thread_suspend t k;
      (_, _, k) \<leftarrow> rt_timer_control (Thread_timer t) RT_TIMER_CTRL_SET_TIME tick k;
      rt_timer_start (Thread_timer t) k
    } = Some (RT_EOK, sleep_thread t tick ?L k)"
    using st ct by (simp only: rt_thread_suspend_closed [OF ok t(2)] bind.bind_lunit case_prod_conv)
  show "kernel_ok (sleep_ring t tick L k) (sleep_thread t tick ?L k)"
    using kernel_ok_start_timer [OF ok2, of t] i by (simp add: sleep_ring_def sleep_thread_def Let_def)
qed

lemma sleep_thread_frame [simp, frame]:
  "rt_current_thread (sleep_thread t tick L k) = rt_current_thread k"
  "rt_scheduler_lock_nest (sleep_thread t tick L k) = rt_scheduler_lock_nest k"
  "rt_interrupt_nest (sleep_thread t tick L k) = rt_interrupt_nest k"
  "sems (sleep_thread t tick L k) = sems k" "mutexes (sleep_thread t tick L k) = mutexes k"
  "events (sleep_thread t tick L k) = events k" "mailboxes (sleep_thread t tick L k) = mailboxes k"
  "mqs (sleep_thread t tick L k) = mqs k" "mempools (sleep_thread t tick L k) = mempools k"
  "mem (sleep_thread t tick L k) = mem k" "rt_tick (sleep_thread t tick L k) = rt_tick k"
  "thread_state (sleep_thread t tick L k) u = (if u = t then RT_THREAD_SUSPEND else thread_state k u)"
  "active (sleep_thread t tick L k) (Thread_timer t)"
  "remaining (sleep_thread t tick L k) (Thread_timer t) = unat tick"
proof -
  have st: "thread_state (begin_timer x y k') = thread_state k'" for x y k'
    by (simp add: fun_eq_iff thread_state_def)
  show "thread_state (sleep_thread t tick L k) u = (if u = t then RT_THREAD_SUSPEND else thread_state k u)"
    by (simp add: sleep_thread_def Let_def st)
qed (simp_all add: sleep_thread_def Let_def)

lemma rt_thread_sleep_closed:
  assumes ok: "kernel_ok L k" and t: "rt_current_thread k = Some t" "thread_state k t = RT_THREAD_READY"
    and tick: "tick < HALF_TICK_MAX" and nx: "is_next_thread (sleep_ring t tick L k) p u"
  shows "rt_thread_sleep tick k = Some (switch_to p u (sleep_thread t tick (without (Tlist t) L) k))"
proof -
  let ?k = "sleep_thread t tick (without (Tlist t) L) k"
  note l = kernel_ok_live(1,3) [OF ok, of t, unfolded t, simplified]
  note sl = sleep_closed [OF ok t tick]
  have s: "rt_schedule ?k = Some (switch_to p u ?k)"
    using t by (intro rt_schedule_closed [OF kernel_okD(1) [OF sl(2)] nx]) simp
  have assoc: "do {
      (_, k) \<leftarrow> rt_thread_suspend t k;
      (_, _, k) \<leftarrow> rt_timer_control (Thread_timer t) RT_TIMER_CTRL_SET_TIME tick k;
      (_, k) \<leftarrow> rt_timer_start (Thread_timer t) k;
      rt_schedule k
    } = do {
      (_, k) \<leftarrow> do {
        (_, k) \<leftarrow> rt_thread_suspend t k;
        (_, _, k) \<leftarrow> rt_timer_control (Thread_timer t) RT_TIMER_CTRL_SET_TIME tick k;
        rt_timer_start (Thread_timer t) k };
      rt_schedule k
    }"
    by (auto split: bind_splits prod.splits)
  show ?thesis
    using l(1) unfolding rt_thread_sleep_def t bind.bind_lunit assoc sl(1)
    by (simp add: s live_def)
qed

section \<open>Yielding and changing priority\<close>

lemma queue_ok_upd:
  assumes q: "queue_ok X L k" and notin: "\<And>i. Tlist t \<notin> set (L (Ready_head i))"
    and k': "lists k' = lists k" "rt_thread_ready_priority_group k' = rt_thread_ready_priority_group k"
      "\<And>u. u \<noteq> t \<Longrightarrow> threads k' u = threads k u"
    and t: "thread_state k' t \<in> {RT_THREAD_READY, RT_THREAD_SUSPEND} \<Longrightarrow> prio_ok k' t"
    and X: "thread_state k' t = RT_THREAD_READY \<Longrightarrow> t \<in> X"
  shows "queue_ok X L k'"
  unfolding queue_ok_def
proof (intro conjI allI impI)
  have s: "thread_state k' u = thread_state k u" if "u \<noteq> t" for u
    using k'(3) [OF that] by (simp add: thread_state_def)
  show "rings is_head (lists k') L" using queue_ok_rings [OF q] k'(1) by simp
  show "\<exists>u. n = Tlist u \<and> thread_state k' u = RT_THREAD_READY \<and> prio k' u = i"
    if n: "n \<in> set (L (Ready_head i))" for i n
  proof -
    obtain u where u: "n = Tlist u" "thread_state k u = RT_THREAD_READY" "prio k u = i"
      using queue_ok_member [OF q n] by blast
    then have "u \<noteq> t" using notin n by auto
    then show ?thesis using u s k'(3) by auto
  qed
  show "Tlist u \<in> set (L (Ready_head (prio k' u)))"
    if "u \<notin> X" "thread_state k' u = RT_THREAD_READY" for u
  proof -
    have "u \<noteq> t" using X that by auto
    then show ?thesis using queue_ok_ready [OF q that(1)] that(2) s k'(3) by simp
  qed
  show "prio_ok k' u" if "thread_state k' u \<in> {RT_THREAD_READY, RT_THREAD_SUSPEND}" for u
  proof (cases "u = t")
    case False
    then have "prio_ok k u" using queue_ok_prio [OF q, of u] that s by simp
    then show ?thesis using k'(3) [OF False] by (simp add: prio_ok_def)
  qed (use t that in auto)
  show "bit (rt_thread_ready_priority_group k') i \<longleftrightarrow>
      i < RT_THREAD_PRIORITY_MAX \<and> L (Ready_head i) \<noteq> []" for i
    using queue_ok_group [OF q, of i] k'(2) by simp
qed

text \<open>Yielding: the thread goes behind the others of its priority.\<close>

definition yield_thread :: "tid \<Rightarrow> kernel \<Rightarrow> kernel" where
  "yield_thread t k = upd_lists (\<lambda>h. rt_list_insert_before (Ready_head (prio k t)) (Tlist t)
     (rt_list_remove (Tlist t) h)) k"

lemma kernel_ok_yield:
  assumes ok: "kernel_ok L k" and t: "thread_state k t = RT_THREAD_READY"
  shows "kernel_ok (requeue k t L) (yield_thread t k)" (is "kernel_ok ?L ?k")
  unfolding kernel_ok_def
proof (intro conjI)
  note o = kernel_okD [OF ok]
  have p: "prio_ok k t" using kernel_ok_live(4) [OF ok, of t] t by simp
  have r1: "rings is_head (rt_list_remove (Tlist t) (lists k)) (without (Tlist t) L)"
    using rings_remove [OF o(4), of "Tlist t"] by simp
  have r: "rings is_head (lists ?k) ?L"
    using rings_insert_before [OF r1, of "Ready_head (prio k t)" "Tlist t"]
    by (simp add: requeue_def yield_thread_def)
  have mem: "n \<in> set (?L (Ready_head i)) \<longleftrightarrow> n \<in> set (L (Ready_head i))" for n i
  proof (cases "n = Tlist t")
    case True
    have "Tlist t \<in> set (L (Ready_head (prio k t)))" using queue_ok_ready [OF o(1), of t] t by simp
    moreover have "i = prio k t" if "Tlist t \<in> set (L (Ready_head i))"
      using queue_ok_member [OF o(1) that] by auto
    ultimately show ?thesis using True by (cases "i = prio k t") (simp_all add: requeue_def, blast)
  qed (simp add: requeue_def)
  have same: "thread_state ?k = thread_state k" "prio_ok ?k = prio_ok k" "threads ?k = threads k"
    "rt_thread_ready_priority_group ?k = rt_thread_ready_priority_group k"
    by (simp_all add: yield_thread_def)
  have ne: "?L (Ready_head i) = [] \<longleftrightarrow> L (Ready_head i) = []" for i
  proof -
    have "set (?L (Ready_head i)) = set (L (Ready_head i))" using mem [of _ i] by blast
    then show ?thesis by (metis set_empty)
  qed
  show "queue_ok {} ?L ?k"
    using o(1) unfolding queue_ok_def same ne mem by (simp add: r)
  show "timers_ok {} ?L ?k"
    using timers_okD(2) [OF o(2)] r
    by (intro timers_ok_frame [OF o(2)])
       (auto simp: requeue_def yield_thread_def split: if_splits intro!: removeAll_id)
  show "threads_ok ?L ?k"
  proof (rule threads_ok_frame [OF o(3)])
    show "set (?L x) \<subseteq> set (L x)" if "wait_head x" for x
    proof -
      have "x \<noteq> Ready_head (prio k t)" using that by auto
      then show ?thesis by (auto simp: requeue_def)
    qed
  qed (simp_all add: yield_thread_def)
qed

lemma rt_thread_yield_closed:
  assumes ok: "kernel_ok L k" and t: "rt_current_thread k = Some t" "thread_state k t = RT_THREAD_READY"
  shows "L (Ready_head (prio k t)) = [Tlist t] \<Longrightarrow> rt_thread_yield k = Some (RT_EOK, k)"
    "L (Ready_head (prio k t)) \<noteq> [Tlist t] \<Longrightarrow> is_next_thread (requeue k t L) p u \<Longrightarrow>
       rt_thread_yield k = Some (RT_EOK, switch_to p u (yield_thread t k))"
proof -
  note o = kernel_okD [OF ok]
  have p: "prio_ok k t" using kernel_ok_live(4) [OF ok, of t] t by simp
  have "Tlist t \<in> set (L (Ready_head (prio k t)))" using queue_ok_ready [OF o(1), of t] t by simp
  then obtain as bs where L: "L (Ready_head (prio k t)) = as @ Tlist t # bs" by (meson split_list)
  let ?x = "Ready_head (prio k t)"
  have d: "dll (lists k) ?x (as @ Tlist t # bs)" using rings_dll [OF o(4), of ?x] L by simp
  have eq: "nxt (lists k) (Tlist t) = prv (lists k) (Tlist t) \<longleftrightarrow> as = [] \<and> bs = []"
  proof -
    have dist: "distinct (?x # as @ Tlist t # bs)" using d by (rule dll_distinct)
    have m: "hd (bs @ [?x]) \<in> set (?x # bs)" "last (?x # as) \<in> set (?x # as)"
      by (rule hd_snoc_in, rule last_Cons_in)
    have "hd (bs @ [?x]) = last (?x # as) \<longleftrightarrow> as = [] \<and> bs = []"
    proof
      assume e: "hd (bs @ [?x]) = last (?x # as)"
      with m have "hd (bs @ [?x]) \<in> set (?x # bs) \<inter> set (?x # as)" by (simp only: Int_iff)
      then have x: "hd (bs @ [?x]) = ?x" "last (?x # as) = ?x" using dist e by auto
      have "bs = []" using x(1) dist by (cases bs) auto
      moreover have "as = []"
      proof (rule ccontr)
        assume "as \<noteq> []"
        then have "last (?x # as) \<in> set as" by simp
        then show False using x(2) dist by simp
      qed
      ultimately show "as = [] \<and> bs = []" by simp
    qed simp
    then show ?thesis using dll_next_mem [OF d] dll_prev_mem [OF d] by simp
  qed
  show "rt_thread_yield k = Some (RT_EOK, k)" if "L ?x = [Tlist t]"
  proof -
    have "as = [] \<and> bs = []" using that L by (auto simp: append_eq_Cons_conv)
    then show ?thesis using eq t by (simp add: rt_thread_yield_def)
  qed
  show "rt_thread_yield k = Some (RT_EOK, switch_to p u (yield_thread t k))"
    if ne: "L ?x \<noteq> [Tlist t]" and nx: "is_next_thread (requeue k t L) p u"
  proof -
    have ne': "nxt (lists k) (Tlist t) \<noteq> prv (lists k) (Tlist t)" using ne L eq by auto
    have "rt_thread_priority_table (prio k t) = Some ?x"
      using p by (simp add: rt_thread_priority_table_def prio_ok_def)
    moreover have "rt_schedule (yield_thread t k) = Some (switch_to p u (yield_thread t k))"
      using t(1) by (intro rt_schedule_closed [OF kernel_okD(1) [OF kernel_ok_yield [OF ok t(2)]] nx])
        (simp add: yield_thread_def)
    moreover have "stat (threads k t) AND RT_THREAD_STAT_MASK = RT_THREAD_READY"
      using t by (simp only: thread_state_def)
    ultimately show ?thesis using ne' t(1)
      by (simp add: rt_thread_yield_def yield_thread_def comp_def Let_def)
  qed
qed

subsection \<open>Change of priority\<close>

definition set_priority :: "tid \<Rightarrow> u8 \<Rightarrow> kernel \<Rightarrow> kernel" where
  "set_priority t p k =
     upd_thread t (\<lambda>th. th\<lparr>current_priority := p, number_mask := priority_mask p\<rparr>) k"

lemma set_priority_facts [simp]:
  "lists (set_priority t p k) = lists k" "timers (set_priority t p k) = timers k"
  "objects (set_priority t p k) = objects k" "rt_tick (set_priority t p k) = rt_tick k"
  "rt_current_thread (set_priority t p k) = rt_current_thread k"
  "sems (set_priority t p k) = sems k" "mutexes (set_priority t p k) = mutexes k"
  "rt_thread_ready_priority_group (set_priority t p k) = rt_thread_ready_priority_group k"
  "live (set_priority t p k) = live k" "active (set_priority t p k) = active k"
  "timer_live (set_priority t p k) = timer_live k" "timer_flag (set_priority t p k) = timer_flag k"
  "thread_state (set_priority t p k) = thread_state k"
  "prio (set_priority t p k) u = (if u = t then unat p else prio k u)"
  "threads (set_priority t p k) u = (if u = t then (threads k t)
     \<lparr>current_priority := p, number_mask := priority_mask p\<rparr> else threads k u)"
  by (auto simp: set_priority_def thread_state_def fun_eq_iff)

lemma priority_mask_ok:
  "unat p < RT_THREAD_PRIORITY_MAX \<Longrightarrow> priority_mask p = push_bit (unat p) 1"
  by (simp add: priority_mask_def RT_THREAD_PRIORITY_MAX_def)

lemma prio_ok_set_priority:
  "unat p < RT_THREAD_PRIORITY_MAX \<Longrightarrow> prio_ok (set_priority t p k) u \<longleftrightarrow> u = t \<or> prio_ok k u"
  by (auto simp: prio_ok_def priority_mask_ok)

definition change_ready :: "tid \<Rightarrow> u8 \<Rightarrow> kernel \<Rightarrow> kernel" where
  "change_ready t p k = insert_ready t (set_priority t p (remove_ready t k))"

definition change_ring :: "tid \<Rightarrow> u8 \<Rightarrow> (node \<Rightarrow> node list) \<Rightarrow> node \<Rightarrow> node list" where
  "change_ring t p L = append_to (Ready_head (unat p)) (Tlist t) (without (Tlist t) L)"

lemma change_priority_ready [kernel_simps]:
  assumes ok: "kernel_ok L k" and t: "thread_state k t = RT_THREAD_READY"
    and p: "unat p < RT_THREAD_PRIORITY_MAX"
  shows "change_priority t p k = Some (change_ready t p k)"
    "kernel_ok (change_ring t p L) (change_ready t p k)"
proof -
  note o = kernel_okD [OF ok]
  let ?k1 = "remove_ready t k" and ?L = "without (Tlist t) L"
  let ?k2 = "set_priority t p ?k1"
  have po: "prio_ok k t" using kernel_ok_live(4) [OF ok, of t] t by simp
  have rm: "rt_schedule_remove_thread t k = Some ?k1"
    using po by (intro remove_thread_closed) (simp add: prio_ok_def)
  have ins: "rt_schedule_insert_thread t ?k2 = Some (change_ready t p k)"
    unfolding change_ready_def using p by (intro insert_thread_closed) simp
  show "change_priority t p k = Some (change_ready t p k)"
    using t rm ins by (simp add: change_priority_def thread_state_def Let_def set_priority_def comp_def)
  have q1: "queue_ok {t} ?L ?k1" using queue_ok_remove [OF o(1) po] by simp
  have q2: "queue_ok {t} ?L ?k2"
    using p by (intro queue_ok_upd [OF q1, of t]) (auto simp: prio_ok_set_priority)
  have d: "\<not> on_list is_head ?L (Tlist t)" by simp
  have p2: "prio_ok ?k2 t" using p by (simp add: prio_ok_set_priority)
  have q3: "queue_ok {} (change_ring t p L) (change_ready t p k)"
    using queue_ok_insert [OF q2 d p2] by (simp add: change_ring_def change_ready_def)
  moreover have "timers_ok {} (change_ring t p L) (change_ready t p k)"
    using timers_okD(2) [OF o(2)] queue_ok_rings [OF q3]
    by (intro timers_ok_frame [OF o(2)])
       (auto simp: change_ring_def change_ready_def timer_flag_def live_def rt_object_get_type_def
         split: if_splits intro!: removeAll_id)
  moreover have "threads_ok (change_ring t p L) (change_ready t p k)"
  proof (rule threads_okI)
    have same: "thread_state (change_ready t p k) u = thread_state k u" for u
      using t by (simp add: change_ready_def)
    have facts: "live (change_ready t p k) = live k" "active (change_ready t p k) = active k"
      "timer_live (change_ready t p k) = timer_live k"
      by (rule object_facts_cong; simp add: change_ready_def)+
    show "live (change_ready t p k) (Obj_thread u) \<and> timer_live (change_ready t p k) u"
      if "thread_state (change_ready t p k) u = RT_THREAD_READY \<or>
          thread_state (change_ready t p k) u = RT_THREAD_SUSPEND" for u
      using kernel_ok_live [OF ok, of u] that by (simp add: same facts)
    show "thread_state (change_ready t p k) u = RT_THREAD_SUSPEND"
      if "active (change_ready t p k) (Thread_timer u)" for u
      using kernel_ok_active [OF ok, of u] that by (simp add: same facts)
    show "\<exists>u. n = Tlist u \<and> thread_state (change_ready t p k) u = RT_THREAD_SUSPEND"
      if w: "wait_head x" and n: "n \<in> set (change_ring t p L x)" for x n
    proof -
      have "x \<noteq> Ready_head i" for i using w by auto
      then have "n \<in> set (L x)" using n by (auto simp: change_ring_def)
      then show ?thesis using kernel_ok_waiting [OF ok w] by (simp add: same)
    qed
  qed
  ultimately show "kernel_ok (change_ring t p L) (change_ready t p k)" by (simp add: kernel_ok_def)
qed

lemma change_priority_suspended [kernel_simps]:
  assumes ok: "kernel_ok L k" and t: "thread_state k t = RT_THREAD_SUSPEND"
    and p: "unat p < RT_THREAD_PRIORITY_MAX"
  shows "change_priority t p k = Some (set_priority t p k)" "kernel_ok L (set_priority t p k)"
proof -
  note o = kernel_okD [OF ok]
  have "stat (threads k t) AND RT_THREAD_STAT_MASK \<noteq> RT_THREAD_READY"
    using t by (simp add: thread_state_def)
  then show "change_priority t p k = Some (set_priority t p k)"
    by (simp add: change_priority_def set_priority_def comp_def Let_def)
  have "Tlist t \<notin> set (L (Ready_head i))" for i
    using queue_ok_member [OF o(1), of "Tlist t" i] t by auto
  then have q: "queue_ok {} L (set_priority t p k)"
    using p t by (intro queue_ok_upd [OF o(1), of t]) (auto simp: prio_ok_set_priority)
  moreover have "timers_ok {} L (set_priority t p k)"
    using o(4) by (intro timers_ok_frame [OF o(2)]) simp_all
  moreover have "threads_ok L (set_priority t p k)"
    by (rule threads_ok_frame [OF o(3)]) simp_all
  ultimately show "kernel_ok L (set_priority t p k)" by (simp add: kernel_ok_def)
qed

text \<open>A ready thread that is given a priority outside the table: the list head that
  \<^verbatim>\<open>rt_schedule_insert_thread\<close> computes is not one of the table.\<close>

lemma change_priority_out_of_range:
  assumes ok: "kernel_ok L k" and t: "thread_state k t = RT_THREAD_READY"
    and p: "RT_THREAD_PRIORITY_MAX \<le> unat p"
  shows "change_priority t p k = None"
proof -
  have po: "prio_ok k t" using kernel_ok_live(4) [OF ok, of t] t by simp
  have rm: "rt_schedule_remove_thread t k = Some (remove_ready t k)"
    using po by (intro remove_thread_closed) (simp add: prio_ok_def)
  show ?thesis
    using t rm p by (simp add: change_priority_def thread_state_def Let_def
        rt_schedule_insert_thread_def rt_thread_priority_table_def)
qed

subsection \<open>Startup\<close>

text \<open>\<open>rt_thread_startup\<close> makes the thread suspended before it resumes it.\<close>

definition prepare_thread :: "tid \<Rightarrow> kernel \<Rightarrow> kernel" where
  "prepare_thread t k = upd_thread t (\<lambda>th. th\<lparr>current_priority := init_priority th,
     number_mask := priority_mask (init_priority th), stat := RT_THREAD_SUSPEND\<rparr>) k"

definition startable :: "tid \<Rightarrow> kernel \<Rightarrow> bool" where
  "startable t k \<longleftrightarrow> thread_state k t = RT_THREAD_INIT \<and> live k (Obj_thread t) \<and> timer_live k t \<and>
     \<not> active k (Thread_timer t) \<and> unat (init_priority (threads k t)) < RT_THREAD_PRIORITY_MAX"

lemma state_of_prepare [simp]:
  "thread_state (prepare_thread t k) u = (if u = t then RT_THREAD_SUSPEND else thread_state k u)"
  by (simp add: thread_state_def prepare_thread_def)

lemma prepare_thread_facts [simp]:
  "lists (prepare_thread t k) = lists k"
  "rt_thread_ready_priority_group (prepare_thread t k) = rt_thread_ready_priority_group k"
  "u \<noteq> t \<Longrightarrow> threads (prepare_thread t k) u = threads k u"
  "live (prepare_thread t k) = live k" "active (prepare_thread t k) = active k"
  "timer_live (prepare_thread t k) = timer_live k"
  "rt_current_thread (prepare_thread t k) = rt_current_thread k"
  "init_priority (threads (prepare_thread t k) u) = init_priority (threads k u)"
  "sems (prepare_thread t k) = sems k" "mutexes (prepare_thread t k) = mutexes k"
  "events (prepare_thread t k) = events k" "mailboxes (prepare_thread t k) = mailboxes k"
  "mqs (prepare_thread t k) = mqs k" "mempools (prepare_thread t k) = mempools k"
  "mem (prepare_thread t k) = mem k" "rt_tick (prepare_thread t k) = rt_tick k"
  "rt_scheduler_lock_nest (prepare_thread t k) = rt_scheduler_lock_nest k"
  "rt_interrupt_nest (prepare_thread t k) = rt_interrupt_nest k"
  "objects (prepare_thread t k) = objects k" "timers (prepare_thread t k) = timers k"
  by (simp_all add: prepare_thread_def)

lemma kernel_ok_prepare:
  assumes ok: "kernel_ok L k" and t: "startable t k"
  shows "kernel_ok L (prepare_thread t k)"
proof -
  note o = kernel_okD [OF ok]
  have st: "thread_state k t = RT_THREAD_INIT" using t by (simp add: startable_def)
  have "Tlist t \<notin> set (L (Ready_head i))" for i
    using queue_ok_member [OF o(1), of "Tlist t" i] st by auto
  moreover have "prio_ok (prepare_thread t k) t"
    using t by (simp add: prio_ok_def prepare_thread_def startable_def priority_mask_ok)
  ultimately have "queue_ok {} L (prepare_thread t k)"
    by (intro queue_ok_upd [OF o(1), of t]) auto
  moreover have "timers_ok {} L (prepare_thread t k)"
    using o(4) by (intro timers_ok_frame [OF o(2)]) (simp_all add: prepare_thread_def)
  moreover have "threads_ok L (prepare_thread t k)"
  proof (rule threads_okI)
    show "live (prepare_thread t k) (Obj_thread u) \<and> timer_live (prepare_thread t k) u"
      if "thread_state (prepare_thread t k) u = RT_THREAD_READY \<or>
          thread_state (prepare_thread t k) u = RT_THREAD_SUSPEND" for u
      using kernel_ok_live [OF ok, of u] that t
      by (cases "u = t") (auto simp: startable_def)
    show "thread_state (prepare_thread t k) u = RT_THREAD_SUSPEND"
      if "active (prepare_thread t k) (Thread_timer u)" for u
      using kernel_ok_active [OF ok, of u] that t
      by (auto simp: startable_def)
    show "\<exists>u. n = Tlist u \<and> thread_state (prepare_thread t k) u = RT_THREAD_SUSPEND"
      if w: "wait_head x" and n: "n \<in> set (L x)" for x n
    proof -
      obtain u where "n = Tlist u" "thread_state k u = RT_THREAD_SUSPEND"
        using kernel_ok_waiting [OF ok w n] by blast
      then show ?thesis by (intro exI [of _ u]) simp
    qed
  qed
  ultimately show ?thesis by (simp add: kernel_ok_def)
qed

definition startup_thread :: "tid \<Rightarrow> kernel \<Rightarrow> kernel" where
  "startup_thread t k = resume_thread t (prepare_thread t k)"

definition startup_ring :: "tid \<Rightarrow> kernel \<Rightarrow> (node \<Rightarrow> node list) \<Rightarrow> node \<Rightarrow> node list" where
  "startup_ring t k L = resume_ring (prepare_thread t k) t L"

lemma kernel_ok_startup:
  assumes ok: "kernel_ok L k" and t: "startable t k"
  shows "kernel_ok (startup_ring t k L) (startup_thread t k)"
  unfolding startup_thread_def startup_ring_def
  by (rule kernel_ok_resume [OF kernel_ok_prepare [OF assms]]) simp

lemma rt_thread_startup_closed [kernel_simps]:
  assumes ok: "kernel_ok L k" and t: "startable t k"
  shows "rt_current_thread k = None \<Longrightarrow> rt_thread_startup t k = Some (RT_EOK, startup_thread t k)"
    "rt_current_thread k = Some c \<Longrightarrow> is_next_thread (startup_ring t k L) p u \<Longrightarrow>
       rt_thread_startup t k = Some (RT_EOK, switch_to p u (startup_thread t k))"
proof -
  have r: "rt_thread_resume t (prepare_thread t k) = Some (RT_EOK, startup_thread t k)"
    unfolding startup_thread_def
    by (rule rt_thread_resume_closed [OF kernel_ok_prepare [OF assms]]) simp
  have c: "rt_current_thread (startup_thread t k) = rt_current_thread k"
    by (simp add: startup_thread_def resume_thread_def prepare_thread_def)
  have unf: "rt_thread_startup t k = do {
      k \<leftarrow> if rt_current_thread k \<noteq> None then rt_schedule (startup_thread t k)
           else Some (startup_thread t k);
      Some (RT_EOK, k) }"
    using r t c by (simp add: rt_thread_startup_def rt_thread_self_def Let_def comp_def
        prepare_thread_def startable_def live_def thread_state_def)
  show "rt_thread_startup t k = Some (RT_EOK, startup_thread t k)" if "rt_current_thread k = None"
    using unf that by simp
  show "rt_thread_startup t k = Some (RT_EOK, switch_to p u (startup_thread t k))"
    if cur: "rt_current_thread k = Some c" and nx: "is_next_thread (startup_ring t k L) p u"
  proof -
    have "rt_schedule (startup_thread t k) = Some (switch_to p u (startup_thread t k))"
      using cur c by (intro rt_schedule_closed [OF kernel_okD(1) [OF kernel_ok_startup [OF ok t]] nx]) simp
    then show ?thesis using unf cur by simp
  qed
qed

end
