(* ===== verification/IpcList.thy ===== *)
theory IpcList
  imports Thread
begin

text \<open>
  The wait lists shared by the IPC objects of \<^verbatim>\<open>src/ipc.c\<close>: \<^verbatim>\<open>rt_ipc_list_suspend\<close>,
  \<^verbatim>\<open>rt_ipc_list_resume\<close> and \<^verbatim>\<open>rt_ipc_list_resume_all\<close>.

  A call that may block yields an \<open>outcome\<close>: it is done with an error code, or it has suspended
  the calling thread and called \<^verbatim>\<open>rt_schedule\<close>; then \<open>Blocked\<close> carries the local variables the
  rest of the function (suffix \<open>_wake\<close>) works with when the thread runs again.
\<close>

datatype 'f outcome = Done err | Blocked 'f

abbreviation (input) RT_IPC_FLAG_FIFO :: u8 where "RT_IPC_FLAG_FIFO \<equiv> 0"
abbreviation (input) RT_IPC_FLAG_PRIO :: u8 where "RT_IPC_FLAG_PRIO \<equiv> 1"
abbreviation (input) RT_IPC_CMD_RESET :: int where "RT_IPC_CMD_RESET \<equiv> 1"

section \<open>The operations\<close>

definition rt_ipc_object_init :: "obj_ptr \<Rightarrow> kernel \<Rightarrow> kernel" where
  "rt_ipc_object_init ob k = upd_lists (rt_list_init (Suspend_head ob)) k"

text \<open>The search of the case \<^verbatim>\<open>RT_IPC_FLAG_PRIO\<close>: the node to insert before, which is the head
  when the loop runs to the end.\<close>

partial_function (option) ipc_position :: "u8 \<Rightarrow> node \<Rightarrow> node \<Rightarrow> kernel \<Rightarrow> node option" where
  "ipc_position p list n k =
     (if n \<noteq> list then do {
        sthread \<leftarrow> thread_entry n;
        if p < current_priority (threads k sthread) then Some n
        else ipc_position p list (nxt (lists k) n) k
      } else Some list)"

definition rt_ipc_list_suspend :: "node \<Rightarrow> tid \<Rightarrow> u8 \<Rightarrow> kernel \<Rightarrow> (err \<times> kernel) option" where
  "rt_ipc_list_suspend list t fl k = do {
     (_, k) \<leftarrow> rt_thread_suspend t k;
     if fl = RT_IPC_FLAG_FIFO then Some (RT_EOK, upd_lists (rt_list_insert_before list (Tlist t)) k)
     else if fl = RT_IPC_FLAG_PRIO then do {
       n \<leftarrow> ipc_position (current_priority (threads k t)) list (nxt (lists k) list) k;
       Some (RT_EOK, upd_lists (rt_list_insert_before n (Tlist t)) k)
     }
     else Some (RT_EOK, k)
   }"

definition rt_ipc_list_resume :: "node \<Rightarrow> kernel \<Rightarrow> (err \<times> kernel) option" where
  "rt_ipc_list_resume list k = do {
     t \<leftarrow> thread_entry (nxt (lists k) list);
     (_, k) \<leftarrow> rt_thread_resume t k;
     Some (RT_EOK, k)
   }"

partial_function (option) rt_ipc_list_resume_all :: "node \<Rightarrow> kernel \<Rightarrow> (err \<times> kernel) option" where
  "rt_ipc_list_resume_all list k =
     (if \<not> rt_list_isempty list (lists k) then do {
        t \<leftarrow> thread_entry (nxt (lists k) list);
        let k = upd_thread t (\<lambda>th. th\<lparr>error := - RT_ERROR\<rparr>) k;
        (_, k) \<leftarrow> rt_thread_resume t k;
        rt_ipc_list_resume_all list k
      } else Some (RT_EOK, k))"

text \<open>The block that every waiting call repeats: the thread goes on the list, and its timer is
  started when the waiting time, a signed 32-bit number, is positive.\<close>

definition start_wait_timer :: "tid \<Rightarrow> u32 \<Rightarrow> kernel \<Rightarrow> kernel option" where
  "start_wait_timer t time k =
     (if sint time > 0 then do {
        (_, _, k) \<leftarrow> rt_timer_control (Thread_timer t) RT_TIMER_CTRL_SET_TIME time k;
        (_, k) \<leftarrow> rt_timer_start (Thread_timer t) k;
        Some k
      }
      else Some k)"

definition ipc_wait :: "node \<Rightarrow> tid \<Rightarrow> u8 \<Rightarrow> u32 \<Rightarrow> kernel \<Rightarrow> kernel option" where
  "ipc_wait list t fl time k = do {
     (_, k) \<leftarrow> rt_ipc_list_suspend list t fl k;
     start_wait_timer t time k
   }"

text \<open>The remaining waiting time that a loop computes after it has been woken up.\<close>

definition remaining_timeout :: "u32 \<Rightarrow> u32 \<Rightarrow> kernel \<Rightarrow> u32" where
  "remaining_timeout timeout tick_delta k =
     (if sint timeout > 0 then
        let tick_delta = rt_tick k - tick_delta;
            timeout = timeout - tick_delta
        in if sint timeout < 0 then 0 else timeout
      else timeout)"

section \<open>Where a thread waits\<close>

text \<open>FIFO: behind all the others.  By priority: behind those of no lower priority (a larger
  number is a lower priority).  Any other value stands for the front of the list, where the memory
  pools put a waiting thread.\<close>

definition wait_before :: "u8 \<Rightarrow> kernel \<Rightarrow> tid \<Rightarrow> tid list \<Rightarrow> tid list" where
  "wait_before fl k t us = (if fl = RT_IPC_FLAG_FIFO then us
     else if fl = RT_IPC_FLAG_PRIO
     then takeWhile (\<lambda>u. current_priority (threads k u) \<le> current_priority (threads k t)) us
     else [])"

definition wait_after :: "u8 \<Rightarrow> kernel \<Rightarrow> tid \<Rightarrow> tid list \<Rightarrow> tid list" where
  "wait_after fl k t us = (if fl = RT_IPC_FLAG_FIFO then []
     else if fl = RT_IPC_FLAG_PRIO
     then dropWhile (\<lambda>u. current_priority (threads k u) \<le> current_priority (threads k t)) us
     else us)"

lemma wait_before_after: "wait_before fl k t us @ wait_after fl k t us = us"
  by (simp add: wait_before_def wait_after_def)

lemma ipc_position_dll:
  assumes "dll (lists k) x (as @ map Tlist us)"
  shows "ipc_position p x (hd (map Tlist us @ [x])) k =
    Some (hd (map Tlist (dropWhile (\<lambda>u. current_priority (threads k u) \<le> p) us) @ [x]))"
  using assms
proof (induction us arbitrary: as)
  case Nil
  then show ?case by (subst ipc_position.simps) simp
next
  case (Cons u us)
  have "Tlist u \<noteq> x" using Cons.prems by (auto simp: dll_def)
  moreover have "nxt (lists k) (Tlist u) = hd (map Tlist us @ [x])"
    using Cons.prems by (intro dll_next_mem [of _ x as]) simp
  moreover have "ipc_position p x (hd (map Tlist us @ [x])) k =
      Some (hd (map Tlist (dropWhile (\<lambda>u. current_priority (threads k u) \<le> p) us) @ [x]))"
    using Cons.IH [of "as @ [Tlist u]"] Cons.prems by simp
  ultimately show ?case
    by (cases "p < current_priority (threads k u)"; subst ipc_position.simps) (auto simp: leD not_le)
qed

definition wait_pos :: "node \<Rightarrow> u8 \<Rightarrow> kernel \<Rightarrow> tid \<Rightarrow> tid list \<Rightarrow> node" where
  "wait_pos x fl k t us = hd (map Tlist (wait_after fl k t us) @ [x])"

definition wait_ring :: "node \<Rightarrow> u8 \<Rightarrow> kernel \<Rightarrow> tid \<Rightarrow> (node \<Rightarrow> node list) \<Rightarrow> node \<Rightarrow> node list" where
  "wait_ring x fl k t L = (let us = waiting L x
     in (without (Tlist t) L)(x := map Tlist (wait_before fl k t us @ t # wait_after fl k t us)))"

definition enqueue_thread :: "node \<Rightarrow> u8 \<Rightarrow> tid \<Rightarrow> (node \<Rightarrow> node list) \<Rightarrow> kernel \<Rightarrow> kernel" where
  "enqueue_thread x fl t L k = upd_lists
     (rt_list_insert_before (wait_pos x fl k t (waiting L x)) (Tlist t)) (suspend_thread t k)"

lemma without_waiting:
  assumes ok: "kernel_ok L k" and t: "thread_state k t \<noteq> RT_THREAD_SUSPEND" and x: "wait_head x"
  shows "removeAll (Tlist t) (L x) = L x"
  using kernel_ok_waiting [OF ok x, of "Tlist t"] t by (auto intro!: removeAll_id)

lemma waiting_without:
  assumes ok: "kernel_ok L k" and t: "thread_state k t \<noteq> RT_THREAD_SUSPEND" and x: "wait_head x"
  shows "waiting (without (Tlist t) L) x = waiting L x"
  using without_waiting [OF assms] by (simp add: waiting_def)

lemma enqueue_thread_ok:
  assumes ok: "kernel_ok L k" and t: "thread_state k t = RT_THREAD_READY" and x: "wait_head x"
  shows "kernel_ok (wait_ring x fl k t L) (enqueue_thread x fl t L k)"
    "without (Tlist t) L x = map Tlist (waiting L x)"
proof -
  let ?k = "suspend_thread t k" and ?L = "without (Tlist t) L" and ?us = "waiting L x"
  have ns: "thread_state k t \<noteq> RT_THREAD_SUSPEND" using t by simp
  have ok1: "kernel_ok ?L ?k" by (rule kernel_ok_suspend [OF ok t])
  show us: "?L x = map Tlist ?us"
    using waiting_map [OF ok1 x] by (simp only: waiting_without [OF ok ns x])
  have split: "?L x = map Tlist (wait_before fl k t ?us) @ map Tlist (wait_after fl k t ?us)"
    unfolding us by (metis map_append wait_before_after)
  show "kernel_ok (wait_ring x fl k t L) (enqueue_thread x fl t L k)"
    using kernel_ok_wait [OF ok1 x split, of t]
    by (simp add: wait_ring_def enqueue_thread_def wait_pos_def Let_def)
qed

lemma list_suspend_closed [kernel_simps]:
  assumes ok: "kernel_ok L k" and t: "thread_state k t = RT_THREAD_READY" and x: "wait_head x"
    and fl: "fl = RT_IPC_FLAG_FIFO \<or> fl = RT_IPC_FLAG_PRIO"
  shows "rt_ipc_list_suspend x t fl k = Some (RT_EOK, enqueue_thread x fl t L k)"
    "kernel_ok (wait_ring x fl k t L) (enqueue_thread x fl t L k)"
proof -
  let ?k = "suspend_thread t k" and ?L = "without (Tlist t) L" and ?us = "waiting L x"
  have ok1: "kernel_ok ?L ?k" by (rule kernel_ok_suspend [OF ok t])
  note us = enqueue_thread_ok(2) [OF ok t x]
  have d: "dll (lists ?k) x (map Tlist ?us)"
    using rings_dll [OF kernel_okD(4) [OF ok1] wait_head_is_head [OF x]] us by simp
  have prio: "current_priority (threads ?k u) = current_priority (threads k u)" for u by simp
  have "ipc_position (current_priority (threads ?k t)) x (nxt (lists ?k) x) ?k =
      Some (wait_pos x RT_IPC_FLAG_PRIO k t ?us)"
    using ipc_position_dll [of ?k x "[]" ?us] d dll_next [OF d]
    by (simp add: wait_pos_def wait_after_def)
  moreover have "wait_pos x RT_IPC_FLAG_FIFO k t ?us = x" by (simp add: wait_pos_def wait_after_def)
  ultimately show "rt_ipc_list_suspend x t fl k = Some (RT_EOK, enqueue_thread x fl t L k)"
    using fl unfolding rt_ipc_list_suspend_def rt_thread_suspend_closed [OF ok t]
    by (auto simp: enqueue_thread_def Let_def simp del: suspend_thread_frame)
  show "kernel_ok (wait_ring x fl k t L) (enqueue_thread x fl t L k)"
    by (rule enqueue_thread_ok [OF ok t x])
qed

text \<open>The front of the list.\<close>

lemma list_suspend_front:
  assumes ok: "kernel_ok L k" and t: "thread_state k t = RT_THREAD_READY" and x: "wait_head x"
    and fl: "fl \<noteq> RT_IPC_FLAG_FIFO" "fl \<noteq> RT_IPC_FLAG_PRIO"
  shows "do { (_, k) \<leftarrow> rt_thread_suspend t k; Some (upd_lists (rt_list_insert_after x (Tlist t)) k) } =
    Some (enqueue_thread x fl t L k)"
proof -
  let ?k = "suspend_thread t k" and ?L = "without (Tlist t) L"
  have d: "dll (lists ?k) x (map Tlist (waiting L x))"
    using rings_dll [OF kernel_okD(4) [OF kernel_ok_suspend [OF ok t]] wait_head_is_head [OF x]]
      enqueue_thread_ok(2) [OF ok t x] by simp
  have n: "nxt (lists ?k) x = wait_pos x fl k t (waiting L x)"
    using dll_next [OF d] fl by (simp add: wait_pos_def wait_after_def)
  have "Tlist t \<notin> set (map Tlist (waiting L x))"
    unfolding enqueue_thread_ok(2) [OF ok t x, symmetric] by simp
  then have "Tlist t \<noteq> nxt (lists ?k) x" using dll_next [OF d] x by (cases "waiting L x") auto
  then have "rt_list_insert_after x (Tlist t) (lists ?k) =
      rt_list_insert_before (wait_pos x fl k t (waiting L x)) (Tlist t) (lists ?k)"
    unfolding n [symmetric] using x by (intro insert_after_before dll_first_prev [OF d]) auto
  then show ?thesis
    by (simp add: rt_thread_suspend_closed [OF ok t] enqueue_thread_def)
qed

lemma enqueue_thread_frame [simp, frame]:
  "timers (enqueue_thread x fl t L k) = timers k" "objects (enqueue_thread x fl t L k) = objects k"
  "sems (enqueue_thread x fl t L k) = sems k" "mutexes (enqueue_thread x fl t L k) = mutexes k"
  "events (enqueue_thread x fl t L k) = events k" "mailboxes (enqueue_thread x fl t L k) = mailboxes k"
  "mqs (enqueue_thread x fl t L k) = mqs k" "mempools (enqueue_thread x fl t L k) = mempools k"
  "mem (enqueue_thread x fl t L k) = mem k" "rt_tick (enqueue_thread x fl t L k) = rt_tick k"
  "rt_current_thread (enqueue_thread x fl t L k) = rt_current_thread k"
  "rt_scheduler_lock_nest (enqueue_thread x fl t L k) = rt_scheduler_lock_nest k"
  "rt_interrupt_nest (enqueue_thread x fl t L k) = rt_interrupt_nest k"
  "threads (enqueue_thread x fl t L k) = threads (suspend_thread t k)"
  "live (enqueue_thread x fl t L k) = live k" "active (enqueue_thread x fl t L k) = active k"
  "timer_live (enqueue_thread x fl t L k) = timer_live k"
  "thread_state (enqueue_thread x fl t L k) u =
     (if u = t then RT_THREAD_SUSPEND else thread_state k u)"
  by (simp_all add: enqueue_thread_def)

text \<open>The state and the rings after \<open>ipc_wait\<close>.\<close>

definition block_thread ::
  "node \<Rightarrow> u8 \<Rightarrow> u32 \<Rightarrow> tid \<Rightarrow> (node \<Rightarrow> node list) \<Rightarrow> kernel \<Rightarrow> kernel" where
  "block_thread x fl time t L k =
     (if sint time > 0 then
        let k' = upd_timer (Thread_timer t) (\<lambda>tm. tm\<lparr>init_tick := time\<rparr>) (enqueue_thread x fl t L k)
        in begin_timer (Thread_timer t) (start_pos k' (Thread_timer t) (wait_ring x fl k t L)) k'
      else enqueue_thread x fl t L k)"

definition block_ring ::
  "node \<Rightarrow> u8 \<Rightarrow> u32 \<Rightarrow> tid \<Rightarrow> (node \<Rightarrow> node list) \<Rightarrow> kernel \<Rightarrow> node \<Rightarrow> node list" where
  "block_ring x fl time t L k =
     (if sint time > 0 then
        start_ring (upd_timer (Thread_timer t) (\<lambda>tm. tm\<lparr>init_tick := time\<rparr>) (enqueue_thread x fl t L k))
          (Thread_timer t) (wait_ring x fl k t L)
      else wait_ring x fl k t L)"

lemma start_wait_timer_closed:
  assumes ok: "kernel_ok L k" and t: "thread_state k t = RT_THREAD_READY" and x: "wait_head x"
    and time: "sint time > 0 \<Longrightarrow> time < HALF_TICK_MAX"
  shows "start_wait_timer t time (enqueue_thread x fl t L k) = Some (block_thread x fl time t L k)"
    "kernel_ok (block_ring x fl time t L k) (block_thread x fl time t L k)"
proof -
  let ?k1 = "enqueue_thread x fl t L k" and ?L = "wait_ring x fl k t L"
  let ?k2 = "upd_timer (Thread_timer t) (\<lambda>tm. tm\<lparr>init_tick := time\<rparr>) ?k1"
  note q = enqueue_thread_ok(1) [OF ok t x]
  note l = kernel_ok_live(3) [OF ok, of t, unfolded t, simplified]
  have ok2: "kernel_ok ?L ?k2" using q by simp
  have ct: "rt_timer_control (Thread_timer t) RT_TIMER_CTRL_SET_TIME time ?k1 = Some (RT_EOK, time, ?k2)"
    using l by (simp add: rt_timer_control_def live_def rt_object_get_type_def)
  have i: "init_tick (timers ?k2 (Thread_timer t)) = time" by simp
  have st: "rt_timer_start (Thread_timer t) ?k2 = Some (RT_EOK, block_thread x fl time t L k)"
    if "sint time > 0"
    using rt_timer_start_closed [OF kernel_okD(2) [OF ok2], of "Thread_timer t"] l time [OF that] that
    by (simp add: block_thread_def start_pos_def Let_def)
  show "start_wait_timer t time ?k1 = Some (block_thread x fl time t L k)"
  proof (cases "sint time > 0")
    case True
    then show ?thesis using st ct by (simp only: start_wait_timer_def bind.bind_lunit case_prod_conv if_True)
  next
    case False
    then show ?thesis by (simp add: start_wait_timer_def block_thread_def)
  qed
  show "kernel_ok (block_ring x fl time t L k) (block_thread x fl time t L k)"
  proof (cases "sint time > 0")
    case True
    then show ?thesis using kernel_ok_start_timer [OF ok2, of t] time
      by (simp add: block_ring_def block_thread_def Let_def)
  next
    case False
    then show ?thesis using q by (simp add: block_ring_def block_thread_def)
  qed
qed

lemma ipc_wait_closed [kernel_simps]:
  assumes ok: "kernel_ok L k" and t: "thread_state k t = RT_THREAD_READY" and x: "wait_head x"
    and fl: "fl = RT_IPC_FLAG_FIFO \<or> fl = RT_IPC_FLAG_PRIO"
    and time: "sint time > 0 \<Longrightarrow> time < HALF_TICK_MAX"
  shows "ipc_wait x t fl time k = Some (block_thread x fl time t L k)"
    "kernel_ok (block_ring x fl time t L k) (block_thread x fl time t L k)"
  using start_wait_timer_closed [OF ok t x time] list_suspend_closed(1) [OF ok t x fl]
  by (simp_all add: ipc_wait_def)

text \<open>With the largest waiting time the assertion of \<^verbatim>\<open>rt_timer_start\<close> fails.\<close>

lemma ipc_wait_half_tick:
  assumes ok: "kernel_ok L k" and t: "thread_state k t = RT_THREAD_READY" and x: "wait_head x"
    and fl: "fl = RT_IPC_FLAG_FIFO \<or> fl = RT_IPC_FLAG_PRIO"
  shows "ipc_wait x t fl 0x7fffffff k = None"
proof -
  note q = list_suspend_closed [OF ok t x fl]
  note l = kernel_ok_live(3) [OF ok, of t, unfolded t, simplified]
  have half: "\<not> (0x7fffffff :: u32) < HALF_TICK_MAX" by (simp add: HALF_TICK_MAX_def)
  show ?thesis
    using l half by (simp add: ipc_wait_def start_wait_timer_def q(1) rt_timer_control_def live_def rt_object_get_type_def
        rt_timer_start_def rt_timer_remove_def Let_def)
qed

lemma block_thread_frame [simp, frame]:
  "sems (block_thread x fl time t L k) = sems k" "mutexes (block_thread x fl time t L k) = mutexes k"
  "events (block_thread x fl time t L k) = events k"
  "mailboxes (block_thread x fl time t L k) = mailboxes k"
  "mqs (block_thread x fl time t L k) = mqs k" "mempools (block_thread x fl time t L k) = mempools k"
  "mem (block_thread x fl time t L k) = mem k" "rt_tick (block_thread x fl time t L k) = rt_tick k"
  "rt_current_thread (block_thread x fl time t L k) = rt_current_thread k"
  "rt_scheduler_lock_nest (block_thread x fl time t L k) = rt_scheduler_lock_nest k"
  "rt_interrupt_nest (block_thread x fl time t L k) = rt_interrupt_nest k"
  "threads (block_thread x fl time t L k) = threads (suspend_thread t k)"
  "live (block_thread x fl time t L k) = live k"
  "thread_state (block_thread x fl time t L k) u =
     (if u = t then RT_THREAD_SUSPEND else thread_state k u)"
  "active (block_thread x fl time t L k) tm \<longleftrightarrow> (sint time > 0 \<and> tm = Thread_timer t) \<or> active k tm"
proof -
  have st: "thread_state (begin_timer a b k') = thread_state k'" for a b k'
    by (simp add: fun_eq_iff thread_state_def)
  show "thread_state (block_thread x fl time t L k) u =
     (if u = t then RT_THREAD_SUSPEND else thread_state k u)"
    by (simp add: block_thread_def Let_def st)
qed (auto simp: block_thread_def Let_def fun_eq_iff)

text \<open>What the wait list looks like afterwards.\<close>

lemma timer_list_wait_ring:
  assumes "wait_head x" shows "wait_ring x fl k t L Timer_head = removeAll (Tlist t) (L Timer_head)"
  using assms by (auto simp: wait_ring_def Let_def)

lemma block_ring_wait:
  assumes ok: "kernel_ok L k" and t: "thread_state k t = RT_THREAD_READY" and x: "wait_head x"
  shows "block_ring x fl time t L k x = map Tlist (wait_before fl k t (waiting L x) @ t # wait_after fl k t (waiting L x))"
proof -
  have "x \<noteq> Timer_head" using x by auto
  moreover have "Row u \<notin> set (map Tlist us)" for u us by auto
  ultimately show ?thesis
    by (auto simp: block_ring_def start_ring_def wait_ring_def Let_def removeAll_id)
qed

section \<open>Waking up\<close>

lemma list_resume_closed [kernel_simps]:
  assumes ok: "kernel_ok L k" and x: "wait_head x" and w: "waiting L x = t # us"
  shows "rt_ipc_list_resume x k = Some (RT_EOK, resume_thread t k)"
    "kernel_ok (resume_ring k t L) (resume_thread t k)"
    "thread_state k t = RT_THREAD_SUSPEND"
proof -
  have L: "L x = map Tlist (t # us)" using waiting_map [OF ok x] w by simp
  show t: "thread_state k t = RT_THREAD_SUSPEND"
    using kernel_ok_waiting [OF ok x, of "Tlist t"] L by auto
  have "nxt (lists k) x = Tlist t"
    using rings_first [OF kernel_okD(4) [OF ok] wait_head_is_head [OF x]] L by simp
  then show "rt_ipc_list_resume x k = Some (RT_EOK, resume_thread t k)"
    by (simp add: rt_ipc_list_resume_def rt_thread_resume_closed [OF ok t])
  show "kernel_ok (resume_ring k t L) (resume_thread t k)" by (rule kernel_ok_resume [OF ok t])
qed

lemma resume_ring_wait:
  assumes ok: "kernel_ok L k" and x: "wait_head x"
  shows "resume_ring k t L x = map Tlist (removeAll t (waiting L x))"
proof -
  have ne: "x \<noteq> Ready_head i" for i using x by auto
  have "removeAll (Tlist t) (map Tlist us) = map Tlist (removeAll t us)" for us by (induction us) auto
  then have "removeAll (Tlist t) (L x) = map Tlist (removeAll t (waiting L x))"
    by (simp only: waiting_map [OF ok x])
  moreover have "removeAll (Row v) (map Tlist us) = map Tlist us" for v us
    by (rule removeAll_id) auto
  ultimately show ?thesis using ne by (simp add: resume_ring_def)
qed

lemma waiting_of_map [simp]: "L x = map Tlist us \<Longrightarrow> waiting L x = us"
proof -
  have "List.map_filter thread_entry (map Tlist us) = us"
    by (induction us) (simp_all add: map_filter_simps)
  then show "L x = map Tlist us \<Longrightarrow> waiting L x = us" by (simp add: waiting_def)
qed

lemma waiting_resume:
  assumes "kernel_ok L k" "wait_head x"
  shows "waiting (resume_ring k t L) x = removeAll t (waiting L x)"
  by (rule waiting_of_map) (rule resume_ring_wait [OF assms])

lemma waiting_block:
  assumes "kernel_ok L k" "thread_state k t = RT_THREAD_READY" "wait_head x"
  shows "waiting (block_ring x fl time t L k) x =
    wait_before fl k t (waiting L x) @ t # wait_after fl k t (waiting L x)"
  by (rule waiting_of_map) (rule block_ring_wait [OF assms])

lemma waiting_distinct: "kernel_ok L k \<Longrightarrow> wait_head x \<Longrightarrow> distinct (waiting L x)"
  using rings_distinct [OF kernel_okD(4) wait_head_is_head] waiting_map by (metis distinct_map)

lemma waiting_empty: "kernel_ok L k \<Longrightarrow> wait_head x \<Longrightarrow>
    rt_list_isempty x (lists k) \<longleftrightarrow> waiting L x = []"
  using rings_isempty [OF kernel_okD(4) wait_head_is_head] waiting_map
  by (metis map_is_Nil_conv)

text \<open>Each woken thread is ready, and its timer is off.\<close>

lemma resume_thread_facts [simp]:
  "thread_state (resume_thread t k) u = (if u = t then RT_THREAD_READY else thread_state k u)"
  "active (resume_thread t k) tm \<longleftrightarrow> tm \<noteq> Thread_timer t \<and> active k tm"
  "sems (resume_thread t k) = sems k" "mutexes (resume_thread t k) = mutexes k"
  "events (resume_thread t k) = events k" "mailboxes (resume_thread t k) = mailboxes k"
  "mqs (resume_thread t k) = mqs k" "mempools (resume_thread t k) = mempools k"
  "mem (resume_thread t k) = mem k" "rt_tick (resume_thread t k) = rt_tick k"
  "rt_current_thread (resume_thread t k) = rt_current_thread k"
  "rt_scheduler_lock_nest (resume_thread t k) = rt_scheduler_lock_nest k"
  "rt_interrupt_nest (resume_thread t k) = rt_interrupt_nest k"
  "error (threads (resume_thread t k) u) = error (threads k u)"
  "event_set (threads (resume_thread t k) u) = event_set (threads k u)"
  "event_info (threads (resume_thread t k) u) = event_info (threads k u)"
  "current_priority (threads (resume_thread t k) u) = current_priority (threads k u)"
  "live (resume_thread t k) = live k" "timer_live (resume_thread t k) = timer_live k"
  "init_priority (threads (resume_thread t k) u) = init_priority (threads k u)"
  by (auto simp: resume_thread_def insert_ready_def [THEN arg_cong [where f = threads]])

lemma kernel_ok_error [simp]:
  "kernel_ok L (upd_thread t (\<lambda>th. th\<lparr>error := e\<rparr>) k) = kernel_ok L k"
  by (rule kernel_ok_cong) auto

lemma resume_ring_prio:
  "(\<And>u. prio k' u = prio k u) \<Longrightarrow> resume_ring k' t L = resume_ring k t L"
  by (simp add: resume_ring_def)

subsection \<open>All of them\<close>

fun resume_each :: "tid list \<Rightarrow> kernel \<Rightarrow> kernel" where
  "resume_each [] k = k"
| "resume_each (t # us) k =
     resume_each us (resume_thread t (upd_thread t (\<lambda>th. th\<lparr>error := - RT_ERROR\<rparr>) k))"

fun resume_each_ring :: "kernel \<Rightarrow> tid list \<Rightarrow> (node \<Rightarrow> node list) \<Rightarrow> node \<Rightarrow> node list" where
  "resume_each_ring k [] L = L"
| "resume_each_ring k (t # us) L = resume_each_ring k us (resume_ring k t L)"

lemma resume_each_ring_prio:
  "(\<And>u. prio k' u = prio k u) \<Longrightarrow> resume_each_ring k' us L = resume_each_ring k us L"
  by (induction us arbitrary: L) (simp_all add: resume_ring_prio [of k' k])

lemma resume_all_closed [kernel_simps]:
  assumes ok: "kernel_ok L k" and x: "wait_head x" and us: "waiting L x = us"
  shows "rt_ipc_list_resume_all x k = Some (RT_EOK, resume_each us k)"
    "kernel_ok (resume_each_ring k us L) (resume_each us k)"
    "waiting (resume_each_ring k us L) x = []"
proof -
  have "rt_ipc_list_resume_all x k = Some (RT_EOK, resume_each us k) \<and>
    kernel_ok (resume_each_ring k us L) (resume_each us k) \<and>
    waiting (resume_each_ring k us L) x = []"
    using ok us
  proof (induction us arbitrary: L k)
    case Nil
    then show ?case
      using waiting_empty [OF Nil.prems(1) x] by (subst rt_ipc_list_resume_all.simps) simp
  next
    case (Cons t us)
    let ?k = "upd_thread t (\<lambda>th. th\<lparr>error := - RT_ERROR\<rparr>) k"
    have ok': "kernel_ok L ?k" using Cons.prems(1) by simp
    have L: "L x = map Tlist (t # us)" using waiting_map [OF Cons.prems(1) x] Cons.prems(2) by simp
    note r = list_resume_closed [OF ok' x Cons.prems(2)]
    have "nxt (lists k) x = Tlist t"
      using rings_first [OF kernel_okD(4) [OF Cons.prems(1)] wait_head_is_head [OF x]] L by simp
    moreover have "\<not> rt_list_isempty x (lists k)"
      using waiting_empty [OF Cons.prems(1) x] Cons.prems(2) by simp
    moreover have "rt_thread_resume t ?k = Some (RT_EOK, resume_thread t ?k)"
      by (rule rt_thread_resume_closed [OF ok' r(3)])
    ultimately have step: "rt_ipc_list_resume_all x k = rt_ipc_list_resume_all x (resume_thread t ?k)"
      by (subst rt_ipc_list_resume_all.simps) (simp add: Let_def)
    have ring: "resume_ring ?k t L = resume_ring k t L" by (rule resume_ring_prio) simp
    have "t \<notin> set us" using waiting_distinct [OF Cons.prems(1) x] Cons.prems(2) by simp
    then have w: "waiting (resume_ring k t L) x = us"
      using waiting_resume [OF Cons.prems(1) x, of t] Cons.prems(2) by (simp add: removeAll_id)
    have k2: "kernel_ok (resume_ring k t L) (resume_thread t ?k)" using r(2) ring by simp
    have "resume_each_ring (resume_thread t ?k) us M = resume_each_ring k us M" for M
      by (rule resume_each_ring_prio) simp
    then show ?case using Cons.IH [OF k2 w] step by simp
  qed
  then show "rt_ipc_list_resume_all x k = Some (RT_EOK, resume_each us k)"
    "kernel_ok (resume_each_ring k us L) (resume_each us k)"
    "waiting (resume_each_ring k us L) x = []" by simp_all
qed

lemma resume_each_facts [simp]:
  "thread_state (resume_each us k) u = (if u \<in> set us then RT_THREAD_READY else thread_state k u)"
  "error (threads (resume_each us k) u) =
     (if u \<in> set us then - RT_ERROR else error (threads k u))"
  "sems (resume_each us k) = sems k" "mutexes (resume_each us k) = mutexes k"
  "events (resume_each us k) = events k" "mailboxes (resume_each us k) = mailboxes k"
  "mqs (resume_each us k) = mqs k" "mempools (resume_each us k) = mempools k"
  "mem (resume_each us k) = mem k" "rt_tick (resume_each us k) = rt_tick k"
  "rt_current_thread (resume_each us k) = rt_current_thread k"
  "rt_scheduler_lock_nest (resume_each us k) = rt_scheduler_lock_nest k"
  "rt_interrupt_nest (resume_each us k) = rt_interrupt_nest k"
  "current_priority (threads (resume_each us k) u) = current_priority (threads k u)"
  "live (resume_each us k) = live k"
  by (induction us arbitrary: k) auto

lemma resume_each_active [simp]:
  "active (resume_each us k) tm \<longleftrightarrow> tm \<notin> Thread_timer ` set us \<and> active k tm"
  by (induction us arbitrary: k) auto

section \<open>Data the invariant does not look at\<close>

lemma kernel_ok_data [simp]:
  "kernel_ok L (sems_update f1 k) = kernel_ok L k" "kernel_ok L (mutexes_update f2 k) = kernel_ok L k"
  "kernel_ok L (events_update f3 k) = kernel_ok L k" "kernel_ok L (mailboxes_update f4 k) = kernel_ok L k"
  "kernel_ok L (mqs_update f5 k) = kernel_ok L k" "kernel_ok L (mempools_update f6 k) = kernel_ok L k"
  "kernel_ok L (mem_update f7 k) = kernel_ok L k"
  by (rule kernel_ok_cong; simp)+

lemma wait_head_Suspend [simp]: "wait_head (Suspend_head ob)"
  and wait_head_Sender [simp]: "wait_head (Sender_head ob)"
  by simp_all

text \<open>The flags of an IPC object are never those of a thread timer.\<close>

definition ipc_flag :: "kernel \<Rightarrow> obj_ptr \<Rightarrow> u8" where
  "ipc_flag k ob = flag (objects k ob)"

definition ipc_ok :: "kernel \<Rightarrow> obj_ptr \<Rightarrow> bool" where
  "ipc_ok k ob \<longleftrightarrow> live k ob \<and> (ipc_flag k ob = RT_IPC_FLAG_FIFO \<or> ipc_flag k ob = RT_IPC_FLAG_PRIO)"

lemma waiting_frame [simp]:
  "wait_head x \<Longrightarrow> waiting (append_to (Ready_head i) n L) x = waiting L x"
  by (auto simp: waiting_def)

text \<open>A thread that blocks on one list does not disturb another.\<close>

lemma block_ring_other:
  assumes ok: "kernel_ok L k" and t: "thread_state k t = RT_THREAD_READY"
    and x: "wait_head x" and y: "wait_head y" "y \<noteq> x"
  shows "block_ring x fl time t L k y = L y"
proof -
  have ns: "thread_state k t \<noteq> RT_THREAD_SUSPEND" using t by simp
  have 1: "removeAll (Tlist t) (L y) = L y" by (rule without_waiting [OF ok ns y(1)])
  have 2: "removeAll (Row v) (L y) = L y" for v
    unfolding waiting_map [OF ok y(1)] by (rule removeAll_id) auto
  have 3: "y \<noteq> Timer_head" using y(1) by auto
  show ?thesis using y(2) 1 2 3
    by (auto simp: block_ring_def start_ring_def wait_ring_def Let_def)
qed

lemma waiting_block_other:
  assumes "kernel_ok L k" "thread_state k t = RT_THREAD_READY" "wait_head x" "wait_head y" "y \<noteq> x"
  shows "waiting (block_ring x fl time t L k) y = waiting L y"
  using block_ring_other [OF assms] by (simp add: waiting_def)

lemma ipc_flag_frame [simp]:
  "(\<And>t. ob \<noteq> Obj_timer t) \<Longrightarrow> ipc_flag (block_thread x fl time t L k) ob = ipc_flag k ob"
  "(\<And>t. ob \<noteq> Obj_timer t) \<Longrightarrow> ipc_flag (resume_thread t k) ob = ipc_flag k ob"
  "ipc_flag (threads_update g k) ob = ipc_flag k ob"
  by (auto simp: ipc_flag_def block_thread_def Let_def begin_timer_def resume_thread_def
      stop_timer_def take_off_def)

lemma ipc_ok_frame [simp]:
  "(\<And>t. ob \<noteq> Obj_timer t) \<Longrightarrow> ipc_ok (block_thread x fl time t L k) ob = ipc_ok k ob"
  "(\<And>t. ob \<noteq> Obj_timer t) \<Longrightarrow> ipc_ok (resume_thread t k) ob = ipc_ok k ob"
  "ipc_ok (threads_update g k) ob = ipc_ok k ob"
  "ipc_ok (switch_to p u k) ob = ipc_ok k ob"
  "ipc_ok (sems_update f1 k) ob = ipc_ok k ob" "ipc_ok (mutexes_update f2 k) ob = ipc_ok k ob"
  "ipc_ok (events_update f3 k) ob = ipc_ok k ob" "ipc_ok (mailboxes_update f4 k) ob = ipc_ok k ob"
  "ipc_ok (mqs_update f5 k) ob = ipc_ok k ob" "ipc_ok (mempools_update f6 k) ob = ipc_ok k ob"
  "ipc_ok (mem_update f7 k) ob = ipc_ok k ob"
proof -
  have sw: "live (switch_to p u k) = live k"
    by (simp add: fun_eq_iff live_def rt_object_get_type_def)
  show "ipc_ok (switch_to p u k) ob = ipc_ok k ob"
    unfolding ipc_ok_def sw by (simp add: ipc_flag_def)
qed (simp_all add: ipc_ok_def, simp_all add: live_def rt_object_get_type_def ipc_flag_def)

lemma ipc_ok_resume_each [simp]:
  "(\<And>t. ob \<noteq> Obj_timer t) \<Longrightarrow> ipc_ok (resume_each us k) ob = ipc_ok k ob"
  by (induction us arbitrary: k) simp_all

lemma switch_facts [simp]:
  "live (switch_to p u k) = live k" "active (switch_to p u k) = active k"
  by (simp_all add: fun_eq_iff live_def rt_object_get_type_def active_def timer_flag_def)

lemma current_some_switch:
  "rt_current_thread k \<noteq> None \<Longrightarrow> rt_current_thread (switch_to p u k) \<noteq> None"
  by (simp add: switch_to_def)

lemma current_after_switch:
  "rt_scheduler_lock_nest k = 0 \<Longrightarrow> rt_current_thread (switch_to p u k) = Some u"
  by (simp add: switch_to_def)

section \<open>Who runs after a call\<close>

lemma cpu_ok_cong:
  assumes "rt_thread_switch_interrupt_flag k' = rt_thread_switch_interrupt_flag k"
    "cpu_context k' = cpu_context k" "rt_current_thread k' = rt_current_thread k"
    "rt_interrupt_to_thread k' = rt_interrupt_to_thread k"
    "rt_interrupt_from_thread k' = rt_interrupt_from_thread k"
    "rt_interrupt_nest k' = rt_interrupt_nest k"
  shows "cpu_ok k' = cpu_ok k"
  unfolding cpu_ok_def assms ..

lemma runs_highest_switch:
  "rt_scheduler_lock_nest k = 0 \<Longrightarrow> is_next_thread L p t \<Longrightarrow> runs_highest L (switch_to p t k)"
  by (auto simp: runs_highest_def current_after_switch)

lemma cpu_ok_frame:
  "cpu_ok (block_thread x fl time t L k) = cpu_ok k" "cpu_ok (resume_thread t k) = cpu_ok k"
  "cpu_ok (threads_update f k) = cpu_ok k" "cpu_ok (sems_update g k) = cpu_ok k"
proof -
  show "cpu_ok (block_thread x fl time t L k) = cpu_ok k"
    by (rule cpu_ok_cong) (simp_all add: block_thread_def Let_def begin_timer_def enqueue_thread_def
        suspend_thread_def remove_ready_def)
  show "cpu_ok (resume_thread t k) = cpu_ok k"
    by (rule cpu_ok_cong) (simp_all add: resume_thread_def insert_ready_def stop_timer_def take_off_def)
qed (rule cpu_ok_cong; simp)+

lemma block_timer_facts:
  "remaining (block_thread x fl time t L k) y =
     (if 0 < sint time \<and> y = Thread_timer t then unat time else remaining k y)"
  "one_shot (block_thread x fl time t L k) = one_shot k"
  "timeout_func (timers (block_thread x fl time t L k) y) = timeout_func (timers k y)"
  "y \<noteq> Thread_timer t \<Longrightarrow> init_tick (timers (block_thread x fl time t L k) y) = init_tick (timers k y)"
proof -
  have r: "remaining (enqueue_thread x fl t L k) = remaining k"
    by (simp add: remaining_def fun_eq_iff)
  have o: "one_shot (enqueue_thread x fl t L k) = one_shot k"
    by (simp add: enqueue_thread_def)
  show "remaining (block_thread x fl time t L k) y =
     (if 0 < sint time \<and> y = Thread_timer t then unat time else remaining k y)"
    by (simp add: block_thread_def Let_def r)
  show "one_shot (block_thread x fl time t L k) = one_shot k"
    by (simp add: block_thread_def Let_def o)
qed (simp_all add: block_thread_def Let_def)

lemma set_earlier_later: "insert t (set (earlier k n ts) \<union> set (later k n ts)) = insert t (set ts)"
  using earlier_later [of k n ts] by (metis set_append)

lemma block_ring_timers:
  assumes ok: "kernel_ok L k" and x: "wait_head x"
  shows "set (timer_list (block_ring x fl time t L k)) =
      (if 0 < sint time then insert (Thread_timer t) (set (timer_list L)) else set (timer_list L))"
    "L Timer_tmp_head = [] \<Longrightarrow> block_ring x fl time t L k Timer_tmp_head = []"
proof -
  let ?k = "upd_timer (Thread_timer t) (\<lambda>tm. tm\<lparr>init_tick := time\<rparr>) (enqueue_thread x fl t L k)"
  let ?L = "wait_ring x fl k t L" and ?T = "Thread_timer t"
  have "Tlist t \<notin> set (L Timer_head)" using timers_okD(2) [OF kernel_okD(2) [OF ok]] by auto
  then have tl: "timer_list ?L = timer_list L"
    by (simp add: timer_list_def timer_list_wait_ring [OF x] removeAll_id)
  have "timer_list (start_ring ?k ?T ?L) = (let n = unat time; ts = removeAll ?T (timer_list L)
      in earlier ?k n ts @ ?T # later ?k n ts)"
    by (intro timer_list_map) (simp add: start_ring_def Let_def tl)
  then have "set (timer_list (start_ring ?k ?T ?L)) = insert ?T (set (removeAll ?T (timer_list L)))"
    by (simp add: Let_def set_earlier_later)
  then show "set (timer_list (block_ring x fl time t L k)) =
      (if 0 < sint time then insert (Thread_timer t) (set (timer_list L)) else set (timer_list L))"
    using tl by (auto simp: block_ring_def)
  have "x \<noteq> Timer_tmp_head" using x by auto
  then show "block_ring x fl time t L k Timer_tmp_head = []" if "L Timer_tmp_head = []"
    using that by (simp add: block_ring_def start_ring_def wait_ring_def Let_def)
qed

lemma switch_one_shot [simp]: "one_shot (switch_to p t k) = one_shot k"
    "remaining (switch_to p t k) = remaining k"
  by (simp_all add: fun_eq_iff one_shot_def timer_flag_def remaining_def)

text \<open>What a call does to the threads and the processor when it wakes the first of the waiting
  threads \<open>ws\<close>, or none: that thread alone becomes ready, and then the highest ready thread runs
  (unless the scheduler is locked).\<close>

definition woke :: "tid list \<Rightarrow> (node \<Rightarrow> node list) \<Rightarrow> kernel \<Rightarrow> kernel \<Rightarrow> bool" where
  "woke ws L' k k' \<longleftrightarrow>
     (\<forall>v. thread_state k' v = (if ws \<noteq> [] \<and> v = hd ws then RT_THREAD_READY else thread_state k v)) \<and>
     (if ws = [] then rt_current_thread k' = rt_current_thread k
      else rt_scheduler_lock_nest k = 0 \<longrightarrow> rt_current_thread k' \<noteq> None \<and> runs_highest L' k') \<and>
     (cpu_ok k \<longrightarrow> cpu_ok k')"

text \<open>What a call does when the calling thread \<open>t\<close> waits: it alone is suspended, with its timer
  running for \<open>time\<close> ticks exactly when \<open>time\<close> is positive, and the highest of the other ready
  threads runs (unless the scheduler is locked).\<close>

definition gave_up :: "tid \<Rightarrow> u32 \<Rightarrow> (node \<Rightarrow> node list) \<Rightarrow> kernel \<Rightarrow> kernel \<Rightarrow> bool" where
  "gave_up t time L' k k' \<longleftrightarrow>
     (\<forall>v. thread_state k' v = (if v = t then RT_THREAD_SUSPEND else thread_state k v)) \<and>
     (Thread_timer t \<in> set (timer_list L') \<longleftrightarrow> 0 < sint time) \<and>
     (0 < sint time \<longrightarrow> remaining k' (Thread_timer t) = unat time) \<and>
     (rt_scheduler_lock_nest k = 0 \<longrightarrow>
        (\<exists>u p. rt_current_thread k' = Some u \<and> u \<noteq> t \<and> is_next_thread L' p u)) \<and>
     (cpu_ok k \<longrightarrow> cpu_ok k')"

text \<open>The effect of a call that either ends, waking the first of \<open>ws\<close> if it succeeded, or
  waits.\<close>

definition call_effect ::
  "'f outcome \<Rightarrow> tid \<Rightarrow> u32 \<Rightarrow> tid list \<Rightarrow> (node \<Rightarrow> node list) \<Rightarrow> kernel \<Rightarrow> kernel \<Rightarrow> bool" where
  "call_effect r t time ws L' k k' = (case r of
     Done e \<Rightarrow> woke (if e = RT_EOK then ws else []) L' k k'
   | Blocked _ \<Rightarrow> gave_up t time L' k k')"

lemma call_effect_simps [simp]:
  "call_effect (Done e) t time ws L' k k' = woke (if e = RT_EOK then ws else []) L' k k'"
  "call_effect (Blocked fr) t time ws L' k k' = gave_up t time L' k k'"
  by (simp_all add: call_effect_def)

lemma woke_none: "woke [] L k k"
  by (simp add: woke_def)

text \<open>Both depend on these parts of the first state only.\<close>

lemma effect_cong:
  assumes "thread_state k1 = thread_state k" "rt_current_thread k1 = rt_current_thread k"
    "rt_scheduler_lock_nest k1 = rt_scheduler_lock_nest k" "cpu_ok k1 = cpu_ok k"
  shows "woke ws L' k1 k' = woke ws L' k k'" "gave_up t time L' k1 k' = gave_up t time L' k k'"
  by (simp_all add: woke_def gave_up_def assms)

lemma woke_resume:
  assumes nx: "is_next_thread (resume_ring k t L) p u" and c: "rt_current_thread k \<noteq> None"
  shows "woke (t # ts) (resume_ring k t L) k (switch_to p u (resume_thread t k))"
  using runs_highest_switch [OF _ nx, of "resume_thread t k"] c
    cpu_ok_switch [of "resume_thread t k" p u] current_some_switch [of "resume_thread t k" p u]
  by (simp add: woke_def cpu_ok_frame)

lemma gave_up_block:
  assumes ok: "kernel_ok L k" and t: "thread_state k t = RT_THREAD_READY" and x: "wait_head x"
    and time: "0 < sint time \<Longrightarrow> time < HALF_TICK_MAX"
    and nx: "is_next_thread (block_ring x fl time t L k) p u"
  shows "gave_up t time (block_ring x fl time t L k) k (switch_to p u (block_thread x fl time t L k))"
proof -
  let ?L = "block_ring x fl time t L k" and ?b = "block_thread x fl time t L k"
  have "thread_state ?b u = RT_THREAD_READY"
    using next_thread_ready [OF kernel_okD(1) [OF start_wait_timer_closed(2) [OF ok t x time]] nx] by simp
  then have u: "u \<noteq> t" by auto
  have "\<not> active k (Thread_timer t)" using kernel_ok_active [OF ok] t by fastforce
  then have "Thread_timer t \<notin> set (timer_list L)"
    using timers_okD(4) [OF kernel_okD(2) [OF ok]] by blast
  then have "Thread_timer t \<in> set (timer_list ?L) \<longleftrightarrow> 0 < sint time"
    by (simp add: block_ring_timers(1) [OF ok x])
  moreover have "0 < sint time \<Longrightarrow> remaining (switch_to p u ?b) (Thread_timer t) = unat time"
    by (simp add: block_timer_facts(1))
  moreover have "rt_scheduler_lock_nest k = 0 \<Longrightarrow> rt_current_thread (switch_to p u ?b) = Some u"
    by (simp add: current_after_switch)
  ultimately show ?thesis
    using u nx cpu_ok_switch [of ?b p u] unfolding gave_up_def by (auto simp: cpu_ok_frame)
qed

section \<open>Which thread runs next\<close>

text \<open>A woken thread preempts the running one exactly when its priority is higher.\<close>

lemma resume_ring_ready:
  assumes ok: "kernel_ok L k" and t: "thread_state k t = RT_THREAD_SUSPEND"
  shows "resume_ring k t L (Ready_head i) =
    (if i = prio k t then L (Ready_head i) @ [Tlist t] else L (Ready_head i))"
proof -
  have "Tlist t \<notin> set (L (Ready_head i))" for i
    using queue_ok_member [OF kernel_okD(1) [OF ok], of "Tlist t" i] t by auto
  moreover have "Row v \<notin> set (L (Ready_head i))" for v i
    using queue_ok_member [OF kernel_okD(1) [OF ok], of "Row v" i] by auto
  ultimately show ?thesis by (simp add: resume_ring_def removeAll_id)
qed

lemma next_after_resume:
  assumes ok: "kernel_ok L k" and t: "thread_state k t = RT_THREAD_SUSPEND"
    and c: "is_next_thread L p c"
  shows "is_next_thread (resume_ring k t L)
    (if prio k t < p then prio k t else p) (if prio k t < p then t else c)"
  using c unfolding is_next_thread_def by (auto simp: resume_ring_ready [OF ok t])

lemma next_after_resume_ex:
  assumes ok: "kernel_ok L k" and t: "thread_state k t = RT_THREAD_SUSPEND"
  shows "\<exists>p u. is_next_thread (resume_ring k t L) p u"
  by (rule next_thread_exists [OF kernel_okD(1) [OF kernel_ok_resume [OF ok t]], of "prio k t"])
    (simp add: resume_ring_ready [OF ok t])

text \<open>When a thread blocks, any other ready thread guarantees that there is a next one.\<close>

lemma block_ring_ready:
  assumes ok: "kernel_ok L k" and t: "thread_state k t = RT_THREAD_READY" and x: "wait_head x"
  shows "block_ring x fl time t L k (Ready_head i) = removeAll (Tlist t) (L (Ready_head i))"
proof -
  have "Row v \<notin> set (L (Ready_head i))" for v i
    using queue_ok_member [OF kernel_okD(1) [OF ok], of "Row v" i] by auto
  moreover have "Ready_head i \<noteq> x" using x by auto
  ultimately show ?thesis
    by (auto simp: block_ring_def start_ring_def wait_ring_def Let_def removeAll_id)
qed

lemma next_after_block:
  assumes ok: "kernel_ok L k" and t: "thread_state k t = RT_THREAD_READY" and x: "wait_head x"
    and time: "sint time > 0 \<Longrightarrow> time < HALF_TICK_MAX"
    and u: "thread_state k u = RT_THREAD_READY" "u \<noteq> t"
  shows "\<exists>p v. is_next_thread (block_ring x fl time t L k) p v"
proof (rule next_thread_exists [OF kernel_okD(1) [OF start_wait_timer_closed(2) [OF ok t x time]]])
  have "Tlist u \<in> set (removeAll (Tlist t) (L (Ready_head (prio k u))))"
    using queue_ok_ready [OF kernel_okD(1) [OF ok] _ u(1)] u(2) by simp
  then show "block_ring x fl time t L k (Ready_head (prio k u)) \<noteq> []"
    unfolding block_ring_ready [OF ok t x] by (metis empty_iff list.set(1))
qed

text \<open>Waking up the first thread of a list, if there is one: the end of each transfer.\<close>

lemma wake_first:
  assumes ok: "kernel_ok L k" and x: "wait_head x" and c: "rt_current_thread k \<noteq> None"
  shows "\<exists>L' k'. (if \<not> rt_list_isempty x (lists k)
      then do { (_, k) \<leftarrow> rt_ipc_list_resume x k; rt_schedule k } else Some k) = Some k' \<and>
    kernel_ok L' k' \<and> waiting L' x = tl (waiting L x) \<and>
    (\<forall>y. wait_head y \<longrightarrow> y \<noteq> x \<longrightarrow> waiting L' y = waiting L y) \<and>
    mailboxes k' = mailboxes k \<and> mqs k' = mqs k \<and> mempools k' = mempools k \<and> mutexes k' = mutexes k \<and>
    mem k' = mem k \<and> rt_current_thread k' \<noteq> None \<and> live k' = live k \<and>
    (\<forall>v. current_priority (threads k' v) = current_priority (threads k v)) \<and>
    (\<forall>m. ipc_ok k' (Obj_mutex m) = ipc_ok k (Obj_mutex m)) \<and>
    (\<forall>b. ipc_ok k' (Obj_mb b) = ipc_ok k (Obj_mb b)) \<and>
    (\<forall>q. ipc_ok k' (Obj_mq q) = ipc_ok k (Obj_mq q)) \<and>
    (\<forall>t. thread_state k' t = (if waiting L x \<noteq> [] \<and> t = hd (waiting L x)
       then RT_THREAD_READY else thread_state k t)) \<and>
    woke (waiting L x) L' k k'"
proof (cases "waiting L x")
  case Nil
  then show ?thesis using ok c waiting_empty [OF ok x] woke_none
    by (intro exI [of _ L] exI [of _ k]) simp
next
  case (Cons t us)
  note r = list_resume_closed [OF ok x Cons]
  obtain p u where nx: "is_next_thread (resume_ring k t L) p u"
    using next_after_resume_ex [OF ok r(3)] by blast
  have s: "rt_schedule (resume_thread t k) = Some (switch_to p u (resume_thread t k))"
    using c by (intro rt_schedule_closed [OF kernel_okD(1) [OF r(2)] nx]) simp
  have t: "t \<notin> set us" using waiting_distinct [OF ok x] Cons by simp
  have "waiting (resume_ring k t L) y = waiting L y" if y: "wait_head y" "y \<noteq> x" for y
  proof -
    have "t \<notin> set (waiting L y)"
    proof
      assume "t \<in> set (waiting L y)"
      then have "Tlist t \<in> set (L y)" using waiting_map [OF ok y(1)] by (metis image_eqI set_map)
      moreover have "Tlist t \<in> set (L x)" using waiting_map [OF ok x] Cons by simp
      ultimately show False
        using rings_unique [OF kernel_okD(4) [OF ok] wait_head_is_head [OF x] wait_head_is_head [OF y(1)]]
          y(2) by blast
    qed
    then show ?thesis using waiting_resume [OF ok y(1)] by (simp add: removeAll_id)
  qed
  moreover have "rt_current_thread (switch_to p u (resume_thread t k)) \<noteq> None"
    using c by (simp add: switch_to_def)
  ultimately show ?thesis
    using waiting_empty [OF ok x] Cons r s waiting_resume [OF ok x, of t] t woke_resume [OF nx c, of us]
    by (intro exI [of _ "resume_ring k t L"] exI [of _ "switch_to p u (resume_thread t k)"])
      (simp add: removeAll_id)
qed

text \<open>The blocking step of the waiting calls: clear the error, wait, switch to another thread.\<close>

definition block_call :: "node \<Rightarrow> tid \<Rightarrow> u8 \<Rightarrow> u32 \<Rightarrow> kernel \<Rightarrow> kernel option" where
  "block_call x t fl time k = do {
     let k = upd_thread t (\<lambda>th. th\<lparr>error := RT_EOK\<rparr>) k;
     k \<leftarrow> ipc_wait x t fl time k;
     rt_schedule k
   }"

lemma block_switch_ok:
  assumes ok: "kernel_ok L k" and t: "rt_current_thread k = Some t" "thread_state k t = RT_THREAD_READY"
    and x: "wait_head x" and time: "sint time > 0 \<Longrightarrow> time < HALF_TICK_MAX"
    and u: "thread_state k u = RT_THREAD_READY" "u \<noteq> t"
  shows "\<exists>L' k'. rt_schedule (block_thread x fl time t L (upd_thread t (\<lambda>th. th\<lparr>error := RT_EOK\<rparr>) k)) = Some k' \<and>
    kernel_ok L' k' \<and>
    waiting L' x = wait_before fl k t (waiting L x) @ t # wait_after fl k t (waiting L x) \<and>
    (\<forall>y. wait_head y \<longrightarrow> y \<noteq> x \<longrightarrow> waiting L' y = waiting L y) \<and>
    mailboxes k' = mailboxes k \<and> mqs k' = mqs k \<and> mempools k' = mempools k \<and> mutexes k' = mutexes k \<and>
    mem k' = mem k \<and> rt_tick k' = rt_tick k \<and> rt_current_thread k' \<noteq> None \<and> live k' = live k \<and>
    (\<forall>b. ipc_ok k' (Obj_mb b) = ipc_ok k (Obj_mb b)) \<and>
    (\<forall>q. ipc_ok k' (Obj_mq q) = ipc_ok k (Obj_mq q)) \<and>
    (\<forall>m. ipc_ok k' (Obj_mutex m) = ipc_ok k (Obj_mutex m)) \<and>
    (\<forall>e. ipc_ok k' (Obj_event e) = ipc_ok k (Obj_event e)) \<and> events k' = events k \<and>
    (\<forall>v. event_set (threads k' v) = event_set (threads k v) \<and>
         event_info (threads k' v) = event_info (threads k v)) \<and>
    error (threads k' t) = RT_EOK \<and>
    (\<forall>v. current_priority (threads k' v) = current_priority (threads k v)) \<and>
    (\<forall>v. thread_state k' v = (if v = t then RT_THREAD_SUSPEND else thread_state k v)) \<and>
    gave_up t time L' k k'"
proof -
  let ?k = "upd_thread t (\<lambda>th. th\<lparr>error := RT_EOK\<rparr>) k"
  let ?b = "block_thread x fl time t L ?k" and ?L = "block_ring x fl time t L ?k"
  have ok': "kernel_ok L ?k" "thread_state ?k t = RT_THREAD_READY" "thread_state ?k u = RT_THREAD_READY"
    using ok t u by simp_all
  have w: "kernel_ok ?L ?b" using start_wait_timer_closed [OF ok'(1,2) x time] by blast
  obtain p v where nx: "is_next_thread ?L p v"
    using next_after_block [OF ok'(1,2) x time ok'(3) u(2)] by blast
  have s: "rt_schedule ?b = Some (switch_to p v ?b)"
    using t by (intro rt_schedule_closed [OF kernel_okD(1) [OF w] nx]) simp
  have "current_priority (threads ?k v) = current_priority (threads k v)" for v by simp
  then have wb: "wait_before fl ?k t us = wait_before fl k t us"
    "wait_after fl ?k t us = wait_after fl k t us" for us
    by (simp_all add: wait_before_def wait_after_def)
  have c: "rt_current_thread (switch_to p v ?b) \<noteq> None"
    by (rule current_some_switch) (use t in simp)
  have e: "error (threads (suspend_thread t ?k) t) = RT_EOK" by simp
  have l: "live ?k = live k" by (simp add: fun_eq_iff live_def rt_object_get_type_def)
  have "thread_state ?k = thread_state k" by (simp add: fun_eq_iff)
  then have g: "gave_up t time ?L k (switch_to p v ?b)"
    using gave_up_block [OF ok'(1,2) x time nx] effect_cong(2) [of ?k k] by (simp add: cpu_ok_frame)
  show ?thesis
    by (intro exI [of _ ?L] exI [of _ "switch_to p v ?b"])
      (use s w c e g waiting_block [OF ok'(1,2) x] waiting_block_other [OF ok'(1,2) x] in
        \<open>simp add: wb l\<close>)
qed

lemma block_call_ok:
  assumes ok: "kernel_ok L k" and t: "rt_current_thread k = Some t" "thread_state k t = RT_THREAD_READY"
    and x: "wait_head x" and fl: "fl = RT_IPC_FLAG_FIFO \<or> fl = RT_IPC_FLAG_PRIO"
    and time: "sint time > 0 \<Longrightarrow> time < HALF_TICK_MAX"
    and u: "thread_state k u = RT_THREAD_READY" "u \<noteq> t"
  shows "\<exists>L' k'. block_call x t fl time k = Some k' \<and> kernel_ok L' k' \<and>
    waiting L' x = wait_before fl k t (waiting L x) @ t # wait_after fl k t (waiting L x) \<and>
    (\<forall>y. wait_head y \<longrightarrow> y \<noteq> x \<longrightarrow> waiting L' y = waiting L y) \<and>
    mailboxes k' = mailboxes k \<and> mqs k' = mqs k \<and> mempools k' = mempools k \<and> mutexes k' = mutexes k \<and>
    mem k' = mem k \<and> rt_tick k' = rt_tick k \<and> rt_current_thread k' \<noteq> None \<and> live k' = live k \<and>
    (\<forall>b. ipc_ok k' (Obj_mb b) = ipc_ok k (Obj_mb b)) \<and>
    (\<forall>q. ipc_ok k' (Obj_mq q) = ipc_ok k (Obj_mq q)) \<and>
    (\<forall>m. ipc_ok k' (Obj_mutex m) = ipc_ok k (Obj_mutex m)) \<and>
    (\<forall>e. ipc_ok k' (Obj_event e) = ipc_ok k (Obj_event e)) \<and> events k' = events k \<and>
    (\<forall>v. event_set (threads k' v) = event_set (threads k v) \<and>
         event_info (threads k' v) = event_info (threads k v)) \<and>
    error (threads k' t) = RT_EOK \<and>
    (\<forall>v. current_priority (threads k' v) = current_priority (threads k v)) \<and>
    (\<forall>v. thread_state k' v = (if v = t then RT_THREAD_SUSPEND else thread_state k v)) \<and>
    gave_up t time L' k k'"
proof -
  let ?k = "upd_thread t (\<lambda>th. th\<lparr>error := RT_EOK\<rparr>) k"
  have "kernel_ok L ?k" "thread_state ?k t = RT_THREAD_READY" using ok t by simp_all
  then have "block_call x t fl time k = rt_schedule (block_thread x fl time t L ?k)"
    unfolding block_call_def Let_def using ipc_wait_closed(1) [OF _ _ x fl time] by simp
  then show ?thesis using block_switch_ok [OF ok t x time u, of fl] by simp
qed

text \<open>The place a thread takes in the queue of an object.\<close>

definition join_queue :: "kernel \<Rightarrow> obj_ptr \<Rightarrow> tid \<Rightarrow> tid list \<Rightarrow> tid list" where
  "join_queue k ob t us = wait_before (ipc_flag k ob) k t us @ t # wait_after (ipc_flag k ob) k t us"

lemma set_wait_before_after:
  "set (wait_before fl k t us) \<union> set (wait_after fl k t us) = set us"
  using wait_before_after [of fl k t us] by (metis set_append)

lemma set_join_queue [simp]: "set (join_queue k ob t us) = insert t (set us)"
  using set_wait_before_after [of "ipc_flag k ob" k t us] by (auto simp: join_queue_def)

lemma join_queue_cong:
  assumes "ipc_flag k' ob = ipc_flag k ob"
    "\<And>v. v \<in> insert t (set us) \<Longrightarrow> current_priority (threads k' v) = current_priority (threads k v)"
  shows "join_queue k' ob t us = join_queue k ob t us"
proof -
  have "takeWhile (\<lambda>u. current_priority (threads k' u) \<le> current_priority (threads k' t)) us =
      takeWhile (\<lambda>u. current_priority (threads k u) \<le> current_priority (threads k t)) us"
    using assms(2) by (intro takeWhile_cong) auto
  moreover have "dropWhile (\<lambda>u. current_priority (threads k' u) \<le> current_priority (threads k' t)) us =
      dropWhile (\<lambda>u. current_priority (threads k u) \<le> current_priority (threads k t)) us"
    using assms(2) by (intro dropWhile_cong) auto
  ultimately show ?thesis by (simp add: join_queue_def wait_before_def wait_after_def assms(1))
qed

lemma clear_error_again:
  "error (threads k t) = RT_EOK \<Longrightarrow> upd_thread t (\<lambda>th. th\<lparr>error := RT_EOK\<rparr>) k = k"
proof -
  assume "error (threads k t) = RT_EOK"
  then have "(threads k t)\<lparr>error := RT_EOK\<rparr> = threads k t" by simp
  then have "(threads k)(t := (threads k t)\<lparr>error := RT_EOK\<rparr>) = threads k" by simp
  then show ?thesis by simp
qed

section \<open>A buffer between threads\<close>

text \<open>What mailboxes and message queues are to their users: the messages, oldest first, the waiting
  receivers and the waiting senders.  In the specifications \<open>join\<close> puts the caller in its place of
  a wait queue, and \<open>fr\<close> is its frame.\<close>

type_synonym 'm buffer_view = "'m list \<times> tid list \<times> tid list"

fun send_spec :: "nat \<Rightarrow> (tid list \<Rightarrow> tid list) \<Rightarrow> 'f \<Rightarrow> bool \<Rightarrow> 'm \<Rightarrow> 'm buffer_view \<Rightarrow>
    'f outcome \<times> 'm buffer_view" where
  "send_spec cap join fr wait v (ms, rs, ss) =
     (if length ms < cap then (Done RT_EOK, ms @ [v], tl rs, ss)
      else if wait then (Blocked fr, ms, rs, join ss)
      else (Done (- RT_EFULL), ms, rs, ss))"

fun recv_spec :: "(tid list \<Rightarrow> tid list) \<Rightarrow> 'f \<Rightarrow> bool \<Rightarrow> 'm buffer_view \<Rightarrow>
    'f outcome \<times> 'm option \<times> 'm buffer_view" where
  "recv_spec join fr wait (m # ms, rs, ss) = (Done RT_EOK, Some m, ms, rs, tl ss)"
| "recv_spec join fr wait ([], rs, ss) =
     (if wait then (Blocked fr, None, [], join rs, ss)
      else (Done (- RT_ETIMEOUT), None, [], rs, ss))"

end
