(* ===== verification/TimerCheck.thy ===== *)
theory TimerCheck
  imports IpcList
begin

text \<open>
  The timer interrupt of \<^verbatim>\<open>src/timer.c\<close>: \<open>rt_timer_check\<close> runs the timeout functions of the
  timers that are due.  What it relies on is the interface \<open>timeout_functions\<close>: a timeout
  function returns and keeps the invariants while its timer is on the temporary list.  Under
  that interface the loop ends, and it ends with no timer due; the interface is interpreted
  with \<open>rt_thread_timeout\<close>, the only timeout function of the kernel itself.
\<close>

section \<open>Timers that are due\<close>

definition due_timers :: "(node \<Rightarrow> node list) \<Rightarrow> kernel \<Rightarrow> timer_ptr list" where
  "due_timers L k = filter (\<lambda>t. remaining k t = 0) (timer_list L)"

text \<open>Timers that may expire: a periodic one has a period, and \<open>rt_thread_timeout\<close> only ever
  runs from the timer of its thread.\<close>

definition timeouts_ok :: "(timeout_fn \<Rightarrow> bool) \<Rightarrow> kernel \<Rightarrow> bool" where
  "timeouts_ok callable k \<longleftrightarrow>
     (\<forall>x. active k x \<longrightarrow> callable (timeout_func (timers k x)) \<and>
        (\<not> one_shot k x \<longrightarrow> 0 < init_tick (timers k x) \<and> init_tick (timers k x) < HALF_TICK_MAX) \<and>
        (\<forall>t. timeout_func (timers k x) = Rt_thread_timeout t \<longrightarrow> x = Thread_timer t))"

lemma timeouts_okD:
  assumes "timeouts_ok callable k" "active k x"
  shows "callable (timeout_func (timers k x))"
    "\<not> one_shot k x \<Longrightarrow> 0 < init_tick (timers k x) \<and> init_tick (timers k x) < HALF_TICK_MAX"
    "timeout_func (timers k x) = Rt_thread_timeout t \<Longrightarrow> x = Thread_timer t"
  using assms unfolding timeouts_ok_def by blast+

text \<open>A timer whose remaining time is 0 is the one the comparison of the loop accepts.\<close>

lemma due_compare:
  assumes "remaining k t < unat HALF_TICK_MAX"
  shows "rt_tick k - timeout_tick (timers k t) < HALF_TICK_MAX \<longleftrightarrow> remaining k t = 0"
proof -
  let ?x = "timeout_tick (timers k t) - rt_tick k"
  have e: "rt_tick k - timeout_tick (timers k t) = - ?x" by simp
  show ?thesis
  proof (cases "?x = 0")
    case False
    then have "unat (- ?x) = 2 ^ 32 - unat ?x"
      using unat_diff_wrap [of 0 ?x] by (simp add: unat_eq_0 unat_gt_0)
    then show ?thesis
      using assms False unfolding e word_less_nat_alt half_tick remaining_def
      by (auto simp: unat_eq_0)
  qed (simp add: e remaining_def half_tick word_less_nat_alt)
qed

section \<open>The step before the call\<close>

definition expire :: "timer_ptr \<Rightarrow> kernel \<Rightarrow> kernel" where
  "expire t k = upd_lists (rt_list_insert_after Timer_tmp_head (Row t))
     (if one_shot k t then take_off t k else upd_lists (rt_list_remove (Row t)) k)"

definition expire_ring :: "timer_ptr \<Rightarrow> (node \<Rightarrow> node list) \<Rightarrow> node \<Rightarrow> node list" where
  "expire_ring t L = (without (Row t) L)(Timer_tmp_head := [Row t])"

lemma expire_frame [simp, frame]:
  "threads (expire t k) = threads k" "timers (expire t k) = timers k"
  "rt_tick (expire t k) = rt_tick k" "sems (expire t k) = sems k"
  "mutexes (expire t k) = mutexes k" "events (expire t k) = events k"
  "mailboxes (expire t k) = mailboxes k" "mqs (expire t k) = mqs k"
  "mempools (expire t k) = mempools k" "mem (expire t k) = mem k"
  "rt_current_thread (expire t k) = rt_current_thread k"
  "rt_thread_ready_priority_group (expire t k) = rt_thread_ready_priority_group k"
  "rt_scheduler_lock_nest (expire t k) = rt_scheduler_lock_nest k"
  "rt_interrupt_nest (expire t k) = rt_interrupt_nest k"
  "lists (expire t k) =
     rt_list_insert_after Timer_tmp_head (Row t) (rt_list_remove (Row t) (lists k))"
  "live (expire t k) ob = live k ob" "remaining (expire t k) = remaining k"
  "active (expire t k) u \<longleftrightarrow> (u = t \<longrightarrow> \<not> one_shot k t) \<and> active k u"
  "one_shot (expire t k) = one_shot k" "timer_live (expire t k) = timer_live k"
  "thread_state (expire t k) = thread_state k"
  by (simp_all add: expire_def live_def rt_object_get_type_def remaining_def fun_eq_iff active_def
      one_shot_def timer_flag_def timer_live_def thread_state_def take_off_def and.assoc)

text \<open>
  The state in which the timeout function of timer \<open>t\<close> runs: the invariants hold but for \<open>t\<close>,
  which is alone on the temporary list.
\<close>

definition in_check :: "timer_ptr \<Rightarrow> (node \<Rightarrow> node list) \<Rightarrow> kernel \<Rightarrow> bool" where
  "in_check t L k \<longleftrightarrow> queue_ok {} L k \<and> timers_ok {t} L k \<and> threads_ok L k \<and>
     L Timer_tmp_head = [Row t] \<and> rt_current_thread k \<noteq> None \<and> live k (Obj_timer t)"

lemma due_in_list: "x \<in> set (due_timers L k) \<longleftrightarrow> x \<in> set (timer_list L) \<and> remaining k x = 0"
  by (auto simp: due_timers_def)

lemma expire_ring_simps [simp]:
  "expire_ring t L (Ready_head i) = removeAll (Row t) (L (Ready_head i))"
  "expire_ring t L Timer_head = removeAll (Row t) (L Timer_head)"
  "expire_ring t L Timer_tmp_head = [Row t]"
  "wait_head x \<Longrightarrow> expire_ring t L x = removeAll (Row t) (L x)"
  by (auto simp: expire_ring_def)

lemma row_elsewhere:
  assumes "timers_ok P L k" "is_head x" "x \<noteq> Timer_head" "x \<noteq> Timer_tmp_head"
  shows "removeAll (Row t) (L x) = L x"
  using timers_okD(6) [OF assms(1,2), of t] assms(3,4) by (intro removeAll_id) blast

lemma timer_list_expire:
  assumes "timers_ok P L k"
  shows "timer_list (expire_ring t L) = removeAll t (timer_list L)"
  using timer_list_remove [OF timers_okD(2) [OF assms], of t] by (simp add: timer_list_def)

lemma timers_ok_cong:
  assumes "lists k' = lists k" "remaining k' = remaining k" "active k' = active k" "live k' = live k"
  shows "timers_ok P L k' = timers_ok P L k"
  unfolding timers_ok_def by (simp add: assms)

lemma rings_expire:
  assumes "rings is_head (lists k) L" "L Timer_tmp_head = []"
  shows "rings is_head (lists (expire t k)) (expire_ring t L)"
proof -
  have r: "rings is_head (rt_list_remove (Row t) (lists k)) (without (Row t) L)"
    using rings_remove [OF assms(1), of "Row t"] by simp
  show ?thesis
    using rings_insert_after [OF r, of Timer_tmp_head "Row t"] assms(2)
    by (simp add: expire_ring_def)
qed

lemma in_check_expire:
  assumes ok: "kernel_ok L k" and tmp: "L Timer_tmp_head = []" and c: "rt_current_thread k \<noteq> None"
    and t: "t \<in> set (timer_list L)"
  shows "in_check t (expire_ring t L) (expire t k)"
proof -
  note o = kernel_okD [OF ok]
  note to = timers_okD [OF o(2)]
  note tl = timer_list_expire [OF o(2), of t]
  note r = rings_expire [OF o(4) tmp, of t]
  have "queue_ok {} (expire_ring t L) (expire t k)"
    using row_elsewhere [OF o(2)] by (intro queue_ok_frame [OF o(1) r]) simp_all
  moreover have "timers_ok {t} (expire_ring t L) (expire t k)"
    unfolding timers_ok_def tl
  proof (intro conjI allI ballI impI)
    show "expire_ring t L Timer_head = map Row (removeAll t (timer_list L))"
      by (metis expire_ring_simps(2) to(2) removeAll_map_Row)
    show "sorted (map (remaining (expire t k)) (removeAll t (timer_list L)))"
      using sorted_map_removeAll [OF to(3)] by simp
    show "x = Timer_head \<or> x = Timer_tmp_head \<and> u \<in> {t}"
      if "is_head x" "Row u \<in> set (expire_ring t L x)" for x u
      using that to(6) [of x u] by (auto simp: expire_ring_def split: if_splits)
  qed (use r to in auto)
  moreover have "threads_ok (expire_ring t L) (expire t k)"
    using o(3) by (intro threads_ok_frame [OF o(3)]) (auto simp: thread_state_def)
  ultimately show ?thesis using c to(4) [OF t] by (simp add: in_check_def)
qed

section \<open>What a timeout function may do\<close>

text \<open>
  \<open>call_ok\<close>: the state after a timeout function that ran for timer \<open>t\<close>.  It may take timers
  off the list, wake threads and start timers that are not yet due.  If it left its own timer
  on the temporary list, the timer is active only if it is periodic.
\<close>

definition pending :: "tid \<Rightarrow> (node \<Rightarrow> node list) \<Rightarrow> kernel \<Rightarrow> bool" where
  "pending u L k \<longleftrightarrow> Thread_timer u \<in> set (timer_list L)"

definition call_ok ::
  "(timeout_fn \<Rightarrow> bool) \<Rightarrow> timer_ptr \<Rightarrow> (node \<Rightarrow> node list) \<Rightarrow> kernel \<Rightarrow>
     (node \<Rightarrow> node list) \<Rightarrow> kernel \<Rightarrow> bool" where
  "call_ok callable t L k L' k' \<longleftrightarrow>
     queue_ok {} L' k' \<and> timers_ok {t} L' k' \<and> threads_ok L' k' \<and>
     (if L' Timer_tmp_head = [Row t] then active k' t \<longrightarrow> \<not> one_shot k' t
      else L' Timer_tmp_head = [] \<and> timers_ok {} L' k') \<and>
     rt_current_thread k' \<noteq> None \<and> live k' (Obj_timer t) \<and> rt_tick k' = rt_tick k \<and>
     timeouts_ok callable k' \<and> set (due_timers L' k') \<subseteq> set (due_timers L k) \<and>
     (\<forall>u. thread_state k u = RT_THREAD_READY \<longrightarrow> thread_state k' u = RT_THREAD_READY) \<and>
     (\<forall>u. pending u L k \<longrightarrow> thread_state k' u = RT_THREAD_READY \<or>
        pending u L' k' \<and> remaining k' (Thread_timer u) = remaining k (Thread_timer u)) \<and>
     (\<forall>u. timeout_func (timers k t) = Rt_thread_timeout u \<longrightarrow> thread_state k' u = RT_THREAD_READY)"

text \<open>\<open>keeps\<close> is what a caller of \<open>rt_timer_check\<close> wants to know of the rest of the kernel;
  work on the timer list alone must keep it.\<close>

definition timer_work :: "(node \<Rightarrow> node list) \<Rightarrow> kernel \<Rightarrow> (node \<Rightarrow> node list) \<Rightarrow> kernel \<Rightarrow> bool" where
  "timer_work L k L' k' \<longleftrightarrow>
     (\<exists>h ts os r. k' = k\<lparr>lists := h, objects := os, timers := ts, random_nr := r\<rparr>) \<and>
     live k' = live k \<and> (\<forall>ob. (\<forall>u. ob \<noteq> Obj_timer u) \<longrightarrow> objects k' ob = objects k ob) \<and>
     (\<forall>u. active k' (Thread_timer u) \<longrightarrow> active k (Thread_timer u) \<and>
        remaining k' (Thread_timer u) = remaining k (Thread_timer u)) \<and>
     (\<forall>x. is_head x \<longrightarrow> x \<noteq> Timer_head \<longrightarrow> x \<noteq> Timer_tmp_head \<longrightarrow> L' x = L x)"

section \<open>The step after the call\<close>

definition settle :: "timer_ptr \<Rightarrow> (node \<Rightarrow> node list) \<Rightarrow> kernel \<Rightarrow> kernel" where
  "settle t L k =
     (if active k t
      then begin_timer t (start_pos (take_off t k) t (without (Row t) L)) (take_off t k)
      else upd_lists (rt_list_remove (Row t)) k)"

definition settle_ring :: "timer_ptr \<Rightarrow> (node \<Rightarrow> node list) \<Rightarrow> kernel \<Rightarrow> node \<Rightarrow> node list" where
  "settle_ring t L k =
     (if active k t then start_ring (take_off t k) t (without (Row t) L) else without (Row t) L)"

lemma settle_frame [simp, frame]:
  "threads (settle t L k) = threads k" "rt_tick (settle t L k) = rt_tick k"
  "rt_current_thread (settle t L k) = rt_current_thread k"
  "rt_thread_ready_priority_group (settle t L k) = rt_thread_ready_priority_group k"
  "live (settle t L k) = live k" "active (settle t L k) = active k"
  "one_shot (settle t L k) = one_shot k" "timer_live (settle t L k) = timer_live k"
  "thread_state (settle t L k) = thread_state k"
  "init_tick (timers (settle t L k) u) = init_tick (timers k u)"
  "timeout_func (timers (settle t L k) u) = timeout_func (timers k u)"
  "remaining (settle t L k) u =
     (if u = t \<and> active k t then unat (init_tick (timers k t)) else remaining k u)"
  by (simp_all add: settle_def fun_eq_iff thread_state_def timer_live_def) (auto simp: remaining_def)

lemma settle_ring_other:
  assumes "timers_ok P L k" "is_head x" "x \<noteq> Timer_head" "x \<noteq> Timer_tmp_head"
  shows "settle_ring t L k x = L x"
  using row_elsewhere [OF assms] assms(3) by (simp add: settle_ring_def start_ring_def Let_def)

lemma settle_ok:
  assumes c: "call_ok callable t L k L' k'" and tmp: "L' Timer_tmp_head = [Row t]"
  shows "kernel_ok (settle_ring t L' k') (settle t L' k')"
    "settle_ring t L' k' Timer_tmp_head = []"
proof -
  note c' = c [unfolded call_ok_def if_P [OF tmp]]
  have tm: "timers_ok {t} L' k'" using c' by blast
  have off: "timers_ok {} (without (Row t) L') (take_off t k')"
    using timers_ok_take_off [OF tm, of t] by simp
  have per: "init_tick (timers k' t) < HALF_TICK_MAX" if "active k' t"
    using c' that timeouts_okD(2) [of callable k' t] by blast
  have on: "timers_ok {} (settle_ring t L' k') (settle t L' k')"
  proof (cases "active k' t")
    case True
    then show ?thesis
      using timers_ok_start [OF off, of t] c' per by (simp add: settle_def settle_ring_def)
  next
    case False
    then have "timers_ok {} (without (Row t) L') (upd_lists (rt_list_remove (Row t)) k')
        = timers_ok {} (without (Row t) L') (take_off t k')"
      by (intro timers_ok_cong) (auto simp: fun_eq_iff live_def rt_object_get_type_def take_off_def
          remaining_def active_def timer_flag_def and.assoc)
    then have "timers_ok {} (without (Row t) L') (upd_lists (rt_list_remove (Row t)) k')"
      using off by simp
    then show ?thesis using False by (simp add: settle_def settle_ring_def)
  qed
  show "settle_ring t L' k' Timer_tmp_head = []"
    using tmp by (simp add: settle_ring_def start_ring_def Let_def)
  show "kernel_ok (settle_ring t L' k') (settle t L' k')"
    unfolding kernel_ok_def
  proof (intro conjI on)
    have q: "queue_ok {} L' k'" and th: "threads_ok L' k'" using c' by blast+
    show "queue_ok {} (settle_ring t L' k') (settle t L' k')"
      using settle_ring_other [OF tm]
      by (intro queue_ok_frame [OF q timers_okD(1) [OF on]]) simp_all
    show "threads_ok (settle_ring t L' k') (settle t L' k')"
    proof (rule threads_ok_frame [OF th])
      show "set (settle_ring t L' k' x) \<subseteq> set (L' x)" if "wait_head x" for x
      proof -
        have "x \<noteq> Timer_head" "x \<noteq> Timer_tmp_head" using that by auto
        then show ?thesis using settle_ring_other [OF tm wait_head_is_head [OF that]] by simp
      qed
    qed simp_all
  qed
qed

section \<open>One iteration of the loop\<close>

definition settled :: "timer_ptr \<Rightarrow> (node \<Rightarrow> node list) \<Rightarrow> kernel \<Rightarrow> kernel" where
  "settled t L k = (if L Timer_tmp_head = [Row t] then settle t L k else k)"

definition settled_ring :: "timer_ptr \<Rightarrow> (node \<Rightarrow> node list) \<Rightarrow> kernel \<Rightarrow> node \<Rightarrow> node list" where
  "settled_ring t L k = (if L Timer_tmp_head = [Row t] then settle_ring t L k else L)"

lemma first_timer:
  assumes "kernel_ok L k" "timer_list L = t # ts"
  shows "nxt (lists k) Timer_head = Row t" "\<not> rt_list_isempty Timer_head (lists k)"
proof -
  note o = kernel_okD [OF assms(1)]
  have L: "L Timer_head = Row t # map Row ts" using timers_okD(2) [OF o(2)] assms(2) by simp
  then show "nxt (lists k) Timer_head = Row t" using rings_first [OF o(4), of Timer_head] by simp
  show "\<not> rt_list_isempty Timer_head (lists k)" using rings_isempty [OF o(4), of Timer_head] L by simp
qed

lemma expire_code:
  "upd_lists (rt_list_insert_after Timer_tmp_head (Row t))
     (if timer_flag (rt_timer_remove t k) t AND RT_TIMER_FLAG_PERIODIC = 0
      then set_timer_flag t (\<lambda>fl. fl AND NOT RT_TIMER_FLAG_ACTIVATED) (rt_timer_remove t k)
      else rt_timer_remove t k) = expire t k"
  by (simp add: expire_def take_off_def rt_timer_remove_def one_shot_def timer_flag_def)

lemma take_off_code:
  "set_timer_flag t (\<lambda>fl. fl AND NOT RT_TIMER_FLAG_ACTIVATED) (upd_lists (rt_list_remove (Row t)) k)
   = take_off t k"
  by (simp add: take_off_def)

lemma check_iteration:
  assumes ok: "kernel_ok L k" and l: "timer_list L = t # ts" and due: "remaining k t = 0"
    and call: "call (timeout_func (timers k t)) (expire t k) = Some k'"
    and c: "call_ok callable t (expire_ring t L) (expire t k) L' k'"
  shows "timer_check_loop call (rt_tick k) k =
    timer_check_loop call (rt_tick k') (settled t L' k')"
proof -
  note first = first_timer [OF ok l]
  have "rt_tick k - timeout_tick (timers k t) < HALF_TICK_MAX"
    using due due_compare [of k t] by (simp add: half_tick)
  then have body: "timer_check_loop call (rt_tick k) k =
      (if rt_list_isempty Timer_tmp_head (lists k') then timer_check_loop call (rt_tick k') k'
       else let k1 = upd_lists (rt_list_remove (Row t)) k' in
         if timer_flag k1 t AND RT_TIMER_FLAG_PERIODIC \<noteq> 0 \<and>
            timer_flag k1 t AND RT_TIMER_FLAG_ACTIVATED \<noteq> 0
         then do {
           (_, k2) \<leftarrow> rt_timer_start t (take_off t k');
           timer_check_loop call (rt_tick k') k2
         }
         else timer_check_loop call (rt_tick k') k1)"
    using first
    by (subst timer_check_loop.simps)
       (simp only: first not_True_eq_False not_False_eq_True if_True timer_entry.simps
          bind.bind_lunit Let_def expire_code expire_frame(2) call take_off_code)
  have q: "queue_ok {} L' k'" and tm: "timers_ok {t} L' k'" and lv: "live k' (Obj_timer t)"
    and tmo: "timeouts_ok callable k'"
    using c by (auto simp: call_ok_def)
  note empty = rings_isempty [OF queue_ok_rings [OF q], of Timer_tmp_head, simplified]
  show ?thesis
  proof (cases "L' Timer_tmp_head = [Row t]")
    case False
    then have "L' Timer_tmp_head = []" using c by (simp add: call_ok_def)
    then show ?thesis unfolding body using empty by (simp add: settled_def)
  next
    case True
    then have per: "active k' t \<Longrightarrow> \<not> one_shot k' t" using c by (simp add: call_ok_def)
    show ?thesis
    proof (cases "active k' t")
      case a: True
      have off: "timers_ok {} (without (Row t) L') (take_off t k')"
        using timers_ok_take_off [OF tm, of t] by simp
      have "rt_timer_start t (take_off t k') = Some (RT_EOK, settle t L' k')"
        using rt_timer_start_closed [OF off, of t] lv timeouts_okD(2) [OF tmo a per [OF a]] a
        by (simp add: settle_def start_pos_def)
      then show ?thesis unfolding body using empty True per [OF a] a
        by (simp add: settled_def one_shot_def active_def timer_flag_def Let_def)
    next
      case na: False
      then show ?thesis unfolding body using empty True
        by (simp add: settled_def settle_def active_def timer_flag_def Let_def)
    qed
  qed
qed

text \<open>What the iteration leaves.\<close>

definition check_state :: "(timeout_fn \<Rightarrow> bool) \<Rightarrow> (node \<Rightarrow> node list) \<Rightarrow> kernel \<Rightarrow> bool" where
  "check_state callable L k \<longleftrightarrow> kernel_ok L k \<and> L Timer_tmp_head = [] \<and> timeouts_ok callable k \<and>
     rt_current_thread k \<noteq> None"

lemma timer_list_settle:
  assumes tm: "timers_ok {t} L k"
  shows "set (timer_list (settle_ring t L k)) =
    (if active k t then {t} else {}) \<union> (set (timer_list L) - {t})"
proof -
  have w: "timer_list (without (Row t) L) = removeAll t (timer_list L)"
    using timer_list_remove [OF timers_okD(2) [OF tm], of t] by simp
  have "timer_list (start_ring (take_off t k) t (without (Row t) L)) =
      (let n = unat (init_tick (timers k t)); ts = removeAll t (timer_list L)
       in earlier (take_off t k) n ts @ t # later (take_off t k) n ts)"
    by (intro timer_list_map) (simp add: start_ring_def Let_def w)
  then have "set (timer_list (start_ring (take_off t k) t (without (Row t) L))) =
      {t} \<union> set (removeAll t (timer_list L))"
    by (simp add: Let_def set_earlier_later)
  then show ?thesis using w by (auto simp: settle_ring_def)
qed

lemma pending_settled:
  assumes c: "call_ok callable t L k L' k'" and ne: "Thread_timer u \<noteq> t"
  shows "pending u (settled_ring t L' k') (settled t L' k') = pending u L' k'"
proof (cases "L' Timer_tmp_head = [Row t]")
  case True
  have "timers_ok {t} L' k'" using c by (simp add: call_ok_def)
  then show ?thesis using True ne timer_list_settle [of t L' k']
    by (simp add: pending_def settled_ring_def)
qed (simp add: settled_def settled_ring_def)

lemma due_settled:
  assumes c: "call_ok callable t L k L' k'" and nd: "t \<notin> set (due_timers L k)"
  shows "set (due_timers (settled_ring t L' k') (settled t L' k')) = set (due_timers L' k')"
proof (cases "L' Timer_tmp_head = [Row t]")
  case True
  have tm: "timers_ok {t} L' k'" and d: "set (due_timers L' k') \<subseteq> set (due_timers L k)"
    using c by (auto simp: call_ok_def)
  note l = timer_list_settle [OF tm]
  have "0 < init_tick (timers k' t)" if "active k' t"
    using c that True timeouts_okD(2) [of callable k' t] by (auto simp: call_ok_def)
  then have "active k' t \<Longrightarrow> unat (init_tick (timers k' t)) \<noteq> 0"
    by (simp add: unat_eq_0 word_neq_0_conv)
  moreover have "t \<notin> set (due_timers L' k')" using d nd by blast
  ultimately have "x \<in> set (due_timers (settle_ring t L' k') (settle t L' k')) \<longleftrightarrow>
      x \<in> set (due_timers L' k')" for x
    unfolding due_in_list l by (cases "x = t") auto
  then show ?thesis using True by (simp add: settled_def settled_ring_def set_eq_iff)
qed (simp add: settled_def settled_ring_def)

section \<open>The interface of timeout functions\<close>

lemma check_state_settled:
  assumes c: "call_ok callable t L k L' k'"
  shows "check_state callable (settled_ring t L' k') (settled t L' k')"
proof -
  have 1: "timeouts_ok callable k'" "rt_current_thread k' \<noteq> None" "queue_ok {} L' k'" "threads_ok L' k'"
    using c by (auto simp: call_ok_def)
  have "timeouts_ok callable (settled t L' k')"
    using 1(1) by (simp add: timeouts_ok_def settled_def)
  moreover have "rt_current_thread (settled t L' k') \<noteq> None" using 1(2) by (simp add: settled_def)
  moreover have "kernel_ok (settled_ring t L' k') (settled t L' k') \<and>
      settled_ring t L' k' Timer_tmp_head = []"
  proof (cases "L' Timer_tmp_head = [Row t]")
    case True
    then show ?thesis using settle_ok [OF c True] by (simp add: settled_def settled_ring_def)
  next
    case False
    then have "timers_ok {} L' k'" "L' Timer_tmp_head = []" using c by (simp_all add: call_ok_def)
    then show ?thesis using 1 False by (simp add: settled_def settled_ring_def kernel_ok_def)
  qed
  ultimately show ?thesis by (simp add: check_state_def)
qed

lemma timer_work_expire:
  assumes "timers_ok P L k"
  shows "timer_work L k (expire_ring t L) (expire t k)"
  unfolding timer_work_def
proof (intro conjI)
  show "\<exists>h ts os r. expire t k = k\<lparr>lists := h, objects := os, timers := ts, random_nr := r\<rparr>"
    by (cases k) (auto simp: expire_def take_off_def)
  show "\<forall>x. is_head x \<longrightarrow> x \<noteq> Timer_head \<longrightarrow> x \<noteq> Timer_tmp_head \<longrightarrow> expire_ring t L x = L x"
    using row_elsewhere [OF assms] by (simp add: expire_ring_def)
  show "live (expire t k) = live k" by (simp add: fun_eq_iff)
  show "\<forall>u. active (expire t k) (Thread_timer u) \<longrightarrow> active k (Thread_timer u) \<and>
      remaining (expire t k) (Thread_timer u) = remaining k (Thread_timer u)" by simp
qed (simp add: expire_def take_off_def)

lemma timer_work_settled:
  assumes "timers_ok P L k" "threads_ok L k"
    "L Timer_tmp_head = [Row t] \<Longrightarrow> active k t \<Longrightarrow> \<not> one_shot k t"
  shows "timer_work L k (settled_ring t L k) (settled t L k)"
  unfolding timer_work_def
proof (intro conjI)
  show "\<exists>h ts os r. settled t L k = k\<lparr>lists := h, objects := os, timers := ts, random_nr := r\<rparr>"
    by (cases k) (auto simp: settled_def settle_def begin_timer_def take_off_def)
  show "\<forall>x. is_head x \<longrightarrow> x \<noteq> Timer_head \<longrightarrow> x \<noteq> Timer_tmp_head \<longrightarrow> settled_ring t L k x = L x"
    using settle_ring_other [OF assms(1)] by (simp add: settled_ring_def)
  show "\<forall>u. active (settled t L k) (Thread_timer u) \<longrightarrow> active k (Thread_timer u) \<and>
      remaining (settled t L k) (Thread_timer u) = remaining k (Thread_timer u)"
  proof (intro allI impI)
    fix u assume a: "active (settled t L k) (Thread_timer u)"
    then have a: "active k (Thread_timer u)" by (simp add: settled_def split: if_splits)
    then have "one_shot k (Thread_timer u)"
      using assms(2) by (auto simp: threads_ok_def timer_live_def)
    then show "active k (Thread_timer u) \<and>
        remaining (settled t L k) (Thread_timer u) = remaining k (Thread_timer u)"
      using assms(3) a by (auto simp: settled_def)
  qed
  show "live (settled t L k) = live k" by (simp add: settled_def)
qed (simp add: settled_def settle_def begin_timer_def take_off_def)

lemma timer_work_refl: "timer_work L k L k"
  by (cases k) (auto simp: timer_work_def)

lemma set_due_expire:
  "timers_ok P L k \<Longrightarrow> set (due_timers (expire_ring t L) (expire t k)) = set (due_timers L k) - {t}"
  by (auto simp: due_in_list timer_list_expire)

locale timeout_functions =
  fixes call :: "timeout_fn \<Rightarrow> kernel \<Rightarrow> kernel option"
    and callable :: "timeout_fn \<Rightarrow> bool"
    and keeps :: "(node \<Rightarrow> node list) \<Rightarrow> kernel \<Rightarrow> (node \<Rightarrow> node list) \<Rightarrow> kernel \<Rightarrow> bool"
  assumes call_returns:
    "check_state callable L k \<Longrightarrow> t \<in> set (due_timers L k) \<Longrightarrow>
     in_check t (expire_ring t L) (expire t k) \<Longrightarrow> timeouts_ok callable (expire t k) \<Longrightarrow>
     callable (timeout_func (timers k t)) \<Longrightarrow>
     (\<And>u. timeout_func (timers k t) = Rt_thread_timeout u \<Longrightarrow>
        t = Thread_timer u \<and> thread_state k u = RT_THREAD_SUSPEND \<and> one_shot k t) \<Longrightarrow>
     \<exists>L' k'. call (timeout_func (timers k t)) (expire t k) = Some k' \<and>
       call_ok callable t (expire_ring t L) (expire t k) L' k' \<and> keeps L k L' k'"
    and keeps_timers: "timer_work L k L' k' \<Longrightarrow> keeps L k L' k'"
    and keeps_trans: "keeps L k L' k' \<Longrightarrow> keeps L' k' L'' k'' \<Longrightarrow> keeps L k L'' k''"
begin

text \<open>What the loop promises.\<close>

definition checked :: "(node \<Rightarrow> node list) \<Rightarrow> kernel \<Rightarrow> (node \<Rightarrow> node list) \<Rightarrow> kernel \<Rightarrow> bool" where
  "checked L k L' k' \<longleftrightarrow> check_state callable L' k' \<and> rt_tick k' = rt_tick k \<and> keeps L k L' k' \<and>
     (\<forall>u. thread_state k u = RT_THREAD_READY \<longrightarrow> thread_state k' u = RT_THREAD_READY) \<and>
     (\<forall>u. pending u L k \<longrightarrow> thread_state k' u = RT_THREAD_READY \<or>
        pending u L' k' \<and> remaining k' (Thread_timer u) = remaining k (Thread_timer u))"

lemma checked_trans: "checked L k L' k' \<Longrightarrow> checked L' k' L'' k'' \<Longrightarrow> checked L k L'' k''"
  unfolding checked_def using keeps_trans by metis

lemma checked_refl: "check_state callable L k \<Longrightarrow> checked L k L k"
  unfolding checked_def using keeps_timers [OF timer_work_refl] by blast

lemma call_expired:
  assumes st: "check_state callable L k" and due: "t \<in> set (due_timers L k)"
  obtains L' k' where "call (timeout_func (timers k t)) (expire t k) = Some k'"
    "call_ok callable t (expire_ring t L) (expire t k) L' k'"
    "keeps L k L' k'"
proof -
  have t: "t \<in> set (timer_list L)" using due by (simp add: due_in_list)
  from st have ok: "kernel_ok L k" and tmp: "L Timer_tmp_head = []" and tmo: "timeouts_ok callable k"
    and c: "rt_current_thread k \<noteq> None" by (auto simp: check_state_def)
  have a: "active k t" using timers_okD(4) [OF kernel_okD(2) [OF ok] t] by simp
  have "timeouts_ok callable (expire t k)" using tmo by (auto simp: timeouts_ok_def)
  moreover have "t = Thread_timer u \<and> thread_state k u = RT_THREAD_SUSPEND \<and> one_shot k t"
    if "timeout_func (timers k t) = Rt_thread_timeout u" for u
  proof -
    have t: "t = Thread_timer u" using timeouts_okD(3) [OF tmo a] that by simp
    then have s: "thread_state k u = RT_THREAD_SUSPEND" using kernel_ok_active [OF ok] a by simp
    then show ?thesis using kernel_ok_live(2) [OF ok, of u] t by (simp add: timer_live_def)
  qed
  ultimately show ?thesis
    using call_returns [OF st due in_check_expire [OF ok tmp c t]] timeouts_okD(1) [OF tmo a] that
    by blast
qed

lemma iterate:
  assumes st: "check_state callable L k" and l: "timer_list L = t # ts" and due: "remaining k t = 0"
  shows "\<exists>L' k'. timer_check_loop call (rt_tick k) k = timer_check_loop call (rt_tick k') k' \<and>
    checked L k L' k' \<and> set (due_timers L' k') \<subset> set (due_timers L k)"
proof -
  from st have ok: "kernel_ok L k" by (simp add: check_state_def)
  note tm = kernel_okD(2) [OF ok]
  have t: "t \<in> set (timer_list L)" using l by simp
  obtain L' k' where call: "call (timeout_func (timers k t)) (expire t k) = Some k'"
    and c: "call_ok callable t (expire_ring t L) (expire t k) L' k'"
    and kp: "keeps L k L' k'"
    by (rule call_expired [OF st, of t]) (use t due in \<open>simp_all add: due_in_list\<close>)
  let ?L = "settled_ring t L' k'" and ?k = "settled t L' k'"
  note de = set_due_expire [OF tm, of t]
  have nd: "t \<notin> set (due_timers (expire_ring t L) (expire t k))" unfolding de by simp
  note d = due_settled [OF c nd]
  have sub: "set (due_timers L' k') \<subseteq> set (due_timers L k) - {t}"
    using c unfolding call_ok_def de by blast
  have tick: "rt_tick ?k = rt_tick k'" "rt_tick k' = rt_tick k" "thread_state ?k = thread_state k'"
    using c by (auto simp: settled_def call_ok_def)
  have "keeps L' k' ?L ?k"
    using c by (intro keeps_timers timer_work_settled [of "{t}"]) (simp_all add: call_ok_def)
  then have "keeps L k ?L ?k"
    using keeps_trans [OF kp] by blast
  moreover have "thread_state ?k u = RT_THREAD_READY" if "thread_state k u = RT_THREAD_READY" for u
    using c that unfolding tick call_ok_def by simp
  moreover have "thread_state ?k u = RT_THREAD_READY \<or> pending u ?L ?k \<and>
      remaining ?k (Thread_timer u) = remaining k (Thread_timer u)" if u: "pending u L k" for u
  proof (cases "Thread_timer u = t")
    case True
    have "active k (Thread_timer u)" using timers_okD(4) [OF tm t] True by simp
    then have "timer_live k u"
      using kernel_ok_active [OF ok] kernel_ok_live(2) [OF ok, of u] by simp
    then have "timeout_func (timers (expire t k) t) = Rt_thread_timeout u"
      using True by (auto simp: timer_live_def)
    then have "thread_state k' u = RT_THREAD_READY" using c unfolding call_ok_def by blast
    then show ?thesis by (simp add: tick)
  next
    case False
    then have "pending u (expire_ring t L) (expire t k)"
      using u timer_list_expire [OF tm, of t] by (simp add: pending_def)
    then have "thread_state k' u = RT_THREAD_READY \<or> pending u L' k' \<and>
        remaining k' (Thread_timer u) = remaining k (Thread_timer u)"
      using c unfolding call_ok_def by (simp add: pending_def)
    then show ?thesis using pending_settled [OF c False] False by (auto simp: tick settled_def)
  qed
  ultimately have "checked L k ?L ?k"
    using check_state_settled [OF c] tick by (simp add: checked_def)
  moreover have "timer_check_loop call (rt_tick k) k = timer_check_loop call (rt_tick ?k) ?k"
    using check_iteration [where call = call, OF ok l due call c] tick by simp
  moreover have "set (due_timers ?L ?k) \<subset> set (due_timers L k)"
    using sub t due unfolding d by (auto simp: due_in_list)
  ultimately show ?thesis by blast
qed

lemma timer_check_loop_ok:
  assumes "check_state callable L k"
  shows "\<exists>L' k'. timer_check_loop call (rt_tick k) k = Some k' \<and> checked L k L' k' \<and>
    due_timers L' k' = []"
  using assms
proof (induction "card (set (due_timers L k))" arbitrary: L k rule: less_induct)
  case less
  from less.prems have ok: "kernel_ok L k" by (simp add: check_state_def)
  note tm = kernel_okD(2) [OF ok]
  show ?case
  proof (cases "due_timers L k = []")
    case False
    then obtain t where "t \<in> set (timer_list L)" "remaining k t = 0"
      by (metis due_in_list list.set_intros(1) neq_Nil_conv)
    then obtain t ts where l: "timer_list L = t # ts" and "remaining k t = 0"
      using timers_okD(3) [OF tm] by (cases "timer_list L") auto
    then obtain L' k' where 1: "timer_check_loop call (rt_tick k) k = timer_check_loop call (rt_tick k') k'"
      "checked L k L' k'" "set (due_timers L' k') \<subset> set (due_timers L k)"
      using iterate [OF less.prems] by blast
    then have "card (set (due_timers L' k')) < card (set (due_timers L k))"
      by (simp add: psubset_card_mono)
    moreover have "check_state callable L' k'" using 1(2) by (simp add: checked_def)
    ultimately obtain L'' k'' where 2: "timer_check_loop call (rt_tick k') k' = Some k''"
      "checked L' k' L'' k''" "due_timers L'' k'' = []"
      using less.hyps [of L' k'] by blast
    show ?thesis unfolding 1(1) using 2(1,3) checked_trans [OF 1(2) 2(2)] by blast
  next
    case True
    have "timer_check_loop call (rt_tick k) k = Some k"
    proof (cases "timer_list L")
      case Nil
      then have "rt_list_isempty Timer_head (lists k)"
        using timers_okD(2) [OF tm] rings_isempty [OF kernel_okD(4) [OF ok], of Timer_head] by simp
      then show ?thesis by (subst timer_check_loop.simps) simp
    next
      case (Cons t ts)
      then have "t \<in> set (timer_list L)" by simp
      then have "remaining k t < unat HALF_TICK_MAX" "remaining k t \<noteq> 0"
        using timers_okD(4) [OF tm] True by (auto simp: due_timers_def filter_empty_conv)
      then show ?thesis using first_timer [OF ok Cons] due_compare [of k t]
        by (subst timer_check_loop.simps) simp
    qed
    then show ?thesis using checked_refl [OF less.prems] True by blast
  qed
qed

lemma timer_check_ok:
  assumes "check_state callable L k"
  shows "\<exists>L' k'. rt_timer_check call k = Some k' \<and> checked L k L' k' \<and> due_timers L' k' = [] \<and>
    (\<forall>u. Thread_timer u \<in> set (due_timers L k) \<longrightarrow> thread_state k' u = RT_THREAD_READY)"
    (is "\<exists>L' k'. _ \<and> _ \<and> _ \<and> ?woken k'")
proof -
  from assms have "kernel_ok L k" "L Timer_tmp_head = []" by (auto simp: check_state_def)
  then have "rt_list_init Timer_tmp_head (lists k) = lists k"
    using rings_init_hd_nil [OF kernel_okD(4)] by simp
  then have "upd_lists (rt_list_init Timer_tmp_head) k = k" by (cases k) simp
  then have "rt_timer_check call k = timer_check_loop call (rt_tick k) k"
    by (simp add: rt_timer_check_def)
  then obtain L' k' where 1: "rt_timer_check call k = Some k'" "checked L k L' k'" "due_timers L' k' = []"
    using timer_check_loop_ok [OF assms] by auto
  moreover have "?woken k'"
  proof (intro allI impI)
    fix u assume u: "Thread_timer u \<in> set (due_timers L k)"
    then have "pending u L k" "remaining k (Thread_timer u) = 0" by (simp_all add: pending_def due_in_list)
    moreover have "\<not> (pending u L' k' \<and> remaining k' (Thread_timer u) = 0)"
      using 1(3) by (auto simp: pending_def due_timers_def filter_empty_conv)
    ultimately show "thread_state k' u = RT_THREAD_READY" using 1(2) by (auto simp: checked_def)
  qed
  ultimately show ?thesis by blast
qed

end

section \<open>The kernel's own timeout function\<close>

text \<open>\<open>app\<close> stands for the timeout functions of the application, numbered by \<open>Timeout_fn\<close>.\<close>

fun run_timeout :: "(nat \<Rightarrow> u32 \<Rightarrow> kernel \<Rightarrow> kernel option) \<Rightarrow> timeout_fn \<Rightarrow> kernel \<Rightarrow> kernel option"
where
  "run_timeout app (Rt_thread_timeout t) k = rt_thread_timeout t k"
| "run_timeout app (Timeout_fn f prm) k = app f prm k"

fun is_thread_timeout :: "timeout_fn \<Rightarrow> bool" where
  "is_thread_timeout (Rt_thread_timeout t) = True"
| "is_thread_timeout (Timeout_fn f prm) = False"

text \<open>What the timer interrupt keeps of the rest of the kernel.\<close>

lemma timeout_thread_frame [simp, frame]:
  "timers (timeout_thread t k) = timers k" "objects (timeout_thread t k) = objects k"
  "rt_tick (timeout_thread t k) = rt_tick k" "sems (timeout_thread t k) = sems k"
  "mutexes (timeout_thread t k) = mutexes k" "events (timeout_thread t k) = events k"
  "mailboxes (timeout_thread t k) = mailboxes k" "mqs (timeout_thread t k) = mqs k"
  "mempools (timeout_thread t k) = mempools k" "mem (timeout_thread t k) = mem k"
  "rt_current_thread (timeout_thread t k) = rt_current_thread k"
  "rt_scheduler_lock_nest (timeout_thread t k) = rt_scheduler_lock_nest k"
  "rt_interrupt_nest (timeout_thread t k) = rt_interrupt_nest k"
  "live (timeout_thread t k) = live k" "active (timeout_thread t k) = active k"
  "one_shot (timeout_thread t k) = one_shot k" "timer_live (timeout_thread t k) = timer_live k"
  "remaining (timeout_thread t k) = remaining k"
  "thread_state (timeout_thread t k) u = (if u = t then RT_THREAD_READY else thread_state k u)"
  "error (threads (timeout_thread t k) u) = (if u = t then - RT_ETIMEOUT else error (threads k u))"
  "current_priority (threads (timeout_thread t k) u) = current_priority (threads k u)"
  by (simp_all add: timeout_thread_def) (simp_all add: remaining_def insert_ready_def fun_eq_iff)

lemma timers_ok_switch [simp]: "timers_ok P L (switch_to p t k) = timers_ok P L k"
  by (rule timers_ok_cong) simp_all

lemma threads_ok_switch [simp]: "threads_ok L (switch_to p t k) = threads_ok L k"
  by (simp add: threads_ok_def timer_live_def)

definition bystanders :: "(node \<Rightarrow> node list) \<Rightarrow> kernel \<Rightarrow> (node \<Rightarrow> node list) \<Rightarrow> kernel \<Rightarrow> bool" where
  "bystanders L k L' k' \<longleftrightarrow>
     rt_scheduler_lock_nest k' = rt_scheduler_lock_nest k \<and>
     rt_interrupt_nest k' = rt_interrupt_nest k \<and> (cpu_ok k \<longrightarrow> cpu_ok k') \<and>
     (rt_scheduler_lock_nest k = 0 \<longrightarrow> runs_highest L k \<longrightarrow> runs_highest L' k') \<and>
     (rt_scheduler_lock_nest k = 0 \<longrightarrow>
        rt_current_thread k' = rt_current_thread k \<or> runs_highest L' k') \<and>
     mem k' = mem k \<and> sems k' = sems k \<and> mutexes k' = mutexes k \<and> events k' = events k \<and>
     mailboxes k' = mailboxes k \<and> mqs k' = mqs k \<and> mempools k' = mempools k \<and>
     live k' = live k \<and> (\<forall>ob. (\<forall>u. ob \<noteq> Obj_timer u) \<longrightarrow> objects k' ob = objects k ob) \<and>
     (\<forall>u. current_priority (threads k' u) = current_priority (threads k u)) \<and>
     (\<forall>x. wait_head x \<longrightarrow> set (L' x) \<subseteq> set (L x))"

definition isr_frame :: "(node \<Rightarrow> node list) \<Rightarrow> kernel \<Rightarrow> (node \<Rightarrow> node list) \<Rightarrow> kernel \<Rightarrow> bool" where
  "isr_frame L k L' k' \<longleftrightarrow> bystanders L k L' k' \<and>
     (\<forall>u. active k' (Thread_timer u) \<longrightarrow> active k (Thread_timer u) \<and>
        remaining k' (Thread_timer u) = remaining k (Thread_timer u))"

text \<open>Moreover it leaves the sleepers asleep that are not due.\<close>

definition isr_keeps :: "(node \<Rightarrow> node list) \<Rightarrow> kernel \<Rightarrow> (node \<Rightarrow> node list) \<Rightarrow> kernel \<Rightarrow> bool" where
  "isr_keeps L k L' k' \<longleftrightarrow> isr_frame L k L' k' \<and>
     (\<forall>u. thread_state k u = RT_THREAD_SUSPEND \<longrightarrow>
        \<not> (active k (Thread_timer u) \<and> remaining k (Thread_timer u) = 0) \<longrightarrow>
        thread_state k' u = RT_THREAD_SUSPEND)"

lemma bystanders_trans:
  assumes 1: "bystanders L k L' k'" and 2: "bystanders L' k' L'' k''"
  shows "bystanders L k L'' k''"
proof -
  have "set (L'' x) \<subseteq> set (L x)" if "wait_head x" for x
    using 1 2 that unfolding bystanders_def by (metis subset_trans)
  moreover have "rt_current_thread k'' = rt_current_thread k \<or> runs_highest L'' k''"
    if "rt_scheduler_lock_nest k = 0"
    using 1 2 that unfolding bystanders_def by metis
  ultimately show ?thesis using 1 2 unfolding bystanders_def by simp
qed

lemma isr_frame_trans: "isr_frame L k L' k' \<Longrightarrow> isr_frame L' k' L'' k'' \<Longrightarrow> isr_frame L k L'' k''"
  unfolding isr_frame_def using bystanders_trans by metis

lemma isr_keeps_trans:
  assumes "isr_keeps L k L' k'" "isr_keeps L' k' L'' k''"
  shows "isr_keeps L k L'' k''"
proof -
  have "isr_frame L k L'' k''" using assms isr_frame_trans unfolding isr_keeps_def by blast
  moreover have "active k' (Thread_timer u) \<longrightarrow> active k (Thread_timer u) \<and>
      remaining k' (Thread_timer u) = remaining k (Thread_timer u)" for u
    using assms(1) unfolding isr_keeps_def isr_frame_def by blast
  ultimately show ?thesis using assms unfolding isr_keeps_def by metis
qed

lemma isr_keeps_timers:
  assumes "timer_work L k L' k'"
  shows "isr_keeps L k L' k'"
proof -
  from assms obtain h ts os r where k': "k' = k\<lparr>lists := h, objects := os, timers := ts, random_nr := r\<rparr>"
    by (auto simp: timer_work_def)
  have L: "L' x = L x" if "is_head x" "x \<noteq> Timer_head" "x \<noteq> Timer_tmp_head" for x
    using assms that by (simp add: timer_work_def)
  have "L' x = L x" if "wait_head x" for x
    using that wait_head_is_head [OF that] by (intro L) auto
  moreover have "runs_highest L' k' = runs_highest L k"
    by (auto simp: runs_highest_def is_next_thread_def L k' split: option.splits)
  moreover have "thread_state k' = thread_state k" by (simp add: k' fun_eq_iff thread_state_def)
  moreover have "cpu_ok k' = cpu_ok k" by (rule cpu_ok_cong) (simp_all add: k')
  moreover have "rt_current_thread k' = rt_current_thread k" by (simp add: k')
  ultimately show ?thesis
    using assms unfolding isr_keeps_def isr_frame_def bystanders_def timer_work_def by (simp add: k')
qed

lemma timeout_returns:
  assumes i: "in_check t L k" and tmo: "timeouts_ok callable k"
    and f: "timeout_func (timers k t) = Rt_thread_timeout u"
    and t: "t = Thread_timer u" and s: "thread_state k u = RT_THREAD_SUSPEND" and na: "\<not> active k t"
  shows "\<exists>L' k'. rt_thread_timeout u k = Some k' \<and> call_ok callable t L k L' k' \<and> isr_frame L k L' k' \<and>
    (\<forall>w. thread_state k w = RT_THREAD_SUSPEND \<longrightarrow> w \<noteq> u \<longrightarrow> thread_state k' w = RT_THREAD_SUSPEND)"
proof -
  from i have q: "queue_ok {} L k" and tm: "timers_ok {t} L k" and th: "threads_ok L k"
    and tmp: "L Timer_tmp_head = [Row t]" and c: "rt_current_thread k \<noteq> None"
    and lv: "live k (Obj_timer t)" by (auto simp: in_check_def)
  let ?L = "requeue k u L" and ?k = "timeout_thread u k"
  note ok = timeout_thread_ok [OF q tm th s na [unfolded t]]
  have "?L (Ready_head (prio k u)) \<noteq> []" by (simp add: requeue_def)
  then obtain p v where nx: "is_next_thread ?L p v" using next_thread_exists [OF ok(1)] by blast
  let ?k' = "switch_to p v ?k"
  have run: "rt_thread_timeout u k = Some ?k'"
    by (rule rt_thread_timeout_closed [OF q tm th s na [unfolded t] nx c])
  have same: "timers ?k' = timers k" "rt_tick ?k' = rt_tick k" "active ?k' = active k"
    "one_shot ?k' = one_shot k" "live ?k' = live k" "remaining ?k' = remaining k"
    by simp_all
  have "Tlist u \<notin> set (L Timer_head)" using timers_okD(2) [OF tm] by auto
  then have rg: "?L Timer_head = L Timer_head" "?L Timer_tmp_head = [Row t]"
    using tmp by (simp_all add: requeue_def removeAll_id)
  have due: "due_timers ?L ?k' = due_timers L k"
    by (simp add: due_timers_def timer_list_def rg same)
  have tl: "timer_list ?L = timer_list L" by (simp add: timer_list_def rg)
  have st: "thread_state ?k' w = (if w = u then RT_THREAD_READY else thread_state k w)" for w by simp
  have "call_ok callable t L k ?L ?k'"
    unfolding call_ok_def due if_P [OF rg(2)]
    using ok tmo na lv f current_some_switch [of ?k p v] c
    by (auto simp: timeouts_ok_def same st pending_def tl)
  moreover have "isr_frame L k ?L ?k'"
  proof -
    have "cpu_ok ?k = cpu_ok k"
      by (rule cpu_ok_cong) (simp_all add: timeout_thread_def insert_ready_def)
    moreover have "set (?L x) \<subseteq> set (L x)" if "wait_head x" for x
    proof -
      have "x \<noteq> Ready_head (prio k u)" using that by auto
      then show ?thesis by (auto simp: requeue_def)
    qed
    ultimately show ?thesis
      using nx cpu_ok_switch [of ?k p v] runs_highest_switch [of ?k ?L p v] by (simp add: isr_frame_def bystanders_def)
  qed
  ultimately show ?thesis using run st by (intro exI [of _ ?L] exI [of _ ?k']) simp
qed

interpretation isr: timeout_functions "run_timeout app" is_thread_timeout isr_keeps for app
proof
  fix L k t
  assume st: "check_state is_thread_timeout L k" and due: "t \<in> set (due_timers L k)"
    and ic: "in_check t (expire_ring t L) (expire t k)" and tmo: "timeouts_ok is_thread_timeout (expire t k)"
    and cl: "is_thread_timeout (timeout_func (timers k t))"
    and own: "\<And>u. timeout_func (timers k t) = Rt_thread_timeout u \<Longrightarrow>
      t = Thread_timer u \<and> thread_state k u = RT_THREAD_SUSPEND \<and> one_shot k t"
  obtain u where f: "timeout_func (timers k t) = Rt_thread_timeout u"
    using cl by (cases "timeout_func (timers k t)") auto
  have tm: "timers_ok {} L k" using st by (simp add: check_state_def kernel_okD)
  have a: "active k t" "remaining k t = 0" using due timers_okD(4) [OF tm] by (simp_all add: due_in_list)
  obtain L' k' where r: "rt_thread_timeout u (expire t k) = Some k'"
    "call_ok is_thread_timeout t (expire_ring t L) (expire t k) L' k'"
    "isr_frame (expire_ring t L) (expire t k) L' k'"
    "\<forall>w. thread_state k w = RT_THREAD_SUSPEND \<longrightarrow> w \<noteq> u \<longrightarrow> thread_state k' w = RT_THREAD_SUSPEND"
    using timeout_returns [OF ic tmo, of u] f own [OF f] by auto
  have "isr_frame L k (expire_ring t L) (expire t k)"
    using isr_keeps_timers [OF timer_work_expire [OF tm]] by (simp add: isr_keeps_def)
  then have "isr_keeps L k L' k'"
    using isr_frame_trans [OF _ r(3)] r(4) own [OF f] a unfolding isr_keeps_def by metis
  then show "\<exists>L' k'. run_timeout app (timeout_func (timers k t)) (expire t k) = Some k' \<and>
      call_ok is_thread_timeout t (expire_ring t L) (expire t k) L' k' \<and> isr_keeps L k L' k'"
    using r(1,2) f by auto
qed (rule isr_keeps_timers, assumption, rule isr_keeps_trans, assumption+)

lemmas isr_checked = isr.checked_def check_state_def isr_keeps_def

text \<open>The promise spelled out, for the clients of the interface.\<close>

lemma rt_timer_check_ok:
  assumes "check_state is_thread_timeout L k"
  obtains L' k' where "rt_timer_check (run_timeout app) k = Some k'"
    "check_state is_thread_timeout L' k'" "rt_tick k' = rt_tick k" "isr_keeps L k L' k'"
    "due_timers L' k' = []"
    "\<forall>u. thread_state k u = RT_THREAD_READY \<longrightarrow> thread_state k' u = RT_THREAD_READY"
    "\<forall>u. pending u L k \<longrightarrow> thread_state k' u = RT_THREAD_READY \<or>
       pending u L' k' \<and> remaining k' (Thread_timer u) = remaining k (Thread_timer u)"
    "\<forall>u. Thread_timer u \<in> set (due_timers L k) \<longrightarrow> thread_state k' u = RT_THREAD_READY"
proof -
  from isr.timer_check_ok [OF assms, of app] obtain L' k' where 1: "rt_timer_check (run_timeout app) k = Some k'"
    "isr.checked L k L' k'" "due_timers L' k' = []"
    "\<forall>u. Thread_timer u \<in> set (due_timers L k) \<longrightarrow> thread_state k' u = RT_THREAD_READY"
    by (elim exE conjE)
  from 1(2) show ?thesis unfolding isr.checked_def by (elim conjE) (rule that [OF 1(1) _ _ _ 1(3) _ _ 1(4)])
qed

end
