(* ===== verification/Example.thy ===== *)
theory Example
  imports IpcList
begin

text \<open>
  A small concrete system, on which the witnesses of the component theories are evaluated: all
  lists are empty and all objects typed in \<open>boot\<close>; in \<open>demo\<close> the idle thread 0 (priority 7) and
  thread 2 (priority 3) have been started, and thread 2 is running.
\<close>

definition boot :: kernel where
  "boot = \<lparr>mem = \<lambda>_. 0, lists = \<lparr>nxt = id, prv = id\<rparr>,
     objects = \<lambda>ob. \<lparr>name = replicate 8 0, type = object_class ob, flag = 0\<rparr>,
     threads = \<lambda>t. \<lparr>sp = 0, entry = 0, parameter = 0, stack_addr = 0, stack_size = 0, error = 0,
       stat = RT_THREAD_INIT, current_priority = 0, init_priority = (if t = 0 then 7 else 3),
       number_mask = 0, event_set = 0, event_info = 0, thread_init_tick = 10, remaining_tick = 10,
       cleanup = None, user_data = 0\<rparr>,
     timers = \<lambda>tm. \<lparr>timeout_func = (case tm of Thread_timer t \<Rightarrow> Rt_thread_timeout t
         | User_timer n \<Rightarrow> Timeout_fn n 0), init_tick = 5, timeout_tick = 0\<rparr>,
     sems = \<lambda>s. \<lparr>sem_value = of_nat s\<rparr>,
     mutexes = \<lambda>m. \<lparr>mutex_value = 1, original_priority = 0xff, hold = 0, owner = None\<rparr>,
     events = \<lambda>e. \<lparr>event_bits = of_nat e\<rparr>,
     mailboxes = \<lambda>b. \<lparr>msg_pool = 0x1000, mb_size = 4, mb_entry = 0, in_offset = 0, out_offset = 0\<rparr>,
     mqs = \<lambda>q. \<lparr>mq_msg_pool = 0x2000, msg_size = 4, max_msgs = 0, mq_entry = 0,
       msg_queue_head = 0, msg_queue_tail = 0, msg_queue_free = 0\<rparr>,
     mempools = \<lambda>p. \<lparr>start_address = 0x3000, mp_size = 0, block_size = 4, block_list = 0,
       block_total_count = 0, block_free_count = 0\<rparr>,
     rt_thread_ready_priority_group = 0, rt_scheduler_lock_nest = 0, rt_current_thread = None,
     rt_current_priority = 7, rt_interrupt_nest = 0, rt_tick = 100, rt_errno = 0, random_nr = 0,
     rt_thread_switch_interrupt_flag = 0, rt_interrupt_from_thread = None,
     rt_interrupt_to_thread = None, cpu_context = None\<rparr>"

abbreviation no_lists :: "node \<Rightarrow> node list" where
  "no_lists \<equiv> \<lambda>_. []"

lemma boot_facts [simp]:
  "thread_state boot t = RT_THREAD_INIT" "live boot ob" "timer_live boot t" "\<not> active boot tm"
proof -
  have "object_class ob AND NOT RT_Object_Class_Static = object_class ob" for ob
    by (cases ob) simp_all
  then show l: "live boot ob" for ob
    by (simp add: live_def rt_object_get_type_def boot_def)
  show "timer_live boot t"
    using l unfolding timer_live_def by (simp add: one_shot_def timer_flag_def boot_def)
qed (simp_all add: thread_state_def active_def timer_flag_def boot_def)

lemma boot_ok: "kernel_ok no_lists boot"
proof -
  have "rings is_head (lists boot) no_lists"
    by (simp add: rings_def dll_def boot_def)
  moreover have "queue_ok {} no_lists boot"
    using calculation by (simp add: queue_ok_def) (simp add: boot_def)
  moreover have "timers_ok {} no_lists boot"
    using calculation by (simp add: timers_ok_def timer_list_def map_filter_simps)
  moreover have "threads_ok no_lists boot" by (simp add: threads_ok_def)
  ultimately show ?thesis by (simp add: kernel_ok_def)
qed

definition demo :: kernel where
  "demo = (startup_thread 2 (startup_thread 0 boot))
     \<lparr>rt_current_thread := Some 2, cpu_context := Some 2\<rparr>"

definition demo_ring :: "node \<Rightarrow> node list" where
  "demo_ring = no_lists(Ready_head 7 := [Tlist 0], Ready_head 3 := [Tlist 2])"

lemma startup_boot_facts [simp]:
  "thread_state (startup_thread t k) u = (if u = t then RT_THREAD_READY else thread_state k u)"
  "live (startup_thread t k) = live k" "active (startup_thread t k) tm \<longleftrightarrow> tm \<noteq> Thread_timer t \<and> active k tm"
  "init_priority (threads (startup_thread t k) u) = init_priority (threads k u)"
  "sems (startup_thread t k) = sems k" "mutexes (startup_thread t k) = mutexes k"
  "events (startup_thread t k) = events k" "mailboxes (startup_thread t k) = mailboxes k"
  "mqs (startup_thread t k) = mqs k" "mempools (startup_thread t k) = mempools k"
  "mem (startup_thread t k) = mem k" "rt_tick (startup_thread t k) = rt_tick k"
  "timer_live (startup_thread t k) = timer_live k"
  "rt_scheduler_lock_nest (startup_thread t k) = rt_scheduler_lock_nest k"
  "rt_interrupt_nest (startup_thread t k) = rt_interrupt_nest k"
  by (auto simp: startup_thread_def)

lemma startable_boot:
  "startable 0 boot" "startable 2 (startup_thread 0 boot)"
  by (simp_all add: startable_def) (simp_all add: boot_def RT_THREAD_PRIORITY_MAX_def)

lemma demo_ok: "kernel_ok demo_ring demo"
proof -
  have "startup_ring 0 boot no_lists = no_lists(Ready_head 7 := [Tlist 0])"
    by (auto simp: startup_ring_def resume_ring_def prepare_thread_def boot_def fun_eq_iff)
  then have 1: "kernel_ok (no_lists(Ready_head 7 := [Tlist 0])) (startup_thread 0 boot)"
    using kernel_ok_startup [OF boot_ok startable_boot(1)] by simp
  have "prio (prepare_thread 2 (startup_thread 0 boot)) 2 = 3"
    by (simp add: prepare_thread_def) (simp add: boot_def)
  then have "startup_ring 2 (startup_thread 0 boot) (no_lists(Ready_head 7 := [Tlist 0])) = demo_ring"
    by (auto simp: startup_ring_def resume_ring_def demo_ring_def fun_eq_iff)
  then have "kernel_ok demo_ring (startup_thread 2 (startup_thread 0 boot))"
    using kernel_ok_startup [OF 1 startable_boot(2)] by simp
  then show ?thesis unfolding demo_def by (subst kernel_ok_cong) simp_all
qed

lemma demo_facts [simp]:
  "rt_current_thread demo = Some 2" "thread_state demo 2 = RT_THREAD_READY"
  "thread_state demo 0 = RT_THREAD_READY" "live demo ob"
  "sems demo s = \<lparr>sem_value = of_nat s\<rparr>"
  "mutexes demo m = \<lparr>mutex_value = 1, original_priority = 0xff, hold = 0, owner = None\<rparr>"
  "events demo e = \<lparr>event_bits = of_nat e\<rparr>"
  "mailboxes demo b = \<lparr>msg_pool = 0x1000, mb_size = 4, mb_entry = 0, in_offset = 0, out_offset = 0\<rparr>"
  "rt_scheduler_lock_nest demo = 0" "rt_interrupt_nest demo = 0" "rt_tick demo = 100"
  "mem demo = (\<lambda>_. 0)" "cpu_context demo = Some 2"
proof -
  have t: "thread_state demo = thread_state (startup_thread 2 (startup_thread 0 boot))"
    by (simp add: demo_def thread_state_def fun_eq_iff)
  then show "thread_state demo 2 = RT_THREAD_READY" "thread_state demo 0 = RT_THREAD_READY"
    by simp_all
  have "live (k\<lparr>rt_current_thread := c, cpu_context := d\<rparr>) = live k" for k c d
    by (simp add: live_def rt_object_get_type_def fun_eq_iff)
  then show "live demo ob" by (simp add: demo_def)
qed (simp_all add: demo_def, simp_all add: boot_def)

lemma demo_flag [simp]: "ipc_flag demo ob = 0"
  by (cases ob) (auto simp: ipc_flag_def demo_def startup_thread_def resume_thread_def
      stop_timer_def insert_ready_def prepare_thread_def boot_def active_def timer_flag_def)

lemma demo_prio [simp]: "current_priority (threads demo 2) = 3" "current_priority (threads demo 0) = 7"
  by (simp_all add: demo_def startup_thread_def) (simp_all add: prepare_thread_def boot_def)

lemma demo_waiting [simp]: "wait_head x \<Longrightarrow> waiting demo_ring x = []"
  by (cases x) (simp_all add: demo_ring_def waiting_def map_filter_simps)

lemma demo_next: "is_next_thread demo_ring 3 2"
  by (simp add: is_next_thread_def demo_ring_def)

text \<open>After thread 2 has gone from the ready list, thread 0 is next.\<close>

lemma demo_next_idle:
  assumes "L (Ready_head 7) = [Tlist 0]" "\<And>i. i \<noteq> 7 \<Longrightarrow> L (Ready_head i) = []"
  shows "is_next_thread L 7 0"
  using assms by (simp add: is_next_thread_def)

text \<open>\<open>demo_wait x\<close>: thread 2 waits on the list \<open>x\<close>, for as long as it takes, and thread 0 runs.\<close>

definition demo_wait :: "node \<Rightarrow> kernel" where
  "demo_wait x = switch_to 7 0 (block_thread x 0 0xffffffff 2 demo_ring demo)"

definition demo_wait_ring :: "node \<Rightarrow> node \<Rightarrow> node list" where
  "demo_wait_ring x = block_ring x 0 0xffffffff 2 demo_ring demo"

lemma demo_wait_ok: "wait_head x \<Longrightarrow> kernel_ok (demo_wait_ring x) (demo_wait x)"
  using ipc_wait_closed(2) [OF demo_ok demo_facts(2), of x 0 "0xffffffff"]
  by (simp add: demo_wait_def demo_wait_ring_def)

lemma demo_wait_waiting [simp]:
  "wait_head x \<Longrightarrow> wait_head y \<Longrightarrow> waiting (demo_wait_ring x) y = (if y = x then [2] else [])"
  using waiting_block [OF demo_ok demo_facts(2), of x 0 "0xffffffff"]
    waiting_block_other [OF demo_ok demo_facts(2), of x y 0 "0xffffffff"]
  by (simp add: demo_wait_ring_def wait_before_def wait_after_def)

lemma demo_wait_next: "wait_head x \<Longrightarrow> is_next_thread (demo_wait_ring x) 7 0"
  by (rule demo_next_idle)
    (simp_all add: demo_wait_ring_def block_ring_ready [OF demo_ok demo_facts(2)],
      simp_all add: demo_ring_def)

lemma demo_wait_facts [simp]:
  "rt_current_thread (demo_wait x) = Some 0"
  "thread_state (demo_wait x) t = (if t = 2 then RT_THREAD_SUSPEND else thread_state demo t)"
  "live (demo_wait x) = live demo" "sems (demo_wait x) = sems demo"
  "mutexes (demo_wait x) = mutexes demo" "events (demo_wait x) = events demo"
  "mailboxes (demo_wait x) = mailboxes demo" "mqs (demo_wait x) = mqs demo"
  "mempools (demo_wait x) = mempools demo"
  "mem (demo_wait x) = mem demo" "rt_tick (demo_wait x) = 100"
  "current_priority (threads (demo_wait x) t) = current_priority (threads demo t)"
  "rt_scheduler_lock_nest (demo_wait x) = 0" "rt_interrupt_nest (demo_wait x) = 0"
  by (simp_all add: demo_wait_def current_after_switch)

lemma demo_wait_flag [simp]: "(\<And>t. ob \<noteq> Obj_timer t) \<Longrightarrow> ipc_flag (demo_wait x) ob = 0"
  by (simp add: demo_wait_def ipc_flag_def)
    (metis demo_flag ipc_flag_def ipc_flag_frame(1))

end
