(* ===== verification/Clock.thy ===== *)
theory Clock
  imports TimerCheck Example
begin

text \<open>
  \<^verbatim>\<open>src/clock.c\<close>: the tick counter and the clock interrupt, which ages the timers by one tick,
  ends the time slice of the running thread and runs the timers that became due.
\<close>

section \<open>The operations\<close>

definition rt_tick_get :: "kernel \<Rightarrow> u32" where
  "rt_tick_get k = rt_tick k"

definition rt_tick_set :: "u32 \<Rightarrow> kernel \<Rightarrow> kernel" where
  "rt_tick_set tick k = k\<lparr>rt_tick := tick\<rparr>"

definition rt_tick_increase ::
  "(nat \<Rightarrow> u32 \<Rightarrow> kernel \<Rightarrow> kernel option) \<Rightarrow> kernel \<Rightarrow> kernel option" where
  "rt_tick_increase app k = do {
     let k = k\<lparr>rt_tick := rt_tick k + 1\<rparr>;
     t \<leftarrow> rt_thread_self k;
     let k = upd_thread t (\<lambda>th. th\<lparr>remaining_tick := remaining_tick th - 1\<rparr>) k;
     k \<leftarrow> if remaining_tick (threads k t) = 0 then do {
         let k = upd_thread t (\<lambda>th. th\<lparr>remaining_tick := thread_init_tick th\<rparr>) k;
         (_, k) \<leftarrow> rt_thread_yield k;
         Some k
       } else Some k;
     rt_timer_check (run_timeout app) k
   }"

text \<open>The argument is a signed number; its products are computed in 32 bits and wrap around, as in the
  compiled code (in C an overflow of the signed product is undefined).\<close>

definition rt_tick_from_millisecond :: "u32 \<Rightarrow> u32" where
  "rt_tick_from_millisecond ms = (if sint ms < 0 then RT_WAITING_FOREVER
     else (let tick = RT_TICK_PER_SECOND * of_int (sint ms div 1000)
       in tick + (RT_TICK_PER_SECOND * of_int (sint ms mod 1000) + 999) div 1000))"

section \<open>Conversion of times\<close>

lemma ticks_of_rest: "(10000 * r + 999) div 1000 = 10 * (r :: nat)"
proof -
  have "(999 + (10 * r) * 1000) div 1000 = 10 * r" by (subst div_mult_self1) simp_all
  then show ?thesis by (simp add: ac_simps)
qed

lemma ticks_exact:
  assumes "0 \<le> sint ms" "sint ms < 214749000"
  shows "unat (rt_tick_from_millisecond ms) = 10 * nat (sint ms)"
proof -
  define m where "m = nat (sint ms)"
  define q r where "q = m div 1000" and "r = m mod 1000"
  have m: "sint ms = int m" "m < 214749000" using assms by (simp_all add: m_def)
  have qr: "m = 1000 * q + r" "q \<le> 214748" "r < 1000" using m(2) by (simp_all add: q_def r_def)
  have 1: "unat (10000 * of_nat q :: u32) = 10000 * q"
    using qr(2) unat_of_nat_id [of "10000 * q", where 'a = 32] by simp
  have "unat (10000 * of_nat r + 999 :: u32) = 10000 * r + 999"
    using qr(3) unat_of_nat_id [of "10000 * r + 999", where 'a = 32] by simp
  then have 2: "unat ((10000 * of_nat r + 999 :: u32) div 1000) = 10 * r"
    by (simp add: unat_div ticks_of_rest)
  have "rt_tick_from_millisecond ms = 10000 * of_nat q + (10000 * of_nat r + 999) div 1000"
  proof -
    have "int m div 1000 = int q" "int m mod 1000 = int r" by (simp_all add: q_def r_def zdiv_int zmod_int)
    then show ?thesis
      by (simp add: rt_tick_from_millisecond_def RT_TICK_PER_SECOND_def Let_def m(1))
  qed
  moreover have "unat (10000 * of_nat q :: u32) + unat ((10000 * of_nat r + 999 :: u32) div 1000) < 2 ^ 32"
    unfolding 1 2 using qr by simp
  ultimately have "unat (rt_tick_from_millisecond ms) = 10000 * q + 10 * r"
    using 1 2 by (simp add: unat_word_ariths)
  then show ?thesis using qr(1) m by simp
qed

section \<open>The clock interrupt\<close>

text \<open>One tick takes every pending timer one step nearer to its timeout.\<close>

abbreviation age :: "kernel \<Rightarrow> kernel" where
  "age k \<equiv> k\<lparr>rt_tick := rt_tick k + 1\<rparr>"

lemma age_facts [simp]:
  "thread_state (age k) = thread_state k" "prio_ok (age k) = prio_ok k"
  "live (age k) = live k" "active (age k) = active k" "one_shot (age k) = one_shot k"
  "timer_live (age k) = timer_live k"
  by (simp_all add: fun_eq_iff thread_state_def prio_ok_def live_def rt_object_get_type_def
      active_def one_shot_def timer_flag_def timer_live_def)

lemma remaining_age: "0 < remaining k t \<Longrightarrow> remaining (age k) t = remaining k t - 1"
proof -
  assume "0 < remaining k t"
  then have "timeout_tick (timers k t) - rt_tick k \<noteq> 0" by (auto simp: remaining_def unat_eq_0)
  then have "unat (timeout_tick (timers k t) - rt_tick k - 1) =
      unat (timeout_tick (timers k t) - rt_tick k) - 1"
    by (rule unat_minus_one)
  then show ?thesis by (simp add: remaining_def diff_diff_eq)
qed

lemma remaining_pending:
  assumes "due_timers L k = []" "t \<in> set (timer_list L)"
  shows "0 < remaining k t"
  using assms by (auto simp: due_timers_def filter_empty_conv)

lemma kernel_ok_age:
  assumes ok: "kernel_ok L k" and nd: "due_timers L k = []"
  shows "kernel_ok L (age k)"
proof -
  note o = kernel_okD [OF ok]
  note to = timers_okD [OF o(2)]
  have r: "remaining (age k) t = remaining k t - 1" if "t \<in> set (timer_list L)" for t
    using remaining_age remaining_pending [OF nd that] by blast
  have "sorted (map (\<lambda>t. remaining k t - 1) ts)" if "sorted (map (remaining k) ts)" for ts
    using that by (induction ts) auto
  then have "sorted (map (remaining (age k)) (timer_list L))"
    using to(3) r by (metis (no_types, lifting) map_cong)
  moreover have "remaining (age k) t < unat HALF_TICK_MAX" if "t \<in> set (timer_list L)" for t
    using to(4) [OF that] r [OF that] by (simp add: less_imp_diff_less)
  ultimately have "timers_ok {} L (age k)"
    using o(2) unfolding timers_ok_def by simp
  then show ?thesis using o(1,3) by (simp add: kernel_ok_def queue_ok_def threads_ok_def)
qed

lemma bystanders_age: "bystanders L k L (age k)"
  by (simp add: bystanders_def cpu_ok_def runs_highest_def split: option.splits)

abbreviation set_slice :: "tid \<Rightarrow> ((tid \<Rightarrow> rt_thread) \<Rightarrow> u32) \<Rightarrow> kernel \<Rightarrow> kernel" where
  "set_slice t x \<equiv> threads_update (\<lambda>m. m(t := (m t)\<lparr>remaining_tick := x m\<rparr>))"

lemma kernel_ok_slice: "kernel_ok L (set_slice t x k) = kernel_ok L k"
  by (rule kernel_ok_cong) simp_all

lemma slice_facts [simp]: "thread_state (set_slice t x k) = thread_state k"
  by (simp add: fun_eq_iff thread_state_def)

lemma bystanders_slice: "bystanders L k L (set_slice t x k)"
  by (simp add: bystanders_def cpu_ok_def runs_highest_def split: option.splits)

lemma check_state_slice:
  "check_state callable L (set_slice t x k) = check_state callable L k"
  by (simp add: check_state_def timeouts_ok_def kernel_ok_slice)

lemma requeue_Timer:
  assumes "kernel_ok L k"
  shows "requeue k t L Timer_head = L Timer_head" "timer_list (requeue k t L) = timer_list L"
proof -
  have "Tlist t \<notin> set (L Timer_head)" using timers_okD(2) [OF kernel_okD(2) [OF assms]] by auto
  then show "requeue k t L Timer_head = L Timer_head" by (simp add: requeue_def removeAll_id)
  then show "timer_list (requeue k t L) = timer_list L" by (simp add: timer_list_def)
qed

lemma yield_ok:
  assumes st: "check_state callable L k"
    and c: "rt_current_thread k = Some t"
  obtains L' k' where "rt_thread_yield k = Some (RT_EOK, k')" "check_state callable L' k'"
    "bystanders L k L' k'" "thread_state k' = thread_state k" "active k' = active k"
    "remaining k' = remaining k" "rt_tick k' = rt_tick k" "timer_list L' = timer_list L"
proof (cases "thread_state k t = RT_THREAD_READY")
  case False
  have "bystanders L k L k" by (simp add: bystanders_def)
  moreover have "rt_thread_yield k = Some (RT_EOK, k)"
    using c False by (simp add: rt_thread_yield_def thread_state_def)
  ultimately show ?thesis using st that by simp
next
  case ready: True
  note t = c ready
  show ?thesis
  proof (cases "L (Ready_head (prio k t)) = [Tlist t]")
  case True
  have ok: "kernel_ok L k" using st by (simp add: check_state_def)
  have "bystanders L k L k" by (simp add: bystanders_def)
  then show ?thesis using st that rt_thread_yield_closed(1) [where k = k, OF ok t True] by simp
next
  case False
  let ?L = "requeue k t L" and ?k = "yield_thread t k"
  have ok: "kernel_ok L k" and tmp: "L Timer_tmp_head = []" using st by (auto simp: check_state_def)
  have ok': "kernel_ok ?L ?k" by (rule kernel_ok_yield [OF ok t(2)])
  have "?L (Ready_head (prio k t)) \<noteq> []" by (simp add: requeue_def)
  then obtain p u where nx: "is_next_thread ?L p u"
    using next_thread_exists [OF kernel_okD(1) [OF ok']] by blast
  have same: "timers ?k = timers k" "active ?k = active k" "one_shot ?k = one_shot k"
    "rt_current_thread ?k = rt_current_thread k" "thread_state ?k = thread_state k"
    "remaining ?k = remaining k"
    by (simp_all add: yield_thread_def)
  have "rt_thread_yield k = Some (RT_EOK, switch_to p u ?k)"
    by (rule rt_thread_yield_closed(2) [OF ok t False nx])
  moreover have "check_state callable ?L (switch_to p u ?k)"
    using st ok' current_some_switch [of ?k p u] same
    by (simp add: check_state_def timeouts_ok_def requeue_def)
  moreover have "bystanders L k ?L (switch_to p u ?k)"
  proof -
    have "cpu_ok ?k = cpu_ok k" by (rule cpu_ok_cong) (simp_all add: yield_thread_def)
    moreover have "set (?L x) \<subseteq> set (L x)" if "wait_head x" for x
    proof -
      have "x \<noteq> Ready_head (prio k t)" using that by auto
      then show ?thesis by (auto simp: requeue_def)
    qed
    ultimately show ?thesis
      using runs_highest_switch [OF _ nx, of ?k] cpu_ok_switch [of ?k p u]
      by (simp add: bystanders_def yield_thread_def)
  qed
  ultimately show ?thesis
    using that [of "switch_to p u ?k" ?L] requeue_Timer(2) [OF ok] by (simp add: same yield_thread_def)
qed
qed

definition slice_ended :: "tid \<Rightarrow> kernel \<Rightarrow> bool" where
  "slice_ended t k \<longleftrightarrow> remaining_tick (threads k t) = 1"

lemma tick_ok:
  assumes st: "check_state is_thread_timeout L k" and nd: "due_timers L k = []"
    and t: "rt_current_thread k = Some t"
  obtains L' k' where "rt_tick_increase app k = Some k'" "check_state is_thread_timeout L' k'"
    "due_timers L' k' = []" "rt_tick k' = rt_tick k + 1" "bystanders L k L' k'"
    "\<And>u. thread_state k u = RT_THREAD_READY \<Longrightarrow> thread_state k' u = RT_THREAD_READY"
    "\<And>u. pending u L k \<Longrightarrow> thread_state k' u =
       (if remaining k (Thread_timer u) = 1 then RT_THREAD_READY else RT_THREAD_SUSPEND)"
    "\<And>u. pending u L k \<Longrightarrow> remaining k (Thread_timer u) \<noteq> 1 \<Longrightarrow> pending u L' k' \<and>
       remaining k' (Thread_timer u) = remaining k (Thread_timer u) - 1"
proof -
  define k1 where "k1 = set_slice t (\<lambda>m. remaining_tick (m t) - 1) (age k)"
  define k2 where "k2 = set_slice t (\<lambda>m. thread_init_tick (m t)) k1"
  have ok: "kernel_ok L k" using st by (simp add: check_state_def)
  have 0: "check_state is_thread_timeout L (age k)"
    using st kernel_ok_age [OF ok nd] by (simp add: check_state_def timeouts_ok_def)
  then have st1: "check_state is_thread_timeout L k1" unfolding k1_def check_state_slice .
  then have st2: "check_state is_thread_timeout L k2" unfolding k2_def check_state_slice .
  have by1: "bystanders L k L k1"
    unfolding k1_def by (rule bystanders_trans [OF bystanders_age bystanders_slice])
  have by2: "bystanders L k L k2"
    unfolding k2_def by (rule bystanders_trans [OF by1 bystanders_slice])
  have same1: "thread_state k1 = thread_state k" "active k1 = active k" "remaining k1 = remaining (age k)"
      "rt_tick k1 = rt_tick k + 1" "rt_current_thread k1 = rt_current_thread k"
    by (simp_all add: k1_def)
  then have same2: "thread_state k2 = thread_state k" "active k2 = active k" "remaining k2 = remaining (age k)"
      "rt_tick k2 = rt_tick k + 1" "rt_current_thread k2 = rt_current_thread k"
    by (simp_all add: k2_def)
  have t2: "rt_current_thread k2 = Some t" using t same2 by simp
  obtain L3 k3 where y: "rt_thread_yield k2 = Some (RT_EOK, k3)" and st3: "check_state is_thread_timeout L3 k3"
    and by3: "bystanders L k2 L3 k3" and same3: "thread_state k3 = thread_state k2" "active k3 = active k2"
      "remaining k3 = remaining k2" "rt_tick k3 = rt_tick k2" "timer_list L3 = timer_list L"
    by (rule yield_ok [OF st2 t2])
  define k4 where "k4 = (if remaining_tick (threads k1 t) = 0 then k3 else k1)"
  define L4 where "L4 = (if remaining_tick (threads k1 t) = 0 then L3 else L)"
  have st': "check_state is_thread_timeout L4 k4" and by': "bystanders L k L4 k4"
    using st1 st3 by1 bystanders_trans [OF by2 by3] by (simp_all add: k4_def L4_def)
  have same: "thread_state k4 = thread_state k" "active k4 = active k" "rt_tick k4 = rt_tick k + 1"
    "timer_list L4 = timer_list L" "remaining k4 = remaining (age k)"
    using same1 same2 same3 by (simp_all add: k4_def L4_def)
  have run: "rt_tick_increase app k = rt_timer_check (run_timeout app) k4"
    using t y unfolding rt_tick_increase_def rt_thread_self_def Let_def k4_def k2_def k1_def by simp
  obtain L' k' where 1: "rt_timer_check (run_timeout app) k4 = Some k'"
    "check_state is_thread_timeout L' k'" "rt_tick k' = rt_tick k4" "isr_keeps L4 k4 L' k'"
    "due_timers L' k' = []"
    "\<forall>u. thread_state k4 u = RT_THREAD_READY \<longrightarrow> thread_state k' u = RT_THREAD_READY"
    "\<forall>u. pending u L4 k4 \<longrightarrow> thread_state k' u = RT_THREAD_READY \<or>
       pending u L' k' \<and> remaining k' (Thread_timer u) = remaining k4 (Thread_timer u)"
    "\<forall>u. Thread_timer u \<in> set (due_timers L4 k4) \<longrightarrow> thread_state k' u = RT_THREAD_READY"
    by (rule rt_timer_check_ok [OF st', of app])
  have pend: "thread_state k u = RT_THREAD_SUSPEND \<and>
      remaining k4 (Thread_timer u) = remaining k (Thread_timer u) - 1 \<and>
      0 < remaining k (Thread_timer u) \<and> pending u L4 k4"
    if u: "pending u L k" for u
    unfolding same
    using u remaining_pending [OF nd] remaining_age kernel_ok_active [OF ok]
      timers_okD(4) [OF kernel_okD(2) [OF ok]]
    by (simp add: pending_def same)
  show ?thesis
  proof (rule that)
    show "rt_tick_increase app k = Some k'" using run 1(1) by simp
    show "bystanders L k L' k'"
      using by' 1(4) bystanders_trans by (fastforce simp: isr_keeps_def isr_frame_def)
    fix u assume u: "pending u L k"
    note p = pend [OF u]
    have s: "thread_state k' u = (if remaining k4 (Thread_timer u) = 0 then RT_THREAD_READY
        else RT_THREAD_SUSPEND)"
      using p 1(8) 1(4) unfolding isr_keeps_def due_in_list same by (simp add: pending_def same)
    then show "thread_state k' u =
        (if remaining k (Thread_timer u) = 1 then RT_THREAD_READY else RT_THREAD_SUSPEND)"
      using p by auto
    assume "remaining k (Thread_timer u) \<noteq> 1"
    then have "thread_state k' u \<noteq> RT_THREAD_READY" using s p by auto
    then show "pending u L' k' \<and> remaining k' (Thread_timer u) = remaining k (Thread_timer u) - 1"
      using 1(7) p by auto
  qed (use 1 same in simp_all)
qed

section \<open>Sleeping\<close>

text \<open>A kernel in thread context between two ticks, perhaps in the middle of a call that has enabled
  the interrupts again and has still to call \<^verbatim>\<open>rt_schedule\<close>.\<close>

definition window_ready :: "(node \<Rightarrow> node list) \<Rightarrow> kernel \<Rightarrow> bool" where
  "window_ready L k \<longleftrightarrow> check_state is_thread_timeout L k \<and> due_timers L k = [] \<and>
     rt_scheduler_lock_nest k = 0"

text \<open>The same, outside of such calls: the running thread is the one the scheduler would choose.\<close>

definition tick_ready :: "(node \<Rightarrow> node list) \<Rightarrow> kernel \<Rightarrow> bool" where
  "tick_ready L k \<longleftrightarrow> check_state is_thread_timeout L k \<and> due_timers L k = [] \<and>
     rt_scheduler_lock_nest k = 0 \<and> runs_highest L k"

lemma tick_ready_window: "tick_ready L k \<longleftrightarrow> window_ready L k \<and> runs_highest L k"
  by (auto simp: tick_ready_def window_ready_def)

lemma window_readyD:
  assumes "window_ready L k"
  shows "kernel_ok L k" "L Timer_tmp_head = []" "due_timers L k = []"
    "timeouts_ok is_thread_timeout k" "rt_scheduler_lock_nest k = 0" "rt_current_thread k \<noteq> None"
  using assms by (auto simp: window_ready_def check_state_def)

lemma window_ready_switch:
  assumes w: "window_ready L k" and nx: "is_next_thread L p u"
  shows "tick_ready L (switch_to p u k)"
proof -
  have "timeouts_ok is_thread_timeout (switch_to p u k) = timeouts_ok is_thread_timeout k"
    by (simp add: timeouts_ok_def)
  moreover have "due_timers L (switch_to p u k) = due_timers L k" by (simp add: due_timers_def)
  moreover have "runs_highest L (switch_to p u k)"
    using window_readyD(5) [OF w] nx by (rule runs_highest_switch)
  ultimately show ?thesis
    using w current_some_switch [of k p u] by (simp add: tick_ready_def window_ready_def check_state_def)
qed

lemma tick_ready_current:
  assumes "tick_ready L k"
  obtains t where "rt_current_thread k = Some t" "thread_state k t = RT_THREAD_READY"
    "is_next_thread L (prio k t) t"
proof -
  from assms have ok: "kernel_ok L k" and r: "runs_highest L k" "rt_current_thread k \<noteq> None"
    by (auto simp: tick_ready_def check_state_def)
  then obtain t p where "rt_current_thread k = Some t" "is_next_thread L p t"
    by (auto simp: runs_highest_def)
  then show ?thesis using next_thread_ready [OF kernel_okD(1) [OF ok], of p t] that by auto
qed

lemma window_step:
  assumes st: "window_ready L k"
  obtains L' k' where "rt_tick_increase app k = Some k'" "window_ready L' k'" "rt_tick k' = rt_tick k + 1"
    "bystanders L k L' k'"
    "\<forall>u. thread_state k u = RT_THREAD_READY \<longrightarrow> thread_state k' u = RT_THREAD_READY"
    "\<forall>u. pending u L k \<longrightarrow> thread_state k' u =
       (if remaining k (Thread_timer u) = 1 then RT_THREAD_READY else RT_THREAD_SUSPEND)"
    "\<forall>u. pending u L k \<longrightarrow> remaining k (Thread_timer u) \<noteq> 1 \<longrightarrow> pending u L' k' \<and>
       remaining k' (Thread_timer u) = remaining k (Thread_timer u) - 1"
proof -
  obtain t where t: "rt_current_thread k = Some t" using window_readyD(6) [OF st] by blast
  from st have st': "check_state is_thread_timeout L k" "due_timers L k = []"
    and lr: "rt_scheduler_lock_nest k = 0" by (simp_all add: window_ready_def)
  show ?thesis
  proof (rule tick_ok [OF st' t, of app])
    fix L' k'
    assume 1: "rt_tick_increase app k = Some k'" "check_state is_thread_timeout L' k'"
      "due_timers L' k' = []" "rt_tick k' = rt_tick k + 1" "bystanders L k L' k'"
      "\<And>u. thread_state k u = RT_THREAD_READY \<Longrightarrow> thread_state k' u = RT_THREAD_READY"
      "\<And>u. pending u L k \<Longrightarrow> thread_state k' u =
         (if remaining k (Thread_timer u) = 1 then RT_THREAD_READY else RT_THREAD_SUSPEND)"
      "\<And>u. pending u L k \<Longrightarrow> remaining k (Thread_timer u) \<noteq> 1 \<Longrightarrow> pending u L' k' \<and>
         remaining k' (Thread_timer u) = remaining k (Thread_timer u) - 1"
    have "window_ready L' k'"
      using 1(2,3,5) lr by (simp add: window_ready_def bystanders_def)
    then show thesis using that 1 by blast
  qed
qed

lemma tick_ready_step:
  assumes st: "tick_ready L k"
  obtains L' k' where "rt_tick_increase app k = Some k'" "tick_ready L' k'" "rt_tick k' = rt_tick k + 1"
    "bystanders L k L' k'"
    "\<forall>u. thread_state k u = RT_THREAD_READY \<longrightarrow> thread_state k' u = RT_THREAD_READY"
    "\<forall>u. pending u L k \<longrightarrow> thread_state k' u =
       (if remaining k (Thread_timer u) = 1 then RT_THREAD_READY else RT_THREAD_SUSPEND)"
    "\<forall>u. pending u L k \<longrightarrow> remaining k (Thread_timer u) \<noteq> 1 \<longrightarrow> pending u L' k' \<and>
       remaining k' (Thread_timer u) = remaining k (Thread_timer u) - 1"
proof -
  have w: "window_ready L k" using st by (simp add: tick_ready_window)
  show ?thesis
  proof (rule window_step [OF w, of app], rule that)
    fix L' k' assume 1: "window_ready L' k'" "bystanders L k L' k'"
    then show "tick_ready L' k'"
      using st window_readyD(5) [OF w] by (simp add: tick_ready_window bystanders_def)
  qed assumption+
qed

text \<open>The clock alone, \<open>n\<close> times.\<close>

fun ticks :: "(nat \<Rightarrow> u32 \<Rightarrow> kernel \<Rightarrow> kernel option) \<Rightarrow> nat \<Rightarrow> kernel \<Rightarrow> kernel option" where
  "ticks app 0 k = Some k"
| "ticks app (Suc n) k = do { k \<leftarrow> rt_tick_increase app k; ticks app n k }"

lemma ticks_wake:
  assumes "tick_ready L k" "pending u L k" "remaining k (Thread_timer u) = m" "n \<le> m"
  shows "\<exists>L' k'. ticks app n k = Some k' \<and> tick_ready L' k' \<and>
    thread_state k' u = (if n = m then RT_THREAD_READY else RT_THREAD_SUSPEND)"
  using assms
proof (induction n arbitrary: L k m)
  case 0
  then have ok: "kernel_ok L k" and nd: "due_timers L k = []"
    by (auto simp: tick_ready_def check_state_def)
  have "0 < m" using remaining_pending [OF nd, of "Thread_timer u"] 0 by (simp add: pending_def)
  moreover have "thread_state k u = RT_THREAD_SUSPEND"
    using kernel_ok_active [OF ok] timers_okD(4) [OF kernel_okD(2) [OF ok]] 0 by (simp add: pending_def)
  ultimately show ?case using 0 by auto
next
  case (Suc n)
  obtain L' k' where 1: "rt_tick_increase app k = Some k'" "tick_ready L' k'"
    and u: "thread_state k' u = (if m = 1 then RT_THREAD_READY else RT_THREAD_SUSPEND)"
      "m \<noteq> 1 \<longrightarrow> pending u L' k' \<and> remaining k' (Thread_timer u) = m - 1"
    using tick_ready_step [OF Suc.prems(1), of app] Suc.prems(2,3) by metis
  show ?case
  proof (cases "m = 1")
    case True
    then show ?thesis using 1 u Suc.prems(4) by auto
  next
    case False
    have "n \<le> m - 1" using Suc.prems(4) by simp
    with Suc.IH [OF 1(2)] u(2) False
    obtain L'' k'' where "ticks app n k' = Some k''" "tick_ready L'' k''"
      "thread_state k'' u = (if n = m - 1 then RT_THREAD_READY else RT_THREAD_SUSPEND)"
      by blast
    then show ?thesis using 1(1) Suc.prems(4) False by auto
  qed
qed

lemma remaining_suspend: "remaining (suspend_thread t k) = remaining k"
  by (simp add: remaining_def fun_eq_iff)

lemma sleep_timer_facts:
  "remaining (sleep_thread t tick L k) x = (if x = Thread_timer t then unat tick else remaining k x)"
  "active (sleep_thread t tick L k) x \<longleftrightarrow> x = Thread_timer t \<or> active k x"
  "one_shot (sleep_thread t tick L k) = one_shot k"
  "timeout_func (timers (sleep_thread t tick L k) x) = timeout_func (timers k x)"
  "x \<noteq> Thread_timer t \<Longrightarrow> init_tick (timers (sleep_thread t tick L k) x) = init_tick (timers k x)"
  by (simp_all add: sleep_thread_def Let_def remaining_suspend)

lemma sleep_ring_facts:
  assumes ok: "kernel_ok L k"
  shows "set (timer_list (sleep_ring t tick L k)) = insert (Thread_timer t) (set (timer_list L))"
    "L Timer_tmp_head = [] \<Longrightarrow> sleep_ring t tick L k Timer_tmp_head = []"
    "sleep_ring t tick L k (Ready_head i) = removeAll (Tlist t) (L (Ready_head i))"
proof -
  note tm = kernel_okD(2) [OF ok]
  let ?k = "upd_timer (Thread_timer t) (\<lambda>tm. tm\<lparr>init_tick := tick\<rparr>) (suspend_thread t k)"
  let ?L = "without (Tlist t) L" and ?T = "Thread_timer t"
  have "Tlist t \<notin> set (L Timer_head)" using timers_okD(2) [OF tm] by auto
  then have "?L Timer_head = L Timer_head" by (rule removeAll_id)
  then have tl: "timer_list ?L = timer_list L" by (simp add: timer_list_def)
  have "timer_list (start_ring ?k ?T ?L) = (let n = unat tick; ts = removeAll ?T (timer_list L)
      in earlier ?k n ts @ ?T # later ?k n ts)"
    by (intro timer_list_map) (simp add: start_ring_def Let_def tl)
  then have "set (timer_list (start_ring ?k ?T ?L)) = insert ?T (set (removeAll ?T (timer_list L)))"
    by (simp add: Let_def set_earlier_later)
  then show "set (timer_list (sleep_ring t tick L k)) = insert ?T (set (timer_list L))"
    by (auto simp: sleep_ring_def)
  have "Row v \<notin> set (L (Ready_head i))" for v
    using queue_ok_member [OF kernel_okD(1) [OF ok], of "Row v" i] by auto
  then show "sleep_ring t tick L k (Ready_head i) = removeAll (Tlist t) (L (Ready_head i))"
    by (simp add: sleep_ring_def start_ring_def Let_def removeAll_id)
qed (simp add: sleep_ring_def start_ring_def Let_def)

lemma sleep_window:
  assumes st: "window_ready L k" and t: "rt_current_thread k = Some t" "thread_state k t = RT_THREAD_READY"
    and tick: "0 < tick" "tick < HALF_TICK_MAX"
  shows "window_ready (sleep_ring t tick L k) (sleep_thread t tick (without (Tlist t) L) k)"
proof -
  note w = window_readyD [OF st]
  let ?L = "sleep_ring t tick L k" and ?s = "sleep_thread t tick (without (Tlist t) L) k"
  note sl = sleep_closed(2) [OF w(1) t tick(2)]
  have tl: "timer_live k t" using kernel_ok_live(2) [OF w(1), of t] t(2) by simp
  have "timeouts_ok is_thread_timeout ?s"
    unfolding timeouts_ok_def
  proof (intro allI impI)
    fix x assume "active ?s x"
    then have a: "x = Thread_timer t \<or> x \<noteq> Thread_timer t \<and> active k x" by (auto simp: sleep_timer_facts)
    then show "is_thread_timeout (timeout_func (timers ?s x)) \<and>
        (\<not> one_shot ?s x \<longrightarrow> 0 < init_tick (timers ?s x) \<and> init_tick (timers ?s x) < HALF_TICK_MAX) \<and>
        (\<forall>t. timeout_func (timers ?s x) = Rt_thread_timeout t \<longrightarrow> x = Thread_timer t)"
    proof
      assume "x = Thread_timer t"
      then show ?thesis using tl by (simp add: sleep_timer_facts timer_live_def)
    next
      assume x: "x \<noteq> Thread_timer t \<and> active k x"
      then show ?thesis using w(4) by (simp add: sleep_timer_facts timeouts_ok_def)
    qed
  qed
  moreover have "due_timers ?L ?s = []"
    using w(3) tick(1) unfolding due_timers_def filter_empty_conv sleep_ring_facts(1) [OF w(1)]
    by (auto simp: sleep_timer_facts unat_gt_0)
  ultimately show ?thesis
    using sl t w(5) sleep_ring_facts(2) [OF w(1,2)] by (simp add: window_ready_def check_state_def)
qed

lemma sleep_frame:
  assumes "s = sleep_thread t tick (without (Tlist t) L) k"
  shows "cpu_ok s = cpu_ok k" "live s = live k"
    "\<And>ob. \<forall>u. ob \<noteq> Obj_timer u \<Longrightarrow> objects s ob = objects k ob"
    "\<And>w. current_priority (threads s w) = current_priority (threads k w)"
    "\<And>x. wait_head x \<Longrightarrow> set (sleep_ring t tick L k x) \<subseteq> set (L x)"
proof -
  show "cpu_ok s = cpu_ok k"
    unfolding assms by (rule cpu_ok_cong) (simp_all add: sleep_thread_def Let_def begin_timer_def suspend_thread_def
        remove_ready_def)
  show "objects s ob = objects k ob" if "\<forall>u. ob \<noteq> Obj_timer u" for ob
    using that by (simp add: assms sleep_thread_def Let_def begin_timer_def)
  show "live s = live k" by (simp add: assms sleep_thread_def Let_def fun_eq_iff)
  show "current_priority (threads s w) = current_priority (threads k w)" for w
    by (simp add: assms sleep_thread_def Let_def)
  show "set (sleep_ring t tick L k x) \<subseteq> set (L x)" if "wait_head x" for x
  proof -
    have "x \<noteq> Timer_head" using that by auto
    then show ?thesis by (auto simp: sleep_ring_def start_ring_def Let_def)
  qed
qed

lemma sleep_tick_ready:
  assumes st: "tick_ready L k" and t: "rt_current_thread k = Some t"
    and tick: "0 < tick" "tick < HALF_TICK_MAX" and u: "thread_state k u = RT_THREAD_READY" "u \<noteq> t"
  obtains L' k' where "rt_thread_sleep tick k = Some k'" "tick_ready L' k'" "pending t L' k'"
    "remaining k' (Thread_timer t) = unat tick" "bystanders L k L' k'"
    "\<forall>v. v \<noteq> t \<longrightarrow> thread_state k' v = thread_state k v"
proof -
  have w: "window_ready L k" using st by (simp add: tick_ready_window)
  note ok = window_readyD(1) [OF w]
  have ready: "thread_state k t = RT_THREAD_READY" using tick_ready_current [OF st] t by fastforce
  let ?L = "sleep_ring t tick L k" and ?s = "sleep_thread t tick (without (Tlist t) L) k"
  note w' = sleep_window [OF w t ready tick]
  have "Tlist u \<in> set (?L (Ready_head (prio k u)))"
    using queue_ok_ready [OF kernel_okD(1) [OF ok] _ u(1)] u(2) by (simp add: sleep_ring_facts(3) [OF ok])
  then obtain p v where nx: "is_next_thread ?L p v"
    using next_thread_exists [OF kernel_okD(1) [OF window_readyD(1) [OF w']]] by (metis empty_iff list.set(1))
  let ?k = "switch_to p v ?s"
  have run: "rt_thread_sleep tick k = Some ?k" by (rule rt_thread_sleep_closed [OF ok t ready tick(2) nx])
  have tr: "tick_ready ?L ?k" by (rule window_ready_switch [OF w' nx])
  have "pending t ?L ?k" by (simp add: pending_def sleep_ring_facts(1) [OF ok])
  moreover have "remaining ?k (Thread_timer t) = unat tick" by (simp add: sleep_timer_facts)
  moreover have "bystanders L k ?L ?k"
    using tr cpu_ok_switch [of ?s p v] sleep_frame [OF refl, where t = t and tick = tick and L = L and k = k]
    unfolding bystanders_def tick_ready_def by simp
  ultimately show ?thesis using that [OF run tr] by simp
qed

section \<open>Properties\<close>

lemma demo_tick_ready: "tick_ready demo_ring demo"
proof -
  have na: "\<not> active demo x" for x
    by (auto simp: demo_def active_def timer_flag_def startup_thread_def resume_thread_def
        stop_timer_def insert_ready_def prepare_thread_def boot_def)
  have "timer_list demo_ring = []" by (simp add: timer_list_def demo_ring_def map_filter_simps)
  then have "due_timers demo_ring demo = []" by (simp add: due_timers_def)
  moreover have "check_state is_thread_timeout demo_ring demo"
    using demo_ok na by (simp add: check_state_def timeouts_ok_def) (simp add: demo_ring_def)
  moreover have "runs_highest demo_ring demo" using demo_next by (auto simp: runs_highest_def)
  ultimately show ?thesis by (simp add: tick_ready_def)
qed

text \<open>C4: The clock interrupt \<^verbatim>\<open>rt_tick_increase\<close> always returns (its loop
  \<^verbatim>\<open>rt_timer_check\<close> ends, no assertion fails), whatever the application's timeout functions are, as long as the
  active timers are thread timers: the tick is counted, the invariant of the kernel and the
  choice of the running thread are kept, no due timer is left, ready threads stay ready, and
  exactly those sleeping threads wake up whose timer had one tick left; the others have one tick
  less to sleep.\<close>

theorem rt_tick_increase_wakes_due:
  assumes "tick_ready L k"
  shows "\<exists>L' k'. rt_tick_increase app k = Some k' \<and> kernel_ok L' k' \<and> due_timers L' k' = [] \<and>
    rt_tick k' = rt_tick k + 1 \<and> runs_highest L' k' \<and>
    (\<forall>u. thread_state k u = RT_THREAD_READY \<longrightarrow> thread_state k' u = RT_THREAD_READY) \<and>
    (\<forall>u. Thread_timer u \<in> set (timer_list L) \<longrightarrow>
       (if remaining k (Thread_timer u) = 1 then thread_state k' u = RT_THREAD_READY
        else thread_state k' u = RT_THREAD_SUSPEND \<and> Thread_timer u \<in> set (timer_list L') \<and>
          remaining k' (Thread_timer u) = remaining k (Thread_timer u) - 1))"
proof -
  obtain L' k' where 1: "rt_tick_increase app k = Some k'" "tick_ready L' k'" "rt_tick k' = rt_tick k + 1"
    "\<forall>u. thread_state k u = RT_THREAD_READY \<longrightarrow> thread_state k' u = RT_THREAD_READY"
    "\<forall>u. pending u L k \<longrightarrow> thread_state k' u =
       (if remaining k (Thread_timer u) = 1 then RT_THREAD_READY else RT_THREAD_SUSPEND)"
    "\<forall>u. pending u L k \<longrightarrow> remaining k (Thread_timer u) \<noteq> 1 \<longrightarrow> pending u L' k' \<and>
       remaining k' (Thread_timer u) = remaining k (Thread_timer u) - 1"
    by (rule tick_ready_step [OF assms, of app])
  then show ?thesis by (intro exI [of _ L'] exI [of _ k']) (simp add: tick_ready_def check_state_def pending_def)
qed

theorem rt_tick_increase_wakes_due_witness:
  "\<exists>k'. rt_tick_increase (\<lambda>_ _ _. None) demo = Some k' \<and> rt_tick k' = 101 \<and>
     thread_state k' 2 = RT_THREAD_READY"
  using rt_tick_increase_wakes_due [OF demo_tick_ready, of "\<lambda>_ _ _. None"] by auto

text \<open>C3: A thread that calls \<^verbatim>\<open>rt_thread_sleep\<close> for \<open>tick\<close> ticks (at least one, less than half
  the tick range) gives up the processor and sleeps through the next \<open>tick - 1\<close> clock
  interrupts; the interrupt number \<open>tick\<close> makes it ready again.  Neither the tick counter
  wrapping around nor other sleepers matter.\<close>

theorem rt_thread_sleep_wakes:
  assumes "tick_ready L k" "rt_current_thread k = Some t" "0 < tick" "tick < HALF_TICK_MAX"
    and "thread_state k u = RT_THREAD_READY" "u \<noteq> t"
  shows "\<exists>k0. rt_thread_sleep tick k = Some k0 \<and> rt_current_thread k0 \<noteq> Some t \<and>
    (\<forall>n \<le> unat tick. \<exists>k'. ticks app n k0 = Some k' \<and>
      thread_state k' t = (if n = unat tick then RT_THREAD_READY else RT_THREAD_SUSPEND))"
proof -
  obtain L0 k0 where 1: "rt_thread_sleep tick k = Some k0" "tick_ready L0 k0" "pending t L0 k0"
    "remaining k0 (Thread_timer t) = unat tick"
    by (rule sleep_tick_ready [OF assms])
  then have "\<exists>k'. ticks app n k0 = Some k' \<and>
      thread_state k' t = (if n = unat tick then RT_THREAD_READY else RT_THREAD_SUSPEND)"
    if "n \<le> unat tick" for n
    using ticks_wake [OF 1(2-4) that, of app] by blast
  moreover have "thread_state k0 t = RT_THREAD_SUSPEND"
    using ticks_wake [OF 1(2-4), of 0 app] assms(3) by (simp add: unat_gt_0)
  then have "rt_current_thread k0 \<noteq> Some t" using tick_ready_current [OF 1(2)] by fastforce
  ultimately show ?thesis using 1(1) by blast
qed

theorem rt_thread_sleep_wakes_witness:
  "\<exists>k0 k'. rt_thread_sleep 5 demo = Some k0 \<and> ticks (\<lambda>_ _ _. None) 5 k0 = Some k' \<and>
     thread_state k' 2 = RT_THREAD_READY"
proof -
  have five: "5 < HALF_TICK_MAX" by (simp add: word_less_nat_alt half_tick)
  from rt_thread_sleep_wakes [OF demo_tick_ready demo_facts(1) _ five demo_facts(3), of "\<lambda>_ _ _. None"]
  obtain k0 where "rt_thread_sleep 5 demo = Some k0"
    "\<forall>n \<le> unat (5 :: u32). \<exists>k'. ticks (\<lambda>_ _ _. None) n k0 = Some k' \<and>
      thread_state k' 2 = (if n = unat (5 :: u32) then RT_THREAD_READY else RT_THREAD_SUSPEND)"
    by auto
  moreover from this obtain k' where "ticks (\<lambda>_ _ _. None) 5 k0 = Some k'"
    "thread_state k' 2 = RT_THREAD_READY" by (auto dest: spec [of _ 5])
  ultimately show ?thesis by blast
qed

text \<open>C39: \<^verbatim>\<open>rt_tick_from_millisecond\<close> is exact, with 10000 ticks per second, for times of up
  to 214748 seconds; beyond, the 32-bit product \<open>RT_TICK_PER_SECOND * (ms / 1000)\<close> does not fit
  a signed integer any more, although the documentation allows arguments up to 0x7fffffff.\<close>

theorem rt_tick_from_millisecond_exact:
  assumes "0 \<le> sint ms" "sint ms < 214749000"
  shows "unat (rt_tick_from_millisecond ms) = 10 * nat (sint ms)"
  by (rule ticks_exact [OF assms])

theorem rt_tick_from_millisecond_exact_witness: "unat (rt_tick_from_millisecond 1500) = 15000"
  using rt_tick_from_millisecond_exact [of 1500] by simp

lemma rt_tick_from_millisecond_overflow: "rt_tick_from_millisecond 0x7fffffff = 0xfffffff6"
  by (simp add: rt_tick_from_millisecond_def RT_TICK_PER_SECOND_def Let_def)

end
