(* ===== verification/Semaphore.thy ===== *)
theory Semaphore
  imports IpcList Example
begin

text \<open>The semaphores of \<^verbatim>\<open>src/ipc.c\<close>.\<close>

section \<open>The operations\<close>

abbreviation sem_obj :: "nat \<Rightarrow> obj_ptr" where "sem_obj s \<equiv> Obj_sem s"
abbreviation sem_list :: "nat \<Rightarrow> node" where "sem_list s \<equiv> Suspend_head (Obj_sem s)"

abbreviation (input) RT_SEM_VALUE_MAX :: u16 where "RT_SEM_VALUE_MAX \<equiv> 0xffff"

definition rt_sem_init :: "nat \<Rightarrow> char_ptr \<Rightarrow> u32 \<Rightarrow> u8 \<Rightarrow> kernel \<Rightarrow> (err \<times> kernel) option" where
  "rt_sem_init s nm v fl k = do {
     RT_ASSERT (v < 0x10000);
     k \<leftarrow> rt_object_init (sem_obj s) RT_Object_Class_Semaphore nm k;
     let k = rt_ipc_object_init (sem_obj s) k;
     let k = upd_sem s (\<lambda>sem. sem\<lparr>sem_value := ucast v\<rparr>) k;
     let k = upd_object (sem_obj s) (\<lambda>ob. ob\<lparr>flag := fl\<rparr>) k;
     Some (RT_EOK, k)
   }"

definition rt_sem_detach :: "nat \<Rightarrow> kernel \<Rightarrow> (err \<times> kernel) option" where
  "rt_sem_detach s k = do {
     RT_ASSERT (rt_object_get_type (sem_obj s) k = RT_Object_Class_Semaphore);
     RT_ASSERT (rt_object_is_systemobject (sem_obj s) k);
     (_, k) \<leftarrow> rt_ipc_list_resume_all (sem_list s) k;
     Some (RT_EOK, rt_object_detach (sem_obj s) k)
   }"

definition rt_sem_take :: "nat \<Rightarrow> u32 \<Rightarrow> kernel \<Rightarrow> (tid outcome \<times> kernel) option" where
  "rt_sem_take s time k = do {
     RT_ASSERT (rt_object_get_type (sem_obj s) k = RT_Object_Class_Semaphore);
     if sem_value (sems k s) > 0
     then Some (Done RT_EOK, upd_sem s (\<lambda>sem. sem\<lparr>sem_value := sem_value sem - 1\<rparr>) k)
     else if time = 0 then Some (Done (- RT_ETIMEOUT), k)
     else do {
       t \<leftarrow> rt_thread_self k;
       let k = upd_thread t (\<lambda>th. th\<lparr>error := RT_EOK\<rparr>) k;
       k \<leftarrow> ipc_wait (sem_list s) t (flag (objects k (sem_obj s))) time k;
       k \<leftarrow> rt_schedule k;
       Some (Blocked t, k)
     }
   }"

definition rt_sem_take_wake :: "tid \<Rightarrow> kernel \<Rightarrow> err" where
  "rt_sem_take_wake t k =
     (if error (threads k t) \<noteq> RT_EOK then error (threads k t) else RT_EOK)"

definition rt_sem_trytake :: "nat \<Rightarrow> kernel \<Rightarrow> (tid outcome \<times> kernel) option" where
  "rt_sem_trytake s k = rt_sem_take s 0 k"

definition rt_sem_release :: "nat \<Rightarrow> kernel \<Rightarrow> (err \<times> kernel) option" where
  "rt_sem_release s k = do {
     RT_ASSERT (rt_object_get_type (sem_obj s) k = RT_Object_Class_Semaphore);
     if \<not> rt_list_isempty (sem_list s) (lists k) then do {
       (_, k) \<leftarrow> rt_ipc_list_resume (sem_list s) k;
       k \<leftarrow> rt_schedule k;
       Some (RT_EOK, k)
     }
     else if sem_value (sems k s) < RT_SEM_VALUE_MAX
     then Some (RT_EOK, upd_sem s (\<lambda>sem. sem\<lparr>sem_value := sem_value sem + 1\<rparr>) k)
     else Some (- RT_EFULL, k)
   }"

text \<open>\<open>arg\<close> is the pointer argument, whose bits are the new value.\<close>

definition rt_sem_control :: "nat \<Rightarrow> int \<Rightarrow> u32 \<Rightarrow> kernel \<Rightarrow> (err \<times> kernel) option" where
  "rt_sem_control s cmd arg k = do {
     RT_ASSERT (rt_object_get_type (sem_obj s) k = RT_Object_Class_Semaphore);
     if cmd = RT_IPC_CMD_RESET then do {
       (_, k) \<leftarrow> rt_ipc_list_resume_all (sem_list s) k;
       let k = upd_sem s (\<lambda>sem. sem\<lparr>sem_value := ucast arg\<rparr>) k;
       k \<leftarrow> rt_schedule k;
       Some (RT_EOK, k)
     }
     else Some (- RT_ERROR, k)
   }"

section \<open>What they do\<close>

definition sem_ok :: "(node \<Rightarrow> node list) \<Rightarrow> kernel \<Rightarrow> nat \<Rightarrow> bool" where
  "sem_ok L k s \<longleftrightarrow> ipc_ok k (sem_obj s) \<and> (waiting L (sem_list s) \<noteq> [] \<longrightarrow> sem_value (sems k s) = 0)"

lemma sem_type: "sem_ok L k s \<Longrightarrow> rt_object_get_type (sem_obj s) k = RT_Object_Class_Semaphore"
  by (simp add: sem_ok_def ipc_ok_def live_def)

text \<open>The three outcomes of \<open>rt_sem_take\<close>.\<close>

lemma sem_take_available:
  assumes "sem_ok L k s" "sem_value (sems k s) > 0"
  shows "rt_sem_take s time k =
    Some (Done RT_EOK, upd_sem s (\<lambda>sem. sem\<lparr>sem_value := sem_value sem - 1\<rparr>) k)"
  using assms by (simp add: rt_sem_take_def sem_type)

lemma sem_take_no_wait:
  assumes "sem_ok L k s" "sem_value (sems k s) = 0"
  shows "rt_sem_take s 0 k = Some (Done (- RT_ETIMEOUT), k)"
  using assms by (simp add: rt_sem_take_def sem_type)

definition sem_block :: "nat \<Rightarrow> u32 \<Rightarrow> tid \<Rightarrow> (node \<Rightarrow> node list) \<Rightarrow> kernel \<Rightarrow> kernel" where
  "sem_block s time t L k = block_thread (sem_list s) (ipc_flag k (sem_obj s)) time t L
     (upd_thread t (\<lambda>th. th\<lparr>error := RT_EOK\<rparr>) k)"

definition sem_block_ring :: "nat \<Rightarrow> u32 \<Rightarrow> tid \<Rightarrow> (node \<Rightarrow> node list) \<Rightarrow> kernel \<Rightarrow> node \<Rightarrow> node list" where
  "sem_block_ring s time t L k = block_ring (sem_list s) (ipc_flag k (sem_obj s)) time t L
     (upd_thread t (\<lambda>th. th\<lparr>error := RT_EOK\<rparr>) k)"

lemma sem_take_blocks:
  assumes ok: "kernel_ok L k" and s: "sem_ok L k s" "sem_value (sems k s) = 0"
    and t: "rt_current_thread k = Some t" "thread_state k t = RT_THREAD_READY"
    and time: "time \<noteq> 0" "sint time > 0 \<Longrightarrow> time < HALF_TICK_MAX"
  shows "kernel_ok (sem_block_ring s time t L k) (sem_block s time t L k)"
    "is_next_thread (sem_block_ring s time t L k) p u \<Longrightarrow>
       rt_sem_take s time k = Some (Blocked t, switch_to p u (sem_block s time t L k))"
proof -
  let ?k = "upd_thread t (\<lambda>th. th\<lparr>error := RT_EOK\<rparr>) k" and ?fl = "ipc_flag k (sem_obj s)"
  have ok': "kernel_ok L ?k" "thread_state ?k t = RT_THREAD_READY" using ok t by simp_all
  have fl: "?fl = RT_IPC_FLAG_FIFO \<or> ?fl = RT_IPC_FLAG_PRIO"
    using s by (simp add: sem_ok_def ipc_ok_def)
  note b = ipc_wait_closed [OF ok' wait_head_Suspend [of "sem_obj s"] fl time(2)]
  show okb: "kernel_ok (sem_block_ring s time t L k) (sem_block s time t L k)"
    using b(2) by (simp add: sem_block_ring_def sem_block_def)
  show "rt_sem_take s time k = Some (Blocked t, switch_to p u (sem_block s time t L k))"
    if nx: "is_next_thread (sem_block_ring s time t L k) p u"
  proof -
    have "rt_schedule (sem_block s time t L k) = Some (switch_to p u (sem_block s time t L k))"
      using t by (intro rt_schedule_closed [OF kernel_okD(1) [OF okb] nx]) (simp add: sem_block_def)
    then show ?thesis
      using s t time(1) b(1) by (simp add: rt_sem_take_def sem_type rt_thread_self_def Let_def
          sem_block_def ipc_flag_def)
  qed
qed

text \<open>The invariant: threads wait only while the value is zero.\<close>

lemma sem_ok_take:
  assumes "sem_ok L k s" "sem_value (sems k s) > 0"
  shows "sem_ok L (upd_sem s (\<lambda>sem. sem\<lparr>sem_value := sem_value sem - 1\<rparr>) k) s"
  using assms by (auto simp: sem_ok_def ipc_ok_def live_def rt_object_get_type_def ipc_flag_def)

lemma sem_ok_block:
  assumes ok: "kernel_ok L k" and s: "sem_ok L k s" "sem_value (sems k s) = 0"
    and t: "thread_state k t = RT_THREAD_READY"
  shows "sem_ok (sem_block_ring s time t L k) (switch_to p u (sem_block s time t L k)) s"
    "waiting (sem_block_ring s time t L k) (sem_list s) =
       wait_before (ipc_flag k (sem_obj s)) k t (waiting L (sem_list s)) @
       t # wait_after (ipc_flag k (sem_obj s)) k t (waiting L (sem_list s))"
proof -
  let ?k = "upd_thread t (\<lambda>th. th\<lparr>error := RT_EOK\<rparr>) k"
  have ok': "kernel_ok L ?k" "thread_state ?k t = RT_THREAD_READY" using ok t by simp_all
  have "current_priority (threads ?k u) = current_priority (threads k u)" for u by simp
  then have wb: "wait_before fl ?k t us = wait_before fl k t us"
    "wait_after fl ?k t us = wait_after fl k t us" for fl us
    by (simp_all add: wait_before_def wait_after_def)
  show "waiting (sem_block_ring s time t L k) (sem_list s) =
       wait_before (ipc_flag k (sem_obj s)) k t (waiting L (sem_list s)) @
       t # wait_after (ipc_flag k (sem_obj s)) k t (waiting L (sem_list s))"
    unfolding sem_block_ring_def waiting_block [OF ok' wait_head_Suspend] wb ..
  show "sem_ok (sem_block_ring s time t L k) (switch_to p u (sem_block s time t L k)) s"
    using s by (simp add: sem_ok_def sem_block_def)
qed

lemma sem_release_wakes:
  assumes ok: "kernel_ok L k" and s: "sem_ok L k s" and w: "waiting L (sem_list s) = t # us"
    and nx: "is_next_thread (resume_ring k t L) p u" and c: "rt_current_thread k \<noteq> None"
  shows "rt_sem_release s k = Some (RT_EOK, switch_to p u (resume_thread t k))"
    "kernel_ok (resume_ring k t L) (switch_to p u (resume_thread t k))"
    "sem_ok (resume_ring k t L) (switch_to p u (resume_thread t k)) s"
    "waiting (resume_ring k t L) (sem_list s) = us"
proof -
  note r = list_resume_closed [OF ok wait_head_Suspend w]
  have "\<not> rt_list_isempty (sem_list s) (lists k)"
    using waiting_empty [OF ok, of "sem_list s"] w by simp
  moreover have "rt_schedule (resume_thread t k) = Some (switch_to p u (resume_thread t k))"
    using c by (intro rt_schedule_closed [OF kernel_okD(1) [OF r(2)] nx]) simp
  ultimately show "rt_sem_release s k = Some (RT_EOK, switch_to p u (resume_thread t k))"
    using s r(1) by (simp add: rt_sem_release_def sem_type)
  show "kernel_ok (resume_ring k t L) (switch_to p u (resume_thread t k))" using r(2) by simp
  have "t \<notin> set us" using waiting_distinct [OF ok, of "sem_list s"] w by simp
  then show "waiting (resume_ring k t L) (sem_list s) = us"
    using waiting_resume [OF ok, of "sem_list s" t] w by (simp add: removeAll_id)
  show "sem_ok (resume_ring k t L) (switch_to p u (resume_thread t k)) s"
    using s w by (simp add: sem_ok_def)
qed

lemma sem_release_no_waiter:
  assumes ok: "kernel_ok L k" and s: "sem_ok L k s" and w: "waiting L (sem_list s) = []"
  shows "rt_sem_release s k = Some (if sem_value (sems k s) < RT_SEM_VALUE_MAX
      then (RT_EOK, upd_sem s (\<lambda>sem. sem\<lparr>sem_value := sem_value sem + 1\<rparr>) k)
      else (- RT_EFULL, k))"
proof -
  have "rt_list_isempty (sem_list s) (lists k)"
    using waiting_empty [OF ok, of "sem_list s"] w by simp
  then show ?thesis using s by (simp add: rt_sem_release_def sem_type)
qed

section \<open>The contract of a semaphore\<close>

text \<open>What a semaphore is to its users: a count and the queue of the threads that wait for it.\<close>

type_synonym sem_view = "nat \<times> tid list"

definition sem_view :: "(node \<Rightarrow> node list) \<Rightarrow> kernel \<Rightarrow> nat \<Rightarrow> sem_view" where
  "sem_view L k s = (unat (sem_value (sems k s)), waiting L (sem_list s))"

text \<open>Taking: \<open>join\<close> puts the caller \<open>t\<close> in its place of the queue.\<close>

fun sem_take_spec :: "(tid list \<Rightarrow> tid list) \<Rightarrow> tid \<Rightarrow> bool \<Rightarrow> sem_view \<Rightarrow> tid outcome \<times> sem_view" where
  "sem_take_spec join t wait (Suc v, ts) = (Done RT_EOK, v, ts)"
| "sem_take_spec join t wait (0, ts) =
     (if wait then (Blocked t, 0, join ts) else (Done (- RT_ETIMEOUT), 0, ts))"

fun sem_release_spec :: "sem_view \<Rightarrow> err \<times> sem_view" where
  "sem_release_spec (v, t # ts) = (RT_EOK, v, ts)"
| "sem_release_spec (v, []) =
     (if v < 0xffff then (RT_EOK, Suc v, []) else (- RT_EFULL, v, []))"

lemma sem_value_zero: "sem_value (sems k s) = 0 \<longleftrightarrow> fst (sem_view L k s) = 0"
  by (simp add: sem_view_def unat_eq_0)

lemma sem_view_frame [simp]:
  "sem_view L (switch_to p u k) s = sem_view L k s"
  by (simp add: sem_view_def)

lemma sem_view_take:
  assumes "sem_value (sems k s) > 0"
  shows "sem_take_spec join t wait (sem_view L k s) = (Done RT_EOK,
    sem_view L (upd_sem s (\<lambda>sem. sem\<lparr>sem_value := sem_value sem - 1\<rparr>) k) s)"
proof -
  have "unat (sem_value (sems k s)) = Suc (unat (sem_value (sems k s) - 1))"
    using assms by (simp add: unat_minus_one word_gt_0 unat_gt_0)
  then show ?thesis by (simp add: sem_view_def)
qed

lemma sem_view_release:
  assumes "waiting L (sem_list s) = []"
  shows "sem_release_spec (sem_view L k s) =
    (if sem_value (sems k s) < RT_SEM_VALUE_MAX
     then (RT_EOK, sem_view L (upd_sem s (\<lambda>sem. sem\<lparr>sem_value := sem_value sem + 1\<rparr>) k) s)
     else (- RT_EFULL, sem_view L k s))"
proof -
  have lt: "sem_value (sems k s) < RT_SEM_VALUE_MAX \<longleftrightarrow> unat (sem_value (sems k s)) < 0xffff"
    by (simp add: word_less_nat_alt)
  have "unat (v + 1) = Suc (unat v)" if "unat v < 0xffff" for v :: u16
    using that by (subst unat_plus_simple [THEN iffD1]) (simp_all add: word_le_nat_alt unat_word_ariths)
  then show ?thesis using assms by (simp add: sem_view_def lt)
qed

lemma sem_view_block:
  assumes "kernel_ok L k" "thread_state k t = RT_THREAD_READY" "sem_ok L k s" "sem_value (sems k s) = 0"
  shows "sem_view (sem_block_ring s time t L k) (sem_block s time t L k) s = (0,
    wait_before (ipc_flag k (sem_obj s)) k t (waiting L (sem_list s)) @
    t # wait_after (ipc_flag k (sem_obj s)) k t (waiting L (sem_list s)))"
  using sem_ok_block(2) [OF assms(1,3,4,2)] assms(4)
  by (simp add: sem_view_def) (simp add: sem_block_def)

lemma sem_ok_release:
  assumes "sem_ok L k s" "waiting L (sem_list s) = []"
  shows "sem_ok L (upd_sem s f k) s"
  using assms by (simp add: sem_ok_def)

lemma sem_next_after_block:
  assumes ok: "kernel_ok L k" and s: "sem_ok L k s"
    and t: "thread_state k t = RT_THREAD_READY"
    and time: "sint time > 0 \<Longrightarrow> time < HALF_TICK_MAX"
    and u: "thread_state k u = RT_THREAD_READY" "u \<noteq> t"
  shows "\<exists>p v. is_next_thread (sem_block_ring s time t L k) p v"
  unfolding sem_block_ring_def
  using s u t ok by (intro next_after_block [OF _ _ wait_head_Suspend time])
    (simp_all add: sem_ok_def ipc_ok_def)

lemma sem_block_gives_up:
  assumes ok: "kernel_ok L k" and t: "thread_state k t = RT_THREAD_READY"
    and time: "sint time > 0 \<Longrightarrow> time < HALF_TICK_MAX"
    and nx: "is_next_thread (sem_block_ring s time t L k) p u"
  shows "gave_up t time (sem_block_ring s time t L k) k (switch_to p u (sem_block s time t L k))"
proof -
  let ?k = "upd_thread t (\<lambda>th. th\<lparr>error := RT_EOK\<rparr>) k"
  have ok': "kernel_ok L ?k" "thread_state ?k t = RT_THREAD_READY" "thread_state ?k = thread_state k"
    using ok t by (simp_all add: fun_eq_iff)
  show ?thesis
    using gave_up_block [OF ok'(1,2) wait_head_Suspend time nx [unfolded sem_block_ring_def]]
      effect_cong(2) [of ?k k] ok'(3)
    by (simp add: sem_block_def sem_block_ring_def cpu_ok_frame)
qed

section \<open>Properties\<close>

text \<open>C5: \<open>rt_sem_take\<close>, called by the running thread next to another ready thread (the idle thread),
  with a waiting time below half of the tick range or without limit, always comes to a result and refines the
  abstract semaphore: it takes a unit when there is one, fails with a timeout when there is none
  and the caller does not wait, and otherwise puts the caller in its place of the wait queue
  (at the end, or behind those of no lower priority), suspends it with its timer running for the
  waiting time if that is positive, and makes another thread, the highest ready one, the running
  thread (unless the scheduler is locked); no other thread changes its state, and the kernel and
  the semaphore keep their invariants.\<close>

theorem rt_sem_take_refines:
  assumes ok: "kernel_ok L k" and s: "sem_ok L k s"
    and t: "rt_current_thread k = Some t" "thread_state k t = RT_THREAD_READY"
    and idle: "thread_state k u = RT_THREAD_READY" "u \<noteq> t"
    and time: "sint time > 0 \<Longrightarrow> time < HALF_TICK_MAX"
  shows "\<exists>r L' k'. rt_sem_take s time k = Some (r, k') \<and> kernel_ok L' k' \<and> sem_ok L' k' s \<and>
    (r, sem_view L' k' s) = sem_take_spec
      (\<lambda>ts. wait_before (ipc_flag k (sem_obj s)) k t ts @ t # wait_after (ipc_flag k (sem_obj s)) k t ts)
      t (time \<noteq> 0) (sem_view L k s) \<and>
    call_effect r t time [] L' k k'"
proof -
  consider "sem_value (sems k s) > 0" | "sem_value (sems k s) = 0" "time = 0"
    | "sem_value (sems k s) = 0" "time \<noteq> 0" by (auto simp: word_gt_0)
  then show ?thesis
  proof cases
    case 1
    show ?thesis
      by (intro exI conjI, rule sem_take_available [OF s 1])
        (use ok sem_ok_take [OF s 1] sem_view_take [OF 1] in
          \<open>simp_all add: woke_def cpu_ok_frame thread_state_def\<close>)
  next
    case 2
    then show ?thesis
      by (intro exI [of _ L] exI conjI, simp only: sem_take_no_wait [OF s 2(1)])
        (use ok s woke_none in \<open>auto simp: sem_view_def\<close>)
  next
    case 3
    obtain p v where nx: "is_next_thread (sem_block_ring s time t L k) p v"
      using sem_next_after_block [OF ok s t(2) time idle] by blast
    note b = sem_take_blocks [OF ok s 3(1) t 3(2) time]
    have v: "sem_view L k s = (0, waiting L (sem_list s))" using 3 by (simp add: sem_view_def)
    show ?thesis
      by (intro exI conjI, rule b(2) [OF _ nx])
        (use b(1) sem_ok_block(1) [OF ok s 3(1) t(2)] sem_view_block [OF ok t(2) s 3(1), of time]
          sem_block_gives_up [OF ok t(2) time nx] 3 v in simp_all)
  qed
qed

lemma sem_demo_ok: "sem_ok demo_ring demo s" "sem_ok (demo_wait_ring (sem_list 0)) (demo_wait (sem_list 0)) 0"
  by (simp_all add: sem_ok_def ipc_ok_def)

theorem rt_sem_take_refines_witness:
  "\<exists>r L' k'. rt_sem_take 0 7 demo = Some (r, k') \<and> kernel_ok L' k' \<and> sem_ok L' k' 0 \<and>
    (r, sem_view L' k' 0) = (Blocked 2, 0, [2]) \<and> thread_state k' 2 = RT_THREAD_SUSPEND \<and>
    rt_current_thread k' \<noteq> Some 2"
proof -
  from rt_sem_take_refines [OF demo_ok sem_demo_ok(1), of 2 0 7 0]
  obtain r L' k' where k': "rt_sem_take 0 7 demo = Some (r, k')" "kernel_ok L' k'" "sem_ok L' k' 0"
    "(r, sem_view L' k' 0) = (Blocked 2, 0, [2])" "call_effect r 2 7 [] L' demo k'"
    by (auto simp: sem_view_def HALF_TICK_MAX_def wait_before_def wait_after_def)
  then show ?thesis by (intro exI [of _ r] exI [of _ L'] exI [of _ k']) (auto simp: gave_up_def)
qed

text \<open>C6: \<open>rt_sem_release\<close> refines the abstract semaphore: the unit goes to the first waiter,
  who becomes ready, or is added to the count, which is refused with \<open>-RT_EFULL\<close> at 65535;
  no unit is lost or duplicated, and the invariants are kept.\<close>

theorem rt_sem_release_refines:
  assumes ok: "kernel_ok L k" and s: "sem_ok L k s" and c: "rt_current_thread k \<noteq> None"
  shows "\<exists>r L' k'. rt_sem_release s k = Some (r, k') \<and> kernel_ok L' k' \<and> sem_ok L' k' s \<and>
    (r, sem_view L' k' s) = sem_release_spec (sem_view L k s) \<and>
    (\<forall>t. thread_state k' t = (if waiting L (sem_list s) \<noteq> [] \<and> t = hd (waiting L (sem_list s))
       then RT_THREAD_READY else thread_state k t))"
proof (cases "waiting L (sem_list s)")
  case Nil
  show ?thesis
  proof (cases "sem_value (sems k s) < RT_SEM_VALUE_MAX")
    case True
    then show ?thesis
      by (intro exI conjI, subst sem_release_no_waiter [OF ok s Nil], simp only: if_True)
        (use ok sem_ok_release [OF s Nil] in \<open>auto simp: sem_view_release [OF Nil] Nil thread_state_def\<close>)
  next
    case False
    then show ?thesis
      by (intro exI conjI, subst sem_release_no_waiter [OF ok s Nil], simp only: if_False)
        (use ok s in \<open>auto simp: sem_view_release [OF Nil] Nil\<close>)
  qed
next
  case (Cons t us)
  obtain p u where nx: "is_next_thread (resume_ring k t L) p u"
    using next_after_resume_ex [OF ok list_resume_closed(3) [OF ok wait_head_Suspend Cons]] by blast
  note r = sem_release_wakes [OF ok s Cons nx c]
  show ?thesis
    by (intro exI conjI, rule r(1), rule r(2), rule r(3))
      (use r(4) Cons in \<open>auto simp: sem_view_def\<close>)
qed

theorem rt_sem_release_refines_witness:
  "\<exists>r L' k'. rt_sem_release 0 (demo_wait (sem_list 0)) = Some (r, k') \<and> kernel_ok L' k' \<and>
    sem_ok L' k' 0 \<and> (r, sem_view L' k' 0) = (RT_EOK, 0, []) \<and> thread_state k' 2 = RT_THREAD_READY"
proof -
  from rt_sem_release_refines [OF demo_wait_ok [OF wait_head_Suspend] sem_demo_ok(2)]
  obtain r L' k' where "rt_sem_release 0 (demo_wait (sem_list 0)) = Some (r, k')"
    "kernel_ok L' k'" "sem_ok L' k' 0" "(r, sem_view L' k' 0) = (RT_EOK, 0, [])"
    "thread_state k' 2 = RT_THREAD_READY"
    by (auto simp: sem_view_def)
  then show ?thesis by blast
qed

text \<open>When a release wakes a waiter whose priority is higher than that of the running
  thread, the waiter runs at once, unless the scheduler is locked; otherwise the running thread
  goes on.\<close>

theorem rt_sem_release_preempts:
  assumes ok: "kernel_ok L k" and s: "sem_ok L k s" and w: "waiting L (sem_list s) = t # us"
    and c: "rt_current_thread k = Some c" "is_next_thread L p c" "rt_scheduler_lock_nest k = 0"
  shows "\<exists>k'. rt_sem_release s k = Some (RT_EOK, k') \<and>
    rt_current_thread k' = Some (if current_priority (threads k t) < current_priority (threads k c) then t else c)"
proof -
  have c': "rt_current_thread k \<noteq> None" using c(1) by simp
  have st: "thread_state k t = RT_THREAD_SUSPEND"
    by (rule list_resume_closed(3) [OF ok wait_head_Suspend w])
  have p: "p = prio k c" using next_thread_ready [OF kernel_okD(1) [OF ok] c(2)] by simp
  have n: "is_next_thread (resume_ring k t L) (if prio k t < p then prio k t else p)
      (if prio k t < p then t else c)"
    by (rule next_after_resume [OF ok st c(2)])
  show ?thesis
    by (intro exI conjI, rule sem_release_wakes(1) [OF ok s w n c'])
      (use c(3) in \<open>simp add: current_after_switch p word_less_nat_alt\<close>)
qed

theorem rt_sem_release_preempts_witness:
  "\<exists>k'. rt_sem_release 0 (demo_wait (sem_list 0)) = Some (RT_EOK, k') \<and> rt_current_thread k' = Some 2"
  using rt_sem_release_preempts [OF demo_wait_ok [OF wait_head_Suspend] sem_demo_ok(2), of 2 "[]" 0 7]
    demo_wait_next [OF wait_head_Suspend, of "sem_obj 0"] by simp

end
