(* ===== verification/System.thy ===== *)
theory System
  imports Clock Semaphore
begin

text \<open>
  The parts together: threads that sleep, yield and use semaphores, interrupted by the clock.
  A call is not atomic: its critical section (from \<^verbatim>\<open>rt_hw_interrupt_disable\<close> to
  \<^verbatim>\<open>rt_hw_interrupt_enable\<close>) is one step, the call of \<^verbatim>\<open>rt_schedule\<close> that follows is another, and
  what a function does after that a third; the trap of the timer (\<^verbatim>\<open>Trap_Handler\<close> of
  \<^verbatim>\<open>bsp/tang-nano-9k/board.c\<close> between the entry and the exit of \<^verbatim>\<open>interrupt_gcc.S\<close>) can come before,
  between and after them, also while the current thread is suspended already.  The invariant of the
  reachable states contains those of all components.
\<close>

section \<open>The trap\<close>

abbreviation (input) Core_Interrupt_Cause_System_Timer :: u32 where
  "Core_Interrupt_Cause_System_Timer \<equiv> 0x80000007"

definition Trap_Handler ::
  "(nat \<Rightarrow> u32 \<Rightarrow> kernel \<Rightarrow> kernel option) \<Rightarrow> u32 \<Rightarrow> kernel \<Rightarrow> kernel option" where
  "Trap_Handler app mcause k =
     (if mcause = Core_Interrupt_Cause_System_Timer then rt_tick_increase app k else Some k)"

definition irq_entry ::
  "(nat \<Rightarrow> u32 \<Rightarrow> kernel \<Rightarrow> kernel option) \<Rightarrow> u32 \<Rightarrow> kernel \<Rightarrow> kernel option" where
  "irq_entry app mcause k = do {
     let k = rt_interrupt_enter k;
     k \<leftarrow> Trap_Handler app mcause k;
     let k = rt_interrupt_leave k;
     Some (irq_exit k)
   }"

section \<open>The invariant\<close>

text \<open>In thread context: nothing is pending, no interrupt is being served, the idle thread 0 is
  ready.  The semaphores are those that have been initialised.\<close>

definition system_base :: "(node \<Rightarrow> node list) \<Rightarrow> kernel \<Rightarrow> bool" where
  "system_base L k \<longleftrightarrow> window_ready L k \<and> rt_interrupt_nest k = 0 \<and> cpu_ok k \<and>
     thread_state k 0 = RT_THREAD_READY \<and> (\<forall>s. live k (sem_obj s) \<longrightarrow> sem_ok L k s)"

text \<open>Outside of the calls the current thread is moreover the one the scheduler would choose.\<close>

definition system_ok :: "(node \<Rightarrow> node list) \<Rightarrow> kernel \<Rightarrow> bool" where
  "system_ok L k \<longleftrightarrow> tick_ready L k \<and> rt_interrupt_nest k = 0 \<and> cpu_ok k \<and>
     thread_state k 0 = RT_THREAD_READY \<and> (\<forall>s. live k (sem_obj s) \<longrightarrow> sem_ok L k s)"

lemma system_ok_base: "system_ok L k \<longleftrightarrow> system_base L k \<and> runs_highest L k"
  by (auto simp: system_ok_def system_base_def tick_ready_window)

lemma system_base_cpu:
  "system_base L k \<Longrightarrow> rt_thread_switch_interrupt_flag k = 0 \<and> cpu_context k = rt_current_thread k"
  by (auto simp: system_base_def cpu_ok_def split: if_splits)

lemma system_base_kernel: "system_base L k \<Longrightarrow> kernel_ok L k"
  by (simp add: system_base_def window_readyD(1))

lemma system_ok_cpu:
  "system_ok L k \<Longrightarrow> rt_thread_switch_interrupt_flag k = 0 \<and> cpu_context k = rt_current_thread k"
  by (auto simp: system_ok_def cpu_ok_def split: if_splits)

text \<open>The kernel invariants do not depend on the interrupt state.\<close>

lemma kernel_ok_irq [simp]:
  "kernel_ok L (k\<lparr>rt_interrupt_nest := n\<rparr>) = kernel_ok L k"
  "kernel_ok L (k\<lparr>rt_thread_switch_interrupt_flag := fl\<rparr>) = kernel_ok L k"
  "kernel_ok L (k\<lparr>cpu_context := c\<rparr>) = kernel_ok L k"
  by (rule kernel_ok_cong; simp)+

lemma window_ready_cong:
  assumes "\<And>L. kernel_ok L k' = kernel_ok L k" "objects k' = objects k" "timers k' = timers k"
    "rt_tick k' = rt_tick k" "rt_current_thread k' = rt_current_thread k"
    "rt_scheduler_lock_nest k' = rt_scheduler_lock_nest k"
  shows "window_ready L k' = window_ready L k"
  unfolding window_ready_def check_state_def timeouts_ok_def due_timers_def
  by (simp add: assms remaining_def active_def one_shot_def timer_flag_def)

lemma runs_highest_cong:
  "rt_current_thread k' = rt_current_thread k \<Longrightarrow> runs_highest L k' = runs_highest L k"
  by (simp add: runs_highest_def)

lemma sem_ok_cong:
  assumes "objects k' = objects k" "sems k' = sems k"
  shows "sem_ok L k' s = sem_ok L k s"
  by (simp add: sem_ok_def ipc_ok_def live_def rt_object_get_type_def ipc_flag_def assms)

text \<open>What the clock does to the semaphores: a waiter may time out.\<close>

lemma waiting_subset:
  assumes "kernel_ok L' k'" "kernel_ok L k" "wait_head x" "set (L' x) \<subseteq> set (L x)"
  shows "set (waiting L' x) \<subseteq> set (waiting L x)"
proof -
  have "Tlist ` set (waiting L' x) \<subseteq> Tlist ` set (waiting L x)"
    using assms(4) waiting_map [OF assms(1,3)] waiting_map [OF assms(2,3)] by (metis set_map)
  then show ?thesis by (auto simp: inj_image_subset_iff inj_on_def)
qed

lemma sem_ok_subset:
  assumes ok: "kernel_ok L k" "kernel_ok L' k'" and same: "objects k' (sem_obj s) = objects k (sem_obj s)"
    "sems k' = sems k" and sub: "set (L' (sem_list s)) \<subseteq> set (L (sem_list s))" and s: "sem_ok L k s"
  shows "sem_ok L' k' s"
proof -
  have "set (waiting L' (sem_list s)) \<subseteq> set (waiting L (sem_list s))"
    by (rule waiting_subset [OF ok(2,1) wait_head_Suspend sub])
  then have w: "waiting L' (sem_list s) \<noteq> [] \<Longrightarrow> waiting L (sem_list s) \<noteq> []" by auto
  have "ipc_ok k' (sem_obj s) = ipc_ok k (sem_obj s)"
    using same(1) by (simp add: ipc_ok_def live_def rt_object_get_type_def ipc_flag_def)
  then show ?thesis using s w same(2) by (simp add: sem_ok_def)
qed

section \<open>The clock interrupt\<close>

text \<open>It may strike in the window between a critical section and \<^verbatim>\<open>rt_schedule\<close>; then either it
  leaves the current thread as it was, or it has made the highest thread the current one.\<close>

lemma irq_entry_ok:
  assumes s: "system_base L k"
  obtains L' k' where "irq_entry app mcause k = Some k'" "system_base L' k'"
    "rt_current_thread k' = rt_current_thread k \<or> runs_highest L' k'"
    "runs_highest L k \<longrightarrow> runs_highest L' k'"
proof (cases "mcause = Core_Interrupt_Cause_System_Timer")
  case True
  let ?k = "rt_interrupt_enter k"
  have nest: "rt_interrupt_nest ?k = 1" using s by (simp add: rt_interrupt_enter_def system_base_def)
  have tr: "window_ready L ?k"
    using s by (subst window_ready_cong [of _ k]) (simp_all add: rt_interrupt_enter_def system_base_def)
  have cpu: "cpu_ok ?k" using system_base_cpu [OF s] by (simp add: cpu_ok_def rt_interrupt_enter_def)
  obtain L' k1 where 1: "rt_tick_increase app ?k = Some k1" "window_ready L' k1" "bystanders L ?k L' k1"
    "\<forall>u. thread_state ?k u = RT_THREAD_READY \<longrightarrow> thread_state k1 u = RT_THREAD_READY"
    by (rule window_step [OF tr, of app])
  let ?k' = "irq_exit (rt_interrupt_leave k1)"
  have ok: "kernel_ok L ?k" "kernel_ok L' k1" using window_readyD(1) tr 1(2) by blast+
  have obj: "objects k1 (sem_obj s) = objects k (sem_obj s)" for s
    using 1(3) by (simp add: bystanders_def rt_interrupt_enter_def)
  have sem: "sem_ok L' ?k' s" if l: "live ?k' (sem_obj s)" for s
  proof -
    have "live k (sem_obj s)" using l obj
      by (simp add: live_def rt_object_get_type_def irq_exit_def rt_interrupt_leave_def split: if_splits)
    then have "sem_ok L ?k s" using assms by (subst sem_ok_cong [of _ k]) (simp_all add: rt_interrupt_enter_def system_base_def)
    then have "sem_ok L' k1 s"
      using 1(3) by (intro sem_ok_subset [OF ok]) (simp_all add: bystanders_def)
    then show ?thesis by (subst sem_ok_cong [of _ k1]) (simp_all add: irq_exit_def rt_interrupt_leave_def)
  qed
  have idle: "thread_state k1 0 = RT_THREAD_READY"
    using 1(4) s by (simp add: system_base_def rt_interrupt_enter_def thread_state_def)
  have "cpu_ok k1" "rt_interrupt_nest k1 = 1" using 1(3) cpu nest by (simp_all add: bystanders_def)
  moreover have "window_ready L' ?k'"
    using 1(2) by (subst window_ready_cong [of _ k1]) (auto simp: irq_exit_def rt_interrupt_leave_def)
  moreover have "thread_state ?k' 0 = RT_THREAD_READY"
    using idle by (simp add: irq_exit_def rt_interrupt_leave_def thread_state_def)
  ultimately have "system_base L' ?k'"
    using sem by (auto simp: system_base_def irq_exit_def rt_interrupt_leave_def cpu_ok_def)
  moreover have "irq_entry app mcause k = Some ?k'"
    using True 1(1) by (simp add: irq_entry_def Trap_Handler_def)
  moreover have cur: "rt_current_thread ?k' = rt_current_thread k1"
    "rt_current_thread ?k = rt_current_thread k"
    by (simp_all add: irq_exit_def rt_interrupt_leave_def rt_interrupt_enter_def)
  have "rt_scheduler_lock_nest ?k = 0" using window_readyD(5) [OF tr] .
  then have "rt_current_thread k1 = rt_current_thread ?k \<or> runs_highest L' k1"
    "runs_highest L ?k \<longrightarrow> runs_highest L' k1"
    using 1(3) unfolding bystanders_def by blast+
  then have "rt_current_thread ?k' = rt_current_thread k \<or> runs_highest L' ?k'"
    "runs_highest L k \<longrightarrow> runs_highest L' ?k'"
    using cur runs_highest_cong [of ?k' k1 L'] runs_highest_cong [of ?k k L] by simp_all
  ultimately show ?thesis using that by blast
next
  case False
  have "rt_interrupt_leave (rt_interrupt_enter k) = k"
    by (cases k) (simp add: rt_interrupt_leave_def rt_interrupt_enter_def)
  then have "irq_entry app mcause k = Some k"
    using False system_base_cpu [OF s] by (simp add: irq_entry_def Trap_Handler_def irq_exit_def)
  then show ?thesis using s that by blast
qed

section \<open>Calls cut at the enabling of the interrupts\<close>

text \<open>Where a thread is between two critical sections: outside of the calls, before the call of
  \<^verbatim>\<open>rt_schedule\<close> (of \<^verbatim>\<open>rt_thread_sleep\<close> or of another function), or behind it in
  \<^verbatim>\<open>rt_thread_sleep\<close>.\<close>

datatype phase = Outside | To_schedule bool | After_sleep

fun to_schedule :: "phase \<Rightarrow> bool" where
  "to_schedule (To_schedule _) = True"
| "to_schedule _ = False"

text \<open>The critical sections, up to \<^verbatim>\<open>rt_hw_interrupt_enable\<close>.\<close>

definition yield_section :: "kernel \<Rightarrow> (phase \<times> kernel) option" where
  "yield_section k = do {
     t \<leftarrow> rt_current_thread k;
     if stat (threads k t) AND RT_THREAD_STAT_MASK = RT_THREAD_READY \<and>
        nxt (lists k) (Tlist t) \<noteq> prv (lists k) (Tlist t)
     then do {
       let k = upd_lists (rt_list_remove (Tlist t)) k;
       hd \<leftarrow> rt_thread_priority_table (unat (current_priority (threads k t)));
       Some (To_schedule False, upd_lists (rt_list_insert_before hd (Tlist t)) k)
     }
     else Some (Outside, k)
   }"

definition sleep_section :: "u32 \<Rightarrow> kernel \<Rightarrow> (phase \<times> kernel) option" where
  "sleep_section tick k = do {
     t \<leftarrow> rt_current_thread k;
     RT_ASSERT (rt_object_get_type (Obj_thread t) k = RT_Object_Class_Thread);
     (_, k) \<leftarrow> rt_thread_suspend t k;
     (_, _, k) \<leftarrow> rt_timer_control (Thread_timer t) RT_TIMER_CTRL_SET_TIME tick k;
     (_, k) \<leftarrow> rt_timer_start (Thread_timer t) k;
     Some (To_schedule True, k)
   }"

definition take_section :: "nat \<Rightarrow> u32 \<Rightarrow> kernel \<Rightarrow> (phase \<times> kernel) option" where
  "take_section s time k = do {
     RT_ASSERT (rt_object_get_type (sem_obj s) k = RT_Object_Class_Semaphore);
     if sem_value (sems k s) > 0
     then Some (Outside, upd_sem s (\<lambda>sem. sem\<lparr>sem_value := sem_value sem - 1\<rparr>) k)
     else if time = 0 then Some (Outside, k)
     else do {
       t \<leftarrow> rt_thread_self k;
       let k = upd_thread t (\<lambda>th. th\<lparr>error := RT_EOK\<rparr>) k;
       k \<leftarrow> ipc_wait (sem_list s) t (flag (objects k (sem_obj s))) time k;
       Some (To_schedule False, k)
     }
   }"

definition release_section :: "nat \<Rightarrow> kernel \<Rightarrow> (phase \<times> kernel) option" where
  "release_section s k = do {
     RT_ASSERT (rt_object_get_type (sem_obj s) k = RT_Object_Class_Semaphore);
     if \<not> rt_list_isempty (sem_list s) (lists k) then do {
       (_, k) \<leftarrow> rt_ipc_list_resume (sem_list s) k;
       Some (To_schedule False, k)
     }
     else if sem_value (sems k s) < RT_SEM_VALUE_MAX
     then Some (Outside, upd_sem s (\<lambda>sem. sem\<lparr>sem_value := sem_value sem + 1\<rparr>) k)
     else Some (Outside, k)
   }"

datatype thread_call = Call_yield | Call_sleep u32 | Call_take nat u32 | Call_release nat

fun enter_call :: "thread_call \<Rightarrow> kernel \<Rightarrow> (phase \<times> kernel) option" where
  "enter_call Call_yield k = yield_section k"
| "enter_call (Call_sleep tick) k = sleep_section tick k"
| "enter_call (Call_take s time) k = take_section s time k"
| "enter_call (Call_release s) k = release_section s k"

text \<open>Put together again, without an interrupt between them, they are the functions of the code.\<close>

fun whole_call :: "thread_call \<Rightarrow> kernel \<Rightarrow> kernel option" where
  "whole_call Call_yield k = map_option snd (rt_thread_yield k)"
| "whole_call (Call_sleep tick) k = rt_thread_sleep tick k"
| "whole_call (Call_take s time) k = map_option snd (rt_sem_take s time k)"
| "whole_call (Call_release s) k = map_option snd (rt_sem_release s k)"

lemma whole_call_sections:
  "whole_call c k = do { (ph, k) \<leftarrow> enter_call c k; if to_schedule ph then rt_schedule k else Some k }"
proof (cases c)
  case Call_yield
  then show ?thesis
    by (auto simp: rt_thread_yield_def yield_section_def Let_def split: bind_splits)
next
  case (Call_sleep tick)
  then show ?thesis
    by (auto simp: rt_thread_sleep_def sleep_section_def RT_ASSERT_def split: bind_splits)
next
  case (Call_take s time)
  then show ?thesis
    by (auto simp: rt_sem_take_def take_section_def Let_def RT_ASSERT_def split: bind_splits)
next
  case (Call_release s)
  then show ?thesis
    by (auto simp: rt_sem_release_def release_section_def RT_ASSERT_def split: bind_splits)
qed

section \<open>Blocking and waking\<close>

lemma sem_ok_switch [simp]: "sem_ok L (switch_to p u k) s = sem_ok L k s"
  by (rule sem_ok_cong) simp_all

lemma block_window:
  assumes st: "window_ready L k" and t: "thread_state k t = RT_THREAD_READY"
    and x: "wait_head x" and fl: "fl = RT_IPC_FLAG_FIFO \<or> fl = RT_IPC_FLAG_PRIO"
    and time: "0 < sint time \<Longrightarrow> time < HALF_TICK_MAX"
  shows "window_ready (block_ring x fl time t L k) (block_thread x fl time t L k)"
proof -
  let ?L = "block_ring x fl time t L k" and ?b = "block_thread x fl time t L k"
  note w = window_readyD [OF st]
  note okb = ipc_wait_closed(2) [OF w(1) t x fl time]
  have tl: "timer_live k t" using kernel_ok_live(2) [OF w(1), of t] t by simp
  have "timeouts_ok is_thread_timeout ?b"
    unfolding timeouts_ok_def
  proof (intro allI impI)
    fix y assume "active ?b y"
    then have "y = Thread_timer t \<or> y \<noteq> Thread_timer t \<and> active k y" by auto
    then show "is_thread_timeout (timeout_func (timers ?b y)) \<and>
        (\<not> one_shot ?b y \<longrightarrow> 0 < init_tick (timers ?b y) \<and> init_tick (timers ?b y) < HALF_TICK_MAX) \<and>
        (\<forall>t. timeout_func (timers ?b y) = Rt_thread_timeout t \<longrightarrow> y = Thread_timer t)"
    proof
      assume "y = Thread_timer t"
      then show ?thesis using tl by (simp add: block_timer_facts timer_live_def)
    next
      assume "y \<noteq> Thread_timer t \<and> active k y"
      then show ?thesis using w(4) by (simp add: block_timer_facts timeouts_ok_def)
    qed
  qed
  moreover have "0 < unat time" if "0 < sint time" using that by (auto simp: unat_gt_0)
  then have "due_timers ?L ?b = []"
    using w(3) unfolding due_timers_def filter_empty_conv block_ring_timers(1) [OF w(1) x]
    by (auto simp: block_timer_facts split: if_splits)
  ultimately show ?thesis
    using okb block_ring_timers(2) [OF w(1) x w(2)] w(5,6)
    by (simp add: window_ready_def check_state_def)
qed

lemma resume_window:
  assumes st: "window_ready L k" and t: "thread_state k t = RT_THREAD_SUSPEND"
  shows "window_ready (resume_ring k t L) (resume_thread t k)"
proof -
  let ?L = "resume_ring k t L" and ?r = "resume_thread t k"
  note w = window_readyD [OF st]
  note okr = kernel_ok_resume [OF w(1) t]
  have same: "timers ?r = timers k" "one_shot ?r = one_shot k" "remaining ?r = remaining k"
    by (simp_all add: resume_thread_def) (simp add: remaining_def fun_eq_iff)
  have act: "active ?r y \<Longrightarrow> active k y" for y by (simp add: resume_thread_def)
  have "Tlist t \<notin> set (L Timer_head)" using timers_okD(2) [OF kernel_okD(2) [OF w(1)]] by auto
  then have "?L Timer_head = map Row (removeAll (Thread_timer t) (timer_list L))"
    using timers_okD(2) [OF kernel_okD(2) [OF w(1)]]
    by (simp add: resume_ring_def removeAll_id) (metis removeAll_map_Row)
  then have "timer_list ?L = removeAll (Thread_timer t) (timer_list L)" by (rule timer_list_map)
  then have "due_timers ?L ?r = []"
    using w(3) by (auto simp: due_timers_def filter_empty_conv same)
  moreover have "timeouts_ok is_thread_timeout ?r"
    using w(4) act by (simp add: timeouts_ok_def same)
  moreover have "?L Timer_tmp_head = []" using w(2) by (simp add: resume_ring_def)
  ultimately show ?thesis
    using okr w(5,6) by (simp add: window_ready_def check_state_def)
qed

lemma yield_window:
  assumes st: "window_ready L k" and t: "thread_state k t = RT_THREAD_READY"
  shows "window_ready (requeue k t L) (yield_thread t k)"
proof -
  let ?L = "requeue k t L" and ?k = "yield_thread t k"
  note w = window_readyD [OF st]
  have same: "timers ?k = timers k" "active ?k = active k" "one_shot ?k = one_shot k"
    "remaining ?k = remaining k"
    by (simp_all add: yield_thread_def)
  have "due_timers ?L ?k = []" using w(3) requeue_Timer(2) [OF w(1)] by (simp add: due_timers_def same)
  moreover have "?L Timer_tmp_head = []" using w(2) by (simp add: requeue_def)
  moreover have "timeouts_ok is_thread_timeout ?k" using w(4) by (simp add: timeouts_ok_def same)
  moreover have "rt_current_thread ?k = rt_current_thread k"
    "rt_scheduler_lock_nest ?k = rt_scheduler_lock_nest k" by (simp_all add: yield_thread_def)
  ultimately show ?thesis
    using kernel_ok_yield [OF w(1) t] w(5,6) by (simp add: window_ready_def check_state_def)
qed

section \<open>What the sections keep\<close>

lemma system_ok_current:
  assumes "system_ok L k"
  obtains t where "rt_current_thread k = Some t" "thread_state k t = RT_THREAD_READY"
    "is_next_thread L (prio k t) t" "cpu_context k = Some t"
  using assms tick_ready_current system_base_cpu unfolding system_ok_base [of L k] system_ok_def
  by (metis system_ok_base system_ok_def)

text \<open>A section ends in the invariant, the current thread is still current, and if no \<^verbatim>\<open>rt_schedule\<close>
  is to come it is still the one the scheduler would choose.\<close>

definition section_ends :: "kernel \<Rightarrow> (phase \<times> kernel) option \<Rightarrow> bool" where
  "section_ends k r \<longleftrightarrow> (\<exists>ph L' k'. r = Some (ph, k') \<and> system_base L' k' \<and>
     rt_current_thread k' = rt_current_thread k \<and> ph \<noteq> After_sleep \<and>
     (\<not> to_schedule ph \<longrightarrow> runs_highest L' k'))"

lemma section_endsI:
  assumes "r = Some (ph, k')" "system_base L' k'" "rt_current_thread k' = rt_current_thread k"
    "ph \<noteq> After_sleep" "\<not> to_schedule ph \<Longrightarrow> runs_highest L' k'"
  shows "section_ends k r"
  using assms unfolding section_ends_def by blast

lemma yield_section_ok:
  assumes s: "system_ok L k"
  shows "section_ends k (yield_section k)"
proof -
  obtain t where t: "rt_current_thread k = Some t" "thread_state k t = RT_THREAD_READY"
    by (rule system_ok_current [OF s])
  have sb: "system_base L k" "runs_highest L k" using s by (simp_all add: system_ok_base)
  note ok = system_base_kernel [OF sb(1)]
  have sm: "stat (threads k t) AND RT_THREAD_STAT_MASK = RT_THREAD_READY" using t(2) by (simp only: thread_state_def)
  show ?thesis
  proof (cases "nxt (lists k) (Tlist t) = prv (lists k) (Tlist t)")
    case True
    then show ?thesis using sb t(1) by (intro section_endsI [of _ Outside k L]) (simp_all add: yield_section_def)
  next
    case False
    let ?L = "requeue k t L" and ?k = "yield_thread t k"
    have p: "prio_ok k t" using kernel_ok_live(4) [OF ok, of t] t by simp
    have "rt_thread_priority_table (prio k t) = Some (Ready_head (prio k t))"
      using p by (simp add: rt_thread_priority_table_def prio_ok_def)
    then have run: "yield_section k = Some (To_schedule False, ?k)"
      using t(1) sm False by (simp add: yield_section_def yield_thread_def comp_def Let_def)
    have w: "window_ready ?L ?k" using sb(1) t(2) by (intro yield_window) (simp add: system_base_def)
    have sub: "set (?L (sem_list v)) \<subseteq> set (L (sem_list v))" for v by (auto simp: requeue_def)
    have "sem_ok ?L ?k v" if "live ?k (sem_obj v)" for v
    proof (rule sem_ok_subset [OF ok window_readyD(1) [OF w] _ _ sub])
      have "live k (sem_obj v)" using that by (simp add: yield_thread_def)
      then show "sem_ok L k v" using sb(1) by (simp add: system_base_def)
    qed (simp_all add: yield_thread_def)
    moreover have "cpu_ok ?k = cpu_ok k" by (rule cpu_ok_cong) (simp_all add: yield_thread_def)
    ultimately have "system_base ?L ?k" using sb(1) w by (simp add: system_base_def yield_thread_def)
    then show ?thesis by (intro section_endsI [OF run]) (simp_all add: yield_thread_def)
  qed
qed

lemma sleep_section_ok:
  assumes s: "system_ok L k" and t0: "rt_current_thread k \<noteq> Some 0"
    and tick: "0 < tick" "tick < HALF_TICK_MAX"
  shows "section_ends k (sleep_section tick k)"
proof -
  obtain t where t: "rt_current_thread k = Some t" "thread_state k t = RT_THREAD_READY"
    by (rule system_ok_current [OF s])
  have sb: "system_base L k" using s by (simp add: system_ok_base)
  note ok = system_base_kernel [OF sb]
  let ?L = "sleep_ring t tick L k" and ?s = "sleep_thread t tick (without (Tlist t) L) k"
  note fr = sleep_frame [OF refl, where t = t and tick = tick and L = L and k = k]
  have ty: "rt_object_get_type (Obj_thread t) k = RT_Object_Class_Thread"
    using kernel_ok_live(1) [OF ok, of t] t by (simp add: live_def)
  have run: "sleep_section tick k = Some (To_schedule True, ?s)"
    using sleep_closed(1) [OF ok t tick(2)] t(1) ty
    by (auto simp: sleep_section_def split: bind_splits)
  have w: "window_ready ?L ?s" using sb t tick by (intro sleep_window) (simp_all add: system_base_def)
  have "sem_ok ?L ?s v" if "live ?s (sem_obj v)" for v
  proof (rule sem_ok_subset [OF ok window_readyD(1) [OF w]])
    show "sem_ok L k v" using sb that fr(2) by (simp add: system_base_def)
    show "sems ?s = sems k" by (simp add: sleep_thread_def Let_def)
  qed (simp_all add: fr(3,5))
  moreover have "thread_state ?s 0 = RT_THREAD_READY" using sb t0 t(1) by (auto simp: system_base_def)
  ultimately have "system_base ?L ?s" using sb w fr(1) by (simp add: system_base_def)
  then show ?thesis by (intro section_endsI [OF run]) simp_all
qed

lemma live_sems [simp]: "live (sems_update f k) = live k"
  by (simp add: live_def rt_object_get_type_def fun_eq_iff)

lemma sem_ok_block_other:
  assumes ok: "kernel_ok L k" and t: "thread_state k t = RT_THREAD_READY" and s: "s' \<noteq> s"
    and s': "sem_ok L k s'"
  shows "sem_ok (sem_block_ring s time t L k) (sem_block s time t L k) s'"
proof -
  let ?k = "upd_thread t (\<lambda>th. th\<lparr>error := RT_EOK\<rparr>) k"
  have "waiting (sem_block_ring s time t L k) (sem_list s') = waiting L (sem_list s')"
    unfolding sem_block_ring_def using ok t s by (intro waiting_block_other) simp_all
  then show ?thesis using s' by (simp add: sem_ok_def sem_block_def)
qed

lemma window_ready_error: "window_ready L (upd_thread t (\<lambda>th. th\<lparr>error := e\<rparr>) k) = window_ready L k"
  by (rule window_ready_cong) simp_all

text \<open>A section that only changes the value of a semaphore.\<close>

lemma system_base_value:
  assumes sb: "system_base L k" and w: "sem_ok L (upd_sem s f k) s"
  shows "system_base L (upd_sem s f k)"
proof -
  have "sem_ok L (upd_sem s f k) v" if "live k (sem_obj v)" for v
    using w sb that by (cases "v = s") (auto simp: system_base_def sem_ok_def)
  moreover have "window_ready L (upd_sem s f k) = window_ready L k" by (rule window_ready_cong) simp_all
  ultimately show ?thesis using sb by (simp add: system_base_def cpu_ok_frame thread_state_def)
qed

lemma take_section_ok:
  assumes s: "system_ok L k" and lv: "live k (sem_obj s)" and t0: "rt_current_thread k \<noteq> Some 0 \<or> time = 0"
    and time: "0 < sint time \<Longrightarrow> time < HALF_TICK_MAX"
  shows "section_ends k (take_section s time k)"
proof -
  obtain c where c: "rt_current_thread k = Some c" "thread_state k c = RT_THREAD_READY"
    by (rule system_ok_current [OF s])
  have sb: "system_base L k" and rh: "runs_highest L k" using s by (simp_all add: system_ok_base)
  note ok = system_base_kernel [OF sb]
  have so: "sem_ok L k s" using sb lv by (simp add: system_base_def)
  note ty = sem_type [OF so]
  consider "sem_value (sems k s) > 0" | "sem_value (sems k s) = 0" "time = 0"
    | "sem_value (sems k s) = 0" "time \<noteq> 0" by (auto simp: word_gt_0)
  then show ?thesis
  proof cases
    case 1
    let ?k = "upd_sem s (\<lambda>sem. sem\<lparr>sem_value := sem_value sem - 1\<rparr>) k"
    have "take_section s time k = Some (Outside, ?k)" using 1 ty by (simp add: take_section_def)
    then show ?thesis
      using system_base_value [OF sb sem_ok_take [OF so 1]] rh runs_highest_cong [of ?k k L]
      by (intro section_endsI [of _ Outside ?k L]) simp_all
  next
    case 2
    then show ?thesis using sb rh ty by (intro section_endsI [of _ Outside k L]) (simp_all add: take_section_def)
  next
    case 3
    let ?k = "upd_thread c (\<lambda>th. th\<lparr>error := RT_EOK\<rparr>) k"
    let ?L = "sem_block_ring s time c L k" and ?b = "sem_block s time c L k"
    have c0: "0 \<noteq> c" using c t0 3 by auto
    have ok': "kernel_ok L ?k" "thread_state ?k c = RT_THREAD_READY" using ok c by simp_all
    have fl: "ipc_flag k (sem_obj s) = RT_IPC_FLAG_FIFO \<or> ipc_flag k (sem_obj s) = RT_IPC_FLAG_PRIO"
      using so by (simp add: sem_ok_def ipc_ok_def)
    have run: "take_section s time k = Some (To_schedule False, ?b)"
      using ipc_wait_closed(1) [OF ok' wait_head_Suspend [of "sem_obj s"] fl time] 3 ty c(1)
      by (simp add: take_section_def rt_thread_self_def sem_block_def ipc_flag_def Let_def)
    have "window_ready L ?k" using sb by (simp add: window_ready_error system_base_def)
    from block_window [OF this ok'(2) wait_head_Suspend fl time]
    have "window_ready ?L ?b" by (simp add: sem_block_ring_def sem_block_def)
    moreover have "sem_ok ?L ?b w" if "live k (sem_obj w)" for w
      using sem_ok_block(1) [OF ok so 3(1) c(2)] sem_ok_block_other [OF ok c(2), of w s] sb that
      by (cases "w = s") (auto simp: system_base_def)
    moreover have "cpu_ok ?b" using sb by (simp add: sem_block_def cpu_ok_frame system_base_def)
    ultimately have "system_base ?L ?b"
      using sb c0 by (simp add: system_base_def sem_block_def)
    then show ?thesis by (intro section_endsI [OF run]) (simp_all add: sem_block_def)
  qed
qed

lemma release_section_ok:
  assumes s: "system_ok L k" and lv: "live k (sem_obj s)"
  shows "section_ends k (release_section s k)"
proof -
  have sb: "system_base L k" and rh: "runs_highest L k" using s by (simp_all add: system_ok_base)
  note ok = system_base_kernel [OF sb]
  have so: "sem_ok L k s" using sb lv by (simp add: system_base_def)
  note ty = sem_type [OF so]
  have e: "rt_list_isempty (sem_list s) (lists k) \<longleftrightarrow> waiting L (sem_list s) = []"
    by (rule waiting_empty [OF ok wait_head_Suspend])
  show ?thesis
  proof (cases "waiting L (sem_list s)")
    case (Cons t us)
    note r = list_resume_closed [OF ok wait_head_Suspend Cons]
    let ?L = "resume_ring k t L" and ?k = "resume_thread t k"
    have run: "release_section s k = Some (To_schedule False, ?k)"
      using ty e Cons r(1) by (simp add: release_section_def)
    have w: "window_ready ?L ?k" using sb r(3) by (intro resume_window) (simp_all add: system_base_def)
    have "sem_ok ?L ?k v" if "live k (sem_obj v)" for v
    proof -
      have "sem_ok L k v" using sb that by (simp add: system_base_def)
      then show ?thesis using waiting_resume [OF ok, of "sem_list v" t] by (auto simp: sem_ok_def)
    qed
    then have "system_base ?L ?k" using sb w by (simp add: system_base_def cpu_ok_frame)
    then show ?thesis by (intro section_endsI [OF run]) simp_all
  next
    case Nil
    let ?k = "upd_sem s (\<lambda>sem. sem\<lparr>sem_value := sem_value sem + 1\<rparr>) k"
    let ?full = "\<not> sem_value (sems k s) < RT_SEM_VALUE_MAX"
    have run: "release_section s k = Some (Outside, if ?full then k else ?k)"
      using ty e Nil by (simp add: release_section_def)
    have "system_base L ?k" by (rule system_base_value [OF sb sem_ok_release [OF so Nil]])
    moreover have "runs_highest L ?k = runs_highest L k" by (rule runs_highest_cong) simp
    ultimately show ?thesis using sb rh by (intro section_endsI [OF run, of L]) simp_all
  qed
qed

text \<open>The calls that are considered: the idle thread 0 does not wait, the waiting times are positive
  and below half the tick range, or without limit, and the semaphores have been initialised.\<close>

fun call_allowed :: "thread_call \<Rightarrow> kernel \<Rightarrow> bool" where
  "call_allowed Call_yield k \<longleftrightarrow> True"
| "call_allowed (Call_sleep tick) k \<longleftrightarrow> rt_current_thread k \<noteq> Some 0 \<and> 0 < tick \<and> tick < HALF_TICK_MAX"
| "call_allowed (Call_take s time) k \<longleftrightarrow> (rt_current_thread k \<noteq> Some 0 \<or> time = 0) \<and> live k (sem_obj s) \<and>
     (0 < sint time \<longrightarrow> time < HALF_TICK_MAX)"
| "call_allowed (Call_release s) k \<longleftrightarrow> live k (sem_obj s)"

lemma enter_call_ok:
  assumes "system_ok L k" "call_allowed c k"
  shows "section_ends k (enter_call c k)"
  using assms yield_section_ok sleep_section_ok take_section_ok release_section_ok by (cases c) simp_all

text \<open>The call of \<^verbatim>\<open>rt_schedule\<close> restores the choice of the current thread.\<close>

lemma schedule_ok:
  assumes s: "system_base L k"
  obtains k' where "rt_schedule k = Some k'" "system_ok L k'"
proof -
  note ok = system_base_kernel [OF s]
  have idle: "thread_state k 0 = RT_THREAD_READY" and w: "window_ready L k" and cpu: "cpu_ok k"
    using s by (simp_all add: system_base_def)
  have "L (Ready_head (prio k 0)) \<noteq> []" using queue_ok_ready [OF kernel_okD(1) [OF ok] _ idle] by auto
  then obtain p u where nx: "is_next_thread L p u" using next_thread_exists [OF kernel_okD(1) [OF ok]] by blast
  have "rt_schedule k = Some (switch_to p u k)"
    by (rule rt_schedule_closed [OF kernel_okD(1) [OF ok] nx window_readyD(6) [OF w]])
  moreover have "system_ok L (switch_to p u k)"
    using s window_ready_switch [OF w nx] cpu_ok_switch [OF cpu, of p u]
    by (simp add: system_base_def system_ok_def)
  ultimately show ?thesis using that by blast
qed

section \<open>The steps of the system\<close>

text \<open>A state: the kernel, and where each thread is.  \<open>None\<close> as the outcome of a step is a failed
  assertion or a loop that does not end.\<close>

type_synonym system = "kernel \<times> (tid \<Rightarrow> phase)"

inductive system_step ::
  "(nat \<Rightarrow> u32 \<Rightarrow> kernel \<Rightarrow> kernel option) \<Rightarrow> system \<Rightarrow> system option \<Rightarrow> bool" for app where
  trap: "system_step app (k, P) (map_option (\<lambda>k. (k, P)) (irq_entry app mcause k))"
| enter: "rt_current_thread k = Some t \<Longrightarrow> P t = Outside \<Longrightarrow> call_allowed c k \<Longrightarrow>
    system_step app (k, P) (map_option (\<lambda>(ph, k). (k, P(t := ph))) (enter_call c k))"
| schedule: "rt_current_thread k = Some t \<Longrightarrow> P t = To_schedule sleeping \<Longrightarrow>
    system_step app (k, P) (map_option (\<lambda>k. (k, P(t := if sleeping then After_sleep else Outside))) (rt_schedule k))"
| woken: "rt_current_thread k = Some t \<Longrightarrow> P t = After_sleep \<Longrightarrow>
    system_step app (k, P) (Some (snd (rt_thread_sleep_wake t k), P(t := Outside)))"

inductive reachable ::
  "(nat \<Rightarrow> u32 \<Rightarrow> kernel \<Rightarrow> kernel option) \<Rightarrow> system \<Rightarrow> system option \<Rightarrow> bool" for app s where
  start: "reachable app s (Some s)"
| step: "reachable app s (Some s') \<Longrightarrow> system_step app s' r \<Longrightarrow> reachable app s r"

definition phases_ok :: "(node \<Rightarrow> node list) \<Rightarrow> system \<Rightarrow> bool" where
  "phases_ok L s \<longleftrightarrow> (case s of (k, P) \<Rightarrow> system_base L k \<and>
     (\<forall>t. rt_current_thread k = Some t \<longrightarrow> \<not> to_schedule (P t) \<longrightarrow> runs_highest L k))"

lemma sleep_wake_base:
  "system_base L (snd (rt_thread_sleep_wake t k)) = system_base L k"
  "runs_highest L (snd (rt_thread_sleep_wake t k)) = runs_highest L k"
  "rt_current_thread (snd (rt_thread_sleep_wake t k)) = rt_current_thread k"
proof -
  let ?k = "upd_thread t (\<lambda>th. th\<lparr>error := RT_EOK\<rparr>) k"
  have "sem_ok L ?k s = sem_ok L k s" for s by (rule sem_ok_cong) simp_all
  moreover have "live ?k = live k" by (simp add: live_def rt_object_get_type_def fun_eq_iff)
  ultimately have "system_base L ?k = system_base L k"
    by (simp add: system_base_def window_ready_error cpu_ok_frame)
  then show "system_base L (snd (rt_thread_sleep_wake t k)) = system_base L k"
    by (simp add: rt_thread_sleep_wake_def)
  show "rt_current_thread (snd (rt_thread_sleep_wake t k)) = rt_current_thread k"
    by (simp add: rt_thread_sleep_wake_def)
  then show "runs_highest L (snd (rt_thread_sleep_wake t k)) = runs_highest L k"
    by (rule runs_highest_cong)
qed

lemma system_step_ok:
  assumes "system_step app s r" "phases_ok L s"
  shows "\<exists>L' s'. r = Some s' \<and> phases_ok L' s'"
  using assms(1)
proof (cases rule: system_step.cases)
  case (trap k P mcause)
  then have b: "system_base L k" using assms(2) by (simp add: phases_ok_def)
  obtain L' k' where k': "irq_entry app mcause k = Some k'" "system_base L' k'"
    "rt_current_thread k' = rt_current_thread k \<or> runs_highest L' k'" "runs_highest L k \<longrightarrow> runs_highest L' k'"
    by (rule irq_entry_ok [OF b])
  then have "phases_ok L' (k', P)" using assms(2) trap(1) by (auto simp: phases_ok_def)
  then show ?thesis using trap(2) k'(1) by auto
next
  case (enter k t P c)
  then have "system_ok L k" using assms(2) by (simp add: phases_ok_def system_ok_base)
  from enter_call_ok [OF this enter(5)] obtain ph L' k' where k': "enter_call c k = Some (ph, k')"
    "system_base L' k'" "rt_current_thread k' = rt_current_thread k" "\<not> to_schedule ph \<longrightarrow> runs_highest L' k'"
    unfolding section_ends_def by blast
  then have "phases_ok L' (k', P(t := ph))" using enter(3) by (simp add: phases_ok_def)
  then show ?thesis using enter(2) k'(1) by auto
next
  case (schedule k t P sleeping)
  then have b: "system_base L k" using assms(2) by (simp add: phases_ok_def)
  obtain k' where k': "rt_schedule k = Some k'" "system_ok L k'" by (rule schedule_ok [OF b])
  then have "phases_ok L (k', Q)" for Q by (simp add: phases_ok_def system_ok_base)
  then show ?thesis using schedule(2) k'(1) by auto
next
  case (woken k t P)
  then have "phases_ok L (snd (rt_thread_sleep_wake t k), P(t := Outside))"
    using assms(2) by (simp add: phases_ok_def sleep_wake_base)
  then show ?thesis using woken(2) by auto
qed

lemma reachable_ok:
  assumes "reachable app s r" "phases_ok L s"
  shows "\<exists>L' s'. r = Some s' \<and> phases_ok L' s'"
  using assms
proof (induction rule: reachable.induct)
  case (step s' r)
  then show ?case using system_step_ok [OF step.hyps(2)] by blast
qed blast

section \<open>Properties\<close>

text \<open>The processor executes the current thread, which is ready, and no ready thread has a higher
  priority (a smaller number).\<close>

definition best_runs :: "kernel \<Rightarrow> bool" where
  "best_runs k \<longleftrightarrow> (\<exists>t. cpu_context k = Some t \<and> rt_current_thread k = Some t \<and>
     thread_state k t = RT_THREAD_READY \<and>
     (\<forall>u. thread_state k u = RT_THREAD_READY \<longrightarrow> prio k t \<le> prio k u))"

lemma system_ok_best_runs:
  assumes s: "system_ok L k"
  shows "best_runs k"
proof -
  have ok: "kernel_ok L k" using s system_base_kernel by (simp add: system_ok_base)
  obtain t where t: "rt_current_thread k = Some t" "thread_state k t = RT_THREAD_READY"
    "is_next_thread L (prio k t) t" "cpu_context k = Some t"
    by (rule system_ok_current [OF s])
  have "prio k t \<le> prio k u" if "thread_state k u = RT_THREAD_READY" for u
  proof (rule ccontr)
    assume "\<not> prio k t \<le> prio k u"
    then have "L (Ready_head (prio k u)) = []" using t(3) by (simp add: is_next_thread_def)
    then show False using queue_ok_ready [OF kernel_okD(1) [OF ok] _ that] by simp
  qed
  then show ?thesis using t by (auto simp: best_runs_def)
qed

text \<open>C1: From a state in which the scheduler is not locked and no timers run but those of threads:
  threads that sleep (for at least one tick), yield, and take and release semaphores (waiting times
  below half the tick range, or without limit), next to an idle thread that never waits, are
  interrupted by the clock at any moment at which interrupts are enabled, also between the critical
  section of a call and its call of \<^verbatim>\<open>rt_schedule\<close>, when the current thread may be suspended
  already.  Then no call fails an assertion, follows a wild pointer or loops for ever; in every state
  in between the invariant of the kernel holds and the processor executes the current thread; that
  thread is ready, and no ready thread has a higher priority (a smaller number), except while the
  thread has still to call \<^verbatim>\<open>rt_schedule\<close>, and then this call makes it so.\<close>

theorem cpu_runs_highest_priority:
  assumes "system_ok L k0" "reachable app (k0, \<lambda>_. Outside) r"
  shows "\<exists>L' k P t. r = Some (k, P) \<and> kernel_ok L' k \<and> rt_current_thread k = Some t \<and>
    cpu_context k = Some t \<and>
    (if to_schedule (P t) then \<exists>k'. rt_schedule k = Some k' \<and> kernel_ok L' k' \<and> best_runs k'
     else best_runs k)"
proof -
  have "phases_ok L (k0, \<lambda>_. Outside)" using assms(1) by (simp add: phases_ok_def system_ok_base)
  from reachable_ok [OF assms(2) this] obtain L' k P where k: "r = Some (k, P)" "phases_ok L' (k, P)" by auto
  then have b: "system_base L' k" by (simp add: phases_ok_def)
  obtain t where t: "rt_current_thread k = Some t"
    using b window_readyD(6) [of L' k] by (auto simp: system_base_def)
  obtain k' where k': "rt_schedule k = Some k'" "system_ok L' k'" by (rule schedule_ok [OF b])
  have "kernel_ok L' k'" "best_runs k'"
    using k'(2) system_base_kernel system_ok_best_runs by (auto simp: system_ok_base)
  moreover have "best_runs k" if "\<not> to_schedule (P t)"
    using k(2) t that by (intro system_ok_best_runs [of L']) (simp add: phases_ok_def system_ok_base)
  ultimately show ?thesis
    using k(1) t k'(1) system_base_kernel [OF b] system_base_cpu [OF b] by auto
qed

lemma demo_system_ok: "system_ok demo_ring demo"
proof -
  have i: "rt_thread_switch_interrupt_flag (insert_ready t k) = rt_thread_switch_interrupt_flag k" for t k
    by (simp add: insert_ready_def)
  have s: "rt_thread_switch_interrupt_flag (stop_timer tm k) = rt_thread_switch_interrupt_flag k" for tm k
    by (simp add: stop_timer_def take_off_def)
  have p: "rt_thread_switch_interrupt_flag (prepare_thread t k) = rt_thread_switch_interrupt_flag k" for t k
    by (simp add: prepare_thread_def)
  have "rt_thread_switch_interrupt_flag (startup_thread t k) = rt_thread_switch_interrupt_flag k" for t k
    by (simp add: startup_thread_def resume_thread_def i s p)
  then have "rt_thread_switch_interrupt_flag demo = 0" by (simp add: demo_def) (simp add: boot_def)
  then show ?thesis
    using demo_tick_ready sem_demo_ok(1) by (simp add: system_ok_def cpu_ok_def)
qed

text \<open>Thread 2 goes to sleep for one tick, and the clock strikes in the window before
  \<^verbatim>\<open>rt_schedule\<close>.\<close>

theorem cpu_runs_highest_priority_witness:
  "\<exists>ph k1 k2. enter_call (Call_sleep 1) demo = Some (ph, k1) \<and>
    irq_entry (\<lambda>_ _ _. None) 0x80000007 k1 = Some k2 \<and> cpu_context k2 = rt_current_thread k2 \<and>
    (best_runs k2 \<or> (\<exists>k3. rt_schedule k2 = Some k3 \<and> best_runs k3))"
proof -
  let ?app = "\<lambda>_ _ _. None" and ?P = "\<lambda>_. Outside"
  have "(1 :: u32) < HALF_TICK_MAX" by (simp add: word_less_nat_alt half_tick)
  then have a: "call_allowed (Call_sleep 1) demo" by simp
  from enter_call_ok [OF demo_system_ok this]
  obtain ph k1 where k1: "enter_call (Call_sleep 1) demo = Some (ph, k1)" by (auto simp: section_ends_def)
  have "system_step ?app (demo, ?P) (Some (k1, ?P(2 := ph)))"
    using system_step.enter [of demo 2 ?P "Call_sleep 1" ?app] a k1 by simp
  then have "reachable ?app (demo, ?P) (Some (k1, ?P(2 := ph)))"
    by (rule reachable.step [OF reachable.start])
  then have "reachable ?app (demo, ?P) (map_option (\<lambda>k. (k, ?P(2 := ph))) (irq_entry ?app 0x80000007 k1))"
    by (rule reachable.step [OF _ system_step.trap])
  from cpu_runs_highest_priority [OF demo_system_ok this] show ?thesis using k1
    by (auto split: if_splits)
qed

end
