(* ===== verification/SmallMem.thy ===== *)
theory SmallMem
  imports Example Semaphore
begin

text \<open>
  The heap of \<^verbatim>\<open>src/mem.c\<close> (\<^verbatim>\<open>RT_USING_SMALL_MEM\<close>): a chain of blocks, each behind a header of 12
  bytes in memory: 16 bits magic, 16 bits used flag, 32 bits each for the offsets of the next and
  the previous header.  The functions between \<^verbatim>\<open>rt_sem_take(&heap_sem)\<close> and
  \<^verbatim>\<open>rt_sem_release(&heap_sem)\<close> are functions on the heap alone.
\<close>

section \<open>The state\<close>

text \<open>The static variables of the file, and the memory.\<close>

record heap =
  ram :: memory
  heap_ptr :: u32
  heap_end :: u32
  lfree :: u32
  mem_size_aligned :: u32
  used_mem :: u32
  max_mem :: u32

abbreviation (input) HEAP_MAGIC :: u16 where "HEAP_MAGIC \<equiv> 0x1ea0"
abbreviation (input) MIN_SIZE :: u32 where "MIN_SIZE \<equiv> 12"
abbreviation (input) MIN_SIZE_ALIGNED :: u32 where "MIN_SIZE_ALIGNED \<equiv> 12"
abbreviation (input) SIZEOF_STRUCT_MEM :: u32 where "SIZEOF_STRUCT_MEM \<equiv> 12"

definition load16 :: "memory \<Rightarrow> u32 \<Rightarrow> u16" where
  "load16 m p = ucast (m p) OR push_bit 8 (ucast (m (p + 1)))"

definition store16 :: "u32 \<Rightarrow> u16 \<Rightarrow> memory \<Rightarrow> memory" where
  "store16 p w m = m(p := ucast w, p + 1 := ucast (drop_bit 8 w))"

text \<open>The fields of \<^verbatim>\<open>struct heap_mem\<close> at an address.\<close>

abbreviation mem_magic :: "heap \<Rightarrow> u32 \<Rightarrow> u16" where "mem_magic h a \<equiv> load16 (ram h) a"
abbreviation mem_used :: "heap \<Rightarrow> u32 \<Rightarrow> u16" where "mem_used h a \<equiv> load16 (ram h) (a + 2)"
abbreviation mem_next :: "heap \<Rightarrow> u32 \<Rightarrow> u32" where "mem_next h a \<equiv> load32 (ram h) (a + 4)"
abbreviation mem_prev :: "heap \<Rightarrow> u32 \<Rightarrow> u32" where "mem_prev h a \<equiv> load32 (ram h) (a + 8)"

abbreviation set_magic :: "u32 \<Rightarrow> u16 \<Rightarrow> heap \<Rightarrow> heap" where
  "set_magic a w \<equiv> ram_update (store16 a w)"
abbreviation set_used :: "u32 \<Rightarrow> u16 \<Rightarrow> heap \<Rightarrow> heap" where
  "set_used a w \<equiv> ram_update (store16 (a + 2) w)"
abbreviation set_mem_next :: "u32 \<Rightarrow> u32 \<Rightarrow> heap \<Rightarrow> heap" where
  "set_mem_next a w \<equiv> ram_update (store32 (a + 4) w)"
abbreviation set_mem_prev :: "u32 \<Rightarrow> u32 \<Rightarrow> heap \<Rightarrow> heap" where
  "set_mem_prev a w \<equiv> ram_update (store32 (a + 8) w)"

section \<open>The operations on the heap\<close>

definition plug_holes :: "u32 \<Rightarrow> heap \<Rightarrow> heap option" where
  "plug_holes hm h = do {
     RT_ASSERT (hm \<ge> heap_ptr h);
     RT_ASSERT (hm < heap_end h);
     RT_ASSERT (mem_used h hm = 0);
     let nmem = heap_ptr h + mem_next h hm;
     let h = (if hm \<noteq> nmem \<and> mem_used h nmem = 0 \<and> nmem \<noteq> heap_end h then
         let h = (if lfree h = nmem then h\<lparr>lfree := hm\<rparr> else h);
             h = set_mem_next hm (mem_next h nmem) h
         in set_mem_prev (heap_ptr h + mem_next h nmem) (hm - heap_ptr h) h
       else h);
     let pmem = heap_ptr h + mem_prev h hm;
     Some (if pmem \<noteq> hm \<and> mem_used h pmem = 0 then
         let h = (if lfree h = hm then h\<lparr>lfree := pmem\<rparr> else h);
             h = set_mem_next pmem (mem_next h hm) h
         in set_mem_prev (heap_ptr h + mem_next h hm) (pmem - heap_ptr h) h
       else h)
   }"

text \<open>The \<^verbatim>\<open>for\<close> loop of \<^verbatim>\<open>rt_malloc\<close>: the offset of the first block that fits.\<close>

partial_function (option) malloc_search :: "u32 \<Rightarrow> u32 \<Rightarrow> heap \<Rightarrow> u32 option option" where
  "malloc_search sz ptr h =
     (if ptr < mem_size_aligned h - sz then
        (let hm = heap_ptr h + ptr in
         if mem_used h hm = 0 \<and> mem_next h hm - (ptr + SIZEOF_STRUCT_MEM) \<ge> sz
         then Some (Some ptr)
         else malloc_search sz (mem_next h hm) h)
      else Some None)"

text \<open>Marking the block as used, with a split if the rest can hold another block.\<close>

definition count_used :: "u32 \<Rightarrow> heap \<Rightarrow> heap" where
  "count_used n h = (let h = h\<lparr>used_mem := used_mem h + n\<rparr>
   in if max_mem h < used_mem h then h\<lparr>max_mem := used_mem h\<rparr> else h)"

definition malloc_mark :: "u32 \<Rightarrow> u32 \<Rightarrow> heap \<Rightarrow> heap" where
  "malloc_mark sz ptr h = (let hm = heap_ptr h + ptr;
     h = (if mem_next h hm - (ptr + SIZEOF_STRUCT_MEM) \<ge> sz + SIZEOF_STRUCT_MEM + MIN_SIZE_ALIGNED
       then let
         ptr2 = ptr + SIZEOF_STRUCT_MEM + sz;
         hm2 = heap_ptr h + ptr2;
         h = set_magic hm2 HEAP_MAGIC h;
         h = set_used hm2 0 h;
         h = set_mem_next hm2 (mem_next h hm) h;
         h = set_mem_prev hm2 ptr h;
         h = set_mem_next hm ptr2 h;
         h = set_used hm 1 h;
         h = (if mem_next h hm2 \<noteq> mem_size_aligned h + SIZEOF_STRUCT_MEM
           then set_mem_prev (heap_ptr h + mem_next h hm2) ptr2 h else h)
         in count_used (sz + SIZEOF_STRUCT_MEM) h
       else let
         h = set_used hm 1 h
         in count_used (mem_next h hm - (hm - heap_ptr h)) h)
   in set_magic hm HEAP_MAGIC h)"

text \<open>The lowest free block from \<open>p\<close> on.\<close>

partial_function (option) lfree_from :: "u32 \<Rightarrow> heap \<Rightarrow> u32 option" where
  "lfree_from p h =
     (if mem_used h p \<noteq> 0 \<and> p \<noteq> heap_end h then lfree_from (heap_ptr h + mem_next h p) h
      else Some p)"

definition malloc_locked :: "u32 \<Rightarrow> heap \<Rightarrow> (u32 \<times> heap) option" where
  "malloc_locked sz h = do {
     found \<leftarrow> malloc_search sz (lfree h - heap_ptr h) h;
     case found of None \<Rightarrow> Some (0, h)
     | Some ptr \<Rightarrow> do {
         let hm = heap_ptr h + ptr;
         let h = malloc_mark sz ptr h;
         h \<leftarrow> if hm = lfree h then do {
             p \<leftarrow> lfree_from (lfree h) h;
             let h = h\<lparr>lfree := p\<rparr>;
             RT_ASSERT (lfree h = heap_end h \<or> mem_used h (lfree h) = 0);
             Some h
           } else Some h;
         RT_ASSERT (hm + SIZEOF_STRUCT_MEM + sz \<le> heap_end h);
         RT_ASSERT ((hm + SIZEOF_STRUCT_MEM) mod RT_ALIGN_SIZE = 0);
         RT_ASSERT (hm AND (RT_ALIGN_SIZE - 1) = 0);
         Some (hm + SIZEOF_STRUCT_MEM, h)
       }
   }"

definition free_locked :: "u32 \<Rightarrow> heap \<Rightarrow> heap option" where
  "free_locked rmem h = do {
     let hm = rmem - SIZEOF_STRUCT_MEM;
     RT_ASSERT (mem_used h hm \<noteq> 0);
     RT_ASSERT (mem_magic h hm = HEAP_MAGIC);
     let h = set_used hm 0 h;
     let h = set_magic hm HEAP_MAGIC h;
     let h = (if hm < lfree h then h\<lparr>lfree := hm\<rparr> else h);
     let h = h\<lparr>used_mem := used_mem h - (mem_next h hm - (hm - heap_ptr h))\<rparr>;
     plug_holes hm h
   }"

text \<open>The part of \<^verbatim>\<open>rt_realloc\<close> that works in place: \<open>Some sz\<close> as the first component says that
  the block, of \<open>sz\<close> bytes, has to move.\<close>

definition realloc_size :: "u32 \<Rightarrow> heap \<Rightarrow> u32" where
  "realloc_size rmem h = (let hm = rmem - SIZEOF_STRUCT_MEM; ptr = hm - heap_ptr h
   in mem_next h hm - ptr - SIZEOF_STRUCT_MEM)"

definition realloc_locked :: "u32 \<Rightarrow> u32 \<Rightarrow> heap \<Rightarrow> (u32 option \<times> heap) option" where
  "realloc_locked rmem newsize h =
     (if rmem < heap_ptr h \<or> rmem \<ge> heap_end h then Some (None, h)
      else let
        hm = rmem - SIZEOF_STRUCT_MEM;
        ptr = hm - heap_ptr h;
        sz = realloc_size rmem h
      in if sz = newsize then Some (None, h)
      else if newsize + SIZEOF_STRUCT_MEM + MIN_SIZE < sz then do {
        let h = h\<lparr>used_mem := used_mem h - (sz - newsize)\<rparr>;
        let ptr2 = ptr + SIZEOF_STRUCT_MEM + newsize;
        let hm2 = heap_ptr h + ptr2;
        let h = set_magic hm2 HEAP_MAGIC h;
        let h = set_used hm2 0 h;
        let h = set_mem_next hm2 (mem_next h hm) h;
        let h = set_mem_prev hm2 ptr h;
        let h = set_mem_next hm ptr2 h;
        let h = (if mem_next h hm2 \<noteq> mem_size_aligned h + SIZEOF_STRUCT_MEM
          then set_mem_prev (heap_ptr h + mem_next h hm2) ptr2 h else h);
        let h = (if hm2 < lfree h then h\<lparr>lfree := hm2\<rparr> else h);
        h \<leftarrow> plug_holes hm2 h;
        Some (None, h)
      }
      else Some (Some sz, h))"

section \<open>The interface\<close>

text \<open>\<^verbatim>\<open>heap_sem\<close> guards the heap.  A call that finds it taken waits (\<open>Waits\<close>) and goes on with the
  part in \<open>heap_body\<close> when it has been woken up.\<close>

definition heap_sem :: nat where "heap_sem = 1"

datatype 'a heap_call = Returns 'a | Waits

definition heap_body ::
  "(heap \<Rightarrow> ('a \<times> heap) option) \<Rightarrow> heap \<Rightarrow> kernel \<Rightarrow> ('a heap_call \<times> heap \<times> kernel) option" where
  "heap_body body h k = do {
     (x, h) \<leftarrow> body (h\<lparr>ram := mem k\<rparr>);
     (_, k) \<leftarrow> rt_sem_release heap_sem (k\<lparr>mem := ram h\<rparr>);
     Some (Returns x, h, k)
   }"

definition heap_call ::
  "(heap \<Rightarrow> ('a \<times> heap) option) \<Rightarrow> heap \<Rightarrow> kernel \<Rightarrow> ('a heap_call \<times> heap \<times> kernel) option" where
  "heap_call body h k = do {
     (r, k) \<leftarrow> rt_sem_take heap_sem RT_WAITING_FOREVER k;
     case r of Blocked _ \<Rightarrow> Some (Waits, h, k) | Done _ \<Rightarrow> heap_body body h k
   }"

definition rt_system_heap_init :: "char_ptr \<Rightarrow> u32 \<Rightarrow> u32 \<Rightarrow> heap \<Rightarrow> kernel \<Rightarrow> (heap \<times> kernel) option" where
  "rt_system_heap_init nm begin_addr end_addr h k = (let
     begin_align = RT_ALIGN begin_addr RT_ALIGN_SIZE;
     end_align = RT_ALIGN_DOWN end_addr RT_ALIGN_SIZE
   in if end_align > 2 * SIZEOF_STRUCT_MEM \<and> end_align - 2 * SIZEOF_STRUCT_MEM \<ge> begin_align
   then do {
     let h = h\<lparr>mem_size_aligned := end_align - begin_align - 2 * SIZEOF_STRUCT_MEM\<rparr>;
     let h = h\<lparr>heap_ptr := begin_align\<rparr>;
     let h = h\<lparr>ram := mem k\<rparr>;
     let hm = heap_ptr h;
     let h = set_magic hm HEAP_MAGIC h;
     let h = set_mem_next hm (mem_size_aligned h + SIZEOF_STRUCT_MEM) h;
     let h = set_mem_prev hm 0 h;
     let h = set_used hm 0 h;
     let h = h\<lparr>heap_end := heap_ptr h + mem_next h hm\<rparr>;
     let h = set_magic (heap_end h) HEAP_MAGIC h;
     let h = set_used (heap_end h) 1 h;
     let h = set_mem_next (heap_end h) (mem_size_aligned h + SIZEOF_STRUCT_MEM) h;
     let h = set_mem_prev (heap_end h) (mem_size_aligned h + SIZEOF_STRUCT_MEM) h;
     k \<leftarrow> rt_sem_init heap_sem nm 1 RT_IPC_FLAG_FIFO (k\<lparr>mem := ram h\<rparr>);
     Some (h\<lparr>lfree := heap_ptr h\<rparr>, snd k)
   }
   else Some (h, k))"

definition malloc_size :: "u32 \<Rightarrow> u32" where
  "malloc_size sz = (if sz < MIN_SIZE_ALIGNED then MIN_SIZE_ALIGNED else sz)"

definition rt_malloc :: "u32 \<Rightarrow> heap \<Rightarrow> kernel \<Rightarrow> (u32 heap_call \<times> heap \<times> kernel) option" where
  "rt_malloc sz h k =
     (if sz = 0 then Some (Returns 0, h, k)
      else let sz = RT_ALIGN sz RT_ALIGN_SIZE
      in if sz > mem_size_aligned h then Some (Returns 0, h, k)
      else heap_call (malloc_locked (malloc_size sz)) h k)"

definition rt_free :: "u32 \<Rightarrow> heap \<Rightarrow> kernel \<Rightarrow> (unit heap_call \<times> heap \<times> kernel) option" where
  "rt_free rmem h k =
     (if rmem = 0 then Some (Returns (), h, k)
      else do {
        RT_ASSERT (rmem AND (RT_ALIGN_SIZE - 1) = 0);
        RT_ASSERT (rmem \<ge> heap_ptr h \<and> rmem < heap_end h);
        heap_call (\<lambda>h. do { h \<leftarrow> free_locked rmem h; Some ((), h) }) h k
      })"

text \<open>The rest of \<^verbatim>\<open>rt_realloc\<close>, when the block did not fit in place.\<close>

definition realloc_move ::
  "u32 \<Rightarrow> u32 \<Rightarrow> u32 \<Rightarrow> heap \<Rightarrow> kernel \<Rightarrow> (u32 heap_call \<times> heap \<times> kernel) option" where
  "realloc_move rmem sz newsize h k = do {
     (r, h, k) \<leftarrow> rt_malloc newsize h k;
     case r of Waits \<Rightarrow> Some (Waits, h, k)
     | Returns nmem \<Rightarrow>
         if nmem \<noteq> 0 then do {
           let k = mem_update (rt_memcpy nmem rmem (if sz < newsize then sz else newsize)) k;
           (r, h, k) \<leftarrow> rt_free rmem h k;
           Some (case r of Waits \<Rightarrow> Waits | Returns _ \<Rightarrow> Returns nmem, h, k)
         }
         else Some (Returns nmem, h, k)
   }"

definition rt_realloc :: "u32 \<Rightarrow> u32 \<Rightarrow> heap \<Rightarrow> kernel \<Rightarrow> (u32 heap_call \<times> heap \<times> kernel) option" where
  "rt_realloc rmem newsize h k = (let newsize = RT_ALIGN newsize RT_ALIGN_SIZE
   in if newsize > mem_size_aligned h then Some (Returns 0, h, k)
   else if newsize = 0 then do {
     (r, h, k) \<leftarrow> rt_free rmem h k;
     Some (case r of Waits \<Rightarrow> Waits | Returns _ \<Rightarrow> Returns 0, h, k)
   }
   else if rmem = 0 then rt_malloc newsize h k
   else do {
     (r, h, k) \<leftarrow> heap_call (realloc_locked rmem newsize) h k;
     case r of Waits \<Rightarrow> Some (Waits, h, k)
     | Returns None \<Rightarrow> Some (Returns rmem, h, k)
     | Returns (Some sz) \<Rightarrow> realloc_move rmem sz newsize h k
   })"

definition rt_calloc :: "u32 \<Rightarrow> u32 \<Rightarrow> heap \<Rightarrow> kernel \<Rightarrow> (u32 heap_call \<times> heap \<times> kernel) option" where
  "rt_calloc count sz h k = do {
     (r, h, k) \<leftarrow> rt_malloc (count * sz) h k;
     case r of Waits \<Rightarrow> Some (Waits, h, k)
     | Returns p \<Rightarrow> Some (Returns p, h,
         if p \<noteq> 0 then mem_update (rt_memset p 0 (count * sz)) k else k)
   }"

definition rt_memory_info :: "heap \<Rightarrow> u32 \<times> u32 \<times> u32" where
  "rt_memory_info h = (mem_size_aligned h, used_mem h, max_mem h)"

end
