(* ===== verification/HeapProof.thy ===== *)
theory HeapProof
  imports SmallMem
begin

text \<open>
  Correctness of the heap of \<^verbatim>\<open>src/mem.c\<close>.  The chain of blocks is described by the list of the
  offsets of its headers, the last one being the end of the heap; the abstract view of the heap
  is the set of its allocated blocks, pairs of the offsets of a used header and the next one.
\<close>

section \<open>Headers in memory\<close>

lemma store16_other: "2 \<le> a - p \<Longrightarrow> store16 p w m a = m a"
proof -
  assume "2 \<le> a - p"
  then have "a - p \<noteq> 0 \<and> a - p \<noteq> 1" by (auto simp: word_le_nat_alt)
  then show ?thesis by (auto simp: store16_def algebra_simps)
qed

lemma load16_store16 [simp]: "load16 (store16 p w m) p = w"
proof (rule bit_word_eqI)
  fix n assume "n < LENGTH(16)"
  then consider "n < 8" | "8 \<le> n \<and> n < 16" by fastforce
  then show "bit (load16 (store16 p w m) p) n = bit w n"
    by cases (auto simp: load16_def store16_def bit_push_bit_iff bit_or_iff bit_drop_bit_eq bit_unsigned_iff)
qed

text \<open>Offsets from the start of the heap.\<close>

lemma off_apart:
  fixes P :: u32
  assumes "i + n \<le> 2 ^ 32" "j < 2 ^ 32" "j < i \<or> i + n \<le> j" "0 < n"
  shows "of_nat n \<le> (P + of_nat j) - (P + of_nat i)"
proof -
  have "n \<le> unat ((P + of_nat j) - (P + of_nat i))"
  proof (cases "j < i")
    case True
    have "unat (of_nat j - of_nat i :: u32) = 2 ^ 32 + unat (of_nat j :: u32) - unat (of_nat i :: u32)"
      using assms True by (intro unat_diff_wrap) (simp add: unat_of_nat_id)
    then show ?thesis using assms True by (simp add: unat_of_nat_id)
  next
    case False
    then have e: "(P + of_nat j) - (P + of_nat i) = of_nat (j - i)" using assms by (simp add: of_nat_diff)
    have "unat (of_nat (j - i) :: u32) = j - i" using assms by (intro unat_of_nat_id) simp
    then show ?thesis unfolding e using assms False by simp
  qed
  moreover have "unat (of_nat n :: u32) \<le> n" by (simp add: unat_of_nat)
  ultimately show ?thesis by (simp add: word_le_nat_alt)
qed

lemma store32_off:
  assumes "i + 4 \<le> 2 ^ 32" "j < 2 ^ 32" "j < i \<or> i + 4 \<le> j"
  shows "store32 (P + of_nat i) w m (P + of_nat j) = m (P + of_nat j)"
  using off_apart [OF assms, of P] by (intro store32_other) simp

lemma store16_off:
  assumes "i + 2 \<le> 2 ^ 32" "j < 2 ^ 32" "j < i \<or> i + 2 \<le> j"
  shows "store16 (P + of_nat i) w m (P + of_nat j) = m (P + of_nat j)"
  using off_apart [OF assms, of P] by (intro store16_other) simp

lemma byte_offsets:
  fixes P :: u32
  shows "P + of_nat j + 1 = P + of_nat (j + 1)" "P + of_nat j + 2 = P + of_nat (j + 2)"
    "P + of_nat j + 3 = P + of_nat (j + 3)"
  by (simp_all add: add.assoc add.commute)

lemma load32_off:
  assumes "\<And>i. j \<le> i \<Longrightarrow> i < j + 4 \<Longrightarrow> m' (P + of_nat i) = m (P + of_nat i)"
  shows "load32 m' (P + of_nat j) = load32 m (P + of_nat j)"
proof -
  have "m' (P + of_nat j) = m (P + of_nat j)" "m' (P + of_nat (j + 1)) = m (P + of_nat (j + 1))"
    "m' (P + of_nat (j + 2)) = m (P + of_nat (j + 2))" "m' (P + of_nat (j + 3)) = m (P + of_nat (j + 3))"
    by (rule assms; simp)+
  then show ?thesis unfolding load32_def byte_offsets by (simp only:)
qed

lemma load16_off:
  assumes "\<And>i. j \<le> i \<Longrightarrow> i < j + 2 \<Longrightarrow> m' (P + of_nat i) = m (P + of_nat i)"
  shows "load16 m' (P + of_nat j) = load16 m (P + of_nat j)"
proof -
  have "m' (P + of_nat j) = m (P + of_nat j)" "m' (P + of_nat (j + 1)) = m (P + of_nat (j + 1))"
    by (rule assms; simp)+
  then show ?thesis unfolding load16_def byte_offsets by (simp only:)
qed

text \<open>The fields of the header at an offset.\<close>

definition magicf :: "heap \<Rightarrow> nat \<Rightarrow> u16" where "magicf h i = mem_magic h (heap_ptr h + of_nat i)"
definition usedf :: "heap \<Rightarrow> nat \<Rightarrow> u16" where "usedf h i = mem_used h (heap_ptr h + of_nat i)"
definition nextf :: "heap \<Rightarrow> nat \<Rightarrow> u32" where "nextf h i = mem_next h (heap_ptr h + of_nat i)"
definition prevf :: "heap \<Rightarrow> nat \<Rightarrow> u32" where "prevf h i = mem_prev h (heap_ptr h + of_nat i)"

text \<open>Headers that do not overlap.\<close>

definition placed :: "nat set \<Rightarrow> bool" where
  "placed A \<longleftrightarrow> (\<forall>a \<in> A. a + 12 \<le> 2 ^ 32) \<and> (\<forall>a \<in> A. \<forall>b \<in> A. a \<noteq> b \<longrightarrow> a + 12 \<le> b \<or> b + 12 \<le> a)"

lemma header_write:
  assumes p: "placed A" "a \<in> A" "b \<in> A" and k: "k + n \<le> 12" "l + n' \<le> 12" "k + n \<le> l \<or> l + n' \<le> k \<or> a \<noteq> b"
    and w: "n = 2 \<and> st = store16 (P + of_nat a + of_nat k) w2 \<or> n = 4 \<and> st = store32 (P + of_nat a + of_nat k) w4"
    and i: "b + l \<le> i" "i < b + l + n'"
  shows "st m (P + of_nat i) = m (P + of_nat i)"
proof -
  have ab: "a + 12 \<le> 2 ^ 32" "b + 12 \<le> 2 ^ 32" "a \<noteq> b \<Longrightarrow> a + 12 \<le> b \<or> b + 12 \<le> a"
    using p by (auto simp: placed_def)
  have ad: "P + of_nat a + of_nat k = P + of_nat (a + k)" by simp
  have r: "i < 2 ^ 32" "a + k + n \<le> 2 ^ 32" "i < a + k \<or> a + k + n \<le> i"
    using ab k i by (cases "a = b"; linarith)+
  from w show ?thesis
  proof
    assume "n = 2 \<and> st = store16 (P + of_nat a + of_nat k) w2"
    then show ?thesis using r store16_off [of "a + k" i P w2 m] unfolding ad by simp
  next
    assume "n = 4 \<and> st = store32 (P + of_nat a + of_nat k) w4"
    then show ?thesis using r store32_off [of "a + k" i P w4 m] unfolding ad by simp
  qed
qed

lemma header_read:
  assumes p: "placed A" "a \<in> A" "b \<in> A" and k: "k + n \<le> 12"
    and w: "n = 2 \<and> st = store16 (P + of_nat a + of_nat k) w2 \<or> n = 4 \<and> st = store32 (P + of_nat a + of_nat k) w4"
  shows "l + 4 \<le> 12 \<Longrightarrow> k + n \<le> l \<or> l + 4 \<le> k \<or> a \<noteq> b \<Longrightarrow>
      load32 (st m) (P + of_nat b + of_nat l) = load32 m (P + of_nat b + of_nat l)"
    "l + 2 \<le> 12 \<Longrightarrow> k + n \<le> l \<or> l + 2 \<le> k \<or> a \<noteq> b \<Longrightarrow>
      load16 (st m) (P + of_nat b + of_nat l) = load16 m (P + of_nat b + of_nat l)"
proof -
  have e: "P + of_nat b + of_nat l = P + of_nat (b + l)" by simp
  show "load32 (st m) (P + of_nat b + of_nat l) = load32 m (P + of_nat b + of_nat l)"
    if l: "l + 4 \<le> 12" "k + n \<le> l \<or> l + 4 \<le> k \<or> a \<noteq> b"
    unfolding e by (rule load32_off, rule header_write [OF p k l w])
  show "load16 (st m) (P + of_nat b + of_nat l) = load16 m (P + of_nat b + of_nat l)"
    if l: "l + 2 \<le> 12" "k + n \<le> l \<or> l + 2 \<le> k \<or> a \<noteq> b"
    unfolding e by (rule load16_off, rule header_write [OF p k l w])
qed

lemma set_next_fields:
  assumes p: "placed A" "a \<in> A" "b \<in> A"
  shows
    "nextf (set_mem_next (heap_ptr h + of_nat a) w h) b = (if b = a then w else nextf h b)"
    "prevf (set_mem_next (heap_ptr h + of_nat a) w h) b = prevf h b"
    "usedf (set_mem_next (heap_ptr h + of_nat a) w h) b = usedf h b"
    "magicf (set_mem_next (heap_ptr h + of_nat a) w h) b = magicf h b"
  using header_read [OF p, of 4 4 _ "heap_ptr h" undefined w 4 "ram h"]
    header_read [OF p, of 4 4 _ "heap_ptr h" undefined w 8 "ram h"]
    header_read [OF p, of 4 4 _ "heap_ptr h" undefined w 2 "ram h"]
    header_read [OF p, of 4 4 _ "heap_ptr h" undefined w 0 "ram h"]
    by (auto simp: nextf_def prevf_def usedf_def magicf_def)

lemma set_prev_fields:
  assumes p: "placed A" "a \<in> A" "b \<in> A"
  shows
    "nextf (set_mem_prev (heap_ptr h + of_nat a) w h) b = nextf h b"
    "prevf (set_mem_prev (heap_ptr h + of_nat a) w h) b = (if b = a then w else prevf h b)"
    "usedf (set_mem_prev (heap_ptr h + of_nat a) w h) b = usedf h b"
    "magicf (set_mem_prev (heap_ptr h + of_nat a) w h) b = magicf h b"
  using header_read [OF p, of 8 4 _ "heap_ptr h" undefined w 4 "ram h"]
    header_read [OF p, of 8 4 _ "heap_ptr h" undefined w 8 "ram h"]
    header_read [OF p, of 8 4 _ "heap_ptr h" undefined w 2 "ram h"]
    header_read [OF p, of 8 4 _ "heap_ptr h" undefined w 0 "ram h"]
    by (auto simp: nextf_def prevf_def usedf_def magicf_def)

lemma set_used_fields:
  assumes p: "placed A" "a \<in> A" "b \<in> A"
  shows
    "nextf (set_used (heap_ptr h + of_nat a) w h) b = nextf h b"
    "prevf (set_used (heap_ptr h + of_nat a) w h) b = prevf h b"
    "usedf (set_used (heap_ptr h + of_nat a) w h) b = (if b = a then w else usedf h b)"
    "magicf (set_used (heap_ptr h + of_nat a) w h) b = magicf h b"
  using header_read [OF p, of 2 2 _ "heap_ptr h" w undefined 4 "ram h"]
    header_read [OF p, of 2 2 _ "heap_ptr h" w undefined 8 "ram h"]
    header_read [OF p, of 2 2 _ "heap_ptr h" w undefined 2 "ram h"]
    header_read [OF p, of 2 2 _ "heap_ptr h" w undefined 0 "ram h"]
    by (auto simp: nextf_def prevf_def usedf_def magicf_def)

lemma set_magic_fields:
  assumes p: "placed A" "a \<in> A" "b \<in> A"
  shows
    "nextf (set_magic (heap_ptr h + of_nat a) w h) b = nextf h b"
    "prevf (set_magic (heap_ptr h + of_nat a) w h) b = prevf h b"
    "usedf (set_magic (heap_ptr h + of_nat a) w h) b = usedf h b"
    "magicf (set_magic (heap_ptr h + of_nat a) w h) b = (if b = a then w else magicf h b)"
  using header_read [OF p, of 0 2 _ "heap_ptr h" w undefined 4 "ram h"]
    header_read [OF p, of 0 2 _ "heap_ptr h" w undefined 8 "ram h"]
    header_read [OF p, of 0 2 _ "heap_ptr h" w undefined 2 "ram h"]
    header_read [OF p, of 0 2 _ "heap_ptr h" w undefined 0 "ram h"]
    by (auto simp: nextf_def prevf_def usedf_def magicf_def)

lemmas set_fields = set_next_fields set_prev_fields set_used_fields set_magic_fields

text \<open>The bytes outside the headers.\<close>

definition outside :: "nat set \<Rightarrow> nat \<Rightarrow> bool" where
  "outside A i \<longleftrightarrow> i < 2 ^ 32 \<and> (\<forall>a \<in> A. i < a \<or> a + 12 \<le> i)"

definition byte :: "heap \<Rightarrow> nat \<Rightarrow> u8" where "byte h i = ram h (heap_ptr h + of_nat i)"

lemma set_fields_byte:
  assumes "placed A" "a \<in> A" "outside A i"
  shows "byte (set_mem_next (heap_ptr h + of_nat a) w h) i = byte h i"
    "byte (set_mem_prev (heap_ptr h + of_nat a) w h) i = byte h i"
    "byte (set_used (heap_ptr h + of_nat a) v h) i = byte h i"
    "byte (set_magic (heap_ptr h + of_nat a) v h) i = byte h i"
proof -
  have ai: "a + 12 \<le> 2 ^ 32" "i < 2 ^ 32" "i < a \<or> a + 12 \<le> i"
    using assms by (auto simp: placed_def outside_def)
  have e: "heap_ptr h + of_nat a + 4 = heap_ptr h + of_nat (a + 4)"
    "heap_ptr h + of_nat a + 8 = heap_ptr h + of_nat (a + 8)"
    "heap_ptr h + of_nat a + 2 = heap_ptr h + of_nat (a + 2)" by simp_all
  show "byte (set_mem_next (heap_ptr h + of_nat a) w h) i = byte h i"
    "byte (set_mem_prev (heap_ptr h + of_nat a) w h) i = byte h i"
    "byte (set_used (heap_ptr h + of_nat a) v h) i = byte h i"
    "byte (set_magic (heap_ptr h + of_nat a) v h) i = byte h i"
    using ai store32_off [of "a + 4" i "heap_ptr h" w "ram h"] store32_off [of "a + 8" i "heap_ptr h" w "ram h"]
      store16_off [of "a + 2" i "heap_ptr h" v "ram h"] store16_off [of a i "heap_ptr h" v "ram h"]
    unfolding e byte_def by (auto simp del: of_nat_add)
qed

section \<open>Chains of headers\<close>

definition adj :: "nat list \<Rightarrow> (nat \<times> nat) set" where
  "adj os = set (zip os (tl os))"

lemma adj_simps [simp]:
  "adj [] = {}" "adj [a] = {}" "adj (a # b # os) = insert (a, b) (adj (b # os))"
  by (simp_all add: adj_def)

lemma adj_append: "adj (xs @ a # ys) = adj (xs @ [a]) \<union> adj (a # ys)"
proof (induction xs)
  case (Cons x xs)
  then show ?case by (cases xs) auto
qed simp

lemma adj_mem: "(a, b) \<in> adj os \<Longrightarrow> a \<in> set os \<and> b \<in> set os"
  unfolding adj_def by (cases os) (auto dest: set_zip_leftD set_zip_rightD)

lemma adj_split:
  assumes "(a, b) \<in> adj os"
  obtains xs ys where "os = xs @ a # b # ys"
  using assms
proof (induction os arbitrary: thesis)
  case (Cons c os)
  show ?case
  proof (cases os)
    case (Cons d ds)
    show ?thesis
    proof (cases "(a, b) = (c, d)")
      case True
      then show ?thesis using Cons.prems(1) [of "[]" ds] Cons by simp
    next
      case False
      then have "(a, b) \<in> adj os" using Cons.prems(2) Cons by auto
      then obtain xs ys where "os = xs @ a # b # ys" using Cons.IH by blast
      then show ?thesis using Cons.prems(1) [of "c # xs" ys] by simp
    qed
  qed (use Cons.prems in simp)
qed simp

text \<open>Every block has room for its header and 12 bytes.\<close>

definition gaps :: "nat list \<Rightarrow> bool" where
  "gaps os \<longleftrightarrow> (\<forall>(a, b) \<in> adj os. a + 24 \<le> b)"

lemma gaps_sorted: "gaps os \<Longrightarrow> sorted_wrt (\<lambda>a b. a + 24 \<le> b) os"
proof (induction os)
  case (Cons a os)
  show ?case
  proof (cases os)
    case (Cons b bs)
    then have g: "a + 24 \<le> b" "gaps os" using Cons.prems by (auto simp: gaps_def)
    then have "sorted_wrt (\<lambda>a b. a + 24 \<le> b) os" using Cons.IH by simp
    then show ?thesis using g(1) Cons by (auto intro: order_trans)
  qed simp
qed simp

lemma sorted_gap:
  assumes "sorted_wrt (\<lambda>a b. a + 24 \<le> b) (os :: nat list)" "a \<in> set os" "b \<in> set os" "a \<noteq> b"
  shows "a + 24 \<le> b \<or> b + 24 \<le> a"
  using assms by (induction os) auto

lemma gaps_placed:
  assumes "gaps os" "\<And>a. a \<in> set os \<Longrightarrow> a + 12 \<le> 2 ^ 32"
  shows "placed (set os)"
  using assms(2) sorted_gap [OF gaps_sorted [OF assms(1)]] unfolding placed_def by fastforce

lemma gaps_distinct: "gaps os \<Longrightarrow> distinct os"
proof -
  have "sorted_wrt (\<lambda>a b. a + 24 \<le> b) os \<Longrightarrow> distinct os" for os :: "nat list"
    by (induction os) auto
  then show "gaps os \<Longrightarrow> distinct os" using gaps_sorted by blast
qed

lemma gaps_last: "gaps os \<Longrightarrow> a \<in> set os \<Longrightarrow> a \<noteq> last os \<Longrightarrow> a + 24 \<le> last os"
proof -
  assume g: "gaps os" and a: "a \<in> set os" "a \<noteq> last os"
  then have s: "sorted_wrt (\<lambda>a b. a + 24 \<le> b) (butlast os @ [last os])"
    using gaps_sorted [OF g] by (cases os rule: rev_cases) auto
  moreover have "a \<in> set (butlast os)" using a by (cases os rule: rev_cases) auto
  ultimately show ?thesis by (simp add: sorted_wrt_append)
qed

section \<open>The invariant\<close>

abbreviation heap_size :: "heap \<Rightarrow> nat" where "heap_size h \<equiv> unat (mem_size_aligned h)"

definition chain_ok :: "nat list \<Rightarrow> heap \<Rightarrow> bool" where
  "chain_ok os h \<longleftrightarrow>
     unat (heap_ptr h) + heap_size h + 24 < 2 ^ 32 \<and> 4 dvd unat (heap_ptr h) \<and> 4 dvd heap_size h \<and>
     heap_end h = heap_ptr h + of_nat (heap_size h + 12) \<and>
     os \<noteq> [] \<and> hd os = 0 \<and> last os = heap_size h + 12 \<and>
     (\<forall>a \<in> set os. 4 dvd a \<and> magicf h a = HEAP_MAGIC) \<and> gaps os \<and>
     (\<forall>(a, b) \<in> adj os. nextf h a = of_nat b \<and> (b \<noteq> heap_size h + 12 \<longrightarrow> prevf h b = of_nat a)) \<and>
     prevf h 0 = 0 \<and> usedf h (heap_size h + 12) \<noteq> 0"

text \<open>Two free blocks are never next to each other, and \<open>lfree\<close> points to the first free block,
  or to the end.\<close>

definition no_holes :: "nat list \<Rightarrow> heap \<Rightarrow> bool" where
  "no_holes os h \<longleftrightarrow> (\<forall>(a, b) \<in> adj os. usedf h a = 0 \<longrightarrow> usedf h b \<noteq> 0)"

definition lfree_ok :: "nat list \<Rightarrow> heap \<Rightarrow> bool" where
  "lfree_ok os h \<longleftrightarrow> (\<exists>a \<in> set os. lfree h = heap_ptr h + of_nat a \<and>
     (usedf h a = 0 \<or> a = heap_size h + 12) \<and> (\<forall>c \<in> set os. c < a \<longrightarrow> usedf h c \<noteq> 0))"

definition heap_ok :: "nat list \<Rightarrow> heap \<Rightarrow> bool" where
  "heap_ok os h \<longleftrightarrow> chain_ok os h \<and> no_holes os h \<and> lfree_ok os h"

lemma chain_okD:
  assumes "chain_ok os h"
  shows "unat (heap_ptr h) + heap_size h + 24 < 2 ^ 32" "4 dvd unat (heap_ptr h)" "4 dvd heap_size h"
    "heap_end h = heap_ptr h + of_nat (heap_size h + 12)"
    "os \<noteq> []" "hd os = 0" "last os = heap_size h + 12"
    "\<And>a. a \<in> set os \<Longrightarrow> 4 dvd a" "\<And>a. a \<in> set os \<Longrightarrow> magicf h a = HEAP_MAGIC" "gaps os"
    "\<And>a b. (a, b) \<in> adj os \<Longrightarrow> nextf h a = of_nat b"
    "\<And>a b. (a, b) \<in> adj os \<Longrightarrow> b \<noteq> heap_size h + 12 \<Longrightarrow> prevf h b = of_nat a"
    "prevf h 0 = 0" "usedf h (heap_size h + 12) \<noteq> 0"
    "\<And>a b. (a, b) \<in> adj os \<Longrightarrow> a + 24 \<le> b"
  using assms unfolding chain_ok_def gaps_def by auto

lemma chain_bound:
  assumes "chain_ok os h" "a \<in> set os"
  shows "a \<le> heap_size h + 12" "a + 12 < 2 ^ 32" "unat (heap_ptr h + of_nat a) = unat (heap_ptr h) + a"
    "a \<noteq> heap_size h + 12 \<Longrightarrow> a + 24 \<le> heap_size h + 12"
proof -
  note o = chain_okD [OF assms(1)]
  show l: "a \<noteq> heap_size h + 12 \<Longrightarrow> a + 24 \<le> heap_size h + 12"
    using gaps_last [OF o(10) assms(2)] o(7) by simp
  then show 1: "a \<le> heap_size h + 12" by fastforce
  then show "a + 12 < 2 ^ 32" using o(1) by simp
  have "unat (of_nat a :: u32) = a" using 1 o(1) by (intro unat_of_nat_id) simp
  then show "unat (heap_ptr h + of_nat a) = unat (heap_ptr h) + a"
    using 1 o(1) by (simp add: unat_word_ariths)
qed

lemma chain_placed: "chain_ok os h \<Longrightarrow> placed (set os)"
  using chain_bound(2) by (intro gaps_placed chain_okD(10)) (auto intro: less_imp_le)

lemma chain_mem:
  assumes "chain_ok os h"
  shows "0 \<in> set os" "heap_size h + 12 \<in> set os"
  using chain_okD(5-7) [OF assms] by (metis hd_in_set last_in_set)+

text \<open>Pointers to headers compare like their offsets.\<close>

lemma header_less:
  assumes "chain_ok os h" "a \<in> set os" "b \<in> set os"
  shows "heap_ptr h + of_nat a < heap_ptr h + of_nat b \<longleftrightarrow> a < b"
    "heap_ptr h + (of_nat a :: u32) = heap_ptr h + of_nat b \<longleftrightarrow> a = b"
proof -
  note u = chain_bound(3) [OF assms(1,2)] chain_bound(3) [OF assms(1,3)]
  show "heap_ptr h + of_nat a < heap_ptr h + of_nat b \<longleftrightarrow> a < b" using u by (simp add: word_less_nat_alt)
  show "heap_ptr h + (of_nat a :: u32) = heap_ptr h + of_nat b \<longleftrightarrow> a = b" using u by (metis add_left_cancel)
qed

section \<open>Allocation\<close>

lemma block_room:
  assumes ok: "chain_ok os h" and ab: "(a, b) \<in> adj os"
  shows "mem_next h (heap_ptr h + of_nat a) - (of_nat a + SIZEOF_STRUCT_MEM) = of_nat (b - a - 12)"
    "unat (of_nat (b - a - 12) :: u32) = b - a - 12"
proof -
  note o = chain_okD [OF ok]
  have n: "mem_next h (heap_ptr h + of_nat a) = of_nat b" using o(11) [OF ab] by (simp add: nextf_def)
  have g: "a + 24 \<le> b" by (rule o(15) [OF ab])
  then show "mem_next h (heap_ptr h + of_nat a) - (of_nat a + SIZEOF_STRUCT_MEM) = of_nat (b - a - 12)"
    unfolding n by (simp add: of_nat_diff)
  have "b + 12 < 2 ^ 32" using chain_bound(2) [OF ok] adj_mem [OF ab] by blast
  then show "unat (of_nat (b - a - 12) :: u32) = b - a - 12" by (intro unat_of_nat_id) simp
qed

definition fits :: "heap \<Rightarrow> u32 \<Rightarrow> nat \<times> nat \<Rightarrow> bool" where
  "fits h sz = (\<lambda>(a, b). usedf h a = 0 \<and> a + 12 + unat sz \<le> b \<and> a < heap_size h - unat sz)"

lemma malloc_search_chain:
  assumes ok: "chain_ok os h" and sz: "unat sz \<le> heap_size h" and os: "os = xs @ a # ys"
  shows "\<exists>r. malloc_search sz (of_nat a) h = Some r \<and>
    (case r of Some p \<Rightarrow> \<exists>c d. p = of_nat c \<and> (c, d) \<in> adj (a # ys) \<and> fits h sz (c, d)
     | None \<Rightarrow> \<forall>cd \<in> adj (a # ys). \<not> fits h sz cd)"
  using os
proof (induction ys arbitrary: xs a)
  case Nil
  then have "a = heap_size h + 12" using chain_okD(7) [OF ok] by simp
  moreover have "unat (of_nat (heap_size h + 12) :: u32) = heap_size h + 12"
    using chain_okD(1) [OF ok] by (intro unat_of_nat_id) simp
  moreover have "unat (mem_size_aligned h - sz) = heap_size h - unat sz"
    using sz by (simp add: unat_sub word_le_nat_alt)
  ultimately have "\<not> of_nat a < mem_size_aligned h - sz" by (simp add: word_less_nat_alt)
  then show ?case by (subst malloc_search.simps) simp
next
  case (Cons b ys)
  have ab: "(a, b) \<in> adj os" using adj_append [of xs a "b # ys"] Cons.prems by simp
  have "a + 12 < 2 ^ 32" using chain_bound(2) [OF ok] adj_mem [OF ab] by blast
  then have ua: "unat (of_nat a :: u32) = a" by (intro unat_of_nat_id) simp
  have "unat (mem_size_aligned h - sz) = heap_size h - unat sz"
    using sz by (simp add: unat_sub word_le_nat_alt)
  then have lt: "of_nat a < mem_size_aligned h - sz \<longleftrightarrow> a < heap_size h - unat sz"
    by (simp add: word_less_nat_alt ua)
  note room = block_room [OF ok ab]
  have big: "mem_next h (heap_ptr h + of_nat a) - (of_nat a + SIZEOF_STRUCT_MEM) \<ge> sz \<longleftrightarrow>
      a + 12 + unat sz \<le> b"
    using chain_okD(15) [OF ok ab] unfolding room(1) word_le_nat_alt room(2) by auto
  show ?case
  proof (cases "of_nat a < mem_size_aligned h - sz")
    case False
    have "c \<ge> a" if "(c, d) \<in> adj (a # b # ys)" for c d
      using gaps_sorted [OF chain_okD(10) [OF ok]] adj_mem [OF that]
      unfolding Cons.prems sorted_wrt_append by auto
    then have "\<not> fits h sz cd" if "cd \<in> adj (a # b # ys)" for cd
      using that False lt by (cases cd) (fastforce simp: fits_def)
    then show ?thesis using False by (subst malloc_search.simps) (auto simp: Bex_def)
  next
    case True
    show ?thesis
    proof (cases "fits h sz (a, b)")
      case fit: True
      then show ?thesis using True big lt
        by (subst malloc_search.simps) (auto simp: fits_def usedf_def Let_def)
    next
      case False
      then have "malloc_search sz (of_nat a) h = malloc_search sz (of_nat b) h"
        using True big lt chain_okD(11) [OF ok ab]
        by (subst malloc_search.simps) (auto simp: fits_def usedf_def nextf_def Let_def)
      moreover obtain r where "malloc_search sz (of_nat b) h = Some r"
        "case r of Some p \<Rightarrow> \<exists>c d. p = of_nat c \<and> (c, d) \<in> adj (b # ys) \<and> fits h sz (c, d)
         | None \<Rightarrow> \<forall>cd \<in> adj (b # ys). \<not> fits h sz cd"
        using Cons.IH [of "xs @ [a]" b] Cons.prems by auto
      ultimately show ?thesis using False by (intro exI [of _ r]) (auto split: option.splits)
    qed
  qed
qed

section \<open>Splitting and joining blocks\<close>

lemma adj_insert:
  "adj (xs @ a # x # b # ys) = adj (xs @ [a]) \<union> {(a, x), (x, b)} \<union> adj (b # ys)"
  "adj (xs @ a # b # ys) = adj (xs @ [a]) \<union> {(a, b)} \<union> adj (b # ys)"
  using adj_append [of xs a "x # b # ys"] adj_append [of xs a "b # ys"] by auto

lemma adj_less:
  assumes "gaps os" "(c, d) \<in> adj os"
  shows "c < d"
  using assms unfolding gaps_def by fastforce

lemma gaps_sides:
  assumes "gaps (xs @ a # b # ys)"
  shows "(c, d) \<in> adj (xs @ [a]) \<Longrightarrow> c < a \<and> d \<le> a" "(c, d) \<in> adj (b # ys) \<Longrightarrow> b \<le> c \<and> b < d"
    "a < b" "c \<in> set (xs @ [a]) \<Longrightarrow> c \<le> a" "c \<in> set (b # ys) \<Longrightarrow> b \<le> c"
proof -
  have s: "sorted_wrt (\<lambda>a b. a + 24 \<le> b) (xs @ a # b # ys)" by (rule gaps_sorted [OF assms])
  have "gaps (xs @ [a])" "gaps (b # ys)" using assms by (auto simp: gaps_def adj_insert)
  then have lt: "(c, d) \<in> adj (xs @ [a]) \<Longrightarrow> c < d" "(c, d) \<in> adj (b # ys) \<Longrightarrow> c < d" for c d
    using adj_less by blast+
  show l: "c \<in> set (xs @ [a]) \<Longrightarrow> c \<le> a" for c using s by (auto simp: sorted_wrt_append)
  show r: "c \<in> set (b # ys) \<Longrightarrow> b \<le> c" for c using s by (auto simp: sorted_wrt_append)
  show "(c, d) \<in> adj (xs @ [a]) \<Longrightarrow> c < a \<and> d \<le> a"
    using lt(1) [of c d] adj_mem [of c d "xs @ [a]"] l by fastforce
  show "(c, d) \<in> adj (b # ys) \<Longrightarrow> b \<le> c \<and> b < d"
    using lt(2) [of c d] adj_mem [of c d "b # ys"] r by fastforce
  show "a < b" using s by (auto simp: sorted_wrt_append)
qed

text \<open>The parts of the state that no operation after the initialisation changes.\<close>

definition same_heap :: "heap \<Rightarrow> heap \<Rightarrow> bool" where
  "same_heap h h' \<longleftrightarrow> heap_ptr h' = heap_ptr h \<and> heap_end h' = heap_end h \<and>
     mem_size_aligned h' = mem_size_aligned h"

lemma chain_insert:
  assumes ok: "chain_ok (xs @ a # b # ys) h" and x: "a + 24 \<le> x" "x + 24 \<le> b" "4 dvd x"
    and s: "same_heap h h'"
    and f: "\<And>c. c \<in> set (xs @ a # x # b # ys) \<Longrightarrow>
      nextf h' c = (if c = a then of_nat x else if c = x then of_nat b else nextf h c) \<and>
      prevf h' c = (if c = x then of_nat a else if c = b \<and> b \<noteq> heap_size h + 12 then of_nat x
        else prevf h c) \<and>
      magicf h' c = (if c = x then HEAP_MAGIC else magicf h c)"
    and e: "usedf h' (heap_size h + 12) \<noteq> 0"
  shows "chain_ok (xs @ a # x # b # ys) h'"
proof -
  let ?os = "xs @ a # b # ys" and ?os' = "xs @ a # x # b # ys"
  note o = chain_okD [OF ok]
  note sd = gaps_sides [OF o(10)]
  have g: "gaps ?os'" using o(10) x by (auto simp: gaps_def adj_insert)
  have n: "nextf h' c = of_nat d \<and> (d \<noteq> heap_size h + 12 \<longrightarrow> prevf h' d = of_nat c)"
    if cd: "(c, d) \<in> adj ?os'" for c d
  proof -
    note fc = f [of c] f [of d]
    from cd consider "(c, d) \<in> adj (xs @ [a])" | "(c, d) = (a, x)" | "(c, d) = (x, b)"
      | "(c, d) \<in> adj (b # ys)" unfolding adj_insert(1) by blast
    then show ?thesis
    proof cases
      case 1
      then have "(c, d) \<in> adj ?os" "c \<in> set ?os'" "d \<in> set ?os'" "c < a" "d \<le> a"
        using sd(1) adj_mem [OF 1] by (auto simp: adj_insert)
      then show ?thesis using fc o(11,12) [of c d] x sd(3) by simp
    next
      case 2
      then show ?thesis using fc x by simp
    next
      case 3
      then show ?thesis using fc x by simp
    next
      case 4
      then have "(c, d) \<in> adj ?os" "c \<in> set ?os'" "d \<in> set ?os'" "b \<le> c" "b < d"
        using sd(2) adj_mem [OF 4] by (auto simp: adj_insert)
      then show ?thesis using fc o(11,12) [of c d] x sd(3) by simp
    qed
  qed
  have z: "0 \<in> set ?os" using chain_mem(1) [OF ok] .
  then have "a = 0 \<or> 0 \<noteq> b" using sd(3) by auto
  then have "prevf h' 0 = 0" using f [of 0] z x o(13) sd(3) by auto
  moreover have "\<forall>c \<in> set ?os'. 4 dvd c \<and> magicf h' c = HEAP_MAGIC" using f o(8,9) x(3) by auto
  moreover have "hd ?os' = 0" "last ?os' = heap_size h + 12" using o(6,7) by (cases xs; simp)+
  ultimately show ?thesis
    using o(1-4) s g n e unfolding chain_ok_def same_heap_def by auto
qed

lemma chain_remove:
  assumes ok: "chain_ok (xs @ a # x # b # ys) h" and s: "same_heap h h'"
    and f: "\<And>c. c \<in> set (xs @ a # b # ys) \<Longrightarrow>
      nextf h' c = (if c = a then of_nat b else nextf h c) \<and>
      prevf h' c = (if c = b then of_nat a else prevf h c) \<and> magicf h' c = magicf h c"
    and e: "usedf h' (heap_size h + 12) \<noteq> 0"
  shows "chain_ok (xs @ a # b # ys) h'"
proof -
  let ?os = "xs @ a # x # b # ys" and ?os' = "xs @ a # b # ys"
  note o = chain_okD [OF ok]
  have ax: "a + 24 \<le> x" "x + 24 \<le> b" using o(15) by (auto simp: adj_insert)
  have g: "gaps ?os'" using o(10) ax by (auto simp: gaps_def adj_insert)
  note sd = gaps_sides [OF g]
  have n: "nextf h' c = of_nat d \<and> (d \<noteq> heap_size h + 12 \<longrightarrow> prevf h' d = of_nat c)"
    if cd: "(c, d) \<in> adj ?os'" for c d
  proof -
    note fc = f [of c] f [of d]
    from cd consider "(c, d) \<in> adj (xs @ [a])" | "(c, d) = (a, b)" | "(c, d) \<in> adj (b # ys)"
      unfolding adj_insert by blast
    then show ?thesis
    proof cases
      case 1
      then have "(c, d) \<in> adj ?os" "c \<in> set ?os'" "d \<in> set ?os'" "c < a" "d \<le> a"
        using sd(1) adj_mem [OF 1] by (auto simp: adj_insert)
      then show ?thesis using fc o(11,12) [of c d] sd(3) by simp
    next
      case 2
      then show ?thesis using fc sd(3) by simp
    next
      case 3
      then have "(c, d) \<in> adj ?os" "c \<in> set ?os'" "d \<in> set ?os'" "b \<le> c" "b < d"
        using sd(2) adj_mem [OF 3] by (auto simp: adj_insert)
      then show ?thesis using fc o(11,12) [of c d] sd(3) by simp
    qed
  qed
  have z: "0 \<in> set ?os" using chain_mem(1) [OF ok] .
  have "hd ?os = hd ?os'" by (cases xs) simp_all
  then have h0: "hd ?os' = 0" using o(6) by simp
  then have "0 \<in> set ?os'" by (metis hd_in_set append_is_Nil_conv list.distinct(1))
  then have "prevf h' 0 = 0" using f [of 0] o(13) sd(3) by auto
  moreover have "\<forall>c \<in> set ?os'. 4 dvd c \<and> magicf h' c = HEAP_MAGIC" using f o(8,9) by auto
  moreover have "last ?os' = heap_size h + 12" using o(7) by simp
  ultimately show ?thesis
    using o(1-4) s g n e h0 unfolding chain_ok_def same_heap_def by auto
qed

text \<open>A change of flags and counters only.\<close>

lemma chain_cong:
  assumes ok: "chain_ok os h" and s: "same_heap h h'"
    and f: "\<And>c. c \<in> set os \<Longrightarrow> nextf h' c = nextf h c \<and> prevf h' c = prevf h c \<and> magicf h' c = magicf h c"
    and e: "usedf h' (heap_size h + 12) \<noteq> 0"
  shows "chain_ok os h'"
proof -
  note o = chain_okD [OF ok]
  have "nextf h' a = of_nat b \<and> (b \<noteq> heap_size h + 12 \<longrightarrow> prevf h' b = of_nat a)"
    if "(a, b) \<in> adj os" for a b
    using f [of a] f [of b] adj_mem [OF that] o(11,12) [OF that] by auto
  moreover have "prevf h' 0 = 0" using f [OF chain_mem(1) [OF ok]] o(13) by simp
  moreover have "\<forall>c \<in> set os. 4 dvd c \<and> magicf h' c = HEAP_MAGIC" using f o(8,9) by auto
  ultimately show ?thesis
    using o(1-7,10) s e unfolding chain_ok_def same_heap_def by auto
qed

text \<open>Carving a new free block out of a block: shared by allocation and reallocation.\<close>

definition carve :: "nat \<Rightarrow> nat \<Rightarrow> heap \<Rightarrow> heap" where
  "carve a x h = (let P = heap_ptr h;
     h = set_magic (P + of_nat x) HEAP_MAGIC h;
     h = set_used (P + of_nat x) 0 h;
     h = set_mem_next (P + of_nat x) (mem_next h (P + of_nat a)) h;
     h = set_mem_prev (P + of_nat x) (of_nat a) h
   in set_mem_next (P + of_nat a) (of_nat x) h)"

definition fix_back :: "nat \<Rightarrow> heap \<Rightarrow> heap" where
  "fix_back x h = (if mem_next h (heap_ptr h + of_nat x) \<noteq> mem_size_aligned h + SIZEOF_STRUCT_MEM
     then set_mem_prev (heap_ptr h + mem_next h (heap_ptr h + of_nat x)) (of_nat x) h else h)"

lemma nextf_mem: "mem_next h (heap_ptr h + of_nat c) = nextf h c"
  by (simp add: nextf_def)

lemma heap_frame [simp, frame]:
  "heap_ptr (carve a x h) = heap_ptr h" "heap_end (carve a x h) = heap_end h"
  "mem_size_aligned (carve a x h) = mem_size_aligned h" "lfree (carve a x h) = lfree h"
  "used_mem (carve a x h) = used_mem h" "max_mem (carve a x h) = max_mem h"
  "heap_ptr (fix_back x h) = heap_ptr h" "heap_end (fix_back x h) = heap_end h"
  "mem_size_aligned (fix_back x h) = mem_size_aligned h" "lfree (fix_back x h) = lfree h"
  "used_mem (fix_back x h) = used_mem h" "max_mem (fix_back x h) = max_mem h"
  by (simp_all add: carve_def fix_back_def Let_def)

lemma carve_fields:
  assumes p: "placed A" and A: "a \<in> A" "x \<in> A" "c \<in> A" "a \<noteq> x"
  shows "nextf (carve a x h) c = (if c = a then of_nat x else if c = x then nextf h a else nextf h c)"
    "prevf (carve a x h) c = (if c = x then of_nat a else prevf h c)"
    "usedf (carve a x h) c = (if c = x then 0 else usedf h c)"
    "magicf (carve a x h) c = (if c = x then HEAP_MAGIC else magicf h c)"
    "outside A i \<Longrightarrow> byte (carve a x h) i = byte h i"
proof -
  define h1 where "h1 = set_magic (heap_ptr h + of_nat x) HEAP_MAGIC h"
  define h2 where "h2 = set_used (heap_ptr h + of_nat x) 0 h1"
  define h3 where "h3 = set_mem_next (heap_ptr h + of_nat x) (mem_next h2 (heap_ptr h + of_nat a)) h2"
  define h4 where "h4 = set_mem_prev (heap_ptr h + of_nat x) (of_nat a) h3"
  have P: "heap_ptr h1 = heap_ptr h" "heap_ptr h2 = heap_ptr h" "heap_ptr h3 = heap_ptr h"
    "heap_ptr h4 = heap_ptr h" by (simp_all add: h1_def h2_def h3_def h4_def)
  have d: "carve a x h = set_mem_next (heap_ptr h4 + of_nat a) (of_nat x) h4"
    unfolding P by (simp only: carve_def Let_def h1_def h2_def h3_def h4_def)
  have d4: "h4 = set_mem_prev (heap_ptr h3 + of_nat x) (of_nat a) h3" unfolding P by (rule h4_def)
  have d3: "h3 = set_mem_next (heap_ptr h2 + of_nat x) (nextf h2 a) h2" unfolding nextf_def P by (rule h3_def)
  have d2: "h2 = set_used (heap_ptr h1 + of_nat x) 0 h1" unfolding P by (rule h2_def)
  note s = set_fields [OF p A(1) A(3)] set_fields [OF p A(2) A(3)] set_fields [OF p A(2) A(1)]
  have n2: "nextf h2 a = nextf h a" unfolding d2 s unfolding h1_def s ..
  show "nextf (carve a x h) c = (if c = a then of_nat x else if c = x then nextf h a else nextf h c)"
    unfolding d s unfolding d4 s unfolding d3 s n2 unfolding d2 s unfolding h1_def s ..
  show "prevf (carve a x h) c = (if c = x then of_nat a else prevf h c)"
    unfolding d s unfolding d4 s unfolding d3 s unfolding d2 s unfolding h1_def s ..
  show "usedf (carve a x h) c = (if c = x then 0 else usedf h c)"
    unfolding d s unfolding d4 s unfolding d3 s unfolding d2 s unfolding h1_def s ..
  show "magicf (carve a x h) c = (if c = x then HEAP_MAGIC else magicf h c)"
    unfolding d s unfolding d4 s unfolding d3 s unfolding d2 s unfolding h1_def s ..
  show "byte (carve a x h) i = byte h i" if o: "outside A i"
  proof -
    note b = set_fields_byte [OF p A(1) o] set_fields_byte [OF p A(2) o]
    show ?thesis unfolding d b unfolding d4 b unfolding d3 b unfolding d2 b unfolding h1_def b ..
  qed
qed

lemma fix_back_fields:
  assumes p: "placed A" and A: "x \<in> A" "b \<in> A" "c \<in> A" and n: "nextf h x = of_nat b"
    and e: "mem_size_aligned h + SIZEOF_STRUCT_MEM = of_nat b \<longleftrightarrow> b = heap_size h + 12"
  shows "nextf (fix_back x h) c = nextf h c"
    "prevf (fix_back x h) c = (if c = b \<and> b \<noteq> heap_size h + 12 then of_nat x else prevf h c)"
    "usedf (fix_back x h) c = usedf h c" "magicf (fix_back x h) c = magicf h c"
    "outside A i \<Longrightarrow> byte (fix_back x h) i = byte h i"
proof -
  have d: "fix_back x h = (if b = heap_size h + 12 then h
      else set_mem_prev (heap_ptr h + of_nat b) (of_nat x) h)"
    unfolding fix_back_def nextf_mem n using e by auto
  note s = set_fields [OF p A(2) A(3)]
  show "nextf (fix_back x h) c = nextf h c"
    "prevf (fix_back x h) c = (if c = b \<and> b \<noteq> heap_size h + 12 then of_nat x else prevf h c)"
    "usedf (fix_back x h) c = usedf h c" "magicf (fix_back x h) c = magicf h c"
    "outside A i \<Longrightarrow> byte (fix_back x h) i = byte h i"
    using s(5-8) [of h "of_nat x"] set_fields_byte(2) [OF p A(2)] unfolding d by auto
qed

text \<open>A split: the block \<open>(a, b)\<close> becomes \<open>(a, x)\<close> and the free block \<open>(x, b)\<close>.\<close>

lemma end_compare:
  assumes "chain_ok os h" "b \<in> set os"
  shows "mem_size_aligned h + SIZEOF_STRUCT_MEM = of_nat b \<longleftrightarrow> b = heap_size h + 12"
proof -
  have u: "unat (of_nat b :: u32) = b" "unat (of_nat (heap_size h + 12) :: u32) = heap_size h + 12"
    using chain_bound(2) [OF assms] chain_okD(1) [OF assms(1)] by (intro unat_of_nat_id; simp)+
  have "mem_size_aligned h + SIZEOF_STRUCT_MEM = of_nat (heap_size h + 12)" by simp
  then show ?thesis using u by metis
qed

lemma split_ok:
  assumes ok: "chain_ok (xs @ a # b # ys) h" and x: "a + 24 \<le> x" "x + 24 \<le> b" "4 dvd x"
    and h1: "h1 = carve a x h \<and> u = usedf h a \<or>
      h1 = set_used (heap_ptr h + of_nat a) 1 (carve a x h) \<and> u = 1"
  shows "chain_ok (xs @ a # x # b # ys) (fix_back x h1)" "same_heap h (fix_back x h1)"
    "lfree (fix_back x h1) = lfree h"
    "c \<in> set (xs @ a # x # b # ys) \<Longrightarrow> usedf (fix_back x h1) c =
       (if c = x then 0 else if c = a then u else usedf h c)"
    "outside (set (xs @ a # x # b # ys)) i \<Longrightarrow> byte (fix_back x h1) i = byte h i"
proof -
  let ?A = "set (xs @ a # x # b # ys)"
  note o = chain_okD [OF ok]
  have gp: "gaps (xs @ a # x # b # ys)" using o(10) x by (auto simp: gaps_def adj_insert)
  have b12: "c + 12 \<le> 2 ^ 32" if "c \<in> ?A" for c
  proof (cases "c = x")
    case True
    then show ?thesis using chain_bound(2) [OF ok, of b] x by simp
  next
    case False
    then show ?thesis using chain_bound(2) [OF ok, of c] that by auto
  qed
  have p: "placed ?A" by (rule gaps_placed [OF gp b12])
  have A: "a \<in> ?A" "x \<in> ?A" "b \<in> ?A" "a \<noteq> x" using x by auto
  have na: "nextf h a = of_nat b" by (rule o(11)) (simp add: adj_insert)
  note cf = carve_fields [OF p A(1,2) _ A(4)]
  have h1f: "nextf h1 c = nextf (carve a x h) c" "prevf h1 c = prevf (carve a x h) c"
    "magicf h1 c = magicf (carve a x h) c" "usedf h1 c = (if c = x then 0 else if c = a then u else usedf h c)"
    if c: "c \<in> ?A" for c
    using h1 set_used_fields [OF p A(1) c, of "carve a x h" 1] A(4) cf(3) [OF c] by auto
  have h1b: "byte h1 i = byte h i" if "outside ?A i" for i
    using h1 set_fields_byte(3) [OF p A(1) that, of "carve a x h" 1] cf(5) [OF A(1) that] by auto
  have h1s: "heap_ptr h1 = heap_ptr h" "heap_end h1 = heap_end h" "mem_size_aligned h1 = mem_size_aligned h"
    "lfree h1 = lfree h" using h1 by auto
  have nx: "nextf h1 x = of_nat b" using h1f(1) [OF A(2)] cf(1) [OF A(2), of h] na A(4) by simp
  have e: "mem_size_aligned h1 + SIZEOF_STRUCT_MEM = of_nat b \<longleftrightarrow> b = heap_size h1 + 12"
    using end_compare [OF ok, of b] h1s by simp
  note ff = fix_back_fields [OF p A(2,3) _ nx e]
  show us: "usedf (fix_back x h1) c = (if c = x then 0 else if c = a then u else usedf h c)"
    if "c \<in> ?A" for c
    unfolding ff(3) [OF that] h1f(4) [OF that] ..
  show sm: "same_heap h (fix_back x h1)" by (simp add: same_heap_def h1s)
  show "lfree (fix_back x h1) = lfree h" by (simp add: h1s)
  show "byte (fix_back x h1) i = byte h i" if "outside ?A i" for i
    unfolding ff(5) [OF A(1) that] by (rule h1b [OF that])
  have f: "nextf (fix_back x h1) c = (if c = a then of_nat x else if c = x then of_nat b else nextf h c) \<and>
      prevf (fix_back x h1) c = (if c = x then of_nat a else if c = b \<and> b \<noteq> heap_size h + 12 then of_nat x
        else prevf h c) \<and>
      magicf (fix_back x h1) c = (if c = x then HEAP_MAGIC else magicf h c)" if c: "c \<in> ?A" for c
    unfolding ff(1,2,4) [OF c] h1f(1-3) [OF c] cf(1,2,4) [OF c] na h1s using x by auto
  have E: "heap_size h + 12 \<in> ?A" using chain_mem(2) [OF ok] by auto
  have "x \<noteq> heap_size h + 12" "a \<noteq> heap_size h + 12"
    using chain_bound(1) [OF ok, of b] x by simp_all
  then have "usedf (fix_back x h1) (heap_size h + 12) \<noteq> 0" using us [OF E] o(14) by simp
  then show "chain_ok (xs @ a # x # b # ys) (fix_back x h1)" by (intro chain_insert [OF ok x sm f])
qed

text \<open>What marking a free block as used does.\<close>

lemma count_used_fields [simp]:
  "heap_ptr (count_used n h) = heap_ptr h" "heap_end (count_used n h) = heap_end h"
  "mem_size_aligned (count_used n h) = mem_size_aligned h" "lfree (count_used n h) = lfree h"
  "ram (count_used n h) = ram h"
  by (simp_all add: count_used_def Let_def)

lemma count_used_views [simp]:
  "nextf (count_used n h) = nextf h" "prevf (count_used n h) = prevf h"
  "usedf (count_used n h) = usedf h" "magicf (count_used n h) = magicf h" "byte (count_used n h) = byte h"
  by (simp_all add: fun_eq_iff nextf_def prevf_def usedf_def magicf_def byte_def)

lemma count_used_chain [simp]: "chain_ok os (count_used n h) = chain_ok os h"
  by (simp add: chain_ok_def)

lemma mark_last_ok:
  assumes ok: "chain_ok os h" and a: "a \<in> set os"
  shows "chain_ok os (set_magic (heap_ptr h + of_nat a) HEAP_MAGIC h)"
    "c \<in> set os \<Longrightarrow> usedf (set_magic (heap_ptr h + of_nat a) HEAP_MAGIC h) c = usedf h c"
    "outside (set os) i \<Longrightarrow> byte (set_magic (heap_ptr h + of_nat a) HEAP_MAGIC h) i = byte h i"
proof -
  note p = chain_placed [OF ok]
  note f = set_magic_fields [OF p a]
  show "c \<in> set os \<Longrightarrow> usedf (set_magic (heap_ptr h + of_nat a) HEAP_MAGIC h) c = usedf h c" by (rule f)
  show "outside (set os) i \<Longrightarrow> byte (set_magic (heap_ptr h + of_nat a) HEAP_MAGIC h) i = byte h i"
    by (rule set_fields_byte [OF p a])
  show "chain_ok os (set_magic (heap_ptr h + of_nat a) HEAP_MAGIC h)"
    using f chain_okD(9,14) [OF ok] a chain_mem(2) [OF ok]
    by (intro chain_cong [OF ok]) (auto simp: same_heap_def)
qed

lemma malloc_mark_ok:
  assumes ok: "chain_ok (xs @ a # b # ys) h" and sz: "12 \<le> unat sz" "4 dvd unat sz" "a + 12 + unat sz \<le> b"
  defines "x \<equiv> a + 12 + unat sz" and "h' \<equiv> malloc_mark sz (of_nat a) h"
  defines "os' \<equiv> (if x + 24 \<le> b then xs @ a # x # b # ys else xs @ a # b # ys)"
  shows "chain_ok os' h'" "same_heap h h'" "lfree h' = lfree h"
    "c \<in> set os' \<Longrightarrow> usedf h' c = (if c = a then 1 else if x + 24 \<le> b \<and> c = x then 0 else usedf h c)"
    "outside (set os') i \<Longrightarrow> byte h' i = byte h i"
proof -
  have ab: "(a, b) \<in> adj (xs @ a # b # ys)" by (simp add: adj_insert)
  note o = chain_okD [OF ok]
  note room = block_room [OF ok ab]
  let ?P = "heap_ptr h + of_nat a"
  have e: "of_nat a + SIZEOF_STRUCT_MEM + sz = of_nat x" by (simp add: x_def)
  have b: "b \<le> heap_size h + 12" using chain_bound(1) [OF ok, of b] by simp
  then have "unat (sz + SIZEOF_STRUCT_MEM + MIN_SIZE_ALIGNED) = unat sz + 24"
    using sz o(1) by (simp add: unat_word_ariths)
  then have cond: "mem_next h ?P - (of_nat a + SIZEOF_STRUCT_MEM) \<ge> sz + SIZEOF_STRUCT_MEM + MIN_SIZE_ALIGNED
      \<longleftrightarrow> x + 24 \<le> b"
    unfolding room(1) word_le_nat_alt room(2) using sz by (auto simp: x_def)
  have "chain_ok os' h' \<and> same_heap h h' \<and> lfree h' = lfree h \<and>
    (\<forall>c \<in> set os'. usedf h' c = (if c = a then 1 else if x + 24 \<le> b \<and> c = x then 0 else usedf h c)) \<and>
    (\<forall>i. outside (set os') i \<longrightarrow> byte h' i = byte h i)"
  proof (cases "x + 24 \<le> b")
    case True
    let ?h1 = "set_used ?P 1 (carve a x h)"
    have h': "h' = set_magic ?P HEAP_MAGIC (count_used (sz + SIZEOF_STRUCT_MEM) (fix_back x ?h1))"
      unfolding h'_def malloc_mark_def Let_def if_P [OF cond [THEN iffD2, OF True]] e
      by (simp add: carve_def fix_back_def Let_def comp_assoc)
    have os: "os' = xs @ a # x # b # ys" using True by (simp add: os'_def)
    have x: "a + 24 \<le> x" "4 dvd x" using sz o(8) [of a] by (simp_all add: x_def)
    have u: "?h1 = carve a x h \<and> 1 = usedf h a \<or> ?h1 = ?h1 \<and> (1 :: u16) = 1" by simp
    note sp = split_ok [OF ok x(1) True x(2) u]
    let ?h2 = "count_used (sz + SIZEOF_STRUCT_MEM) (fix_back x ?h1)"
    have ok2: "chain_ok os' ?h2" using sp(1) os by simp
    have a: "a \<in> set os'" using os by simp
    have pt: "heap_ptr ?h2 = heap_ptr h" by simp
    note m = mark_last_ok [OF ok2 a, unfolded pt]
    show ?thesis
      using m sp(2-5) x True unfolding h' os by (auto simp: same_heap_def)
  next
    case False
    let ?h1 = "set_used ?P 1 h"
    obtain n where h': "h' = set_magic ?P HEAP_MAGIC (count_used n ?h1)"
      unfolding h'_def malloc_mark_def Let_def using cond False by auto
    have os: "os' = xs @ a # b # ys" using False by (simp add: os'_def)
    have a: "a \<in> set os'" using os by simp
    note p = chain_placed [OF ok]
    note f = set_used_fields [OF p, of a]
    have E: "heap_size h + 12 \<in> set (xs @ a # b # ys)" by (rule chain_mem(2) [OF ok])
    have "chain_ok os' ?h1"
      unfolding os using f E o(14) by (intro chain_cong [OF ok]) (auto simp: same_heap_def)
    then have ok2: "chain_ok os' (count_used n ?h1)" by simp
    have pt: "heap_ptr (count_used n ?h1) = heap_ptr h" by simp
    note m = mark_last_ok [OF ok2 a, unfolded pt]
    show ?thesis
      using m f False set_fields_byte(3) [OF p, of a] unfolding h' os by (auto simp: same_heap_def)
  qed
  then show "chain_ok os' h'" "same_heap h h'" "lfree h' = lfree h"
    "c \<in> set os' \<Longrightarrow> usedf h' c = (if c = a then 1 else if x + 24 \<le> b \<and> c = x then 0 else usedf h c)"
    "outside (set os') i \<Longrightarrow> byte h' i = byte h i"
    by blast+
qed

end
