(* ===== verification/HeapContract.thy ===== *)
theory HeapContract
  imports HeapProof
begin

text \<open>
  What \<^verbatim>\<open>rt_malloc\<close> and \<^verbatim>\<open>rt_free\<close> of \<^verbatim>\<open>src/mem.c\<close> promise: the set of allocated blocks as the
  abstract view of the heap, and the effect of the operations on it.
\<close>

section \<open>The contract of the heap\<close>

text \<open>The allocated blocks: block \<open>(a, b)\<close> offers the bytes from \<open>a + 12\<close> to \<open>b\<close>.\<close>

definition allocated :: "nat list \<Rightarrow> heap \<Rightarrow> (nat \<times> nat) set" where
  "allocated os h = {(a, b) \<in> adj os. usedf h a \<noteq> 0}"

definition keeps_contents :: "(nat \<times> nat) set \<Rightarrow> heap \<Rightarrow> heap \<Rightarrow> bool" where
  "keeps_contents B h h' \<longleftrightarrow> (\<forall>(a, b) \<in> B. \<forall>i. a + 12 \<le> i \<longrightarrow> i < b \<longrightarrow> byte h' i = byte h i)"

text \<open>Blocks of a chain do not overlap, and their contents are outside all headers.\<close>

lemma adj_ordered:
  assumes "gaps os" "(a, b) \<in> adj os" "c \<in> set os"
  shows "c \<le> a \<or> b \<le> c"
proof -
  obtain xs ys where "os = xs @ a # b # ys" using adj_split [OF assms(2)] by blast
  then show ?thesis using gaps_sides(4,5) [of xs a b ys c] assms by auto
qed

lemma adj_functional:
  assumes "gaps os" "(a, b) \<in> adj os"
  shows "(a, c) \<in> adj os \<Longrightarrow> c = b" "(c, b) \<in> adj os \<Longrightarrow> c = a"
proof -
  show "c = b" if "(a, c) \<in> adj os"
    using adj_ordered [OF assms] adj_ordered [OF assms(1) that] adj_mem [OF assms(2)] adj_mem [OF that]
      adj_less [OF assms] adj_less [OF assms(1) that] by (metis le_antisym not_less)
  show "c = a" if "(c, b) \<in> adj os"
    using adj_ordered [OF assms] adj_ordered [OF assms(1) that] adj_mem [OF assms(2)] adj_mem [OF that]
      adj_less [OF assms] adj_less [OF assms(1) that] by (metis le_antisym not_less)
qed

lemma block_outside:
  assumes ok: "chain_ok os h" and ab: "(a, b) \<in> adj os" and i: "a + 12 \<le> i" "i < b"
  shows "outside (set os) i"
proof -
  have "b + 12 < 2 ^ 32" using chain_bound(2) [OF ok] adj_mem [OF ab] by blast
  then show ?thesis
    using adj_ordered [OF chain_okD(10) [OF ok] ab] i unfolding outside_def by fastforce
qed

lemma lfree_from_chain:
  assumes ok: "chain_ok os h" and os: "os = xs @ a # ys"
  shows "\<exists>c \<in> set (a # ys). lfree_from (heap_ptr h + of_nat a) h = Some (heap_ptr h + of_nat c) \<and>
    (usedf h c = 0 \<or> c = heap_size h + 12) \<and> (\<forall>d \<in> set (a # ys). d < c \<longrightarrow> usedf h d \<noteq> 0)"
  using os
proof (induction ys arbitrary: xs a)
  case Nil
  then have "a = heap_size h + 12" using chain_okD(7) [OF ok] by simp
  then show ?case using chain_okD(4) [OF ok] by (subst lfree_from.simps) simp
next
  case (Cons b ys)
  have ab: "(a, b) \<in> adj os" using Cons.prems by (simp add: adj_insert)
  have a: "a \<in> set os" "b \<in> set os" using Cons.prems by simp_all
  have "b \<le> heap_size h + 12" using chain_bound(1) [OF ok a(2)] .
  then have "a \<noteq> heap_size h + 12" using chain_okD(15) [OF ok ab] by simp
  then have ne: "heap_ptr h + of_nat a \<noteq> heap_end h"
    using header_less(2) [OF ok a(1) chain_mem(2) [OF ok]] chain_okD(4) [OF ok] by simp
  note sd = gaps_sides [OF chain_okD(10) [OF ok, unfolded Cons.prems]]
  show ?case
  proof (cases "usedf h a = 0")
    case True
    then have "lfree_from (heap_ptr h + of_nat a) h = Some (heap_ptr h + of_nat a)"
      by (subst lfree_from.simps) (simp add: usedf_def)
    then show ?thesis using True sd(3,5) by fastforce
  next
    case False
    have "lfree_from (heap_ptr h + of_nat a) h = lfree_from (heap_ptr h + of_nat b) h"
      using False ne chain_okD(11) [OF ok ab] by (subst lfree_from.simps) (simp add: usedf_def nextf_def)
    moreover obtain c where "c \<in> set (b # ys)" "lfree_from (heap_ptr h + of_nat b) h = Some (heap_ptr h + of_nat c)"
      "usedf h c = 0 \<or> c = heap_size h + 12" "\<forall>d \<in> set (b # ys). d < c \<longrightarrow> usedf h d \<noteq> 0"
      using Cons.IH [of "xs @ [a]" b] Cons.prems by auto
    ultimately show ?thesis using False by (intro bexI [of _ c]) auto
  qed
qed

text \<open>Alignment tests.\<close>

lemma aligned_header:
  assumes "chain_ok os h" "a \<in> set os"
  shows "(heap_ptr h + of_nat a) AND (RT_ALIGN_SIZE - 1) = 0"
    "(heap_ptr h + of_nat a + SIZEOF_STRUCT_MEM) mod RT_ALIGN_SIZE = 0"
    "unat (heap_ptr h + of_nat a + SIZEOF_STRUCT_MEM) = unat (heap_ptr h) + a + 12"
proof -
  note o = chain_okD [OF assms(1)]
  note u = chain_bound [OF assms]
  have 4: "4 dvd unat (heap_ptr h) + a" using o(2,8) assms(2) by simp
  then have "unat ((heap_ptr h + of_nat a) mod 4) = 0" using u(3) by (simp add: unat_mod)
  then show "(heap_ptr h + of_nat a) AND (RT_ALIGN_SIZE - 1) = 0"
    by (simp add: and3_mod4 unat_eq_0)
  have "unat (heap_ptr h + of_nat a) + 12 < 2 ^ 32" using u(1,3) o(1) by simp
  then show e: "unat (heap_ptr h + of_nat a + SIZEOF_STRUCT_MEM) = unat (heap_ptr h) + a + 12"
    using u(3) by (simp add: unat_word_ariths)
  have "4 dvd unat (heap_ptr h) + a + 12" using 4 by (simp add: dvd_add)
  then have "unat ((heap_ptr h + of_nat a + SIZEOF_STRUCT_MEM) mod 4) = 0"
    using e by (simp add: unat_mod)
  then show "(heap_ptr h + of_nat a + SIZEOF_STRUCT_MEM) mod RT_ALIGN_SIZE = 0" by (simp add: unat_eq_0)
qed

text \<open>The search starts at \<open>lfree\<close>, and no block before it fits.\<close>

lemma search_ok:
  assumes ok: "heap_ok os h" and sz: "unat sz \<le> heap_size h"
  shows "\<exists>r. malloc_search sz (lfree h - heap_ptr h) h = Some r \<and>
    (case r of Some p \<Rightarrow> \<exists>a b. p = of_nat a \<and> (a, b) \<in> adj os \<and> fits h sz (a, b)
     | None \<Rightarrow> \<forall>cd \<in> adj os. \<not> fits h sz cd)"
proof -
  from ok have ch: "chain_ok os h" by (simp add: heap_ok_def)
  from ok obtain l where l: "l \<in> set os" "lfree h = heap_ptr h + of_nat l"
    "\<forall>c \<in> set os. c < l \<longrightarrow> usedf h c \<noteq> 0" by (auto simp: heap_ok_def lfree_ok_def)
  obtain xs ys where os: "os = xs @ l # ys" using l(1) by (meson split_list)
  obtain r where r: "malloc_search sz (of_nat l) h = Some r"
    "case r of Some p \<Rightarrow> \<exists>c d. p = of_nat c \<and> (c, d) \<in> adj (l # ys) \<and> fits h sz (c, d)
     | None \<Rightarrow> \<forall>cd \<in> adj (l # ys). \<not> fits h sz cd"
    using malloc_search_chain [OF ch sz os] by blast
  have sub: "adj (l # ys) \<subseteq> adj os" unfolding os adj_append [of xs l ys] by blast
  have "\<not> fits h sz (c, d)" if cd: "(c, d) \<in> adj (xs @ [l])" for c d
  proof -
    have "(c, d) \<in> adj os" using cd unfolding os adj_append [of xs l ys] by blast
    then have "c < d" "c \<in> set os" using adj_less [OF chain_okD(10) [OF ch]] adj_mem by blast+
    moreover have "d \<le> l"
      using adj_mem [OF cd] gaps_sorted [OF chain_okD(10) [OF ch]] unfolding os sorted_wrt_append by auto
    ultimately show ?thesis using l(3) by (simp add: fits_def)
  qed
  then have "\<forall>cd \<in> adj (l # ys). \<not> fits h sz cd \<Longrightarrow> \<forall>cd \<in> adj os. \<not> fits h sz cd"
    unfolding os adj_append [of xs l ys] by auto
  then show ?thesis using r sub l(2) by (intro exI [of _ r]) (auto split: option.splits)
qed

lemma adj_allocated_disjoint:
  assumes "gaps os" "(a, b) \<in> adj os" "(c, d) \<in> adj os" "(a, b) \<noteq> (c, d)"
  shows "b \<le> c \<or> d \<le> a"
proof -
  have "c \<le> a \<or> b \<le> c" "d \<le> a \<or> b \<le> d" "a \<le> c \<or> d \<le> a"
    using adj_ordered [OF assms(1,2)] adj_ordered [OF assms(1,3)] adj_mem [OF assms(2)] adj_mem [OF assms(3)]
    by blast+
  moreover have "a \<noteq> c" using adj_functional(1) [OF assms(1,2), of d] assms(3,4) by blast
  ultimately show ?thesis by auto
qed

text \<open>The chain after the block \<open>(a, b)\<close> has been marked.\<close>

definition mark_chain :: "nat list \<Rightarrow> nat \<Rightarrow> nat \<Rightarrow> nat \<Rightarrow> nat list" where
  "mark_chain os a b x = (if x + 24 \<le> b then takeWhile (\<lambda>c. c \<le> a) os @ x # dropWhile (\<lambda>c. c \<le> a) os else os)"

lemma mark_chain_split:
  assumes "gaps (xs @ a # b # ys)"
  shows "mark_chain (xs @ a # b # ys) a b x =
    (if x + 24 \<le> b then xs @ a # x # b # ys else xs @ a # b # ys)"
proof -
  have "\<forall>c \<in> set (xs @ [a]). c \<le> a" "\<not> b \<le> a" using gaps_sides(3,4) [OF assms] by auto
  then have "takeWhile (\<lambda>c. c \<le> a) (xs @ a # b # ys) = xs @ [a]"
    "dropWhile (\<lambda>c. c \<le> a) (xs @ a # b # ys) = b # ys"
    by (simp_all add: takeWhile_append dropWhile_append)
  then show ?thesis by (simp add: mark_chain_def)
qed

lemma malloc_mark_heap:
  assumes ok: "heap_ok os h" and ab: "(a, b) \<in> adj os" and f: "usedf h a = 0"
    and sz: "12 \<le> unat sz" "4 dvd unat sz" "a + 12 + unat sz \<le> b"
  defines "x \<equiv> a + 12 + unat sz" and "h' \<equiv> malloc_mark sz (of_nat a) h"
  defines "os' \<equiv> mark_chain os a b x" and "e \<equiv> (if x + 24 \<le> b then x else b)"
  shows "chain_ok os' h'" "no_holes os' h'" "same_heap h h'" "lfree h' = lfree h"
    "(a, e) \<in> adj os'" "allocated os' h' = insert (a, e) (allocated os h)"
    "keeps_contents (allocated os h) h h'" "(a, e) \<notin> allocated os h"
    "\<forall>c \<in> set os'. usedf h' c = (if c = a then 1 else if x + 24 \<le> b \<and> c = x then 0 else usedf h c)"
    "set os' = (if x + 24 \<le> b then insert x (set os) else set os)"
    "\<forall>(c, d) \<in> allocated os h. d \<le> a \<or> e \<le> c"
proof -
  from ok have ch: "chain_ok os h" and nh: "no_holes os h" by (auto simp: heap_ok_def)
  obtain xs ys where os: "os = xs @ a # b # ys" using adj_split [OF ab] by blast
  note g = chain_okD(10) [OF ch, unfolded os]
  have os': "os' = (if x + 24 \<le> b then xs @ a # x # b # ys else xs @ a # b # ys)"
    unfolding os'_def os by (rule mark_chain_split [OF g])
  note m = malloc_mark_ok [OF ch [unfolded os] sz, folded x_def h'_def, folded os']
  show ch': "chain_ok os' h'" and sm: "same_heap h h'" and "lfree h' = lfree h" by (rule m)+
  note sd = gaps_sides [OF g]
  have ax: "a < x" using x_def by simp
  have xb: "x \<le> b" using sz by (simp add: x_def)
  show st: "set os' = (if x + 24 \<le> b then insert x (set os) else set os)" unfolding os' os by auto
  show us: "\<forall>c \<in> set os'. usedf h' c = (if c = a then 1 else if x + 24 \<le> b \<and> c = x then 0 else usedf h c)"
    using m(4) by blast
  have mem: "set (xs @ [a]) \<subseteq> set os'" "set (b # ys) \<subseteq> set os'" unfolding os' by auto
  have ul: "usedf h' c = (if c = a then 1 else usedf h c)" if "c \<in> set (xs @ [a])" for c
    using us mem(1) that sd(4) [OF that] ax by auto
  have ur: "usedf h' c = usedf h c" if "c \<in> set (b # ys)" for c
  proof -
    have "b \<le> c" "c \<in> set os'" using sd(5) [OF that] mem(2) that by auto
    moreover have "c \<noteq> a" "x + 24 \<le> b \<Longrightarrow> c \<noteq> x" using \<open>b \<le> c\<close> sd(3) by linarith+
    ultimately show ?thesis using us by auto
  qed
  have adj': "adj os' = adj (xs @ [a]) \<union> (if x + 24 \<le> b then {(a, x), (x, b)} else {(a, b)}) \<union> adj (b # ys)"
    unfolding os' by (auto simp: adj_insert)
  have adj: "adj os = adj (xs @ [a]) \<union> {(a, b)} \<union> adj (b # ys)" unfolding os by (simp add: adj_insert)
  have ua: "usedf h' a = 1" using ul [of a] by simp
  have ux: "usedf h' x = 0" if "x + 24 \<le> b" using us st that ax by auto
  have ub: "usedf h b \<noteq> 0" using nh ab f by (auto simp: no_holes_def)
  show "(a, e) \<in> adj os'" by (auto simp: adj' e_def)
  have inl: "usedf h' c = usedf h c \<and> c \<noteq> a" if "(c, d) \<in> adj (xs @ [a])" for c d
    using ul adj_mem [OF that] sd(1) [OF that] by auto
  have inr: "usedf h' c = usedf h c \<and> c \<noteq> a" if "(c, d) \<in> adj (b # ys)" for c d
    using ur adj_mem [OF that] sd(2) [OF that] sd(3) by auto
  show "allocated os' h' = insert (a, e) (allocated os h)"
    unfolding allocated_def adj' adj e_def using inl inr f ua ux by (auto split: if_splits)
  show "no_holes os' h'"
    unfolding no_holes_def
  proof (intro ballI, clarify)
    fix c d assume cd: "(c, d) \<in> adj os'" and u0: "usedf h' c = 0" "usedf h' d = 0"
    from cd consider "(c, d) \<in> adj (xs @ [a])" | "c = a" | "(c, d) = (x, b)" "x + 24 \<le> b" | "(c, d) \<in> adj (b # ys)"
      unfolding adj' by (auto split: if_splits)
    then show False
    proof cases
      case 1
      then have "usedf h c \<noteq> 0 \<or> usedf h d \<noteq> 0" using nh by (auto simp: no_holes_def adj)
      then show ?thesis using inl [OF 1] ul [of d] adj_mem [OF 1] u0 by (auto split: if_splits)
    next
      case 2
      then show ?thesis using ua u0 by simp
    next
      case 3
      then show ?thesis using ub ur [of b] u0 by simp
    next
      case 4
      then have "usedf h c \<noteq> 0 \<or> usedf h d \<noteq> 0" using nh by (auto simp: no_holes_def adj)
      then show ?thesis using inr [OF 4] ur [of d] adj_mem [OF 4] u0 by auto
    qed
  qed
  show "keeps_contents (allocated os h) h h'"
    unfolding keeps_contents_def
  proof (intro ballI, clarify)
    fix c d i assume cd: "(c, d) \<in> allocated os h" and i: "c + 12 \<le> i" "i < d"
    then have "(c, d) \<noteq> (a, b)" "(c, d) \<in> adj os" using f by (auto simp: allocated_def)
    then have "(c, d) \<in> adj os'" by (auto simp: adj' adj)
    then have "outside (set os') i" by (rule block_outside [OF ch' _ i])
    then show "byte h' i = byte h i" by (rule m(5))
  qed
  show "(a, e) \<notin> allocated os h" using f by (auto simp: allocated_def)
  show "\<forall>(c, d) \<in> allocated os h. d \<le> a \<or> e \<le> c"
  proof (intro ballI, clarify)
    fix c d assume "(c, d) \<in> allocated os h" "\<not> e \<le> c"
    then have cd: "(c, d) \<in> adj os" "(a, b) \<noteq> (c, d)" "usedf h c \<noteq> 0" using f by (auto simp: allocated_def)
    have "b \<le> c \<or> d \<le> a" using adj_allocated_disjoint [OF chain_okD(10) [OF ch] ab cd(1,2)] .
    then show "d \<le> a" using \<open>\<not> e \<le> c\<close> xb by (auto simp: e_def split: if_splits)
  qed
qed

lemma heap_lfree_views [simp]:
  "nextf (h\<lparr>lfree := p\<rparr>) = nextf h" "prevf (h\<lparr>lfree := p\<rparr>) = prevf h"
  "usedf (h\<lparr>lfree := p\<rparr>) = usedf h" "magicf (h\<lparr>lfree := p\<rparr>) = magicf h" "byte (h\<lparr>lfree := p\<rparr>) = byte h"
  "nextf (h\<lparr>used_mem := n\<rparr>) = nextf h" "prevf (h\<lparr>used_mem := n\<rparr>) = prevf h"
  "usedf (h\<lparr>used_mem := n\<rparr>) = usedf h" "magicf (h\<lparr>used_mem := n\<rparr>) = magicf h"
  "byte (h\<lparr>used_mem := n\<rparr>) = byte h"
  by (simp_all add: fun_eq_iff nextf_def prevf_def usedf_def magicf_def byte_def)

lemma heap_lfree_chain [simp]:
  "chain_ok os (h\<lparr>lfree := p\<rparr>) = chain_ok os h" "no_holes os (h\<lparr>lfree := p\<rparr>) = no_holes os h"
  "allocated os (h\<lparr>lfree := p\<rparr>) = allocated os h"
  "keeps_contents B h0 (h\<lparr>lfree := p\<rparr>) = keeps_contents B h0 h"
  "same_heap h0 (h\<lparr>lfree := p\<rparr>) = same_heap h0 h"
  by (simp_all add: chain_ok_def no_holes_def allocated_def keeps_contents_def same_heap_def)

lemma lfree_ok_first:
  assumes ok: "chain_ok os h" and l: "lfree_ok os h"
  obtains c where "c \<in> set os" "lfree h = heap_ptr h + of_nat c" "usedf h c = 0 \<or> c = heap_size h + 12"
    "\<And>d. d \<in> set os \<Longrightarrow> usedf h d = 0 \<Longrightarrow> c \<le> d"
  using l unfolding lfree_ok_def by (meson not_less)

theorem malloc_locked_ok:
  assumes ok: "heap_ok os h" and sz: "12 \<le> unat sz" "4 dvd unat sz" "unat sz \<le> heap_size h"
  shows "(\<forall>ab \<in> adj os. \<not> fits h sz ab) \<and> malloc_locked sz h = Some (0, h) \<or>
    (\<exists>a e os' h'. malloc_locked sz h = Some (heap_ptr h + of_nat (a + 12), h') \<and> heap_ok os' h' \<and>
      same_heap h h' \<and> a + 12 + unat sz \<le> e \<and> (a, e) \<in> adj os' \<and>
      allocated os' h' = insert (a, e) (allocated os h) \<and> keeps_contents (allocated os h) h h' \<and>
      (\<forall>(c, d) \<in> allocated os h. d \<le> a \<or> e \<le> c) \<and>
      (\<exists>b. (a, b) \<in> adj os \<and> usedf h a = 0 \<and> os' = mark_chain os a b (a + 12 + unat sz)))"
proof -
  have ch: "chain_ok os h" and lo: "lfree_ok os h" using ok by (simp_all add: heap_ok_def)
  obtain r where r: "malloc_search sz (lfree h - heap_ptr h) h = Some r"
    "case r of Some p \<Rightarrow> \<exists>a b. p = of_nat a \<and> (a, b) \<in> adj os \<and> fits h sz (a, b)
     | None \<Rightarrow> \<forall>cd \<in> adj os. \<not> fits h sz cd"
    using search_ok [OF ok sz(3)] by blast
  show ?thesis
  proof (cases r)
    case None
    then show ?thesis using r by (simp add: malloc_locked_def)
  next
    case (Some p)
    then obtain a b where p: "p = of_nat a" and ab: "(a, b) \<in> adj os" and fit: "fits h sz (a, b)"
      using r(2) by auto
    then have f: "usedf h a = 0" "a + 12 + unat sz \<le> b" by (auto simp: fits_def)
    define x where "x = a + 12 + unat sz"
    define h1 where "h1 = malloc_mark sz (of_nat a) h"
    define os' where "os' = mark_chain os a b x"
    define e where "e = (if x + 24 \<le> b then x else b)"
    note m = malloc_mark_heap [OF ok ab f(1) sz(1,2) f(2), folded x_def, folded h1_def os'_def e_def]
    have P: "heap_ptr h1 = heap_ptr h" "heap_end h1 = heap_end h" "heap_size h1 = heap_size h"
      using m(3) by (simp_all add: same_heap_def)
    have e: "a + 12 + unat sz \<le> e" using f(2) by (simp add: e_def x_def)
    have a: "a \<in> set os" "a \<in> set os'" using adj_mem [OF ab] m(10) by auto
    have eb: "e \<in> set os'" using adj_mem [OF m(5)] by blast
    obtain l where l: "l \<in> set os" "lfree h = heap_ptr h + of_nat l"
      "usedf h l = 0 \<or> l = heap_size h + 12" "\<And>d. d \<in> set os \<Longrightarrow> usedf h d = 0 \<Longrightarrow> l \<le> d"
      using lfree_ok_first [OF ch lo] by blast
    have la: "l \<le> a" using l(4) a(1) f(1) by blast
    have xa: "a < x" by (simp add: x_def)
    have before: "usedf h1 c \<noteq> 0" if c: "c \<in> set os'" "c < l" for c
    proof -
      have "c \<noteq> a" "c \<noteq> x" using c(2) la xa by simp_all
      then show ?thesis using m(9,10) c l(4) [of c] by (auto split: if_splits)
    qed
    have fin: "heap_ptr h + of_nat a + SIZEOF_STRUCT_MEM + sz \<le> heap_end h"
    proof -
      note u = aligned_header(3) [OF ch a(1)]
      have "e \<le> heap_size h + 12" using chain_bound(1) [OF m(1) eb] P(3) by simp
      moreover have "unat (heap_end h) = unat (heap_ptr h) + heap_size h + 12"
        using chain_bound(3) [OF ch chain_mem(2) [OF ch]] chain_okD(4) [OF ch] by simp
      ultimately show ?thesis
        using u e chain_okD(1) [OF ch] by (simp add: word_le_nat_alt unat_word_ariths)
    qed
    have hx: "heap_ptr h + of_nat a = lfree h \<longleftrightarrow> a = l" using l header_less(2) [OF ch a(1) l(1)] by simp
    have "\<exists>h2. (if heap_ptr h + of_nat a = lfree h1 then do {
             p \<leftarrow> lfree_from (lfree h1) h1;
             let h = h1\<lparr>lfree := p\<rparr>;
             RT_ASSERT (lfree h = heap_end h \<or> mem_used h (lfree h) = 0);
             Some h
           } else Some h1) = Some h2 \<and> (\<exists>q. h2 = h1\<lparr>lfree := q\<rparr>) \<and> lfree_ok os' h2"
    proof (cases "a = l")
      case True
      obtain ps qs where os: "os' = ps @ a # qs" using a(2) by (meson split_list)
      obtain c where c: "c \<in> set (a # qs)" "lfree_from (heap_ptr h1 + of_nat a) h1 = Some (heap_ptr h1 + of_nat c)"
        "usedf h1 c = 0 \<or> c = heap_size h1 + 12" "\<forall>d \<in> set (a # qs). d < c \<longrightarrow> usedf h1 d \<noteq> 0"
        using lfree_from_chain [OF m(1) os] by blast
      have ps: "usedf h1 d \<noteq> 0" if d: "d \<in> set ps" for d
      proof -
        have "d < a" using gaps_sorted [OF chain_okD(10) [OF m(1)]] d unfolding os sorted_wrt_append by fastforce
        then show ?thesis using before [of d] d True os by simp
      qed
      have "lfree_ok os' (h1\<lparr>lfree := heap_ptr h1 + of_nat c\<rparr>)"
        using c ps unfolding lfree_ok_def os by (intro bexI [of _ c]) auto
      moreover have "heap_ptr h1 + of_nat c = heap_end h1 \<or> mem_used h1 (heap_ptr h1 + of_nat c) = 0"
        using c(3) chain_okD(4) [OF m(1)] by (auto simp: usedf_def)
      ultimately show ?thesis using c(2) True hx P(1) m(4) l(2) by (auto simp: Let_def)
    next
      case False
      then have "l < a" using la by simp
      then have "l \<in> set os'" "usedf h1 l = usedf h l" using m(9,10) l(1) xa by auto
      then have "lfree_ok os' h1" using l before P m(4) unfolding lfree_ok_def by (intro bexI [of _ l]) auto
      then show ?thesis using False hx m(4) by (intro exI [of _ h1]) (auto intro: exI [of _ "lfree h1"])
    qed
    then obtain h2 q where h2: "(if heap_ptr h + of_nat a = lfree h1 then do {
             p \<leftarrow> lfree_from (lfree h1) h1;
             let h = h1\<lparr>lfree := p\<rparr>;
             RT_ASSERT (lfree h = heap_end h \<or> mem_used h (lfree h) = 0);
             Some h
           } else Some h1) = Some h2" "h2 = h1\<lparr>lfree := q\<rparr>" "lfree_ok os' h2" by blast
    have ret: "malloc_locked sz h = Some (heap_ptr h + of_nat (a + 12), h2)"
      unfolding malloc_locked_def r(1) Some p Option.bind.simps option.case Let_def h1_def [symmetric]
        h2(1) [unfolded Let_def]
      using P(2) fin aligned_header(1,2) [OF ch a(1)] by (simp add: h2(2) ac_simps)
    have "heap_ok os' h2" using m(1,2) h2(2,3) by (simp add: heap_ok_def)
    moreover have "\<exists>b. (a, b) \<in> adj os \<and> usedf h a = 0 \<and> os' = mark_chain os a b (a + 12 + unat sz)"
      using ab f(1) by (auto simp: os'_def x_def)
    ultimately show ?thesis using ret m(3,5-7,11) h2(2) e
      by (intro disjI2 exI [of _ a] exI [of _ e] exI [of _ os'] exI [of _ h2]) auto
  qed
qed

section \<open>Freeing\<close>

text \<open>The two steps of \<^verbatim>\<open>plug_holes\<close>, as one operation on the header at \<open>hm\<close> and the one behind it.\<close>

definition join :: "u32 \<Rightarrow> u32 \<Rightarrow> heap \<Rightarrow> heap" where
  "join hm nm h = (let h = (if lfree h = nm then h\<lparr>lfree := hm\<rparr> else h);
     h = set_mem_next hm (mem_next h nm) h
   in set_mem_prev (heap_ptr h + mem_next h nm) (hm - heap_ptr h) h)"

lemma plug_holes_join:
  "plug_holes hm h = do {
     RT_ASSERT (hm \<ge> heap_ptr h);
     RT_ASSERT (hm < heap_end h);
     RT_ASSERT (mem_used h hm = 0);
     let nmem = heap_ptr h + mem_next h hm;
     let h = (if hm \<noteq> nmem \<and> mem_used h nmem = 0 \<and> nmem \<noteq> heap_end h then join hm nmem h else h);
     let pmem = heap_ptr h + mem_prev h hm;
     Some (if pmem \<noteq> hm \<and> mem_used h pmem = 0 then join pmem hm h else h)
   }"
  unfolding plug_holes_def join_def Let_def ..

lemma join_ok:
  assumes ok: "chain_ok (xs @ a # x # b # ys) h" and lo: "lfree_ok (xs @ a # x # b # ys) h"
    and f: "usedf h a = 0" "usedf h x = 0"
  defines "h' \<equiv> join (heap_ptr h + of_nat a) (heap_ptr h + of_nat x) h"
  shows "chain_ok (xs @ a # b # ys) h'" "lfree_ok (xs @ a # b # ys) h'" "same_heap h h'"
    "allocated (xs @ a # b # ys) h' = allocated (xs @ a # x # b # ys) h"
    "keeps_contents (allocated (xs @ a # x # b # ys) h) h h'"
    "c \<in> set (xs @ a # x # b # ys) \<Longrightarrow> usedf h' c = usedf h c"
proof -
  let ?os = "xs @ a # x # b # ys"
  define h1 where "h1 = set_mem_next (heap_ptr h + of_nat a) (of_nat b) h"
  note o = chain_okD [OF ok]
  have in_os: "a \<in> set ?os" "x \<in> set ?os" "b \<in> set ?os" by simp_all
  have ax: "(a, x) \<in> adj ?os" "(x, b) \<in> adj ?os" by (simp_all add: adj_insert)
  have lt: "a < x" "x < b" using o(15) [OF ax(1)] o(15) [OF ax(2)] by simp_all
  obtain l where l: "l \<in> set ?os" "lfree h = heap_ptr h + of_nat l"
    "usedf h l = 0 \<or> l = heap_size h + 12" "\<And>d. d \<in> set ?os \<Longrightarrow> usedf h d = 0 \<Longrightarrow> l \<le> d"
    using lfree_ok_first [OF ok lo] by blast
  have la: "l \<le> a" using l(4) [OF in_os(1) f(1)] .
  then have "l \<noteq> x" using lt by simp
  then have lx: "lfree h \<noteq> heap_ptr h + of_nat x" using l(2) header_less(2) [OF ok l(1) in_os(2)] by simp
  note p = chain_placed [OF ok]
  have nx: "nextf h x = of_nat b" by (rule o(11) [OF ax(2)])
  have P: "heap_ptr h1 = heap_ptr h" by (simp add: h1_def)
  have n1: "nextf h1 x = of_nat b"
    using set_next_fields(1) [OF p in_os(1,2), of h "of_nat b"] lt nx by (simp add: h1_def)
  have h': "h' = set_mem_prev (heap_ptr h1 + of_nat b) (of_nat a) h1"
  proof -
    have "h' = set_mem_prev (heap_ptr h1 + mem_next h1 (heap_ptr h1 + of_nat x)) (of_nat a) h1"
      using lx nx unfolding h'_def join_def Let_def nextf_mem h1_def by (simp add: nextf_def)
    then show ?thesis unfolding nextf_mem n1 .
  qed
  have f1: "nextf h1 c = (if c = a then of_nat b else nextf h c)" "prevf h1 c = prevf h c"
    "usedf h1 c = usedf h c" "magicf h1 c = magicf h c" if "c \<in> set ?os" for c
    unfolding h1_def by (rule set_next_fields [OF p in_os(1) that])+
  have f2: "nextf h' c = nextf h1 c" "prevf h' c = (if c = b then of_nat a else prevf h1 c)"
    "usedf h' c = usedf h1 c" "magicf h' c = magicf h1 c" if "c \<in> set ?os" for c
    unfolding h' by (rule set_prev_fields [OF p in_os(3) that])+
  have by': "byte h' i = byte h i" if "outside (set ?os) i" for i
    using set_fields_byte(2) [OF p in_os(3) that, of h1] set_fields_byte(1) [OF p in_os(1) that, of h]
    by (simp add: h' h1_def)
  show us: "usedf h' c = usedf h c" if "c \<in> set ?os" for c using f1 f2 that by simp
  show sm: "same_heap h h'" by (simp add: same_heap_def h' h1_def)
  have e: "usedf h' (heap_size h + 12) \<noteq> 0" using us [OF chain_mem(2) [OF ok]] o(14) by simp
  show ch: "chain_ok (xs @ a # b # ys) h'"
  proof (rule chain_remove [OF ok sm _ e])
    fix c assume "c \<in> set (xs @ a # b # ys)"
    then have c: "c \<in> set ?os" by auto
    show "nextf h' c = (if c = a then of_nat b else nextf h c) \<and>
      prevf h' c = (if c = b then of_nat a else prevf h c) \<and> magicf h' c = magicf h c"
      unfolding f2 [OF c] f1 [OF c] by simp
  qed
  have lf: "lfree h' = lfree h" by (simp add: h' h1_def)
  have "l \<in> set (xs @ a # b # ys)" using l(1) \<open>l \<noteq> x\<close> by auto
  moreover have "usedf h' c \<noteq> 0" if "c \<in> set (xs @ a # b # ys)" "c < l" for c
    using us [of c] l(4) [of c] that by fastforce
  moreover have "usedf h' l = 0 \<or> l = heap_size h' + 12" using us [OF l(1)] l(3) sm by (simp add: same_heap_def)
  moreover have "lfree h' = heap_ptr h' + of_nat l" using lf l(2) sm by (simp add: same_heap_def)
  ultimately show "lfree_ok (xs @ a # b # ys) h'" unfolding lfree_ok_def by blast
  have sub: "set (xs @ a # b # ys) \<subseteq> set ?os" by auto
  let ?R = "adj (xs @ [a]) \<union> adj (b # ys)"
  have R: "adj (xs @ a # b # ys) = insert (a, b) ?R" "adj ?os = insert (a, x) (insert (x, b) ?R)"
    by (auto simp: adj_insert)
  have ur: "usedf h' (fst cd) = usedf h (fst cd)" if "cd \<in> ?R" for cd
    using us [of "fst cd"] adj_mem [of "fst cd" "snd cd"] that by fastforce
  have "allocated (xs @ a # b # ys) h' = {cd \<in> ?R. usedf h' (fst cd) \<noteq> 0}"
    unfolding allocated_def R using us [OF in_os(1)] f by auto
  also have "\<dots> = {cd \<in> ?R. usedf h (fst cd) \<noteq> 0}"
    by (intro Collect_cong conj_cong refl) (simp add: ur)
  also have "\<dots> = allocated ?os h" unfolding allocated_def R using f by auto
  finally show "allocated (xs @ a # b # ys) h' = allocated ?os h" .
  show "keeps_contents (allocated ?os h) h h'"
    unfolding keeps_contents_def allocated_def using by' block_outside [OF ok] by blast
qed

lemma keeps_contents_trans:
  "keeps_contents B h h1 \<Longrightarrow> keeps_contents B h1 h2 \<Longrightarrow> keeps_contents B h h2"
  unfolding keeps_contents_def by fastforce

lemma keeps_contents_mono: "keeps_contents B h h' \<Longrightarrow> B' \<subseteq> B \<Longrightarrow> keeps_contents B' h h'"
  unfolding keeps_contents_def by blast

lemma same_heap_trans: "same_heap h h1 \<Longrightarrow> same_heap h1 h2 \<Longrightarrow> same_heap h h2"
  by (simp add: same_heap_def)

text \<open>Both joins: \<open>merged os h os' h'\<close> says that \<open>h'\<close> is \<open>h\<close> with fewer free blocks.\<close>

definition merged :: "nat list \<Rightarrow> heap \<Rightarrow> nat list \<Rightarrow> heap \<Rightarrow> bool" where
  "merged os h os' h' \<longleftrightarrow> chain_ok os' h' \<and> lfree_ok os' h' \<and> same_heap h h' \<and>
     allocated os' h' = allocated os h \<and> keeps_contents (allocated os h) h h' \<and>
     (\<forall>c \<in> set os'. c \<in> set os \<and> usedf h' c = usedf h c)"

lemma merged_refl: "chain_ok os h \<Longrightarrow> lfree_ok os h \<Longrightarrow> merged os h os h"
  by (simp add: merged_def same_heap_def keeps_contents_def)

lemma merged_trans: "merged os h os1 h1 \<Longrightarrow> merged os1 h1 os2 h2 \<Longrightarrow> merged os h os2 h2"
  unfolding merged_def by (metis same_heap_trans keeps_contents_trans)

lemma merged_used: "merged os h os' h' \<Longrightarrow> c \<in> set os' \<Longrightarrow> usedf h' c = usedf h c"
  unfolding merged_def by blast

lemma merged_join:
  assumes "chain_ok (xs @ a # x # b # ys) h" "lfree_ok (xs @ a # x # b # ys) h" "usedf h a = 0" "usedf h x = 0"
  shows "merged (xs @ a # x # b # ys) h (xs @ a # b # ys)
    (join (heap_ptr h + of_nat a) (heap_ptr h + of_nat x) h)"
  using join_ok [OF assms] unfolding merged_def by auto

text \<open>The header at \<open>a\<close> after \<^verbatim>\<open>rt_free\<close> has marked it as free.\<close>

definition free_mark :: "u32 \<Rightarrow> heap \<Rightarrow> heap" where
  "free_mark hm h = (let
     h = set_used hm 0 h;
     h = set_magic hm HEAP_MAGIC h;
     h = (if hm < lfree h then h\<lparr>lfree := hm\<rparr> else h)
   in h\<lparr>used_mem := used_mem h - (mem_next h hm - (hm - heap_ptr h))\<rparr>)"

lemma free_locked_mark:
  "free_locked rmem h = do {
     RT_ASSERT (mem_used h (rmem - SIZEOF_STRUCT_MEM) \<noteq> 0);
     RT_ASSERT (mem_magic h (rmem - SIZEOF_STRUCT_MEM) = HEAP_MAGIC);
     plug_holes (rmem - SIZEOF_STRUCT_MEM) (free_mark (rmem - SIZEOF_STRUCT_MEM) h)
   }"
  unfolding free_locked_def free_mark_def Let_def ..

lemma free_mark_ok:
  assumes ok: "heap_ok os h" and ab: "(a, b) \<in> allocated os h"
  defines "h' \<equiv> free_mark (heap_ptr h + of_nat a) h"
  shows "chain_ok os h'" "lfree_ok os h'" "same_heap h h'"
    "c \<in> set os \<Longrightarrow> usedf h' c = (if c = a then 0 else usedf h c)"
    "allocated os h' = allocated os h - {(a, b)}" "keeps_contents (allocated os h) h h'"
proof -
  have ch: "chain_ok os h" and lo: "lfree_ok os h" using ok by (simp_all add: heap_ok_def)
  note o = chain_okD [OF ch]
  have ad: "(a, b) \<in> adj os" "usedf h a \<noteq> 0" using ab by (auto simp: allocated_def)
  have a: "a \<in> set os" using adj_mem [OF ad(1)] by blast
  note p = chain_placed [OF ch]
  define h1 where "h1 = set_used (heap_ptr h + of_nat a) 0 h"
  define h2 where "h2 = set_magic (heap_ptr h1 + of_nat a) HEAP_MAGIC h1"
  obtain l n where h': "h' = h2\<lparr>lfree := l, used_mem := n\<rparr>"
    and l: "l = (if heap_ptr h + of_nat a < lfree h then heap_ptr h + of_nat a else lfree h)"
  proof
    show "h' = h2\<lparr>lfree := (if heap_ptr h + of_nat a < lfree h then heap_ptr h + of_nat a else lfree h),
      used_mem := used_mem h - (mem_next h' (heap_ptr h + of_nat a) - (heap_ptr h + of_nat a - heap_ptr h))\<rparr>"
      by (simp add: h'_def free_mark_def h2_def h1_def Let_def comp_assoc)
  qed rule
  have f2: "nextf h2 c = nextf h c" "prevf h2 c = prevf h c" "usedf h2 c = (if c = a then 0 else usedf h c)"
    "magicf h2 c = (if c = a then HEAP_MAGIC else magicf h c)" if c: "c \<in> set os" for c
    unfolding h2_def set_magic_fields [OF p a c] unfolding h1_def set_used_fields [OF p a c] by simp_all
  show us: "usedf h' c = (if c = a then 0 else usedf h c)" if "c \<in> set os" for c
    using f2(3) [OF that] by (simp add: h')
  show sm: "same_heap h h'" by (simp add: h' h2_def h1_def same_heap_def)
  have an: "heap_size h + 12 \<noteq> a" using o(15) [OF ad(1)] chain_bound(1) [OF ch, of b] adj_mem [OF ad(1)] by auto
  have "usedf h' (heap_size h + 12) \<noteq> 0" using us [OF chain_mem(2) [OF ch]] an o(14) by simp
  then show "chain_ok os h'" by (rule chain_cong [OF ch sm, rotated]) (auto simp: h' f2 o(9) a)
  show "lfree_ok os h'"
  proof -
    obtain c where c: "c \<in> set os" "lfree h = heap_ptr h + of_nat c" "usedf h c = 0 \<or> c = heap_size h + 12"
      "\<And>d. d \<in> set os \<Longrightarrow> usedf h d = 0 \<Longrightarrow> c \<le> d"
      using lfree_ok_first [OF ch lo] by blast
    define m where "m = min a c"
    have "lfree h' = heap_ptr h' + of_nat m"
      using c(2) header_less [OF ch a c(1)] sm by (auto simp: h' l m_def same_heap_def min_def)
    moreover have "m \<in> set os" using a c(1) by (simp add: m_def min_def)
    moreover have "usedf h' m = 0 \<or> m = heap_size h' + 12"
      using us [OF a] us [OF c(1)] c(3) sm by (auto simp: m_def min_def same_heap_def)
    moreover have "usedf h' d \<noteq> 0" if "d \<in> set os" "d < m" for d
      using us [OF that(1)] c(4) [OF that(1)] that(2) by (fastforce simp: m_def)
    ultimately show ?thesis unfolding lfree_ok_def by blast
  qed
  have "(c, d) \<in> adj os \<Longrightarrow> usedf h' c \<noteq> 0 \<longleftrightarrow> usedf h c \<noteq> 0 \<and> (c, d) \<noteq> (a, b)" for c d
    using us [of c] adj_mem [of c d os] adj_functional(1) [OF o(10) ad(1), of d] by auto
  then show "allocated os h' = allocated os h - {(a, b)}" by (auto simp: allocated_def)
  show "keeps_contents (allocated os h) h h'"
  proof -
    have "byte h' i = byte h i" if i: "outside (set os) i" for i
      using set_fields_byte(4) [OF p a i, of h1] set_fields_byte(3) [OF p a i, of h] by (simp add: h' h2_def h1_def)
    then show ?thesis using block_outside [OF ch] by (auto simp: keeps_contents_def allocated_def)
  qed
qed

text \<open>The block before a header, and the one after it.\<close>

lemma prev_header:
  assumes "chain_ok (xs @ a # ys) h" "ys \<noteq> []"
  shows "prevf h a = of_nat (if xs = [] then a else last xs)"
proof (cases xs rule: rev_cases)
  case Nil
  then show ?thesis using chain_okD(6,13) [OF assms(1)] by simp
next
  case (snoc zs p)
  have "(p, a) \<in> adj (xs @ a # ys)" unfolding snoc by (simp add: adj_insert)
  moreover have "a \<noteq> heap_size h + 12"
    using chain_okD(7) [OF assms(1)] gaps_distinct [OF chain_okD(10) [OF assms(1)]] assms(2)
    by (cases ys rule: rev_cases) auto
  ultimately show ?thesis using chain_okD(12) [OF assms(1)] snoc by simp
qed

lemma plug_next:
  assumes ok: "chain_ok (xs @ a # b # ys) h" and lo: "lfree_ok (xs @ a # b # ys) h" and f: "usedf h a = 0"
  defines "P \<equiv> heap_ptr h"
  shows "\<exists>bs h'. bs \<noteq> [] \<and> merged (xs @ a # b # ys) h (xs @ a # bs) h' \<and> adj bs \<subseteq> adj (b # ys) \<and>
    (if P + of_nat a \<noteq> P + nextf h a \<and> mem_used h (P + nextf h a) = 0 \<and> P + nextf h a \<noteq> heap_end h
     then join (P + of_nat a) (P + nextf h a) h else h) = h' \<and>
    (usedf h b \<noteq> 0 \<and> bs = b # ys \<or> usedf h b = 0 \<and> b # bs = b # ys)"
proof -
  let ?os = "xs @ a # b # ys"
  have ab: "(a, b) \<in> adj ?os" by (simp add: adj_insert)
  have n: "nextf h a = of_nat b" by (rule chain_okD(11) [OF ok ab])
  have hab: "P + of_nat a \<noteq> P + of_nat b"
    using header_less(2) [OF ok, of a b] chain_okD(15) [OF ok ab] by (simp add: P_def)
  have ub: "mem_used h (P + of_nat b) = usedf h b" by (simp add: usedf_def P_def)
  show ?thesis
  proof (cases "usedf h b = 0")
    case True
    then have be: "b \<noteq> heap_size h + 12" using chain_okD(14) [OF ok] by metis
    then obtain c zs where ys: "ys = c # zs" using chain_okD(7) [OF ok] by (cases ys) auto
    have "P + of_nat b \<noteq> heap_end h"
      using header_less(2) [OF ok _ chain_mem(2) [OF ok], of b] chain_okD(4) [OF ok] be by (simp add: P_def)
    then show ?thesis
      using merged_join [OF ok [unfolded ys] lo [unfolded ys] f True] True hab ub unfolding n ys P_def
      by (intro exI [of _ "c # zs"] exI) auto
  next
    case False
    then show ?thesis using merged_refl [OF ok lo] ub unfolding n by (intro exI [of _ "b # ys"] exI [of _ h]) auto
  qed
qed

lemma adj_sub:
  "adj bs \<subseteq> adj (xs @ a # bs)" "adj xs \<subseteq> adj (xs @ bs)"
proof -
  show "adj bs \<subseteq> adj (xs @ a # bs)"
    using adj_append [of xs a bs] by (cases bs) auto
  show "adj xs \<subseteq> adj (xs @ bs)"
  proof (cases xs rule: rev_cases)
    case (snoc zs p)
    then show ?thesis using adj_append [of zs p bs] by auto
  qed simp
qed

lemma no_holes_mid:
  assumes f: "\<And>c d. (c, d) \<in> adj xs \<or> (c, d) \<in> adj bs \<Longrightarrow> usedf h c = 0 \<Longrightarrow> usedf h d \<noteq> 0"
    and bs: "bs \<noteq> []" "usedf h (hd bs) \<noteq> 0" and xs: "xs \<noteq> [] \<Longrightarrow> usedf h (last xs) \<noteq> 0"
  shows "no_holes (xs @ a # bs) h"
proof -
  have "usedf h c \<noteq> 0 \<or> usedf h d \<noteq> 0" if cd: "(c, d) \<in> adj (xs @ a # bs)" for c d
  proof -
    obtain b ys where b: "bs = b # ys" using bs(1) by (cases bs) auto
    have "(c, d) \<in> adj xs \<or> xs \<noteq> [] \<and> c = last xs \<or> d = hd bs \<or> (c, d) \<in> adj bs"
    proof (cases xs rule: rev_cases)
      case Nil
      then show ?thesis using cd b by auto
    next
      case (snoc zs p)
      then have "(c, d) \<in> adj (zs @ p # a # b # ys)" using cd b by simp
      then show ?thesis unfolding adj_insert(1) using snoc b by auto
    qed
    then show ?thesis using f bs(2) xs by blast
  qed
  then show ?thesis by (auto simp: no_holes_def)
qed

lemma plug_holes_ok:
  assumes ok: "chain_ok (xs @ a # b # ys) h" and lo: "lfree_ok (xs @ a # b # ys) h" and f: "usedf h a = 0"
    and nh: "\<And>c d. (c, d) \<in> adj (xs @ a # b # ys) \<Longrightarrow> c \<noteq> a \<Longrightarrow> d \<noteq> a \<Longrightarrow> usedf h c = 0 \<Longrightarrow> usedf h d \<noteq> 0"
  shows "\<exists>os' h'. plug_holes (heap_ptr h + of_nat a) h = Some h' \<and> merged (xs @ a # b # ys) h os' h' \<and>
    no_holes os' h'"
proof -
  let ?os = "xs @ a # b # ys" and ?hm = "heap_ptr h + of_nat a"
  obtain bs h1 where s1: "bs \<noteq> []" "merged ?os h (xs @ a # bs) h1"
    "(if ?hm \<noteq> heap_ptr h + nextf h a \<and> mem_used h (heap_ptr h + nextf h a) = 0 \<and>
        heap_ptr h + nextf h a \<noteq> heap_end h
      then join ?hm (heap_ptr h + nextf h a) h else h) = h1"
    "usedf h b \<noteq> 0 \<and> bs = b # ys \<or> usedf h b = 0 \<and> b # bs = b # ys"
    using plug_next [OF ok lo f] by blast
  let ?os1 = "xs @ a # bs"
  have c1: "chain_ok ?os1 h1" "lfree_ok ?os1 h1" "heap_ptr h1 = heap_ptr h"
    using s1(2) by (simp_all add: merged_def same_heap_def)
  note u1 = merged_used [OF s1(2)]
  note sd = gaps_sides [OF chain_okD(10) [OF ok]]
  have dist: "distinct ?os1" by (rule gaps_distinct [OF chain_okD(10) [OF c1(1)]])
  have end_used: "usedf h (last ?os) \<noteq> 0" using chain_okD(7,14) [OF ok] by simp
  have hb: "usedf h (hd bs) \<noteq> 0"
  proof (cases "usedf h b = 0")
    case True
    then have bs: "ys = bs" using s1(4) by simp
    have "(b, hd bs) \<in> adj ?os" using adj_append [of "xs @ [a]" b bs] s1(1) bs by (cases bs) auto
    then show ?thesis using nh [of b "hd bs"] True dist bs s1(1) sd(3) by (cases bs) auto
  qed (use s1(4) in simp)
  have abs: "adj bs \<subseteq> adj ?os" "a \<notin> set bs"
    using s1(4) dist adj_sub(1) [of "b # ys" xs a] adj_sub(1) [of ys "xs @ [a]" b] by auto
  have axs: "adj xs \<subseteq> adj ?os" "a \<notin> set xs" using adj_sub(2) [of xs "a # b # ys"] dist by auto
  have nhs: "usedf h d \<noteq> 0" if "(c, d) \<in> adj xs \<or> (c, d) \<in> adj bs" "usedf h c = 0" for c d
    using that nh [of c d] abs axs adj_mem [of c d xs] adj_mem [of c d bs] by fastforce
  have nhs1: "usedf h1 d \<noteq> 0" if "(c, d) \<in> adj xs \<or> (c, d) \<in> adj bs" "usedf h1 c = 0" for c d
    using that nhs [of c d] u1 [of c] u1 [of d] adj_mem [of c d xs] adj_mem [of c d bs] by fastforce
  have hb1: "usedf h1 (hd bs) \<noteq> 0" using hb u1 [of "hd bs"] s1(1) by simp
  have p: "prevf h1 a = of_nat (if xs = [] then a else last xs)" by (rule prev_header [OF c1(1) s1(1)])
  have a: "a \<in> set ?os" by simp
  have ae: "a < heap_size h + 12"
  proof -
    have "a \<noteq> heap_size h + 12" using f chain_okD(14) [OF ok] by metis
    then show ?thesis using chain_bound(1) [OF ok a] by simp
  qed
  have asserts: "heap_ptr h \<le> ?hm" "?hm < heap_end h" "mem_used h ?hm = 0"
  proof -
    show "heap_ptr h \<le> ?hm" using chain_bound(3) [OF ok a] by (simp add: word_le_nat_alt)
    show "?hm < heap_end h"
      unfolding chain_okD(4) [OF ok] header_less(1) [OF ok a chain_mem(2) [OF ok]] by (rule ae)
    show "mem_used h ?hm = 0" using f by (simp add: usedf_def)
  qed
  let ?pm = "heap_ptr h1 + prevf h1 a"
  have plug: "plug_holes ?hm h = Some (if ?pm \<noteq> ?hm \<and> mem_used h1 ?pm = 0 then join ?pm ?hm h1 else h1)"
    unfolding plug_holes_join nextf_mem Let_def s1(3) using asserts c1(3) by (simp add: prevf_def)
  have "\<exists>os' h'. (if ?pm \<noteq> ?hm \<and> mem_used h1 ?pm = 0 then join ?pm ?hm h1 else h1) = h' \<and>
    merged ?os1 h1 os' h' \<and> no_holes os' h'"
  proof (cases xs rule: rev_cases)
    case Nil
    have "no_holes ?os1 h1" by (intro no_holes_mid [OF nhs1 s1(1) hb1]) (simp_all add: Nil)
    then show ?thesis using merged_refl [OF c1(1,2)] p Nil c1(3) by auto
  next
    case (snoc zs q)
    have q: "q \<in> set ?os1" "q \<noteq> a" using snoc axs(2) by auto
    have pm: "?pm = heap_ptr h + of_nat q" using p snoc c1(3) by simp
    have ne: "?pm \<noteq> ?hm" using pm header_less(2) [OF c1(1) q(1), of a] q(2) c1(3) by simp
    have uq: "mem_used h1 ?pm = usedf h1 q" unfolding pm usedf_def by (simp add: c1(3))
    show ?thesis
    proof (cases "usedf h1 q = 0")
      case True
      obtain c cs where bs: "bs = c # cs" using s1(1) by (cases bs) auto
      have os1: "?os1 = zs @ q # a # c # cs" using snoc bs by simp
      have ua: "usedf h1 a = 0" using u1 [of a] f by simp
      have mg: "merged ?os1 h1 (zs @ q # bs) (join ?pm ?hm h1)"
        using merged_join [of zs q a c cs h1, folded os1] c1 True ua unfolding pm bs by simp
      note u2 = merged_used [OF mg]
      have "no_holes (zs @ q # bs) (join ?pm ?hm h1)"
      proof (rule no_holes_mid [OF _ s1(1)])
        show "usedf (join ?pm ?hm h1) (hd bs) \<noteq> 0" using u2 [of "hd bs"] hb1 bs by simp
        show "usedf (join ?pm ?hm h1) (last zs) \<noteq> 0" if ne: "zs \<noteq> []"
        proof -
          obtain us r where zs: "zs = us @ [r]" using ne by (cases zs rule: rev_cases) auto
          have "(r, q) \<in> adj xs" unfolding snoc zs using adj_append [of us r "[q]"] by simp
          then have "usedf h1 r \<noteq> 0" using nhs1 [of r q] True by blast
          then show ?thesis using u2 [of r] zs by simp
        qed
        fix c d assume cd: "(c, d) \<in> adj zs \<or> (c, d) \<in> adj bs" and u: "usedf (join ?pm ?hm h1) c = 0"
        have m: "c \<in> set (zs @ q # bs)" "d \<in> set (zs @ q # bs)"
          using cd adj_mem [of c d zs] adj_mem [of c d bs] by auto
        have "(c, d) \<in> adj xs \<or> (c, d) \<in> adj bs" using cd adj_sub(2) [of zs "[q]"] snoc by auto
        then show "usedf (join ?pm ?hm h1) d \<noteq> 0" using nhs1 [of c d] u u2 [OF m(1)] u2 [OF m(2)] by simp
      qed
      then show ?thesis using mg ne uq True by auto
    next
      case False
      have "usedf h1 (last xs) \<noteq> 0" using snoc False by simp
      then have "no_holes ?os1 h1" by (intro no_holes_mid [OF nhs1 s1(1) hb1])
      then show ?thesis using merged_refl [OF c1(1,2)] uq False by auto
    qed
  qed
  then show ?thesis unfolding plug using merged_trans [OF s1(2)] by blast
qed

theorem free_locked_ok:
  assumes ok: "heap_ok os h" and ab: "(a, b) \<in> allocated os h"
  shows "\<exists>os' h'. free_locked (heap_ptr h + of_nat (a + 12)) h = Some h' \<and> heap_ok os' h' \<and>
    same_heap h h' \<and> allocated os' h' = allocated os h - {(a, b)} \<and>
    keeps_contents (allocated os h - {(a, b)}) h h'"
proof -
  have ch: "chain_ok os h" using ok by (simp add: heap_ok_def)
  have ad: "(a, b) \<in> adj os" "usedf h a \<noteq> 0" using ab by (auto simp: allocated_def)
  obtain xs ys where os: "os = xs @ a # b # ys" using adj_split [OF ad(1)] by blast
  have hm: "heap_ptr h + of_nat (a + 12) - SIZEOF_STRUCT_MEM = heap_ptr h + of_nat a" by simp
  define h1 where "h1 = free_mark (heap_ptr h + of_nat a) h"
  note m = free_mark_ok [OF ok ab, folded h1_def]
  have P: "heap_ptr h1 = heap_ptr h" using m(3) by (simp add: same_heap_def)
  have a: "a \<in> set os" by (simp add: os)
  have nh: "usedf h1 d \<noteq> 0" if "(c, d) \<in> adj os" "c \<noteq> a" "d \<noteq> a" "usedf h1 c = 0" for c d
    using ok that m(4) [of c] m(4) [of d] adj_mem [of c d os] by (auto simp: heap_ok_def no_holes_def)
  have ua: "usedf h1 a = 0" using m(4) [OF a] by simp
  obtain os' h' where h': "plug_holes (heap_ptr h + of_nat a) h1 = Some h'" "merged os h1 os' h'" "no_holes os' h'"
  proof -
    have "\<exists>os' h'. plug_holes (heap_ptr h1 + of_nat a) h1 = Some h' \<and> merged os h1 os' h' \<and> no_holes os' h'"
      unfolding os by (rule plug_holes_ok [OF m(1,2) [unfolded os] ua]) (rule nh [unfolded os])
    then show ?thesis using that unfolding P by blast
  qed
  have "free_locked (heap_ptr h + of_nat (a + 12)) h = Some h'"
    unfolding free_locked_mark hm using ad(2) h'(1) chain_okD(9) [OF ch a]
    by (simp add: h1_def usedf_def magicf_def)
  moreover have "heap_ok os' h'" using h' by (simp add: heap_ok_def merged_def)
  moreover have "same_heap h h'" using m(3) h'(2) same_heap_trans by (auto simp: merged_def)
  moreover have "allocated os' h' = allocated os h - {(a, b)}" using h'(2) m(5) by (simp add: merged_def)
  moreover have "keeps_contents (allocated os h - {(a, b)}) h h'"
    using keeps_contents_trans [OF keeps_contents_mono [OF m(6)]] h'(2) m(5) by (auto simp: merged_def)
  ultimately show ?thesis by blast
qed

text \<open>The heap that \<^verbatim>\<open>rt_system_heap_init\<close> sets up: one free block.\<close>

definition init_heap :: "u32 \<Rightarrow> heap \<Rightarrow> heap" where
  "init_heap S h = (let
     h = set_magic (heap_ptr h) HEAP_MAGIC h;
     h = set_mem_next (heap_ptr h) (S + SIZEOF_STRUCT_MEM) h;
     h = set_mem_prev (heap_ptr h) 0 h;
     h = set_used (heap_ptr h) 0 h;
     h = h\<lparr>heap_end := heap_ptr h + mem_next h (heap_ptr h)\<rparr>;
     h = set_magic (heap_end h) HEAP_MAGIC h;
     h = set_used (heap_end h) 1 h;
     h = set_mem_next (heap_end h) (S + SIZEOF_STRUCT_MEM) h;
     h = set_mem_prev (heap_end h) (S + SIZEOF_STRUCT_MEM) h
   in h\<lparr>lfree := heap_ptr h\<rparr>)"

lemma init_heap_ok:
  fixes h :: heap
  defines "n \<equiv> heap_size h + 12" and "h' \<equiv> init_heap (mem_size_aligned h) h"
  assumes r: "unat (heap_ptr h) + heap_size h + 24 < 2 ^ 32" "12 \<le> heap_size h"
    "4 dvd unat (heap_ptr h)" "4 dvd heap_size h"
  shows "heap_ok [0, n] h'" "allocated [0, n] h' = {}" "heap_ptr h' = heap_ptr h"
    "mem_size_aligned h' = mem_size_aligned h"
proof -
  have p: "placed (set [0, n])" using r by (auto simp: placed_def n_def)
  have z: "0 \<in> set [0, n]" "n \<in> set [0, n]" by simp_all
  let ?S = "mem_size_aligned h + SIZEOF_STRUCT_MEM"
  have S: "?S = of_nat n" by (simp add: n_def)
  define h1 where "h1 = set_magic (heap_ptr h + of_nat 0) HEAP_MAGIC h"
  define h2 where "h2 = set_mem_next (heap_ptr h1 + of_nat 0) ?S h1"
  define h3 where "h3 = set_mem_prev (heap_ptr h2 + of_nat 0) 0 h2"
  define h4 where "h4 = set_used (heap_ptr h3 + of_nat 0) 0 h3"
  define h5 where "h5 = h4\<lparr>heap_end := heap_ptr h4 + of_nat n\<rparr>"
  define h6 where "h6 = set_magic (heap_ptr h5 + of_nat n) HEAP_MAGIC h5"
  define h7 where "h7 = set_used (heap_ptr h6 + of_nat n) 1 h6"
  define h8 where "h8 = set_mem_next (heap_ptr h7 + of_nat n) ?S h7"
  define h9 where "h9 = set_mem_prev (heap_ptr h8 + of_nat n) ?S h8"
  have P: "heap_ptr h1 = heap_ptr h" "heap_ptr h2 = heap_ptr h" "heap_ptr h3 = heap_ptr h"
    "heap_ptr h4 = heap_ptr h" "heap_ptr h5 = heap_ptr h" "heap_ptr h6 = heap_ptr h" "heap_ptr h7 = heap_ptr h"
    "heap_ptr h8 = heap_ptr h" "heap_ptr h9 = heap_ptr h" "heap_end h9 = heap_ptr h + of_nat n"
    "mem_size_aligned h9 = mem_size_aligned h"
    by (simp_all add: h1_def h2_def h3_def h4_def h5_def h6_def h7_def h8_def h9_def)
  have f1: "nextf h4 c = (if c = 0 then ?S else nextf h c)" "prevf h4 c = (if c = 0 then 0 else prevf h c)"
    "usedf h4 c = (if c = 0 then 0 else usedf h c)" "magicf h4 c = (if c = 0 then HEAP_MAGIC else magicf h c)"
    if c: "c \<in> set [0, n]" for c
    unfolding h4_def set_fields [OF p z(1) c] h3_def set_fields [OF p z(1) c] h2_def
      set_fields [OF p z(1) c] h1_def set_fields [OF p z(1) c] by simp_all
  have f5: "nextf h5 = nextf h4" "prevf h5 = prevf h4" "usedf h5 = usedf h4" "magicf h5 = magicf h4"
    by (simp_all add: h5_def fun_eq_iff nextf_def prevf_def usedf_def magicf_def)
  have f9: "nextf h9 c = ?S" "c = 0 \<Longrightarrow> prevf h9 c = 0" "usedf h9 c = (if c = n then 1 else 0)"
    "magicf h9 c = HEAP_MAGIC" if c: "c \<in> set [0, n]" for c
    unfolding h9_def set_fields [OF p z(2) c] h8_def set_fields [OF p z(2) c] h7_def
      set_fields [OF p z(2) c] h6_def set_fields [OF p z(2) c] f5 f1 [OF c] using c by (auto simp: n_def)
  have e4: "mem_next h4 (heap_ptr h) = of_nat n" using f1(1) [OF z(1)] P S by (simp add: nextf_def)
  have h': "h' = h9\<lparr>lfree := heap_ptr h\<rparr>"
  proof -
    have 1: "set_magic (heap_ptr h) HEAP_MAGIC h = h1" "set_mem_next (heap_ptr h1) ?S h1 = h2"
      "set_mem_prev (heap_ptr h2) 0 h2 = h3" "set_used (heap_ptr h3) 0 h3 = h4"
      "h4\<lparr>heap_end := heap_ptr h4 + mem_next h4 (heap_ptr h4)\<rparr> = h5"
      using e4 P(4) unfolding h1_def h2_def h3_def h4_def h5_def by (simp_all add: comp_assoc)
    have e: "heap_end h5 = heap_ptr h5 + of_nat n" "heap_end h6 = heap_ptr h6 + of_nat n"
      "heap_end h7 = heap_ptr h7 + of_nat n" "heap_end h8 = heap_ptr h8 + of_nat n"
      unfolding h8_def h7_def h6_def h5_def by simp_all
    show ?thesis
      unfolding h'_def init_heap_def Let_def 1 e h6_def [symmetric] h7_def [symmetric] h8_def [symmetric]
        h9_def [symmetric] P(9) ..
  qed
  show "heap_ptr h' = heap_ptr h" "mem_size_aligned h' = mem_size_aligned h" by (simp_all add: h' P)
  have ch: "chain_ok [0, n] h9"
  proof -
    have "4 dvd n" "0 < n" "24 \<le> n" using r(2,4) by (simp_all add: n_def)
    moreover have "nextf h9 0 = of_nat n" using f9(1) [OF z(1)] S by (simp only:)
    ultimately show ?thesis
      unfolding chain_ok_def gaps_def P n_def [symmetric]
      using f9(3,4) [OF z(1)] f9(3,4) [OF z(2)] f9(2) [OF z(1) refl]
      by (intro conjI r(1,3,4)) (simp_all (no_asm_simp))
  qed
  have "lfree_ok [0, n] (h9\<lparr>lfree := heap_ptr h\<rparr>)"
    unfolding lfree_ok_def using f9(3) [OF z(1)] P by (intro bexI [of _ 0]) (auto simp: n_def)
  moreover have "no_holes [0, n] h9" unfolding no_holes_def using f9(3) [OF z(2)] by (auto simp: n_def)
  ultimately show "heap_ok [0, n] h'" using ch by (simp add: h' heap_ok_def)
  show "allocated [0, n] h' = {}" unfolding h' using f9(3) [OF z(1)] by (auto simp: allocated_def n_def intro: gr0I)
qed

end
