(* ===== verification/Heap.thy ===== *)
theory Heap
  imports HeapContract
begin

text \<open>
  The properties of \<^verbatim>\<open>rt_malloc\<close>, \<^verbatim>\<open>rt_free\<close> and \<^verbatim>\<open>rt_system_heap_init\<close>, at the interface of
  \<^verbatim>\<open>src/mem.c\<close>: the rounding of the sizes, the calls with a free \<^verbatim>\<open>heap_sem\<close>, and the runs of a
  program that allocates, frees, and writes inside of its own blocks.
\<close>

section \<open>Rounding\<close>

lemma round_size:
  assumes sz: "sz \<noteq> 0" "sz \<le> 0xfffffffc"
  defines "s \<equiv> malloc_size (RT_ALIGN sz RT_ALIGN_SIZE)"
  shows "12 \<le> unat s" "4 dvd unat s" "unat sz \<le> unat s"
    "unat (RT_ALIGN sz RT_ALIGN_SIZE) \<le> n \<Longrightarrow> 12 \<le> n \<Longrightarrow> unat s \<le> n"
    "RT_ALIGN sz RT_ALIGN_SIZE \<noteq> 0"
proof -
  let ?r = "RT_ALIGN sz RT_ALIGN_SIZE"
  have r: "unat ?r = 4 * ((unat sz + 3) div 4)" by (rule unat_RT_ALIGN [OF sz(2)])
  then have g: "unat sz \<le> unat ?r" "4 dvd unat ?r" by simp_all
  have s: "unat s = max 12 (unat ?r)"
    by (auto simp: s_def malloc_size_def word_less_nat_alt max_def)
  show "12 \<le> unat s" "4 dvd unat s" "unat sz \<le> unat s" using g s by (auto simp: max_def)
  show "unat ?r \<le> n \<Longrightarrow> 12 \<le> n \<Longrightarrow> unat s \<le> n" using s by simp
  have "unat ?r \<noteq> 0" using g(1) sz(1) unat_gt_0 [of sz] by linarith
  then show "?r \<noteq> 0" by auto
qed

lemma heap_ok_size:
  assumes "heap_ok os h"
  shows "12 \<le> heap_size h"
proof -
  have ch: "chain_ok os h" using assms by (simp add: heap_ok_def)
  show ?thesis using chain_bound(4) [OF ch chain_mem(1) [OF ch]] by simp
qed

section \<open>Calls that find \<open>heap_sem\<close> free\<close>

text \<open>The heap of a kernel, with its memory.\<close>

abbreviation heap_in :: "heap \<Rightarrow> kernel \<Rightarrow> heap" where "heap_in h k \<equiv> h\<lparr>ram := mem k\<rparr>"

text \<open>The kernel in which the heap can be used at once.\<close>

definition heap_free :: "(node \<Rightarrow> node list) \<Rightarrow> kernel \<Rightarrow> bool" where
  "heap_free L k \<longleftrightarrow> kernel_ok L k \<and> sem_ok L k heap_sem \<and> sem_value (sems k heap_sem) > 0"

lemma kernel_ok_mem [simp]: "kernel_ok L (mem_update f k) = kernel_ok L k"
  by (rule kernel_ok_cong) simp_all

lemma heap_free_mem [simp]: "heap_free L (mem_update f k) = heap_free L k"
  by (simp add: heap_free_def sem_ok_def ipc_ok_def live_def rt_object_get_type_def ipc_flag_def)

lemma heap_call_free:
  assumes f: "heap_free L k" and b: "body (heap_in h k) = Some (x, h')"
  shows "heap_call body h k = Some (Returns x, h', k\<lparr>mem := ram h'\<rparr>)"
proof -
  from f have s: "kernel_ok L k" "sem_ok L k heap_sem" "sem_value (sems k heap_sem) > 0"
    by (simp_all add: heap_free_def)
  let ?k = "(upd_sem heap_sem (\<lambda>sem. sem\<lparr>sem_value := sem_value sem - 1\<rparr>) k)\<lparr>mem := ram h'\<rparr>"
  have ok: "kernel_ok L ?k" using s(1) by (subst kernel_ok_cong [of _ k]) simp_all
  have sok: "sem_ok L ?k heap_sem"
    using sem_ok_take [OF s(2,3)] by (simp add: sem_ok_def ipc_ok_def live_def rt_object_get_type_def ipc_flag_def)
  have w: "waiting L (sem_list heap_sem) = []" using s(2,3) by (auto simp: sem_ok_def)
  have lt: "sem_value (sems k heap_sem) - 1 < 0xffff"
  proof -
    have "unat (sem_value (sems k heap_sem) - 1) = unat (sem_value (sems k heap_sem)) - 1"
      using s(3) by (simp add: unat_minus_one word_gt_0)
    moreover have "unat (sem_value (sems k heap_sem)) < 2 ^ 16" using unsigned_less [of "sem_value (sems k heap_sem)"] by simp
    ultimately show ?thesis using s(3) by (simp add: word_less_nat_alt)
  qed
  have same: "(sems k)(heap_sem := sems k heap_sem) = sems k" by simp
  have "rt_sem_release heap_sem ?k = Some (RT_EOK, k\<lparr>mem := ram h'\<rparr>)"
    unfolding sem_release_no_waiter [OF ok sok w] using lt by (cases k) (simp add: same)
  moreover have "heap_in h (upd_sem heap_sem g k) = heap_in h k" for g by simp
  ultimately show ?thesis
    using sem_take_available [OF s(2,3)] b by (simp add: heap_call_def heap_body_def)
qed

text \<open>The result of \<open>rt_malloc\<close> with the heap free.\<close>

lemma malloc_free:
  assumes f: "heap_free L k" and ok: "heap_ok os (heap_in h k)" and sz: "sz \<noteq> 0" "sz \<le> 0xfffffffc"
  defines "s \<equiv> malloc_size (RT_ALIGN sz RT_ALIGN_SIZE)"
  shows "(unat s \<le> heap_size h \<longrightarrow> (\<forall>ab \<in> adj os. \<not> fits (heap_in h k) s ab)) \<and>
      (\<exists>h'. rt_malloc sz h k = Some (Returns 0, h', k) \<and> heap_in h' k = heap_in h k) \<or>
    (\<exists>a e os' h' k'. rt_malloc sz h k = Some (Returns (heap_ptr h + of_nat (a + 12)), h', k') \<and>
      heap_free L k' \<and> heap_ok os' (heap_in h' k') \<and> same_heap h h' \<and> a + 12 + unat s \<le> e \<and>
      (a, e) \<in> adj os' \<and> allocated os' (heap_in h' k') = insert (a, e) (allocated os (heap_in h k)) \<and>
      keeps_contents (allocated os (heap_in h k)) (heap_in h k) (heap_in h' k') \<and>
      (\<forall>(c, d) \<in> allocated os (heap_in h k). d \<le> a \<or> e \<le> c) \<and>
      (\<exists>b. (a, b) \<in> adj os \<and> usedf (heap_in h k) a = 0 \<and> os' = mark_chain os a b (a + 12 + unat s)))"
proof -
  let ?r = "RT_ALIGN sz RT_ALIGN_SIZE"
  note rs = round_size [OF sz, folded s_def]
  have n: "12 \<le> heap_size h" using heap_ok_size [OF ok] by simp
  have m: "rt_malloc sz h k = (if ?r > mem_size_aligned h then Some (Returns 0, h, k)
      else heap_call (malloc_locked s) h k)"
    using sz(1) by (simp add: rt_malloc_def s_def Let_def)
  show ?thesis
  proof (cases "?r > mem_size_aligned h")
    case True
    then have "heap_size h < unat s" using n
      by (auto simp: s_def malloc_size_def word_less_nat_alt)
    then show ?thesis using True m by auto
  next
    case False
    then have "unat ?r \<le> heap_size h" by (simp add: word_less_nat_alt not_less)
    then have le: "unat s \<le> heap_size (heap_in h k)" using rs(4) n by simp
    from malloc_locked_ok [OF ok rs(1,2) le] show ?thesis
    proof (elim disjE exE conjE)
      assume nf: "\<forall>ab \<in> adj os. \<not> fits (heap_in h k) s ab" and
        r: "malloc_locked s (heap_in h k) = Some (0, heap_in h k)"
      have "rt_malloc sz h k = Some (Returns 0, heap_in h k, k)"
        using heap_call_free [OF f, of "malloc_locked s", OF r] m False by simp
      then show ?thesis using nf by (intro disjI1 conjI exI [of _ "heap_in h k"]) auto
    next
      fix a e os' h'
      assume r: "malloc_locked s (heap_in h k) = Some (heap_ptr (heap_in h k) + of_nat (a + 12), h')"
        and o: "heap_ok os' h'" "same_heap (heap_in h k) h'" "a + 12 + unat s \<le> e" "(a, e) \<in> adj os'"
          "allocated os' h' = insert (a, e) (allocated os (heap_in h k))"
          "keeps_contents (allocated os (heap_in h k)) (heap_in h k) h'"
          "\<forall>(c, d) \<in> allocated os (heap_in h k). d \<le> a \<or> e \<le> c"
      fix b assume b: "(a, b) \<in> adj os" "usedf (heap_in h k) a = 0" "os' = mark_chain os a b (a + 12 + unat s)"
      let ?k = "k\<lparr>mem := ram h'\<rparr>"
      have e: "heap_in h' ?k = h'" by simp
      have "rt_malloc sz h k = Some (Returns (heap_ptr h + of_nat (a + 12)), h', ?k)"
        using heap_call_free [OF f, of "malloc_locked s", OF r] m False by simp
      moreover have "same_heap h h'" using o(2) by (simp add: same_heap_def)
      moreover have "heap_free L ?k" using f by simp
      moreover have "\<exists>b. (a, b) \<in> adj os \<and> usedf (heap_in h k) a = 0 \<and>
          os' = mark_chain os a b (a + 12 + unat s)" using b by blast
      ultimately show ?thesis using o e
        by - (rule disjI2, rule exI [of _ a], rule exI [of _ e], rule exI [of _ os'], rule exI [of _ h'],
            rule exI [of _ ?k], intro conjI, simp_all)
    qed
  qed
qed

text \<open>The result of \<open>rt_free\<close> with the heap free.\<close>

lemma block_pointer:
  assumes ok: "chain_ok os h" and ab: "(a, b) \<in> adj os"
  defines "p \<equiv> heap_ptr h + of_nat (a + 12)"
  shows "unat p = unat (heap_ptr h) + a + 12" "p \<noteq> 0" "p AND (RT_ALIGN_SIZE - 1) = 0" "4 dvd unat p"
    "heap_ptr h \<le> p" "p < heap_end h" "b \<le> heap_size h + 12"
proof -
  have a: "a \<in> set os" "b \<in> set os" using adj_mem [OF ab] by blast+
  have e: "p = heap_ptr h + of_nat a + SIZEOF_STRUCT_MEM" by (simp add: p_def)
  note al = aligned_header [OF ok a(1)]
  show u: "unat p = unat (heap_ptr h) + a + 12" using al(3) e by simp
  then show "p \<noteq> 0" by auto
  show "p AND (RT_ALIGN_SIZE - 1) = 0" using al(2) unfolding e by (simp add: and3_mod4)
  have "unat (p mod 4) = 0" using al(2) unfolding e by simp
  then show "4 dvd unat p" by (simp add: unat_mod dvd_eq_mod_eq_0)
  show "heap_ptr h \<le> p" using u by (simp add: word_le_nat_alt)
  have "unat (heap_end h) = unat (heap_ptr h) + heap_size h + 12"
    using chain_bound(3) [OF ok chain_mem(2) [OF ok]] chain_okD(4) [OF ok] by simp
  moreover show "b \<le> heap_size h + 12" by (rule chain_bound(1) [OF ok a(2)])
  ultimately show "p < heap_end h" using u chain_okD(15) [OF ok ab] by (simp add: word_less_nat_alt)
qed

lemma free_free:
  assumes f: "heap_free L k" and ok: "heap_ok os (heap_in h k)" and ab: "(a, b) \<in> allocated os (heap_in h k)"
  shows "\<exists>os' h' k'. rt_free (heap_ptr h + of_nat (a + 12)) h k = Some (Returns (), h', k') \<and>
    heap_free L k' \<and> heap_ok os' (heap_in h' k') \<and> same_heap h h' \<and>
    allocated os' (heap_in h' k') = allocated os (heap_in h k) - {(a, b)} \<and>
    keeps_contents (allocated os (heap_in h k) - {(a, b)}) (heap_in h k) (heap_in h' k')"
proof -
  have ch: "chain_ok os (heap_in h k)" using ok by (simp add: heap_ok_def)
  have ad: "(a, b) \<in> adj os" using ab by (simp add: allocated_def)
  note bp = block_pointer [OF ch ad]
  obtain os' h' where r: "free_locked (heap_ptr (heap_in h k) + of_nat (a + 12)) (heap_in h k) = Some h'"
    "heap_ok os' h'" "same_heap (heap_in h k) h'" "allocated os' h' = allocated os (heap_in h k) - {(a, b)}"
    "keeps_contents (allocated os (heap_in h k) - {(a, b)}) (heap_in h k) h'"
    using free_locked_ok [OF ok ab] by blast
  let ?k = "k\<lparr>mem := ram h'\<rparr>"
  let ?p = "heap_ptr h + of_nat (a + 12)"
  have "heap_call (\<lambda>h. do { h \<leftarrow> free_locked ?p h; Some ((), h) }) h k = Some (Returns (), h', ?k)"
    using r(1) by (intro heap_call_free [OF f]) simp
  moreover have "rt_free ?p h k = heap_call (\<lambda>h. do { h \<leftarrow> free_locked ?p h; Some ((), h) }) h k"
    using bp(2,3,5,6) by (simp add: rt_free_def)
  moreover have "heap_in h' ?k = h'" "same_heap h h'" "heap_free L ?k"
    using r(3) f by (simp_all add: same_heap_def)
  ultimately show ?thesis using r(2,4,5) by (intro exI [of _ os'] exI [of _ h'] exI [of _ ?k]) simp
qed

section \<open>Programs that use the heap\<close>

text \<open>The block behind a pointer: the offset of its header and of the next one.\<close>

definition block_at :: "heap \<Rightarrow> kernel \<Rightarrow> u32 \<Rightarrow> nat \<times> nat" where
  "block_at h k p = (unat (p - heap_ptr h) - 12, unat (mem_next (heap_in h k) (p - SIZEOF_STRUCT_MEM)))"

text \<open>Memory that differs only inside of the blocks \<open>B\<close>.\<close>

definition writes_to :: "(nat \<times> nat) set \<Rightarrow> heap \<Rightarrow> memory \<Rightarrow> memory \<Rightarrow> bool" where
  "writes_to B h m m' \<longleftrightarrow> (\<forall>i < 2 ^ 32. (\<forall>(a, b) \<in> B. \<not> (a + 12 \<le> i \<and> i < b)) \<longrightarrow>
     m' (heap_ptr h + of_nat i) = m (heap_ptr h + of_nat i))"

text \<open>A program starts with a fresh heap, calls \<open>rt_malloc\<close> and \<open>rt_free\<close>, the latter for blocks it
  holds, and writes to them; \<open>B\<close> is the set of its blocks.\<close>

inductive heap_run :: "(node \<Rightarrow> node list) \<Rightarrow> (nat \<times> nat) set \<Rightarrow> heap \<Rightarrow> kernel \<Rightarrow> bool" for L where
  start: "heap_ok [0, n] (heap_in h k) \<Longrightarrow> allocated [0, n] (heap_in h k) = {} \<Longrightarrow> heap_free L k \<Longrightarrow>
    heap_run L {} h k"
| malloc: "heap_run L B h k \<Longrightarrow> sz \<noteq> 0 \<Longrightarrow> sz \<le> 0xfffffffc \<Longrightarrow>
    rt_malloc sz h k = Some (Returns p, h', k') \<Longrightarrow>
    heap_run L (if p = 0 then B else insert (block_at h' k' p) B) h' k'"
| free: "heap_run L B h k \<Longrightarrow> (a, b) \<in> B \<Longrightarrow>
    rt_free (heap_ptr h + of_nat (a + 12)) h k = Some (Returns (), h', k') \<Longrightarrow>
    heap_run L (B - {(a, b)}) h' k'"
| store: "heap_run L B h k \<Longrightarrow> writes_to B h (mem k) m \<Longrightarrow> heap_run L B h (k\<lparr>mem := m\<rparr>)"

lemma allocated_alt: "allocated os h = {cd \<in> adj os. usedf h (fst cd) \<noteq> 0}"
  by (auto simp: allocated_def)

lemma write_ok:
  assumes ok: "heap_ok os (heap_in h k)" and w: "writes_to (allocated os (heap_in h k)) h (mem k) m"
  shows "heap_ok os (h\<lparr>ram := m\<rparr>)" "allocated os (h\<lparr>ram := m\<rparr>) = allocated os (heap_in h k)"
proof -
  let ?h = "heap_in h k" and ?h' = "h\<lparr>ram := m\<rparr>"
  have ch: "chain_ok os ?h" using ok by (simp add: heap_ok_def)
  note g = chain_okD(10) [OF ch]
  have by': "m (heap_ptr h + of_nat i) = mem k (heap_ptr h + of_nat i)"
    if c: "c \<in> set os" and i: "c \<le> i" "i < c + 12" for c i
  proof -
    have "\<not> (a + 12 \<le> i \<and> i < b)" if "(a, b) \<in> adj os" for a b
      using adj_ordered [OF g that c] adj_ordered [OF g that] i that by fastforce
    moreover have "i < 2 ^ 32" using chain_bound(2) [OF ch c] i by simp
    ultimately show ?thesis using w by (auto simp: writes_to_def allocated_def)
  qed
  have f: "nextf ?h' c = nextf ?h c \<and> prevf ?h' c = prevf ?h c \<and> usedf ?h' c = usedf ?h c \<and>
      magicf ?h' c = magicf ?h c" if c: "c \<in> set os" for c
  proof -
    have "load32 m (heap_ptr h + of_nat (c + l)) = load32 (mem k) (heap_ptr h + of_nat (c + l))"
      if "l + 4 \<le> 12" for l using that by (intro load32_off by' [OF c]) simp_all
    note l = this [of 4] this [of 8]
    have "load16 m (heap_ptr h + of_nat (c + l)) = load16 (mem k) (heap_ptr h + of_nat (c + l))"
      if "l + 2 \<le> 12" for l using that by (intro load16_off by' [OF c]) simp_all
    note l = l this [of 0] this [of 2]
    show ?thesis using l by (simp add: nextf_def prevf_def usedf_def magicf_def ac_simps)
  qed
  have "chain_ok os ?h'"
    using f f [OF chain_mem(2) [OF ch]] chain_okD(14) [OF ch] by (intro chain_cong [OF ch]) (auto simp: same_heap_def)
  moreover have "no_holes os ?h'"
  proof -
    have u: "usedf ?h' (fst cd) = usedf ?h (fst cd)" "usedf ?h' (snd cd) = usedf ?h (snd cd)" if "cd \<in> adj os" for cd
      using f [of "fst cd"] f [of "snd cd"] adj_mem [of "fst cd" "snd cd" os] that by simp_all
    have "\<forall>cd \<in> adj os. usedf ?h (fst cd) = 0 \<longrightarrow> usedf ?h (snd cd) \<noteq> 0"
      using ok by (auto simp: heap_ok_def no_holes_def)
    then have "\<forall>cd \<in> adj os. usedf ?h' (fst cd) = 0 \<longrightarrow> usedf ?h' (snd cd) \<noteq> 0" using u by simp
    then show ?thesis by (auto simp: no_holes_def)
  qed
  moreover have "lfree_ok os ?h'"
  proof -
    obtain c where c: "c \<in> set os" "lfree h = heap_ptr h + of_nat c" "usedf ?h c = 0 \<or> c = heap_size h + 12"
      "\<forall>d \<in> set os. d < c \<longrightarrow> usedf ?h d \<noteq> 0"
      using ok unfolding heap_ok_def lfree_ok_def by auto
    have "\<forall>d \<in> set os. d < c \<longrightarrow> usedf ?h' d \<noteq> 0" using c(4) f by simp
    then show ?thesis using c(1-3) f [OF c(1)] unfolding lfree_ok_def by (intro bexI [of _ c]) simp_all
  qed
  ultimately show "heap_ok os ?h'" by (simp add: heap_ok_def)
  have "usedf ?h' (fst cd) = usedf ?h (fst cd)" if "cd \<in> adj os" for cd
    using f [of "fst cd"] adj_mem [of "fst cd" "snd cd" os] that by simp
  then have "{cd \<in> adj os. usedf ?h' (fst cd) \<noteq> 0} = {cd \<in> adj os. usedf ?h (fst cd) \<noteq> 0}"
    by (intro Collect_cong conj_cong refl) simp
  then show "allocated os ?h' = allocated os ?h" unfolding allocated_alt .
qed

lemma block_at_adj:
  assumes ok: "chain_ok os (heap_in h k)" and ab: "(a, b) \<in> adj os"
  shows "block_at h k (heap_ptr h + of_nat (a + 12)) = (a, b)"
proof -
  have a: "a \<in> set os" "b \<in> set os" using adj_mem [OF ab] by blast+
  have "unat (of_nat (a + 12) :: u32) = a + 12" "unat (of_nat b :: u32) = b"
    using chain_bound(2) [OF ok a(1)] chain_bound(2) [OF ok a(2)] by (intro unat_of_nat_id; simp)+
  moreover have "mem_next (heap_in h k) (heap_ptr h + of_nat a) = of_nat b"
    using chain_okD(11) [OF ok ab] by (simp add: nextf_def)
  ultimately show ?thesis by (simp add: block_at_def)
qed

lemma heap_run_ok:
  assumes "heap_run L B h k"
  shows "heap_free L k \<and> (\<exists>os. heap_ok os (heap_in h k) \<and> allocated os (heap_in h k) = B)"
  using assms
proof induction
  case (start n h k)
  then show ?case by blast
next
  case (malloc B h k sz p h' k')
  then obtain os where os: "heap_free L k" "heap_ok os (heap_in h k)" "allocated os (heap_in h k) = B" by blast
  from malloc_free [OF os(1,2) malloc.hyps(2,3)] show ?case
  proof (elim disjE exE conjE)
    fix h1 assume "rt_malloc sz h k = Some (Returns 0, h1, k)" "heap_in h1 k = heap_in h k"
    then show ?thesis using malloc.hyps(4) os by auto
  next
    fix a e os' h1 k1
    assume r: "rt_malloc sz h k = Some (Returns (heap_ptr h + of_nat (a + 12)), h1, k1)" "heap_free L k1"
      "heap_ok os' (heap_in h1 k1)" "same_heap h h1" "(a, e) \<in> adj os'"
      "allocated os' (heap_in h1 k1) = insert (a, e) (allocated os (heap_in h k))"
    then have e: "p = heap_ptr h' + of_nat (a + 12)" "h1 = h'" "k1 = k'"
      using malloc.hyps(4) by (simp_all add: same_heap_def)
    have ch: "chain_ok os' (heap_in h' k')" using r(3) e by (simp add: heap_ok_def)
    have "p \<noteq> 0" using block_pointer(2) [OF ch r(5)] e(1) by simp
    then show ?thesis using r os(3) e block_at_adj [OF ch r(5)] by auto
  qed
next
  case (free B h k a b h' k')
  then obtain os where os: "heap_free L k" "heap_ok os (heap_in h k)" "allocated os (heap_in h k) = B" by blast
  have ab: "(a, b) \<in> allocated os (heap_in h k)" using free os(3) by simp
  show ?case using free_free [OF os(1,2) ab] free.hyps(3) os(3) by auto
next
  case (store B h k m)
  then obtain os where os: "heap_free L k" "heap_ok os (heap_in h k)" "allocated os (heap_in h k) = B" by blast
  then show ?case using write_ok [OF os(2)] store.hyps(2) by auto
qed

section \<open>Properties\<close>

text \<open>A heap of 1000 bytes at \<open>0x8000\<close>, fresh and with one block of 100 bytes.\<close>

definition demo_fresh :: heap where
  "demo_fresh = init_heap 1000 \<lparr>ram = \<lambda>_. 0, heap_ptr = 0x8000, heap_end = 0, lfree = 0,
     mem_size_aligned = 1000, used_mem = 0, max_mem = 0\<rparr>"

definition demo_used :: heap where
  "demo_used = (malloc_mark 100 0 demo_fresh)\<lparr>lfree := 0x8000 + 112\<rparr>"

lemma demo_fresh_ok:
  "heap_ok [0, 1012] demo_fresh" "allocated [0, 1012] demo_fresh = {}" "heap_ptr demo_fresh = 0x8000"
  "mem_size_aligned demo_fresh = 1000"
  using init_heap_ok [of "\<lparr>ram = \<lambda>_. 0, heap_ptr = 0x8000, heap_end = 0, lfree = 0,
     mem_size_aligned = 1000, used_mem = 0, max_mem = 0\<rparr>"] by (simp_all add: demo_fresh_def)

lemma demo_used_ok:
  "heap_ok [0, 112, 1012] demo_used" "allocated [0, 112, 1012] demo_used = {(0, 112)}"
proof -
  have f: "usedf demo_fresh 0 = 0" using demo_fresh_ok(2) by (auto simp: allocated_def)
  have n: "0 + 12 + unat (100 :: u32) = 112" by simp
  note m = malloc_mark_heap [OF demo_fresh_ok(1), of 0 1012 100, unfolded n of_nat_0, OF _ f]
  have s: "mark_chain [0, 1012] 0 1012 112 = [0, 112, 1012]" by (simp add: mark_chain_def)
  let ?h = "malloc_mark 100 0 demo_fresh"
  have u: "usedf ?h 0 = 1" "usedf ?h 112 = 0" using m(9) by (simp_all add: s)
  have "heap_ptr ?h = 0x8000" using m(3) demo_fresh_ok(3) by (simp add: same_heap_def)
  then have "lfree_ok [0, 112, 1012] (?h\<lparr>lfree := 0x8000 + 112\<rparr>)"
    using u unfolding lfree_ok_def by (intro bexI [of _ 112]) simp_all
  then show "heap_ok [0, 112, 1012] demo_used"
    using m(1,2) s by (simp add: heap_ok_def demo_used_def)
  show "allocated [0, 112, 1012] demo_used = {(0, 112)}"
    using m(6) s demo_fresh_ok(2) by (simp add: demo_used_def)
qed

text \<open>The running demo kernel, whose semaphore 1 is available, with a heap in its memory.\<close>

abbreviation demo_with :: "heap \<Rightarrow> kernel" where "demo_with h \<equiv> demo\<lparr>mem := ram h\<rparr>"

lemma demo_heap_free: "heap_free demo_ring (demo_with h)"
proof -
  have "heap_free demo_ring demo"
    using demo_ok sem_demo_ok(1) [of heap_sem] by (simp add: heap_free_def heap_sem_def)
  then show ?thesis by simp
qed

lemma demo_heap_in: "heap_in h (demo_with h) = h" by simp

text \<open>C27: An allocation that finds \<open>heap_sem\<close> free always returns.  Either it returns NULL and
  changes nothing, and then every free block is too small, or ends the heap and is filled by the
  request exactly; or it returns an aligned pointer to at least \<open>sz\<close> bytes inside of the heap,
  which belong to no block handed out before, and the contents of those blocks are kept.\<close>

theorem rt_malloc_allocates:
  assumes f: "heap_free L k" and ok: "heap_ok os (heap_in h k)" and sz: "sz \<noteq> 0" "sz \<le> 0xfffffffc"
  shows "\<exists>p h' k'. rt_malloc sz h k = Some (Returns p, h', k') \<and> heap_free L k' \<and>
    (p = 0 \<and> heap_in h' k' = heap_in h k \<and>
       (\<forall>(a, b) \<in> adj os. usedf (heap_in h k) a = 0 \<longrightarrow>
          b < a + 12 + unat (malloc_size (RT_ALIGN sz 4)) \<or>
          b = heap_size h + 12 \<and> a + 12 + unat (malloc_size (RT_ALIGN sz 4)) = b) \<or>
     (\<exists>a b os'. p = heap_ptr h + of_nat (a + 12) \<and> p \<noteq> 0 \<and> 4 dvd unat p \<and> a + 12 + unat sz \<le> b \<and>
       unat (heap_ptr h) + b \<le> unat (heap_end h) \<and>
       heap_ok os' (heap_in h' k') \<and> allocated os' (heap_in h' k') = insert (a, b) (allocated os (heap_in h k)) \<and>
       (\<forall>(c, d) \<in> allocated os (heap_in h k). d \<le> a \<or> b \<le> c) \<and>
       keeps_contents (allocated os (heap_in h k)) (heap_in h k) (heap_in h' k')))"
proof -
  let ?s = "malloc_size (RT_ALIGN sz 4)"
  note rs = round_size [OF sz]
  have ch: "chain_ok os (heap_in h k)" using ok by (simp add: heap_ok_def)
  have nofit: "b < a + 12 + unat ?s \<or> b = heap_size h + 12 \<and> a + 12 + unat ?s = b"
    if nf: "unat ?s \<le> heap_size h \<longrightarrow> (\<forall>ab \<in> adj os. \<not> fits (heap_in h k) ?s ab)"
      and ab: "(a, b) \<in> adj os" "usedf (heap_in h k) a = 0" for a b
  proof -
    have "b \<le> heap_size h + 12" using chain_bound(1) [OF ch] adj_mem [OF ab(1)] by auto
    then show ?thesis using nf ab by (fastforce simp: fits_def)
  qed
  have e: "unat (heap_end h) = unat (heap_ptr h) + heap_size h + 12"
    using chain_bound(3) [OF ch chain_mem(2) [OF ch]] chain_okD(4) [OF ch] by simp
  from malloc_free [OF f ok sz] show ?thesis
  proof (elim disjE exE conjE)
    fix h' assume "unat ?s \<le> heap_size h \<longrightarrow> (\<forall>ab \<in> adj os. \<not> fits (heap_in h k) ?s ab)"
      "rt_malloc sz h k = Some (Returns 0, h', k)" "heap_in h' k = heap_in h k"
    then show ?thesis using nofit f by (intro exI [of _ 0] exI [of _ h'] exI [of _ k]) auto
  next
    fix a b os' h' k'
    assume r: "rt_malloc sz h k = Some (Returns (heap_ptr h + of_nat (a + 12)), h', k')" "heap_free L k'"
      "heap_ok os' (heap_in h' k')" "same_heap h h'" "a + 12 + unat ?s \<le> b" "(a, b) \<in> adj os'"
      "allocated os' (heap_in h' k') = insert (a, b) (allocated os (heap_in h k))"
      "keeps_contents (allocated os (heap_in h k)) (heap_in h k) (heap_in h' k')"
      "\<forall>(c, d) \<in> allocated os (heap_in h k). d \<le> a \<or> b \<le> c"
    have ch': "chain_ok os' (heap_in h' k')" using r(3) by (simp add: heap_ok_def)
    note bp = block_pointer [OF ch' r(6)]
    let ?p = "heap_ptr h + of_nat (a + 12)"
    have "?p \<noteq> 0" "4 dvd unat ?p" "b \<le> heap_size h + 12" using bp(2,4,7) r(4) by (simp_all add: same_heap_def)
    moreover have "a + 12 + unat sz \<le> b" using r(5) rs(3) by simp
    moreover have "unat (heap_ptr h) + b \<le> unat (heap_end h)" using calculation(3) e by simp
    ultimately show ?thesis using r(1-3,7-9)
      by (intro exI [of _ ?p] exI [of _ h'] exI [of _ k'] conjI disjI2 exI [of _ a] exI [of _ b] exI [of _ os'])
        simp_all
  qed
qed

theorem rt_malloc_allocates_witness:
  "\<exists>p h' k'. rt_malloc 100 demo_used (demo_with demo_used) = Some (Returns p, h', k') \<and> heap_free demo_ring k'"
  using rt_malloc_allocates [of demo_ring "demo_with demo_used" "[0, 112, 1012]" demo_used 100]
    demo_heap_free demo_used_ok(1) by auto

text \<open>C28: Freeing a block always returns when \<open>heap_sem\<close> is free, keeps the heap well formed (free
  neighbours are merged), removes just this block from the allocated ones and keeps the contents of
  all others.\<close>

theorem rt_free_releases:
  assumes "heap_free L k" "heap_ok os (heap_in h k)" "(a, b) \<in> allocated os (heap_in h k)"
  shows "\<exists>os' h' k'. rt_free (heap_ptr h + of_nat (a + 12)) h k = Some (Returns (), h', k') \<and>
    heap_free L k' \<and> heap_ok os' (heap_in h' k') \<and>
    allocated os' (heap_in h' k') = allocated os (heap_in h k) - {(a, b)} \<and>
    keeps_contents (allocated os (heap_in h k) - {(a, b)}) (heap_in h k) (heap_in h' k')"
  using free_free [OF assms] by blast

theorem rt_free_releases_witness:
  "\<exists>os' h' k'. rt_free (heap_ptr demo_used + 12) demo_used (demo_with demo_used) = Some (Returns (), h', k') \<and>
    heap_ok os' (heap_in h' k') \<and> allocated os' (heap_in h' k') = {}"
  using rt_free_releases [of demo_ring "demo_with demo_used" "[0, 112, 1012]" demo_used 0 112]
    demo_heap_free demo_used_ok by auto

text \<open>C29: What is allocated can be given back: freeing the pointer that an allocation returned
  always works, and leaves the allocated blocks and their contents as they were before.\<close>

theorem rt_malloc_free_roundtrip:
  assumes f: "heap_free L k" and ok: "heap_ok os (heap_in h k)" and sz: "sz \<noteq> 0" "sz \<le> 0xfffffffc"
    and m: "rt_malloc sz h k = Some (Returns p, h1, k1)" "p \<noteq> 0"
  shows "\<exists>os' h' k'. rt_free p h1 k1 = Some (Returns (), h', k') \<and> heap_free L k' \<and>
    heap_ok os' (heap_in h' k') \<and> allocated os' (heap_in h' k') = allocated os (heap_in h k) \<and>
    keeps_contents (allocated os (heap_in h k)) (heap_in h k) (heap_in h' k')"
  using malloc_free [OF f ok sz]
proof (elim disjE exE conjE)
  fix h' assume "rt_malloc sz h k = Some (Returns 0, h', k)"
  then show ?thesis using m by simp
next
  fix a e os1 h' k'
  assume r: "rt_malloc sz h k = Some (Returns (heap_ptr h + of_nat (a + 12)), h', k')" "heap_free L k'"
    "heap_ok os1 (heap_in h' k')" "same_heap h h'" "(a, e) \<in> adj os1"
    "allocated os1 (heap_in h' k') = insert (a, e) (allocated os (heap_in h k))"
    "keeps_contents (allocated os (heap_in h k)) (heap_in h k) (heap_in h' k')"
    "a + 12 + unat (malloc_size (RT_ALIGN sz RT_ALIGN_SIZE)) \<le> e"
    "\<forall>(c, d) \<in> allocated os (heap_in h k). d \<le> a \<or> e \<le> c"
  have eq: "p = heap_ptr h1 + of_nat (a + 12)" "h1 = h'" "k1 = k'" using m(1) r(1,4) by (simp_all add: same_heap_def)
  have new: "(a, e) \<notin> allocated os (heap_in h k)" using r(8,9) by fastforce
  have in1: "(a, e) \<in> allocated os1 (heap_in h' k')" using r(6) by simp
  obtain os2 h2 k2 where r2: "rt_free (heap_ptr h' + of_nat (a + 12)) h' k' = Some (Returns (), h2, k2)"
    "heap_free L k2" "heap_ok os2 (heap_in h2 k2)"
    "allocated os2 (heap_in h2 k2) = allocated os1 (heap_in h' k') - {(a, e)}"
    "keeps_contents (allocated os1 (heap_in h' k') - {(a, e)}) (heap_in h' k') (heap_in h2 k2)"
    using free_free [OF r(2,3) in1] by blast
  have "allocated os1 (heap_in h' k') - {(a, e)} = allocated os (heap_in h k)" using r(6) new by simp
  then show ?thesis using r2 eq keeps_contents_trans [OF r(7)] by auto
qed

lemma demo_malloc:
  assumes sz: "sz \<noteq> 0" "sz \<le> 0xfffffffc" and n: "unat (malloc_size (RT_ALIGN sz RT_ALIGN_SIZE)) = n" "n < 900"
  obtains e h' k' where
    "rt_malloc sz demo_fresh (demo_with demo_fresh) = Some (Returns (heap_ptr demo_fresh + of_nat 12), h', k')"
    "heap_ok [0, n + 12, 1012] (heap_in h' k')" "same_heap demo_fresh h'" "(0, e) \<in> adj [0, n + 12, 1012]"
    "allocated [0, n + 12, 1012] (heap_in h' k') = {(0, e)}"
proof -
  let ?k = "demo_with demo_fresh" and ?s = "malloc_size (RT_ALIGN sz RT_ALIGN_SIZE)"
  have ok: "heap_ok [0, 1012] (heap_in demo_fresh ?k)" using demo_fresh_ok(1) by simp
  have "usedf demo_fresh 0 = 0" using demo_fresh_ok(2) by (auto simp: allocated_def)
  then have "fits demo_fresh ?s (0, 1012)" using n by (simp add: fits_def demo_fresh_ok)
  then have f: "\<not> (unat ?s \<le> heap_size demo_fresh \<longrightarrow> (\<forall>ab \<in> adj [0, 1012]. \<not> fits (heap_in demo_fresh ?k) ?s ab))"
    using n by (simp add: demo_fresh_ok)
  have c: "mark_chain [0, 1012] 0 1012 (n + 12) = [0, n + 12, 1012]" using n(2) by (simp add: mark_chain_def)
  from malloc_free [OF demo_heap_free ok sz] show thesis
  proof (elim disjE exE conjE)
    fix a e os' h' k' b
    assume r: "rt_malloc sz demo_fresh ?k = Some (Returns (heap_ptr demo_fresh + of_nat (a + 12)), h', k')"
      "heap_ok os' (heap_in h' k')" "same_heap demo_fresh h'" "(a, e) \<in> adj os'"
      "allocated os' (heap_in h' k') = insert (a, e) (allocated [0, 1012] (heap_in demo_fresh ?k))"
      "(a, b) \<in> adj [0, 1012]" "os' = mark_chain [0, 1012] a b (a + 12 + unat ?s)"
    have "a = 0" "b = 1012" using r(6) by simp_all
    then have "os' = [0, n + 12, 1012]" using r(7) c n(1) by (simp add: add.commute)
    then show thesis using r(1-5) \<open>a = 0\<close> demo_fresh_ok(2) by (intro that [of h' k' e]) simp_all
  qed (use f in blast)
qed

theorem rt_malloc_free_roundtrip_witness:
  "\<exists>p h1 k1 os' h' k'. rt_malloc 100 demo_fresh (demo_with demo_fresh) = Some (Returns p, h1, k1) \<and>
    rt_free p h1 k1 = Some (Returns (), h', k') \<and> heap_ok os' (heap_in h' k') \<and>
    allocated os' (heap_in h' k') = {}"
proof -
  have ok: "heap_ok [0, 1012] (heap_in demo_fresh (demo_with demo_fresh))" using demo_fresh_ok(1) by simp
  have s: "unat (malloc_size (RT_ALIGN 100 RT_ALIGN_SIZE)) = 100" by (simp add: malloc_size_def RT_ALIGN_def)
  obtain e h1 k1 where r: "rt_malloc 100 demo_fresh (demo_with demo_fresh) = Some (Returns (heap_ptr demo_fresh + of_nat 12), h1, k1)"
    by (rule demo_malloc [OF _ _ s]) simp_all
  have "heap_ptr demo_fresh + of_nat 12 \<noteq> 0" by (simp add: demo_fresh_ok)
  then show ?thesis
    using rt_malloc_free_roundtrip [OF demo_heap_free ok _ _ r] r demo_fresh_ok(2) by auto
qed

text \<open>C26: However a program allocates, frees its blocks and writes inside of them, its blocks never
  overlap, lie inside of the heap behind their headers, and each of them can be freed; every
  allocation returns, and keeps the contents of all blocks.\<close>

theorem heap_run_safe:
  assumes run: "heap_run L B h k"
  shows "(\<forall>(a, b) \<in> B. \<forall>(c, d) \<in> B. (a, b) \<noteq> (c, d) \<longrightarrow> b \<le> c \<or> d \<le> a) \<and>
    (\<forall>(a, b) \<in> B. a + 24 \<le> b \<and> unat (heap_ptr h) + b \<le> unat (heap_end h)) \<and>
    (\<forall>(a, b) \<in> B. \<exists>h' k'. rt_free (heap_ptr h + of_nat (a + 12)) h k = Some (Returns (), h', k') \<and>
       keeps_contents (B - {(a, b)}) (heap_in h k) (heap_in h' k')) \<and>
    (\<forall>sz. sz \<noteq> 0 \<and> sz \<le> 0xfffffffc \<longrightarrow> (\<exists>p h' k'. rt_malloc sz h k = Some (Returns p, h', k') \<and>
       keeps_contents B (heap_in h k) (heap_in h' k')))"
proof (intro conjI)
  obtain os where os: "heap_free L k" "heap_ok os (heap_in h k)" "allocated os (heap_in h k) = B"
    using heap_run_ok [OF run] by blast
  have ch: "chain_ok os (heap_in h k)" using os(2) by (simp add: heap_ok_def)
  have B: "B \<subseteq> adj os" using os(3) by (auto simp: allocated_def)
  show "\<forall>(a, b) \<in> B. \<forall>(c, d) \<in> B. (a, b) \<noteq> (c, d) \<longrightarrow> b \<le> c \<or> d \<le> a"
    using adj_allocated_disjoint [OF chain_okD(10) [OF ch]] B by blast
  have e: "unat (heap_end h) = unat (heap_ptr h) + heap_size h + 12"
    using chain_bound(3) [OF ch chain_mem(2) [OF ch]] chain_okD(4) [OF ch] by simp
  show "\<forall>(a, b) \<in> B. a + 24 \<le> b \<and> unat (heap_ptr h) + b \<le> unat (heap_end h)"
    using block_pointer(7) [OF ch] chain_okD(15) [OF ch] B e by fastforce
  show "\<forall>(a, b) \<in> B. \<exists>h' k'. rt_free (heap_ptr h + of_nat (a + 12)) h k = Some (Returns (), h', k') \<and>
       keeps_contents (B - {(a, b)}) (heap_in h k) (heap_in h' k')"
    using free_free [OF os(1,2)] os(3) by blast
  show "\<forall>sz. sz \<noteq> 0 \<and> sz \<le> 0xfffffffc \<longrightarrow> (\<exists>p h' k'. rt_malloc sz h k = Some (Returns p, h', k') \<and>
       keeps_contents B (heap_in h k) (heap_in h' k'))"
  proof (intro allI impI, elim conjE)
    fix sz :: u32 assume sz: "sz \<noteq> 0" "sz \<le> 0xfffffffc"
    have "keeps_contents B (heap_in h k) (heap_in h k)" by (simp add: keeps_contents_def)
    then show "\<exists>p h' k'. rt_malloc sz h k = Some (Returns p, h', k') \<and> keeps_contents B (heap_in h k) (heap_in h' k')"
      using malloc_free [OF os(1,2) sz] os(3) by metis
  qed
qed

theorem heap_run_safe_witness:
  "\<exists>p h' k'. rt_malloc 100 demo_fresh (demo_with demo_fresh) = Some (Returns p, h', k') \<and>
    heap_run demo_ring (if p = 0 then {} else {block_at h' k' p}) h' k'"
proof -
  have run: "heap_run demo_ring {} demo_fresh (demo_with demo_fresh)"
    using demo_fresh_ok demo_heap_free by (intro heap_run.start [of 1012]) simp_all
  obtain p h' k' where r: "rt_malloc 100 demo_fresh (demo_with demo_fresh) = Some (Returns p, h', k')"
    using heap_run_safe [OF run, THEN conjunct2, THEN conjunct2, THEN conjunct2, rule_format, of 100] by auto
  then show ?thesis using heap_run.malloc [OF run _ _ r] by (intro exI [of _ p] exI) auto
qed

text \<open>C30: \<open>rt_system_heap_init\<close>, given a region with room for at least one block, sets up a well
  formed heap with nothing allocated: the aligned part of the region holds one free block between
  two headers.  The call returns exactly if the initialisation of \<open>heap_sem\<close> does.\<close>

theorem rt_system_heap_init_ok:
  assumes r: "b \<le> 0xfffffffc" "unat (RT_ALIGN b 4) + 36 \<le> unat (RT_ALIGN_DOWN e 4)"
  shows "\<exists>h'. rt_system_heap_init nm b e h k =
      map_option (\<lambda>(_, k'). (h', k')) (rt_sem_init heap_sem nm 1 RT_IPC_FLAG_FIFO (k\<lparr>mem := ram h'\<rparr>)) \<and>
    heap_ptr h' = RT_ALIGN b 4 \<and> heap_size h' = unat (RT_ALIGN_DOWN e 4) - unat (RT_ALIGN b 4) - 24 \<and>
    heap_ok [0, heap_size h' + 12] h' \<and> allocated [0, heap_size h' + 12] h' = {}"
proof -
  define p where "p = RT_ALIGN b 4"
  define q where "q = RT_ALIGN_DOWN e 4"
  define S where "S = q - p - 2 * SIZEOF_STRUCT_MEM"
  have "p = (b + 3) AND NOT 3" "q = e AND NOT 3"
    unfolding p_def q_def RT_ALIGN_def RT_ALIGN_DOWN_def by (simp_all add: algebra_simps)
  then have d: "4 dvd unat p" "4 dvd unat q" by (simp_all only: unat_and_not3) simp_all
  have le: "unat p + 36 \<le> unat q" using r(2) by (simp add: p_def q_def)
  have q: "unat q < 2 ^ 32" using unsigned_less [of q] by simp
  have qp: "unat (q - p) = unat q - unat p" using le by (simp add: unat_sub word_le_nat_alt)
  have S: "unat S = unat q - unat p - 24"
  proof -
    have "24 \<le> q - p" using qp le by (simp add: word_le_nat_alt)
    then show ?thesis using qp by (simp add: S_def unat_sub)
  qed
  have d4: "4 dvd unat S" using S d le by (simp add: dvd_diff_nat)
  let ?h = "h\<lparr>mem_size_aligned := S, heap_ptr := p, ram := mem k\<rparr>"
  define h' where "h' = init_heap S ?h"
  have "unat p + unat S < 4294967272" "12 \<le> unat S" using S le q by simp_all
  note i = init_heap_ok [of ?h, folded h'_def, simplified, folded h'_def, OF this d(1) d4]
  have q24: "unat (q - 2 * SIZEOF_STRUCT_MEM) = unat q - 24"
    using le by (simp add: unat_sub word_le_nat_alt)
  have cond: "q > 2 * SIZEOF_STRUCT_MEM \<and> q - 2 * SIZEOF_STRUCT_MEM \<ge> p"
    using le q24 by (simp add: word_less_nat_alt word_le_nat_alt)
  have lf: "h'\<lparr>lfree := heap_ptr h'\<rparr> = h'" by (simp add: h'_def init_heap_def Let_def comp_assoc)
  have "rt_system_heap_init nm b e h k =
      map_option (\<lambda>(_, k'). (h', k')) (rt_sem_init heap_sem nm 1 RT_IPC_FLAG_FIFO (k\<lparr>mem := ram h'\<rparr>))"
    unfolding rt_system_heap_init_def Let_def p_def [symmetric] q_def [symmetric] S_def [symmetric]
      if_P [OF cond] h'_def init_heap_def
    by (cases "rt_sem_init heap_sem nm 1 RT_IPC_FLAG_FIFO (k\<lparr>mem := ram h'\<rparr>)")
      (simp_all add: h'_def init_heap_def Let_def comp_assoc case_prod_beta)
  moreover have "heap_size h' = unat S" "heap_ptr h' = p" using i by simp_all
  ultimately show ?thesis using i S unfolding p_def [symmetric] q_def [symmetric]
    by (intro exI [of _ h']) simp
qed

theorem rt_system_heap_init_ok_witness:
  "\<exists>h'. heap_ptr h' = 0x8000 \<and> heap_size h' = 0xfe8 \<and> heap_ok [0, 0xff4] h' \<and>
    rt_system_heap_init [104, 0] 0x7ffd 0x9003 demo_fresh demo =
      map_option (\<lambda>(_, k'). (h', k')) (rt_sem_init heap_sem [104, 0] 1 RT_IPC_FLAG_FIFO (demo\<lparr>mem := ram h'\<rparr>))"
proof -
  have a: "RT_ALIGN 0x7ffd 4 = (0x8000 :: u32)" "RT_ALIGN_DOWN 0x9003 4 = (0x9000 :: u32)"
    by (simp_all add: RT_ALIGN_def RT_ALIGN_DOWN_def)
  have "unat (0x9000 :: u32) - unat (0x8000 :: u32) - 24 = 0xfe8" by simp
  then show ?thesis
    using rt_system_heap_init_ok [of "0x7ffd" "0x9003" "[104, 0]" demo_fresh demo, unfolded a] by auto
qed

end
