(* ===== verification/Mutex.thy ===== *)
theory Mutex
  imports IpcList Example
begin

text \<open>The mutexes of \<^verbatim>\<open>src/ipc.c\<close>: recursive, with priority inheritance by the owner.\<close>

section \<open>The operations\<close>

abbreviation mutex_obj :: "nat \<Rightarrow> obj_ptr" where "mutex_obj m \<equiv> Obj_mutex m"
abbreviation mutex_list :: "nat \<Rightarrow> node" where "mutex_list m \<equiv> Suspend_head (Obj_mutex m)"

abbreviation (input) RT_MUTEX_HOLD_MAX :: u8 where "RT_MUTEX_HOLD_MAX \<equiv> 0xff"
abbreviation (input) RT_MUTEX_VALUE_MAX :: u16 where "RT_MUTEX_VALUE_MAX \<equiv> 0xffff"

definition rt_mutex_init :: "nat \<Rightarrow> char_ptr \<Rightarrow> u8 \<Rightarrow> kernel \<Rightarrow> (err \<times> kernel) option" where
  "rt_mutex_init m nm fl k = do {
     k \<leftarrow> rt_object_init (mutex_obj m) RT_Object_Class_Mutex nm k;
     let k = rt_ipc_object_init (mutex_obj m) k;
     let k = upd_mutex m (\<lambda>mx. mx\<lparr>mutex_value := 1\<rparr>) k;
     let k = upd_mutex m (\<lambda>mx. mx\<lparr>owner := None\<rparr>) k;
     let k = upd_mutex m (\<lambda>mx. mx\<lparr>original_priority := 0xff\<rparr>) k;
     let k = upd_mutex m (\<lambda>mx. mx\<lparr>hold := 0\<rparr>) k;
     let k = upd_object (mutex_obj m) (\<lambda>ob. ob\<lparr>flag := fl\<rparr>) k;
     Some (RT_EOK, k)
   }"

definition rt_mutex_detach :: "nat \<Rightarrow> kernel \<Rightarrow> (err \<times> kernel) option" where
  "rt_mutex_detach m k = do {
     RT_ASSERT (rt_object_get_type (mutex_obj m) k = RT_Object_Class_Mutex);
     RT_ASSERT (rt_object_is_systemobject (mutex_obj m) k);
     (_, k) \<leftarrow> rt_ipc_list_resume_all (mutex_list m) k;
     Some (RT_EOK, rt_object_detach (mutex_obj m) k)
   }"

text \<open>\<^verbatim>\<open>rt_thread_control(t, RT_THREAD_CTRL_CHANGE_PRIORITY, &p)\<close>.\<close>

definition control_priority :: "tid \<Rightarrow> u8 \<Rightarrow> kernel \<Rightarrow> kernel option" where
  "control_priority t p k = do {
     RT_ASSERT (rt_object_get_type (Obj_thread t) k = RT_Object_Class_Thread);
     change_priority t p k
   }"

definition rt_mutex_take :: "nat \<Rightarrow> u32 \<Rightarrow> kernel \<Rightarrow> (tid outcome \<times> kernel) option" where
  "rt_mutex_take m time k = do {
     RT_ASSERT (rt_object_get_type (mutex_obj m) k = RT_Object_Class_Mutex);
     t \<leftarrow> rt_thread_self k;
     let k = upd_thread t (\<lambda>th. th\<lparr>error := RT_EOK\<rparr>) k;
     if owner (mutexes k m) = Some t then
       (if hold (mutexes k m) < RT_MUTEX_HOLD_MAX
        then Some (Done RT_EOK, upd_mutex m (\<lambda>mx. mx\<lparr>hold := hold mx + 1\<rparr>) k)
        else Some (Done (- RT_EFULL), k))
     else if mutex_value (mutexes k m) > 0 then do {
       let k = upd_mutex m (\<lambda>mx. mx\<lparr>mutex_value := mutex_value mx - 1\<rparr>) k;
       let k = upd_mutex m (\<lambda>mx. mx\<lparr>owner := Some t\<rparr>) k;
       let k = upd_mutex m (\<lambda>mx. mx\<lparr>original_priority := current_priority (threads k t)\<rparr>) k;
       if hold (mutexes k m) < RT_MUTEX_HOLD_MAX
       then Some (Done RT_EOK, upd_mutex m (\<lambda>mx. mx\<lparr>hold := hold mx + 1\<rparr>) k)
       else Some (Done (- RT_EFULL), k)
     }
     else if time = 0
     then Some (Done (- RT_ETIMEOUT), upd_thread t (\<lambda>th. th\<lparr>error := - RT_ETIMEOUT\<rparr>) k)
     else do {
       own \<leftarrow> owner (mutexes k m);
       k \<leftarrow> if current_priority (threads k t) < current_priority (threads k own)
            then control_priority own (current_priority (threads k t)) k
            else Some k;
       k \<leftarrow> ipc_wait (mutex_list m) t (flag (objects k (mutex_obj m))) time k;
       k \<leftarrow> rt_schedule k;
       Some (Blocked t, k)
     }
   }"

definition rt_mutex_take_wake :: "tid \<Rightarrow> kernel \<Rightarrow> err" where
  "rt_mutex_take_wake t k =
     (if error (threads k t) \<noteq> RT_EOK then error (threads k t) else RT_EOK)"

definition rt_mutex_release :: "nat \<Rightarrow> kernel \<Rightarrow> (err \<times> kernel) option" where
  "rt_mutex_release m k = do {
     RT_ASSERT (rt_object_get_type (mutex_obj m) k = RT_Object_Class_Mutex);
     t \<leftarrow> rt_thread_self k;
     if owner (mutexes k m) \<noteq> Some t
     then Some (- RT_ERROR, upd_thread t (\<lambda>th. th\<lparr>error := - RT_ERROR\<rparr>) k)
     else do {
       let k = upd_mutex m (\<lambda>mx. mx\<lparr>hold := hold mx - 1\<rparr>) k;
       if hold (mutexes k m) = 0 then do {
         k \<leftarrow> if original_priority (mutexes k m) \<noteq> current_priority (threads k t)
              then control_priority t (original_priority (mutexes k m)) k else Some k;
         if \<not> rt_list_isempty (mutex_list m) (lists k) then do {
           w \<leftarrow> thread_entry (nxt (lists k) (mutex_list m));
           let k = upd_mutex m (\<lambda>mx. mx\<lparr>owner := Some w\<rparr>) k;
           let k = upd_mutex m (\<lambda>mx. mx\<lparr>original_priority := current_priority (threads k w)\<rparr>) k;
           if hold (mutexes k m) < RT_MUTEX_HOLD_MAX then do {
             let k = upd_mutex m (\<lambda>mx. mx\<lparr>hold := hold mx + 1\<rparr>) k;
             (_, k) \<leftarrow> rt_ipc_list_resume (mutex_list m) k;
             k \<leftarrow> rt_schedule k;
             Some (RT_EOK, k)
           }
           else Some (- RT_EFULL, k)
         }
         else if mutex_value (mutexes k m) < RT_MUTEX_VALUE_MAX then do {
           let k = upd_mutex m (\<lambda>mx. mx\<lparr>mutex_value := mutex_value mx + 1\<rparr>) k;
           let k = upd_mutex m (\<lambda>mx. mx\<lparr>owner := None\<rparr>) k;
           Some (RT_EOK, upd_mutex m (\<lambda>mx. mx\<lparr>original_priority := 0xff\<rparr>) k)
         }
         else Some (- RT_EFULL, k)
       }
       else Some (RT_EOK, k)
     }
   }"

definition rt_mutex_control :: "nat \<Rightarrow> int \<Rightarrow> u32 \<Rightarrow> kernel \<Rightarrow> (err \<times> kernel) option" where
  "rt_mutex_control m cmd arg k = do {
     RT_ASSERT (rt_object_get_type (mutex_obj m) k = RT_Object_Class_Mutex);
     Some (- RT_ERROR, k)
   }"

section \<open>Changing a priority\<close>

lemma state_cases_live:
  assumes "kernel_ok L k" "thread_state k t = RT_THREAD_READY \<or> thread_state k t = RT_THREAD_SUSPEND"
  shows "rt_object_get_type (Obj_thread t) k = RT_Object_Class_Thread"
  using kernel_ok_live(1) [OF assms(1), of t] assms(2) by (auto simp: live_def)

lemma set_priority_frame [simp]:
  "events (set_priority t p k) = events k" "mailboxes (set_priority t p k) = mailboxes k"
  "mqs (set_priority t p k) = mqs k" "mem (set_priority t p k) = mem k"
  "rt_scheduler_lock_nest (set_priority t p k) = rt_scheduler_lock_nest k"
  "ipc_ok (set_priority t p k) ob = ipc_ok k ob" "ipc_flag (set_priority t p k) ob = ipc_flag k ob"
  by (simp_all add: set_priority_def)

lemma change_ready_frame [simp]:
  "mutexes (change_ready t p k) = mutexes k"
  "rt_current_thread (change_ready t p k) = rt_current_thread k"
  "rt_tick (change_ready t p k) = rt_tick k" "objects (change_ready t p k) = objects k"
  "rt_scheduler_lock_nest (change_ready t p k) = rt_scheduler_lock_nest k"
  "current_priority (threads (change_ready t p k) u) =
     (if u = t then p else current_priority (threads k u))"
  "error (threads (change_ready t p k) u) = error (threads k u)"
  "thread_state (change_ready t p k) u = (if u = t then RT_THREAD_READY else thread_state k u)"
  by (simp_all add: change_ready_def)

lemma ipc_ok_change_ready [simp]:
  "ipc_ok (change_ready t p k) ob = ipc_ok k ob" "ipc_flag (change_ready t p k) ob = ipc_flag k ob"
  by (simp_all add: ipc_ok_def live_def rt_object_get_type_def ipc_flag_def)

lemma cpu_ok_priority [simp]:
  "cpu_ok (change_ready t p k) = cpu_ok k" "cpu_ok (set_priority t p k) = cpu_ok k"
  by (rule cpu_ok_cong; simp add: change_ready_def set_priority_def insert_ready_def remove_ready_def)+

lemma cpu_ok_mutexes [simp]: "cpu_ok (mutexes_update f k) = cpu_ok k"
  by (rule cpu_ok_cong) simp_all

text \<open>Whatever the state of the thread, its priority is changed, and nothing else that a client can
  see.\<close>

lemma control_priority_ok:
  assumes ok: "kernel_ok L k"
    and t: "thread_state k t = RT_THREAD_READY \<or> thread_state k t = RT_THREAD_SUSPEND"
    and p: "unat p < RT_THREAD_PRIORITY_MAX"
  shows "\<exists>L' k'. control_priority t p k = Some k' \<and> kernel_ok L' k' \<and>
    (\<forall>x. wait_head x \<longrightarrow> waiting L' x = waiting L x) \<and> thread_state k' = thread_state k \<and>
    mutexes k' = mutexes k \<and> rt_current_thread k' = rt_current_thread k \<and>
    rt_scheduler_lock_nest k' = rt_scheduler_lock_nest k \<and> cpu_ok k' = cpu_ok k \<and>
    (\<forall>ob. ipc_ok k' ob = ipc_ok k ob) \<and> (\<forall>ob. ipc_flag k' ob = ipc_flag k ob) \<and>
    (\<forall>u. error (threads k' u) = error (threads k u)) \<and>
    (\<forall>u. current_priority (threads k' u) = (if u = t then p else current_priority (threads k u)))"
  using t
proof
  assume r: "thread_state k t = RT_THREAD_READY"
  have w: "waiting (change_ring t p L) x = waiting L x" if "wait_head x" for x
  proof -
    have "x \<noteq> Ready_head i" for i using that by auto
    moreover have "removeAll (Tlist t) (L x) = L x"
      by (rule without_waiting [OF ok _ that]) (use r in simp)
    ultimately show ?thesis by (simp add: waiting_def change_ring_def)
  qed
  show ?thesis
    by (intro exI [of _ "change_ring t p L"] exI [of _ "change_ready t p k"])
      (use change_priority_ready [OF ok r p] state_cases_live [OF ok t] w r in
        \<open>simp add: control_priority_def fun_eq_iff\<close>)
next
  assume s: "thread_state k t = RT_THREAD_SUSPEND"
  show ?thesis
    by (intro exI [of _ L] exI [of _ "set_priority t p k"])
      (use change_priority_suspended [OF ok s p] state_cases_live [OF ok t] in
        \<open>simp add: control_priority_def\<close>)
qed

section \<open>The contract of a mutex\<close>

text \<open>What a mutex is to its users: its owner, how often the owner holds it, and the waiting
  threads.\<close>

type_synonym mutex_view = "tid option \<times> nat \<times> tid list"

definition mutex_view :: "(node \<Rightarrow> node list) \<Rightarrow> kernel \<Rightarrow> nat \<Rightarrow> mutex_view" where
  "mutex_view L k m = (owner (mutexes k m), unat (hold (mutexes k m)), waiting L (mutex_list m))"

text \<open>A free mutex has value 1 and nobody waits for it; an owned one has value 0, is held at least
  once, its owner can run or waits for something else, and the owner's own priority is valid.\<close>

definition mutex_ok :: "(node \<Rightarrow> node list) \<Rightarrow> kernel \<Rightarrow> nat \<Rightarrow> bool" where
  "mutex_ok L k m \<longleftrightarrow> ipc_ok k (mutex_obj m) \<and>
     (case owner (mutexes k m) of
        None \<Rightarrow> mutex_value (mutexes k m) = 1 \<and> hold (mutexes k m) = 0 \<and> waiting L (mutex_list m) = []
      | Some t \<Rightarrow> mutex_value (mutexes k m) = 0 \<and> hold (mutexes k m) > 0 \<and>
          (thread_state k t = RT_THREAD_READY \<or> thread_state k t = RT_THREAD_SUSPEND) \<and>
          t \<notin> set (waiting L (mutex_list m)) \<and>
          unat (original_priority (mutexes k m)) < RT_THREAD_PRIORITY_MAX)"

lemma mutex_type: "mutex_ok L k m \<Longrightarrow> rt_object_get_type (mutex_obj m) k = RT_Object_Class_Mutex"
  by (simp add: mutex_ok_def ipc_ok_def live_def)

lemma mutex_ok_cong:
  assumes "mutex_ok L k m" "mutexes k' = mutexes k" "ipc_ok k' (mutex_obj m) = ipc_ok k (mutex_obj m)"
    "waiting L' (mutex_list m) = waiting L (mutex_list m)"
    "\<And>t. owner (mutexes k m) = Some t \<Longrightarrow> thread_state k t = RT_THREAD_READY \<or> thread_state k t = RT_THREAD_SUSPEND \<Longrightarrow>
      thread_state k' t = RT_THREAD_READY \<or> thread_state k' t = RT_THREAD_SUSPEND"
  shows "mutex_ok L' k' m"
  using assms unfolding mutex_ok_def by (auto split: option.splits)

fun mutex_take_spec :: "(tid list \<Rightarrow> tid list) \<Rightarrow> tid \<Rightarrow> bool \<Rightarrow> mutex_view \<Rightarrow> tid outcome \<times> mutex_view" where
  "mutex_take_spec join t wait (None, h, ws) = (Done RT_EOK, Some t, 1, ws)"
| "mutex_take_spec join t wait (Some u, h, ws) =
     (if u = t then (if h < 255 then (Done RT_EOK, Some t, Suc h, ws) else (Done (- RT_EFULL), Some t, h, ws))
      else if wait then (Blocked t, Some u, h, join ws)
      else (Done (- RT_ETIMEOUT), Some u, h, ws))"

fun mutex_release_spec :: "tid \<Rightarrow> mutex_view \<Rightarrow> err \<times> mutex_view" where
  "mutex_release_spec t (own, h, ws) =
     (if own \<noteq> Some t then (- RT_ERROR, own, h, ws)
      else if h > 1 then (RT_EOK, own, h - 1, ws)
      else case ws of [] \<Rightarrow> (RT_EOK, None, 0, []) | w # ws \<Rightarrow> (RT_EOK, Some w, 1, ws))"

lemma unat_u8_plus: "unat (x :: u8) < 255 \<Longrightarrow> unat (x + 1) = Suc (unat x)"
  by (simp add: unat_word_ariths)

text \<open>Taking a mutex that is free or one's own.\<close>

lemma mutex_take_free:
  assumes ok: "kernel_ok L k" and m: "mutex_ok L k m" "owner (mutexes k m) = None"
    and t: "rt_current_thread k = Some t" "thread_state k t = RT_THREAD_READY"
  shows "\<exists>k'. rt_mutex_take m time k = Some (Done RT_EOK, k') \<and> kernel_ok L k' \<and> mutex_ok L k' m \<and>
    mutex_view L k' m = (Some t, 1, []) \<and>
    original_priority (mutexes k' m) = current_priority (threads k t) \<and>
    (\<forall>u. current_priority (threads k' u) = current_priority (threads k u)) \<and>
    thread_state k' = thread_state k \<and> rt_current_thread k' = Some t"
proof -
  let ?k = "upd_thread t (\<lambda>th. th\<lparr>error := RT_EOK\<rparr>) k"
  define k' where "k' = upd_mutex m (\<lambda>mx. mx\<lparr>hold := hold mx + 1\<rparr>)
    (upd_mutex m (\<lambda>mx. mx\<lparr>original_priority := current_priority (threads k t)\<rparr>)
    (upd_mutex m (\<lambda>mx. mx\<lparr>owner := Some t\<rparr>) (upd_mutex m (\<lambda>mx. mx\<lparr>mutex_value := mutex_value mx - 1\<rparr>) ?k)))"
  have v: "mutex_value (mutexes k m) = 1" "hold (mutexes k m) = 0" "waiting L (mutex_list m) = []"
    using m by (simp_all add: mutex_ok_def)
  have p: "unat (current_priority (threads k t)) < RT_THREAD_PRIORITY_MAX"
    using kernel_ok_live(4) [OF ok, of t] t by (simp add: prio_ok_def)
  have "rt_mutex_take m time k = Some (Done RT_EOK, k')"
    using m v t by (simp add: rt_mutex_take_def mutex_type [OF m(1)] rt_thread_self_def Let_def k'_def)
  moreover have "kernel_ok L k'" using ok by (simp add: k'_def)
  moreover have "thread_state k' = thread_state k" by (simp add: k'_def thread_state_def fun_eq_iff)
  moreover have "mutex_ok L k' m"
    using m t v p calculation(3) by (simp add: mutex_ok_def) (simp add: k'_def)
  ultimately show ?thesis using v t by (auto simp: k'_def mutex_view_def)
qed

lemma mutex_take_again:
  assumes ok: "kernel_ok L k" and m: "mutex_ok L k m" "owner (mutexes k m) = Some t"
    and t: "rt_current_thread k = Some t"
  shows "\<exists>r k'. rt_mutex_take m time k = Some (Done r, k') \<and> kernel_ok L k' \<and> mutex_ok L k' m \<and>
    (r, mutex_view L k' m) = (if unat (hold (mutexes k m)) < 255
      then (RT_EOK, Some t, Suc (unat (hold (mutexes k m))), waiting L (mutex_list m))
      else (- RT_EFULL, mutex_view L k m)) \<and>
    (\<forall>u. current_priority (threads k' u) = current_priority (threads k u)) \<and>
    thread_state k' = thread_state k \<and>
    original_priority (mutexes k' m) = original_priority (mutexes k m)"
proof -
  let ?k = "upd_thread t (\<lambda>th. th\<lparr>error := RT_EOK\<rparr>) k"
  have lt: "hold (mutexes k m) < RT_MUTEX_HOLD_MAX \<longleftrightarrow> unat (hold (mutexes k m)) < 255"
    by (simp add: word_less_nat_alt)
  show ?thesis
  proof (cases "unat (hold (mutexes k m)) < 255")
    case True
    let ?k' = "upd_mutex m (\<lambda>mx. mx\<lparr>hold := hold mx + 1\<rparr>) ?k"
    have h: "unat (hold (mutexes k m) + 1) = Suc (unat (hold (mutexes k m)))"
      by (rule unat_u8_plus [OF True])
    then have h0: "hold (mutexes k m) + 1 > 0" by (simp add: word_gt_0_no [symmetric] word_less_nat_alt)
    have st: "thread_state ?k' = thread_state k" by (simp add: thread_state_def fun_eq_iff)
    have "rt_mutex_take m time k = Some (Done RT_EOK, ?k')"
      using m t True lt by (simp add: rt_mutex_take_def mutex_type [OF m(1)] rt_thread_self_def Let_def)
    moreover have "mutex_ok L ?k' m" using m h0 by (simp add: mutex_ok_def st)
    ultimately show ?thesis using ok m True h st
      by (intro exI [of _ RT_EOK] exI [of _ ?k']) (simp add: mutex_view_def)
  next
    case False
    have "rt_mutex_take m time k = Some (Done (- RT_EFULL), ?k)"
      using m t False lt by (simp add: rt_mutex_take_def mutex_type [OF m(1)] rt_thread_self_def Let_def)
    moreover have "mutex_ok L ?k m" by (rule mutex_ok_cong [OF m(1)]) simp_all
    ultimately show ?thesis using ok m False
      by (intro exI [of _ "- RT_EFULL"] exI [of _ ?k]) (simp add: mutex_view_def)
  qed
qed

text \<open>Taking a mutex another thread owns.\<close>

lemma mutex_take_no_wait:
  assumes ok: "kernel_ok L k" and m: "mutex_ok L k m" "owner (mutexes k m) = Some u" "u \<noteq> t"
    and t: "rt_current_thread k = Some t"
  shows "\<exists>k'. rt_mutex_take m 0 k = Some (Done (- RT_ETIMEOUT), k') \<and> kernel_ok L k' \<and>
    mutex_ok L k' m \<and> mutex_view L k' m = mutex_view L k m \<and>
    (\<forall>u. current_priority (threads k' u) = current_priority (threads k u)) \<and>
    thread_state k' = thread_state k \<and> mutexes k' = mutexes k"
proof -
  let ?k = "upd_thread t (\<lambda>th. th\<lparr>error := - RT_ETIMEOUT\<rparr>) (upd_thread t (\<lambda>th. th\<lparr>error := RT_EOK\<rparr>) k)"
  have v: "mutex_value (mutexes k m) = 0" using m by (simp add: mutex_ok_def)
  have "rt_mutex_take m 0 k = Some (Done (- RT_ETIMEOUT), ?k)"
    using m t v by (simp add: rt_mutex_take_def mutex_type [OF m(1)] rt_thread_self_def Let_def)
  moreover have "mutex_ok L ?k m"
    by (rule mutex_ok_cong [OF m(1)]) (auto simp: thread_state_def)
  moreover have "kernel_ok L ?k" using ok by (simp only: kernel_ok_error)
  moreover have "thread_state ?k = thread_state k" by (simp add: thread_state_def fun_eq_iff)
  ultimately show ?thesis by (intro exI [of _ ?k]) (simp add: mutex_view_def)
qed

lemma mutex_take_blocks:
  assumes ok: "kernel_ok L k" and m: "mutex_ok L k m" "owner (mutexes k m) = Some o'" "o' \<noteq> t"
    and t: "rt_current_thread k = Some t" "thread_state k t = RT_THREAD_READY"
    and idle: "thread_state k u = RT_THREAD_READY" "u \<noteq> t"
    and time: "time \<noteq> 0" "sint time > 0 \<Longrightarrow> time < HALF_TICK_MAX"
  shows "\<exists>L' k' k1. rt_mutex_take m time k = Some (Blocked t, k') \<and> kernel_ok L' k' \<and>
    mutex_ok L' k' m \<and> owner (mutexes k' m) = Some o' \<and> hold (mutexes k' m) = hold (mutexes k m) \<and>
    mutexes k' = mutexes k \<and>
    waiting L' (mutex_list m) = join_queue k1 (mutex_obj m) t (waiting L (mutex_list m)) \<and>
    ipc_flag k1 (mutex_obj m) = ipc_flag k (mutex_obj m) \<and>
    (\<forall>v. current_priority (threads k1 v) = (if v = o'
       then min (current_priority (threads k o')) (current_priority (threads k t))
       else current_priority (threads k v))) \<and>
    (\<forall>v. current_priority (threads k' v) = current_priority (threads k1 v)) \<and>
    (\<forall>v. thread_state k' v = (if v = t then RT_THREAD_SUSPEND else thread_state k v))"
proof -
  let ?k = "upd_thread t (\<lambda>th. th\<lparr>error := RT_EOK\<rparr>) k"
  let ?p = "current_priority (threads k t)"
  have ok': "kernel_ok L ?k" using ok by simp
  have v: "mutex_value (mutexes k m) = 0" using m by (simp add: mutex_ok_def)
  have so: "thread_state ?k o' = RT_THREAD_READY \<or> thread_state ?k o' = RT_THREAD_SUSPEND"
    using m by (auto simp: mutex_ok_def)
  have p: "unat ?p < RT_THREAD_PRIORITY_MAX"
    using kernel_ok_live(4) [OF ok, of t] t by (simp add: prio_ok_def)
  obtain L1 k1 where k1: "(if ?p < current_priority (threads k o') then control_priority o' ?p ?k else Some ?k) = Some k1"
    "kernel_ok L1 k1" "\<forall>x. wait_head x \<longrightarrow> waiting L1 x = waiting L x" "thread_state k1 = thread_state k"
    "mutexes k1 = mutexes k" "rt_current_thread k1 = Some t" "ipc_ok k1 (mutex_obj m) = ipc_ok k (mutex_obj m)"
    "ipc_flag k1 (mutex_obj m) = ipc_flag k (mutex_obj m)" "error (threads k1 t) = RT_EOK"
    "\<forall>v. current_priority (threads k1 v) = (if v = o' then min (current_priority (threads k o')) ?p
       else current_priority (threads k v))"
  proof (cases "?p < current_priority (threads k o')")
    case True
    from control_priority_ok [OF ok' so p] obtain L1 k1 where
      "control_priority o' ?p ?k = Some k1" "kernel_ok L1 k1"
      "\<forall>x. wait_head x \<longrightarrow> waiting L1 x = waiting L x" "thread_state k1 = thread_state ?k"
      "mutexes k1 = mutexes ?k" "rt_current_thread k1 = rt_current_thread ?k"
      "ipc_ok k1 (mutex_obj m) = ipc_ok ?k (mutex_obj m)"
      "ipc_flag k1 (mutex_obj m) = ipc_flag ?k (mutex_obj m)"
      "\<forall>u. error (threads k1 u) = error (threads ?k u)"
      "\<forall>u. current_priority (threads k1 u) = (if u = o' then ?p else current_priority (threads ?k u))"
      by blast
    moreover have "min (current_priority (threads k o')) ?p = ?p" using True by simp
    ultimately show ?thesis using True t by (intro that [of k1 L1]) simp_all
  next
    case False
    moreover have "min (current_priority (threads k o')) ?p = current_priority (threads k o')"
      using False by simp
    ultimately show ?thesis using ok' t by (intro that [of ?k L]) simp_all
  qed
  have fl: "ipc_flag k (mutex_obj m) = RT_IPC_FLAG_FIFO \<or> ipc_flag k (mutex_obj m) = RT_IPC_FLAG_PRIO"
    using m by (simp add: mutex_ok_def ipc_ok_def)
  have "block_call (mutex_list m) t (ipc_flag k (mutex_obj m)) time k1 =
      do { k \<leftarrow> ipc_wait (mutex_list m) t (flag (objects k1 (mutex_obj m))) time k1; rt_schedule k }"
    unfolding block_call_def Let_def clear_error_again [OF k1(9)] using k1(8) by (simp add: ipc_flag_def)
  moreover have "rt_mutex_take m time k =
      do { k \<leftarrow> (if ?p < current_priority (threads k o') then control_priority o' ?p ?k else Some ?k);
           k \<leftarrow> ipc_wait (mutex_list m) t (flag (objects k (mutex_obj m))) time k;
           k \<leftarrow> rt_schedule k; Some (Blocked t, k) }"
    using m t time v by (simp add: rt_mutex_take_def mutex_type [OF m(1)] rt_thread_self_def Let_def)
  ultimately have take: "rt_mutex_take m time k =
      do { k \<leftarrow> block_call (mutex_list m) t (ipc_flag k (mutex_obj m)) time k1; Some (Blocked t, k) }"
    unfolding k1(1) by simp
  have st: "thread_state k1 t = RT_THREAD_READY" "thread_state k1 u = RT_THREAD_READY"
    using k1(4) t idle by simp_all
  from block_call_ok [OF k1(2,6) st(1) wait_head_Suspend [of "mutex_obj m"] fl time(2) st(2) idle(2)]
  obtain L' k' where k': "block_call (mutex_list m) t (ipc_flag k (mutex_obj m)) time k1 = Some k'"
    "kernel_ok L' k'" "waiting L' (mutex_list m) = wait_before (ipc_flag k (mutex_obj m)) k1 t (waiting L1 (mutex_list m)) @
       t # wait_after (ipc_flag k (mutex_obj m)) k1 t (waiting L1 (mutex_list m))"
    "mutexes k' = mutexes k1" "ipc_ok k' (mutex_obj m) = ipc_ok k1 (mutex_obj m)"
    "\<forall>v. thread_state k' v = (if v = t then RT_THREAD_SUSPEND else thread_state k1 v)"
    "\<forall>v. current_priority (threads k' v) = current_priority (threads k1 v)"
    by blast
  have run: "rt_mutex_take m time k = Some (Blocked t, k')" using take k'(1) by simp
  have w: "waiting L1 (mutex_list m) = waiting L (mutex_list m)" using k1(3) by simp
  have "waiting L' (mutex_list m) = join_queue k1 (mutex_obj m) t (waiting L (mutex_list m))"
    using k'(3) k1(8) by (simp add: join_queue_def w)
  moreover have "mutex_ok L' k' m"
    using m k' k1 so w set_wait_before_after
    by (auto simp: mutex_ok_def)
  ultimately show ?thesis
    using run k' k1 m by (intro exI [of _ L'] exI [of _ k'] exI [of _ k1]) simp
qed

text \<open>Releasing.\<close>

lemma mutex_release_not_owner:
  assumes ok: "kernel_ok L k" and m: "mutex_ok L k m" "owner (mutexes k m) \<noteq> Some t"
    and t: "rt_current_thread k = Some t"
  shows "\<exists>k'. rt_mutex_release m k = Some (- RT_ERROR, k') \<and> kernel_ok L k' \<and> mutex_ok L k' m \<and>
    mutex_view L k' m = mutex_view L k m \<and> error (threads k' t) = - RT_ERROR \<and>
    (\<forall>v. current_priority (threads k' v) = current_priority (threads k v)) \<and>
    mutexes k' = mutexes k \<and> woke [] L k k'"
proof -
  let ?k = "upd_thread t (\<lambda>th. th\<lparr>error := - RT_ERROR\<rparr>) k"
  have "rt_mutex_release m k = Some (- RT_ERROR, ?k)"
    using m t by (simp add: rt_mutex_release_def mutex_type [OF m(1)] rt_thread_self_def)
  moreover have "mutex_ok L ?k m" by (rule mutex_ok_cong [OF m(1)]) simp_all
  ultimately show ?thesis using ok
    by (intro exI [of _ ?k]) (simp add: mutex_view_def woke_def thread_state_def cpu_ok_frame)
qed

lemma unat_hold_minus: "(x :: u8) > 0 \<Longrightarrow> unat (x - 1) = unat x - 1"
  by (rule unat_minus_one) auto

lemma mutex_release_nested:
  assumes ok: "kernel_ok L k" and m: "mutex_ok L k m" "owner (mutexes k m) = Some t"
    and h: "unat (hold (mutexes k m)) > 1" and t: "rt_current_thread k = Some t"
  shows "\<exists>k'. rt_mutex_release m k = Some (RT_EOK, k') \<and> kernel_ok L k' \<and> mutex_ok L k' m \<and>
    mutex_view L k' m = (Some t, unat (hold (mutexes k m)) - 1, waiting L (mutex_list m)) \<and>
    threads k' = threads k \<and> original_priority (mutexes k' m) = original_priority (mutexes k m) \<and>
    woke [] L k k'"
proof -
  let ?k = "upd_mutex m (\<lambda>mx. mx\<lparr>hold := hold mx - 1\<rparr>) k"
  have h0: "hold (mutexes k m) > 0" using m by (simp add: mutex_ok_def)
  have u: "unat (hold (mutexes k m) - 1) = unat (hold (mutexes k m)) - 1"
    by (rule unat_hold_minus [OF h0])
  then have n': "hold (mutexes k m) - 1 > 0" using h by (simp add: word_less_nat_alt)
  then have n: "hold (mutexes k m) - 1 \<noteq> 0" by auto
  have "rt_mutex_release m k = Some (RT_EOK, ?k)"
    using m t n by (simp add: rt_mutex_release_def mutex_type [OF m(1)] rt_thread_self_def Let_def)
  moreover have "mutex_ok L ?k m" using m n' by (simp add: mutex_ok_def thread_state_def)
  ultimately show ?thesis using ok m u
    by (intro exI [of _ ?k]) (simp add: mutex_view_def woke_def thread_state_def)
qed

text \<open>The last release: the owner gets its own priority back, and the first waiter, if any, becomes
  the owner.\<close>

lemma mutex_release_last:
  assumes ok: "kernel_ok L k" and m: "mutex_ok L k m" "owner (mutexes k m) = Some t"
    and h: "unat (hold (mutexes k m)) = 1"
    and t: "rt_current_thread k = Some t" "thread_state k t = RT_THREAD_READY"
  shows "\<exists>L' k'. rt_mutex_release m k = Some (RT_EOK, k') \<and> kernel_ok L' k' \<and> mutex_ok L' k' m \<and>
    mutex_view L' k' m = (case waiting L (mutex_list m) of [] \<Rightarrow> (None, 0, [])
      | w # ws \<Rightarrow> (Some w, 1, ws)) \<and>
    (\<forall>v. current_priority (threads k' v) =
      (if v = t then original_priority (mutexes k m) else current_priority (threads k v))) \<and>
    (\<forall>w ws. waiting L (mutex_list m) = w # ws \<longrightarrow>
       original_priority (mutexes k' m) = current_priority (threads k w)) \<and>
    woke (waiting L (mutex_list m)) L' k k'"
proof -
  let ?mx = "mutexes k m" and ?k = "upd_mutex m (\<lambda>mx. mx\<lparr>hold := hold mx - 1\<rparr>) k"
  have h0: "hold ?mx - 1 = 0" using unat_hold_minus [of "hold ?mx"] h by (auto simp: unat_eq_0 [symmetric] word_less_nat_alt)
  have v0: "mutex_value ?mx = 0" and p: "unat (original_priority ?mx) < RT_THREAD_PRIORITY_MAX"
    and nw: "t \<notin> set (waiting L (mutex_list m))" using m by (simp_all add: mutex_ok_def)
  have ok': "kernel_ok L ?k" and st: "thread_state ?k = thread_state k"
    using ok by (simp_all add: thread_state_def fun_eq_iff)
  have so: "thread_state ?k t = RT_THREAD_READY \<or> thread_state ?k t = RT_THREAD_SUSPEND"
    using t st by simp
  obtain L1 k1 where k1: "(if original_priority ?mx \<noteq> current_priority (threads k t)
        then control_priority t (original_priority ?mx) ?k else Some ?k) = Some k1"
    "kernel_ok L1 k1" "\<forall>x. wait_head x \<longrightarrow> waiting L1 x = waiting L x" "thread_state k1 = thread_state k"
    "mutexes k1 = mutexes ?k" "rt_current_thread k1 = Some t" "ipc_ok k1 (mutex_obj m) = ipc_ok k (mutex_obj m)"
    "rt_scheduler_lock_nest k1 = rt_scheduler_lock_nest k" "cpu_ok k1 = cpu_ok k"
    "\<forall>v. current_priority (threads k1 v) =
       (if v = t then original_priority ?mx else current_priority (threads k v))"
  proof (cases "original_priority ?mx = current_priority (threads k t)")
    case True
    then show ?thesis using ok' t st by (intro that [of ?k L]) simp_all
  next
    case False
    from control_priority_ok [OF ok' so p] obtain L1 k1 where
      "control_priority t (original_priority ?mx) ?k = Some k1" "kernel_ok L1 k1"
      "\<forall>x. wait_head x \<longrightarrow> waiting L1 x = waiting L x" "thread_state k1 = thread_state ?k"
      "mutexes k1 = mutexes ?k" "rt_current_thread k1 = rt_current_thread ?k"
      "ipc_ok k1 (mutex_obj m) = ipc_ok ?k (mutex_obj m)"
      "rt_scheduler_lock_nest k1 = rt_scheduler_lock_nest ?k" "cpu_ok k1 = cpu_ok ?k"
      "\<forall>u. current_priority (threads k1 u) = (if u = t then original_priority ?mx
         else current_priority (threads ?k u))"
      by blast
    then show ?thesis using False t st by (intro that [of k1 L1]) simp_all
  qed
  have w1: "waiting L1 (mutex_list m) = waiting L (mutex_list m)" using k1(3) by simp
  have e: "rt_list_isempty (mutex_list m) (lists k1) \<longleftrightarrow> waiting L (mutex_list m) = []"
    using waiting_empty [OF k1(2) wait_head_Suspend] w1 by simp
  have mx1: "hold (mutexes k1 m) = 0" "mutex_value (mutexes k1 m) = 0" using k1(5) h0 v0 by simp_all
  have rel: "rt_mutex_release m k = (if waiting L (mutex_list m) \<noteq> [] then do {
           w \<leftarrow> thread_entry (nxt (lists k1) (mutex_list m));
           let k = upd_mutex m (\<lambda>mx. mx\<lparr>owner := Some w\<rparr>) k1;
           let k = upd_mutex m (\<lambda>mx. mx\<lparr>original_priority := current_priority (threads k w)\<rparr>) k;
           let k = upd_mutex m (\<lambda>mx. mx\<lparr>hold := hold mx + 1\<rparr>) k;
           (_, k) \<leftarrow> rt_ipc_list_resume (mutex_list m) k;
           k \<leftarrow> rt_schedule k;
           Some (RT_EOK, k)
         } else do {
           let k = upd_mutex m (\<lambda>mx. mx\<lparr>mutex_value := mutex_value mx + 1\<rparr>) k1;
           let k = upd_mutex m (\<lambda>mx. mx\<lparr>owner := None\<rparr>) k;
           Some (RT_EOK, upd_mutex m (\<lambda>mx. mx\<lparr>original_priority := 0xff\<rparr>) k)
         })"
  proof -
    have "rt_mutex_release m k = do {
         k \<leftarrow> (if original_priority ?mx \<noteq> current_priority (threads k t)
              then control_priority t (original_priority ?mx) ?k else Some ?k);
         if \<not> rt_list_isempty (mutex_list m) (lists k) then do {
           w \<leftarrow> thread_entry (nxt (lists k) (mutex_list m));
           let k = upd_mutex m (\<lambda>mx. mx\<lparr>owner := Some w\<rparr>) k;
           let k = upd_mutex m (\<lambda>mx. mx\<lparr>original_priority := current_priority (threads k w)\<rparr>) k;
           if hold (mutexes k m) < RT_MUTEX_HOLD_MAX then do {
             let k = upd_mutex m (\<lambda>mx. mx\<lparr>hold := hold mx + 1\<rparr>) k;
             (_, k) \<leftarrow> rt_ipc_list_resume (mutex_list m) k;
             k \<leftarrow> rt_schedule k;
             Some (RT_EOK, k)
           }
           else Some (- RT_EFULL, k)
         }
         else if mutex_value (mutexes k m) < RT_MUTEX_VALUE_MAX then do {
           let k = upd_mutex m (\<lambda>mx. mx\<lparr>mutex_value := mutex_value mx + 1\<rparr>) k;
           let k = upd_mutex m (\<lambda>mx. mx\<lparr>owner := None\<rparr>) k;
           Some (RT_EOK, upd_mutex m (\<lambda>mx. mx\<lparr>original_priority := 0xff\<rparr>) k)
         }
         else Some (- RT_EFULL, k)
      }"
      using m t h0 by (simp add: rt_mutex_release_def mutex_type [OF m(1)] rt_thread_self_def Let_def)
    then show ?thesis unfolding k1(1) using e mx1 by (simp add: Let_def comp_assoc)
  qed
  show ?thesis
  proof (cases "waiting L (mutex_list m)")
    case Nil
    let ?k2 = "upd_mutex m (\<lambda>mx. mx\<lparr>original_priority := 0xff\<rparr>)
      (upd_mutex m (\<lambda>mx. mx\<lparr>owner := None\<rparr>) (upd_mutex m (\<lambda>mx. mx\<lparr>mutex_value := mutex_value mx + 1\<rparr>) k1))"
    have "mutex_ok L1 ?k2 m" using m k1(7) Nil mx1 w1 by (simp add: mutex_ok_def)
    moreover have "thread_state ?k2 = thread_state k" using k1(4) by (simp add: thread_state_def fun_eq_iff)
    ultimately show ?thesis using rel Nil k1 mx1 w1 t
      by (intro exI [of _ L1] exI [of _ ?k2]) (simp add: mutex_view_def woke_def)
  next
    case (Cons w ws)
    define k2 where "k2 = upd_mutex m (\<lambda>mx. mx\<lparr>hold := hold mx + 1\<rparr>)
      (upd_mutex m (\<lambda>mx. mx\<lparr>original_priority := current_priority (threads k1 w)\<rparr>)
      (upd_mutex m (\<lambda>mx. mx\<lparr>owner := Some w\<rparr>) k1))"
    have f2: "threads k2 = threads k1" "lists k2 = lists k1" "rt_current_thread k2 = Some t"
      "ipc_ok k2 (mutex_obj m) = ipc_ok k1 (mutex_obj m)" "thread_state k2 = thread_state k1"
      "rt_scheduler_lock_nest k2 = rt_scheduler_lock_nest k1" "cpu_ok k2 = cpu_ok k1"
      using k1(6) by (simp_all add: k2_def thread_state_def fun_eq_iff)
    have ok2: "kernel_ok L1 k2" using k1(2) by (simp add: k2_def)
    have w2: "waiting L1 (mutex_list m) = w # ws" using w1 Cons by simp
    have sw: "thread_state k1 w = RT_THREAD_SUSPEND"
      using list_resume_closed(3) [OF ok2 wait_head_Suspend w2] f2 by simp
    have first: "thread_entry (nxt (lists k1) (mutex_list m)) = Some w"
      using rings_first [OF kernel_okD(4) [OF k1(2)], of "mutex_list m"]
        waiting_map [OF k1(2) wait_head_Suspend [of "mutex_obj m"]] w2 by simp
    from wake_first [OF ok2 wait_head_Suspend [of "mutex_obj m"]] f2(3)
    obtain L' k' where k': "(if \<not> rt_list_isempty (mutex_list m) (lists k2)
        then do { (_, k) \<leftarrow> rt_ipc_list_resume (mutex_list m) k2; rt_schedule k } else Some k2) = Some k'"
      "kernel_ok L' k'" "waiting L' (mutex_list m) = ws" "mutexes k' = mutexes k2"
      "ipc_ok k' (mutex_obj m) = ipc_ok k2 (mutex_obj m)"
      "\<forall>v. current_priority (threads k' v) = current_priority (threads k2 v)"
      "\<forall>t. thread_state k' t = (if t = w then RT_THREAD_READY else thread_state k2 t)"
      "woke (w # ws) L' k2 k'"
      using w2 by auto
    have wk: "woke (w # ws) L' k k'"
      using k'(8) effect_cong(1) [of k2 k] f2 k1(4,6,8,9) t by simp
    have "w \<noteq> t" using nw Cons by auto
    then have og: "original_priority (mutexes k' m) = current_priority (threads k w)"
      using k'(4) k1(10) by (simp add: k2_def)
    have "rt_mutex_release m k = do {
        (_, k) \<leftarrow> rt_ipc_list_resume (mutex_list m) k2; k \<leftarrow> rt_schedule k; Some (RT_EOK, k) }"
      using rel Cons first unfolding k2_def by (simp add: Let_def comp_assoc)
    moreover have "do { (_, k) \<leftarrow> rt_ipc_list_resume (mutex_list m) k2; rt_schedule k } = Some k'"
      using k'(1) e f2(2) Cons by simp
    ultimately have run: "rt_mutex_release m k = Some (RT_EOK, k')" by (auto split: bind_splits)
    have pw: "unat (current_priority (threads k1 w)) < RT_THREAD_PRIORITY_MAX"
      using kernel_ok_live(4) [OF k1(2), of w] sw by (simp add: prio_ok_def)
    have "w \<notin> set ws" using waiting_distinct [OF ok2 wait_head_Suspend [of "mutex_obj m"]] w2 by simp
    then have "mutex_ok L' k' m"
      using k' f2 k1(7) m pw mx1 by (simp add: mutex_ok_def) (simp add: k2_def)
    moreover have "mutex_view L' k' m = (Some w, 1, ws)"
      using k'(3,4) mx1 by (simp add: mutex_view_def k2_def)
    ultimately show ?thesis using run k'(2,6) f2(1) k1(10) wk og Cons
      by (intro exI [of _ L'] exI [of _ k']) simp
  qed
qed

section \<open>Since when a thread has held a mutex\<close>

text \<open>\<open>held_since m t p k\<close>: in the state \<open>k\<close> the thread \<open>t\<close> has held the mutex \<open>m\<close> without
  interruption since it took it when free, or was handed it by the release of another thread, and its
  priority was \<open>p\<close> then.  Meanwhile it and other threads have called \<^verbatim>\<open>rt_mutex_take\<close> and
  \<^verbatim>\<open>rt_mutex_release\<close> on \<open>m\<close>, and anything else may have happened that leaves the data of \<open>m\<close>
  alone, changes of the priority of \<open>t\<close> included.\<close>

inductive held_since :: "nat \<Rightarrow> tid \<Rightarrow> u8 \<Rightarrow> kernel \<Rightarrow> bool" for m t p where
  took: "kernel_ok L k \<Longrightarrow> mutex_ok L k m \<Longrightarrow> owner (mutexes k m) = None \<Longrightarrow>
    rt_current_thread k = Some t \<Longrightarrow> thread_state k t = RT_THREAD_READY \<Longrightarrow>
    current_priority (threads k t) = p \<Longrightarrow> rt_mutex_take m time k = Some (r, k') \<Longrightarrow> held_since m t p k'"
| handed: "kernel_ok L k \<Longrightarrow> mutex_ok L k m \<Longrightarrow> owner (mutexes k m) = Some u \<Longrightarrow>
    unat (hold (mutexes k m)) = 1 \<Longrightarrow> waiting L (mutex_list m) = t # ws \<Longrightarrow>
    rt_current_thread k = Some u \<Longrightarrow> thread_state k u = RT_THREAD_READY \<Longrightarrow>
    current_priority (threads k t) = p \<Longrightarrow> rt_mutex_release m k = Some (e, k') \<Longrightarrow> held_since m t p k'"
| take: "held_since m t p k \<Longrightarrow> kernel_ok L k \<Longrightarrow> mutex_ok L k m \<Longrightarrow>
    rt_current_thread k = Some u \<Longrightarrow> thread_state k u = RT_THREAD_READY \<Longrightarrow>
    thread_state k v = RT_THREAD_READY \<Longrightarrow> v \<noteq> u \<Longrightarrow> (0 < sint time \<longrightarrow> time < HALF_TICK_MAX) \<Longrightarrow>
    rt_mutex_take m time k = Some (r, k') \<Longrightarrow> held_since m t p k'"
| release: "held_since m t p k \<Longrightarrow> kernel_ok L k \<Longrightarrow> mutex_ok L k m \<Longrightarrow>
    rt_current_thread k = Some u \<Longrightarrow> thread_state k u = RT_THREAD_READY \<Longrightarrow>
    u \<noteq> t \<or> unat (hold (mutexes k m)) \<noteq> 1 \<Longrightarrow> rt_mutex_release m k = Some (e, k') \<Longrightarrow> held_since m t p k'"
| other: "held_since m t p k \<Longrightarrow> mutexes k' m = mutexes k m \<Longrightarrow> held_since m t p k'"

lemma mutex_take_keeps_owner:
  assumes ok: "kernel_ok L k" and m: "mutex_ok L k m" "owner (mutexes k m) = Some o'"
    and t: "rt_current_thread k = Some u" "thread_state k u = RT_THREAD_READY"
    and idle: "thread_state k v = RT_THREAD_READY" "v \<noteq> u"
    and time: "0 < sint time \<Longrightarrow> time < HALF_TICK_MAX"
    and run: "rt_mutex_take m time k = Some (r, k')"
  shows "owner (mutexes k' m) = Some o' \<and> original_priority (mutexes k' m) = original_priority (mutexes k m)"
proof -
  consider "o' = u" | "o' \<noteq> u" "time = 0" | "o' \<noteq> u" "time \<noteq> 0" by blast
  then show ?thesis
  proof cases
    case 1
    then show ?thesis using mutex_take_again [OF ok m(1) _ t(1), of time] m run
      by (auto simp: mutex_view_def split: if_splits)
  next
    case 2
    then show ?thesis using mutex_take_no_wait [OF ok m 2(1) t(1)] m run by auto
  next
    case 3
    then show ?thesis using mutex_take_blocks [OF ok m 3(1) t idle 3(2) time] m run by auto
  qed
qed

text \<open>The mutex remembers that priority.\<close>

lemma held_since_recorded:
  assumes "held_since m t p k"
  shows "owner (mutexes k m) = Some t \<and> original_priority (mutexes k m) = p"
  using assms
proof (induction rule: held_since.induct)
  case (took L k time r k')
  then show ?case using mutex_take_free [OF took(1-5), of time] by (auto simp: mutex_view_def)
next
  case (handed L k u ws e k')
  then show ?case using mutex_release_last [OF handed(1-4,6,7)] by (auto simp: mutex_view_def)
next
  case (take k L u v time r k')
  then show ?case using mutex_take_keeps_owner [OF take(2,3) _ take(4-7) _ take(9)] by blast
next
  case (release k L u e k')
  have h: "hold (mutexes k m) > 0" using release by (auto simp: mutex_ok_def)
  show ?case
  proof (cases "u = t")
    case True
    then have "unat (hold (mutexes k m)) > 1" using release(6) h by (simp add: word_less_nat_alt)
    then show ?thesis using mutex_release_nested [OF release(2,3) _ _ release(4)] True release(7,8)
      by (fastforce simp: mutex_view_def)
  next
    case False
    then show ?thesis using mutex_release_not_owner [OF release(2,3) _ release(4)] release(7,8) by auto
  qed
qed simp

section \<open>Properties\<close>

text \<open>C7: \<open>rt_mutex_take\<close>, called by the running thread, always comes to a result and refines the
  abstract mutex: a free mutex gets the caller as its owner; the owner may take it again, up to
  255 times; another thread fails with a timeout or, with a waiting time, takes its place in the
  wait queue, and then the owner inherits the caller's priority if that is higher; no other
  priority changes.\<close>

theorem rt_mutex_take_refines:
  assumes ok: "kernel_ok L k" and m: "mutex_ok L k m"
    and t: "rt_current_thread k = Some t" "thread_state k t = RT_THREAD_READY"
    and idle: "thread_state k u = RT_THREAD_READY" "u \<noteq> t"
    and time: "sint time > 0 \<Longrightarrow> time < HALF_TICK_MAX"
  shows "\<exists>r L' k'. rt_mutex_take m time k = Some (r, k') \<and> kernel_ok L' k' \<and> mutex_ok L' k' m \<and>
    (r, mutex_view L' k' m) = mutex_take_spec (join_queue k (mutex_obj m) t) t (time \<noteq> 0) (mutex_view L k m) \<and>
    (\<forall>v. current_priority (threads k' v) =
      (if r = Blocked t \<and> owner (mutexes k m) = Some v
       then min (current_priority (threads k v)) (current_priority (threads k t))
       else current_priority (threads k v)))"
proof (cases "owner (mutexes k m)")
  case None
  have "hold (mutexes k m) = 0" "waiting L (mutex_list m) = []" using m None by (simp_all add: mutex_ok_def)
  then show ?thesis using mutex_take_free [OF ok m None t, of time] None
    by (fastforce simp: mutex_view_def)
next
  case (Some o')
  consider "o' = t" | "o' \<noteq> t" "time = 0" | "o' \<noteq> t" "time \<noteq> 0" by blast
  then show ?thesis
  proof cases
    case 1
    then obtain r k' where k': "rt_mutex_take m time k = Some (Done r, k')" "kernel_ok L k'" "mutex_ok L k' m"
      "(r, mutex_view L k' m) = (if unat (hold (mutexes k m)) < 255
        then (RT_EOK, Some t, Suc (unat (hold (mutexes k m))), waiting L (mutex_list m))
        else (- RT_EFULL, mutex_view L k m))"
      "\<forall>u. current_priority (threads k' u) = current_priority (threads k u)"
      using mutex_take_again [OF ok m _ t(1), of time] Some by blast
    then show ?thesis using Some 1
      by (intro exI [of _ "Done r"] exI [of _ L] exI [of _ k']) (auto simp: mutex_view_def)
  next
    case 2
    then show ?thesis using mutex_take_no_wait [OF ok m Some _ t(1)] Some
      by (fastforce simp: mutex_view_def)
  next
    case 3
    obtain L' k' k1 where k': "rt_mutex_take m time k = Some (Blocked t, k')" "kernel_ok L' k'"
      "mutex_ok L' k' m" "owner (mutexes k' m) = Some o'" "hold (mutexes k' m) = hold (mutexes k m)"
      "waiting L' (mutex_list m) = join_queue k1 (mutex_obj m) t (waiting L (mutex_list m))"
      "ipc_flag k1 (mutex_obj m) = ipc_flag k (mutex_obj m)"
      "\<forall>v. current_priority (threads k1 v) = (if v = o'
       then min (current_priority (threads k o')) (current_priority (threads k t))
       else current_priority (threads k v))"
      "\<forall>v. current_priority (threads k' v) = current_priority (threads k1 v)"
      using mutex_take_blocks [OF ok m Some 3(1) t idle 3(2) time] by blast
    have "join_queue k1 (mutex_obj m) t (waiting L (mutex_list m)) = join_queue k (mutex_obj m) t (waiting L (mutex_list m))"
      using k'(7,8) m Some 3(1) by (intro join_queue_cong) (auto simp: mutex_ok_def)
    then show ?thesis using k' Some 3
      by (intro exI [of _ "Blocked t"] exI [of _ L'] exI [of _ k']) (auto simp: mutex_view_def)
  qed
qed

lemma mutex_demo_ok [simp]: "mutex_ok demo_ring demo m"
  by (simp add: mutex_ok_def ipc_ok_def)

theorem rt_mutex_take_refines_witness:
  "\<exists>r L' k'. rt_mutex_take 1 7 demo = Some (r, k') \<and> kernel_ok L' k' \<and> mutex_ok L' k' 1 \<and>
    (r, mutex_view L' k' 1) = (Done RT_EOK, Some 2, 1, [])"
  using rt_mutex_take_refines [OF demo_ok mutex_demo_ok, of 2 0 7 1]
  by (simp add: mutex_view_def HALF_TICK_MAX_def) blast

text \<open>C8: \<open>rt_mutex_release\<close>, called by the running thread, always comes to a result and refines the
  abstract mutex: a thread that does not own the mutex gets \<open>-RT_ERROR\<close>; a nested release only
  counts down; the last one hands the mutex over to the first waiter, who, and no other thread,
  becomes ready and holds it once (then the highest ready thread is the running one, unless the
  scheduler is locked), or frees it, and gives the releasing thread the priority back that it had
  when it took the mutex or was handed it, whatever has raised it since then; no other priority
  changes.\<close>

theorem rt_mutex_release_refines:
  assumes ok: "kernel_ok L k" and m: "mutex_ok L k m"
    and t: "rt_current_thread k = Some t" "thread_state k t = RT_THREAD_READY"
  shows "\<exists>r L' k'. rt_mutex_release m k = Some (r, k') \<and> kernel_ok L' k' \<and> mutex_ok L' k' m \<and>
    (r, mutex_view L' k' m) = mutex_release_spec t (mutex_view L k m) \<and>
    (\<forall>v. current_priority (threads k' v) =
      (if v = t \<and> owner (mutexes k m) = Some t \<and> unat (hold (mutexes k m)) = 1
       then original_priority (mutexes k m) else current_priority (threads k v))) \<and>
    (\<forall>p. held_since m t p k \<longrightarrow> unat (hold (mutexes k m)) = 1 \<longrightarrow>
       current_priority (threads k' t) = p) \<and>
    woke (if owner (mutexes k m) = Some t \<and> unat (hold (mutexes k m)) = 1
      then waiting L (mutex_list m) else []) L' k k'"
proof (cases "owner (mutexes k m) = Some t")
  case False
  moreover have "\<not> held_since m t p k" for p using False held_since_recorded by blast
  ultimately show ?thesis using mutex_release_not_owner [OF ok m False t(1)]
    by (fastforce simp: mutex_view_def)
next
  case True
  have rec: "\<forall>p. held_since m t p k \<longrightarrow> p = original_priority (mutexes k m)"
    using held_since_recorded by blast
  have "0 < unat (hold (mutexes k m))" using m True by (simp add: mutex_ok_def word_less_nat_alt)
  then consider "unat (hold (mutexes k m)) > 1" | "unat (hold (mutexes k m)) = 1" by linarith
  then show ?thesis
  proof cases
    case 1
    then show ?thesis using mutex_release_nested [OF ok m True 1 t(1)] True
      by (fastforce simp: mutex_view_def)
  next
    case 2
    then show ?thesis using mutex_release_last [OF ok m True 2 t] True rec
      by (cases "waiting L (mutex_list m)") (fastforce simp: mutex_view_def)+
  qed
qed

theorem rt_mutex_release_refines_witness:
  "\<exists>k0 L' k'. rt_mutex_take 1 0 demo = Some (Done RT_EOK, k0) \<and>
    rt_mutex_release 1 k0 = Some (RT_EOK, k') \<and> kernel_ok L' k' \<and> mutex_view L' k' 1 = (None, 0, []) \<and>
    current_priority (threads k' 2) = current_priority (threads demo 2) \<and> rt_current_thread k' = Some 2"
proof -
  have "owner (mutexes demo 1) = None" by simp
  from mutex_take_free [OF demo_ok mutex_demo_ok this demo_facts(1,2), of 0]
  obtain k0 where k0: "rt_mutex_take 1 0 demo = Some (Done RT_EOK, k0)" "kernel_ok demo_ring k0"
    "mutex_ok demo_ring k0 1" "mutex_view demo_ring k0 1 = (Some 2, 1, [])"
    "thread_state k0 = thread_state demo" "rt_current_thread k0 = Some 2" by blast
  have since: "held_since 1 2 (current_priority (threads demo 2)) k0"
    by (rule held_since.took [OF demo_ok mutex_demo_ok _ demo_facts(1,2) _ k0(1)]) simp_all
  from rt_mutex_release_refines [OF k0(2,3,6)] k0(5)
  obtain r L' k' where k': "rt_mutex_release 1 k0 = Some (r, k')" "kernel_ok L' k'"
    "(r, mutex_view L' k' 1) = mutex_release_spec 2 (mutex_view demo_ring k0 1)"
    "\<forall>p. held_since 1 2 p k0 \<longrightarrow> unat (hold (mutexes k0 1)) = 1 \<longrightarrow> current_priority (threads k' 2) = p"
    "woke (if owner (mutexes k0 1) = Some 2 \<and> unat (hold (mutexes k0 1)) = 1
      then waiting demo_ring (mutex_list 1) else []) L' k0 k'"
    by auto
  have "unat (hold (mutexes k0 1)) = 1" "waiting demo_ring (mutex_list 1) = []"
    using k0(4) by (simp_all add: mutex_view_def)
  then show ?thesis using k0(1,4,6) k' since by (auto simp: woke_def)
qed

end
