(* ===== verification/Event.thy ===== *)
theory Event
  imports IpcList Example
begin

text \<open>The event sets of \<^verbatim>\<open>src/ipc.c\<close>.\<close>

section \<open>The operations\<close>

abbreviation event_obj :: "nat \<Rightarrow> obj_ptr" where "event_obj e \<equiv> Obj_event e"
abbreviation event_list :: "nat \<Rightarrow> node" where "event_list e \<equiv> Suspend_head (Obj_event e)"

abbreviation (input) RT_EVENT_FLAG_AND :: u8 where "RT_EVENT_FLAG_AND \<equiv> 1"
abbreviation (input) RT_EVENT_FLAG_OR :: u8 where "RT_EVENT_FLAG_OR \<equiv> 2"
abbreviation (input) RT_EVENT_FLAG_CLEAR :: u8 where "RT_EVENT_FLAG_CLEAR \<equiv> 4"

definition rt_event_init :: "nat \<Rightarrow> char_ptr \<Rightarrow> u8 \<Rightarrow> kernel \<Rightarrow> (err \<times> kernel) option" where
  "rt_event_init e nm fl k = do {
     k \<leftarrow> rt_object_init (event_obj e) RT_Object_Class_Event nm k;
     let k = upd_object (event_obj e) (\<lambda>ob. ob\<lparr>flag := fl\<rparr>) k;
     let k = rt_ipc_object_init (event_obj e) k;
     let k = upd_event e (\<lambda>ev. ev\<lparr>event_bits := 0\<rparr>) k;
     Some (RT_EOK, k)
   }"

definition rt_event_detach :: "nat \<Rightarrow> kernel \<Rightarrow> (err \<times> kernel) option" where
  "rt_event_detach e k = do {
     RT_ASSERT (rt_object_get_type (event_obj e) k = RT_Object_Class_Event);
     RT_ASSERT (rt_object_is_systemobject (event_obj e) k);
     (_, k) \<leftarrow> rt_ipc_list_resume_all (event_list e) k;
     Some (RT_EOK, rt_object_detach (event_obj e) k)
   }"

text \<open>What the body of the loop of \<^verbatim>\<open>rt_event_send\<close> does to a waiting thread: \<open>None\<close> when its
  options name neither AND nor OR, else whether it is satisfied.\<close>

definition event_match :: "nat \<Rightarrow> tid \<Rightarrow> kernel \<Rightarrow> (bool \<times> kernel) option" where
  "event_match e t k = (let th = threads k t; bits = event_bits (events k e)
   in if event_info th AND RT_EVENT_FLAG_AND \<noteq> 0
      then Some (event_set th AND bits = event_set th, k)
      else if event_info th AND RT_EVENT_FLAG_OR \<noteq> 0
      then (if event_set th AND bits \<noteq> 0
            then Some (True, upd_thread t (\<lambda>th. th\<lparr>event_set := event_set th AND bits\<rparr>) k)
            else Some (False, k))
      else None)"

text \<open>The loop; \<open>Inl\<close> is its return with an error, \<open>Inr\<close> the final \<^verbatim>\<open>need_schedule\<close>.\<close>

partial_function (option) event_send_loop ::
  "nat \<Rightarrow> node \<Rightarrow> bool \<Rightarrow> kernel \<Rightarrow> ((err + bool) \<times> kernel) option" where
  "event_send_loop e n need_schedule k =
     (if n \<noteq> event_list e then do {
        t \<leftarrow> thread_entry n;
        case event_match e t k of
          None \<Rightarrow> Some (Inl (- RT_EINVAL), k)
        | Some (satisfied, k) \<Rightarrow> do {
            let n = nxt (lists k) n;
            if satisfied then do {
              let k = (if event_info (threads k t) AND RT_EVENT_FLAG_CLEAR \<noteq> 0
                then upd_event e (\<lambda>ev. ev\<lparr>event_bits :=
                       event_bits ev AND NOT (event_set (threads k t))\<rparr>) k
                else k);
              (_, k) \<leftarrow> rt_thread_resume t k;
              event_send_loop e n True k
            }
            else event_send_loop e n need_schedule k
          }
      } else Some (Inr need_schedule, k))"

definition rt_event_send :: "nat \<Rightarrow> u32 \<Rightarrow> kernel \<Rightarrow> (err \<times> kernel) option" where
  "rt_event_send e st k = do {
     RT_ASSERT (rt_object_get_type (event_obj e) k = RT_Object_Class_Event);
     if st = 0 then Some (- RT_ERROR, k)
     else do {
       let k = upd_event e (\<lambda>ev. ev\<lparr>event_bits := event_bits ev OR st\<rparr>) k;
       (r, k) \<leftarrow> if \<not> rt_list_isempty (event_list e) (lists k)
                 then event_send_loop e (nxt (lists k) (event_list e)) False k
                 else Some (Inr False, k);
       case r of
         Inl err \<Rightarrow> Some (err, k)
       | Inr need_schedule \<Rightarrow> do {
           k \<leftarrow> if need_schedule then rt_schedule k else Some k;
           Some (RT_EOK, k)
         }
     }
   }"

text \<open>The second component of the result is what has been stored through \<^verbatim>\<open>recved\<close>.\<close>

definition rt_event_recv ::
  "nat \<Rightarrow> u32 \<Rightarrow> u8 \<Rightarrow> u32 \<Rightarrow> kernel \<Rightarrow> (tid outcome \<times> u32 option \<times> kernel) option" where
  "rt_event_recv e st option timeout k = do {
     RT_ASSERT (rt_object_get_type (event_obj e) k = RT_Object_Class_Event);
     if st = 0 then Some (Done (- RT_ERROR), None, k)
     else do {
       t \<leftarrow> rt_thread_self k;
       let k = upd_thread t (\<lambda>th. th\<lparr>error := RT_EOK\<rparr>) k;
       let bits = event_bits (events k e);
       RT_ASSERT (option AND RT_EVENT_FLAG_AND \<noteq> 0 \<or> option AND RT_EVENT_FLAG_OR \<noteq> 0);
       if (if option AND RT_EVENT_FLAG_AND \<noteq> 0 then bits AND st = st else bits AND st \<noteq> 0)
       then do {
         let k = upd_thread t (\<lambda>th. th\<lparr>event_set := bits AND st\<rparr>) k;
         let k = upd_thread t (\<lambda>th. th\<lparr>event_info := option\<rparr>) k;
         let k = (if option AND RT_EVENT_FLAG_CLEAR \<noteq> 0
           then upd_event e (\<lambda>ev. ev\<lparr>event_bits := event_bits ev AND NOT st\<rparr>) k else k);
         Some (Done (error (threads k t)), Some (bits AND st), k)
       }
       else if timeout = 0
       then Some (Done (- RT_ETIMEOUT), None,
              upd_thread t (\<lambda>th. th\<lparr>error := - RT_ETIMEOUT\<rparr>) k)
       else do {
         let k = upd_thread t (\<lambda>th. th\<lparr>event_set := st\<rparr>) k;
         let k = upd_thread t (\<lambda>th. th\<lparr>event_info := option\<rparr>) k;
         k \<leftarrow> ipc_wait (event_list e) t (flag (objects k (event_obj e))) timeout k;
         k \<leftarrow> rt_schedule k;
         Some (Blocked t, None, k)
       }
     }
   }"

definition rt_event_recv_wake :: "tid \<Rightarrow> kernel \<Rightarrow> err \<times> u32 option" where
  "rt_event_recv_wake t k =
     (if error (threads k t) \<noteq> RT_EOK then (error (threads k t), None)
      else (error (threads k t), Some (event_set (threads k t))))"

definition rt_event_control :: "nat \<Rightarrow> int \<Rightarrow> u32 \<Rightarrow> kernel \<Rightarrow> (err \<times> kernel) option" where
  "rt_event_control e cmd arg k = do {
     RT_ASSERT (rt_object_get_type (event_obj e) k = RT_Object_Class_Event);
     if cmd = RT_IPC_CMD_RESET then do {
       (_, k) \<leftarrow> rt_ipc_list_resume_all (event_list e) k;
       let k = upd_event e (\<lambda>ev. ev\<lparr>event_bits := 0\<rparr>) k;
       k \<leftarrow> rt_schedule k;
       Some (RT_EOK, k)
     }
     else Some (- RT_ERROR, k)
   }"

section \<open>Which waiting threads are satisfied\<close>

text \<open>What a thread with event set \<open>st\<close> and options \<open>info\<close> gets out of the pending events \<open>bits\<close>.\<close>

definition event_got :: "u32 \<Rightarrow> u8 \<Rightarrow> u32 \<Rightarrow> u32 option" where
  "event_got st info bits =
     (if info AND RT_EVENT_FLAG_AND \<noteq> 0 then (if st AND bits = st then Some st else None)
      else if st AND bits \<noteq> 0 then Some (st AND bits) else None)"

definition option_ok :: "u8 \<Rightarrow> bool" where
  "option_ok info \<longleftrightarrow> info AND RT_EVENT_FLAG_AND \<noteq> 0 \<or> info AND RT_EVENT_FLAG_OR \<noteq> 0"

definition clear_events :: "u8 \<Rightarrow> u32 \<Rightarrow> u32 \<Rightarrow> u32" where
  "clear_events info got bits = (if info AND RT_EVENT_FLAG_CLEAR \<noteq> 0 then bits AND NOT got else bits)"

text \<open>The waiting threads in order: those that are woken, with what each has got, and those that go
  on waiting.\<close>

fun event_scan :: "(tid \<Rightarrow> u32) \<Rightarrow> (tid \<Rightarrow> u8) \<Rightarrow> u32 \<Rightarrow> tid list \<Rightarrow> u32 \<times> (tid \<times> u32) list \<times> tid list" where
  "event_scan st info bits [] = (bits, [], [])"
| "event_scan st info bits (t # ts) = (case event_got (st t) (info t) bits of
     None \<Rightarrow> (case event_scan st info bits ts of (b, w, r) \<Rightarrow> (b, w, t # r))
   | Some got \<Rightarrow> (case event_scan st info (clear_events (info t) got bits) ts of
       (b, w, r) \<Rightarrow> (b, (t, got) # w, r)))"

lemma got_mono: "event_got st info bits = None \<Longrightarrow> event_got st info (bits AND x) = None"
proof -
  assume n: "event_got st info bits = None"
  have 1: "st AND bits AND x = st \<Longrightarrow> st AND bits = st"
    by (auto simp: bit_eq_iff bit_and_iff)
  have 2: "st AND bits = 0 \<Longrightarrow> st AND bits AND x = 0" by (auto simp: bit_eq_iff bit_and_iff)
  show ?thesis using n 1 2 by (auto simp: event_got_def and.assoc split: if_splits)
qed

lemma got_clear: "event_got st info bits = None \<Longrightarrow> event_got st info (clear_events i g bits) = None"
  by (simp add: clear_events_def got_mono)

lemma scan_unsatisfied:
  "event_scan st info bits ts = (b, w, r) \<Longrightarrow>
     (\<forall>s i. event_got s i bits = None \<longrightarrow> event_got s i b = None) \<and> (\<forall>t \<in> set r. event_got (st t) (info t) b = None) \<and>
     set r \<subseteq> set ts \<and> fst ` set w \<subseteq> set ts"
proof (induction st info bits ts arbitrary: b w r rule: event_scan.induct)
  case (2 st info bits t ts)
  show ?case
  proof (cases "event_got (st t) (info t) bits")
    case None
    then obtain r' where s: "event_scan st info bits ts = (b, w, r')" "r = t # r'"
      using "2.prems" by (auto split: prod.splits)
    then show ?thesis using "2.IH"(1) [OF None s(1)] None by auto
  next
    case (Some g)
    then obtain w' where s: "event_scan st info (clear_events (info t) g bits) ts = (b, w', r)" "w = (t, g) # w'"
      using "2.prems" by (auto split: prod.splits)
    then show ?thesis using "2.IH"(2) [OF Some s(1)] got_clear by auto
  qed
qed simp

lemma scan_disjoint:
  "event_scan st info bits ts = (b, w, r) \<Longrightarrow> distinct ts \<Longrightarrow> set r \<inter> fst ` set w = {}"
proof (induction st info bits ts arbitrary: b w r rule: event_scan.induct)
  case (2 st info bits t ts)
  show ?case
  proof (cases "event_got (st t) (info t) bits")
    case None
    then obtain r' where s: "event_scan st info bits ts = (b, w, r')" "r = t # r'"
      using "2.prems" by (auto split: prod.splits)
    then show ?thesis using "2.IH"(1) [OF None s(1)] scan_unsatisfied [OF s(1)] "2.prems"(2) by auto
  next
    case (Some g)
    then obtain w' where s: "event_scan st info (clear_events (info t) g bits) ts = (b, w', r)" "w = (t, g) # w'"
      using "2.prems" by (auto split: prod.splits)
    then show ?thesis using "2.IH"(2) [OF Some s(1)] scan_unsatisfied [OF s(1)] "2.prems"(2) by auto
  qed
qed simp

section \<open>The loop of rt_event_send\<close>

lemma upd_event_facts [simp]:
  "kernel_ok L (upd_thread t (\<lambda>th. th\<lparr>event_set := s\<rparr>) k) = kernel_ok L k"
  "kernel_ok L (upd_thread t (\<lambda>th. th\<lparr>event_info := i\<rparr>) k) = kernel_ok L k"
  "thread_state (upd_thread t (\<lambda>th. th\<lparr>event_set := s\<rparr>) k) = thread_state k"
  "thread_state (upd_thread t (\<lambda>th. th\<lparr>event_info := i\<rparr>) k) = thread_state k"
  "thread_state (events_update f k) = thread_state k"
  by (rule kernel_ok_cong; simp; fail)+ (simp_all add: thread_state_def fun_eq_iff)

lemma event_match_eq:
  assumes "option_ok (event_info (threads k t))"
  shows "event_match e t k = Some (case event_got (event_set (threads k t)) (event_info (threads k t)) (event_bits (events k e)) of
      None \<Rightarrow> (False, k)
    | Some g \<Rightarrow> (True, upd_thread t (\<lambda>th. th\<lparr>event_set := g\<rparr>) k))"
proof -
  have "(threads k)(t := (threads k t)\<lparr>event_set := event_set (threads k t)\<rparr>) = threads k" by simp
  then have same: "upd_thread t (\<lambda>th. th\<lparr>event_set := event_set (threads k t)\<rparr>) k = k" by simp
  show ?thesis
  proof (cases "event_info (threads k t) AND RT_EVENT_FLAG_AND = 0")
    case True
    have "(threads k)(t := (threads k t)\<lparr>event_set := event_set (threads k t) AND b\<rparr>) =
      (\<lambda>m. m(t := (m t)\<lparr>event_set := event_set (m t) AND b\<rparr>)) (threads k)" for b by simp
    then show ?thesis using assms True
      by (cases k) (simp add: event_match_def event_got_def option_ok_def Let_def)
  next
    case False
    then show ?thesis using same by (simp add: event_match_def event_got_def Let_def)
  qed
qed

lemma event_scan_cong:
  "(\<And>t. t \<in> set ts \<Longrightarrow> st t = st' t \<and> info t = info' t) \<Longrightarrow>
     event_scan st info bits ts = event_scan st' info' bits ts"
proof (induction ts arbitrary: bits)
  case (Cons t ts)
  then have "event_scan st info b ts = event_scan st' info' b ts" for b by simp
  then show ?case using Cons.prems [of t] by (simp split: option.splits)
qed simp

lemma next_waiting:
  assumes ok: "kernel_ok L k" and x: "wait_head x" and w: "waiting L x = pre @ t # us"
  shows "nxt (lists k) (Tlist t) = hd (map Tlist us @ [x])"
proof -
  have "dll (lists k) x (map Tlist pre @ Tlist t # map Tlist us)"
    using rings_dll [OF kernel_okD(4) [OF ok] wait_head_is_head [OF x]] waiting_map [OF ok x] w by simp
  then show ?thesis by (rule dll_next_mem)
qed

abbreviation sets_of :: "kernel \<Rightarrow> tid \<Rightarrow> u32" where "sets_of k t \<equiv> event_set (threads k t)"
abbreviation infos_of :: "kernel \<Rightarrow> tid \<Rightarrow> u8" where "infos_of k t \<equiv> event_info (threads k t)"

lemma event_send_loop_ok:
  assumes "kernel_ok L k" "waiting L (event_list e) = pre @ us"
    "\<And>t. t \<in> set us \<Longrightarrow> option_ok (infos_of k t)"
    "event_scan (sets_of k) (infos_of k) (event_bits (events k e)) us = (b, w, r)"
  shows "\<exists>L' k'. event_send_loop e (hd (map Tlist us @ [event_list e])) ns k = Some (Inr (ns \<or> w \<noteq> []), k') \<and>
    kernel_ok L' k' \<and> waiting L' (event_list e) = pre @ r \<and> event_bits (events k' e) = b \<and>
    rt_current_thread k' = rt_current_thread k \<and> ipc_ok k' (event_obj e) = ipc_ok k (event_obj e) \<and>
    (\<forall>v. thread_state k' v = (if v \<in> fst ` set w then RT_THREAD_READY else thread_state k v)) \<and>
    (\<forall>v. sets_of k' v = (case map_of w v of Some g \<Rightarrow> g | None \<Rightarrow> sets_of k v)) \<and>
    infos_of k' = infos_of k"
  using assms
proof (induction us arbitrary: L k pre b w r ns)
  case Nil
  then show ?case
    by (intro exI [of _ L] exI [of _ k]) (subst event_send_loop.simps, auto)
next
  case (Cons t us)
  let ?x = "event_list e" and ?bits = "event_bits (events k e)"
  note ok = Cons.prems(1)
  have n: "nxt (lists k) (Tlist t) = hd (map Tlist us @ [?x])"
    by (rule next_waiting [OF ok _ Cons.prems(2)]) simp
  have oi: "option_ok (infos_of k t)" using Cons.prems(3) by simp
  have d: "distinct (pre @ t # us)" using waiting_distinct [OF ok, of ?x] Cons.prems(2) by simp
  show ?case
  proof (cases "event_got (sets_of k t) (infos_of k t) ?bits")
    case None
    then obtain r' where s: "event_scan (sets_of k) (infos_of k) ?bits us = (b, w, r')" "r = t # r'"
      using Cons.prems(4) by (auto split: prod.splits)
    have "event_send_loop e (hd (map Tlist (t # us) @ [?x])) ns k =
        event_send_loop e (hd (map Tlist us @ [?x])) ns k"
      using n None by (subst event_send_loop.simps) (simp add: event_match_eq [OF oi])
    then show ?thesis
      using Cons.IH [OF ok, of "pre @ [t]" b w r' ns] Cons.prems(2,3) s by simp
  next
    case (Some g)
    define k2 where "k2 = (let k1 = upd_thread t (\<lambda>th. th\<lparr>event_set := g\<rparr>) k
      in if infos_of k1 t AND RT_EVENT_FLAG_CLEAR \<noteq> 0
         then upd_event e (\<lambda>ev. ev\<lparr>event_bits := event_bits ev AND NOT (sets_of k1 t)\<rparr>) k1 else k1)"
    let ?k3 = "resume_thread t k2"
    obtain w' where s: "event_scan (sets_of k) (infos_of k) (clear_events (infos_of k t) g ?bits) us = (b, w', r)"
      "w = (t, g) # w'"
      using Cons.prems(4) Some by (auto split: prod.splits)
    have ok2: "kernel_ok L k2" using ok by (simp add: k2_def Let_def)
    have f2: "thread_state k2 = thread_state k" "rt_current_thread k2 = rt_current_thread k"
      "ipc_ok k2 (event_obj e) = ipc_ok k (event_obj e)" "lists k2 = lists k"
      "event_bits (events k2 e) = clear_events (infos_of k t) g ?bits"
      "sets_of k2 v = (if v = t then g else sets_of k v)" "infos_of k2 v = infos_of k v" for v
      by (auto simp: k2_def Let_def clear_events_def)
    have st: "thread_state k t = RT_THREAD_SUSPEND"
      using kernel_ok_waiting [OF ok, of ?x "Tlist t"] waiting_map [OF ok, of ?x] Cons.prems(2) by auto
    then have st2: "thread_state k2 t = RT_THREAD_SUSPEND" by (simp add: f2)
    have wt: "waiting (resume_ring k2 t L) ?x = pre @ us"
      using waiting_resume [OF ok2, of ?x t] Cons.prems(2) d by (simp add: removeAll_split)
    have step: "event_send_loop e (hd (map Tlist (t # us) @ [?x])) ns k =
        event_send_loop e (hd (map Tlist us @ [?x])) True ?k3"
      using n Some rt_thread_resume_closed [OF ok2 st2]
      by (subst event_send_loop.simps) (simp add: event_match_eq [OF oi] k2_def Let_def)
    have "event_scan (sets_of ?k3) (infos_of ?k3) (event_bits (events ?k3 e)) us = (b, w', r)"
      using s(1) d by (subst event_scan_cong [where st' = "sets_of k" and info' = "infos_of k"])
        (auto simp: f2)
    moreover have "\<And>v. v \<in> set us \<Longrightarrow> option_ok (infos_of ?k3 v)"
      using Cons.prems(3) by (simp add: f2)
    ultimately obtain L' k' where k': "event_send_loop e (hd (map Tlist us @ [?x])) True ?k3 = Some (Inr True, k')"
      "kernel_ok L' k'" "waiting L' ?x = pre @ r" "event_bits (events k' e) = b"
      "rt_current_thread k' = rt_current_thread ?k3" "ipc_ok k' (event_obj e) = ipc_ok ?k3 (event_obj e)"
      "\<forall>v. thread_state k' v = (if v \<in> fst ` set w' then RT_THREAD_READY else thread_state ?k3 v)"
      "\<forall>v. sets_of k' v = (case map_of w' v of Some g \<Rightarrow> g | None \<Rightarrow> sets_of ?k3 v)"
      "infos_of k' = infos_of ?k3"
      using Cons.IH [OF kernel_ok_resume [OF ok2 st2] wt, of b w' r True] by auto
    have "t \<notin> fst ` set w'" using scan_unsatisfied [OF s(1)] d by auto
    then have "map_of w' t = None" by (simp add: map_of_eq_None_iff)
    then show ?thesis
      using step k' s(2) f2 by (intro exI [of _ L'] exI [of _ k']) (auto simp: fun_eq_iff split: option.splits)
  qed
qed

section \<open>The contract of an event set\<close>

text \<open>Every waiting thread has asked for AND or OR, and none of them is satisfied by the pending
  events: no wake-up has been lost.\<close>

definition event_ok :: "(node \<Rightarrow> node list) \<Rightarrow> kernel \<Rightarrow> nat \<Rightarrow> bool" where
  "event_ok L k e \<longleftrightarrow> ipc_ok k (event_obj e) \<and>
     (\<forall>t \<in> set (waiting L (event_list e)). option_ok (infos_of k t) \<and>
        event_got (sets_of k t) (infos_of k t) (event_bits (events k e)) = None)"

lemma event_type: "event_ok L k e \<Longrightarrow> rt_object_get_type (event_obj e) k = RT_Object_Class_Event"
  by (simp add: event_ok_def ipc_ok_def live_def)

lemma ready_next:
  assumes "kernel_ok L k" "thread_state k t = RT_THREAD_READY"
  shows "\<exists>p u. is_next_thread L p u"
proof (rule next_thread_exists [OF kernel_okD(1) [OF assms(1)]])
  show "L (Ready_head (prio k t)) \<noteq> []"
    using queue_ok_ready [OF kernel_okD(1) [OF assms(1)] _ assms(2)] by auto
qed

lemma event_send_ok:
  assumes ok: "kernel_ok L k" and e: "event_ok L k e" and c: "rt_current_thread k \<noteq> None"
    and st: "st \<noteq> 0"
    and scan: "event_scan (sets_of k) (infos_of k) (event_bits (events k e) OR st)
      (waiting L (event_list e)) = (b, w, r)"
  shows "\<exists>L' k'. rt_event_send e st k = Some (RT_EOK, k') \<and> kernel_ok L' k' \<and> event_ok L' k' e \<and>
    waiting L' (event_list e) = r \<and> event_bits (events k' e) = b \<and>
    (\<forall>v. thread_state k' v = (if v \<in> fst ` set w then RT_THREAD_READY else thread_state k v)) \<and>
    (\<forall>v. sets_of k' v = (case map_of w v of Some g \<Rightarrow> g | None \<Rightarrow> sets_of k v))"
proof -
  let ?x = "event_list e" and ?us = "waiting L (event_list e)"
  let ?k = "upd_event e (\<lambda>ev. ev\<lparr>event_bits := event_bits ev OR st\<rparr>) k"
  have ok': "kernel_ok L ?k" using ok by simp
  have same: "sets_of ?k = sets_of k" "infos_of ?k = infos_of k" "event_bits (events ?k e) = event_bits (events k e) OR st"
    by simp_all
  have oi: "option_ok (infos_of ?k t)" if "t \<in> set ?us" for t using e that by (simp add: event_ok_def)
  obtain L' k' where k': "event_send_loop e (hd (map Tlist ?us @ [?x])) False ?k = Some (Inr (w \<noteq> []), k')"
    "kernel_ok L' k'" "waiting L' ?x = r" "event_bits (events k' e) = b" "rt_current_thread k' = rt_current_thread k"
    "ipc_ok k' (event_obj e) = ipc_ok k (event_obj e)"
    "\<forall>v. thread_state k' v = (if v \<in> fst ` set w then RT_THREAD_READY else thread_state k v)"
    "\<forall>v. sets_of k' v = (case map_of w v of Some g \<Rightarrow> g | None \<Rightarrow> sets_of k v)"
    "infos_of k' = infos_of k"
  proof -
    have scan': "event_scan (sets_of ?k) (infos_of ?k) (event_bits (events ?k e)) ?us = (b, w, r)"
      using scan by simp
    have w0: "waiting L ?x = [] @ ?us" by simp
    obtain L' k' where "event_send_loop e (hd (map Tlist ?us @ [?x])) False ?k = Some (Inr (False \<or> w \<noteq> []), k')"
      "kernel_ok L' k'" "waiting L' ?x = [] @ r" "event_bits (events k' e) = b"
      "rt_current_thread k' = rt_current_thread ?k" "ipc_ok k' (event_obj e) = ipc_ok ?k (event_obj e)"
      "\<forall>v. thread_state k' v = (if v \<in> fst ` set w then RT_THREAD_READY else thread_state ?k v)"
      "\<forall>v. sets_of k' v = (case map_of w v of Some g \<Rightarrow> g | None \<Rightarrow> sets_of ?k v)"
      "infos_of k' = infos_of ?k"
      using event_send_loop_ok [OF ok' w0 oi scan', of False] by blast
    then show ?thesis by (intro that [of k' L']) (simp_all cong: option.case_cong)
  qed
  have first: "nxt (lists k) ?x = hd (map Tlist ?us @ [?x])"
    using dll_next [OF rings_dll [OF kernel_okD(4) [OF ok] wait_head_is_head [OF wait_head_Suspend]]]
    unfolding waiting_map [OF ok wait_head_Suspend, symmetric] .
  have emp: "rt_list_isempty ?x (lists k) \<longleftrightarrow> ?us = []" by (rule waiting_empty [OF ok]) simp
  have loop: "(if \<not> rt_list_isempty ?x (lists ?k) then event_send_loop e (nxt (lists ?k) ?x) False ?k
      else Some (Inr False, ?k)) = Some (Inr (w \<noteq> []), k')"
  proof (cases "?us = []")
    case True
    have "event_send_loop e ?x False ?k = Some (Inr False, ?k)"
      by (subst event_send_loop.simps) simp
    then have "Some (Inr False, ?k) = Some (Inr (w \<noteq> []), k')" using k'(1) True by simp
    moreover have "rt_list_isempty ?x (lists ?k)" using emp True by simp
    ultimately show ?thesis by (simp only: not_True_eq_False if_False)
  next
    case False
    then show ?thesis using k'(1) emp first by simp
  qed
  note un = scan_unsatisfied [OF scan]
  have "distinct ?us" by (rule waiting_distinct [OF ok]) simp
  have r: "t \<notin> fst ` set w" if "t \<in> set r" for t
    using un that scan_disjoint [OF scan \<open>distinct ?us\<close>] by blast
  have eok: "event_ok L' k' e"
    unfolding event_ok_def
  proof (intro conjI ballI)
    show "ipc_ok k' (event_obj e)" using e k'(6) by (simp add: event_ok_def)
    fix t assume t: "t \<in> set (waiting L' ?x)"
    then have tr: "t \<in> set r" using k'(3) by simp
    then have "map_of w t = None" using r by (simp add: map_of_eq_None_iff)
    then have s: "sets_of k' t = sets_of k t" using k'(8) by simp
    have i: "infos_of k' t = infos_of k t" using fun_cong [OF k'(9), of t] by simp
    show "option_ok (infos_of k' t)" using oi [of t] un tr by (auto simp: i)
    show "event_got (sets_of k' t) (infos_of k' t) (event_bits (events k' e)) = None"
      using un tr by (simp add: s i k'(4))
  qed
  show ?thesis
  proof (cases "w = []")
    case True
    have "rt_event_send e st k = Some (RT_EOK, k')"
      using loop st True by (simp add: rt_event_send_def event_type [OF e] Let_def)
    then show ?thesis using k' eok True by (intro exI [of _ L'] exI [of _ k']) simp
  next
    case False
    then obtain t g where "(t, g) \<in> set w" by (cases w) auto
    then have "thread_state k' t = RT_THREAD_READY" using k'(7) by force
    then obtain p u where nx: "is_next_thread L' p u" using ready_next [OF k'(2)] by blast
    have "rt_schedule k' = Some (switch_to p u k')"
      using c k'(5) by (intro rt_schedule_closed [OF kernel_okD(1) [OF k'(2)] nx]) simp
    then have "rt_event_send e st k = Some (RT_EOK, switch_to p u k')"
      using loop st False by (simp add: rt_event_send_def event_type [OF e] Let_def)
    moreover have "event_ok L' (switch_to p u k') e" using eok by (simp add: event_ok_def)
    ultimately show ?thesis using k' by (intro exI [of _ L'] exI [of _ "switch_to p u k'"]) simp
  qed
qed

text \<open>Receiving: what the caller gets at once.\<close>

definition recv_got :: "u32 \<Rightarrow> u8 \<Rightarrow> u32 \<Rightarrow> u32 option" where
  "recv_got st opt bits =
     (if (if opt AND RT_EVENT_FLAG_AND \<noteq> 0 then bits AND st = st else bits AND st \<noteq> 0)
      then Some (bits AND st) else None)"

lemma recv_got_event: "recv_got st opt bits = event_got st opt bits"
  by (auto simp: recv_got_def event_got_def and.commute)

lemma event_ok_fewer:
  assumes e: "event_ok L k e" and "ipc_ok k' (event_obj e) = ipc_ok k (event_obj e)"
    and "\<And>t. t \<in> set (waiting L (event_list e)) \<Longrightarrow> sets_of k' t = sets_of k t \<and> infos_of k' t = infos_of k t"
    and "event_bits (events k' e) = event_bits (events k e) AND x"
  shows "event_ok L k' e"
  using assms got_mono unfolding event_ok_def by auto

lemma running_not_waiting:
  assumes "kernel_ok L k" "thread_state k t = RT_THREAD_READY" "wait_head x"
  shows "t \<notin> set (waiting L x)"
proof
  assume "t \<in> set (waiting L x)"
  then have "Tlist t \<in> set (L x)" using waiting_map [OF assms(1,3)] by (metis image_eqI set_map)
  from kernel_ok_waiting [OF assms(1,3) this] assms(2) show False by auto
qed

lemma event_recv_now:
  assumes ok: "kernel_ok L k" and e: "event_ok L k e"
    and t: "rt_current_thread k = Some t" "thread_state k t = RT_THREAD_READY"
    and st: "st \<noteq> 0" "option_ok opt" and g: "event_got st opt (event_bits (events k e)) = Some g"
  shows "\<exists>k'. rt_event_recv e st opt timeout k = Some (Done RT_EOK, Some (event_bits (events k e) AND st), k') \<and>
    kernel_ok L k' \<and> event_ok L k' e \<and>
    event_bits (events k' e) = clear_events opt st (event_bits (events k e)) \<and> thread_state k' = thread_state k"
proof -
  let ?bits = "event_bits (events k e)"
  define k' where "k' = (let k = upd_thread t (\<lambda>th. th\<lparr>error := RT_EOK\<rparr>) k;
     k = upd_thread t (\<lambda>th. th\<lparr>event_set := ?bits AND st\<rparr>) k;
     k = upd_thread t (\<lambda>th. th\<lparr>event_info := opt\<rparr>) k
   in if opt AND RT_EVENT_FLAG_CLEAR \<noteq> 0
      then upd_event e (\<lambda>ev. ev\<lparr>event_bits := event_bits ev AND NOT st\<rparr>) k else k)"
  have cond: "if opt AND RT_EVENT_FLAG_AND \<noteq> 0 then ?bits AND st = st else ?bits AND st \<noteq> 0"
    using g unfolding recv_got_event [symmetric] by (simp add: recv_got_def split: if_splits)
  have "error (threads k' t) = RT_EOK" by (simp add: k'_def Let_def)
  then have run: "rt_event_recv e st opt timeout k = Some (Done RT_EOK, Some (?bits AND st), k')"
    using st t cond by (simp add: rt_event_recv_def event_type [OF e] rt_thread_self_def option_ok_def
        k'_def Let_def split: if_splits)
  have "kernel_ok L k'" using ok
    unfolding k'_def Let_def by (simp only: kernel_ok_error upd_event_facts kernel_ok_data split: if_splits) simp
  moreover have "thread_state k' = thread_state k" by (simp add: k'_def Let_def thread_state_def fun_eq_iff)
  moreover have "event_bits (events k' e) = clear_events opt st ?bits"
    by (simp add: k'_def Let_def clear_events_def)
  moreover have "event_ok L k' e"
  proof (rule event_ok_fewer [OF e])
    show "ipc_ok k' (event_obj e) = ipc_ok k (event_obj e)" by (simp add: k'_def Let_def)
    show "event_bits (events k' e) = ?bits AND (if opt AND RT_EVENT_FLAG_CLEAR \<noteq> 0 then NOT st else -1)"
      by (simp add: k'_def Let_def)
    fix v assume "v \<in> set (waiting L (event_list e))"
    then have "v \<noteq> t" using running_not_waiting [OF ok t(2), of "event_list e"] by auto
    then show "sets_of k' v = sets_of k v \<and> infos_of k' v = infos_of k v" by (simp add: k'_def Let_def)
  qed
  ultimately show ?thesis using run by blast
qed

lemma event_recv_no_wait:
  assumes ok: "kernel_ok L k" and e: "event_ok L k e"
    and t: "rt_current_thread k = Some t" "thread_state k t = RT_THREAD_READY"
    and st: "st \<noteq> 0" "option_ok opt" and g: "event_got st opt (event_bits (events k e)) = None"
  shows "\<exists>k'. rt_event_recv e st opt 0 k = Some (Done (- RT_ETIMEOUT), None, k') \<and>
    kernel_ok L k' \<and> event_ok L k' e \<and> event_bits (events k' e) = event_bits (events k e) \<and>
    thread_state k' = thread_state k"
proof -
  let ?k = "upd_thread t (\<lambda>th. th\<lparr>error := - RT_ETIMEOUT\<rparr>) (upd_thread t (\<lambda>th. th\<lparr>error := RT_EOK\<rparr>) k)"
  have cond: "opt AND RT_EVENT_FLAG_AND \<noteq> 0 \<longrightarrow> event_bits (events k e) AND st \<noteq> st"
    "opt AND RT_EVENT_FLAG_AND = 0 \<longrightarrow> event_bits (events k e) AND st = 0"
    using g unfolding recv_got_event [symmetric] by (simp_all add: recv_got_def split: if_splits)
  have "rt_event_recv e st opt 0 k = Some (Done (- RT_ETIMEOUT), None, ?k)"
    using st t cond by (simp add: rt_event_recv_def event_type [OF e] rt_thread_self_def option_ok_def Let_def)
  moreover have "kernel_ok L ?k" using ok by (simp only: kernel_ok_error)
  moreover have "event_ok L ?k e" by (rule event_ok_fewer [OF e, of _ "-1"]) simp_all
  moreover have "thread_state ?k = thread_state k" by (simp add: thread_state_def fun_eq_iff)
  ultimately show ?thesis by (intro exI [of _ ?k]) simp
qed

lemma event_recv_blocks:
  assumes ok: "kernel_ok L k" and e: "event_ok L k e"
    and t: "rt_current_thread k = Some t" "thread_state k t = RT_THREAD_READY"
    and idle: "thread_state k u = RT_THREAD_READY" "u \<noteq> t"
    and time: "timeout \<noteq> 0" "sint timeout > 0 \<Longrightarrow> timeout < HALF_TICK_MAX"
    and st: "st \<noteq> 0" "option_ok opt" and g: "event_got st opt (event_bits (events k e)) = None"
  shows "\<exists>L' k'. rt_event_recv e st opt timeout k = Some (Blocked t, None, k') \<and>
    kernel_ok L' k' \<and> event_ok L' k' e \<and> event_bits (events k' e) = event_bits (events k e) \<and>
    waiting L' (event_list e) = join_queue k (event_obj e) t (waiting L (event_list e)) \<and>
    sets_of k' t = st \<and> infos_of k' t = opt \<and> rt_current_thread k' \<noteq> None \<and>
    (\<forall>v. thread_state k' v = (if v = t then RT_THREAD_SUSPEND else thread_state k v))"
proof -
  let ?x = "event_list e" and ?fl = "ipc_flag k (event_obj e)"
  define k1 where "k1 = upd_thread t (\<lambda>th. th\<lparr>event_info := opt\<rparr>)
    (upd_thread t (\<lambda>th. th\<lparr>event_set := st\<rparr>) (upd_thread t (\<lambda>th. th\<lparr>error := RT_EOK\<rparr>) k))"
  have cond: "opt AND RT_EVENT_FLAG_AND \<noteq> 0 \<longrightarrow> event_bits (events k e) AND st \<noteq> st"
    "opt AND RT_EVENT_FLAG_AND = 0 \<longrightarrow> event_bits (events k e) AND st = 0"
    using g unfolding recv_got_event [symmetric] by (simp_all add: recv_got_def split: if_splits)
  have ok1: "kernel_ok L k1" using ok unfolding k1_def by (simp only: kernel_ok_error upd_event_facts)
  have f1: "thread_state k1 = thread_state k" "rt_current_thread k1 = Some t" "error (threads k1 t) = RT_EOK"
    "ipc_flag k1 (event_obj e) = ?fl" "events k1 = events k"
    using t by (simp_all add: k1_def thread_state_def fun_eq_iff)
  have f2: "ipc_ok k1 ob = ipc_ok k ob" "current_priority (threads k1 v) = current_priority (threads k v)"
    "sets_of k1 v = (if v = t then st else sets_of k v)"
    "infos_of k1 v = (if v = t then opt else infos_of k v)" for v ob by (auto simp: k1_def)
  have fl: "?fl = RT_IPC_FLAG_FIFO \<or> ?fl = RT_IPC_FLAG_PRIO" using e by (simp add: event_ok_def ipc_ok_def)
  have "block_call ?x t ?fl timeout k1 =
      do { k \<leftarrow> ipc_wait ?x t (flag (objects k1 (event_obj e))) timeout k1; rt_schedule k }"
    unfolding block_call_def Let_def clear_error_again [OF f1(3)] using f1(4) by (simp add: ipc_flag_def)
  moreover have "rt_event_recv e st opt timeout k =
      do { k \<leftarrow> ipc_wait ?x t (flag (objects k1 (event_obj e))) timeout k1; k \<leftarrow> rt_schedule k;
           Some (Blocked t, None, k) }"
    using st t cond time by (simp add: rt_event_recv_def event_type [OF e] rt_thread_self_def option_ok_def Let_def k1_def)
  ultimately have recv: "rt_event_recv e st opt timeout k =
      do { k \<leftarrow> block_call ?x t ?fl timeout k1; Some (Blocked t, None, k) }" by simp
  have s1: "thread_state k1 t = RT_THREAD_READY" "thread_state k1 u = RT_THREAD_READY" using t idle f1 by simp_all
  from block_call_ok [OF ok1 f1(2) s1(1) wait_head_Suspend [of "event_obj e"] fl time(2) s1(2) idle(2)]
  obtain L' k' where k': "block_call ?x t ?fl timeout k1 = Some k'" "kernel_ok L' k'"
    "waiting L' ?x = wait_before ?fl k1 t (waiting L ?x) @ t # wait_after ?fl k1 t (waiting L ?x)"
    "rt_current_thread k' \<noteq> None"
    "events k' = events k1" "ipc_ok k' (event_obj e) = ipc_ok k1 (event_obj e)"
    "\<forall>v. sets_of k' v = sets_of k1 v \<and> infos_of k' v = infos_of k1 v"
    "\<forall>v. thread_state k' v = (if v = t then RT_THREAD_SUSPEND else thread_state k1 v)"
    by blast
  have "waiting L' ?x = join_queue k1 (event_obj e) t (waiting L ?x)"
    using k'(3) f1(4) by (simp add: join_queue_def)
  also have "\<dots> = join_queue k (event_obj e) t (waiting L ?x)"
    using f1 f2 by (intro join_queue_cong) simp_all
  finally have w: "waiting L' ?x = join_queue k (event_obj e) t (waiting L ?x)" .
  have "event_ok L' k' e"
    unfolding event_ok_def
  proof (intro conjI ballI)
    show "ipc_ok k' (event_obj e)" using e k'(6) f2(1) by (simp add: event_ok_def)
    fix v assume "v \<in> set (waiting L' ?x)"
    then have "v = t \<or> v \<in> set (waiting L ?x)" unfolding w by simp
    then show "option_ok (infos_of k' v)"
      "event_got (sets_of k' v) (infos_of k' v) (event_bits (events k' e)) = None"
      using e st g k'(5,7) f1(5) by (auto simp: event_ok_def f2)
  qed
  then show ?thesis
    using recv k' w f1 f2 by (intro exI [of _ L'] exI [of _ k']) simp
qed

section \<open>Properties\<close>

text \<open>C9: \<open>rt_event_send\<close> always comes to a result and does what the scan of the waiting threads in
  order prescribes: each thread whose AND or OR condition holds at its turn is made ready and
  finds the events it has got in its event set, and with CLEAR these events are gone before the
  next thread is looked at; the others go on waiting.  Afterwards no waiting thread is satisfied
  by the pending events, so no wake-up is lost.\<close>

theorem rt_event_send_refines:
  assumes ok: "kernel_ok L k" and e: "event_ok L k e" and c: "rt_current_thread k \<noteq> None"
    and st: "st \<noteq> 0"
  shows "\<exists>L' k' w. rt_event_send e st k = Some (RT_EOK, k') \<and> kernel_ok L' k' \<and> event_ok L' k' e \<and>
    event_scan (sets_of k) (infos_of k) (event_bits (events k e) OR st) (waiting L (event_list e)) =
      (event_bits (events k' e), w, waiting L' (event_list e)) \<and>
    (\<forall>v. thread_state k' v = (if v \<in> fst ` set w then RT_THREAD_READY else thread_state k v)) \<and>
    (\<forall>v. sets_of k' v = (case map_of w v of Some g \<Rightarrow> g | None \<Rightarrow> sets_of k v))"
proof -
  obtain b w r where s: "event_scan (sets_of k) (infos_of k) (event_bits (events k e) OR st)
      (waiting L (event_list e)) = (b, w, r)" by (metis prod_cases3)
  from event_send_ok [OF ok e c st s] show ?thesis using s by blast
qed

lemma event_demo_ok [simp]: "event_ok demo_ring demo e"
  by (simp add: event_ok_def ipc_ok_def)

text \<open>Thread 2 of the example waits for both of two events.\<close>

theorem rt_event_send_refines_witness:
  "\<exists>k0 L' k'. rt_event_recv 0 3 1 0xffffffff demo = Some (Blocked 2, None, k0) \<and>
    rt_event_send 0 3 k0 = Some (RT_EOK, k') \<and> kernel_ok L' k' \<and> waiting L' (event_list 0) = [] \<and>
    thread_state k' 2 = RT_THREAD_READY \<and> sets_of k' 2 = 3"
proof -
  have "event_got 3 1 (event_bits (events demo 0)) = None" by (simp add: event_got_def)
  then obtain L0 k0 where k0: "rt_event_recv 0 3 1 0xffffffff demo = Some (Blocked 2, None, k0)"
    "kernel_ok L0 k0" "event_ok L0 k0 0" "event_bits (events k0 0) = 0"
    "waiting L0 (event_list 0) = [2]" "sets_of k0 2 = 3" "infos_of k0 2 = 1" "rt_current_thread k0 \<noteq> None"
    using event_recv_blocks [OF demo_ok event_demo_ok demo_facts(1,2,3), of "0xffffffff" 3 1 0]
    by (auto simp: option_ok_def join_queue_def wait_before_def wait_after_def)
  from rt_event_send_refines [OF k0(2,3,8), of 3]
  obtain L' k' w where k': "rt_event_send 0 3 k0 = Some (RT_EOK, k')" "kernel_ok L' k'"
    "event_scan (sets_of k0) (infos_of k0) 3 [2] = (event_bits (events k' 0), w, waiting L' (event_list 0))"
    "\<forall>v. thread_state k' v = (if v \<in> fst ` set w then RT_THREAD_READY else thread_state k0 v)"
    "\<forall>v. sets_of k' v = (case map_of w v of Some g \<Rightarrow> g | None \<Rightarrow> sets_of k0 v)"
    by (auto simp: k0)
  then have "w = [(2, 3)]" "waiting L' (event_list 0) = []"
    by (simp_all add: k0 event_got_def clear_events_def)
  then show ?thesis using k0(1) k' by (intro exI [of _ k0] exI [of _ L'] exI [of _ k']) simp
qed

text \<open>C10: \<open>rt_event_recv\<close>, called by the running thread with AND or OR, always comes to a result: if
  its condition holds it gets the requested events that are pending, and with CLEAR they are
  gone; otherwise it fails with a timeout, or takes its place among the waiting threads with its
  request recorded.\<close>

theorem rt_event_recv_refines:
  assumes ok: "kernel_ok L k" and e: "event_ok L k e"
    and t: "rt_current_thread k = Some t" "thread_state k t = RT_THREAD_READY"
    and idle: "thread_state k u = RT_THREAD_READY" "u \<noteq> t"
    and time: "sint timeout > 0 \<Longrightarrow> timeout < HALF_TICK_MAX"
    and st: "st \<noteq> 0" "option_ok opt"
  shows "\<exists>r got L' k'. rt_event_recv e st opt timeout k = Some (r, got, k') \<and> kernel_ok L' k' \<and>
    event_ok L' k' e \<and>
    (case event_got st opt (event_bits (events k e)) of
       Some g \<Rightarrow> r = Done RT_EOK \<and> got = Some (event_bits (events k e) AND st) \<and> L' = L \<and>
         event_bits (events k' e) = clear_events opt st (event_bits (events k e))
     | None \<Rightarrow> got = None \<and> event_bits (events k' e) = event_bits (events k e) \<and>
         (if timeout = 0 then r = Done (- RT_ETIMEOUT) \<and> L' = L
          else r = Blocked t \<and> sets_of k' t = st \<and> infos_of k' t = opt \<and>
            waiting L' (event_list e) = join_queue k (event_obj e) t (waiting L (event_list e))))"
proof (cases "event_got st opt (event_bits (events k e))")
  case (Some g)
  then show ?thesis using event_recv_now [OF ok e t st Some, of timeout] by auto
next
  case None
  show ?thesis
  proof (cases "timeout = 0")
    case True
    then show ?thesis using event_recv_no_wait [OF ok e t st None] None by auto
  next
    case False
    then show ?thesis using event_recv_blocks [OF ok e t idle False time st None] None by auto
  qed
qed

theorem rt_event_recv_refines_witness:
  "\<exists>r got L' k'. rt_event_recv 6 3 2 7 demo = Some (r, got, k') \<and> kernel_ok L' k' \<and>
    r = Done RT_EOK \<and> got = Some 2"
  using rt_event_recv_refines [OF demo_ok event_demo_ok demo_facts(1,2,3), of 7 3 2 6]
  by (auto simp: HALF_TICK_MAX_def option_ok_def event_got_def)

end
