(* ===== verification/Fifo.thy ===== *)
theory Fifo
  imports Main "HOL-Library.Monad_Syntax"
begin

text \<open>
  The contract of a bounded first-in first-out buffer, which mailboxes and message queues promise
  to the threads that communicate through them, and what follows from it for any sequence of
  attempts to put and get.  An operation yields \<open>None\<close> when the code has no defined result.
\<close>

datatype 'm request = Put 'm | Get

locale bounded_fifo =
  fixes inv :: "'s \<Rightarrow> bool"
    and contents :: "'s \<Rightarrow> 'm list"
    and capacity :: "'s \<Rightarrow> nat"
    and put :: "'m \<Rightarrow> 's \<Rightarrow> (bool \<times> 's) option"
    and get :: "'s \<Rightarrow> ('m option \<times> 's) option"
    and msg_ok :: "'m \<Rightarrow> bool"
  assumes bounded: "inv s \<Longrightarrow> length (contents s) \<le> capacity s"
    and put_law: "inv s \<Longrightarrow> msg_ok m \<Longrightarrow>
      \<exists>r s'. put m s = Some (r, s') \<and> inv s' \<and> capacity s' = capacity s \<and>
        (r \<longleftrightarrow> length (contents s) < capacity s) \<and>
        contents s' = contents s @ (if r then [m] else [])"
    and get_law: "inv s \<Longrightarrow>
      \<exists>r s'. get s = Some (r, s') \<and> inv s' \<and> capacity s' = capacity s \<and>
        contents s = (case r of None \<Rightarrow> [] | Some m \<Rightarrow> [m]) @ contents s' \<and>
        (r = None \<longleftrightarrow> contents s = [])"
begin

text \<open>\<open>run\<close> yields the messages that were accepted, those that were delivered, and the final
  state.\<close>

fun run :: "'m request list \<Rightarrow> 's \<Rightarrow> ('m list \<times> 'm list \<times> 's) option" where
  "run [] s = Some ([], [], s)"
| "run (Put m # rs) s = do {
     (r, s) \<leftarrow> put m s;
     (ins, outs, s) \<leftarrow> run rs s;
     Some (if r then m # ins else ins, outs, s)
   }"
| "run (Get # rs) s = do {
     (r, s) \<leftarrow> get s;
     (ins, outs, s) \<leftarrow> run rs s;
     Some (ins, case r of None \<Rightarrow> outs | Some m \<Rightarrow> m # outs, s)
   }"

text \<open>Whatever the sequence, every call returns, and what has been accepted comes out in order,
  none lost, duplicated or invented.\<close>

lemma run_fifo:
  assumes "inv s" "\<And>m. Put m \<in> set rs \<Longrightarrow> msg_ok m"
  shows "\<exists>ins outs s'. run rs s = Some (ins, outs, s') \<and> inv s' \<and> capacity s' = capacity s \<and>
    contents s @ ins = outs @ contents s'"
  using assms
proof (induction rs arbitrary: s)
  case (Cons req rs)
  show ?case
  proof (cases req)
    case (Put m)
    obtain r s1 where p: "put m s = Some (r, s1)" "inv s1" "capacity s1 = capacity s"
      "contents s1 = contents s @ (if r then [m] else [])"
      using put_law [OF Cons.prems(1), of m] Cons.prems(2) Put by auto
    obtain ins outs s' where "run rs s1 = Some (ins, outs, s')" "inv s'" "capacity s' = capacity s1"
      "contents s1 @ ins = outs @ contents s'"
      using Cons.IH [OF p(2)] Cons.prems(2) by auto
    then show ?thesis using Put p by (auto split: if_splits)
  next
    case Get
    obtain r s1 where g: "get s = Some (r, s1)" "inv s1" "capacity s1 = capacity s"
      "contents s = (case r of None \<Rightarrow> [] | Some m \<Rightarrow> [m]) @ contents s1"
      using get_law [OF Cons.prems(1)] by auto
    obtain ins outs s' where "run rs s1 = Some (ins, outs, s')" "inv s'" "capacity s' = capacity s1"
      "contents s1 @ ins = outs @ contents s'"
      using Cons.IH [OF g(2)] Cons.prems(2) by auto
    then show ?thesis using Get g by (auto split: option.splits)
  qed
qed simp

lemma run_from_empty:
  assumes "inv s" "contents s = []" "\<And>m. Put m \<in> set rs \<Longrightarrow> msg_ok m"
  shows "\<exists>ins outs s'. run rs s = Some (ins, outs, s') \<and> outs = take (length outs) ins \<and>
    contents s' = drop (length outs) ins"
  using run_fifo [OF assms(1,3)] assms(2) by (metis append_Nil append_eq_conv_conj)

text \<open>As many puts as there is room for all succeed, and as many gets return them.\<close>

lemma run_puts:
  assumes "inv s" "\<And>m. m \<in> set ms \<Longrightarrow> msg_ok m" "length (contents s) + length ms \<le> capacity s"
  shows "\<exists>s'. run (map Put ms) s = Some (ms, [], s') \<and> inv s' \<and> contents s' = contents s @ ms"
  using assms
proof (induction ms arbitrary: s)
  case (Cons m ms)
  obtain s1 where p: "put m s = Some (True, s1)" "inv s1" "capacity s1 = capacity s"
    "contents s1 = contents s @ [m]"
    using put_law [OF Cons.prems(1), of m] Cons.prems(2,3) by auto
  then show ?case using Cons.IH [OF p(2)] Cons.prems(2,3) by auto
qed simp

end

end
