(* ===== verification/Mailbox.thy ===== *)
theory Mailbox
  imports IpcList Example Fifo
begin

text \<open>The mailboxes of \<^verbatim>\<open>src/ipc.c\<close>: a ring buffer of words in memory.\<close>

section \<open>The operations\<close>

abbreviation mb_obj :: "nat \<Rightarrow> obj_ptr" where "mb_obj b \<equiv> Obj_mb b"
abbreviation mb_list :: "nat \<Rightarrow> node" where "mb_list b \<equiv> Suspend_head (Obj_mb b)"
abbreviation mb_senders :: "nat \<Rightarrow> node" where "mb_senders b \<equiv> Sender_head (Obj_mb b)"

abbreviation (input) RT_MB_ENTRY_MAX :: u16 where "RT_MB_ENTRY_MAX \<equiv> 0xffff"

definition rt_mb_init :: "nat \<Rightarrow> char_ptr \<Rightarrow> u32 \<Rightarrow> u32 \<Rightarrow> u8 \<Rightarrow> kernel \<Rightarrow> (err \<times> kernel) option" where
  "rt_mb_init b nm msgpool sz fl k = do {
     k \<leftarrow> rt_object_init (mb_obj b) RT_Object_Class_MailBox nm k;
     let k = upd_object (mb_obj b) (\<lambda>ob. ob\<lparr>flag := fl\<rparr>) k;
     let k = rt_ipc_object_init (mb_obj b) k;
     let k = upd_mailbox b (\<lambda>mb. mb\<lparr>msg_pool := msgpool\<rparr>) k;
     let k = upd_mailbox b (\<lambda>mb. mb\<lparr>mb_size := ucast sz\<rparr>) k;
     let k = upd_mailbox b (\<lambda>mb. mb\<lparr>mb_entry := 0\<rparr>) k;
     let k = upd_mailbox b (\<lambda>mb. mb\<lparr>in_offset := 0\<rparr>) k;
     let k = upd_mailbox b (\<lambda>mb. mb\<lparr>out_offset := 0\<rparr>) k;
     let k = upd_lists (rt_list_init (mb_senders b)) k;
     Some (RT_EOK, k)
   }"

definition rt_mb_detach :: "nat \<Rightarrow> kernel \<Rightarrow> (err \<times> kernel) option" where
  "rt_mb_detach b k = do {
     RT_ASSERT (rt_object_get_type (mb_obj b) k = RT_Object_Class_MailBox);
     RT_ASSERT (rt_object_is_systemobject (mb_obj b) k);
     (_, k) \<leftarrow> rt_ipc_list_resume_all (mb_list b) k;
     (_, k) \<leftarrow> rt_ipc_list_resume_all (mb_senders b) k;
     Some (RT_EOK, rt_object_detach (mb_obj b) k)
   }"

text \<open>Storing a message: the part of \<^verbatim>\<open>rt_mb_send_wait\<close> up to the new input offset.\<close>

definition mb_put :: "nat \<Rightarrow> u32 \<Rightarrow> kernel \<Rightarrow> kernel" where
  "mb_put b v k = (let
     mb = mailboxes k b;
     k = mem_update (store32 (msg_pool mb + 4 * ucast (in_offset mb)) v) k;
     k = upd_mailbox b (\<lambda>mb. mb\<lparr>in_offset := in_offset mb + 1\<rparr>) k
   in if in_offset (mailboxes k b) \<ge> mb_size (mailboxes k b)
      then upd_mailbox b (\<lambda>mb. mb\<lparr>in_offset := 0\<rparr>) k else k)"

text \<open>\<open>(thread, timeout, tick_delta)\<close>.\<close>

type_synonym mb_frame = "tid \<times> u32 \<times> u32"

text \<open>From the \<^verbatim>\<open>while\<close> loop of \<^verbatim>\<open>rt_mb_send_wait\<close> to its end: the loop body returns or blocks,
  so that its next iteration starts in \<open>rt_mb_send_wait_wake\<close>.\<close>

definition mb_send_loop ::
  "nat \<Rightarrow> tid option \<Rightarrow> u32 \<Rightarrow> u32 \<Rightarrow> kernel \<Rightarrow> (mb_frame outcome \<times> kernel) option" where
  "mb_send_loop b thread v timeout k =
     (if mb_entry (mailboxes k b) = mb_size (mailboxes k b) then do {
        t \<leftarrow> thread;
        let k = upd_thread t (\<lambda>th. th\<lparr>error := RT_EOK\<rparr>) k;
        if timeout = 0 then Some (Done (- RT_EFULL), k)
        else do {
          let tick_delta = rt_tick k;
          k \<leftarrow> ipc_wait (mb_senders b) t (flag (objects k (mb_obj b))) timeout k;
          k \<leftarrow> rt_schedule k;
          Some (Blocked (t, timeout, tick_delta), k)
        }
      } else do {
        let k = mb_put b v k;
        if mb_entry (mailboxes k b) < RT_MB_ENTRY_MAX then do {
          let k = upd_mailbox b (\<lambda>mb. mb\<lparr>mb_entry := mb_entry mb + 1\<rparr>) k;
          if \<not> rt_list_isempty (mb_list b) (lists k) then do {
            (_, k) \<leftarrow> rt_ipc_list_resume (mb_list b) k;
            k \<leftarrow> rt_schedule k;
            Some (Done RT_EOK, k)
          }
          else Some (Done RT_EOK, k)
        }
        else Some (Done (- RT_EFULL), k)
      })"

definition rt_mb_send_wait :: "nat \<Rightarrow> u32 \<Rightarrow> u32 \<Rightarrow> kernel \<Rightarrow> (mb_frame outcome \<times> kernel) option" where
  "rt_mb_send_wait b v timeout k = do {
     RT_ASSERT (rt_object_get_type (mb_obj b) k = RT_Object_Class_MailBox);
     if mb_entry (mailboxes k b) = mb_size (mailboxes k b) \<and> timeout = 0
     then Some (Done (- RT_EFULL), k)
     else mb_send_loop b (rt_thread_self k) v timeout k
   }"

definition rt_mb_send_wait_wake ::
  "nat \<Rightarrow> u32 \<Rightarrow> mb_frame \<Rightarrow> kernel \<Rightarrow> (mb_frame outcome \<times> kernel) option" where
  "rt_mb_send_wait_wake b v fr k = (case fr of (t, timeout, tick_delta) \<Rightarrow>
     if error (threads k t) \<noteq> RT_EOK then Some (Done (error (threads k t)), k)
     else mb_send_loop b (Some t) v (remaining_timeout timeout tick_delta k) k)"

definition rt_mb_send :: "nat \<Rightarrow> u32 \<Rightarrow> kernel \<Rightarrow> (mb_frame outcome \<times> kernel) option" where
  "rt_mb_send b v k = rt_mb_send_wait b v 0 k"

text \<open>Fetching a message: from \<^verbatim>\<open>fill ptr\<close> to the new output offset.\<close>

definition mb_get :: "nat \<Rightarrow> kernel \<Rightarrow> u32 \<times> kernel" where
  "mb_get b k = (let
     mb = mailboxes k b;
     v = load32 (mem k) (msg_pool mb + 4 * ucast (out_offset mb));
     k = upd_mailbox b (\<lambda>mb. mb\<lparr>out_offset := out_offset mb + 1\<rparr>) k
   in (v, if out_offset (mailboxes k b) \<ge> mb_size (mailboxes k b)
          then upd_mailbox b (\<lambda>mb. mb\<lparr>out_offset := 0\<rparr>) k else k))"

text \<open>The second component of the result is what has been stored through \<^verbatim>\<open>value\<close>.\<close>

definition mb_recv_loop ::
  "nat \<Rightarrow> tid option \<Rightarrow> u32 \<Rightarrow> kernel \<Rightarrow> (mb_frame outcome \<times> u32 option \<times> kernel) option" where
  "mb_recv_loop b thread timeout k =
     (if mb_entry (mailboxes k b) = 0 then do {
        t \<leftarrow> thread;
        let k = upd_thread t (\<lambda>th. th\<lparr>error := RT_EOK\<rparr>) k;
        if timeout = 0
        then Some (Done (- RT_ETIMEOUT), None,
               upd_thread t (\<lambda>th. th\<lparr>error := - RT_ETIMEOUT\<rparr>) k)
        else do {
          let tick_delta = rt_tick k;
          k \<leftarrow> ipc_wait (mb_list b) t (flag (objects k (mb_obj b))) timeout k;
          k \<leftarrow> rt_schedule k;
          Some (Blocked (t, timeout, tick_delta), None, k)
        }
      } else do {
        let (v, k) = mb_get b k;
        let k = (if mb_entry (mailboxes k b) > 0
          then upd_mailbox b (\<lambda>mb. mb\<lparr>mb_entry := mb_entry mb - 1\<rparr>) k else k);
        if \<not> rt_list_isempty (mb_senders b) (lists k) then do {
          (_, k) \<leftarrow> rt_ipc_list_resume (mb_senders b) k;
          k \<leftarrow> rt_schedule k;
          Some (Done RT_EOK, Some v, k)
        }
        else Some (Done RT_EOK, Some v, k)
      })"

definition rt_mb_recv ::
  "nat \<Rightarrow> u32 \<Rightarrow> kernel \<Rightarrow> (mb_frame outcome \<times> u32 option \<times> kernel) option" where
  "rt_mb_recv b timeout k = do {
     RT_ASSERT (rt_object_get_type (mb_obj b) k = RT_Object_Class_MailBox);
     if mb_entry (mailboxes k b) = 0 \<and> timeout = 0 then Some (Done (- RT_ETIMEOUT), None, k)
     else mb_recv_loop b (rt_thread_self k) timeout k
   }"

definition rt_mb_recv_wake ::
  "nat \<Rightarrow> mb_frame \<Rightarrow> kernel \<Rightarrow> (mb_frame outcome \<times> u32 option \<times> kernel) option" where
  "rt_mb_recv_wake b fr k = (case fr of (t, timeout, tick_delta) \<Rightarrow>
     if error (threads k t) \<noteq> RT_EOK then Some (Done (error (threads k t)), None, k)
     else mb_recv_loop b (Some t) (remaining_timeout timeout tick_delta k) k)"

definition rt_mb_control :: "nat \<Rightarrow> int \<Rightarrow> u32 \<Rightarrow> kernel \<Rightarrow> (err \<times> kernel) option" where
  "rt_mb_control b cmd arg k = do {
     RT_ASSERT (rt_object_get_type (mb_obj b) k = RT_Object_Class_MailBox);
     if cmd = RT_IPC_CMD_RESET then do {
       (_, k) \<leftarrow> rt_ipc_list_resume_all (mb_list b) k;
       (_, k) \<leftarrow> rt_ipc_list_resume_all (mb_senders b) k;
       let k = upd_mailbox b (\<lambda>mb. mb\<lparr>mb_entry := 0\<rparr>) k;
       let k = upd_mailbox b (\<lambda>mb. mb\<lparr>in_offset := 0\<rparr>) k;
       let k = upd_mailbox b (\<lambda>mb. mb\<lparr>out_offset := 0\<rparr>) k;
       k \<leftarrow> rt_schedule k;
       Some (RT_EOK, k)
     }
     else Some (- RT_ERROR, k)
   }"

section \<open>The ring buffer\<close>

definition mb_data_ok :: "nat \<Rightarrow> kernel \<Rightarrow> bool" where
  "mb_data_ok b k \<longleftrightarrow> (let mb = mailboxes k b in
     0 < mb_size mb \<and> mb_entry mb \<le> mb_size mb \<and> out_offset mb < mb_size mb \<and>
     unat (in_offset mb) = (unat (out_offset mb) + unat (mb_entry mb)) mod unat (mb_size mb))"

text \<open>The messages, oldest first.\<close>

definition mb_slot :: "rt_mailbox \<Rightarrow> nat \<Rightarrow> u32" where
  "mb_slot mb i = msg_pool mb + 4 * of_nat ((unat (out_offset mb) + i) mod unat (mb_size mb))"

definition mb_contents :: "nat \<Rightarrow> kernel \<Rightarrow> u32 list" where
  "mb_contents b k = map (\<lambda>i. load32 (mem k) (mb_slot (mailboxes k b) i))
     [0..<unat (mb_entry (mailboxes k b))]"

definition mb_capacity :: "nat \<Rightarrow> kernel \<Rightarrow> nat" where
  "mb_capacity b k = unat (mb_size (mailboxes k b))"

text \<open>A transfer, with the entry counter.\<close>

definition mb_store :: "nat \<Rightarrow> u32 \<Rightarrow> kernel \<Rightarrow> kernel" where
  "mb_store b v k = upd_mailbox b (\<lambda>mb. mb\<lparr>mb_entry := mb_entry mb + 1\<rparr>) (mb_put b v k)"

definition mb_fetch :: "nat \<Rightarrow> kernel \<Rightarrow> u32 \<times> kernel" where
  "mb_fetch b k = (case mb_get b k of (v, k) \<Rightarrow>
     (v, if mb_entry (mailboxes k b) > 0
         then upd_mailbox b (\<lambda>mb. mb\<lparr>mb_entry := mb_entry mb - 1\<rparr>) k else k))"

definition next_offset :: "u16 \<Rightarrow> u16 \<Rightarrow> u16" where
  "next_offset off sz = (if off + 1 \<ge> sz then 0 else off + 1)"

lemma unat_next_offset:
  assumes "off < sz" shows "unat (next_offset off sz) = (unat off + 1) mod unat sz"
proof -
  have "unat (off + 1) = unat off + 1"
    using assms unsigned_less [of sz, where 'a = nat]
    by (simp add: unat_word_ariths word_less_nat_alt)
  then show ?thesis
    using assms by (auto simp: next_offset_def word_le_nat_alt word_less_nat_alt le_mod_geq)
qed

lemma mb_store_closed:
  "mb_store b v k = k\<lparr>mem := store32 (msg_pool (mailboxes k b) + 4 * ucast (in_offset (mailboxes k b))) v (mem k),
     mailboxes := (mailboxes k)(b := (mailboxes k b)\<lparr>
       in_offset := next_offset (in_offset (mailboxes k b)) (mb_size (mailboxes k b)),
       mb_entry := mb_entry (mailboxes k b) + 1\<rparr>)\<rparr>"
  by (cases k) (simp add: mb_store_def mb_put_def Let_def next_offset_def)

lemma mb_fetch_closed:
  "mb_entry (mailboxes k b) > 0 \<Longrightarrow>
   mb_fetch b k = (load32 (mem k) (msg_pool (mailboxes k b) + 4 * ucast (out_offset (mailboxes k b))),
     k\<lparr>mailboxes := (mailboxes k)(b := (mailboxes k b)\<lparr>
       out_offset := next_offset (out_offset (mailboxes k b)) (mb_size (mailboxes k b)),
       mb_entry := mb_entry (mailboxes k b) - 1\<rparr>)\<rparr>)"
  by (cases k) (simp add: mb_fetch_def mb_get_def Let_def next_offset_def)

lemma length_mb_contents [simp]: "length (mb_contents b k) = unat (mb_entry (mailboxes k b))"
  by (simp add: mb_contents_def)

lemma mod_distinct:
  "i < j \<Longrightarrow> j < n \<Longrightarrow> (a + i) mod n \<noteq> (a + j) mod (n :: nat)"
  by (metis add.commute add_less_cancel_left mod_if mod_eq_dvd_iff_nat less_imp_le nat_dvd_not_less
      zero_less_diff diff_add_inverse2 less_or_eq_imp_le add_diff_cancel_left less_imp_diff_less)

lemma mb_store_laws:
  assumes ok: "mb_data_ok b k" and f: "length (mb_contents b k) < mb_capacity b k"
  shows "mb_data_ok b (mb_store b v k)" "mb_contents b (mb_store b v k) = mb_contents b k @ [v]"
    "mb_capacity b (mb_store b v k) = mb_capacity b k"
proof -
  let ?mb = "mailboxes k b" and ?k = "mb_store b v k"
  let ?n = "unat (mb_size ?mb)" and ?e = "unat (mb_entry ?mb)" and ?o = "unat (out_offset ?mb)"
  have n: "0 < ?n" "?n < 2 ^ 16" "?e < ?n" "?o < ?n" "unat (in_offset ?mb) = (?o + ?e) mod ?n"
    using ok f unsigned_less [of "mb_size ?mb", where 'a = nat]
    by (auto simp: mb_data_ok_def mb_capacity_def Let_def word_less_nat_alt)
  have e: "unat (mb_entry ?mb + 1) = ?e + 1" using n by (simp add: unat_word_ariths)
  have "in_offset ?mb < mb_size ?mb" using n by (simp add: word_less_nat_alt)
  note i = unat_next_offset [OF this]
  show "mb_capacity b ?k = mb_capacity b k" by (simp add: mb_capacity_def mb_store_closed)
  show "mb_data_ok b ?k"
    using n e i by (simp add: mb_data_ok_def mb_store_closed Let_def word_less_nat_alt word_le_nat_alt
        mod_Suc_eq)
  have slot: "msg_pool ?mb + 4 * ucast (in_offset ?mb) = mb_slot ?mb ?e"
    unfolding mb_slot_def n(5) [symmetric] by simp
  have "load32 (store32 (mb_slot ?mb ?e) v (mem k)) (mb_slot ?mb j) = load32 (mem k) (mb_slot ?mb j)"
    if "j < ?e" for j
    unfolding mb_slot_def using that n mod_distinct [of j ?e ?n ?o]
    by (intro load32_slot_other) (auto intro: less_trans [OF mod_less_divisor])
  then show "mb_contents b ?k = mb_contents b k @ [v]"
    by (simp add: mb_contents_def mb_store_closed slot e) (simp add: mb_slot_def [abs_def])
qed

lemma mb_fetch_laws:
  assumes ok: "mb_data_ok b k" and ne: "mb_contents b k \<noteq> []"
  shows "mb_data_ok b (snd (mb_fetch b k))"
    "mb_contents b k = fst (mb_fetch b k) # mb_contents b (snd (mb_fetch b k))"
    "mb_capacity b (snd (mb_fetch b k)) = mb_capacity b k"
proof -
  let ?mb = "mailboxes k b" and ?k = "snd (mb_fetch b k)"
  let ?n = "unat (mb_size ?mb)" and ?e = "unat (mb_entry ?mb)" and ?o = "unat (out_offset ?mb)"
  have e0: "0 < ?e" using ne unfolding length_greater_0_conv [symmetric] length_mb_contents .
  then have e1: "mb_entry ?mb > 0" by (simp add: word_less_nat_alt)
  have n: "0 < ?n" "?n < 2 ^ 16" "?e \<le> ?n" "?o < ?n" "unat (in_offset ?mb) = (?o + ?e) mod ?n"
    using ok unsigned_less [of "mb_size ?mb", where 'a = nat]
    by (auto simp: mb_data_ok_def Let_def word_less_nat_alt word_le_nat_alt)
  have e: "unat (mb_entry ?mb - 1) = ?e - 1" using e0 by (intro unat_minus_one) auto
  have "out_offset ?mb < mb_size ?mb" using n by (simp add: word_less_nat_alt)
  note i = unat_next_offset [OF this]
  show "mb_capacity b ?k = mb_capacity b k" by (simp add: mb_capacity_def mb_fetch_closed e1)
  have s: "(Suc ?o mod ?n + (?e - 1)) mod ?n = (?o + ?e) mod ?n"
    unfolding mod_add_left_eq using e0 by (intro arg_cong [where f = "\<lambda>x. x mod ?n"]) simp
  show "mb_data_ok b ?k"
    using n e i e0 s by (simp add: mb_data_ok_def mb_fetch_closed e1 Let_def word_less_nat_alt word_le_nat_alt)
  have slot: "mb_slot (mailboxes ?k b) j = mb_slot ?mb (Suc j)" for j
    using i by (simp add: mb_slot_def mb_fetch_closed e1 mod_add_left_eq)
  have "[0..<?e] = 0 # map Suc [0..<?e - 1]" using e0 by (simp add: map_Suc_upt upt_conv_Cons)
  moreover have "msg_pool ?mb + 4 * ucast (out_offset ?mb) = mb_slot ?mb 0"
    using n by (simp add: mb_slot_def)
  moreover have "mem ?k = mem k" "unat (mb_entry (mailboxes ?k b)) = ?e - 1"
    using e by (simp_all add: mb_fetch_closed e1)
  ultimately show "mb_contents b k = fst (mb_fetch b k) # mb_contents b ?k"
    using slot by (simp add: mb_contents_def comp_def) (simp add: mb_fetch_closed e1)
qed

section \<open>The mailbox in the kernel\<close>

definition mb_ok :: "kernel \<Rightarrow> nat \<Rightarrow> bool" where
  "mb_ok k b \<longleftrightarrow> ipc_ok k (mb_obj b) \<and> mb_data_ok b k"

lemma mb_type: "mb_ok k b \<Longrightarrow> rt_object_get_type (mb_obj b) k = RT_Object_Class_MailBox"
  by (simp add: mb_ok_def ipc_ok_def live_def)

text \<open>The data depend on the mailbox and the memory only.\<close>

lemma mb_data_cong:
  "mailboxes k' = mailboxes k \<Longrightarrow> mb_data_ok b k' = mb_data_ok b k"
  "mailboxes k' = mailboxes k \<Longrightarrow> mem k' = mem k \<Longrightarrow> mb_contents b k' = mb_contents b k"
  "mailboxes k' = mailboxes k \<Longrightarrow> mb_capacity b k' = mb_capacity b k"
  by (simp_all add: mb_data_ok_def mb_contents_def mb_capacity_def)

lemma mb_data_frame [simp]:
  "mb_data_ok b (switch_to p u k) = mb_data_ok b k" "mb_contents b (switch_to p u k) = mb_contents b k"
  "mb_data_ok b (resume_thread t k) = mb_data_ok b k" "mb_contents b (resume_thread t k) = mb_contents b k"
  "mb_data_ok b (threads_update g k) = mb_data_ok b k" "mb_contents b (threads_update g k) = mb_contents b k"
  "mb_data_ok b (block_thread x fl time t L k) = mb_data_ok b k"
  "mb_contents b (block_thread x fl time t L k) = mb_contents b k"
  by (rule mb_data_cong; simp)+

lemma mb_store_frame [simp]:
  "kernel_ok L (mb_store b v k) = kernel_ok L k" "lists (mb_store b v k) = lists k"
  "threads (mb_store b v k) = threads k" "rt_current_thread (mb_store b v k) = rt_current_thread k"
  "ipc_ok (mb_store b v k) ob = ipc_ok k ob" "thread_state (mb_store b v k) = thread_state k"
  by (auto simp: mb_store_closed fun_eq_iff thread_state_def)

lemma mb_fetch_frame [simp]:
  "kernel_ok L (snd (mb_fetch b k)) = kernel_ok L k" "lists (snd (mb_fetch b k)) = lists k"
  "threads (snd (mb_fetch b k)) = threads k"
  "rt_current_thread (snd (mb_fetch b k)) = rt_current_thread k"
  "ipc_ok (snd (mb_fetch b k)) ob = ipc_ok k ob" "thread_state (snd (mb_fetch b k)) = thread_state k"
  by (auto simp: mb_fetch_def mb_get_def Let_def fun_eq_iff thread_state_def)

text \<open>What a mailbox is to its users: the messages, the waiting receivers and the waiting senders.\<close>

definition mb_view :: "(node \<Rightarrow> node list) \<Rightarrow> kernel \<Rightarrow> nat \<Rightarrow> u32 buffer_view" where
  "mb_view L k b = (mb_contents b k, waiting L (mb_list b), waiting L (mb_senders b))"

lemma mb_full_iff:
  "mb_data_ok b k \<Longrightarrow> mb_entry (mailboxes k b) = mb_size (mailboxes k b) \<longleftrightarrow>
     \<not> length (mb_contents b k) < mb_capacity b k"
  by (auto simp: mb_capacity_def mb_data_ok_def Let_def word_le_nat_alt word_unat_eq_iff)

lemma mb_empty_iff: "mb_entry (mailboxes k b) = 0 \<longleftrightarrow> mb_contents b k = []"
proof -
  have "mb_contents b k = [] \<longleftrightarrow> length (mb_contents b k) = 0" by blast
  then show ?thesis by (simp add: unat_eq_0)
qed

lemma mb_transfer_effect:
  "woke ws L' (mb_store b v k) k' = woke ws L' k k'"
  "mb_entry (mailboxes k b) > 0 \<Longrightarrow> woke ws L' (snd (mb_fetch b k)) k' = woke ws L' k k'"
proof -
  show "woke ws L' (mb_store b v k) k' = woke ws L' k k'"
    by (intro effect_cong(1) cpu_ok_cong) (simp_all add: mb_store_closed thread_state_def fun_eq_iff)
  show "woke ws L' (snd (mb_fetch b k)) k' = woke ws L' k k'" if "mb_entry (mailboxes k b) > 0"
    by (intro effect_cong(1) cpu_ok_cong)
      (simp_all add: mb_fetch_closed [OF that] thread_state_def fun_eq_iff)
qed

lemma mb_send_transfer:
  assumes ok: "kernel_ok L k" and b: "mb_ok k b" and c: "rt_current_thread k \<noteq> None"
    and f: "length (mb_contents b k) < mb_capacity b k"
  shows "\<exists>L' k'. mb_send_loop b th v timeout k = Some (Done RT_EOK, k') \<and> kernel_ok L' k' \<and>
    mb_ok k' b \<and> mb_view L' k' b = (mb_contents b k @ [v], tl (waiting L (mb_list b)), waiting L (mb_senders b)) \<and>
    mb_capacity b k' = mb_capacity b k \<and> rt_current_thread k' \<noteq> None \<and>
    woke (waiting L (mb_list b)) L' k k'"
proof -
  have d: "mb_data_ok b k" using b by (simp add: mb_ok_def)
  note s = mb_store_laws [OF d f, of v]
  let ?k = "mb_store b v k"
  have "kernel_ok L ?k" "rt_current_thread ?k \<noteq> None" using ok c by simp_all
  from wake_first [OF this(1) wait_head_Suspend [of "mb_obj b"] this(2)]
  obtain L' k' where w: "(if \<not> rt_list_isempty (mb_list b) (lists ?k)
      then do { (_, k) \<leftarrow> rt_ipc_list_resume (mb_list b) ?k; rt_schedule k } else Some ?k) = Some k'"
    "kernel_ok L' k'" "waiting L' (mb_list b) = tl (waiting L (mb_list b))"
    "\<forall>y. wait_head y \<longrightarrow> y \<noteq> mb_list b \<longrightarrow> waiting L' y = waiting L y"
    "mailboxes k' = mailboxes ?k" "mem k' = mem ?k" "rt_current_thread k' \<noteq> None"
    "ipc_ok k' (mb_obj b) = ipc_ok ?k (mb_obj b)"
    "woke (waiting L (mb_list b)) L' ?k k'" by blast
  have n: "mb_entry (mailboxes k b) \<noteq> mb_size (mailboxes k b)" using mb_full_iff [OF d] f by simp
  have e: "mb_entry (mailboxes (mb_put b v k) b) = mb_entry (mailboxes k b)"
    "mb_entry (mailboxes k b) < RT_MB_ENTRY_MAX"
    using f unsigned_less [of "mb_size (mailboxes k b)", where 'a = nat]
    by (simp_all add: mb_put_def Let_def mb_capacity_def word_less_nat_alt)
  have run: "mb_send_loop b th v timeout k = Some (Done RT_EOK, k')"
    using w(1) n e by (simp add: mb_send_loop_def mb_store_def split: if_splits)
      (auto simp: Let_def split: if_splits bind_splits)
  show ?thesis
    by (intro exI conjI, rule run, rule w(2))
      (use w b s mb_data_cong [of k' ?k b] in \<open>simp_all add: mb_ok_def mb_view_def mb_transfer_effect\<close>)
qed

lemma mb_recv_transfer:
  assumes ok: "kernel_ok L k" and b: "mb_ok k b" and c: "rt_current_thread k \<noteq> None"
    and m: "mb_contents b k = m # ms"
  shows "\<exists>L' k'. mb_recv_loop b th timeout k = Some (Done RT_EOK, Some m, k') \<and> kernel_ok L' k' \<and>
    mb_ok k' b \<and> mb_view L' k' b = (ms, waiting L (mb_list b), tl (waiting L (mb_senders b))) \<and>
    mb_capacity b k' = mb_capacity b k \<and> rt_current_thread k' \<noteq> None \<and>
    woke (waiting L (mb_senders b)) L' k k'"
proof -
  have d: "mb_data_ok b k" using b by (simp add: mb_ok_def)
  have ne: "mb_contents b k \<noteq> []" using m by simp
  note s = mb_fetch_laws [OF d ne]
  obtain k1 where k1: "mb_fetch b k = (m, k1)" using s(2) m by (metis list.inject prod.collapse)
  have k1': "k1 = snd (mb_fetch b k)" using k1 by simp
  have "kernel_ok L k1" "rt_current_thread k1 \<noteq> None" using ok c by (simp_all add: k1')
  from wake_first [OF this(1) wait_head_Sender [of "mb_obj b"] this(2)]
  obtain L' k' where w: "(if \<not> rt_list_isempty (mb_senders b) (lists k1)
      then do { (_, k) \<leftarrow> rt_ipc_list_resume (mb_senders b) k1; rt_schedule k } else Some k1) = Some k'"
    "kernel_ok L' k'" "waiting L' (mb_senders b) = tl (waiting L (mb_senders b))"
    "\<forall>y. wait_head y \<longrightarrow> y \<noteq> mb_senders b \<longrightarrow> waiting L' y = waiting L y"
    "mailboxes k' = mailboxes k1" "mem k' = mem k1" "rt_current_thread k' \<noteq> None"
    "ipc_ok k' (mb_obj b) = ipc_ok k1 (mb_obj b)"
    "woke (waiting L (mb_senders b)) L' k1 k'" by blast
  have n: "mb_entry (mailboxes k b) \<noteq> 0" using ne by (simp add: mb_empty_iff)
  obtain k0 where g: "mb_get b k = (m, k0)"
    "k1 = (if mb_entry (mailboxes k0 b) > 0
         then upd_mailbox b (\<lambda>mb. mb\<lparr>mb_entry := mb_entry mb - 1\<rparr>) k0 else k0)"
    using k1 by (auto simp: mb_fetch_def split: prod.splits)
  have "mb_recv_loop b th timeout k =
      (if \<not> rt_list_isempty (mb_senders b) (lists k1) then do {
          (_, k) \<leftarrow> rt_ipc_list_resume (mb_senders b) k1;
          k \<leftarrow> rt_schedule k;
          Some (Done RT_EOK, Some m, k)
        }
        else Some (Done RT_EOK, Some m, k1))"
    using n unfolding mb_recv_loop_def g(1) Let_def prod.case g(2) [symmetric] by simp
  then have run: "mb_recv_loop b th timeout k = Some (Done RT_EOK, Some m, k')"
    using w(1) by (auto split: if_splits bind_splits)
  have ms: "mb_contents b k1 = ms" using s(2) m k1 by simp
  have wk: "woke (waiting L (mb_senders b)) L' k k'"
    using w(9) n mb_transfer_effect(2) [of k b] by (simp add: k1' word_gt_0)
  show ?thesis
    by (intro exI conjI, rule run, rule w(2))
      (use w(2-8) wk b s mb_data_cong [of k' k1 b] ms in \<open>simp_all add: mb_ok_def mb_view_def k1'\<close>)
qed




section \<open>A mailbox is a bounded buffer\<close>

text \<open>The non-blocking calls, with the outcome a client tests for.\<close>

definition mb_try_send :: "nat \<Rightarrow> u32 \<Rightarrow> kernel \<Rightarrow> (bool \<times> kernel) option" where
  "mb_try_send b v k = do {
     (r, k) \<leftarrow> rt_mb_send b v k;
     case r of Done e \<Rightarrow> Some (e = RT_EOK, k) | Blocked _ \<Rightarrow> None
   }"

definition mb_try_recv :: "nat \<Rightarrow> kernel \<Rightarrow> (u32 option \<times> kernel) option" where
  "mb_try_recv b k = do {
     (r, v, k) \<leftarrow> rt_mb_recv b 0 k;
     case r of Done _ \<Rightarrow> Some (v, k) | Blocked _ \<Rightarrow> None
   }"

definition mb_inv :: "nat \<Rightarrow> kernel \<Rightarrow> bool" where
  "mb_inv b k \<longleftrightarrow> (\<exists>L. kernel_ok L k) \<and> mb_ok k b \<and> rt_current_thread k \<noteq> None"

lemma mb_try_send_law:
  assumes "mb_inv b k"
  shows "\<exists>r k'. mb_try_send b v k = Some (r, k') \<and> mb_inv b k' \<and> mb_capacity b k' = mb_capacity b k \<and>
    (r \<longleftrightarrow> length (mb_contents b k) < mb_capacity b k) \<and>
    mb_contents b k' = mb_contents b k @ (if r then [v] else [])"
proof -
  obtain L where ok: "kernel_ok L k" and b: "mb_ok k b" and c: "rt_current_thread k \<noteq> None"
    using assms by (auto simp: mb_inv_def)
  have d: "mb_data_ok b k" using b by (simp add: mb_ok_def)
  show ?thesis
  proof (cases "length (mb_contents b k) < mb_capacity b k")
    case True
    obtain L' k' where k': "mb_send_loop b (rt_thread_self k) v 0 k = Some (Done RT_EOK, k')"
      "kernel_ok L' k'" "mb_ok k' b" "mb_contents b k' = mb_contents b k @ [v]"
      "mb_capacity b k' = mb_capacity b k" "rt_current_thread k' \<noteq> None"
      using mb_send_transfer [OF ok b c True, of "rt_thread_self k" v 0] by (auto simp: mb_view_def)
    then have "mb_try_send b v k = Some (True, k')"
      using True mb_full_iff [OF d] by (simp add: mb_try_send_def rt_mb_send_def rt_mb_send_wait_def mb_type [OF b])
    then show ?thesis using True k' by (auto simp: mb_inv_def)
  next
    case False
    then have "mb_try_send b v k = Some (False, k)"
      using mb_full_iff [OF d] by (simp add: mb_try_send_def rt_mb_send_def rt_mb_send_wait_def mb_type [OF b])
    then show ?thesis using False assms by (intro exI [of _ False] exI [of _ k]) simp
  qed
qed

lemma mb_try_recv_law:
  assumes "mb_inv b k"
  shows "\<exists>r k'. mb_try_recv b k = Some (r, k') \<and> mb_inv b k' \<and> mb_capacity b k' = mb_capacity b k \<and>
    mb_contents b k = (case r of None \<Rightarrow> [] | Some m \<Rightarrow> [m]) @ mb_contents b k' \<and>
    (r = None \<longleftrightarrow> mb_contents b k = [])"
proof -
  obtain L where ok: "kernel_ok L k" and b: "mb_ok k b" and c: "rt_current_thread k \<noteq> None"
    using assms by (auto simp: mb_inv_def)
  show ?thesis
  proof (cases "mb_contents b k")
    case Nil
    then have "mb_try_recv b k = Some (None, k)"
      by (simp add: mb_try_recv_def rt_mb_recv_def mb_type [OF b] mb_empty_iff)
    then show ?thesis using Nil assms by simp
  next
    case (Cons m ms)
    obtain L' k' where k': "mb_recv_loop b (rt_thread_self k) 0 k = Some (Done RT_EOK, Some m, k')"
      "kernel_ok L' k'" "mb_ok k' b" "mb_contents b k' = ms"
      "mb_capacity b k' = mb_capacity b k" "rt_current_thread k' \<noteq> None"
      using mb_recv_transfer [OF ok b c Cons, of "rt_thread_self k" 0] by (auto simp: mb_view_def)
    then have "mb_try_recv b k = Some (Some m, k')"
      using Cons by (simp add: mb_try_recv_def rt_mb_recv_def mb_type [OF b] mb_empty_iff)
    then show ?thesis using Cons k' by (auto simp: mb_inv_def)
  qed
qed

interpretation mailbox: bounded_fifo "mb_inv b" "mb_contents b" "mb_capacity b" "mb_try_send b"
  "mb_try_recv b" "\<lambda>_. True" for b
proof
  show "mb_inv b k \<Longrightarrow> length (mb_contents b k) \<le> mb_capacity b k" for k
    by (simp add: mb_inv_def mb_ok_def mb_data_ok_def mb_capacity_def Let_def word_le_nat_alt)
qed (use mb_try_send_law mb_try_recv_law in blast)+

section \<open>Properties\<close>


lemma mb_demo_ok [simp]:
  "mb_ok demo b" "mb_inv b demo" "mb_contents b demo = []" "mb_capacity b demo = 4"
proof -
  show ok: "mb_ok demo b" by (simp add: mb_ok_def ipc_ok_def mb_data_ok_def Let_def)
  show "mb_inv b demo" using demo_ok ok by (auto simp: mb_inv_def)
qed (simp_all add: mb_contents_def mb_capacity_def)




text \<open>C13: Any sequence of non-blocking sends and receives on a mailbox, with the wake-ups and thread
  switches they cause, runs to its end, never delivers a message that was not accepted, and
  delivers the accepted ones in order, each once: what has been delivered followed by what is in
  the mailbox is what was there followed by what has been accepted.  The kernel invariant holds at
  the end.\<close>

theorem rt_mb_fifo:
  assumes "mb_inv b k"
  shows "\<exists>ins outs k'. mailbox.run b rs k = Some (ins, outs, k') \<and> mb_inv b k' \<and>
    mb_contents b k @ ins = outs @ mb_contents b k'"
  using mailbox.run_fifo [OF assms, of rs] by blast

theorem rt_mb_fifo_witness:
  "\<exists>ins outs k'. mailbox.run 2 [Put 5, Put 6, Get, Get, Get, Put 7] demo = Some (ins, outs, k') \<and>
    ins = outs @ mb_contents 2 k'"
  using rt_mb_fifo [OF mb_demo_ok(2), of 2 "[Put 5, Put 6, Get, Get, Get, Put 7]"]
  by (simp del: mailbox.run.simps) blast

end
