(* ===== verification/MessageQueue.thy ===== *)
theory MessageQueue
  imports IpcList Example
begin

text \<open>
  The message queues of \<^verbatim>\<open>src/ipc.c\<close>: messages are nodes of singly linked lists in memory, a
  4-byte \<^verbatim>\<open>next\<close> pointer followed by the data; one list holds the queued messages, one the
  free nodes.  Address 0 is the null pointer.
\<close>

section \<open>The operations\<close>

abbreviation mq_obj :: "nat \<Rightarrow> obj_ptr" where "mq_obj q \<equiv> Obj_mq q"
abbreviation mq_list :: "nat \<Rightarrow> node" where "mq_list q \<equiv> Suspend_head (Obj_mq q)"
abbreviation mq_senders :: "nat \<Rightarrow> node" where "mq_senders q \<equiv> Sender_head (Obj_mq q)"

abbreviation (input) RT_MQ_ENTRY_MAX :: u16 where "RT_MQ_ENTRY_MAX \<equiv> 0xffff"

text \<open>\<^verbatim>\<open>msg->next = p\<close>.\<close>

abbreviation set_msg_next :: "u32 \<Rightarrow> u32 \<Rightarrow> kernel \<Rightarrow> kernel" where
  "set_msg_next msg p \<equiv> mem_update (store32 msg p)"

fun mq_init_free :: "nat \<Rightarrow> nat \<Rightarrow> nat \<Rightarrow> kernel \<Rightarrow> kernel" where
  "mq_init_free q temp 0 k = k"
| "mq_init_free q temp (Suc n) k = (let
     head = mq_msg_pool (mqs k q) + of_nat temp * (ucast (msg_size (mqs k q)) + 4);
     k = set_msg_next head (msg_queue_free (mqs k q)) k;
     k = upd_mq q (\<lambda>mq. mq\<lparr>msg_queue_free := head\<rparr>) k
   in mq_init_free q (Suc temp) n k)"

definition rt_mq_init ::
  "nat \<Rightarrow> char_ptr \<Rightarrow> u32 \<Rightarrow> u32 \<Rightarrow> u32 \<Rightarrow> u8 \<Rightarrow> kernel \<Rightarrow> (err \<times> kernel) option" where
  "rt_mq_init q nm msgpool m_size pool_size fl k = do {
     k \<leftarrow> rt_object_init (mq_obj q) RT_Object_Class_MessageQueue nm k;
     let k = upd_object (mq_obj q) (\<lambda>ob. ob\<lparr>flag := fl\<rparr>) k;
     let k = rt_ipc_object_init (mq_obj q) k;
     let k = upd_mq q (\<lambda>mq. mq\<lparr>mq_msg_pool := msgpool\<rparr>) k;
     let k = upd_mq q (\<lambda>mq. mq\<lparr>msg_size := ucast (RT_ALIGN m_size RT_ALIGN_SIZE)\<rparr>) k;
     let k = upd_mq q (\<lambda>mq. mq\<lparr>max_msgs := ucast (pool_size div (ucast (msg_size mq) + 4))\<rparr>) k;
     let k = upd_mq q (\<lambda>mq. mq\<lparr>msg_queue_head := 0\<rparr>) k;
     let k = upd_mq q (\<lambda>mq. mq\<lparr>msg_queue_tail := 0\<rparr>) k;
     let k = upd_mq q (\<lambda>mq. mq\<lparr>msg_queue_free := 0\<rparr>) k;
     let k = mq_init_free q 0 (unat (max_msgs (mqs k q))) k;
     let k = upd_mq q (\<lambda>mq. mq\<lparr>mq_entry := 0\<rparr>) k;
     let k = upd_lists (rt_list_init (mq_senders q)) k;
     Some (RT_EOK, k)
   }"

definition rt_mq_detach :: "nat \<Rightarrow> kernel \<Rightarrow> (err \<times> kernel) option" where
  "rt_mq_detach q k = do {
     RT_ASSERT (rt_object_get_type (mq_obj q) k = RT_Object_Class_MessageQueue);
     RT_ASSERT (rt_object_is_systemobject (mq_obj q) k);
     (_, k) \<leftarrow> rt_ipc_list_resume_all (mq_list q) k;
     (_, k) \<leftarrow> rt_ipc_list_resume_all (mq_senders q) k;
     Some (RT_EOK, rt_object_detach (mq_obj q) k)
   }"

text \<open>The steps of a transfer that the C code runs with interrupts disabled, and the copy
  between them.\<close>

definition mq_pop_free :: "nat \<Rightarrow> kernel \<Rightarrow> kernel" where
  "mq_pop_free q k =
     upd_mq q (\<lambda>mq. mq\<lparr>msg_queue_free := load32 (mem k) (msg_queue_free mq)\<rparr>) k"

definition mq_link_tail :: "nat \<Rightarrow> u32 \<Rightarrow> kernel \<Rightarrow> kernel" where
  "mq_link_tail q msg k = (let
     k = (if msg_queue_tail (mqs k q) \<noteq> 0 then set_msg_next (msg_queue_tail (mqs k q)) msg k else k);
     k = upd_mq q (\<lambda>mq. mq\<lparr>msg_queue_tail := msg\<rparr>) k
   in if msg_queue_head (mqs k q) = 0 then upd_mq q (\<lambda>mq. mq\<lparr>msg_queue_head := msg\<rparr>) k else k)"

definition mq_link_head :: "nat \<Rightarrow> u32 \<Rightarrow> kernel \<Rightarrow> kernel" where
  "mq_link_head q msg k = (let
     k = set_msg_next msg (msg_queue_head (mqs k q)) k;
     k = upd_mq q (\<lambda>mq. mq\<lparr>msg_queue_head := msg\<rparr>) k
   in if msg_queue_tail (mqs k q) = 0 then upd_mq q (\<lambda>mq. mq\<lparr>msg_queue_tail := msg\<rparr>) k else k)"

definition mq_pop_head :: "nat \<Rightarrow> kernel \<Rightarrow> kernel" where
  "mq_pop_head q k = (let
     msg = msg_queue_head (mqs k q);
     k = upd_mq q (\<lambda>mq. mq\<lparr>msg_queue_head := load32 (mem k) msg\<rparr>) k
   in if msg_queue_tail (mqs k q) = msg then upd_mq q (\<lambda>mq. mq\<lparr>msg_queue_tail := 0\<rparr>) k else k)"

definition mq_push_free :: "nat \<Rightarrow> u32 \<Rightarrow> kernel \<Rightarrow> kernel" where
  "mq_push_free q msg k = (let
     k = set_msg_next msg (msg_queue_free (mqs k q)) k
   in upd_mq q (\<lambda>mq. mq\<lparr>msg_queue_free := msg\<rparr>) k)"

text \<open>The end of a send: count the message and wake up a receiver.\<close>

definition mq_sent :: "nat \<Rightarrow> kernel \<Rightarrow> (err \<times> kernel) option" where
  "mq_sent q k =
     (if mq_entry (mqs k q) < RT_MQ_ENTRY_MAX then do {
        let k = upd_mq q (\<lambda>mq. mq\<lparr>mq_entry := mq_entry mq + 1\<rparr>) k;
        if \<not> rt_list_isempty (mq_list q) (lists k) then do {
          (_, k) \<leftarrow> rt_ipc_list_resume (mq_list q) k;
          k \<leftarrow> rt_schedule k;
          Some (RT_EOK, k)
        }
        else Some (RT_EOK, k)
      }
      else Some (- RT_EFULL, k))"

type_synonym mq_frame = "tid \<times> u32 \<times> u32"

definition mq_send_loop ::
  "nat \<Rightarrow> tid option \<Rightarrow> u32 \<Rightarrow> u32 \<Rightarrow> u32 \<Rightarrow> kernel \<Rightarrow> (mq_frame outcome \<times> kernel) option" where
  "mq_send_loop q thread buffer sz timeout k = (let msg = msg_queue_free (mqs k q)
   in if msg = 0 then do {
        t \<leftarrow> thread;
        let k = upd_thread t (\<lambda>th. th\<lparr>error := RT_EOK\<rparr>) k;
        if timeout = 0 then Some (Done (- RT_EFULL), k)
        else do {
          let tick_delta = rt_tick k;
          k \<leftarrow> ipc_wait (mq_senders q) t (flag (objects k (mq_obj q))) timeout k;
          k \<leftarrow> rt_schedule k;
          Some (Blocked (t, timeout, tick_delta), k)
        }
      } else do {
        let k = mq_pop_free q k;
        let k = set_msg_next msg 0 k;
        let k = mem_update (rt_memcpy (msg + 4) buffer sz) k;
        let k = mq_link_tail q msg k;
        (err, k) \<leftarrow> mq_sent q k;
        Some (Done err, k)
      })"

definition rt_mq_send_wait ::
  "nat \<Rightarrow> u32 \<Rightarrow> u32 \<Rightarrow> u32 \<Rightarrow> kernel \<Rightarrow> (mq_frame outcome \<times> kernel) option" where
  "rt_mq_send_wait q buffer sz timeout k = do {
     RT_ASSERT (rt_object_get_type (mq_obj q) k = RT_Object_Class_MessageQueue);
     RT_ASSERT (buffer \<noteq> 0);
     RT_ASSERT (sz \<noteq> 0);
     if sz > ucast (msg_size (mqs k q)) then Some (Done (- RT_ERROR), k)
     else if msg_queue_free (mqs k q) = 0 \<and> timeout = 0 then Some (Done (- RT_EFULL), k)
     else mq_send_loop q (rt_thread_self k) buffer sz timeout k
   }"

definition rt_mq_send_wait_wake ::
  "nat \<Rightarrow> u32 \<Rightarrow> u32 \<Rightarrow> mq_frame \<Rightarrow> kernel \<Rightarrow> (mq_frame outcome \<times> kernel) option" where
  "rt_mq_send_wait_wake q buffer sz fr k = (case fr of (t, timeout, tick_delta) \<Rightarrow>
     if error (threads k t) \<noteq> RT_EOK then Some (Done (error (threads k t)), k)
     else mq_send_loop q (Some t) buffer sz (remaining_timeout timeout tick_delta k) k)"

definition rt_mq_send :: "nat \<Rightarrow> u32 \<Rightarrow> u32 \<Rightarrow> kernel \<Rightarrow> (mq_frame outcome \<times> kernel) option" where
  "rt_mq_send q buffer sz k = rt_mq_send_wait q buffer sz 0 k"

definition rt_mq_urgent :: "nat \<Rightarrow> u32 \<Rightarrow> u32 \<Rightarrow> kernel \<Rightarrow> (err \<times> kernel) option" where
  "rt_mq_urgent q buffer sz k = do {
     RT_ASSERT (rt_object_get_type (mq_obj q) k = RT_Object_Class_MessageQueue);
     RT_ASSERT (buffer \<noteq> 0);
     RT_ASSERT (sz \<noteq> 0);
     if sz > ucast (msg_size (mqs k q)) then Some (- RT_ERROR, k)
     else do {
       let msg = msg_queue_free (mqs k q);
       if msg = 0 then Some (- RT_EFULL, k)
       else do {
         let k = mq_pop_free q k;
         let k = mem_update (rt_memcpy (msg + 4) buffer sz) k;
         let k = mq_link_head q msg k;
         mq_sent q k
       }
     }
   }"

definition mq_recv_loop ::
  "nat \<Rightarrow> tid option \<Rightarrow> u32 \<Rightarrow> u32 \<Rightarrow> u32 \<Rightarrow> kernel \<Rightarrow> (mq_frame outcome \<times> kernel) option" where
  "mq_recv_loop q thread buffer sz timeout k =
     (if mq_entry (mqs k q) = 0 then do {
        t \<leftarrow> thread;
        let k = upd_thread t (\<lambda>th. th\<lparr>error := RT_EOK\<rparr>) k;
        if timeout = 0
        then Some (Done (- RT_ETIMEOUT), upd_thread t (\<lambda>th. th\<lparr>error := - RT_ETIMEOUT\<rparr>) k)
        else do {
          let tick_delta = rt_tick k;
          k \<leftarrow> ipc_wait (mq_list q) t (flag (objects k (mq_obj q))) timeout k;
          k \<leftarrow> rt_schedule k;
          Some (Blocked (t, timeout, tick_delta), k)
        }
      } else do {
        let msg = msg_queue_head (mqs k q);
        let k = mq_pop_head q k;
        let k = (if mq_entry (mqs k q) > 0
          then upd_mq q (\<lambda>mq. mq\<lparr>mq_entry := mq_entry mq - 1\<rparr>) k else k);
        let n = (if sz > ucast (msg_size (mqs k q)) then ucast (msg_size (mqs k q)) else sz);
        let k = mem_update (rt_memcpy buffer (msg + 4) n) k;
        let k = mq_push_free q msg k;
        if \<not> rt_list_isempty (mq_senders q) (lists k) then do {
          (_, k) \<leftarrow> rt_ipc_list_resume (mq_senders q) k;
          k \<leftarrow> rt_schedule k;
          Some (Done RT_EOK, k)
        }
        else Some (Done RT_EOK, k)
      })"

definition rt_mq_recv ::
  "nat \<Rightarrow> u32 \<Rightarrow> u32 \<Rightarrow> u32 \<Rightarrow> kernel \<Rightarrow> (mq_frame outcome \<times> kernel) option" where
  "rt_mq_recv q buffer sz timeout k = do {
     RT_ASSERT (rt_object_get_type (mq_obj q) k = RT_Object_Class_MessageQueue);
     RT_ASSERT (buffer \<noteq> 0);
     RT_ASSERT (sz \<noteq> 0);
     if mq_entry (mqs k q) = 0 \<and> timeout = 0 then Some (Done (- RT_ETIMEOUT), k)
     else mq_recv_loop q (rt_thread_self k) buffer sz timeout k
   }"

definition rt_mq_recv_wake ::
  "nat \<Rightarrow> u32 \<Rightarrow> u32 \<Rightarrow> mq_frame \<Rightarrow> kernel \<Rightarrow> (mq_frame outcome \<times> kernel) option" where
  "rt_mq_recv_wake q buffer sz fr k = (case fr of (t, timeout, tick_delta) \<Rightarrow>
     if error (threads k t) \<noteq> RT_EOK then Some (Done (error (threads k t)), k)
     else mq_recv_loop q (Some t) buffer sz (remaining_timeout timeout tick_delta k) k)"

partial_function (option) mq_release_all :: "nat \<Rightarrow> kernel \<Rightarrow> kernel option" where
  "mq_release_all q k =
     (if msg_queue_head (mqs k q) \<noteq> 0 then
        let msg = msg_queue_head (mqs k q);
            k = mq_pop_head q k;
            k = mq_push_free q msg k
        in mq_release_all q k
      else Some k)"

definition rt_mq_control :: "nat \<Rightarrow> int \<Rightarrow> u32 \<Rightarrow> kernel \<Rightarrow> (err \<times> kernel) option" where
  "rt_mq_control q cmd arg k = do {
     RT_ASSERT (rt_object_get_type (mq_obj q) k = RT_Object_Class_MessageQueue);
     if cmd = RT_IPC_CMD_RESET then do {
       (_, k) \<leftarrow> rt_ipc_list_resume_all (mq_list q) k;
       (_, k) \<leftarrow> rt_ipc_list_resume_all (mq_senders q) k;
       k \<leftarrow> mq_release_all q k;
       let k = upd_mq q (\<lambda>mq. mq\<lparr>mq_entry := 0\<rparr>) k;
       k \<leftarrow> rt_schedule k;
       Some (RT_EOK, k)
     }
     else Some (- RT_ERROR, k)
   }"

end
