(* ===== verification/Regions.thy ===== *)
theory Regions
  imports KMem
begin

text \<open>
  Regions of memory that do not run around the end of the address space, and the frame rules of
  the memory operations for regions that do not overlap.
\<close>

definition region :: "u32 \<Rightarrow> nat \<Rightarrow> bool" where
  "region p n \<longleftrightarrow> unat p + n \<le> 2 ^ 32"

definition apart :: "u32 \<Rightarrow> nat \<Rightarrow> u32 \<Rightarrow> nat \<Rightarrow> bool" where
  "apart p n q l \<longleftrightarrow> unat p + n \<le> unat q \<or> unat q + l \<le> unat p"

lemma apart_sym: "apart p n q l = apart q l p n"
  by (auto simp: apart_def)

lemma apart_mono: "apart p n q l \<Longrightarrow> n' \<le> n \<Longrightarrow> l' \<le> l \<Longrightarrow> apart p n' q l'"
  by (auto simp: apart_def)

lemma region_mono: "region p n \<Longrightarrow> n' \<le> n \<Longrightarrow> region p n'"
  by (simp add: region_def)

lemma unat_add_nat:
  fixes p :: u32
  assumes "unat p + i < 2 ^ 32"
  shows "unat (p + of_nat i) = unat p + i"
  using assms by (simp add: unat_word_ariths unat_of_nat_id)

lemma region_offset:
  assumes "region p n" "i + l \<le> n" "0 < l"
  shows "region (p + of_nat i) l" "unat (p + of_nat i) = unat p + i"
proof -
  show u: "unat (p + of_nat i) = unat p + i" using assms by (intro unat_add_nat) (simp add: region_def)
  then show "region (p + of_nat i) l" using assms by (simp add: region_def)
qed

lemma unat_diff_far:
  fixes x p :: u32
  assumes "region p n" "unat x < unat p \<or> unat p + n \<le> unat x"
  shows "n \<le> unat (x - p)"
proof (cases "unat x < unat p")
  case True
  then show ?thesis using assms(1) unat_diff_wrap [OF True] by (simp add: region_def)
next
  case False
  then have "unat (x - p) = unat x - unat p" by (simp add: unat_sub word_le_nat_alt)
  then show ?thesis using False assms(2) by simp
qed

text \<open>Writes, and what they leave alone.\<close>

definition writes_only :: "u32 \<Rightarrow> nat \<Rightarrow> memory \<Rightarrow> memory \<Rightarrow> bool" where
  "writes_only p n m m' \<longleftrightarrow> (\<forall>x. unat x < unat p \<or> unat p + n \<le> unat x \<longrightarrow> m' x = m x)"

lemma writes_onlyD: "writes_only p n m m' \<Longrightarrow> unat x < unat p \<or> unat p + n \<le> unat x \<Longrightarrow> m' x = m x"
  unfolding writes_only_def by blast

lemma writes_only_store32: "region p 4 \<Longrightarrow> writes_only p 4 m (store32 p w m)"
  unfolding writes_only_def
  by (intro allI impI store32_other) (drule (1) unat_diff_far, simp add: word_le_nat_alt)

lemma writes_only_copy: "region d n \<Longrightarrow> writes_only d n m (copy d s n m)"
  unfolding writes_only_def by (auto simp: copy_def dest: unat_diff_far)

lemma writes_only_trans:
  "writes_only p n m m1 \<Longrightarrow> writes_only p n m1 m2 \<Longrightarrow> writes_only p n m m2"
  by (simp add: writes_only_def)

lemma writes_only_within:
  "writes_only p n m m' \<Longrightarrow> unat q \<le> unat p \<Longrightarrow> unat p + n \<le> unat q + l \<Longrightarrow> writes_only q l m m'"
  by (auto simp: writes_only_def)

lemma bytes_frame:
  assumes w: "writes_only p n m m'" and r: "region q l" and a: "apart p n q l"
  shows "bytes m' q l = bytes m q l"
proof (rule nth_equalityI)
  fix i assume "i < length (bytes m' q l)"
  then have i: "i < l" by simp
  then have "unat (q + of_nat i) = unat q + i" using r by (intro unat_add_nat) (simp add: region_def)
  then have "m' (q + of_nat i) = m (q + of_nat i)" using a i by (intro writes_onlyD [OF w]) (auto simp: apart_def)
  then show "bytes m' q l ! i = bytes m q l ! i" using i by simp
qed simp

lemma load32_frame:
  assumes w: "writes_only p n m m'" and r: "region q 4" and a: "apart p n q 4"
  shows "load32 m' q = load32 m q"
proof -
  have "m' (q + of_nat i) = m (q + of_nat i)" if "i < 4" for i
  proof -
    have "unat (q + of_nat i) = unat q + i" using r that by (intro unat_add_nat) (simp add: region_def)
    then show ?thesis using a that by (intro writes_onlyD [OF w]) (auto simp: apart_def)
  qed
  from this [of 0] this [of 1] this [of 2] this [of 3] show ?thesis by (intro load32_cong) simp_all
qed

text \<open>Copies between regions that do not overlap.\<close>

lemma copies_up_apart:
  assumes "region d n" "region s n" "apart d n s n"
  shows "copies_up d s n"
proof (cases "n = 0")
  case False
  then show ?thesis
    using assms unat_diff_far [OF assms(2), of d] unfolding copies_up_def apart_def by auto
qed (simp add: copies_up_def)

lemma rt_memcpy_apart:
  assumes "region d (unat n)" "region s (unat n)" "apart d (unat n) s (unat n)"
  shows "writes_only d (unat n) m (rt_memcpy d s n m)"
    "bytes (rt_memcpy d s n m) d (unat n) = bytes m s (unat n)"
proof -
  have e: "rt_memcpy d s n m = copy d s (unat n) m" by (rule rt_memcpy_copy [OF copies_up_apart [OF assms]])
  show "writes_only d (unat n) m (rt_memcpy d s n m)" unfolding e by (rule writes_only_copy [OF assms(1)])
  show "bytes (rt_memcpy d s n m) d (unat n) = bytes m s (unat n)"
    unfolding e using unsigned_less [of n, where 'a = nat] by (intro bytes_copy) simp
qed

lemma take_bytes: "n \<le> l \<Longrightarrow> take n (bytes m p l) = bytes m p n"
  by (rule nth_equalityI) simp_all

section \<open>Singly linked lists in memory\<close>

text \<open>The cells of a list that starts at \<open>p\<close>: the first word of a cell is the address of the next
  one, 0 ends the list.\<close>

fun linked_at :: "memory \<Rightarrow> u32 \<Rightarrow> u32 list \<Rightarrow> bool" where
  "linked_at m p [] \<longleftrightarrow> p = 0"
| "linked_at m p (a # as) \<longleftrightarrow> p = a \<and> a \<noteq> 0 \<and> linked_at m (load32 m a) as"

fun walk :: "nat \<Rightarrow> u32 \<Rightarrow> memory \<Rightarrow> u32 list" where
  "walk 0 p m = []"
| "walk (Suc n) p m = p # walk n (load32 m p) m"

lemma linked_walk: "linked_at m p as \<Longrightarrow> walk (length as) p m = as"
  by (induction as arbitrary: p) auto

lemma linked_zero: "linked_at m p as \<Longrightarrow> p = 0 \<longleftrightarrow> as = []"
  by (cases as) auto

lemma linked_hd: "linked_at m p as \<Longrightarrow> p = (if as = [] then 0 else hd as)"
  by (cases as) auto

lemma linked_cong:
  "(\<And>a. a \<in> set as \<Longrightarrow> load32 m' a = load32 m a) \<Longrightarrow> linked_at m' p as = linked_at m p as"
  by (induction as arbitrary: p) auto

lemma linked_snoc:
  assumes "linked_at m p as" "distinct as" "f \<noteq> 0" "load32 m' f = 0"
    and "\<And>a. a \<in> set (butlast as) \<Longrightarrow> load32 m' a = load32 m a" "as \<noteq> [] \<Longrightarrow> load32 m' (last as) = f"
  shows "linked_at m' (if as = [] then f else p) (as @ [f])"
  using assms
proof (induction as arbitrary: p)
  case (Cons a as)
  show ?case
  proof (cases "as = []")
    case False
    then have "load32 m a \<noteq> 0" using Cons.prems(1) by (cases as) auto
    then show ?thesis using Cons False by (auto split: if_splits)
  qed (use Cons.prems in simp)
qed simp

text \<open>Equal cells of \<open>size\<close> bytes, one after the other.\<close>

definition cell :: "u32 \<Rightarrow> nat \<Rightarrow> nat \<Rightarrow> u32" where
  "cell p sz i = p + of_nat (i * sz)"

definition cells :: "u32 \<Rightarrow> nat \<Rightarrow> nat \<Rightarrow> u32 set" where
  "cells p sz n = cell p sz ` {..<n}"

lemma cell_facts:
  assumes r: "region p (n * sz)" and i: "i < n" and sz: "0 < sz"
  shows "unat (cell p sz i) = unat p + i * sz" "region (cell p sz i) sz"
    "unat (cell p sz i) + sz \<le> unat p + n * sz"
proof -
  have le: "i * sz + sz \<le> n * sz" using i by (metis Suc_leI add.commute mult_Suc mult_le_mono1)
  have "unat (p + of_nat (i * sz)) = unat p + i * sz"
    using le sz r by (intro unat_add_nat) (simp add: region_def)
  then show u: "unat (cell p sz i) = unat p + i * sz" by (simp add: cell_def)
  show "region (cell p sz i) sz" "unat (cell p sz i) + sz \<le> unat p + n * sz"
    using u le r by (simp_all add: region_def)
qed

lemma cells_apart:
  assumes r: "region p (n * sz)" and sz: "0 < sz" and ab: "a \<in> cells p sz n" "b \<in> cells p sz n" "a \<noteq> b"
  shows "apart a sz b sz"
proof -
  obtain i j where ij: "a = cell p sz i" "b = cell p sz j" "i < n" "j < n" using ab by (auto simp: cells_def)
  then have "i \<noteq> j" using ab(3) by auto
  then have "i * sz + sz \<le> j * sz \<or> j * sz + sz \<le> i * sz"
    by (metis Suc_leI add.commute linorder_neqE_nat mult_Suc mult_le_mono1)
  then show ?thesis
    using cell_facts(1) [OF r ij(3) sz] cell_facts(1) [OF r ij(4) sz] by (auto simp: apart_def ij)
qed

lemma cells_region:
  assumes "region p (n * sz)" "0 < sz" "a \<in> cells p sz n"
  shows "region a sz" "unat p \<le> unat a" "unat a + sz \<le> unat p + n * sz"
  using cell_facts [OF assms(1) _ assms(2)] assms(3) by (auto simp: cells_def)

lemma card_cells:
  assumes "region p (n * sz)" "0 < sz"
  shows "card (cells p sz n) = n" "finite (cells p sz n)"
proof -
  have "inj_on (cell p sz) {..<n}"
  proof (rule inj_onI)
    fix i j assume "i \<in> {..<n}" "j \<in> {..<n}" "cell p sz i = cell p sz j"
    then show "i = j" using cell_facts(1) [OF assms(1) _ assms(2)] assms(2) by (metis add_left_cancel lessThan_iff mult_cancel2 less_irrefl)
  qed
  then show "card (cells p sz n) = n" by (simp add: cells_def card_image)
  show "finite (cells p sz n)" by (simp add: cells_def)
qed

end
