(* ===== verification/MessageList.thy ===== *)
theory MessageList
  imports MessageQueue Regions Fifo
begin

text \<open>
  The message lists of a message queue in memory: its pool is an array of cells, each on the list
  of the queued messages or on the free list, and what each transfer does to the two lists and to
  the contents of the messages.
\<close>

section \<open>Cells\<close>

lemma cell_regions:
  assumes r: "region p (n * (s + 4))" and a: "a \<in> cells p (s + 4) n"
  shows "region a 4" "region (a + 4) s" "unat (a + 4) = unat a + 4 \<or> s = 0" "unat p \<le> unat a"
    "unat a + s + 4 \<le> unat p + n * (s + 4)"
proof -
  note c = cells_region [OF r _ a, simplified]
  show "region a 4" using c(1) by (rule region_mono) simp
  show "unat p \<le> unat a" "unat a + s + 4 \<le> unat p + n * (s + 4)" using c by simp_all
  show u: "unat (a + 4) = unat a + 4 \<or> s = 0" using region_offset(2) [OF c(1), of 4 s] by auto
  show "region (a + 4) s"
    using region_offset(1) [OF c(1), of 4 s] unsigned_less [of "a + 4", where 'a = nat]
    by (cases "s = 0") (auto simp: region_def)
qed

lemma cell_apart:
  assumes r: "region p (n * (s + 4))" and ab: "a \<in> cells p (s + 4) n" "b \<in> cells p (s + 4) n" "a \<noteq> b"
    and s: "0 < s"
  shows "apart a 4 b 4" "apart a 4 (b + 4) s" "apart (a + 4) s b 4" "apart (a + 4) s (b + 4) s"
  using cells_apart [OF r _ ab] cell_regions(3) [OF r ab(1)] cell_regions(3) [OF r ab(2)] s
  by (auto simp: apart_def)

lemma cell_store:
  assumes r: "region p (n * (s + 4))" and ab: "a \<in> cells p (s + 4) n" "b \<in> cells p (s + 4) n" and s: "0 < s"
  shows "load32 (store32 a w m) b = (if b = a then w else load32 m b)"
    "bytes (store32 a w m) (b + 4) s = bytes m (b + 4) s"
    "writes_only p (n * (s + 4)) m (store32 a w m)"
proof -
  note ca = cell_regions [OF r ab(1)] and cb = cell_regions [OF r ab(2)]
  note w = writes_only_store32 [OF ca(1), of m w]
  show "load32 (store32 a w m) b = (if b = a then w else load32 m b)"
    using load32_frame [OF w cb(1)] cell_apart(1) [OF r ab _ s] by auto
  have "apart a 4 (b + 4) s"
    using cell_apart(2) [OF r ab _ s] cb(3) s by (cases "a = b") (auto simp: apart_def)
  then show "bytes (store32 a w m) (b + 4) s = bytes m (b + 4) s" by (rule bytes_frame [OF w cb(2)])
  show "writes_only p (n * (s + 4)) m (store32 a w m)"
    using ca(4,5) by (intro writes_only_within [OF w]) simp_all
qed

lemma cell_copy_in:
  assumes r: "region p (n * (s + 4))" and ab: "a \<in> cells p (s + 4) n" "b \<in> cells p (s + 4) n" and s: "0 < s"
    and buf: "region buf (unat l)" "apart buf (unat l) p (n * (s + 4))" "unat l \<le> s"
  shows "load32 (rt_memcpy (a + 4) buf l m) b = load32 m b"
    "b \<noteq> a \<Longrightarrow> bytes (rt_memcpy (a + 4) buf l m) (b + 4) s = bytes m (b + 4) s"
    "take (unat l) (bytes (rt_memcpy (a + 4) buf l m) (a + 4) s) = bytes m buf (unat l)"
    "writes_only p (n * (s + 4)) m (rt_memcpy (a + 4) buf l m)"
proof -
  note ca = cell_regions [OF r ab(1)] and cb = cell_regions [OF r ab(2)]
  have ra: "region (a + 4) (unat l)" using ca(2) buf(3) by (rule region_mono)
  have "apart (a + 4) (unat l) buf (unat l)" using buf(2,3) ca s by (auto simp: apart_def)
  note w = rt_memcpy_apart [OF ra buf(1) this, of m]
  have "apart (a + 4) (unat l) b 4"
    using cell_apart(3) [OF r ab _ s] ca(3) s buf(3) by (cases "a = b") (auto simp: apart_def)
  then show "load32 (rt_memcpy (a + 4) buf l m) b = load32 m b" by (rule load32_frame [OF w(1) cb(1)])
  show "bytes (rt_memcpy (a + 4) buf l m) (b + 4) s = bytes m (b + 4) s" if "b \<noteq> a"
  proof (rule bytes_frame [OF w(1) cb(2)])
    show "apart (a + 4) (unat l) (b + 4) s" using cell_apart(4) [OF r ab _ s] that buf(3) by (auto simp: apart_def)
  qed
  show "take (unat l) (bytes (rt_memcpy (a + 4) buf l m) (a + 4) s) = bytes m buf (unat l)"
    unfolding take_bytes [OF buf(3)] by (rule w(2))
  show "writes_only p (n * (s + 4)) m (rt_memcpy (a + 4) buf l m)"
    using ca s buf(3) by (intro writes_only_within [OF w(1)]) auto
qed

lemma cell_copy_out:
  assumes r: "region p (n * (s + 4))" and ab: "a \<in> cells p (s + 4) n" "b \<in> cells p (s + 4) n" and s: "0 < s"
    and buf: "region buf (unat l)" "apart buf (unat l) p (n * (s + 4))" "unat l \<le> s"
  shows "load32 (rt_memcpy buf (a + 4) l m) b = load32 m b"
    "bytes (rt_memcpy buf (a + 4) l m) (b + 4) s = bytes m (b + 4) s"
    "bytes (rt_memcpy buf (a + 4) l m) buf (unat l) = take (unat l) (bytes m (a + 4) s)"
    "writes_only buf (unat l) m (rt_memcpy buf (a + 4) l m)"
proof -
  note ca = cell_regions [OF r ab(1)] and cb = cell_regions [OF r ab(2)]
  have ra: "region (a + 4) (unat l)" using ca(2) buf(3) by (rule region_mono)
  have "apart buf (unat l) (a + 4) (unat l)" using buf(2,3) ca s by (auto simp: apart_def)
  note w = rt_memcpy_apart [OF buf(1) ra this, of m]
  show "load32 (rt_memcpy buf (a + 4) l m) b = load32 m b"
    using buf(2) cb s by (intro load32_frame [OF w(1) cb(1)]) (auto simp: apart_def)
  show "bytes (rt_memcpy buf (a + 4) l m) (b + 4) s = bytes m (b + 4) s"
    using buf(2) cb s by (intro bytes_frame [OF w(1) cb(2)]) (auto simp: apart_def)
  show "bytes (rt_memcpy buf (a + 4) l m) buf (unat l) = take (unat l) (bytes m (a + 4) s)"
    unfolding take_bytes [OF buf(3)] by (rule w(2))
  show "writes_only buf (unat l) m (rt_memcpy buf (a + 4) l m)" by (rule w(1))
qed

section \<open>The lists of a queue\<close>

abbreviation mq_bytes :: "rt_messagequeue \<Rightarrow> nat" where
  "mq_bytes mq \<equiv> unat (max_msgs mq) * (unat (msg_size mq) + 4)"

definition mq_cells :: "rt_messagequeue \<Rightarrow> u32 set" where
  "mq_cells mq = cells (mq_msg_pool mq) (unat (msg_size mq) + 4) (unat (max_msgs mq))"

definition mq_geometry :: "rt_messagequeue \<Rightarrow> bool" where
  "mq_geometry mq \<longleftrightarrow> region (mq_msg_pool mq) (mq_bytes mq) \<and> mq_msg_pool mq \<noteq> 0 \<and> 0 < msg_size mq"

definition mq_lists :: "rt_messagequeue \<Rightarrow> memory \<Rightarrow> u32 list \<Rightarrow> u32 list \<Rightarrow> bool" where
  "mq_lists mq m qs fs \<longleftrightarrow> linked_at m (msg_queue_head mq) qs \<and> linked_at m (msg_queue_free mq) fs \<and>
     distinct (qs @ fs) \<and> set (qs @ fs) = mq_cells mq \<and>
     msg_queue_tail mq = (if qs = [] then 0 else last qs) \<and> unat (mq_entry mq) = length qs"

definition mq_data_ok :: "nat \<Rightarrow> kernel \<Rightarrow> bool" where
  "mq_data_ok q k \<longleftrightarrow> mq_geometry (mqs k q) \<and> (\<exists>qs fs. mq_lists (mqs k q) (mem k) qs fs)"

text \<open>The messages, oldest first.\<close>

definition mq_contents :: "nat \<Rightarrow> kernel \<Rightarrow> u8 list list" where
  "mq_contents q k = map (\<lambda>p. bytes (mem k) (p + 4) (unat (msg_size (mqs k q))))
     (walk (unat (mq_entry (mqs k q))) (msg_queue_head (mqs k q)) (mem k))"

definition mq_capacity :: "nat \<Rightarrow> kernel \<Rightarrow> nat" where
  "mq_capacity q k = unat (max_msgs (mqs k q))"

text \<open>A buffer of the caller, outside of the pool.\<close>

definition mq_buffer :: "nat \<Rightarrow> kernel \<Rightarrow> u32 \<Rightarrow> nat \<Rightarrow> bool" where
  "mq_buffer q k buf n \<longleftrightarrow> region buf n \<and> apart buf n (mq_msg_pool (mqs k q)) (mq_bytes (mqs k q))"

lemma mq_cell_nonzero:
  assumes "mq_geometry mq" "a \<in> mq_cells mq"
  shows "a \<noteq> 0"
proof -
  have "unat (mq_msg_pool mq) \<le> unat a" "mq_msg_pool mq \<noteq> 0"
    using assms cell_regions(4) by (auto simp: mq_geometry_def mq_cells_def)
  then show ?thesis by (auto simp: unat_eq_0)
qed

lemma mq_contents_lists:
  assumes "mq_lists (mqs k q) (mem k) qs fs"
  shows "mq_contents q k = map (\<lambda>p. bytes (mem k) (p + 4) (unat (msg_size (mqs k q)))) qs"
  using assms linked_walk [of "mem k" "msg_queue_head (mqs k q)" qs] by (simp add: mq_contents_def mq_lists_def)

lemma mq_lists_length:
  assumes "mq_geometry mq" "mq_lists mq m qs fs"
  shows "length qs + length fs = unat (max_msgs mq)"
proof -
  have "card (set (qs @ fs)) = unat (max_msgs mq)"
    using assms card_cells(1) unfolding mq_lists_def mq_geometry_def mq_cells_def by simp
  moreover have "card (set (qs @ fs)) = length (qs @ fs)"
    using assms(2) by (intro distinct_card) (simp add: mq_lists_def)
  ultimately show ?thesis by simp
qed

text \<open>The queue is full if and only if the free list is empty.\<close>

lemma mq_full_iff:
  assumes "mq_data_ok q k"
  shows "msg_queue_free (mqs k q) = 0 \<longleftrightarrow> \<not> length (mq_contents q k) < mq_capacity q k"
proof -
  obtain qs fs where l: "mq_geometry (mqs k q)" "mq_lists (mqs k q) (mem k) qs fs"
    using assms by (auto simp: mq_data_ok_def)
  have "msg_queue_free (mqs k q) = 0 \<longleftrightarrow> fs = []" using l(2) linked_zero by (auto simp: mq_lists_def)
  then show ?thesis
    using mq_lists_length [OF l] by (cases fs) (auto simp: mq_contents_lists [OF l(2)] mq_capacity_def)
qed

lemma mq_empty_iff:
  assumes "mq_data_ok q k"
  shows "mq_entry (mqs k q) = 0 \<longleftrightarrow> mq_contents q k = []"
proof -
  obtain qs fs where l: "mq_lists (mqs k q) (mem k) qs fs" using assms by (auto simp: mq_data_ok_def)
  then have "unat (mq_entry (mqs k q)) = length qs" by (simp add: mq_lists_def)
  then show ?thesis by (auto simp: mq_contents_lists [OF l] unat_eq_0 [symmetric])
qed

lemma mq_contents_bounded: "mq_data_ok q k \<Longrightarrow> length (mq_contents q k) \<le> mq_capacity q k"
  using mq_lists_length by (fastforce simp: mq_data_ok_def mq_contents_lists mq_capacity_def)

section \<open>The transfers\<close>

definition mq_store :: "nat \<Rightarrow> u32 \<Rightarrow> u32 \<Rightarrow> kernel \<Rightarrow> kernel" where
  "mq_store q buffer sz k = (let
     msg = msg_queue_free (mqs k q);
     k = mq_pop_free q k;
     k = set_msg_next msg 0 k;
     k = mem_update (rt_memcpy (msg + 4) buffer sz) k;
     k = mq_link_tail q msg k
   in upd_mq q (\<lambda>mq. mq\<lparr>mq_entry := mq_entry mq + 1\<rparr>) k)"

definition mq_store_urgent :: "nat \<Rightarrow> u32 \<Rightarrow> u32 \<Rightarrow> kernel \<Rightarrow> kernel" where
  "mq_store_urgent q buffer sz k = (let
     msg = msg_queue_free (mqs k q);
     k = mq_pop_free q k;
     k = mem_update (rt_memcpy (msg + 4) buffer sz) k;
     k = mq_link_head q msg k
   in upd_mq q (\<lambda>mq. mq\<lparr>mq_entry := mq_entry mq + 1\<rparr>) k)"

definition mq_fetch :: "nat \<Rightarrow> u32 \<Rightarrow> u32 \<Rightarrow> kernel \<Rightarrow> kernel" where
  "mq_fetch q buffer sz k = (let
     msg = msg_queue_head (mqs k q);
     k = mq_pop_head q k;
     k = (if mq_entry (mqs k q) > 0
       then upd_mq q (\<lambda>mq. mq\<lparr>mq_entry := mq_entry mq - 1\<rparr>) k else k);
     n = (if sz > ucast (msg_size (mqs k q)) then ucast (msg_size (mqs k q)) else sz);
     k = mem_update (rt_memcpy buffer (msg + 4) n) k
   in mq_push_free q msg k)"

lemma mq_store_closed:
  "mq_store q buf sz k = (let mq = mqs k q; f = msg_queue_free mq;
     m = rt_memcpy (f + 4) buf sz (store32 f 0 (mem k)) in
   k\<lparr>mem := if msg_queue_tail mq \<noteq> 0 then store32 (msg_queue_tail mq) f m else m,
     mqs := (mqs k)(q := mq\<lparr>mq_entry := mq_entry mq + 1,
       msg_queue_head := if msg_queue_head mq = 0 then f else msg_queue_head mq, msg_queue_tail := f,
       msg_queue_free := load32 (mem k) f\<rparr>)\<rparr>)"
  by (cases k) (auto simp: mq_store_def mq_pop_free_def mq_link_tail_def Let_def)

lemma mq_store_urgent_closed:
  "mq_store_urgent q buf sz k = (let mq = mqs k q; f = msg_queue_free mq;
     m = rt_memcpy (f + 4) buf sz (mem k) in
   k\<lparr>mem := store32 f (msg_queue_head mq) m,
     mqs := (mqs k)(q := mq\<lparr>mq_entry := mq_entry mq + 1, msg_queue_head := f,
       msg_queue_tail := if msg_queue_tail mq = 0 then f else msg_queue_tail mq,
       msg_queue_free := load32 (mem k) f\<rparr>)\<rparr>)"
  by (cases k) (auto simp: mq_store_urgent_def mq_pop_free_def mq_link_head_def Let_def)

lemma mq_fetch_closed:
  "mq_entry (mqs k q) > 0 \<Longrightarrow> mq_fetch q buf sz k = (let mq = mqs k q; a = msg_queue_head mq;
     n = (if sz > ucast (msg_size mq) then ucast (msg_size mq) else sz) in
   k\<lparr>mem := store32 a (msg_queue_free mq) (rt_memcpy buf (a + 4) n (mem k)),
     mqs := (mqs k)(q := mq\<lparr>mq_entry := mq_entry mq - 1, msg_queue_head := load32 (mem k) a,
       msg_queue_tail := if msg_queue_tail mq = a then 0 else msg_queue_tail mq,
       msg_queue_free := a\<rparr>)\<rparr>)"
  by (cases k) (auto simp: mq_fetch_def mq_pop_head_def mq_push_free_def Let_def)

lemma unat_ucast16: "unat (ucast (w :: u16) :: u32) = unat w"
proof -
  have "unat w < 2 ^ 32" using unsigned_less [of w, where 'a = nat] by simp
  then have "unat (of_nat (unat w) :: u32) = unat w" by (intro unat_of_nat_id) simp
  moreover have "(ucast w :: u32) = of_nat (unat w)" by simp
  ultimately show ?thesis by (simp only:)
qed

lemma mq_next_entry:
  assumes l: "mq_geometry mq" "mq_lists mq m qs fs" and f: "length qs < unat (max_msgs mq)"
  shows "unat (mq_entry mq + 1) = Suc (length qs)"
proof -
  have "unat (mq_entry mq) = length qs" using l(2) by (simp add: mq_lists_def)
  moreover have "unat (max_msgs mq) < 2 ^ 16" using unsigned_less [of "max_msgs mq", where 'a = nat] by simp
  ultimately show ?thesis using f by (simp add: unat_word_ariths)
qed

lemma mq_store_laws:
  assumes d: "mq_data_ok q k" and f: "length (mq_contents q k) < mq_capacity q k"
    and b: "mq_buffer q k buf (unat sz)" "sz \<le> ucast (msg_size (mqs k q))"
  defines "k' \<equiv> mq_store q buf sz k"
  shows "mq_data_ok q k'" "mq_capacity q k' = mq_capacity q k"
    "\<exists>msg. mq_contents q k' = mq_contents q k @ [msg] \<and> length msg = unat (msg_size (mqs k q)) \<and>
       take (unat sz) msg = bytes (mem k) buf (unat sz)"
proof -
  let ?mq = "mqs k q" and ?m = "mem k"
  let ?s = "unat (msg_size ?mq)" and ?n = "unat (max_msgs ?mq)"
  obtain qs fs where l: "mq_geometry ?mq" "mq_lists ?mq ?m qs fs" using d by (auto simp: mq_data_ok_def)
  have fs: "fs \<noteq> []" using f mq_lists_length [OF l] by (auto simp: mq_contents_lists [OF l(2)] mq_capacity_def)
  then obtain a fs' where fs: "fs = a # fs'" by (cases fs) auto
  have ls: "linked_at ?m (msg_queue_head ?mq) qs" "msg_queue_free ?mq = a" "linked_at ?m (load32 ?m a) fs'"
    "distinct (qs @ a # fs')" "set (qs @ a # fs') = mq_cells ?mq"
    "msg_queue_tail ?mq = (if qs = [] then 0 else last qs)" "unat (mq_entry ?mq) = length qs"
    using l(2) by (auto simp: mq_lists_def fs)
  have r: "region (mq_msg_pool ?mq) (?n * (?s + 4))" and s: "0 < ?s"
    using l(1) by (auto simp: mq_geometry_def word_gt_0 unat_gt_0)
  have C: "mq_cells ?mq = cells (mq_msg_pool ?mq) (?s + 4) ?n" by (simp add: mq_cells_def)
  have a: "a \<in> cells (mq_msg_pool ?mq) (?s + 4) ?n" using ls(5) C by auto
  have in_c: "c \<in> cells (mq_msg_pool ?mq) (?s + 4) ?n" if "c \<in> set (qs @ a # fs')" for c using ls(5) that C by blast
  have buf: "region buf (unat sz)" "apart buf (unat sz) (mq_msg_pool ?mq) (?n * (?s + 4))" "unat sz \<le> ?s"
    using b by (simp_all add: mq_buffer_def word_le_nat_alt unat_ucast16)
  define m1 where "m1 = store32 a 0 ?m"
  define m2 where "m2 = rt_memcpy (a + 4) buf sz m1"
  define m3 where "m3 = (if qs = [] then m2 else store32 (last qs) a m2)"
  have t: "msg_queue_tail ?mq \<noteq> 0 \<longleftrightarrow> qs \<noteq> []"
  proof -
    have "last qs \<noteq> 0" if "qs \<noteq> []" using ls(5) last_in_set [OF that] by (intro mq_cell_nonzero [OF l(1)]) auto
    then show ?thesis using ls(6) by auto
  qed
  have k': "mem k' = m3" "mqs k' q = ?mq\<lparr>mq_entry := mq_entry ?mq + 1,
       msg_queue_head := if qs = [] then a else msg_queue_head ?mq, msg_queue_tail := a,
       msg_queue_free := load32 ?m a\<rparr>"
    using t linked_zero [OF ls(1)] ls(2,6) by (auto simp: k'_def mq_store_closed Let_def m3_def m2_def m1_def)
  have ld: "load32 m3 c = (if c = a then 0 else if qs \<noteq> [] \<and> c = last qs then a else load32 ?m c)"
    if c: "c \<in> set (qs @ a # fs')" for c
  proof -
    have "load32 m2 c = (if c = a then 0 else load32 ?m c)"
      unfolding m2_def m1_def cell_copy_in(1) [OF r a in_c [OF c] s buf] cell_store(1) [OF r a in_c [OF c] s] ..
    moreover have "last qs \<noteq> a" if "qs \<noteq> []" using ls(4) last_in_set [OF that] by auto
    moreover have "load32 (store32 (last qs) a m2) c = (if c = last qs then a else load32 m2 c)" if "qs \<noteq> []"
      using last_in_set [OF that] by (intro cell_store(1) [OF r in_c in_c [OF c] s]) simp
    ultimately show ?thesis by (auto simp: m3_def)
  qed
  have by3: "bytes m3 (c + 4) ?s = bytes m2 (c + 4) ?s" if c: "c \<in> set (qs @ a # fs')" for c
    using cell_store(2) [OF r in_c [of "last qs"] in_c [OF c] s] last_in_set [of qs] by (auto simp: m3_def)
  have by2: "bytes m2 (c + 4) ?s = bytes ?m (c + 4) ?s" if c: "c \<in> set (qs @ a # fs')" "c \<noteq> a" for c
    unfolding m2_def cell_copy_in(2) [OF r a in_c [OF c(1)] s buf c(2)] m1_def
    by (rule cell_store(2) [OF r a in_c [OF c(1)] s])
  have len: "length qs < ?n" using f by (simp add: mq_contents_lists [OF l(2)] mq_capacity_def)
  have qa: "c \<in> set qs \<Longrightarrow> c \<noteq> a" for c using ls(4) by auto
  have lq: "linked_at m3 (if qs = [] then a else msg_queue_head ?mq) (qs @ [a])"
  proof (rule linked_snoc [OF ls(1)])
    show "distinct qs" using ls(4) by simp
    show "a \<noteq> 0" using mq_cell_nonzero [OF l(1)] ls(5) by auto
    show "load32 m3 a = 0" using ld [of a] by simp
    show "qs \<noteq> [] \<Longrightarrow> load32 m3 (last qs) = a" using ld [of "last qs"] qa by simp
    fix c assume c: "c \<in> set (butlast qs)"
    then have "c \<in> set qs" "c \<noteq> last qs" using \<open>distinct qs\<close> by (cases qs rule: rev_cases; auto)+
    then show "load32 m3 c = load32 ?m c" using ld [of c] qa [of c] by simp
  qed
  have lf: "linked_at m3 (load32 ?m a) fs'"
  proof -
    have "load32 m3 c = load32 ?m c" if "c \<in> set fs'" for c
    proof -
      have "last qs \<notin> set fs'" if "qs \<noteq> []" using last_in_set [OF that] ls(4) by auto
      moreover have "c \<noteq> a" using that ls(4) by auto
      ultimately show ?thesis using ld [of c] that by auto
    qed
    then show ?thesis using ls(3) linked_cong [of fs' m3 ?m] by simp
  qed
  have lists: "mq_lists (mqs k' q) (mem k') (qs @ [a]) fs'"
    using lq lf ls(4,5) mq_next_entry [OF l len] by (auto simp: mq_lists_def k' mq_cells_def)
  moreover have "mq_geometry (mqs k' q)" using l(1) by (simp add: mq_geometry_def k')
  ultimately show "mq_data_ok q k'" by (auto simp: mq_data_ok_def)
  show "mq_capacity q k' = mq_capacity q k" by (simp add: mq_capacity_def k')
  have "mq_contents q k' = map (\<lambda>p. bytes m3 (p + 4) ?s) qs @ [bytes m3 (a + 4) ?s]"
    unfolding mq_contents_lists [OF lists] by (simp add: k')
  moreover have "map (\<lambda>p. bytes m3 (p + 4) ?s) qs = map (\<lambda>p. bytes ?m (p + 4) ?s) qs"
    using by3 by2 qa by (intro map_cong refl) auto
  moreover have "take (unat sz) (bytes m3 (a + 4) ?s) = bytes ?m buf (unat sz)"
  proof -
    have "take (unat sz) (bytes m3 (a + 4) ?s) = bytes m1 buf (unat sz)"
      using by3 [of a] cell_copy_in(3) [OF r a a s buf, of m1] by (simp add: m2_def)
    also have "\<dots> = bytes ?m buf (unat sz)"
      unfolding m1_def using buf(1,2) by (intro bytes_frame [OF cell_store(3) [OF r a a s]]) (simp_all add: apart_sym)
    finally show ?thesis .
  qed
  ultimately show "\<exists>msg. mq_contents q k' = mq_contents q k @ [msg] \<and> length msg = ?s \<and>
       take (unat sz) msg = bytes ?m buf (unat sz)"
    by (intro exI [of _ "bytes m3 (a + 4) ?s"]) (simp add: mq_contents_lists [OF l(2)])
qed

lemma mq_fetch_laws:
  assumes d: "mq_data_ok q k" and ne: "mq_contents q k \<noteq> []"
    and b: "mq_buffer q k buf (unat sz)"
  defines "k' \<equiv> mq_fetch q buf sz k" and "n \<equiv> min (unat sz) (unat (msg_size (mqs k q)))"
  shows "mq_data_ok q k'" "mq_capacity q k' = mq_capacity q k"
    "mq_contents q k' = tl (mq_contents q k)"
    "bytes (mem k') buf n = take n (hd (mq_contents q k))"
proof -
  let ?mq = "mqs k q" and ?m = "mem k"
  let ?s = "unat (msg_size ?mq)" and ?n = "unat (max_msgs ?mq)"
  let ?l = "if sz > ucast (msg_size ?mq) then ucast (msg_size ?mq) else sz"
  obtain qs fs where l: "mq_geometry ?mq" "mq_lists ?mq ?m qs fs" using d by (auto simp: mq_data_ok_def)
  have "qs \<noteq> []" using ne by (auto simp: mq_contents_lists [OF l(2)])
  then obtain a qs' where qs: "qs = a # qs'" by (cases qs) auto
  have ls: "msg_queue_head ?mq = a" "linked_at ?m (load32 ?m a) qs'" "linked_at ?m (msg_queue_free ?mq) fs"
    "distinct (a # qs' @ fs)" "set (a # qs' @ fs) = mq_cells ?mq"
    "msg_queue_tail ?mq = last (a # qs')" "unat (mq_entry ?mq) = Suc (length qs')"
    using l(2) by (auto simp: mq_lists_def qs)
  have r: "region (mq_msg_pool ?mq) (?n * (?s + 4))" and s: "0 < ?s"
    using l(1) by (auto simp: mq_geometry_def word_gt_0 unat_gt_0)
  have C: "mq_cells ?mq = cells (mq_msg_pool ?mq) (?s + 4) ?n" by (simp add: mq_cells_def)
  have a: "a \<in> cells (mq_msg_pool ?mq) (?s + 4) ?n" using ls(5) C by auto
  have in_c: "c \<in> cells (mq_msg_pool ?mq) (?s + 4) ?n" if "c \<in> set (a # qs' @ fs)" for c using ls(5) that C by blast
  have ul: "unat ?l = n" by (simp add: n_def word_less_nat_alt unat_ucast16 min_def)
  have buf: "region buf (unat ?l)" "apart buf (unat ?l) (mq_msg_pool ?mq) (?n * (?s + 4))" "unat ?l \<le> ?s"
    using b unfolding ul by (auto simp: mq_buffer_def n_def intro: region_mono apart_mono)
  define m1 where "m1 = rt_memcpy buf (a + 4) ?l ?m"
  define m2 where "m2 = store32 a (msg_queue_free ?mq) m1"
  have e: "mq_entry ?mq \<noteq> 0" using ls(7) by auto
  then have k': "mem k' = m2" "mqs k' q = ?mq\<lparr>mq_entry := mq_entry ?mq - 1,
       msg_queue_head := load32 ?m a, msg_queue_tail := if msg_queue_tail ?mq = a then 0 else msg_queue_tail ?mq,
       msg_queue_free := a\<rparr>"
    using ls(1) by (simp_all add: k'_def mq_fetch_closed Let_def m2_def m1_def word_gt_0)
  have ld: "load32 m2 c = (if c = a then msg_queue_free ?mq else load32 ?m c)" if c: "c \<in> set (a # qs' @ fs)" for c
    unfolding m2_def cell_store(1) [OF r a in_c [OF c] s] m1_def cell_copy_out(1) [OF r a in_c [OF c] s buf] ..
  have by2: "bytes m2 (c + 4) ?s = bytes ?m (c + 4) ?s" if c: "c \<in> set (a # qs' @ fs)" for c
    unfolding m2_def cell_store(2) [OF r a in_c [OF c] s] m1_def
    by (rule cell_copy_out(2) [OF r a in_c [OF c] s buf])
  have "linked_at m2 (load32 ?m a) qs'" "linked_at m2 (msg_queue_free ?mq) fs"
  proof -
    have "load32 m2 c = load32 ?m c" if "c \<in> set (qs' @ fs)" for c using ld [of c] that ls(4) by auto
    then show "linked_at m2 (load32 ?m a) qs'" "linked_at m2 (msg_queue_free ?mq) fs"
      using ls(2,3) linked_cong [of qs' m2 ?m] linked_cong [of fs m2 ?m] by simp_all
  qed
  moreover have "load32 m2 a = msg_queue_free ?mq" using ld [of a] by simp
  moreover have "a \<noteq> 0" using mq_cell_nonzero [OF l(1)] ls(5) by auto
  moreover have "last (a # qs') = a \<longleftrightarrow> qs' = []" using ls(4) last_in_set [of qs'] by auto
  moreover have "unat (mq_entry ?mq - 1) = length qs'" using ls(7) e by (simp add: unat_minus_one)
  ultimately have lists: "mq_lists (mqs k' q) (mem k') qs' (a # fs)"
    using ls(4-6) by (auto simp: mq_lists_def k' mq_cells_def)
  moreover have "mq_geometry (mqs k' q)" using l(1) by (simp add: mq_geometry_def k')
  ultimately show "mq_data_ok q k'" by (auto simp: mq_data_ok_def)
  show "mq_capacity q k' = mq_capacity q k" by (simp add: mq_capacity_def k')
  have "map (\<lambda>p. bytes m2 (p + 4) ?s) qs' = map (\<lambda>p. bytes ?m (p + 4) ?s) qs'"
    using by2 by (intro map_cong refl) auto
  then show "mq_contents q k' = tl (mq_contents q k)"
    unfolding mq_contents_lists [OF lists] mq_contents_lists [OF l(2)] by (simp add: k' qs)
  have "bytes m2 buf n = bytes m1 buf n"
    unfolding m2_def using buf(1,2) unfolding ul
    by (intro bytes_frame [OF cell_store(3) [OF r a a s]]) (simp_all add: apart_sym)
  also have "\<dots> = take n (bytes ?m (a + 4) ?s)"
    using cell_copy_out(3) [OF r a a s buf, of ?m] unfolding m1_def ul .
  finally show "bytes (mem k') buf n = take n (hd (mq_contents q k))"
    unfolding mq_contents_lists [OF l(2)] by (simp add: k' qs)
qed

lemma mq_store_urgent_laws:
  assumes d: "mq_data_ok q k" and f: "length (mq_contents q k) < mq_capacity q k"
    and b: "mq_buffer q k buf (unat sz)" "sz \<le> ucast (msg_size (mqs k q))"
  defines "k' \<equiv> mq_store_urgent q buf sz k"
  shows "mq_data_ok q k'" "mq_capacity q k' = mq_capacity q k"
    "\<exists>msg. mq_contents q k' = msg # mq_contents q k \<and> length msg = unat (msg_size (mqs k q)) \<and>
       take (unat sz) msg = bytes (mem k) buf (unat sz)"
proof -
  let ?mq = "mqs k q" and ?m = "mem k"
  let ?s = "unat (msg_size ?mq)" and ?n = "unat (max_msgs ?mq)"
  obtain qs fs where l: "mq_geometry ?mq" "mq_lists ?mq ?m qs fs" using d by (auto simp: mq_data_ok_def)
  have fs: "fs \<noteq> []" using f mq_lists_length [OF l] by (auto simp: mq_contents_lists [OF l(2)] mq_capacity_def)
  then obtain a fs' where fs: "fs = a # fs'" by (cases fs) auto
  have ls: "linked_at ?m (msg_queue_head ?mq) qs" "msg_queue_free ?mq = a" "linked_at ?m (load32 ?m a) fs'"
    "distinct (qs @ a # fs')" "set (qs @ a # fs') = mq_cells ?mq"
    "msg_queue_tail ?mq = (if qs = [] then 0 else last qs)" "unat (mq_entry ?mq) = length qs"
    using l(2) by (auto simp: mq_lists_def fs)
  have r: "region (mq_msg_pool ?mq) (?n * (?s + 4))" and s: "0 < ?s"
    using l(1) by (auto simp: mq_geometry_def word_gt_0 unat_gt_0)
  have C: "mq_cells ?mq = cells (mq_msg_pool ?mq) (?s + 4) ?n" by (simp add: mq_cells_def)
  have a: "a \<in> cells (mq_msg_pool ?mq) (?s + 4) ?n" using ls(5) C by auto
  have in_c: "c \<in> cells (mq_msg_pool ?mq) (?s + 4) ?n" if "c \<in> set (qs @ a # fs')" for c using ls(5) that C by blast
  have buf: "region buf (unat sz)" "apart buf (unat sz) (mq_msg_pool ?mq) (?n * (?s + 4))" "unat sz \<le> ?s"
    using b by (simp_all add: mq_buffer_def word_le_nat_alt unat_ucast16)
  define m1 where "m1 = rt_memcpy (a + 4) buf sz ?m"
  define m2 where "m2 = store32 a (msg_queue_head ?mq) m1"
  have t: "msg_queue_tail ?mq = 0 \<longleftrightarrow> qs = []"
  proof -
    have "last qs \<noteq> 0" if "qs \<noteq> []" using ls(5) last_in_set [OF that] by (intro mq_cell_nonzero [OF l(1)]) auto
    then show ?thesis using ls(6) by auto
  qed
  have k': "mem k' = m2" "mqs k' q = ?mq\<lparr>mq_entry := mq_entry ?mq + 1, msg_queue_head := a,
       msg_queue_tail := if qs = [] then a else msg_queue_tail ?mq, msg_queue_free := load32 ?m a\<rparr>"
    using t ls(2) by (auto simp: k'_def mq_store_urgent_closed Let_def m2_def m1_def)
  have ld: "load32 m2 c = (if c = a then msg_queue_head ?mq else load32 ?m c)" if c: "c \<in> set (qs @ a # fs')" for c
    unfolding m2_def cell_store(1) [OF r a in_c [OF c] s] m1_def cell_copy_in(1) [OF r a in_c [OF c] s buf] ..
  have by2: "bytes m2 (c + 4) ?s = bytes ?m (c + 4) ?s" if c: "c \<in> set (qs @ a # fs')" "c \<noteq> a" for c
    unfolding m2_def cell_store(2) [OF r a in_c [OF c(1)] s] m1_def
    by (rule cell_copy_in(2) [OF r a in_c [OF c(1)] s buf c(2)])
  have len: "length qs < ?n" using f by (simp add: mq_contents_lists [OF l(2)] mq_capacity_def)
  have "linked_at m2 (msg_queue_head ?mq) qs" "linked_at m2 (load32 ?m a) fs'"
  proof -
    have "load32 m2 c = load32 ?m c" if "c \<in> set (qs @ fs')" for c using ld [of c] that ls(4) by auto
    then show "linked_at m2 (msg_queue_head ?mq) qs" "linked_at m2 (load32 ?m a) fs'"
      using ls(1,3) linked_cong [of qs m2 ?m] linked_cong [of fs' m2 ?m] by simp_all
  qed
  moreover have "load32 m2 a = msg_queue_head ?mq" using ld [of a] by simp
  moreover have "a \<noteq> 0" using mq_cell_nonzero [OF l(1)] ls(5) by auto
  ultimately have lists: "mq_lists (mqs k' q) (mem k') (a # qs) fs'"
    using ls(4-6) mq_next_entry [OF l len] by (auto simp: mq_lists_def k' mq_cells_def)
  moreover have "mq_geometry (mqs k' q)" using l(1) by (simp add: mq_geometry_def k')
  ultimately show "mq_data_ok q k'" by (auto simp: mq_data_ok_def)
  show "mq_capacity q k' = mq_capacity q k" by (simp add: mq_capacity_def k')
  have "map (\<lambda>p. bytes m2 (p + 4) ?s) qs = map (\<lambda>p. bytes ?m (p + 4) ?s) qs"
    using by2 ls(4) by (intro map_cong refl) auto
  moreover have "take (unat sz) (bytes m2 (a + 4) ?s) = bytes ?m buf (unat sz)"
    unfolding m2_def cell_store(2) [OF r a a s] m1_def by (rule cell_copy_in(3) [OF r a a s buf])
  ultimately show "\<exists>msg. mq_contents q k' = msg # mq_contents q k \<and> length msg = ?s \<and>
       take (unat sz) msg = bytes ?m buf (unat sz)"
    unfolding mq_contents_lists [OF lists] mq_contents_lists [OF l(2)]
    by (intro exI [of _ "bytes m2 (a + 4) ?s"]) (simp add: k')
qed

end
