(* ===== verification/MessageContract.thy ===== *)
theory MessageContract
  imports MessageList
begin

text \<open>
  What the message queues of \<^verbatim>\<open>src/ipc.c\<close> promise: the transfers with their wake-ups, the blocking
  calls, and the first-in first-out contract of the non-blocking calls.
\<close>

section \<open>Transfers between threads\<close>

definition mq_ok :: "kernel \<Rightarrow> nat \<Rightarrow> bool" where
  "mq_ok k q \<longleftrightarrow> ipc_ok k (mq_obj q) \<and> mq_data_ok q k"

definition mq_view :: "(node \<Rightarrow> node list) \<Rightarrow> kernel \<Rightarrow> nat \<Rightarrow> u8 list buffer_view" where
  "mq_view L k q = (mq_contents q k, waiting L (mq_list q), waiting L (mq_senders q))"

lemma mq_type: "mq_ok k q \<Longrightarrow> rt_object_get_type (mq_obj q) k = RT_Object_Class_MessageQueue"
  by (simp add: mq_ok_def ipc_ok_def live_def)

lemma mq_data_cong:
  "mqs k' = mqs k \<Longrightarrow> mem k' = mem k \<Longrightarrow> mq_data_ok q k' = mq_data_ok q k"
  "mqs k' = mqs k \<Longrightarrow> mem k' = mem k \<Longrightarrow> mq_contents q k' = mq_contents q k"
  "mqs k' = mqs k \<Longrightarrow> mq_capacity q k' = mq_capacity q k"
  "mqs k' = mqs k \<Longrightarrow> mq_buffer q k' buf n = mq_buffer q k buf n"
  by (simp_all add: mq_data_ok_def mq_contents_def mq_capacity_def mq_buffer_def)

text \<open>A transfer changes the memory and the queue only.\<close>

definition data_only :: "kernel \<Rightarrow> kernel \<Rightarrow> bool" where
  "data_only k k' \<longleftrightarrow> (\<exists>m f. k' = k\<lparr>mem := m, mqs := f\<rparr>)"

lemma data_only_facts:
  assumes "data_only k k'"
  shows "kernel_ok L k' = kernel_ok L k" "lists k' = lists k" "threads k' = threads k"
    "rt_current_thread k' = rt_current_thread k" "ipc_ok k' ob = ipc_ok k ob"
    "thread_state k' = thread_state k" "woke ws L' k' k'' = woke ws L' k k''"
proof -
  obtain m f where k': "k' = k\<lparr>mem := m, mqs := f\<rparr>" using assms by (auto simp: data_only_def)
  show "lists k' = lists k" "threads k' = threads k" "rt_current_thread k' = rt_current_thread k"
    by (simp_all add: k')
  show "kernel_ok L k' = kernel_ok L k" by (rule kernel_ok_cong) (simp_all add: k')
  show "ipc_ok k' ob = ipc_ok k ob"
    by (simp add: k' ipc_ok_def live_def rt_object_get_type_def ipc_flag_def)
  show "thread_state k' = thread_state k" by (simp add: k' thread_state_def fun_eq_iff)
  show "woke ws L' k' k'' = woke ws L' k k''"
    by (intro effect_cong(1) cpu_ok_cong) (simp_all add: k' thread_state_def fun_eq_iff)
qed

lemma data_only_transfers:
  "data_only k (mq_store q buf sz k)" "data_only k (mq_store_urgent q buf sz k)"
  "mq_entry (mqs k q) > 0 \<Longrightarrow> data_only k (mq_fetch q buf sz k)"
  "data_only k (k\<lparr>mem := m\<rparr>)"
proof -
  show "data_only k (mq_store q buf sz k)" "data_only k (mq_store_urgent q buf sz k)"
    unfolding data_only_def mq_store_closed mq_store_urgent_closed Let_def by blast+
  show "data_only k (mq_fetch q buf sz k)" if "mq_entry (mqs k q) > 0"
    unfolding data_only_def mq_fetch_closed [OF that] Let_def by blast
  show "data_only k (k\<lparr>mem := m\<rparr>)"
    unfolding data_only_def by (intro exI [of _ m] exI [of _ "mqs k"]) (cases k, simp)
qed

text \<open>Waking the first waiter of a queue, after the data have been changed.\<close>

lemma mq_wake:
  assumes ok: "kernel_ok L k" and q: "ipc_ok k (mq_obj q)" and c: "rt_current_thread k \<noteq> None"
    and t: "data_only k k1" and d: "mq_data_ok q k1" and x: "wait_head x"
  shows "\<exists>L' k'. (if \<not> rt_list_isempty x (lists k1)
      then do { (_, k) \<leftarrow> rt_ipc_list_resume x k1; rt_schedule k } else Some k1) = Some k' \<and>
    kernel_ok L' k' \<and> mq_ok k' q \<and> waiting L' x = tl (waiting L x) \<and>
    (\<forall>y. wait_head y \<longrightarrow> y \<noteq> x \<longrightarrow> waiting L' y = waiting L y) \<and>
    mqs k' = mqs k1 \<and> mem k' = mem k1 \<and> rt_current_thread k' \<noteq> None \<and>
    woke (waiting L x) L' k k'"
proof -
  note f = data_only_facts [OF t]
  have ok1: "kernel_ok L k1" "rt_current_thread k1 \<noteq> None" using ok c f by simp_all
  obtain L' k' where w: "(if \<not> rt_list_isempty x (lists k1)
      then do { (_, k) \<leftarrow> rt_ipc_list_resume x k1; rt_schedule k } else Some k1) = Some k'"
    "kernel_ok L' k'" "waiting L' x = tl (waiting L x)"
    "\<forall>y. wait_head y \<longrightarrow> y \<noteq> x \<longrightarrow> waiting L' y = waiting L y"
    "mqs k' = mqs k1" "mem k' = mem k1" "rt_current_thread k' \<noteq> None"
    "ipc_ok k' (mq_obj q) = ipc_ok k1 (mq_obj q)"
    "woke (waiting L x) L' k1 k'"
    using wake_first [OF ok1(1) x ok1(2)] by blast
  have "mq_ok k' q" using q d w(5,6,8) f(5) mq_data_cong(1) [of k' k1 q] by (simp add: mq_ok_def)
  then show ?thesis using w f(7) by (intro exI [of _ L'] exI [of _ k']) simp
qed

lemma mq_room_entry:
  assumes "mq_data_ok q k" "length (mq_contents q k) < mq_capacity q k"
  shows "mq_entry (mqs k q) < RT_MQ_ENTRY_MAX"
proof -
  obtain qs fs where l: "mq_lists (mqs k q) (mem k) qs fs" using assms(1) by (auto simp: mq_data_ok_def)
  have "unat (mq_entry (mqs k q)) < unat (max_msgs (mqs k q))"
    using l assms(2) by (simp add: mq_contents_lists [OF l] mq_capacity_def mq_lists_def)
  moreover have "unat (max_msgs (mqs k q)) < 2 ^ 16" using unsigned_less [of "max_msgs (mqs k q)", where 'a = nat] by simp
  ultimately show ?thesis by (simp add: word_less_nat_alt)
qed

lemma mq_sent_wakes:
  assumes "mq_entry (mqs k q) < RT_MQ_ENTRY_MAX"
    and w: "(if \<not> rt_list_isempty (mq_list q) (lists k1)
      then do { (_, k) \<leftarrow> rt_ipc_list_resume (mq_list q) k1; rt_schedule k } else Some k1) = Some k'"
    and k1: "k1 = upd_mq q (\<lambda>mq. mq\<lparr>mq_entry := mq_entry mq + 1\<rparr>) k"
  shows "mq_sent q k = Some (RT_EOK, k')"
  using assms unfolding mq_sent_def Let_def k1 [symmetric] by (auto split: if_splits bind_splits)

lemma mq_send_transfer:
  assumes ok: "kernel_ok L k" and q: "mq_ok k q" and c: "rt_current_thread k \<noteq> None"
    and f: "length (mq_contents q k) < mq_capacity q k"
    and b: "mq_buffer q k buf (unat sz)" "sz \<le> ucast (msg_size (mqs k q))"
  shows "\<exists>msg L' k'. mq_send_loop q th buf sz timeout k = Some (Done RT_EOK, k') \<and> kernel_ok L' k' \<and>
    mq_ok k' q \<and> length msg = unat (msg_size (mqs k q)) \<and> take (unat sz) msg = bytes (mem k) buf (unat sz) \<and>
    mq_view L' k' q = (mq_contents q k @ [msg], tl (waiting L (mq_list q)), waiting L (mq_senders q)) \<and>
    mqs k' = mqs (mq_store q buf sz k) \<and> rt_current_thread k' \<noteq> None \<and>
    woke (waiting L (mq_list q)) L' k k'"
proof -
  have d: "mq_data_ok q k" "ipc_ok k (mq_obj q)" using q by (simp_all add: mq_ok_def)
  note s = mq_store_laws [OF d(1) f b]
  obtain msg where msg: "mq_contents q (mq_store q buf sz k) = mq_contents q k @ [msg]"
    "length msg = unat (msg_size (mqs k q))" "take (unat sz) msg = bytes (mem k) buf (unat sz)"
    using s(3) by blast
  let ?k1 = "mq_store q buf sz k"
  obtain L' k' where w: "(if \<not> rt_list_isempty (mq_list q) (lists ?k1)
      then do { (_, k) \<leftarrow> rt_ipc_list_resume (mq_list q) ?k1; rt_schedule k } else Some ?k1) = Some k'"
    "kernel_ok L' k'" "mq_ok k' q" "waiting L' (mq_list q) = tl (waiting L (mq_list q))"
    "\<forall>y. wait_head y \<longrightarrow> y \<noteq> mq_list q \<longrightarrow> waiting L' y = waiting L y"
    "mqs k' = mqs ?k1" "mem k' = mem ?k1" "rt_current_thread k' \<noteq> None"
    "woke (waiting L (mq_list q)) L' k k'"
    using mq_wake [OF ok d(2) c data_only_transfers(1) s(1) wait_head_Suspend] by blast
  define k0 where "k0 = mq_link_tail q (msg_queue_free (mqs k q)) (mem_update (rt_memcpy (msg_queue_free (mqs k q) + 4) buf sz)
     (set_msg_next (msg_queue_free (mqs k q)) 0 (mq_pop_free q k)))"
  have k1: "?k1 = upd_mq q (\<lambda>mq. mq\<lparr>mq_entry := mq_entry mq + 1\<rparr>) k0" by (simp add: mq_store_def k0_def Let_def)
  have "mq_entry (mqs k0 q) = mq_entry (mqs k q)"
    by (simp add: k0_def mq_link_tail_def mq_pop_free_def Let_def)
  then have "mq_entry (mqs k0 q) < RT_MQ_ENTRY_MAX" using mq_room_entry [OF d(1) f] by simp
  then have "mq_sent q k0 = Some (RT_EOK, k')" by (rule mq_sent_wakes [OF _ w(1) k1])
  moreover have "msg_queue_free (mqs k q) \<noteq> 0" using mq_full_iff [OF d(1)] f by simp
  ultimately have "mq_send_loop q th buf sz timeout k = Some (Done RT_EOK, k')"
    by (simp add: mq_send_loop_def Let_def k0_def)
  moreover have "mq_contents q k' = mq_contents q k @ [msg]" using mq_data_cong(2) [of k' ?k1 q] w(6,7) msg(1) by simp
  ultimately show ?thesis using w msg(2,3) by (intro exI [of _ msg] exI [of _ L'] exI [of _ k']) (simp add: mq_view_def)
qed

lemma mq_urgent_transfer:
  assumes ok: "kernel_ok L k" and q: "mq_ok k q" and c: "rt_current_thread k \<noteq> None"
    and f: "length (mq_contents q k) < mq_capacity q k"
    and b: "mq_buffer q k buf (unat sz)" "sz \<le> ucast (msg_size (mqs k q))" "buf \<noteq> 0" "sz \<noteq> 0"
  shows "\<exists>msg L' k'. rt_mq_urgent q buf sz k = Some (RT_EOK, k') \<and> kernel_ok L' k' \<and>
    mq_ok k' q \<and> length msg = unat (msg_size (mqs k q)) \<and> take (unat sz) msg = bytes (mem k) buf (unat sz) \<and>
    mq_view L' k' q = (msg # mq_contents q k, tl (waiting L (mq_list q)), waiting L (mq_senders q)) \<and>
    woke (waiting L (mq_list q)) L' k k'"
proof -
  have d: "mq_data_ok q k" "ipc_ok k (mq_obj q)" using q by (simp_all add: mq_ok_def)
  note s = mq_store_urgent_laws [OF d(1) f b(1,2)]
  obtain msg where msg: "mq_contents q (mq_store_urgent q buf sz k) = msg # mq_contents q k"
    "length msg = unat (msg_size (mqs k q))" "take (unat sz) msg = bytes (mem k) buf (unat sz)"
    using s(3) by blast
  let ?k1 = "mq_store_urgent q buf sz k"
  obtain L' k' where w: "(if \<not> rt_list_isempty (mq_list q) (lists ?k1)
      then do { (_, k) \<leftarrow> rt_ipc_list_resume (mq_list q) ?k1; rt_schedule k } else Some ?k1) = Some k'"
    "kernel_ok L' k'" "mq_ok k' q" "waiting L' (mq_list q) = tl (waiting L (mq_list q))"
    "\<forall>y. wait_head y \<longrightarrow> y \<noteq> mq_list q \<longrightarrow> waiting L' y = waiting L y"
    "mqs k' = mqs ?k1" "mem k' = mem ?k1" "woke (waiting L (mq_list q)) L' k k'"
    using mq_wake [OF ok d(2) c data_only_transfers(2) s(1) wait_head_Suspend] by blast
  define k0 where "k0 = mq_link_head q (msg_queue_free (mqs k q)) (mem_update (rt_memcpy (msg_queue_free (mqs k q) + 4) buf sz)
     (mq_pop_free q k))"
  have k1: "?k1 = upd_mq q (\<lambda>mq. mq\<lparr>mq_entry := mq_entry mq + 1\<rparr>) k0" by (simp add: mq_store_urgent_def k0_def Let_def)
  have "mq_entry (mqs k0 q) = mq_entry (mqs k q)"
    by (simp add: k0_def mq_link_head_def mq_pop_free_def Let_def)
  then have "mq_entry (mqs k0 q) < RT_MQ_ENTRY_MAX" using mq_room_entry [OF d(1) f] by simp
  then have "mq_sent q k0 = Some (RT_EOK, k')" by (rule mq_sent_wakes [OF _ w(1) k1])
  moreover have "msg_queue_free (mqs k q) \<noteq> 0" using mq_full_iff [OF d(1)] f by simp
  moreover have "\<not> sz > ucast (msg_size (mqs k q))" using b(2) by simp
  ultimately have "rt_mq_urgent q buf sz k = Some (RT_EOK, k')"
    using b(3,4) mq_type [OF q] by (simp add: rt_mq_urgent_def Let_def k0_def)
  moreover have "mq_contents q k' = msg # mq_contents q k" using mq_data_cong(2) [of k' ?k1 q] w(6,7) msg(1) by simp
  ultimately show ?thesis using w msg(2,3) by (intro exI [of _ msg] exI [of _ L'] exI [of _ k']) (simp add: mq_view_def)
qed

lemma mq_recv_transfer:
  assumes ok: "kernel_ok L k" and q: "mq_ok k q" and c: "rt_current_thread k \<noteq> None"
    and m: "mq_contents q k = msg # ms" and b: "mq_buffer q k buf (unat sz)"
  shows "\<exists>L' k'. mq_recv_loop q th buf sz timeout k = Some (Done RT_EOK, k') \<and> kernel_ok L' k' \<and>
    mq_ok k' q \<and> mq_view L' k' q = (ms, waiting L (mq_list q), tl (waiting L (mq_senders q))) \<and>
    bytes (mem k') buf (min (unat sz) (unat (msg_size (mqs k q)))) =
      take (min (unat sz) (unat (msg_size (mqs k q)))) msg \<and>
    mqs k' = mqs (mq_fetch q buf sz k) \<and> rt_current_thread k' \<noteq> None \<and>
    woke (waiting L (mq_senders q)) L' k k'"
proof -
  have d: "mq_data_ok q k" "ipc_ok k (mq_obj q)" using q by (simp_all add: mq_ok_def)
  have ne: "mq_contents q k \<noteq> []" using m by simp
  note s = mq_fetch_laws [OF d(1) ne b]
  let ?k1 = "mq_fetch q buf sz k"
  have e: "mq_entry (mqs k q) \<noteq> 0" using mq_empty_iff [OF d(1)] ne by simp
  then have t: "data_only k ?k1" by (intro data_only_transfers(3)) (simp add: word_gt_0)
  obtain L' k' where w: "(if \<not> rt_list_isempty (mq_senders q) (lists ?k1)
      then do { (_, k) \<leftarrow> rt_ipc_list_resume (mq_senders q) ?k1; rt_schedule k } else Some ?k1) = Some k'"
    "kernel_ok L' k'" "mq_ok k' q" "waiting L' (mq_senders q) = tl (waiting L (mq_senders q))"
    "\<forall>y. wait_head y \<longrightarrow> y \<noteq> mq_senders q \<longrightarrow> waiting L' y = waiting L y"
    "mqs k' = mqs ?k1" "mem k' = mem ?k1" "rt_current_thread k' \<noteq> None"
    "woke (waiting L (mq_senders q)) L' k k'"
    using mq_wake [OF ok d(2) c t s(1) wait_head_Sender] by blast
  have "mq_recv_loop q th buf sz timeout k =
      (if \<not> rt_list_isempty (mq_senders q) (lists ?k1) then do {
          (_, k) \<leftarrow> rt_ipc_list_resume (mq_senders q) ?k1;
          k \<leftarrow> rt_schedule k;
          Some (Done RT_EOK, k)
        }
        else Some (Done RT_EOK, ?k1))"
    using e unfolding mq_recv_loop_def mq_fetch_def Let_def by simp
  then have run: "mq_recv_loop q th buf sz timeout k = Some (Done RT_EOK, k')"
    using w(1) by (auto split: if_splits bind_splits)
  have "mq_contents q k' = ms" using mq_data_cong(2) [of k' ?k1 q] w(6,7) s(3) m by simp
  then show ?thesis using run w s(4) m by (intro exI [of _ L'] exI [of _ k']) (simp add: mq_view_def)
qed




section \<open>A message queue is a bounded buffer\<close>

text \<open>A client that sends messages of full size from its own buffer, and receives into it.\<close>

definition put_bytes :: "u32 \<Rightarrow> u8 list \<Rightarrow> memory \<Rightarrow> memory" where
  "put_bytes p bs m = (\<lambda>a. if unat (a - p) < length bs then bs ! unat (a - p) else m a)"

definition mq_try_send :: "nat \<Rightarrow> u32 \<Rightarrow> u8 list \<Rightarrow> kernel \<Rightarrow> (bool \<times> kernel) option" where
  "mq_try_send q buf msg k = do {
     (r, k) \<leftarrow> rt_mq_send q buf (ucast (msg_size (mqs k q))) (k\<lparr>mem := put_bytes buf msg (mem k)\<rparr>);
     case r of Done e \<Rightarrow> Some (e = RT_EOK, k) | Blocked _ \<Rightarrow> None
   }"

definition mq_try_recv :: "nat \<Rightarrow> u32 \<Rightarrow> kernel \<Rightarrow> (u8 list option \<times> kernel) option" where
  "mq_try_recv q buf k = do {
     (r, k) \<leftarrow> rt_mq_recv q buf (ucast (msg_size (mqs k q))) 0 k;
     case r of Done e \<Rightarrow> Some (if e = RT_EOK then Some (bytes (mem k) buf (unat (msg_size (mqs k q)))) else None, k)
     | Blocked _ \<Rightarrow> None
   }"

definition mq_inv :: "nat \<Rightarrow> u32 \<Rightarrow> nat \<Rightarrow> kernel \<Rightarrow> bool" where
  "mq_inv q buf n k \<longleftrightarrow> (\<exists>L. kernel_ok L k) \<and> mq_ok k q \<and> rt_current_thread k \<noteq> None \<and>
     unat (msg_size (mqs k q)) = n \<and> mq_buffer q k buf n \<and> buf \<noteq> 0"

lemma put_bytes_facts:
  assumes "region p (length bs)"
  shows "writes_only p (length bs) m (put_bytes p bs m)" "bytes (put_bytes p bs m) p (length bs) = bs"
proof -
  show "writes_only p (length bs) m (put_bytes p bs m)"
    unfolding writes_only_def put_bytes_def using unat_diff_far [OF assms] by (auto simp: not_less [symmetric])
  have "unat (of_nat i :: u32) = i" if "i < length bs" for i
    using that assms by (intro unat_of_nat_id) (simp add: region_def)
  then show "bytes (put_bytes p bs m) p (length bs) = bs"
    by (intro nth_equalityI) (simp_all add: put_bytes_def)
qed

text \<open>Writing to a buffer outside of the pool changes no message.\<close>

lemma mq_write_buffer:
  assumes d: "mq_data_ok q k" and b: "mq_buffer q k buf n" and w: "writes_only buf n (mem k) m"
  shows "mq_data_ok q (k\<lparr>mem := m\<rparr>)" "mq_contents q (k\<lparr>mem := m\<rparr>) = mq_contents q k"
proof -
  let ?mq = "mqs k q"
  obtain qs fs where l: "mq_geometry ?mq" "mq_lists ?mq (mem k) qs fs" using d by (auto simp: mq_data_ok_def)
  have r: "region (mq_msg_pool ?mq) (mq_bytes ?mq)" and s: "0 < unat (msg_size ?mq)"
    using l(1) by (auto simp: mq_geometry_def word_gt_0 unat_gt_0)
  have a: "apart buf n (mq_msg_pool ?mq) (mq_bytes ?mq)" using b by (simp add: mq_buffer_def)
  have c: "load32 m c = load32 (mem k) c" "bytes m (c + 4) (unat (msg_size ?mq)) = bytes (mem k) (c + 4) (unat (msg_size ?mq))"
    if "c \<in> set (qs @ fs)" for c
  proof -
    have "c \<in> cells (mq_msg_pool ?mq) (unat (msg_size ?mq) + 4) (unat (max_msgs ?mq))"
      using that l(2) unfolding mq_lists_def mq_cells_def by blast
    note cr = cell_regions [OF r this]
    show "load32 m c = load32 (mem k) c" using a cr by (intro load32_frame [OF w cr(1)]) (auto simp: apart_def)
    show "bytes m (c + 4) (unat (msg_size ?mq)) = bytes (mem k) (c + 4) (unat (msg_size ?mq))"
      using a cr s by (intro bytes_frame [OF w cr(2)]) (auto simp: apart_def)
  qed
  have "linked_at m p qs = linked_at (mem k) p qs" "linked_at m p fs = linked_at (mem k) p fs" for p
    using c(1) by (intro linked_cong; simp)+
  then have lists: "mq_lists ?mq m qs fs" using l(2) by (simp add: mq_lists_def)
  then show "mq_data_ok q (k\<lparr>mem := m\<rparr>)" using l(1) by (auto simp: mq_data_ok_def)
  have "mq_contents q (k\<lparr>mem := m\<rparr>) = map (\<lambda>p. bytes m (p + 4) (unat (msg_size ?mq))) qs"
    using mq_contents_lists [of "k\<lparr>mem := m\<rparr>" q qs fs] lists by simp
  also have "\<dots> = map (\<lambda>p. bytes (mem k) (p + 4) (unat (msg_size ?mq))) qs"
    using c(2) by (intro map_cong refl) simp
  finally show "mq_contents q (k\<lparr>mem := m\<rparr>) = mq_contents q k" by (simp add: mq_contents_lists [OF l(2)])
qed

lemma mq_store_config:
  "msg_size (mqs (mq_store q buf sz k) q) = msg_size (mqs k q)"
  "max_msgs (mqs (mq_store q buf sz k) q) = max_msgs (mqs k q)"
  "mq_msg_pool (mqs (mq_store q buf sz k) q) = mq_msg_pool (mqs k q)"
  by (simp_all add: mq_store_closed Let_def)

lemma mq_fetch_config:
  assumes "mq_entry (mqs k q) > 0"
  shows "msg_size (mqs (mq_fetch q buf sz k) q) = msg_size (mqs k q)"
    "max_msgs (mqs (mq_fetch q buf sz k) q) = max_msgs (mqs k q)"
    "mq_msg_pool (mqs (mq_fetch q buf sz k) q) = mq_msg_pool (mqs k q)"
  by (simp_all add: mq_fetch_closed [OF assms] Let_def)

lemma mq_full_size: "mq_data_ok q k \<Longrightarrow> (ucast (msg_size (mqs k q)) :: u32) \<noteq> 0"
proof -
  assume "mq_data_ok q k"
  then have "0 < unat (msg_size (mqs k q))" by (auto simp: mq_data_ok_def mq_geometry_def word_gt_0 unat_gt_0)
  then have "unat (ucast (msg_size (mqs k q)) :: u32) \<noteq> 0" by (simp add: unat_ucast16)
  then show ?thesis by auto
qed

lemma mq_try_send_law:
  assumes i: "mq_inv q buf n k" and m: "length msg = n"
  shows "\<exists>r k'. mq_try_send q buf msg k = Some (r, k') \<and> mq_inv q buf n k' \<and> mq_capacity q k' = mq_capacity q k \<and>
    (r \<longleftrightarrow> length (mq_contents q k) < mq_capacity q k) \<and>
    mq_contents q k' = mq_contents q k @ (if r then [msg] else [])"
proof -
  obtain L where ok: "kernel_ok L k" and q: "mq_ok k q" and c: "rt_current_thread k \<noteq> None"
    and b: "unat (msg_size (mqs k q)) = n" "mq_buffer q k buf n" "buf \<noteq> 0"
    using i by (auto simp: mq_inv_def)
  let ?sz = "ucast (msg_size (mqs k q)) :: u32"
  have d: "mq_data_ok q k" using q by (simp add: mq_ok_def)
  have sz: "unat ?sz = n" "?sz \<noteq> 0" using b(1) mq_full_size [OF d] by (simp_all add: unat_ucast16)
  have r: "region buf (length msg)" using b(2) m by (simp add: mq_buffer_def)
  define k0 where "k0 = k\<lparr>mem := put_bytes buf msg (mem k)\<rparr>"
  note pb = put_bytes_facts [OF r, of "mem k", unfolded m]
  note w = mq_write_buffer [OF d b(2) pb(1), folded k0_def]
  note f = data_only_facts [OF data_only_transfers(4) [of k "put_bytes buf msg (mem k)", folded k0_def]]
  have q0: "mqs k0 = mqs k" "mem k0 = put_bytes buf msg (mem k)" by (simp_all add: k0_def)
  have ok0: "kernel_ok L k0" "mq_ok k0 q" "rt_current_thread k0 \<noteq> None" "mq_capacity q k0 = mq_capacity q k"
    "mq_buffer q k0 buf (unat ?sz)" "?sz \<le> ucast (msg_size (mqs k0 q))"
    using ok q c w f b sz q0 mq_data_cong(3,4) [of k0 k] by (simp_all add: mq_ok_def)
  have call: "mq_try_send q buf msg k = do {
     (r, k) \<leftarrow> (if msg_queue_free (mqs k q) = 0 then Some (Done (- RT_EFULL), k0)
       else mq_send_loop q (rt_thread_self k0) buf ?sz 0 k0);
     case r of Done e \<Rightarrow> Some (e = RT_EOK, k) | Blocked _ \<Rightarrow> None }"
    using mq_type [OF ok0(2)] b(3) sz(2)
    by (simp add: mq_try_send_def rt_mq_send_def rt_mq_send_wait_def q0 k0_def [symmetric])
  show ?thesis
  proof (cases "length (mq_contents q k) < mq_capacity q k")
    case True
    then have room: "length (mq_contents q k0) < mq_capacity q k0" using w(2) ok0(4) by simp
    obtain m' L' k' where k': "mq_send_loop q (rt_thread_self k0) buf ?sz 0 k0 = Some (Done RT_EOK, k')"
      "kernel_ok L' k'" "mq_ok k' q" "length m' = n" "take n m' = bytes (mem k0) buf n"
      "mq_contents q k' = mq_contents q k0 @ [m']" "mqs k' = mqs (mq_store q buf ?sz k0)" "rt_current_thread k' \<noteq> None"
      using mq_send_transfer [OF ok0(1-3) room ok0(5,6), of "rt_thread_self k0" 0] b(1) sz(1) q0(1)
      by (auto simp: mq_view_def)
    have "m' = msg" using k'(4,5) pb(2) q0(2) by simp
    moreover have "mq_try_send q buf msg k = Some (True, k')"
      using True mq_full_iff [OF d] k'(1) by (simp add: call)
    moreover have "mq_inv q buf n k'"
      using k' b q0 mq_store_config [of q buf ?sz k0] by (auto simp: mq_inv_def mq_buffer_def)
    moreover have "mq_capacity q k' = mq_capacity q k"
      using k'(7) q0 mq_store_config [of q buf ?sz k0] by (simp add: mq_capacity_def)
    ultimately show ?thesis using True k'(6) w(2) by (intro exI [of _ True] exI [of _ k']) simp
  next
    case False
    then have "mq_try_send q buf msg k = Some (False, k0)" using mq_full_iff [OF d] by (simp add: call)
    moreover have "mq_inv q buf n k0" using ok0 b q0 sz by (auto simp: mq_inv_def)
    ultimately show ?thesis using False w(2) ok0(4) by (intro exI [of _ False] exI [of _ k0]) simp
  qed
qed

lemma mq_try_recv_law:
  assumes i: "mq_inv q buf n k"
  shows "\<exists>r k'. mq_try_recv q buf k = Some (r, k') \<and> mq_inv q buf n k' \<and> mq_capacity q k' = mq_capacity q k \<and>
    mq_contents q k = (case r of None \<Rightarrow> [] | Some m \<Rightarrow> [m]) @ mq_contents q k' \<and>
    (r = None \<longleftrightarrow> mq_contents q k = [])"
proof -
  obtain L where ok: "kernel_ok L k" and q: "mq_ok k q" and c: "rt_current_thread k \<noteq> None"
    and b: "unat (msg_size (mqs k q)) = n" "mq_buffer q k buf n" "buf \<noteq> 0"
    using i by (auto simp: mq_inv_def)
  let ?sz = "ucast (msg_size (mqs k q)) :: u32"
  have d: "mq_data_ok q k" using q by (simp add: mq_ok_def)
  have sz: "unat ?sz = n" "?sz \<noteq> 0" using b(1) mq_full_size [OF d] by (simp_all add: unat_ucast16)
  show ?thesis
  proof (cases "mq_contents q k")
    case Nil
    then have "mq_try_recv q buf k = Some (None, k)"
      using mq_empty_iff [OF d] b(3) sz(2) by (simp add: mq_try_recv_def rt_mq_recv_def mq_type [OF q])
    then show ?thesis using Nil i by simp
  next
    case (Cons msg ms)
    have buf: "mq_buffer q k buf (unat ?sz)" using b(2) sz(1) by simp
    obtain L' k' where k': "mq_recv_loop q (rt_thread_self k) buf ?sz 0 k = Some (Done RT_EOK, k')"
      "kernel_ok L' k'" "mq_ok k' q" "mq_contents q k' = ms" "bytes (mem k') buf n = take n msg"
      "mqs k' = mqs (mq_fetch q buf ?sz k)" "rt_current_thread k' \<noteq> None"
      using mq_recv_transfer [OF ok q c Cons buf, of "rt_thread_self k" 0] b(1) sz(1) by (auto simp: mq_view_def)
    have e: "mq_entry (mqs k q) \<noteq> 0" using mq_empty_iff [OF d] Cons by simp
    then have cf: "msg_size (mqs k' q) = msg_size (mqs k q)" "max_msgs (mqs k' q) = max_msgs (mqs k q)"
      "mq_msg_pool (mqs k' q) = mq_msg_pool (mqs k q)"
      using mq_fetch_config [of k q buf ?sz] k'(6) by (simp_all add: word_gt_0)
    have "length msg = n"
      using Cons b(1) by (auto simp: mq_contents_def Cons_eq_map_conv)
    then have "mq_try_recv q buf k = Some (Some msg, k')"
      using e k'(1,5) cf(1) b(1,3) sz(2) by (simp add: mq_try_recv_def rt_mq_recv_def mq_type [OF q])
    moreover have "mq_inv q buf n k'" using k' b cf by (auto simp: mq_inv_def mq_buffer_def)
    moreover have "mq_capacity q k' = mq_capacity q k" using cf by (simp add: mq_capacity_def)
    ultimately show ?thesis using Cons k'(4) by (intro exI [of _ "Some msg"] exI [of _ k']) simp
  qed
qed

interpretation msgqueue: bounded_fifo "mq_inv q buf n" "mq_contents q" "mq_capacity q" "mq_try_send q buf"
  "mq_try_recv q buf" "\<lambda>msg. length msg = n" for q buf n
proof
  show "mq_inv q buf n k \<Longrightarrow> length (mq_contents q k) \<le> mq_capacity q k" for k
    by (rule mq_contents_bounded) (simp add: mq_inv_def mq_ok_def)
qed (use mq_try_send_law mq_try_recv_law in blast)+

section \<open>Properties\<close>


text \<open>A queue of two messages of 4 bytes in the demo kernel; its buffer is at \<open>0x3000\<close>.\<close>

definition demo_mq :: kernel where
  "demo_mq = demo\<lparr>mem := store32 0x2008 0x2000 (\<lambda>_. 0),
     mqs := \<lambda>_. \<lparr>mq_msg_pool = 0x2000, msg_size = 4, max_msgs = 2, mq_entry = 0,
       msg_queue_head = 0, msg_queue_tail = 0, msg_queue_free = 0x2008\<rparr>\<rparr>"

lemma demo_mq_ok:
  "kernel_ok demo_ring demo_mq" "mq_ok demo_mq q" "mq_contents q demo_mq = []" "mq_capacity q demo_mq = 2"
  "rt_current_thread demo_mq = Some 2" "thread_state demo_mq 2 = RT_THREAD_READY"
  "thread_state demo_mq 0 = RT_THREAD_READY" "mq_buffer q demo_mq 0x3000 4" "mq_inv q 0x3000 4 demo_mq"
  "msg_size (mqs demo_mq q) = 4"
proof -
  have t: "data_only demo demo_mq" unfolding data_only_def demo_mq_def by blast
  note f = data_only_facts [OF t]
  show k: "kernel_ok demo_ring demo_mq" "rt_current_thread demo_mq = Some 2"
    "thread_state demo_mq 2 = RT_THREAD_READY" "thread_state demo_mq 0 = RT_THREAD_READY"
    using demo_ok f by simp_all
  have m: "mqs demo_mq q = \<lparr>mq_msg_pool = 0x2000, msg_size = 4, max_msgs = 2, mq_entry = 0,
       msg_queue_head = 0, msg_queue_tail = 0, msg_queue_free = 0x2008\<rparr>" by (simp add: demo_mq_def)
  have "load32 (store32 0x2008 0x2000 (\<lambda>_. 0)) 0x2000 = 0"
    by (subst load32_store32_other) (simp_all add: load32_def)
  moreover have "{..<2 :: nat} = {0, 1}" by auto
  then have "mq_cells (mqs demo_mq q) = {0x2000, 0x2008}" by (simp add: mq_cells_def cells_def cell_def m)
  ultimately have "mq_lists (mqs demo_mq q) (mem demo_mq) [] [0x2008, 0x2000]"
    unfolding mq_lists_def by (auto simp: demo_mq_def)
  moreover have "mq_geometry (mqs demo_mq q)" by (simp add: m mq_geometry_def region_def)
  ultimately have d: "mq_data_ok q demo_mq" by (auto simp: mq_data_ok_def)
  have "ipc_ok demo (mq_obj q)" by (simp add: ipc_ok_def)
  then show ok: "mq_ok demo_mq q" using d f(5) by (simp add: mq_ok_def)
  show "mq_contents q demo_mq = []" "mq_capacity q demo_mq = 2" "msg_size (mqs demo_mq q) = 4"
    by (simp_all add: mq_contents_def mq_capacity_def m)
  show b: "mq_buffer q demo_mq 0x3000 4" by (simp add: mq_buffer_def m region_def apart_def)
  show "mq_inv q 0x3000 4 demo_mq" using k ok b by (auto simp: mq_inv_def m)
qed




text \<open>C17: \<open>rt_mq_urgent\<close>, with a buffer outside of the pool, puts a message in front of all others:
  it is the next one to be received, and the first waiting receiver, and no other thread, becomes
  ready, after which the highest ready thread is the running one (unless the scheduler is locked);
  a full queue and a message that is too long are refused, and nothing changes.\<close>

theorem rt_mq_urgent_first:
  assumes ok: "kernel_ok L k" and q: "mq_ok k q" and c: "rt_current_thread k \<noteq> None"
    and b: "mq_buffer q k buf (unat sz)" "buf \<noteq> 0" "sz \<noteq> 0"
  shows "\<exists>r L' k'. rt_mq_urgent q buf sz k = Some (r, k') \<and> kernel_ok L' k' \<and> mq_ok k' q \<and>
    (if sz > ucast (msg_size (mqs k q)) then r = - RT_ERROR \<and> k' = k
     else if length (mq_contents q k) = mq_capacity q k then r = - RT_EFULL \<and> k' = k
     else r = RT_EOK \<and> woke (waiting L (mq_list q)) L' k k' \<and>
       (\<exists>msg. length msg = unat (msg_size (mqs k q)) \<and> take (unat sz) msg = bytes (mem k) buf (unat sz) \<and>
         mq_view L' k' q = (msg # mq_contents q k, tl (waiting L (mq_list q)), waiting L (mq_senders q))))"
proof -
  have d: "mq_data_ok q k" using q by (simp add: mq_ok_def)
  have le: "length (mq_contents q k) \<le> mq_capacity q k" by (rule mq_contents_bounded [OF d])
  consider "sz > ucast (msg_size (mqs k q))"
    | "\<not> sz > ucast (msg_size (mqs k q))" "length (mq_contents q k) = mq_capacity q k"
    | "\<not> sz > ucast (msg_size (mqs k q))" "length (mq_contents q k) < mq_capacity q k" using le by fastforce
  then show ?thesis
  proof cases
    case 3
    then show ?thesis using mq_urgent_transfer [OF ok q c 3(2) b(1) _ b(2,3)] by fastforce
  qed (use ok q b mq_full_iff [OF d] in \<open>simp_all add: rt_mq_urgent_def mq_type [OF q]\<close>, blast+)
qed

theorem rt_mq_urgent_first_witness:
  "\<exists>msg L' k'. rt_mq_urgent 1 0x3000 4 demo_mq = Some (RT_EOK, k') \<and> kernel_ok L' k' \<and> mq_contents 1 k' = [msg]"
proof -
  have b: "mq_buffer 1 demo_mq 0x3000 (unat (4 :: u32))" using demo_mq_ok(8) [of 1] by simp
  show ?thesis
    using rt_mq_urgent_first [OF demo_mq_ok(1,2) _ b] demo_mq_ok(3,4,10) [of 1] demo_mq_ok(5)
    by (fastforce simp: mq_view_def)
qed

text \<open>C16: A client that sends messages of exactly the queue's message size from a buffer of its own,
  and receives into the same buffer, which lies outside of the queue's pool: any sequence of its
  non-blocking sends and receives runs to its end and delivers the accepted messages in order, each
  once and byte for byte: what has been delivered followed by what is in the queue is what was there
  followed by what has been accepted.  (For shorter messages the queue keeps and delivers a cell of
  the full size whose rest is whatever that cell held before.)\<close>

theorem rt_mq_fifo:
  assumes "mq_inv q buf n k" "\<And>m. Put m \<in> set rs \<Longrightarrow> length m = n"
  shows "\<exists>ins outs k'. msgqueue.run q buf rs k = Some (ins, outs, k') \<and> mq_inv q buf n k' \<and>
    mq_contents q k @ ins = outs @ mq_contents q k'"
  using msgqueue.run_fifo [OF assms(1), of rs] assms(2) by blast

theorem rt_mq_fifo_witness:
  "\<exists>ins outs k'. msgqueue.run 1 0x3000 [Put [1, 2, 3, 4], Put [5, 6, 7, 8], Get, Get, Get] demo_mq =
    Some (ins, outs, k') \<and> ins = outs @ mq_contents 1 k'"
proof -
  let ?rs = "[Put [1, 2, 3, 4], Put [5, 6, 7, 8], Get, Get, Get]"
  have "length m = 4" if "Put m \<in> set ?rs" for m using that by auto
  then show ?thesis using rt_mq_fifo [OF demo_mq_ok(9), of ?rs 1] demo_mq_ok(3) [of 1] by fastforce
qed

end
