(* ===== verification/Errno.thy ===== *)
theory Errno
  imports Thread
begin

text \<open>
  The error number of \<^verbatim>\<open>src/kservice.c\<close>: one per thread, and a global one for interrupt
  handlers and for the time before the first thread runs.
\<close>

definition rt_get_errno :: "kernel \<Rightarrow> err" where
  "rt_get_errno k =
     (if rt_interrupt_get_nest k \<noteq> 0 then rt_errno k
      else case rt_thread_self k of None \<Rightarrow> rt_errno k
        | Some tid \<Rightarrow> error (threads k tid))"

definition rt_set_errno :: "err \<Rightarrow> kernel \<Rightarrow> kernel" where
  "rt_set_errno err k =
     (if rt_interrupt_get_nest k \<noteq> 0 then k\<lparr>rt_errno := err\<rparr>
      else case rt_thread_self k of None \<Rightarrow> k\<lparr>rt_errno := err\<rparr>
        | Some tid \<Rightarrow> upd_thread tid (\<lambda>th. th\<lparr>error := err\<rparr>) k)"

text \<open>\<^verbatim>\<open>_rt_errno\<close>, the target of the macro \<^verbatim>\<open>errno\<close>: the address of the number in use.\<close>

datatype errno_ptr = Global_errno | Thread_errno tid

definition errno_location :: "kernel \<Rightarrow> errno_ptr" where
  "errno_location k =
     (if rt_interrupt_get_nest k \<noteq> 0 then Global_errno
      else case rt_thread_self k of Some tid \<Rightarrow> Thread_errno tid | None \<Rightarrow> Global_errno)"

fun load_errno :: "errno_ptr \<Rightarrow> kernel \<Rightarrow> err" where
  "load_errno Global_errno k = rt_errno k"
| "load_errno (Thread_errno t) k = error (threads k t)"

lemma rt_get_errno_location: "rt_get_errno k = load_errno (errno_location k) k"
  by (auto simp: rt_get_errno_def errno_location_def split: option.split)

lemma errno_location_set [simp]: "errno_location (rt_set_errno e k) = errno_location k"
  by (auto simp: rt_set_errno_def errno_location_def rt_interrupt_get_nest_def rt_thread_self_def
      split: option.split)

lemma rt_set_errno_load:
  "load_errno p (rt_set_errno e k) = (if p = errno_location k then e else load_errno p k)"
  by (cases p)
     (auto simp: rt_set_errno_def errno_location_def rt_interrupt_get_nest_def rt_thread_self_def
       split: option.split)

lemma rt_get_errno_set: "rt_get_errno (rt_set_errno e k) = e"
  by (simp add: rt_get_errno_location rt_set_errno_load)

end
