(* ===== verification/Mempool.thy ===== *)
theory Mempool
  imports IpcList Errno Regions Example
begin

text \<open>
  The memory pools of \<^verbatim>\<open>src/mempool.c\<close> (without \<^verbatim>\<open>rt_mp_create\<close> and \<^verbatim>\<open>rt_mp_delete\<close>, which need
  the heap): blocks of one size, each behind a header word, which links the free blocks and names
  the pool of an allocated one.  The number of a pool stands for the address of its control block,
  so that the header of an allocated block holds the number.
\<close>

section \<open>The operations\<close>

abbreviation mp_obj :: "nat \<Rightarrow> obj_ptr" where "mp_obj p \<equiv> Obj_mempool p"
abbreviation mp_list :: "nat \<Rightarrow> node" where "mp_list p \<equiv> Suspend_head (Obj_mempool p)"

text \<open>The loop that links the blocks: \<open>n\<close> blocks from number \<open>i\<close> on, of \<open>sz\<close> bytes with their headers.\<close>

fun mp_link_blocks :: "u32 \<Rightarrow> u32 \<Rightarrow> u32 \<Rightarrow> nat \<Rightarrow> memory \<Rightarrow> memory" where
  "mp_link_blocks block_ptr sz i 0 m = m"
| "mp_link_blocks block_ptr sz i (Suc n) m =
     mp_link_blocks block_ptr sz (i + 1) n (store32 (block_ptr + i * sz) (block_ptr + (i + 1) * sz) m)"

text \<open>A block size of \<open>0xfffffffc\<close> makes the divisor 0.\<close>

definition rt_mp_init :: "nat \<Rightarrow> char_ptr \<Rightarrow> u32 \<Rightarrow> u32 \<Rightarrow> u32 \<Rightarrow> kernel \<Rightarrow> (err \<times> kernel) option" where
  "rt_mp_init p nm start sz blk k = do {
     RT_ASSERT (p \<noteq> 0);
     RT_ASSERT (start \<noteq> 0);
     RT_ASSERT (sz > 0 \<and> blk > 0);
     k \<leftarrow> rt_object_init (mp_obj p) RT_Object_Class_MemPool nm k;
     let k = upd_mempool p (\<lambda>mp. mp\<lparr>start_address := start\<rparr>) k;
     let k = upd_mempool p (\<lambda>mp. mp\<lparr>mp_size := RT_ALIGN_DOWN sz RT_ALIGN_SIZE\<rparr>) k;
     let blk = RT_ALIGN blk RT_ALIGN_SIZE;
     let k = upd_mempool p (\<lambda>mp. mp\<lparr>block_size := blk\<rparr>) k;
     RT_ASSERT (blk + 4 \<noteq> 0);
     let k = upd_mempool p (\<lambda>mp. mp\<lparr>block_total_count := mp_size mp div (block_size mp + 4)\<rparr>) k;
     let k = upd_mempool p (\<lambda>mp. mp\<lparr>block_free_count := block_total_count mp\<rparr>) k;
     let k = upd_lists (rt_list_init (mp_list p)) k;
     let block_ptr = start_address (mempools k p);
     let n = block_total_count (mempools k p);
     let k = mem_update (mp_link_blocks block_ptr (blk + 4) 0 (unat n)) k;
     let k = mem_update (store32 (block_ptr + (n - 1) * (blk + 4)) 0) k;
     let k = upd_mempool p (\<lambda>mp. mp\<lparr>block_list := block_ptr\<rparr>) k;
     Some (RT_EOK, k)
   }"

text \<open>The loop that wakes up the waiting threads is the one of \<^const>\<open>rt_ipc_list_resume_all\<close>.\<close>

definition rt_mp_detach :: "nat \<Rightarrow> kernel \<Rightarrow> (err \<times> kernel) option" where
  "rt_mp_detach p k = do {
     RT_ASSERT (p \<noteq> 0);
     RT_ASSERT (rt_object_get_type (mp_obj p) k = RT_Object_Class_MemPool);
     RT_ASSERT (rt_object_is_systemobject (mp_obj p) k);
     (_, k) \<leftarrow> rt_ipc_list_resume_all (mp_list p) k;
     Some (RT_EOK, rt_object_detach (mp_obj p) k)
   }"

text \<open>\<open>(thread, time, before_sleep)\<close>; the result of \<^verbatim>\<open>rt_mp_alloc\<close> is an address or a blocked call.\<close>

type_synonym mp_frame = "tid \<times> u32 \<times> u32"

text \<open>Taking the first free block: the end of \<^verbatim>\<open>rt_mp_alloc\<close>.\<close>

definition mp_take :: "nat \<Rightarrow> kernel \<Rightarrow> (u32 \<times> kernel) option" where
  "mp_take p k = do {
     let k = upd_mempool p (\<lambda>mp. mp\<lparr>block_free_count := block_free_count mp - 1\<rparr>) k;
     let block_ptr = block_list (mempools k p);
     RT_ASSERT (block_ptr \<noteq> 0);
     let k = upd_mempool p (\<lambda>mp. mp\<lparr>block_list := load32 (mem k) block_ptr\<rparr>) k;
     let k = mem_update (store32 block_ptr (of_nat p)) k;
     Some (block_ptr + 4, k)
   }"

definition mp_alloc_loop ::
  "nat \<Rightarrow> tid option \<Rightarrow> u32 \<Rightarrow> kernel \<Rightarrow> ((u32 + mp_frame) \<times> kernel) option" where
  "mp_alloc_loop p thread time k =
     (if block_free_count (mempools k p) = 0 then
        if time = 0 then Some (Inl 0, rt_set_errno (- RT_ETIMEOUT) k)
        else do {
          t \<leftarrow> thread;
          let k = upd_thread t (\<lambda>th. th\<lparr>error := RT_EOK\<rparr>) k;
          (_, k) \<leftarrow> rt_thread_suspend t k;
          let k = upd_lists (rt_list_insert_after (mp_list p) (Tlist t)) k;
          let before_sleep = (if sint time > 0 then rt_tick k else 0);
          k \<leftarrow> start_wait_timer t time k;
          k \<leftarrow> rt_schedule k;
          Some (Inr (t, time, before_sleep), k)
        }
      else do {
        (block, k) \<leftarrow> mp_take p k;
        Some (Inl block, k)
      })"

definition rt_mp_alloc :: "nat \<Rightarrow> u32 \<Rightarrow> kernel \<Rightarrow> ((u32 + mp_frame) \<times> kernel) option" where
  "rt_mp_alloc p time k = do {
     RT_ASSERT (p \<noteq> 0);
     mp_alloc_loop p (rt_thread_self k) time k
   }"

definition rt_mp_alloc_wake ::
  "nat \<Rightarrow> mp_frame \<Rightarrow> kernel \<Rightarrow> ((u32 + mp_frame) \<times> kernel) option" where
  "rt_mp_alloc_wake p fr k = (case fr of (t, time, before_sleep) \<Rightarrow>
     if error (threads k t) \<noteq> RT_EOK then Some (Inl 0, k)
     else mp_alloc_loop p (Some t) (remaining_timeout time before_sleep k) k)"

text \<open>Giving a block back: the part of \<^verbatim>\<open>rt_mp_free\<close> before it looks for waiting threads.\<close>

definition mp_give :: "nat \<Rightarrow> u32 \<Rightarrow> kernel \<Rightarrow> kernel" where
  "mp_give p block_ptr k = (let
     k = upd_mempool p (\<lambda>mp. mp\<lparr>block_free_count := block_free_count mp + 1\<rparr>) k;
     k = mem_update (store32 block_ptr (block_list (mempools k p))) k
   in upd_mempool p (\<lambda>mp. mp\<lparr>block_list := block_ptr\<rparr>) k)"

definition rt_mp_free :: "u32 \<Rightarrow> kernel \<Rightarrow> kernel option" where
  "rt_mp_free block k =
     (if block = 0 then Some k
      else do {
        let block_ptr = block - 4;
        let p = unat (load32 (mem k) block_ptr);
        let k = mp_give p block_ptr k;
        if \<not> rt_list_isempty (mp_list p) (lists k) then do {
          t \<leftarrow> thread_entry (nxt (lists k) (mp_list p));
          let k = upd_thread t (\<lambda>th. th\<lparr>error := RT_EOK\<rparr>) k;
          (_, k) \<leftarrow> rt_thread_resume t k;
          rt_schedule k
        }
        else Some k
      })"

section \<open>The blocks\<close>

definition mp_cells :: "rt_mempool \<Rightarrow> u32 set" where
  "mp_cells mp = cells (start_address mp) (unat (block_size mp) + 4) (unat (block_total_count mp))"

text \<open>The headers of the free blocks, the next one to be allocated first, and of the allocated ones.\<close>

definition mp_free_list :: "nat \<Rightarrow> kernel \<Rightarrow> u32 list" where
  "mp_free_list p k = walk (unat (block_free_count (mempools k p))) (block_list (mempools k p)) (mem k)"

definition mp_used :: "nat \<Rightarrow> kernel \<Rightarrow> u32 set" where
  "mp_used p k = mp_cells (mempools k p) - set (mp_free_list p k)"

definition mp_data_ok :: "nat \<Rightarrow> kernel \<Rightarrow> bool" where
  "mp_data_ok p k \<longleftrightarrow> (let mp = mempools k p; fs = mp_free_list p k in
     0 < p \<and> p < 2 ^ 32 \<and> start_address mp \<noteq> 0 \<and> block_size mp \<noteq> 0 \<and>
     region (start_address mp) (unat (block_total_count mp) * (unat (block_size mp) + 4)) \<and>
     linked_at (mem k) (block_list mp) fs \<and> distinct fs \<and> set fs \<subseteq> mp_cells mp \<and>
     (\<forall>c \<in> mp_used p k. load32 (mem k) c = of_nat p))"

lemma length_walk [simp]: "length (walk n p m) = n"
  by (induction n arbitrary: p) auto

lemma length_mp_free_list [simp]:
  "length (mp_free_list p k) = unat (block_free_count (mempools k p))"
  by (simp add: mp_free_list_def)

lemma mp_data_okD:
  assumes "mp_data_ok p k"
  shows "0 < p" "p < 2 ^ 32" "linked_at (mem k) (block_list (mempools k p)) (mp_free_list p k)"
    "distinct (mp_free_list p k)" "set (mp_free_list p k) \<subseteq> mp_cells (mempools k p)"
    "c \<in> mp_used p k \<Longrightarrow> load32 (mem k) c = of_nat p"
    "region (start_address (mempools k p))
       (unat (block_total_count (mempools k p)) * (unat (block_size (mempools k p)) + 4))"
    "start_address (mempools k p) \<noteq> 0" "block_size (mempools k p) \<noteq> 0"
  using assms by (simp_all add: mp_data_ok_def Let_def)

text \<open>Blocks do not overlap, do not wrap around and are not at address 0.\<close>

lemma mp_cells_facts:
  assumes "mp_data_ok p k" "a \<in> mp_cells (mempools k p)"
  shows "region a (unat (block_size (mempools k p)) + 4)" "0 < unat a"
    "b \<in> mp_cells (mempools k p) \<Longrightarrow> a \<noteq> b \<Longrightarrow>
       apart a (unat (block_size (mempools k p)) + 4) b (unat (block_size (mempools k p)) + 4)"
    "card (mp_cells (mempools k p)) = unat (block_total_count (mempools k p))"
    "finite (mp_cells (mempools k p))"
proof -
  note r = mp_data_okD(7) [OF assms(1)]
  have pos: "0 < unat (block_size (mempools k p)) + 4" by simp
  note c = cells_region [OF r pos assms(2) [unfolded mp_cells_def]]
  show "region a (unat (block_size (mempools k p)) + 4)" by (rule c(1))
  have "0 < unat (start_address (mempools k p))" using mp_data_okD(8) [OF assms(1)] by (simp add: unat_gt_0)
  then show "0 < unat a" using c(2) by linarith
  show "b \<in> mp_cells (mempools k p) \<Longrightarrow> a \<noteq> b \<Longrightarrow>
       apart a (unat (block_size (mempools k p)) + 4) b (unat (block_size (mempools k p)) + 4)"
    using cells_apart [OF r pos] assms(2) by (simp add: mp_cells_def)
  show "card (mp_cells (mempools k p)) = unat (block_total_count (mempools k p))"
    "finite (mp_cells (mempools k p))"
    using card_cells [OF r pos] by (simp_all add: mp_cells_def)
qed

lemma mp_header_other:
  assumes ok: "mp_data_ok p k" and ab: "a \<in> mp_cells (mempools k p)" "b \<in> mp_cells (mempools k p)" "a \<noteq> b"
  shows "load32 (store32 a w m) b = load32 m b"
proof -
  let ?s = "unat (block_size (mempools k p)) + 4"
  have "region a 4" "region b 4"
    using mp_cells_facts(1) [OF ok] ab by (auto intro: region_mono [of _ ?s])
  moreover have "apart a 4 b 4"
    using mp_cells_facts(3) [OF ok ab(1,2,3)] by (rule apart_mono) simp_all
  ultimately show ?thesis by (intro load32_frame [OF writes_only_store32])
qed

lemma mp_used_room:
  assumes ok: "mp_data_ok p k" and c: "c \<in> mp_used p k"
  shows "unat (block_free_count (mempools k p) + 1) = length (mp_free_list p k) + 1"
proof -
  let ?fs = "mp_free_list p k" and ?C = "mp_cells (mempools k p)"
  have cC: "c \<in> ?C" using c by (simp add: mp_used_def)
  have "card (set ?fs) < card ?C"
    using mp_cells_facts(5) [OF ok cC] mp_data_okD(5) [OF ok] c
    by (intro psubset_card_mono) (auto simp: mp_used_def)
  then have "length ?fs < unat (block_total_count (mempools k p))"
    using mp_data_okD(4) [OF ok] mp_cells_facts(4) [OF ok cC] by (simp add: distinct_card)
  then have "unat (block_free_count (mempools k p)) + 1 < 2 ^ 32"
    using unsigned_less [of "block_total_count (mempools k p)", where 'a = nat] by simp
  then show ?thesis by (simp add: unat_word_ariths)
qed

text \<open>Allocating takes the first free block, giving back puts a block in front.\<close>

lemma mp_take_closed:
  assumes ok: "mp_data_ok p k" and f: "mp_free_list p k = f # fs"
  shows "mp_take p k = Some (f + 4, k\<lparr>mempools := (mempools k)(p := (mempools k p)\<lparr>
      block_free_count := block_free_count (mempools k p) - 1, block_list := load32 (mem k) f\<rparr>),
      mem := store32 f (of_nat p) (mem k)\<rparr>)"
proof -
  have "block_list (mempools k p) = f" "f \<noteq> 0" using mp_data_okD(3) [OF ok] f by simp_all
  then show ?thesis by (cases k) (simp add: mp_take_def Let_def)
qed

lemma mp_take_law:
  assumes ok: "mp_data_ok p k" and f: "mp_free_list p k = f # fs"
  obtains k' where "mp_take p k = Some (f + 4, k')" "mp_data_ok p k'" "mp_free_list p k' = fs"
    "mp_cells (mempools k' p) = mp_cells (mempools k p)" "mp_used p k' = insert f (mp_used p k)"
proof -
  let ?m = "store32 f (of_nat p) (mem k)"
  define k' where "k' = k\<lparr>mempools := (mempools k)(p := (mempools k p)\<lparr>
      block_free_count := block_free_count (mempools k p) - 1, block_list := load32 (mem k) f\<rparr>),
      mem := ?m\<rparr>"
  note d = mp_data_okD [OF ok]
  have fC: "f \<in> mp_cells (mempools k p)" "set fs \<subseteq> mp_cells (mempools k p)" "f \<notin> set fs"
    "distinct fs" "linked_at (mem k) (load32 (mem k) f) fs"
    using d(3,4,5) f by simp_all
  have C: "mp_cells (mempools k' p) = mp_cells (mempools k p)"
    by (simp add: mp_cells_def k'_def)
  have other: "load32 ?m a = load32 (mem k) a" if "a \<in> mp_cells (mempools k p)" "a \<noteq> f" for a
    using mp_header_other [OF ok fC(1) that(1), of "of_nat p"] that(2) by blast
  have l: "linked_at ?m (load32 (mem k) f) fs"
    using fC other by (subst linked_cong [of fs ?m "mem k"]) auto
  have "length (mp_free_list p k) = Suc (length fs)" using f by simp
  then have n: "unat (block_free_count (mempools k p)) = Suc (length fs)" by simp
  then have "unat (block_free_count (mempools k p) - 1) = length fs"
    by (subst unat_minus_one) auto
  then have F: "mp_free_list p k' = fs"
    using linked_walk [OF l] by (simp add: mp_free_list_def k'_def)
  have U: "mp_used p k' = insert f (mp_used p k)"
    using fC by (auto simp: mp_used_def C F f)
  have "mp_data_ok p k'"
    unfolding mp_data_ok_def Let_def F C U
  proof (intro conjI ballI)
    show "linked_at (mem k') (block_list (mempools k' p)) fs" using l by (simp add: k'_def)
    fix c assume c: "c \<in> insert f (mp_used p k)"
    show "load32 (mem k') c = of_nat p"
    proof (cases "c = f")
      case False
      then show ?thesis using other [of c] d(6) [of c] c by (simp add: k'_def mp_used_def)
    qed (simp add: k'_def)
  qed (use d fC in \<open>simp_all add: k'_def\<close>)
  then show thesis using that [of k'] mp_take_closed [OF ok f] C F U by (simp add: k'_def)
qed

lemma mp_give_closed:
  "mp_give p c k = k\<lparr>mempools := (mempools k)(p := (mempools k p)\<lparr>
      block_free_count := block_free_count (mempools k p) + 1, block_list := c\<rparr>),
      mem := store32 c (block_list (mempools k p)) (mem k)\<rparr>"
  by (cases k) (simp add: mp_give_def Let_def)

lemma mp_give_law:
  assumes ok: "mp_data_ok p k" and c: "c \<in> mp_used p k"
  shows "mp_data_ok p (mp_give p c k)" "mp_free_list p (mp_give p c k) = c # mp_free_list p k"
    "mp_cells (mempools (mp_give p c k) p) = mp_cells (mempools k p)"
    "mp_used p (mp_give p c k) = mp_used p k - {c}"
proof -
  let ?k = "mp_give p c k" and ?fs = "mp_free_list p k"
  let ?m = "store32 c (block_list (mempools k p)) (mem k)"
  note d = mp_data_okD [OF ok]
  have cC: "c \<in> mp_cells (mempools k p)" "c \<notin> set ?fs" using c by (simp_all add: mp_used_def)
  show C: "mp_cells (mempools ?k p) = mp_cells (mempools k p)"
    by (simp add: mp_cells_def mp_give_closed)
  have other: "load32 ?m a = load32 (mem k) a" if "a \<in> mp_cells (mempools k p)" "a \<noteq> c" for a
    using mp_header_other [OF ok cC(1) that(1)] that(2) by blast
  have l: "linked_at ?m (block_list (mempools k p)) ?fs"
    using d(3,5) cC other by (subst linked_cong [of ?fs ?m "mem k"]) auto
  have "c \<noteq> 0" using mp_cells_facts(2) [OF ok cC(1)] by auto
  then have l': "linked_at ?m c (c # ?fs)" using l by simp
  show F: "mp_free_list p ?k = c # ?fs"
    using linked_walk [OF l'] mp_used_room [OF ok c]
    by (simp add: mp_free_list_def mp_give_closed del: walk.simps)
  show U: "mp_used p ?k = mp_used p k - {c}"
    by (auto simp: mp_used_def C F)
  show "mp_data_ok p ?k"
    unfolding mp_data_ok_def Let_def F C U
  proof (intro conjI ballI)
    show "linked_at (mem ?k) (block_list (mempools ?k p)) (c # ?fs)" using l' by (simp add: mp_give_closed)
    fix a assume "a \<in> mp_used p k - {c}"
    then show "load32 (mem ?k) a = of_nat p"
      using other [of a] d(6) [of a] by (simp add: mp_give_closed mp_used_def)
  qed (use d cC in \<open>simp_all add: mp_give_closed\<close>)
qed

section \<open>The pool in the kernel\<close>

lemma mp_data_cong:
  assumes "mempools k' = mempools k" "mem k' = mem k"
  shows "mp_data_ok p k' = mp_data_ok p k" "mp_free_list p k' = mp_free_list p k"
    "mp_used p k' = mp_used p k"
  using assms by (simp_all add: mp_data_ok_def mp_free_list_def mp_used_def)

lemma mp_take_frame:
  assumes "mp_take p k = Some (b, k')"
  shows "kernel_ok L k' = kernel_ok L k" "rt_current_thread k' = rt_current_thread k"
    "thread_state k' = thread_state k" "lists k' = lists k" "threads k' = threads k"
  using assms by (auto simp: mp_take_def Let_def fun_eq_iff thread_state_def split: if_splits)

lemma mp_give_frame [simp]:
  "kernel_ok L (mp_give p c k) = kernel_ok L k" "rt_current_thread (mp_give p c k) = rt_current_thread k"
  "thread_state (mp_give p c k) = thread_state k" "lists (mp_give p c k) = lists k"
  "threads (mp_give p c k) = threads k"
  by (simp_all add: mp_give_def Let_def fun_eq_iff thread_state_def)

lemma rt_set_errno_frame [simp]:
  "kernel_ok L (rt_set_errno e k) = kernel_ok L k" "mempools (rt_set_errno e k) = mempools k"
  "mem (rt_set_errno e k) = mem k" "rt_current_thread (rt_set_errno e k) = rt_current_thread k"
  "thread_state (rt_set_errno e k) u = thread_state k u"
proof -
  have "kernel_ok L (k\<lparr>rt_errno := e\<rparr>) = kernel_ok L k" by (rule kernel_ok_cong) simp_all
  then show "kernel_ok L (rt_set_errno e k) = kernel_ok L k"
    by (simp add: rt_set_errno_def split: option.split)
qed (simp_all add: rt_set_errno_def thread_state_def split: option.split)

lemma woke_errno: "woke [] L k (rt_set_errno e k)"
proof -
  have "cpu_ok (rt_set_errno e k) = cpu_ok k"
    by (rule cpu_ok_cong) (simp_all add: rt_set_errno_def split: option.split)
  then show ?thesis by (simp add: woke_def)
qed

lemma woke_take: "mp_take p k = Some (b, k') \<Longrightarrow> woke [] L k k'"
proof -
  assume a: "mp_take p k = Some (b, k')"
  then obtain f m where k': "k' = k\<lparr>mempools := f, mem := m\<rparr>"
    by (cases k) (auto simp: mp_take_def Let_def RT_ASSERT_def split: if_splits)
  have "cpu_ok k' = cpu_ok k" by (rule cpu_ok_cong) (simp_all add: k')
  then show ?thesis by (simp add: woke_def k' thread_state_def)
qed

text \<open>What a pool is to its users: the free blocks, and the waiting threads, of which the one that
  came last is served first.\<close>

definition mp_view :: "(node \<Rightarrow> node list) \<Rightarrow> kernel \<Rightarrow> nat \<Rightarrow> u32 list \<times> tid list" where
  "mp_view L k p = (mp_free_list p k, waiting L (mp_list p))"

fun mp_alloc_spec :: "tid \<Rightarrow> u32 \<Rightarrow> u32 \<Rightarrow> u32 list \<times> tid list \<Rightarrow>
    (u32 + mp_frame) \<times> u32 list \<times> tid list" where
  "mp_alloc_spec t time now (f # fs, ws) = (Inl (f + 4), fs, ws)"
| "mp_alloc_spec t time now ([], ws) =
     (if time = 0 then (Inl 0, [], ws)
      else (Inr (t, time, if sint time > 0 then now else 0), [], t # ws))"

fun mp_free_spec :: "u32 \<Rightarrow> u32 list \<times> tid list \<Rightarrow> u32 list \<times> tid list" where
  "mp_free_spec c (fs, ws) = (c # fs, tl ws)"

lemma mp_alloc_blocks:
  assumes ok: "kernel_ok L k" and e: "block_free_count (mempools k p) = 0" and time0: "time \<noteq> 0"
    and t: "thread_state k t = RT_THREAD_READY"
    and time: "sint time > 0 \<Longrightarrow> time < HALF_TICK_MAX"
  shows "mp_alloc_loop p (Some t) time k = do {
     k' \<leftarrow> rt_schedule (block_thread (mp_list p) 2 time t L (upd_thread t (\<lambda>th. th\<lparr>error := RT_EOK\<rparr>) k));
     Some (Inr (t, time, if sint time > 0 then rt_tick k else 0), k')
   }"
proof -
  let ?k = "upd_thread t (\<lambda>th. th\<lparr>error := RT_EOK\<rparr>) k"
  let ?q = "enqueue_thread (mp_list p) 2 t L ?k"
  have ok': "kernel_ok L ?k" "thread_state ?k t = RT_THREAD_READY" using ok t by simp_all
  have s: "do { (_, k) \<leftarrow> rt_thread_suspend t ?k; Some (upd_lists (rt_list_insert_after (mp_list p) (Tlist t)) k) } =
      Some ?q"
    by (rule list_suspend_front [OF ok' wait_head_Suspend]) simp_all
  have w: "start_wait_timer t time ?q = Some (block_thread (mp_list p) 2 time t L ?k)"
    by (rule start_wait_timer_closed [OF ok' wait_head_Suspend time])
  obtain e1 k1 where k1: "rt_thread_suspend t ?k = Some (e1, k1)"
      "upd_lists (rt_list_insert_after (mp_list p) (Tlist t)) k1 = ?q"
    using s by (auto split: bind_splits)
  have tick: "rt_tick ?q = rt_tick k" by simp
  show ?thesis
    using e time0 by (simp only: mp_alloc_loop_def if_True if_False Option.bind.simps k1 Let_def prod.case w tick refl)
qed

lemma mp_alloc_wait:
  assumes ok: "kernel_ok L k" and d: "mp_data_ok p k" and f: "mp_free_list p k = []"
    and t: "rt_current_thread k = Some t" "thread_state k t = RT_THREAD_READY"
    and idle: "thread_state k u = RT_THREAD_READY" "u \<noteq> t"
    and time: "sint time > 0 \<Longrightarrow> time < HALF_TICK_MAX" and time0: "time \<noteq> 0"
  shows "\<exists>L' k'. mp_alloc_loop p (Some t) time k =
      Some (Inr (t, time, if sint time > 0 then rt_tick k else 0), k') \<and>
    kernel_ok L' k' \<and> mp_data_ok p k' \<and> mp_free_list p k' = [] \<and>
    waiting L' (mp_list p) = t # waiting L (mp_list p) \<and> gave_up t time L' k k'"
proof -
  have e: "block_free_count (mempools k p) = 0"
    using f length_mp_free_list [of p k] by (simp add: unat_eq_0)
  obtain L' k' where k': "rt_schedule (block_thread (mp_list p) 2 time t L
        (upd_thread t (\<lambda>th. th\<lparr>error := RT_EOK\<rparr>) k)) = Some k'" "kernel_ok L' k'"
      "waiting L' (mp_list p) = wait_before 2 k t (waiting L (mp_list p)) @ t # wait_after 2 k t (waiting L (mp_list p))"
      "mempools k' = mempools k" "mem k' = mem k" "gave_up t time L' k k'"
    using block_switch_ok [OF ok t wait_head_Suspend [of "mp_obj p"] time idle, of 2] by blast
  then show ?thesis
    using mp_alloc_blocks [OF ok e time0 t(2) time] mp_data_cong [OF k'(4,5), of p] d f
    by (intro exI [of _ L'] exI [of _ k']) (simp add: wait_before_def wait_after_def)
qed

text \<open>The address of a block is not \<^verbatim>\<open>RT_NULL\<close>, and leads back to its header.\<close>

lemma mp_block_address:
  assumes d: "mp_data_ok p k" and c: "c \<in> mp_cells (mempools k p)"
  shows "c + 4 \<noteq> 0" "unat (c + 4) = unat c + 4"
    "unat c + 4 + unat (block_size (mempools k p)) \<le> 2 ^ 32"
proof -
  have r: "region c (unat (block_size (mempools k p)) + 4)" by (rule mp_cells_facts [OF d c])
  then show "unat c + 4 + unat (block_size (mempools k p)) \<le> 2 ^ 32" by (simp add: region_def)
  have "0 < unat (block_size (mempools k p))" using mp_data_okD(9) [OF d] by (simp add: unat_gt_0)
  then have "unat c + 4 < 2 ^ 32" using r by (simp add: region_def)
  then show u: "unat (c + 4) = unat c + 4" using unat_add_nat [of c 4] by simp
  then show "c + 4 \<noteq> 0" by auto
qed

lemma rt_mp_free_closed:
  assumes ok: "kernel_ok L k" and d: "mp_data_ok p k" and c: "c \<in> mp_used p k"
    and cur: "rt_current_thread k \<noteq> None"
  shows "\<exists>L' k'. rt_mp_free (c + 4) k = Some k' \<and> kernel_ok L' k' \<and> mp_data_ok p k' \<and>
    rt_current_thread k' \<noteq> None \<and> mp_free_list p k' = c # mp_free_list p k \<and>
    mp_used p k' = mp_used p k - {c} \<and> mp_cells (mempools k' p) = mp_cells (mempools k p) \<and>
    waiting L' (mp_list p) = tl (waiting L (mp_list p)) \<and>
    (\<forall>v. thread_state k' v = (if waiting L (mp_list p) \<noteq> [] \<and> v = hd (waiting L (mp_list p))
       then RT_THREAD_READY else thread_state k v))"
proof -
  let ?x = "mp_list p" and ?k = "mp_give p c k"
  note g = mp_give_law [OF d c]
  have cC: "c \<in> mp_cells (mempools k p)" using c by (simp add: mp_used_def)
  have h: "unat (load32 (mem k) c) = p"
    using mp_data_okD(2,6) [OF d] c by (simp add: unat_of_nat_id)
  have okg: "kernel_ok L ?k" and curg: "rt_current_thread ?k \<noteq> None" using ok cur by simp_all
  have e: "rt_list_isempty ?x (lists ?k) \<longleftrightarrow> waiting L ?x = []"
    by (rule waiting_empty [OF okg wait_head_Suspend])
  have free: "rt_mp_free (c + 4) k =
     (if waiting L ?x \<noteq> [] then do {
        t \<leftarrow> thread_entry (nxt (lists ?k) ?x);
        (_, k) \<leftarrow> rt_thread_resume t (upd_thread t (\<lambda>th. th\<lparr>error := RT_EOK\<rparr>) ?k);
        rt_schedule k
      } else Some ?k)"
    using mp_block_address(1) [OF d cC] e by (simp add: rt_mp_free_def h Let_def del: mp_give_frame)
  show ?thesis
  proof (cases "waiting L ?x")
    case Nil
    then show ?thesis using free okg curg g by (intro exI [of _ L] exI [of _ ?k]) simp
  next
    case (Cons t ts)
    let ?k1 = "upd_thread t (\<lambda>th. th\<lparr>error := RT_EOK\<rparr>) ?k"
    have ok1: "kernel_ok L ?k1" "rt_current_thread ?k1 \<noteq> None" using okg curg by simp_all
    have "L ?x = map Tlist (t # ts)" using waiting_map [OF okg wait_head_Suspend, of "mp_obj p"] Cons by simp
    then have n: "nxt (lists ?k) ?x = Tlist t"
      using rings_first [OF kernel_okD(4) [OF okg] wait_head_is_head [OF wait_head_Suspend]] by simp
    have e1: "rt_list_isempty ?x (lists ?k1) \<longleftrightarrow> waiting L ?x = []" using e by simp
    obtain L' k' where w: "(if \<not> rt_list_isempty ?x (lists ?k1)
        then do { (_, k) \<leftarrow> rt_ipc_list_resume ?x ?k1; rt_schedule k } else Some ?k1) = Some k'"
      "kernel_ok L' k'" "waiting L' ?x = tl (waiting L ?x)" "mempools k' = mempools ?k1" "mem k' = mem ?k1"
      "rt_current_thread k' \<noteq> None"
      "\<forall>v. thread_state k' v = (if waiting L ?x \<noteq> [] \<and> v = hd (waiting L ?x)
         then RT_THREAD_READY else thread_state ?k1 v)"
      using wake_first [OF ok1(1) wait_head_Suspend [of "mp_obj p"] ok1(2)] by blast
    have "rt_mp_free (c + 4) k = Some k'"
      using w(1) free Cons n e1 by (auto simp: rt_ipc_list_resume_def split: bind_splits)
    moreover have "mempools k' = mempools ?k" "mem k' = mem ?k" using w(4,5) by simp_all
    note mp_data_cong [OF this, of p] this
    ultimately show ?thesis using w(2,3,6,7) g Cons by (intro exI [of _ L'] exI [of _ k']) simp
  qed
qed

section \<open>A pool hands out its blocks\<close>

text \<open>
  The contract of an allocator of blocks: every block is either available or in use, an allocation
  hands out an available block and fails only if there is none, and a block in use can be given
  back.
\<close>

datatype pool_request = Acquire | Release nat

locale block_pool =
  fixes inv :: "'s \<Rightarrow> bool"
    and avail :: "'s \<Rightarrow> 'b set"
    and used :: "'s \<Rightarrow> 'b set"
    and acquire :: "'s \<Rightarrow> ('b option \<times> 's) option"
    and release :: "'b \<Rightarrow> 's \<Rightarrow> 's option"
  assumes separate: "inv s \<Longrightarrow> avail s \<inter> used s = {}"
    and acquire_law: "inv s \<Longrightarrow> \<exists>r s'. acquire s = Some (r, s') \<and> inv s' \<and>
      (case r of None \<Rightarrow> avail s = {} \<and> avail s' = {} \<and> used s' = used s
       | Some b \<Rightarrow> b \<in> avail s \<and> avail s' = avail s - {b} \<and> used s' = insert b (used s))"
    and release_law: "inv s \<Longrightarrow> b \<in> used s \<Longrightarrow> \<exists>s'. release b s = Some s' \<and> inv s' \<and>
      avail s' = insert b (avail s) \<and> used s' = used s - {b}"
begin

text \<open>A client that holds the blocks \<open>bs\<close>; \<open>Release i\<close> gives back the one at position \<open>i\<close>, if there
  is one.\<close>

fun run :: "pool_request list \<Rightarrow> 'b list \<Rightarrow> 's \<Rightarrow> ('b list \<times> 's) option" where
  "run [] bs s = Some (bs, s)"
| "run (Acquire # rs) bs s = do {
     (r, s) \<leftarrow> acquire s;
     run rs (case r of None \<Rightarrow> bs | Some b \<Rightarrow> bs @ [b]) s
   }"
| "run (Release i # rs) bs s =
     (if i < length bs then do {
        s \<leftarrow> release (bs ! i) s;
        run rs (take i bs @ drop (Suc i) bs) s
      } else run rs bs s)"

text \<open>Every request returns, the client never holds a block twice, and the blocks that are neither
  held nor available are those that others had before.\<close>

lemma run_safe:
  assumes "inv s" "distinct bs" "set bs \<subseteq> used s"
  shows "\<exists>bs' s'. run rs bs s = Some (bs', s') \<and> inv s' \<and> distinct bs' \<and> set bs' \<subseteq> used s' \<and>
    avail s' \<union> used s' = avail s \<union> used s \<and> used s' - set bs' = used s - set bs"
  using assms
proof (induction rs arbitrary: bs s)
  case (Cons req rs)
  show ?case
  proof (cases req)
    case Acquire
    obtain r s1 where a: "acquire s = Some (r, s1)" "inv s1"
      "case r of None \<Rightarrow> avail s = {} \<and> avail s1 = {} \<and> used s1 = used s
       | Some b \<Rightarrow> b \<in> avail s \<and> avail s1 = avail s - {b} \<and> used s1 = insert b (used s)"
      using acquire_law [OF Cons.prems(1)] by blast
    show ?thesis
    proof (cases r)
      case None
      then show ?thesis using Acquire a Cons.IH [OF a(2), of bs] Cons.prems by simp
    next
      case (Some b)
      have b: "b \<notin> used s" using separate [OF Cons.prems(1)] a(3) Some by auto
      have "distinct (bs @ [b])" "set (bs @ [b]) \<subseteq> used s1"
        using Cons.prems a(3) b Some by auto
      moreover have "avail s1 \<union> used s1 = avail s \<union> used s" "used s1 - set (bs @ [b]) = used s - set bs"
        using a(3) Some b by auto
      ultimately show ?thesis using Acquire a Cons.IH [OF a(2), of "bs @ [b]"] Some by simp
    qed
  next
    case (Release i)
    show ?thesis
    proof (cases "i < length bs")
      case False
      then show ?thesis using Release Cons by simp
    next
      case True
      let ?b = "bs ! i" and ?bs = "take i bs @ drop (Suc i) bs"
      have split: "bs = take i bs @ ?b # drop (Suc i) bs" by (rule id_take_nth_drop [OF True])
      have b: "?b \<in> used s" using Cons.prems(3) True by auto
      have d: "distinct (take i bs @ ?b # drop (Suc i) bs)" using Cons.prems(2) split by simp
      have bs: "set bs = insert ?b (set ?bs)" by (subst split) simp
      obtain s1 where s1: "release ?b s = Some s1" "inv s1" "avail s1 = insert ?b (avail s)"
        "used s1 = used s - {?b}" using release_law [OF Cons.prems(1) b] by blast
      have "distinct ?bs" "?b \<notin> set ?bs" using d by auto
      moreover have "set ?bs \<subseteq> used s1" using calculation Cons.prems(3) bs s1(4) by auto
      moreover have "avail s1 \<union> used s1 = avail s \<union> used s" "used s1 - set ?bs = used s - set bs"
        using b bs s1 calculation by auto
      ultimately show ?thesis using Release True s1 Cons.IH [OF s1(2), of ?bs] by simp
    qed
  qed
qed simp

text \<open>While the client holds fewer blocks than there are, it gets another one.\<close>

lemma acquire_succeeds:
  assumes "inv s" "avail s \<noteq> {}"
  shows "\<exists>b s'. acquire s = Some (Some b, s') \<and> b \<in> avail s \<and> inv s'"
  using acquire_law [OF assms(1)] assms(2) by (auto split: option.splits)

end

text \<open>The calls of a client that does not wait.\<close>

definition mp_try_alloc :: "nat \<Rightarrow> kernel \<Rightarrow> (u32 option \<times> kernel) option" where
  "mp_try_alloc p k = do {
     (r, k) \<leftarrow> rt_mp_alloc p 0 k;
     case r of Inl b \<Rightarrow> Some (if b = 0 then None else Some b, k) | Inr _ \<Rightarrow> None
   }"

definition mp_inv :: "nat \<Rightarrow> kernel \<Rightarrow> bool" where
  "mp_inv p k \<longleftrightarrow> (\<exists>L. kernel_ok L k) \<and> mp_data_ok p k \<and> rt_current_thread k \<noteq> None"

definition mp_avail :: "nat \<Rightarrow> kernel \<Rightarrow> u32 set" where
  "mp_avail p k = (\<lambda>c. c + 4) ` set (mp_free_list p k)"

definition mp_held :: "nat \<Rightarrow> kernel \<Rightarrow> u32 set" where
  "mp_held p k = (\<lambda>c. c + 4) ` mp_used p k"

lemma mp_avail_held: "mp_inv p k \<Longrightarrow> mp_avail p k \<inter> mp_held p k = {}"
  by (auto simp: mp_avail_def mp_held_def mp_used_def)

lemma mp_try_alloc_law:
  assumes "mp_inv p k"
  shows "\<exists>r k'. mp_try_alloc p k = Some (r, k') \<and> mp_inv p k' \<and>
    (case r of None \<Rightarrow> mp_avail p k = {} \<and> mp_avail p k' = {} \<and> mp_held p k' = mp_held p k
     | Some b \<Rightarrow> b \<in> mp_avail p k \<and> mp_avail p k' = mp_avail p k - {b} \<and>
         mp_held p k' = insert b (mp_held p k))"
proof -
  obtain L where ok: "kernel_ok L k" and d: "mp_data_ok p k" and c: "rt_current_thread k \<noteq> None"
    using assms by (auto simp: mp_inv_def)
  note p = mp_data_okD(1) [OF d]
  show ?thesis
  proof (cases "mp_free_list p k")
    case Nil
    then have e: "block_free_count (mempools k p) = 0"
      using length_mp_free_list [of p k] by (simp add: unat_eq_0)
    let ?k = "rt_set_errno (- RT_ETIMEOUT) k"
    have "mp_try_alloc p k = Some (None, ?k)"
      using p e by (simp add: mp_try_alloc_def rt_mp_alloc_def mp_alloc_loop_def)
    moreover have "mp_inv p ?k" using ok d c mp_data_cong(1) [of ?k k p] by (auto simp: mp_inv_def)
    ultimately show ?thesis
      using Nil mp_data_cong [of ?k k p] by (intro exI [of _ None] exI [of _ ?k]) (simp add: mp_avail_def mp_held_def)
  next
    case (Cons f fs)
    obtain k' where k': "mp_take p k = Some (f + 4, k')" "mp_data_ok p k'" "mp_free_list p k' = fs"
        "mp_used p k' = insert f (mp_used p k)" using mp_take_law [OF d Cons] by metis
    have f: "f \<in> mp_cells (mempools k p)" "f \<notin> set fs"
      using mp_data_okD(4,5) [OF d] Cons by simp_all
    have "block_free_count (mempools k p) \<noteq> 0"
      using length_mp_free_list [of p k] Cons by (auto simp: unat_eq_0 [symmetric] simp del: unat_eq_0)
    then have "mp_try_alloc p k = Some (Some (f + 4), k')"
      using p k'(1) mp_block_address(1) [OF d f(1)] by (simp add: mp_try_alloc_def rt_mp_alloc_def mp_alloc_loop_def)
    moreover have "mp_inv p k'" using k'(2) ok c mp_take_frame [OF k'(1)] by (auto simp: mp_inv_def)
    moreover have "mp_avail p k' = mp_avail p k - {f + 4}" using f(2) Cons k'(3) by (auto simp: mp_avail_def)
    ultimately show ?thesis
      using Cons k'(4) by (intro exI [of _ "Some (f + 4)"] exI [of _ k']) (simp add: mp_avail_def mp_held_def)
  qed
qed

lemma rt_mp_free_law:
  assumes "mp_inv p k" "b \<in> mp_held p k"
  shows "\<exists>k'. rt_mp_free b k = Some k' \<and> mp_inv p k' \<and> mp_avail p k' = insert b (mp_avail p k) \<and>
    mp_held p k' = mp_held p k - {b}"
proof -
  obtain L where ok: "kernel_ok L k" and d: "mp_data_ok p k" and c: "rt_current_thread k \<noteq> None"
    using assms(1) by (auto simp: mp_inv_def)
  obtain a where a: "b = a + 4" "a \<in> mp_used p k" using assms(2) by (auto simp: mp_held_def)
  obtain L' k' where k': "rt_mp_free (a + 4) k = Some k'" "kernel_ok L' k'" "mp_data_ok p k'"
      "rt_current_thread k' \<noteq> None" "mp_free_list p k' = a # mp_free_list p k"
      "mp_used p k' = mp_used p k - {a}"
    using rt_mp_free_closed [OF ok d a(2) c] by blast
  have "mp_held p k' = mp_held p k - {b}" by (auto simp: mp_held_def k' a)
  then show ?thesis using k' a by (auto simp: mp_inv_def mp_avail_def)
qed

interpretation mempool: block_pool "mp_inv p" "mp_avail p" "mp_held p" "mp_try_alloc p" rt_mp_free for p
  by unfold_locales (use mp_avail_held mp_try_alloc_law rt_mp_free_law in blast)+

section \<open>Initialisation\<close>

lemma mp_link_blocks_cells:
  fixes sz :: u32
  assumes r: "region bp (N * unat sz)" and sz: "4 \<le> unat sz" and i: "i + n \<le> N"
  shows "writes_only bp (N * unat sz) m (mp_link_blocks bp sz (of_nat i) n m)"
    "j < N \<Longrightarrow> load32 (mp_link_blocks bp sz (of_nat i) n m) (cell bp (unat sz) j) =
       (if i \<le> j \<and> j < i + n then cell bp (unat sz) (Suc j) else load32 m (cell bp (unat sz) j))"
proof -
  have addr: "bp + of_nat j * sz = cell bp (unat sz) j" for j by (simp add: cell_def)
  have pos: "0 < unat sz" using sz by simp
  have "writes_only bp (N * unat sz) m (mp_link_blocks bp sz (of_nat i) n m) \<and>
    (\<forall>j < N. load32 (mp_link_blocks bp sz (of_nat i) n m) (cell bp (unat sz) j) =
       (if i \<le> j \<and> j < i + n then cell bp (unat sz) (Suc j) else load32 m (cell bp (unat sz) j)))"
    using i
  proof (induction n arbitrary: i m)
    case 0
    then show ?case by (auto simp: writes_only_def)
  next
    case (Suc n)
    let ?m = "store32 (cell bp (unat sz) i) (cell bp (unat sz) (Suc i)) m"
    have iN: "i < N" using Suc.prems by simp
    note c = cell_facts [OF r iN pos]
    have step: "mp_link_blocks bp sz (of_nat i) (Suc n) m = mp_link_blocks bp sz (of_nat (Suc i)) n ?m"
      using addr [of i] addr [of "Suc i"] by (simp add: add.commute)
    have w: "writes_only bp (N * unat sz) m ?m"
      using c sz by (intro writes_only_within [OF writes_only_store32] region_mono [OF c(2)]) simp_all
    have o: "load32 ?m (cell bp (unat sz) j) = load32 m (cell bp (unat sz) j)" if "j < N" "j \<noteq> i" for j
    proof -
      have j: "cell bp (unat sz) j \<in> cells bp (unat sz) N" "cell bp (unat sz) i \<in> cells bp (unat sz) N"
        using that iN by (auto simp: cells_def)
      have "unat (cell bp (unat sz) i) \<noteq> unat (cell bp (unat sz) j)"
        using c(1) cell_facts(1) [OF r that(1) pos] that(2) pos by simp
      then have "cell bp (unat sz) i \<noteq> cell bp (unat sz) j" by auto
      from apart_mono [OF cells_apart [OF r pos j(2,1) this] sz sz]
      have "apart (cell bp (unat sz) i) 4 (cell bp (unat sz) j) 4" .
      then show ?thesis
        using region_mono [OF c(2) sz] region_mono [OF cell_facts(2) [OF r that(1) pos] sz]
        by (intro load32_frame [OF writes_only_store32])
    qed
    have IH: "writes_only bp (N * unat sz) ?m (mp_link_blocks bp sz (of_nat (Suc i)) n ?m)"
      "\<And>j. j < N \<Longrightarrow> load32 (mp_link_blocks bp sz (of_nat (Suc i)) n ?m) (cell bp (unat sz) j) =
         (if Suc i \<le> j \<and> j < Suc i + n then cell bp (unat sz) (Suc j) else load32 ?m (cell bp (unat sz) j))"
      using Suc.IH [of "Suc i" ?m] Suc.prems by simp_all
    have "load32 (mp_link_blocks bp sz (of_nat i) (Suc n) m) (cell bp (unat sz) j) =
       (if i \<le> j \<and> j < i + Suc n then cell bp (unat sz) (Suc j) else load32 m (cell bp (unat sz) j))"
      if "j < N" for j
      unfolding step IH(2) [OF that] using o [OF that] by (cases "j = i") auto
    then show ?case using writes_only_trans [OF w IH(1)] step by simp
  qed
  then show "writes_only bp (N * unat sz) m (mp_link_blocks bp sz (of_nat i) n m)"
    "j < N \<Longrightarrow> load32 (mp_link_blocks bp sz (of_nat i) n m) (cell bp (unat sz) j) =
       (if i \<le> j \<and> j < i + n then cell bp (unat sz) (Suc j) else load32 m (cell bp (unat sz) j))"
    by blast+
qed

lemma linked_cells:
  assumes "\<And>j. j < n \<Longrightarrow> cell p s j \<noteq> 0"
    and "\<And>j. Suc j < n \<Longrightarrow> load32 m (cell p s j) = cell p s (Suc j)"
    and "0 < n \<Longrightarrow> load32 m (cell p s (n - 1)) = 0" and "i \<le> n"
  shows "linked_at m (if i < n then cell p s i else 0) (map (cell p s) [i..<n])"
  using assms(4)
proof (induction i rule: inc_induct)
  case (step i)
  have "load32 m (cell p s i) = (if Suc i < n then cell p s (Suc i) else 0)"
    using assms(2) [of i] assms(3) step by (cases "Suc i = n") auto
  then show ?case using step assms(1) by (simp add: upt_conv_Cons del: upt_Suc)
qed simp

text \<open>The state of the pool after \<^const>\<open>rt_mp_init\<close>.\<close>

lemma mp_init_data:
  fixes start B T :: u32
  assumes p: "0 < p" "p < 2 ^ 32" and s: "start \<noteq> 0" and B: "4 \<le> unat B" "unat (B + 4) = unat B + 4"
    and T: "0 < unat T" and r: "region start (unat T * (unat B + 4))"
    and mp: "mempools k p = \<lparr>start_address = start, mp_size = S, block_size = B, block_list = start,
      block_total_count = T, block_free_count = T\<rparr>"
    and m: "mem k = store32 (start + (T - 1) * (B + 4)) 0 (mp_link_blocks start (B + 4) 0 (unat T) m0)"
  shows "mp_data_ok p k" "mp_used p k = {}" "mp_free_list p k = map (cell start (unat B + 4)) [0..<unat T]"
    "writes_only start (unat T * (unat B + 4)) m0 (mem k)"
proof -
  let ?n = "unat T" and ?s = "unat B + 4"
  let ?c = "cell start ?s"
  let ?m = "mp_link_blocks start (B + 4) 0 ?n m0"
  have r': "region start (?n * unat (B + 4))" using r B(2) by simp
  have s4: "4 \<le> unat (B + 4)" using B(2) by simp
  note l = mp_link_blocks_cells [OF r' s4, where i = 0 and n = ?n and m = m0, simplified, unfolded B(2)]
  have last: "start + (T - 1) * (B + 4) = ?c (?n - 1)"
  proof -
    have "of_nat (?n - 1) = T - 1" using T by (simp add: of_nat_diff)
    moreover have "of_nat ?s = B + 4" by simp
    ultimately show ?thesis by (simp add: cell_def)
  qed
  have c: "unat (?c j) = unat start + j * ?s" "region (?c j) ?s" "unat (?c j) + ?s \<le> unat start + ?n * ?s"
    if "j < ?n" for j using cell_facts [OF r that] by simp_all
  have other: "load32 (mem k) (?c j) = load32 ?m (?c j)" if "j < ?n - 1" for j
  proof -
    have j: "?c j \<in> cells start ?s ?n" "?c (?n - 1) \<in> cells start ?s ?n"
      using that T by (auto simp: cells_def)
    have "unat (?c j) \<noteq> unat (?c (?n - 1))" using c(1) [of j] c(1) [of "?n - 1"] that by simp
    then have ne: "?c (?n - 1) \<noteq> ?c j" by auto
    have "apart (?c (?n - 1)) 4 (?c j) 4"
      by (rule apart_mono [OF cells_apart [OF r _ j(2,1) ne]]) simp_all
    moreover have "region (?c j) 4" "region (?c (?n - 1)) 4"
      using c(2) [of j] c(2) [of "?n - 1"] that T by (auto intro: region_mono [of _ ?s])
    ultimately show ?thesis
      unfolding m last by (intro load32_frame [OF writes_only_store32])
  qed
  have "linked_at (mem k) (if 0 < ?n then ?c 0 else 0) (map ?c [0..<?n])"
  proof (rule linked_cells)
    fix j assume "j < ?n"
    then show "?c j \<noteq> 0" using c(1) [of j] s by (auto simp: unat_eq_0 [symmetric] simp del: unat_eq_0)
  next
    fix j assume "Suc j < ?n"
    then show "load32 (mem k) (?c j) = ?c (Suc j)" using other [of j] l(2) [of j] by simp
  next
    show "load32 (mem k) (?c (?n - 1)) = 0" unfolding m last by simp
  qed simp
  moreover have "?c 0 = start" by (simp add: cell_def)
  ultimately have L: "linked_at (mem k) start (map ?c [0..<?n])" using T by simp
  show F: "mp_free_list p k = map ?c [0..<?n]"
    using linked_walk [OF L] by (simp add: mp_free_list_def mp)
  have C: "mp_cells (mempools k p) = set (map ?c [0..<?n])"
    by (auto simp: mp_cells_def mp cells_def)
  show U: "mp_used p k = {}" by (simp add: mp_used_def F C)
  have "inj_on ?c {..<?n}"
  proof (rule inj_onI)
    fix i j assume ij: "i \<in> {..<?n}" "j \<in> {..<?n}" and e: "?c i = ?c j"
    have "unat (?c i) = unat (?c j)" by (rule arg_cong [OF e])
    then have "i * ?s = j * ?s" using c(1) [of i] c(1) [of j] ij by simp
    then show "i = j" unfolding mult_cancel2 by linarith
  qed
  then have D: "distinct (map ?c [0..<?n])" by (simp only: distinct_map distinct_upt set_upt atLeast0LessThan simp_thms)
  show "mp_data_ok p k"
    unfolding mp_data_ok_def Let_def F U C
  proof (intro conjI)
    show "block_size (mempools k p) \<noteq> 0" using B(1) by (auto simp: mp)
    show "region (start_address (mempools k p))
        (unat (block_total_count (mempools k p)) * (unat (block_size (mempools k p)) + 4))"
      using r by (simp only: mp rt_mempool.simps)
    show "linked_at (mem k) (block_list (mempools k p)) (map ?c [0..<?n])"
      using L by (simp only: mp rt_mempool.simps)
    show "start_address (mempools k p) \<noteq> 0" using s by (simp add: mp)
  qed (use p D in simp_all)
  have "writes_only start (?n * ?s) ?m (mem k)"
    unfolding m last using c(1,2,3) [of "?n - 1"] T
    by (intro writes_only_within [OF writes_only_store32]) (auto intro: region_mono [of _ ?s])
  then show "writes_only start (?n * ?s) m0 (mem k)" by (rule writes_only_trans [OF l(1)])
qed

lemma rt_mp_init_closed:
  assumes q: "queue_ok X L k" "runs_highest L k" "0 \<le> sint (rt_scheduler_lock_nest k)"
    and fresh: "\<not> on_list is_head L (Obj_list (mp_obj p))"
    and nm: "c_string nm = Some a" "length (name (objects k (mp_obj p))) = RT_NAME_MAX"
    and p: "0 < p" "p < 2 ^ 32" and s: "start \<noteq> 0" "region start (unat sz)"
    and blk: "0 < blk" "blk \<le> 0xfffffff8"
    and room: "unat (RT_ALIGN blk 4) + 4 \<le> unat (RT_ALIGN_DOWN sz 4)"
  shows "\<exists>k'. rt_mp_init p nm start sz blk k = Some (RT_EOK, k') \<and> mp_data_ok p k' \<and> mp_used p k' = {} \<and>
    mp_free_list p k' = map (cell start (unat (RT_ALIGN blk 4) + 4))
      [0..<unat (RT_ALIGN_DOWN sz 4) div (unat (RT_ALIGN blk 4) + 4)] \<and>
    rt_list_isempty (mp_list p) (lists k') \<and> writes_only start (unat sz) (mem k) (mem k')"
proof -
  define B S where "B = RT_ALIGN blk 4" and "S = RT_ALIGN_DOWN sz 4"
  define T where "T = S div (B + 4)"
  have b: "0 < unat blk" "unat blk \<le> 0xfffffff8"
    using blk by (simp_all add: word_less_nat_alt word_le_nat_alt)
  have "blk \<le> 0xfffffffc" using b(2) by (simp add: word_le_nat_alt)
  then have B: "unat B = 4 * ((unat blk + 3) div 4)" unfolding B_def by (rule unat_RT_ALIGN)
  then have B4: "4 \<le> unat B" "unat B + 4 < 2 ^ 32" using b by simp_all
  then have B4': "unat (B + 4) = unat B + 4" using unat_add_nat [of B 4] by simp
  then have Bn: "B + 4 \<noteq> 0" by auto
  have S: "unat S \<le> unat sz" unfolding S_def by (simp add: unat_RT_ALIGN_DOWN)
  have T: "unat T = unat S div (unat B + 4)" by (simp add: T_def unat_div B4')
  have T0: "0 < unat T" using room B4 by (simp add: T B_def [symmetric] S_def [symmetric] div_greater_zero_iff)
  have n: "unat T * (unat B + 4) \<le> unat S" unfolding T by (rule div_times_less_eq_dividend)
  obtain i where i: "rt_object_get_information (object_class (mp_obj p)) = Some i"
    using rt_object_get_information_container object_class_container by blast
  define k0 where "k0 = init_object (mp_obj p) i a k"
  have init: "rt_object_init (mp_obj p) RT_Object_Class_MemPool nm k = Some k0"
    using rt_object_init_closed [OF q i fresh nm] by (simp add: k0_def)
  have k0: "mem k0 = mem k" by (simp add: k0_def init_object_def)
  define k' where "k' = k0\<lparr>mempools := (mempools k0)(p := \<lparr>start_address = start, mp_size = S, block_size = B,
      block_list = start, block_total_count = T, block_free_count = T\<rparr>),
      lists := rt_list_init (mp_list p) (lists k0),
      mem := store32 (start + (T - 1) * (B + 4)) 0 (mp_link_blocks start (B + 4) 0 (unat T) (mem k0))\<rparr>"
  have all: "x\<lparr>start_address := start, mp_size := S, block_size := B, block_total_count := T,
      block_free_count := T, block_list := start\<rparr> = \<lparr>start_address = start, mp_size = S, block_size = B,
      block_list = start, block_total_count = T, block_free_count = T\<rparr>" for x :: rt_mempool
    by (cases x) simp
  have "0 < unat sz" using room S unfolding S_def by linarith
  then have sz0: "sz \<noteq> 0" by auto
  have run: "rt_mp_init p nm start sz blk k = Some (RT_EOK, k')"
    using p s Bn b sz0
    by (cases k0) (simp add: rt_mp_init_def init Let_def B_def [symmetric] S_def [symmetric] T_def [symmetric]
        k'_def word_neq_0_conv [symmetric] unat_gt_0 all)
  have "region start (unat T * (unat B + 4))" using s(2) n S by (auto intro: region_mono)
  note d = mp_init_data [OF p s(1) B4(1) B4' T0 this, of k' S "mem k"]
  have "mempools k' p = \<lparr>start_address = start, mp_size = S, block_size = B, block_list = start,
      block_total_count = T, block_free_count = T\<rparr>"
    "mem k' = store32 (start + (T - 1) * (B + 4)) 0 (mp_link_blocks start (B + 4) 0 (unat T) (mem k))"
    by (simp_all add: k'_def k0)
  note d = d [OF this]
  have "writes_only start (unat sz) (mem k) (mem k')"
    using n S by (intro writes_only_within [OF d(4)]) simp_all
  moreover have "rt_list_isempty (mp_list p) (lists k')"
    by (simp add: k'_def rt_list_isempty_def rt_list_init_def set_next_def set_prev_def)
  ultimately show ?thesis
    using run d(1,2,3) by (intro exI [of _ k']) (simp add: T B_def [symmetric] S_def [symmetric])
qed

section \<open>A pool of two blocks\<close>

definition demo_pool :: rt_mempool where
  "demo_pool = \<lparr>start_address = 0x3000, mp_size = 16, block_size = 4,
     block_list = 0x3000, block_total_count = 2, block_free_count = 2\<rparr>"

definition demo_pool_mem :: memory where
  "demo_pool_mem = store32 (0x3000 + (2 - 1) * (4 + 4)) 0
     (mp_link_blocks 0x3000 (4 + 4) 0 (unat (2 :: u32)) (\<lambda>_. 0))"

definition demo_mp :: kernel where
  "demo_mp = demo\<lparr>mempools := (mempools demo)(2 := demo_pool), mem := demo_pool_mem\<rparr>"

lemma demo_mp_ok: "mp_data_ok 2 demo_mp" "mp_used 2 demo_mp = {}" "mp_free_list 2 demo_mp = [0x3000, 0x3008]"
proof -
  have r: "region 0x3000 (unat (2 :: u32) * (unat (4 :: u32) + 4))" by (simp add: region_def)
  have p: "mempools demo_mp 2 = \<lparr>start_address = 0x3000, mp_size = 16, block_size = 4,
       block_list = 0x3000, block_total_count = 2, block_free_count = 2\<rparr>"
    by (simp add: demo_mp_def) (simp add: demo_pool_def)
  have m: "mem demo_mp = store32 (0x3000 + (2 - 1) * (4 + 4)) 0
      (mp_link_blocks 0x3000 (4 + 4) 0 (unat (2 :: u32)) (\<lambda>_. 0))"
    unfolding demo_pool_mem_def [symmetric] by (simp add: demo_mp_def)
  note d = mp_init_data [OF _ _ _ _ _ _ r p m]
  show "mp_data_ok 2 demo_mp" "mp_used 2 demo_mp = {}" by (rule d; simp)+
  have "mp_free_list 2 demo_mp = map (cell 0x3000 (unat (4 :: u32) + 4)) [0..<unat (2 :: u32)]"
    by (rule d) simp_all
  moreover have "[0..<unat (2 :: u32)] = [0, 1]" by code_simp
  ultimately show "mp_free_list 2 demo_mp = [0x3000, 0x3008]" by (simp add: cell_def)
qed

lemma demo_mp_kernel: "kernel_ok demo_ring demo_mp" "rt_current_thread demo_mp = Some 2"
  "thread_state demo_mp t = thread_state demo t" "rt_tick demo_mp = 100"
proof -
  show "kernel_ok demo_ring demo_mp" using demo_ok by (simp add: demo_mp_def)
qed (simp_all add: demo_mp_def thread_state_def)

section \<open>Properties\<close>

text \<open>C18: \<open>rt_mp_alloc\<close>, called by the running thread next to another ready thread (the idle thread),
  with a waiting time below half of the tick range or without limit, always comes to a result and refines the
  abstract pool: it takes the first free block, whose header from then on names the pool; without
  a free block it returns \<^verbatim>\<open>RT_NULL\<close> with the error \<open>-RT_ETIMEOUT\<close> or, with a waiting time, puts
  the caller in front of the waiting threads, suspends it (its timer running if the time is
  positive) and makes another thread, the highest ready one, the running thread, unless the
  scheduler is locked.  No other thread changes its state.\<close>

theorem rt_mp_alloc_refines:
  assumes ok: "kernel_ok L k" and d: "mp_data_ok p k"
    and t: "rt_current_thread k = Some t" "thread_state k t = RT_THREAD_READY"
    and idle: "thread_state k u = RT_THREAD_READY" "u \<noteq> t"
    and time: "sint time > 0 \<Longrightarrow> time < HALF_TICK_MAX"
  shows "\<exists>r L' k'. rt_mp_alloc p time k = Some (r, k') \<and> kernel_ok L' k' \<and> mp_data_ok p k' \<and>
    (r, mp_view L' k' p) = mp_alloc_spec t time (rt_tick k) (mp_view L k p) \<and>
    (r = Inl 0 \<longrightarrow> rt_get_errno k' = - RT_ETIMEOUT) \<and>
    (\<forall>c. r = Inl (c + 4) \<and> c + 4 \<noteq> 0 \<longrightarrow> c \<notin> mp_used p k \<and> mp_used p k' = insert c (mp_used p k)) \<and>
    (case r of Inl _ \<Rightarrow> woke [] L' k k' | Inr _ \<Rightarrow> gave_up t time L' k k')"
proof -
  note p = mp_data_okD(1) [OF d]
  have self: "rt_thread_self k = Some t" using t by (simp add: rt_thread_self_def)
  show ?thesis
  proof (cases "mp_free_list p k")
    case Nil
    then have e: "block_free_count (mempools k p) = 0"
      using length_mp_free_list [of p k] by (simp add: unat_eq_0)
    show ?thesis
    proof (cases "time = 0")
      case True
      let ?k = "rt_set_errno (- RT_ETIMEOUT) k"
      have "rt_mp_alloc p time k = Some (Inl 0, ?k)"
        using p e True by (simp add: rt_mp_alloc_def mp_alloc_loop_def)
      then show ?thesis
        using ok d Nil True mp_data_cong [of ?k k p]
        by (intro exI [of _ "Inl 0"] exI [of _ L] exI [of _ ?k]) (simp add: mp_view_def rt_get_errno_set woke_errno)
    next
      case False
      then show ?thesis
        using mp_alloc_wait [OF ok d Nil t idle time False] p self Nil
        by (simp add: rt_mp_alloc_def) (fastforce simp: mp_view_def)
    qed
  next
    case (Cons f fs)
    obtain k' where k': "mp_take p k = Some (f + 4, k')" "mp_data_ok p k'" "mp_free_list p k' = fs"
        "mp_used p k' = insert f (mp_used p k)" using mp_take_law [OF d Cons] by metis
    have f: "f \<in> mp_cells (mempools k p)" "f \<notin> mp_used p k"
      using mp_data_okD(5) [OF d] Cons by (simp_all add: mp_used_def)
    have "block_free_count (mempools k p) \<noteq> 0"
      using length_mp_free_list [of p k] Cons by (auto simp: unat_eq_0 [symmetric] simp del: unat_eq_0)
    then have "rt_mp_alloc p time k = Some (Inl (f + 4), k')"
      using p k'(1) by (simp add: rt_mp_alloc_def mp_alloc_loop_def)
    then show ?thesis
      using ok k' Cons f mp_take_frame [OF k'(1)] mp_block_address(1) [OF d f(1)] woke_take [OF k'(1)]
      by (intro exI [of _ "Inl (f + 4)"] exI [of _ L] exI [of _ k']) (simp add: mp_view_def)
  qed
qed

theorem rt_mp_alloc_refines_witness:
  "\<exists>L' k'. rt_mp_alloc 2 7 demo_mp = Some (Inl 0x3004, k') \<and> mp_data_ok 2 k' \<and>
    mp_view L' k' 2 = ([0x3008], [])"
proof -
  have "sint (7 :: u32) > 0 \<Longrightarrow> (7 :: u32) < HALF_TICK_MAX" by (simp add: HALF_TICK_MAX_def)
  from rt_mp_alloc_refines [OF demo_mp_kernel(1) demo_mp_ok(1) demo_mp_kernel(2) _ _ _ this, of 0]
  show ?thesis by (auto simp: demo_mp_kernel mp_view_def demo_mp_ok)
qed

text \<open>C19: \<open>rt_mp_free\<close> on an allocated block finds the pool through the header, makes the block the
  first free one, and resumes the first waiting thread, if there is one; nothing else changes
  between free and allocated.\<close>

theorem rt_mp_free_refines:
  assumes "kernel_ok L k" "mp_data_ok p k" "c \<in> mp_used p k" "rt_current_thread k \<noteq> None"
  shows "\<exists>L' k'. rt_mp_free (c + 4) k = Some k' \<and> kernel_ok L' k' \<and> mp_data_ok p k' \<and>
    mp_view L' k' p = mp_free_spec c (mp_view L k p) \<and> mp_used p k' = mp_used p k - {c} \<and>
    (\<forall>t. thread_state k' t = (if waiting L (mp_list p) \<noteq> [] \<and> t = hd (waiting L (mp_list p))
       then RT_THREAD_READY else thread_state k t))"
  using rt_mp_free_closed [OF assms] by (auto simp: mp_view_def)

theorem rt_mp_free_refines_witness:
  "\<exists>k1 L' k'. mp_take 2 demo_mp = Some (0x3004, k1) \<and> rt_mp_free 0x3004 k1 = Some k' \<and>
    mp_view L' k' 2 = ([0x3000, 0x3008], [])"
proof -
  obtain k1 where k1: "mp_take 2 demo_mp = Some (0x3000 + 4, k1)" "mp_data_ok 2 k1"
      "mp_free_list 2 k1 = [0x3008]" "mp_used 2 k1 = insert 0x3000 {}"
    using mp_take_law [OF demo_mp_ok(1,3)] demo_mp_ok(2) by metis
  note f = mp_take_frame [OF k1(1)]
  have "kernel_ok demo_ring k1" "0x3000 \<in> mp_used 2 k1" "rt_current_thread k1 \<noteq> None"
    using f demo_mp_kernel k1(4) by simp_all
  from rt_mp_free_refines [OF this(1) k1(2) this(2,3)] show ?thesis
    using k1 by (auto simp: mp_view_def)
qed

text \<open>C20: Any sequence of non-blocking allocations and releases of blocks that the client holds runs
  to its end; the client never gets a block twice before it gives it back, and no block is lost:
  those neither held by the client nor free are the ones others hold.\<close>

theorem rt_mp_run_safe:
  assumes "mp_inv p k"
  shows "\<exists>bs k'. mempool.run p rs [] k = Some (bs, k') \<and> mp_inv p k' \<and> distinct bs \<and>
    set bs \<subseteq> mp_held p k' \<and> mp_avail p k' \<union> mp_held p k' = mp_avail p k \<union> mp_held p k \<and>
    mp_held p k' - set bs = mp_held p k"
  using mempool.run_safe [OF assms, of "[]" rs] by simp

theorem rt_mp_run_safe_witness:
  "\<exists>bs k'. mempool.run 2 [Acquire, Acquire, Acquire, Release 0, Acquire] [] demo_mp = Some (bs, k') \<and>
    distinct bs \<and> set bs \<subseteq> {0x3004, 0x300c}"
proof -
  have i: "mp_inv 2 demo_mp" using demo_mp_kernel demo_mp_ok by (auto simp: mp_inv_def)
  have "mp_avail 2 demo_mp \<union> mp_held 2 demo_mp = {0x3004, 0x300c}"
    by (simp add: mp_avail_def mp_held_def demo_mp_ok)
  then show ?thesis
    using rt_mp_run_safe [OF i, of "[Acquire, Acquire, Acquire, Release 0, Acquire]"]
    by (simp del: mempool.run.simps) blast
qed

text \<open>C21: \<open>rt_mp_init\<close> with room for one block or more makes a pool with all blocks free, in order of
  their addresses, without waiting threads, and writes only inside the region it was given.\<close>

theorem rt_mp_init_ok:
  assumes "queue_ok X L k" "runs_highest L k" "0 \<le> sint (rt_scheduler_lock_nest k)"
    and "\<not> on_list is_head L (Obj_list (mp_obj p))"
    and "c_string nm = Some a" "length (name (objects k (mp_obj p))) = RT_NAME_MAX"
    and "0 < p" "p < 2 ^ 32" and "start \<noteq> 0" "region start (unat sz)"
    and "0 < blk" "blk \<le> 0xfffffff8"
    and "unat (RT_ALIGN blk 4) + 4 \<le> unat (RT_ALIGN_DOWN sz 4)"
  shows "\<exists>k'. rt_mp_init p nm start sz blk k = Some (RT_EOK, k') \<and> mp_data_ok p k' \<and> mp_used p k' = {} \<and>
    mp_free_list p k' = map (cell start (unat (RT_ALIGN blk 4) + 4))
      [0..<unat (RT_ALIGN_DOWN sz 4) div (unat (RT_ALIGN blk 4) + 4)] \<and>
    rt_list_isempty (mp_list p) (lists k') \<and> writes_only start (unat sz) (mem k) (mem k')"
  by (rule rt_mp_init_closed [OF assms])

theorem rt_mp_init_ok_witness:
  "\<exists>k'. rt_mp_init 2 [112, 0] 0x3000 30 5 demo = Some (RT_EOK, k') \<and>
    mp_free_list 2 k' = [0x3000, 0x300c] \<and> mp_used 2 k' = {}"
proof -
  have q: "queue_ok {} demo_ring demo" using demo_ok by (simp add: kernel_ok_def)
  have r: "runs_highest demo_ring demo" using demo_next by (auto simp: runs_highest_def)
  have f: "\<not> on_list is_head demo_ring (Obj_list (mp_obj 2))"
    by (auto simp: on_list_def demo_ring_def)
  have n: "length (name (objects demo (mp_obj 2))) = RT_NAME_MAX"
    by (simp add: demo_def startup_thread_def resume_thread_def stop_timer_def insert_ready_def
        prepare_thread_def boot_def active_def timer_flag_def RT_NAME_MAX_def)
  have "region 0x3000 (unat (30 :: u32))" by (simp add: region_def)
  moreover have a: "RT_ALIGN 5 4 = (8 :: u32)" "RT_ALIGN_DOWN 30 4 = (28 :: u32)"
    by (simp_all add: RT_ALIGN_def RT_ALIGN_DOWN_def)
  moreover have "map (cell 0x3000 (unat (8 :: u32) + 4)) [0..<unat (28 :: u32) div (unat (8 :: u32) + 4)] =
      [0x3000, 0x300c]" by code_simp
  ultimately show ?thesis
    using rt_mp_init_ok [OF q r _ f _ n, of "[112, 0]" "[112]" "0x3000" 30 5] by auto
qed
end
