(* ===== verification/Printf.thy ===== *)
theory Printf
  imports Regions KStrings
begin

text \<open>
  The formatted output of \<^verbatim>\<open>src/kservice.c\<close>: \<^verbatim>\<open>rt_vsnprintf\<close>, the routines it is made of and
  the functions that call it, in the configured variant (\<^verbatim>\<open>RT_PRINTF_PRECISION\<close> defined,
  \<^verbatim>\<open>RT_PRINTF_LONGLONG\<close> and \<^verbatim>\<open>RT_PRINTF_SPECIAL\<close> not).

  The output goes to memory through the pointer \<^verbatim>\<open>str\<close>, a 32-bit address: the state of the
  output is \<^verbatim>\<open>str\<close> and the memory.  The format and the strings among the arguments are read
  through pointers \<^typ>\<open>char_ptr\<close>, so they are taken not to lie in the buffer that is written.
  The variable arguments are the list of the values passed; taking an argument that is not
  there, or one of the wrong kind, has no result.  An \<^verbatim>\<open>int\<close> is a mathematical integer,
  with no result where \<^verbatim>\<open>skip_atoi\<close> or the negation of a width overflows.  Two places of
  \<^verbatim>\<open>print_number\<close> can overflow besides: \<^verbatim>\<open>size\<close>, for a precision within 5 of \<open>2 ^ 31\<close>, and
  \<^verbatim>\<open>num = -num\<close> for the least number, which is modelled as the compiled code computes it, in 32
  bits that wrap around.
\<close>

section \<open>The data\<close>

type_synonym out = "u32 \<times> memory"

text \<open>A pointer is passed as its address and the bytes from there on.\<close>

datatype va = Va_int u32 | Va_ptr u32 char_ptr

type_synonym va_list = "va list"

fun va_arg_int :: "va_list \<Rightarrow> (u32 \<times> va_list) option" where
  "va_arg_int (Va_int w # args) = Some (w, args)"
| "va_arg_int _ = None"

fun va_arg_ptr :: "va_list \<Rightarrow> (u32 \<times> char_ptr \<times> va_list) option" where
  "va_arg_ptr (Va_ptr a s # args) = Some (a, s, args)"
| "va_arg_ptr _ = None"

text \<open>The flags of a conversion.\<close>

abbreviation (input) ZEROPAD :: u8 where "ZEROPAD \<equiv> 1"
abbreviation (input) SIGN :: u8 where "SIGN \<equiv> 2"
abbreviation (input) PLUS :: u8 where "PLUS \<equiv> 4"
abbreviation (input) SPACE :: u8 where "SPACE \<equiv> 8"
abbreviation (input) LEFT :: u8 where "LEFT \<equiv> 16"
abbreviation (input) SPECIAL :: u8 where "SPECIAL \<equiv> 32"
abbreviation (input) LARGE :: u8 where "LARGE \<equiv> 64"

text \<open>The characters that the code compares with, in ASCII.\<close>

abbreviation (input) ch_space :: u8 where "ch_space \<equiv> 32"
abbreviation (input) ch_hash :: u8 where "ch_hash \<equiv> 35"
abbreviation (input) ch_percent :: u8 where "ch_percent \<equiv> 37"
abbreviation (input) ch_star :: u8 where "ch_star \<equiv> 42"
abbreviation (input) ch_plus :: u8 where "ch_plus \<equiv> 43"
abbreviation (input) ch_minus :: u8 where "ch_minus \<equiv> 45"
abbreviation (input) ch_dot :: u8 where "ch_dot \<equiv> 46"
abbreviation (input) ch_0 :: u8 where "ch_0 \<equiv> 48"
abbreviation (input) ch_X :: u8 where "ch_X \<equiv> 88"
abbreviation (input) ch_c :: u8 where "ch_c \<equiv> 99"
abbreviation (input) ch_d :: u8 where "ch_d \<equiv> 100"
abbreviation (input) ch_h :: u8 where "ch_h \<equiv> 104"
abbreviation (input) ch_i :: u8 where "ch_i \<equiv> 105"
abbreviation (input) ch_l :: u8 where "ch_l \<equiv> 108"
abbreviation (input) ch_o :: u8 where "ch_o \<equiv> 111"
abbreviation (input) ch_p :: u8 where "ch_p \<equiv> 112"
abbreviation (input) ch_s :: u8 where "ch_s \<equiv> 115"
abbreviation (input) ch_u :: u8 where "ch_u \<equiv> 117"
abbreviation (input) ch_x :: u8 where "ch_x \<equiv> 120"

text \<open>\<open>"(NULL)"\<close>, \<open>"0123456789abcdef"\<close> and \<open>"0123456789ABCDEF"\<close>.\<close>

definition null_string :: char_ptr where "null_string = [40, 78, 85, 76, 76, 41, 0]"
definition small_digits :: char_ptr where
  "small_digits = [48, 49, 50, 51, 52, 53, 54, 55, 56, 57, 97, 98, 99, 100, 101, 102, 0]"
definition large_digits :: char_ptr where
  "large_digits = [48, 49, 50, 51, 52, 53, 54, 55, 56, 57, 65, 66, 67, 68, 69, 70, 0]"

section \<open>Numbers\<close>

text \<open>\<^verbatim>\<open>if (str < end) *str = c; ++str;\<close>\<close>

definition put :: "u32 \<Rightarrow> u8 \<Rightarrow> out \<Rightarrow> out" where
  "put end c = (\<lambda>(str, m). (str + 1, if str < end then m(str := c) else m))"

text \<open>\<^verbatim>\<open>divide\<close>: the remainder and the new value of \<^verbatim>\<open>*n\<close>.\<close>

definition divide_base :: "u32 \<Rightarrow> nat \<Rightarrow> nat \<times> u32" where
  "divide_base n base =
     (if base = 10 then (unat (n mod 10), n div 10) else (unat (n mod 16), n div 16))"

text \<open>\<^verbatim>\<open>while (size-- > 0)\<close> putting \<^verbatim>\<open>c\<close>.\<close>

function pad :: "u32 \<Rightarrow> u8 \<Rightarrow> int \<Rightarrow> out \<Rightarrow> int \<times> out" where
  "pad end c n out = (if n > 0 then pad end c (n - 1) (put end c out) else (n - 1, out))"
  by pat_completeness auto
termination by (relation "measure (\<lambda>(end, c, n, out). nat n)") auto

text \<open>\<^verbatim>\<open>while (num != 0) tmp[i++] = digits[divide(&num, base)]\<close>: the contents of \<^verbatim>\<open>tmp\<close>.\<close>

lemma div_decreases:
  fixes n :: u32
  assumes "n \<noteq> 0"
  shows "unat (snd (divide_base n base)) < unat n"
  using assms by (simp add: divide_base_def unat_div word_neq_0_conv word_less_nat_alt)

function number_digits :: "char_ptr \<Rightarrow> nat \<Rightarrow> u32 \<Rightarrow> u8 list" where
  "number_digits digits base num =
     (if num \<noteq> 0 then let (res, num) = divide_base num base
        in digits ! res # number_digits digits base num
      else [])"
  by pat_completeness auto
termination
proof (relation "measure (\<lambda>(digits, base, num). unat num)")
  fix digits :: char_ptr and base num and x :: "nat \<times> u32" and res num'
  assume "num \<noteq> 0" "x = divide_base num base" "(res, num') = x"
  then show "((digits, base, num'), (digits, base, num)) \<in> measure (\<lambda>(digits, base, num). unat num)"
    using div_decreases [of num base] by (metis (no_types, lifting) case_prod_conv in_measure snd_conv)
qed simp

text \<open>\<^verbatim>\<open>while (i-- > 0 && (precision_bak != 0))\<close> putting \<^verbatim>\<open>tmp[i]\<close>.\<close>

fun put_digits :: "u32 \<Rightarrow> u8 list \<Rightarrow> nat \<Rightarrow> int \<Rightarrow> out \<Rightarrow> out" where
  "put_digits end tmp 0 precision_bak out = out"
| "put_digits end tmp (Suc i) precision_bak out =
     (if precision_bak \<noteq> 0 then put_digits end tmp i precision_bak (put end (tmp ! i) out)
      else out)"

declare pad.simps [simp del] number_digits.simps [simp del]

definition print_number ::
  "u32 \<Rightarrow> u32 \<Rightarrow> nat \<Rightarrow> int \<Rightarrow> int \<Rightarrow> u8 \<Rightarrow> out \<Rightarrow> out" where
  "print_number end num base s precision type out = (let
     precision_bak = precision;
     size = s;
     digits = (if type AND LARGE \<noteq> 0 then large_digits else small_digits);
     type = (if type AND LEFT \<noteq> 0 then type AND NOT ZEROPAD else type);
     c = (if type AND ZEROPAD \<noteq> 0 then ch_0 else ch_space);
     (sign, num) =
       (if type AND SIGN \<noteq> 0 then
          if num <s 0 then (ch_minus, - num)
          else if type AND PLUS \<noteq> 0 then (ch_plus, num)
          else if type AND SPACE \<noteq> 0 then (ch_space, num)
          else (0, num)
        else (0, num));
     tmp = (if num = 0 then [ch_0] else number_digits digits base num);
     i = length tmp;
     precision = (if int i > precision then int i else precision);
     size = size - precision;
     (size, out) =
       (if type AND (ZEROPAD OR LEFT) = 0
        then pad end ch_space (if sign \<noteq> 0 \<and> size > 0 then size - 1 else size) out
        else (size, out));
     (size, out) = (if sign \<noteq> 0 then (size - 1, put end sign out) else (size, out));
     (size, out) = (if type AND LEFT = 0 then pad end c size out else (size, out));
     (precision, out) = pad end ch_0 (precision - int i) out;
     out = put_digits end tmp i precision_bak out;
     (size, out) = pad end ch_space size out
   in out)"

section \<open>The format\<close>

definition ISDIGIT :: "u8 \<Rightarrow> bool" where
  "ISDIGIT c \<longleftrightarrow> 48 \<le> c \<and> c < 58"

text \<open>\<^verbatim>\<open>*s - '0'\<close> is added to an \<^verbatim>\<open>int\<close>; the result is the number and the advanced pointer.\<close>

fun skip_atoi :: "char_ptr \<Rightarrow> int \<Rightarrow> (int \<times> char_ptr) option" where
  "skip_atoi [] i = None"
| "skip_atoi (c # s) i =
     (if ISDIGIT c then
        if i * 10 + uint c < 2 ^ 31 then skip_atoi s (i * 10 + uint c - 48) else None
      else Some (i, c # s))"

text \<open>The parts of the loop body of \<^verbatim>\<open>rt_vsnprintf\<close>.  Each takes the pointer \<^verbatim>\<open>fmt\<close> and returns
  the advanced one; the flags are read from the byte after the first \<^verbatim>\<open>%\<close> on.\<close>

fun printf_flags :: "char_ptr \<Rightarrow> u8 \<Rightarrow> (u8 \<times> char_ptr) option" where
  "printf_flags [] flags = None"
| "printf_flags (c # fmt) flags =
     (if c = ch_minus then printf_flags fmt (flags OR LEFT)
      else if c = ch_plus then printf_flags fmt (flags OR PLUS)
      else if c = ch_space then printf_flags fmt (flags OR SPACE)
      else if c = ch_hash then printf_flags fmt (flags OR SPECIAL)
      else if c = ch_0 then printf_flags fmt (flags OR ZEROPAD)
      else Some (flags, c # fmt))"

fun printf_width ::
  "char_ptr \<Rightarrow> u8 \<Rightarrow> va_list \<Rightarrow> (int \<times> u8 \<times> char_ptr \<times> va_list) option" where
  "printf_width [] flags args = None"
| "printf_width (c # fmt) flags args =
     (if ISDIGIT c then do {
        (field_width, fmt) \<leftarrow> skip_atoi (c # fmt) 0;
        Some (field_width, flags, fmt, args)
      } else if c = ch_star then do {
        (w, args) \<leftarrow> va_arg_int args;
        let field_width = sint w;
        if field_width < 0 then
          if w = 0x80000000 then None else Some (- field_width, flags OR LEFT, fmt, args)
        else Some (field_width, flags, fmt, args)
      } else Some (- 1, flags, c # fmt, args))"

fun printf_precision :: "char_ptr \<Rightarrow> va_list \<Rightarrow> (int \<times> char_ptr \<times> va_list) option" where
  "printf_precision [] args = None"
| "printf_precision (c # fmt) args =
     (if c = ch_dot then
        case fmt of [] \<Rightarrow> None
        | d # fmt' \<Rightarrow> do {
            (precision, fmt, args) \<leftarrow>
              if ISDIGIT d then do {
                (precision, fmt) \<leftarrow> skip_atoi fmt 0;
                Some (precision, fmt, args)
              } else if d = ch_star then do {
                (w, args) \<leftarrow> va_arg_int args;
                Some (sint w, fmt', args)
              } else Some (- 1, fmt, args);
            Some (if precision < 0 then 0 else precision, fmt, args)
          }
      else Some (- 1, c # fmt, args))"

fun printf_qualifier :: "char_ptr \<Rightarrow> (u8 \<times> char_ptr) option" where
  "printf_qualifier [] = None"
| "printf_qualifier (c # fmt) =
     (if c = ch_h \<or> c = ch_l then Some (c, fmt) else Some (0, c # fmt))"

section \<open>The conversions\<close>

text \<open>\<^verbatim>\<open>case 'c'\<close>; \<^verbatim>\<open>while (--field_width > 0)\<close> is \<^const>\<open>pad\<close> on \<^verbatim>\<open>field_width - 1\<close>, which leaves the
  counter one lower than the loop does.\<close>

definition print_char ::
  "u32 \<Rightarrow> int \<Rightarrow> u8 \<Rightarrow> va_list \<Rightarrow> out \<Rightarrow> (va_list \<times> out) option" where
  "print_char end field_width flags args out = do {
     let (field_width, out) =
       (if flags AND LEFT = 0 then
          let (n, out) = pad end ch_space (field_width - 1) out in (n + 1, out)
        else (field_width, out));
     (w, args) \<leftarrow> va_arg_int args;
     let out = put end (ucast w) out;
     let (n, out) = pad end ch_space (field_width - 1) out;
     Some (args, out)
   }"

text \<open>\<^verbatim>\<open>case 's'\<close>: \<open>string_len\<close> is the loop that measures the string, \<open>put_string\<close> the one that
  copies it.\<close>

fun string_len :: "char_ptr \<Rightarrow> int \<Rightarrow> int \<Rightarrow> int option" where
  "string_len [] field_width len = (if len = field_width then Some len else None)"
| "string_len (c # s) field_width len =
     (if len \<noteq> field_width \<and> c \<noteq> 0 then string_len s field_width (len + 1) else Some len)"

fun put_string :: "u32 \<Rightarrow> nat \<Rightarrow> char_ptr \<Rightarrow> out \<Rightarrow> out option" where
  "put_string end 0 s out = Some out"
| "put_string end (Suc n) [] out = None"
| "put_string end (Suc n) (c # s) out = put_string end n s (put end c out)"

definition print_string ::
  "u32 \<Rightarrow> int \<Rightarrow> int \<Rightarrow> u8 \<Rightarrow> va_list \<Rightarrow> out \<Rightarrow> (va_list \<times> out) option" where
  "print_string end field_width precision flags args out = do {
     (a, s, args) \<leftarrow> va_arg_ptr args;
     let s = (if a = 0 then null_string else s);
     len \<leftarrow> string_len s field_width 0;
     let len = (if precision > 0 \<and> len > precision then precision else len);
     let (field_width, out) =
       (if flags AND LEFT = 0 then
          let (n, out) = pad end ch_space (field_width - len) out in (n + len, out)
        else (field_width, out));
     out \<leftarrow> put_string end (nat len) s out;
     let (n, out) = pad end ch_space (field_width - len) out;
     Some (args, out)
   }"

text \<open>The integer conversions, after \<^verbatim>\<open>base\<close> and \<^verbatim>\<open>flags\<close> are set.\<close>

definition print_integer ::
  "u32 \<Rightarrow> nat \<Rightarrow> int \<Rightarrow> int \<Rightarrow> u8 \<Rightarrow> u8 \<Rightarrow> va_list \<Rightarrow> out \<Rightarrow> (va_list \<times> out) option" where
  "print_integer end base field_width precision qualifier flags args out = do {
     (w, args) \<leftarrow> va_arg_int args;
     let num = (if qualifier = ch_h then
         if flags AND SIGN \<noteq> 0 then scast (ucast w :: u16) else ucast (ucast w :: u16)
       else w);
     Some (args, print_number end num base field_width precision flags out)
   }"

text \<open>The \<^verbatim>\<open>switch (*fmt)\<close>; the result has the pointer with which the next iteration starts.\<close>

fun printf_switch ::
  "u32 \<Rightarrow> char_ptr \<Rightarrow> int \<Rightarrow> int \<Rightarrow> u8 \<Rightarrow> u8 \<Rightarrow> va_list \<Rightarrow> out
     \<Rightarrow> (char_ptr \<times> va_list \<times> out) option" where
  "printf_switch end [] field_width precision qualifier flags args out = None"
| "printf_switch end (c # fmt) field_width precision qualifier flags args out =
     (if c = ch_c then do {
        (args, out) \<leftarrow> print_char end field_width flags args out;
        Some (fmt, args, out)
      } else if c = ch_s then do {
        (args, out) \<leftarrow> print_string end field_width precision flags args out;
        Some (fmt, args, out)
      } else if c = ch_p then do {
        let (field_width, flags) =
          (if field_width = - 1 then (8, flags OR ZEROPAD) else (field_width, flags));
        (a, s, args) \<leftarrow> va_arg_ptr args;
        Some (fmt, args, print_number end a 16 field_width precision flags out)
      } else if c = ch_percent then Some (fmt, args, put end ch_percent out)
      else if c = ch_o then do {
        (args, out) \<leftarrow> print_integer end 8 field_width precision qualifier flags args out;
        Some (fmt, args, out)
      } else if c = ch_X then do {
        (args, out) \<leftarrow> print_integer end 16 field_width precision qualifier (flags OR LARGE) args out;
        Some (fmt, args, out)
      } else if c = ch_x then do {
        (args, out) \<leftarrow> print_integer end 16 field_width precision qualifier flags args out;
        Some (fmt, args, out)
      } else if c = ch_d \<or> c = ch_i then do {
        (args, out) \<leftarrow> print_integer end 10 field_width precision qualifier (flags OR SIGN) args out;
        Some (fmt, args, out)
      } else if c = ch_u then do {
        (args, out) \<leftarrow> print_integer end 10 field_width precision qualifier flags args out;
        Some (fmt, args, out)
      } else
        let out = put end ch_percent out
        in if c \<noteq> 0 then Some (fmt, args, put end c out) else Some (c # fmt, args, out))"

text \<open>\<open>printf_directive\<close> is the loop body from the flags on.\<close>

definition printf_directive ::
  "u32 \<Rightarrow> char_ptr \<Rightarrow> va_list \<Rightarrow> out \<Rightarrow> (char_ptr \<times> va_list \<times> out) option" where
  "printf_directive end fmt args out = do {
     (flags, fmt) \<leftarrow> printf_flags fmt 0;
     (field_width, flags, fmt, args) \<leftarrow> printf_width fmt flags args;
     (precision, fmt, args) \<leftarrow> printf_precision fmt args;
     (qualifier, fmt) \<leftarrow> printf_qualifier fmt;
     printf_switch end fmt field_width precision qualifier flags args out
   }"

section \<open>The loop\<close>

text \<open>Every directive advances the format.\<close>

lemma skip_atoi_shorter: "skip_atoi fmt i = Some (n, fmt') \<Longrightarrow> length fmt' \<le> length fmt"
  by (induction fmt i rule: skip_atoi.induct) (auto split: if_splits)

lemma printf_flags_shorter: "printf_flags fmt fl = Some (fl', fmt') \<Longrightarrow> length fmt' \<le> length fmt"
  by (induction fmt fl rule: printf_flags.induct) (auto split: if_splits)

lemma printf_width_shorter:
  "printf_width fmt fl args = Some (w, fl', fmt', args') \<Longrightarrow> length fmt' \<le> length fmt"
  by (cases fmt) (auto split: if_splits bind_splits simp: Let_def dest: skip_atoi_shorter)

lemma printf_precision_shorter:
  "printf_precision fmt args = Some (p, fmt', args') \<Longrightarrow> length fmt' \<le> length fmt"
  by (cases fmt)
     (auto split: if_splits bind_splits list.splits simp: Let_def dest!: skip_atoi_shorter)

lemma printf_qualifier_shorter: "printf_qualifier fmt = Some (q, fmt') \<Longrightarrow> length fmt' \<le> length fmt"
  by (cases fmt) (auto split: if_splits)

lemma printf_switch_shorter:
  "printf_switch end fmt w p q fl args out = Some (fmt', args', out') \<Longrightarrow> length fmt' \<le> length fmt"
  by (cases fmt) (auto split: if_splits bind_splits simp: Let_def)

lemma printf_directive_shorter:
  assumes "printf_directive end fmt args out = Some (fmt', args', out')"
  shows "length fmt' \<le> length fmt"
  using assms unfolding printf_directive_def
  by (auto split: bind_splits dest!: printf_flags_shorter printf_width_shorter
      printf_precision_shorter printf_qualifier_shorter printf_switch_shorter)

text \<open>\<^verbatim>\<open>for (; *fmt; ++fmt)\<close>.\<close>

function printf_loop :: "u32 \<Rightarrow> char_ptr \<Rightarrow> va_list \<Rightarrow> out \<Rightarrow> out option" where
  "printf_loop end [] args out = None"
| "printf_loop end (c # fmt) args out =
     (if c = 0 then Some out
      else if c \<noteq> ch_percent then printf_loop end fmt args (put end c out)
      else case printf_directive end fmt args out of
          None \<Rightarrow> None
        | Some (fmt, args, out) \<Rightarrow> printf_loop end fmt args out)"
  by pat_completeness auto
termination
  by (relation "measure (\<lambda>(end, fmt, args, out). length fmt)")
     (auto dest!: printf_directive_shorter)

section \<open>The functions\<close>

definition rt_vsnprintf ::
  "u32 \<Rightarrow> u32 \<Rightarrow> char_ptr \<Rightarrow> va_list \<Rightarrow> memory \<Rightarrow> (u32 \<times> memory) option" where
  "rt_vsnprintf buf sz fmt args m = do {
     let size = sz;
     let end = buf + size;
     let (end, size) = (if end < buf then (- 1, - 1 - buf) else (end, size));
     (str, m) \<leftarrow> printf_loop end fmt args (buf, m);
     let m = (if size > 0 then if str < end then m(str := 0) else m(end - 1 := 0) else m);
     Some (str - buf, m)
   }"

definition rt_snprintf ::
  "u32 \<Rightarrow> u32 \<Rightarrow> char_ptr \<Rightarrow> va_list \<Rightarrow> memory \<Rightarrow> (u32 \<times> memory) option" where
  "rt_snprintf buf sz fmt args m = do {
     (n, m) \<leftarrow> rt_vsnprintf buf sz fmt args m;
     Some (n, m)
   }"

definition rt_vsprintf ::
  "u32 \<Rightarrow> char_ptr \<Rightarrow> va_list \<Rightarrow> memory \<Rightarrow> (u32 \<times> memory) option" where
  "rt_vsprintf buf format arg_ptr m = rt_vsnprintf buf (- 1) format arg_ptr m"

definition rt_sprintf ::
  "u32 \<Rightarrow> char_ptr \<Rightarrow> va_list \<Rightarrow> memory \<Rightarrow> (u32 \<times> memory) option" where
  "rt_sprintf buf format args m = do {
     (n, m) \<leftarrow> rt_vsprintf buf format args m;
     Some (n, m)
   }"

text \<open>
  The console of the board (\<^verbatim>\<open>bsp/tang-nano-9k/board.c\<close>): the result of
  \<^verbatim>\<open>rt_hw_console_output\<close> is the bytes given to \<^verbatim>\<open>UART_Transmit\<close>.  The configuration has no
  console device.
\<close>

abbreviation (input) RT_CONSOLEBUF_SIZE :: u32 where "RT_CONSOLEBUF_SIZE \<equiv> 128"

fun console_bytes :: "nat \<Rightarrow> char_ptr \<Rightarrow> u8 list" where
  "console_bytes 0 str = []"
| "console_bytes (Suc n) [] = []"
| "console_bytes (Suc n) (c # str) =
     (if c = 10 then [13, c] else [c]) @ console_bytes n str"

definition rt_hw_console_output :: "char_ptr \<Rightarrow> u8 list option" where
  "rt_hw_console_output str = do {
     size \<leftarrow> rt_strlen str;
     Some (console_bytes size str)
   }"

text \<open>The argument is \<^const>\<open>None\<close> for \<^verbatim>\<open>RT_NULL\<close>.\<close>

definition rt_kputs :: "char_ptr option \<Rightarrow> u8 list option" where
  "rt_kputs str = (case str of None \<Rightarrow> Some [] | Some str \<Rightarrow> rt_hw_console_output str)"

text \<open>\<open>rt_log_buf\<close> is the address of the static buffer.  The clipped \<^verbatim>\<open>length\<close> is only used with
  a console device.\<close>

definition rt_kprintf ::
  "u32 \<Rightarrow> char_ptr \<Rightarrow> va_list \<Rightarrow> memory \<Rightarrow> (u8 list \<times> memory) option" where
  "rt_kprintf rt_log_buf fmt args m = do {
     (n, m) \<leftarrow> rt_vsnprintf rt_log_buf (RT_CONSOLEBUF_SIZE - 1) fmt args m;
     out \<leftarrow> rt_hw_console_output (bytes m rt_log_buf (unat RT_CONSOLEBUF_SIZE));
     Some (out, m)
   }"

end
