(* ===== verification/PrintfText.thy ===== *)
theory PrintfText
  imports Printf
begin

text \<open>
  What the formatted output writes: \<open>number_text\<close> and \<open>format_text\<close> describe the text of a
  number and of a format as lists of characters, without a buffer and without counters, and
  \<^const>\<open>rt_vsnprintf\<close> is shown to put the first \<open>size - 1\<close> characters of that text, and a NUL,
  into the buffer.  The conversions get their arguments by type: a format has a list of argument
  types, and with arguments of these types the text exists.
\<close>

section \<open>The output as a list of characters\<close>

definition emit :: "u32 \<Rightarrow> u8 list \<Rightarrow> out \<Rightarrow> out" where
  "emit e cs out = fold (put e) cs out"

lemma emit_Nil [simp]: "emit e [] out = out"
  by (simp add: emit_def)

lemma emit_emit [simp]: "emit e ds (emit e cs out) = emit e (cs @ ds) out"
  by (simp add: emit_def)

lemma put_emit [simp]: "put e c (emit e cs out) = emit e (cs @ [c]) out"
  by (simp add: emit_def)

lemma put_as_emit: "put e c out = emit e [c] out"
  by (simp add: emit_def)

lemma pad_emit [simp]:
  "pad e c n out = (if n > 0 then - 1 else n - 1, emit e (replicate (nat n) c) out)"
proof (induction e c n out rule: pad.induct)
  case (1 e c n out)
  show ?case
  proof (cases "n > 0")
    case True
    then have n: "nat n = Suc (nat (n - 1))" by simp
    show ?thesis using True 1 by (subst pad.simps) (simp add: n emit_def)
  qed (subst pad.simps, simp)
qed

lemma put_digits_emit [simp]:
  "i \<le> length tmp \<Longrightarrow>
     put_digits e tmp i p out = emit e (if p = 0 then [] else rev (take i tmp)) out"
  by (induction i arbitrary: out) (auto simp: emit_def take_Suc_conv_app_nth)

lemma put_string_emit:
  "put_string e n s out = (if n \<le> length s then Some (emit e (take n s) out) else None)"
  by (induction e n s out rule: put_string.induct) (auto simp: emit_def)

section \<open>The text of a number\<close>

text \<open>The digits of a number, the most significant one first.\<close>

fun digit_text :: "char_ptr \<Rightarrow> nat \<Rightarrow> nat \<Rightarrow> u8 list" where
  "digit_text digits base n =
     (if n < base \<or> base < 2 then [digits ! n]
      else digit_text digits base (n div base) @ [digits ! (n mod base)])"

declare digit_text.simps [simp del]

definition printed_base :: "nat \<Rightarrow> nat" where
  "printed_base base = (if base = 10 then 10 else 16)"

lemma divide_base_nat:
  "divide_base n base = (unat n mod printed_base base, of_nat (unat n div printed_base base))"
proof -
  have m: "unat (n mod 10) = unat n mod 10" "unat (n mod 16) = unat n mod 16"
    by (simp_all add: unat_mod)
  have d: "n div 10 = of_nat (unat n div 10)" "n div 16 = of_nat (unat n div 16)"
    by (simp_all add: word_arith_nat_div)
  show ?thesis by (simp only: divide_base_def printed_base_def m d split: if_splits) simp
qed

lemma number_digits_text:
  assumes "num \<noteq> 0"
  shows "rev (number_digits digits base num) = digit_text digits (printed_base base) (unat num)"
  using assms
proof (induction digits base num rule: number_digits.induct)
  case (1 digits base num)
  let ?b = "printed_base base"
  let ?d = "of_nat (unat num div ?b) :: u32"
  have b: "2 \<le> ?b" by (simp add: printed_base_def)
  have "unat num div ?b \<le> unat num" by simp
  then have u: "unat ?d = unat num div ?b"
    using unsigned_less [of num, where 'a = nat] by (intro unat_of_nat_id) (rule le_less_trans)
  have ds: "number_digits digits base num = digits ! (unat num mod ?b) # number_digits digits base ?d"
    using 1(2) by (subst number_digits.simps) (simp add: divide_base_nat)
  show ?case
  proof (cases "unat num < ?b")
    case True
    then show ?thesis using ds b by (simp add: digit_text.simps [of _ _ "unat num"] number_digits.simps [of _ _ 0])
  next
    case False
    then have "?d \<noteq> 0" using u b by (auto simp: unat_eq_0 [symmetric] div_eq_0_iff simp del: unat_eq_0)
    then have "rev (number_digits digits base ?d) = digit_text digits ?b (unat num div ?b)"
      using 1(1) [OF 1(2) refl] u by (simp add: divide_base_nat)
    then show ?thesis using ds False b by (simp add: digit_text.simps [of _ _ "unat num"])
  qed
qed

text \<open>
  The sign and the number to print, and the whole text: blanks or zeros up to the width, zeros up
  to the precision.  A precision of 0 leaves the digits out, for every number.
\<close>

definition number_sign :: "u32 \<Rightarrow> u8 \<Rightarrow> u8 list \<times> u32" where
  "number_sign num flags =
     (if flags AND SIGN = 0 then ([], num)
      else if num <s 0 then ([ch_minus], - num)
      else if flags AND PLUS \<noteq> 0 then ([ch_plus], num)
      else if flags AND SPACE \<noteq> 0 then ([ch_space], num)
      else ([], num))"

definition number_text :: "u32 \<Rightarrow> nat \<Rightarrow> int \<Rightarrow> int \<Rightarrow> u8 \<Rightarrow> u8 list" where
  "number_text num base width precision flags = (let
     (sign, n) = number_sign num flags;
     digits = (if flags AND LARGE \<noteq> 0 then large_digits else small_digits);
     ds = digit_text digits (printed_base base) (unat n);
     zeros = replicate (nat (precision - int (length ds))) ch_0;
     body = zeros @ (if precision = 0 then [] else ds);
     blank = nat (width - max precision (int (length ds)) - int (length sign))
   in if flags AND LEFT \<noteq> 0 then sign @ body @ replicate blank ch_space
      else if flags AND ZEROPAD \<noteq> 0 then sign @ replicate blank ch_0 @ body
      else replicate blank ch_space @ sign @ body)"

lemma number_sign_None: "number_sign num flags = ([], n) \<longleftrightarrow>
    n = num \<and> (flags AND SIGN = 0 \<or>
      \<not> num <s 0 \<and> flags AND PLUS = 0 \<and> flags AND SPACE = 0)"
  by (auto simp: number_sign_def)

lemma flags_unpad:
  fixes fl :: u8
  shows "(fl AND NOT ZEROPAD) AND SIGN = fl AND SIGN" "(fl AND NOT ZEROPAD) AND PLUS = fl AND PLUS"
    "(fl AND NOT ZEROPAD) AND SPACE = fl AND SPACE" "(fl AND NOT ZEROPAD) AND LEFT = fl AND LEFT"
    "(fl AND NOT ZEROPAD) AND ZEROPAD = 0"
  by (simp_all add: and.assoc)

lemma flags_padleft:
  fixes fl :: u8
  shows "fl AND (ZEROPAD OR LEFT) = 0 \<longleftrightarrow> fl AND ZEROPAD = 0 \<and> fl AND LEFT = 0"
  by (simp only: bit.conj_disj_distrib or_eq_0_iff)

text \<open>The characters before and after the padding loops.\<close>

definition digits_of :: "u8 \<Rightarrow> nat \<Rightarrow> u32 \<Rightarrow> u8 list" where
  "digits_of flags base n =
     digit_text (if flags AND LARGE \<noteq> 0 then large_digits else small_digits) (printed_base base) (unat n)"

lemma tmp_digits:
  "rev (if n = 0 then [ch_0] else
      number_digits (if flags AND LARGE \<noteq> 0 then large_digits else small_digits) base n) =
    digits_of flags base n"
proof (cases "n = 0")
  case True
  have "2 \<le> printed_base base" by (simp add: printed_base_def)
  then show ?thesis using True
    by (simp add: digits_of_def digit_text.simps [of _ _ 0] large_digits_def small_digits_def)
qed (simp add: digits_of_def number_digits_text)

text \<open>The part of \<^const>\<open>print_number\<close> after the digits are known.\<close>

lemma print_number_tail:
  fixes p s :: int and sgn c :: u8 and tmp :: "u8 list"
  defines "i \<equiv> length tmp"
  defines "sg \<equiv> (if sgn \<noteq> 0 then [sgn] else [])"
  defines "blank \<equiv> nat (s - max p (int i) - int (length sg))"
  defines "body \<equiv> replicate (nat (p - int i)) ch_0 @ (if p = 0 then [] else rev tmp)"
  shows "(let precision = (if int i > p then int i else p);
     size = s - precision;
     (size, out) = (if \<not> Z \<and> \<not> L
        then pad e ch_space (if sgn \<noteq> 0 \<and> size > 0 then size - 1 else size) out
        else (size, out));
     (size, out) = (if sgn \<noteq> 0 then (size - 1, put e sgn out) else (size, out));
     (size, out) = (if \<not> L then pad e c size out else (size, out));
     (precision, out) = pad e ch_0 (precision - int i) out;
     out = put_digits e tmp i p out;
     (size, out) = pad e ch_space size out
   in out) = emit e (if L then sg @ body @ replicate blank ch_space
      else if Z then sg @ replicate blank c @ body
      else replicate blank ch_space @ sg @ body) out"
proof -
  have "nat ((if int i > p then int i else p) - int i) = nat (p - int i)" by simp
  then show ?thesis
    by (cases L; cases Z; cases "sgn = 0")
       (auto simp: Let_def i_def sg_def blank_def body_def put_as_emit max_def nat_diff_distrib)
qed

lemma print_number_emit:
  "print_number e num base s precision flags out = emit e (number_text num base s precision flags) out"
proof -
  define L where "L \<longleftrightarrow> flags AND LEFT \<noteq> 0"
  define ty where "ty = (if flags AND LEFT \<noteq> 0 then flags AND NOT ZEROPAD else flags)"
  define digits where "digits = (if flags AND LARGE \<noteq> 0 then large_digits else small_digits)"
  define tmp where "tmp n = (if n = 0 then [ch_0] else number_digits digits base n)" for n
  have ty: "ty AND SIGN = flags AND SIGN" "ty AND PLUS = flags AND PLUS"
    "ty AND SPACE = flags AND SPACE" "ty AND LEFT = flags AND LEFT"
    "ty AND ZEROPAD = (if L then 0 else flags AND ZEROPAD)"
    unfolding ty_def L_def by (auto simp: and.assoc)
  have ds: "digit_text digits (printed_base base) (unat n) = rev (tmp n)" for n
    unfolding tmp_def digits_def tmp_digits by (simp add: digits_of_def)
  obtain sgn n where sn: "(if ty AND SIGN \<noteq> 0 then
          if num <s 0 then (ch_minus, - num)
          else if ty AND PLUS \<noteq> 0 then (ch_plus, num)
          else if ty AND SPACE \<noteq> 0 then (ch_space, num)
          else (0, num)
        else (0, num)) = (sgn, n)" (is "?sn = _") by (cases ?sn)
  then have ns: "number_sign num flags = (if sgn \<noteq> 0 then [sgn] else [], n)"
    unfolding number_sign_def ty by (auto split: if_splits)
  note tail = print_number_tail [where Z = "ty AND ZEROPAD \<noteq> 0" and L = "ty AND LEFT \<noteq> 0" and s = s
      and e = e and sgn = sgn and out = out and p = precision and tmp = "tmp n"
      and c = "if ty AND ZEROPAD \<noteq> 0 then ch_0 else ch_space", unfolded Let_def not_not]
  show ?thesis
    unfolding print_number_def number_text_def Let_def digits_def [symmetric] ty_def [symmetric] sn
      ns prod.case tmp_def [symmetric] flags_padleft ds length_rev
    by (rule trans [OF tail]) (simp add: ty L_def)
qed

section \<open>The text of a format\<close>

text \<open>
  A field of a given width: blanks before or after the text.  A string is cut at the width as
  well as at a precision that is not 0.
\<close>

definition field_text :: "int \<Rightarrow> u8 \<Rightarrow> u8 list \<Rightarrow> u8 list" where
  "field_text width flags txt = (let blank = replicate (nat (width - int (length txt))) ch_space
   in if flags AND LEFT \<noteq> 0 then txt @ blank else blank @ txt)"

definition string_text :: "int \<Rightarrow> int \<Rightarrow> char_ptr \<Rightarrow> u8 list" where
  "string_text width precision s = (let
     txt = takeWhile (\<lambda>c. c \<noteq> 0) s;
     txt = (if width < 0 then txt else take (nat width) txt)
   in if precision > 0 then take (nat precision) txt else txt)"

definition integer_value :: "u8 \<Rightarrow> u8 \<Rightarrow> u32 \<Rightarrow> u32" where
  "integer_value qualifier flags w = (if qualifier = ch_h then
      if flags AND SIGN \<noteq> 0 then scast (ucast w :: u16) else ucast (ucast w :: u16)
    else w)"

text \<open>The text of one conversion, with the rest of the format and of the arguments.\<close>

definition integer_text ::
  "nat \<Rightarrow> int \<Rightarrow> int \<Rightarrow> u8 \<Rightarrow> u8 \<Rightarrow> va_list \<Rightarrow> (va_list \<times> u8 list) option" where
  "integer_text base width precision qualifier flags args = do {
     (w, args) \<leftarrow> va_arg_int args;
     Some (args, number_text (integer_value qualifier flags w) base width precision flags)
   }"

fun conversion_text ::
  "char_ptr \<Rightarrow> int \<Rightarrow> int \<Rightarrow> u8 \<Rightarrow> u8 \<Rightarrow> va_list \<Rightarrow> (char_ptr \<times> va_list \<times> u8 list) option" where
  "conversion_text [] width precision qualifier flags args = None"
| "conversion_text (c # fmt) width precision qualifier flags args =
     (if c = ch_c then do {
        (w, args) \<leftarrow> va_arg_int args;
        Some (fmt, args, field_text width flags [ucast w])
      } else if c = ch_s then do {
        (a, s, args) \<leftarrow> va_arg_ptr args;
        let s = (if a = 0 then null_string else s);
        if 0 \<in> set s \<or> 0 \<le> width \<and> width \<le> int (length s)
        then Some (fmt, args, field_text width flags (string_text width precision s)) else None
      } else if c = ch_p then do {
        (a, s, args) \<leftarrow> va_arg_ptr args;
        Some (fmt, args, if width = - 1 then number_text a 16 8 precision (flags OR ZEROPAD)
          else number_text a 16 width precision flags)
      } else if c = ch_percent then Some (fmt, args, [ch_percent])
      else if c \<in> {ch_o, ch_X, ch_x, ch_d, ch_i, ch_u} then do {
        (args, txt) \<leftarrow> integer_text (if c \<in> {ch_o, ch_X, ch_x} then 16 else 10) width precision
          qualifier (if c = ch_X then flags OR LARGE
            else if c = ch_d \<or> c = ch_i then flags OR SIGN else flags) args;
        Some (fmt, args, txt)
      } else if c \<noteq> 0 then Some (fmt, args, [ch_percent, c])
      else Some (c # fmt, args, [ch_percent]))"

definition directive_text ::
  "char_ptr \<Rightarrow> va_list \<Rightarrow> (char_ptr \<times> va_list \<times> u8 list) option" where
  "directive_text fmt args = do {
     (flags, fmt) \<leftarrow> printf_flags fmt 0;
     (width, flags, fmt, args) \<leftarrow> printf_width fmt flags args;
     (precision, fmt, args) \<leftarrow> printf_precision fmt args;
     (qualifier, fmt) \<leftarrow> printf_qualifier fmt;
     conversion_text fmt width precision qualifier flags args
   }"

lemma conversion_text_shorter:
  "conversion_text fmt w p q fl args = Some (fmt', args', txt) \<Longrightarrow> length fmt' \<le> length fmt"
  by (cases fmt) (auto split: if_splits bind_splits simp: Let_def)

lemma directive_text_shorter:
  assumes "directive_text fmt args = Some (fmt', args', txt)"
  shows "length fmt' \<le> length fmt"
  using assms unfolding directive_text_def
  by (auto split: bind_splits dest!: printf_flags_shorter printf_width_shorter
      printf_precision_shorter printf_qualifier_shorter conversion_text_shorter)

text \<open>The text of a whole format with its arguments.\<close>

function format_text :: "char_ptr \<Rightarrow> va_list \<Rightarrow> u8 list option" where
  "format_text [] args = None"
| "format_text (c # fmt) args =
     (if c = 0 then Some []
      else if c \<noteq> ch_percent then map_option (\<lambda>txt. c # txt) (format_text fmt args)
      else case directive_text fmt args of
          None \<Rightarrow> None
        | Some (fmt, args, txt) \<Rightarrow> map_option (\<lambda>rest. txt @ rest) (format_text fmt args))"
  by pat_completeness auto
termination
  by (relation "measure (\<lambda>(fmt, args). length fmt)") (auto dest!: directive_text_shorter)

section \<open>The routines put the text\<close>

lemma print_char_emit:
  "print_char e width flags args out = (case va_arg_int args of None \<Rightarrow> None
     | Some (w, args) \<Rightarrow> Some (args, emit e (field_text width flags [ucast w]) out))"
  by (cases args rule: va_arg_int.cases)
     (auto simp: print_char_def field_text_def Let_def put_as_emit)

lemma string_len_nul:
  assumes "n < 0" "0 \<le> len"
  shows "string_len s n len = (if 0 \<in> set s
     then Some (len + int (length (takeWhile (\<lambda>c. c \<noteq> 0) s))) else None)"
  using assms by (induction s n len rule: string_len.induct) auto

lemma string_len_Some:
  assumes "0 \<le> len" "len \<le> n"
  shows "string_len s n len = (if 0 \<in> set s \<or> n \<le> len + int (length s)
     then Some (len + int (length (take (nat (n - len)) (takeWhile (\<lambda>c. c \<noteq> 0) s)))) else None)"
  using assms
proof (induction s n len rule: string_len.induct)
  case (2 c s n len)
  show ?case
  proof (cases "len \<noteq> n \<and> c \<noteq> 0")
    case True
    then have "nat (n - len) = Suc (nat (n - (len + 1)))" using 2(3) by arith
    then show ?thesis using True 2 by simp
  next
    case False
    then show ?thesis using 2 by auto
  qed
qed auto

lemma length_string_text:
  "0 \<in> set s \<or> 0 \<le> width \<and> width \<le> int (length s) \<Longrightarrow>
   length (string_text width precision s) \<le> length s"
  using length_takeWhile_le [of "\<lambda>c. c \<noteq> 0" s] by (auto simp: string_text_def Let_def)

lemma take_string_text:
  "take (length (string_text width precision s)) s = string_text width precision s"
proof -
  have "\<exists>n. string_text width precision s = take n s"
  proof -
    have t: "takeWhile P xs = take (length (takeWhile P xs)) xs" for P :: "u8 \<Rightarrow> bool" and xs
      by (rule takeWhile_eq_take)
    show ?thesis
      unfolding string_text_def Let_def
      by (subst (1 2 3 4) t) (auto simp: take_take)
  qed
  then obtain n where "string_text width precision s = take n s" ..
  then show ?thesis by (simp add: min_def)
qed

lemma string_len_text:
  "string_len s width 0 = (if 0 \<in> set s \<or> 0 \<le> width \<and> width \<le> int (length s)
     then Some (int (length (string_text width (- 1) s))) else None)"
proof (cases "width < 0")
  case True
  then show ?thesis using string_len_nul [of width 0 s] by (simp add: string_text_def)
next
  case False
  then show ?thesis using string_len_Some [of 0 width s] by (simp add: string_text_def)
qed

lemma string_text_precision:
  "(let len = int (length (string_text width (- 1) s))
    in if precision > 0 \<and> len > precision then precision else len) =
   int (length (string_text width precision s))"
  by (auto simp: string_text_def Let_def)

lemma print_string_emit:
  "print_string e width precision flags args out = (case va_arg_ptr args of None \<Rightarrow> None
     | Some (a, s, args) \<Rightarrow> (let s = (if a = 0 then null_string else s)
         in if 0 \<in> set s \<or> 0 \<le> width \<and> width \<le> int (length s)
            then Some (args, emit e (field_text width flags (string_text width precision s)) out)
            else None))"
proof (cases "va_arg_ptr args")
  case None
  then show ?thesis by (simp add: print_string_def)
next
  case (Some r)
  obtain a s' rest where r: "r = (a, s', rest)" by (cases r)
  define s where "s = (if a = 0 then null_string else s')"
  define len where "len = length (string_text width precision s)"
  show ?thesis
  proof (cases "0 \<in> set s \<or> 0 \<le> width \<and> width \<le> int (length s)")
    case True
    have put: "put_string e len s o' = Some (emit e (string_text width precision s) o')" for o'
      using length_string_text [OF True, of precision] take_string_text [of width precision s]
      by (simp add: put_string_emit len_def)
    define n where "n = length (string_text width (- 1) s)"
    have len0: "string_len s width 0 = Some (int n)" using True by (simp add: string_len_text n_def)
    have len: "(if precision > 0 \<and> int n > precision then precision else int n) = int len"
      using string_text_precision [of width s precision] unfolding Let_def n_def len_def .
    have "print_string e width precision flags args out =
        Some (rest, emit e (field_text width flags (string_text width precision s)) out)"
      unfolding print_string_def Some r Option.bind.simps prod.case Let_def s_def [symmetric] len0 len
      by (simp add: put field_text_def Let_def len_def [symmetric])
    then show ?thesis using True by (simp add: Some r s_def [symmetric] Let_def)
  next
    case False
    then have len0: "string_len s width 0 = None" by (simp only: string_len_text if_False)
    have "print_string e width precision flags args out = None"
      unfolding print_string_def Some r Option.bind.simps prod.case Let_def s_def [symmetric] len0 ..
    then show ?thesis using False by (simp only: Some r s_def [symmetric] Let_def option.case prod.case if_False)
  qed
qed

lemma print_integer_emit:
  "print_integer e base w p q flags args out = (case va_arg_int args of None \<Rightarrow> None
     | Some (x, args) \<Rightarrow> Some (args, emit e (number_text (integer_value q flags x) base w p flags) out))"
  by (cases args rule: va_arg_int.cases)
     (simp_all add: print_integer_def print_number_emit integer_value_def Let_def)

lemma number_text_base8: "number_text num 8 w p flags = number_text num 16 w p flags"
  by (simp add: number_text_def printed_base_def)

lemma printf_switch_emit:
  "printf_switch e fmt w p q flags args out =
     map_option (\<lambda>(fmt, args, txt). (fmt, args, emit e txt out))
       (conversion_text fmt w p q flags args)"
proof (cases fmt)
  case (Cons c fmt')
  then show ?thesis
    by (auto simp: print_char_emit print_string_emit print_integer_emit print_number_emit
        integer_text_def number_text_base8 Let_def put_as_emit split: option.splits)
qed simp

lemma printf_directive_emit:
  "printf_directive e fmt args out =
     map_option (\<lambda>(fmt, args, txt). (fmt, args, emit e txt out)) (directive_text fmt args)"
  unfolding printf_directive_def directive_text_def
  by (auto simp: printf_switch_emit split: bind_splits)

theorem printf_loop_emit:
  "printf_loop e fmt args out = map_option (\<lambda>txt. emit e txt out) (format_text fmt args)"
proof (induction fmt args arbitrary: out rule: format_text.induct)
  case (2 c fmt args)
  then show ?case
    by (auto simp: printf_directive_emit put_as_emit option.map_comp comp_def split: option.splits)
qed simp

section \<open>The buffer\<close>

definition write_bytes :: "u32 \<Rightarrow> u8 list \<Rightarrow> memory \<Rightarrow> memory" where
  "write_bytes p cs m = (\<lambda>a. if unat (a - p) < length cs then cs ! unat (a - p) else m a)"

lemma write_bytes_Nil [simp]: "write_bytes p [] m = m"
  by (simp add: write_bytes_def)

lemma bytes_write_bytes:
  assumes "length cs \<le> 2 ^ 32"
  shows "bytes (write_bytes p cs m) p (length cs) = cs"
  using assms by (intro nth_equalityI) (simp_all add: write_bytes_def unat_of_nat_id)

lemma writes_only_write_bytes: "region p (length cs) \<Longrightarrow> writes_only p (length cs) m (write_bytes p cs m)"
  unfolding writes_only_def by (auto simp: write_bytes_def dest: unat_diff_far)

lemma write_bytes_snoc:
  assumes "length cs < 2 ^ 32"
  shows "(write_bytes p cs m)(p + of_nat (length cs) := c) = write_bytes p (cs @ [c]) m"
proof
  fix a
  have "a = p + of_nat (length cs) \<longleftrightarrow> unat (a - p) = length cs"
  proof
    assume "unat (a - p) = length cs"
    then have "a - p = of_nat (length cs)" by (rule unat_eq_numeral)
    then show "a = p + of_nat (length cs)" by (simp add: algebra_simps)
  qed (use assms in \<open>simp add: unat_of_nat_id\<close>)
  then show "((write_bytes p cs m)(p + of_nat (length cs) := c)) a = write_bytes p (cs @ [c]) m a"
    by (auto simp: write_bytes_def nth_append)
qed

lemma emit_memory:
  assumes "p \<le> e" "unat p + length cs < 2 ^ 32"
  shows "emit e cs (p, m) = (p + of_nat (length cs), write_bytes p (take (unat (e - p)) cs) m)"
  using assms(2)
proof (induction cs rule: rev_induct)
  case (snoc c cs)
  let ?k = "unat (e - p)" and ?n = "length cs"
  have k: "?k = unat e - unat p" "unat p \<le> unat e" using assms(1) by (simp_all add: unat_sub word_le_nat_alt)
  have "unat (p + of_nat ?n) = unat p + ?n" using snoc.prems by (intro unat_add_nat) simp
  then have lt: "p + of_nat ?n < e \<longleftrightarrow> ?n < ?k" using k by (simp add: word_less_nat_alt) linarith
  have n: "?n < 2 ^ 32" using snoc.prems by simp
  have "emit e (cs @ [c]) (p, m) = put e c (emit e cs (p, m))" by simp
  also have "\<dots> = put e c (p + of_nat ?n, write_bytes p (take ?k cs) m)"
    using snoc by (simp del: put_emit)
  also have "\<dots> = (p + of_nat (length (cs @ [c])), write_bytes p (take ?k (cs @ [c])) m)"
    using lt write_bytes_snoc [OF n, of p m c] by (auto simp: put_def add.assoc)
  finally show ?case .
qed simp

text \<open>The text that fits into a buffer of \<open>n\<close> bytes, with its NUL.\<close>

definition clipped :: "nat \<Rightarrow> u8 list \<Rightarrow> u8 list" where
  "clipped n txt = (if n = 0 then [] else take (n - 1) txt @ [0])"

lemma length_clipped: "length (clipped n txt) \<le> n"
  by (auto simp: clipped_def)

lemma write_bytes_terminate:
  assumes "0 < n" "n \<le> 2 ^ 32" "q = p + of_nat (n - 1)"
  shows "(if length txt < n then (write_bytes p (take n txt) m)(p + of_nat (length txt) := 0)
     else (write_bytes p (take n txt) m)(q := 0)) = write_bytes p (clipped n txt) m"
proof (cases "length txt < n")
  case True
  then show ?thesis
    using assms write_bytes_snoc [of "txt" p m 0] by (auto simp: clipped_def)
next
  case False
  let ?cs = "take (n - 1) txt"
  have len: "length ?cs = n - 1" using False by simp
  have "take n txt = ?cs @ [txt ! (n - 1)]"
    using False assms(1) take_Suc_conv_app_nth [of "n - 1" "txt"] by simp
  then have "write_bytes p (take n txt) m = (write_bytes p ?cs m)(p + of_nat (n - 1) := txt ! (n - 1))"
    using write_bytes_snoc [of ?cs p m "txt ! (n - 1)"] assms len by simp
  moreover have "(write_bytes p ?cs m)(q := 0) = write_bytes p (?cs @ [0]) m"
    using write_bytes_snoc [of ?cs p m 0] assms(1,2) len by (simp add: assms(3))
  ultimately show ?thesis using False assms(1,3) by (simp add: clipped_def)
qed

lemma rt_vsnprintf_result:
  assumes b: "unat buf + unat sz < 2 ^ 32" and t: "format_text fmt args = Some txt"
    and l: "unat buf + length txt < 2 ^ 32"
  shows "rt_vsnprintf buf sz fmt args m =
    Some (of_nat (length txt), write_bytes buf (clipped (unat sz) txt) m)"
proof -
  have u: "unat (buf + sz) = unat buf + unat sz" using b by (simp add: unat_word_ariths)
  then have le: "\<not> buf + sz < buf" "buf \<le> buf + sz" by (simp_all add: word_less_nat_alt word_le_nat_alt)
  have "unat (buf + of_nat (length txt)) = unat buf + length txt" using l by (rule unat_add_nat)
  then have lt: "buf + of_nat (length txt) < buf + sz \<longleftrightarrow> length txt < unat sz"
    by (simp add: word_less_nat_alt u)
  have loop: "printf_loop (buf + sz) fmt args (buf, m) =
      Some (buf + of_nat (length txt), write_bytes buf (take (unat sz) txt) m)"
    unfolding printf_loop_emit using emit_memory [OF le(2) l] by (simp add: t)
  have z: "sz > 0 \<longleftrightarrow> 0 < unat sz" by (simp add: word_less_nat_alt)
  show ?thesis
  proof (cases "sz = 0")
    case True
    then show ?thesis using loop by (simp add: rt_vsnprintf_def clipped_def)
  next
    case False
    then have "0 < unat sz" by (simp add: unat_gt_0)
    then have q: "buf + sz - 1 = buf + of_nat (unat sz - 1)" by (simp add: of_nat_diff)
    have m: "(if length txt < unat sz then (write_bytes buf (take (unat sz) txt) m)(buf + of_nat (length txt) := 0)
        else (write_bytes buf (take (unat sz) txt) m)(buf + sz - 1 := 0)) =
        write_bytes buf (clipped (unat sz) txt) m"
      using \<open>0 < unat sz\<close> b q by (intro write_bytes_terminate) simp_all
    show ?thesis
      unfolding rt_vsnprintf_def Let_def if_not_P [OF le(1)] prod.case loop Option.bind.simps lt m [symmetric]
      using False by (simp add: word_neq_0_conv [symmetric])
  qed
qed

section \<open>The types of the arguments\<close>

text \<open>
  What a format takes from the argument list.  A width given as \<open>*\<close> must not be the least
  \<^verbatim>\<open>int\<close>, which has no negation; a string must be \<^verbatim>\<open>RT_NULL\<close> or have a NUL, also when a
  precision is given.
\<close>

datatype fmt_type = Ty_int | Ty_width | Ty_string | Ty_pointer

fun has_type :: "fmt_type \<Rightarrow> va \<Rightarrow> bool" where
  "has_type Ty_int (Va_int w) = True"
| "has_type Ty_width (Va_int w) = (w \<noteq> 0x80000000)"
| "has_type Ty_string (Va_ptr a s) = (a = 0 \<or> 0 \<in> set s)"
| "has_type Ty_pointer (Va_ptr a s) = True"
| "has_type _ _ = False"

fun width_types :: "char_ptr \<Rightarrow> (fmt_type list \<times> char_ptr) option" where
  "width_types [] = None"
| "width_types (c # fmt) =
     (if ISDIGIT c then map_option (\<lambda>(n, fmt). ([], fmt)) (skip_atoi (c # fmt) 0)
      else if c = ch_star then Some ([Ty_width], fmt)
      else Some ([], c # fmt))"

fun precision_types :: "char_ptr \<Rightarrow> (fmt_type list \<times> char_ptr) option" where
  "precision_types [] = None"
| "precision_types (c # fmt) =
     (if c \<noteq> ch_dot then Some ([], c # fmt)
      else case fmt of [] \<Rightarrow> None
        | d # fmt' \<Rightarrow>
            if ISDIGIT d then map_option (\<lambda>(n, fmt). ([], fmt)) (skip_atoi fmt 0)
            else if d = ch_star then Some ([Ty_int], fmt')
            else Some ([], fmt))"

fun conversion_types :: "char_ptr \<Rightarrow> (fmt_type list \<times> char_ptr) option" where
  "conversion_types [] = None"
| "conversion_types (c # fmt) = Some
     (if c = ch_s then [Ty_string] else if c = ch_p then [Ty_pointer]
      else if c \<in> {ch_c, ch_o, ch_X, ch_x, ch_d, ch_i, ch_u} then [Ty_int] else [],
      if c = 0 then c # fmt else fmt)"

definition directive_types :: "char_ptr \<Rightarrow> (fmt_type list \<times> char_ptr) option" where
  "directive_types fmt = do {
     (flags, fmt) \<leftarrow> printf_flags fmt 0;
     (ws, fmt) \<leftarrow> width_types fmt;
     (ps, fmt) \<leftarrow> precision_types fmt;
     (qualifier, fmt) \<leftarrow> printf_qualifier fmt;
     (cs, fmt) \<leftarrow> conversion_types fmt;
     Some (ws @ ps @ cs, fmt)
   }"

lemma width_types_shorter: "width_types fmt = Some (ts, fmt') \<Longrightarrow> length fmt' \<le> length fmt"
  by (cases fmt) (auto split: if_splits dest: skip_atoi_shorter)

lemma precision_types_shorter: "precision_types fmt = Some (ts, fmt') \<Longrightarrow> length fmt' \<le> length fmt"
  by (cases fmt) (auto split: if_splits list.splits dest!: skip_atoi_shorter)

lemma conversion_types_shorter: "conversion_types fmt = Some (ts, fmt') \<Longrightarrow> length fmt' \<le> length fmt"
  by (cases fmt) (auto split: if_splits)

lemma directive_types_shorter:
  assumes "directive_types fmt = Some (ts, fmt')"
  shows "length fmt' \<le> length fmt"
  using assms unfolding directive_types_def
  by (auto split: bind_splits dest!: printf_flags_shorter width_types_shorter
      precision_types_shorter printf_qualifier_shorter conversion_types_shorter)

function format_types :: "char_ptr \<Rightarrow> fmt_type list option" where
  "format_types [] = None"
| "format_types (c # fmt) =
     (if c = 0 then Some []
      else if c \<noteq> ch_percent then format_types fmt
      else case directive_types fmt of
          None \<Rightarrow> None
        | Some (ts, fmt) \<Rightarrow> map_option (\<lambda>rest. ts @ rest) (format_types fmt))"
  by pat_completeness auto
termination
  by (relation "measure length") (auto dest!: directive_types_shorter)

definition have_types :: "fmt_type list \<Rightarrow> va_list \<Rightarrow> bool" where
  "have_types ts args = (list_all2 has_type ts (take (length ts) args))"

lemma have_types_Nil [simp]: "have_types [] args"
  by (simp add: have_types_def)

lemma have_types_Cons:
  "have_types (t # ts) args \<longleftrightarrow> (\<exists>v args'. args = v # args' \<and> has_type t v \<and> have_types ts args')"
  by (cases args) (simp_all add: have_types_def)

lemma has_type_cases:
  "has_type Ty_int v \<longleftrightarrow> (\<exists>w. v = Va_int w)"
  "has_type Ty_width v \<longleftrightarrow> (\<exists>w. v = Va_int w \<and> w \<noteq> 0x80000000)"
  "has_type Ty_string v \<longleftrightarrow> (\<exists>a s. v = Va_ptr a s \<and> (a = 0 \<or> 0 \<in> set s))"
  "has_type Ty_pointer v \<longleftrightarrow> (\<exists>a s. v = Va_ptr a s)"
  by (cases v; simp)+

text \<open>Progress of the parts.\<close>

lemma width_progress:
  assumes "width_types fmt = Some (ts, fmt')" "have_types (ts @ us) args"
  shows "\<exists>w fl' args'. printf_width fmt fl args = Some (w, fl', fmt', args') \<and> have_types us args'"
proof (cases fmt)
  case (Cons c rest)
  then show ?thesis
    using assms by (auto split: if_splits simp: have_types_Cons has_type_cases Let_def)
qed (use assms in simp)

lemma precision_progress:
  assumes "precision_types fmt = Some (ts, fmt')" "have_types (ts @ us) args"
  shows "\<exists>p args'. printf_precision fmt args = Some (p, fmt', args') \<and> have_types us args'"
proof (cases fmt)
  case (Cons c rest)
  then show ?thesis
    using assms by (auto split: if_splits list.splits simp: have_types_Cons has_type_cases Let_def)
qed (use assms in simp)

lemma null_string_nul: "0 \<in> set null_string"
  by (simp add: null_string_def)

lemma conversion_progress:
  assumes "conversion_types fmt = Some (ts, fmt')" "have_types (ts @ us) args"
  shows "\<exists>args' txt. conversion_text fmt w p q fl args = Some (fmt', args', txt) \<and> have_types us args'"
proof (cases fmt)
  case (Cons c rest)
  then show ?thesis
    using assms null_string_nul
    by (auto split: if_splits simp: have_types_Cons has_type_cases Let_def integer_text_def)
qed (use assms in simp)

lemma directive_progress:
  assumes "directive_types fmt = Some (ts, fmt')" "have_types (ts @ us) args"
  shows "\<exists>args' txt. directive_text fmt args = Some (fmt', args', txt) \<and> have_types us args'"
proof -
  obtain fl f1 ws f2 ps f3 q f4 cs where parts: "printf_flags fmt 0 = Some (fl, f1)"
      "width_types f1 = Some (ws, f2)" "precision_types f2 = Some (ps, f3)"
      "printf_qualifier f3 = Some (q, f4)" "conversion_types f4 = Some (cs, fmt')"
      and ts: "ts = ws @ ps @ cs"
    using assms(1) by (auto simp: directive_types_def split: bind_splits)
  obtain w fl' a1 where w: "printf_width f1 fl args = Some (w, fl', f2, a1)"
      and a1: "have_types (ps @ cs @ us) a1"
    using width_progress [OF parts(2), of "ps @ cs @ us" args fl] assms(2) ts by auto
  obtain p a2 where p: "printf_precision f2 a1 = Some (p, f3, a2)" and a2: "have_types (cs @ us) a2"
    using precision_progress [OF parts(3) a1] by auto
  show ?thesis
    using conversion_progress [OF parts(5) a2, of w p q fl'] parts(1,4) w p
    by (auto simp: directive_text_def)
qed

lemma format_progress:
  assumes "format_types fmt = Some ts" "have_types ts args"
  shows "\<exists>txt. format_text fmt args = Some txt"
  using assms
proof (induction fmt arbitrary: ts args rule: format_types.induct)
  case (2 c fmt)
  show ?case
  proof (cases "c = ch_percent")
    case False
    then show ?thesis using 2 by (auto split: if_splits)
  next
    case True
    obtain us f vs where d: "directive_types fmt = Some (us, f)" "format_types f = Some vs" "ts = us @ vs"
      using 2(3) True by (auto split: option.splits)
    obtain a1 x where t: "directive_text fmt args = Some (f, a1, x)" "have_types vs a1"
      using directive_progress [OF d(1), of vs args] 2(4) d(3) by auto
    have "\<exists>rest. format_text f a1 = Some rest"
      using True 2(2) [OF _ _ d(1) refl d(2) t(2)] by simp
    then show ?thesis using t(1) True by auto
  qed
qed simp

section \<open>Numbers are read back\<close>

lemma small_digits_nth:
  assumes "i < 10"
  shows "small_digits ! i = of_nat (48 + i)"
proof -
  have "i = 0 \<or> i = 1 \<or> i = 2 \<or> i = 3 \<or> i = 4 \<or> i = 5 \<or> i = 6 \<or> i = 7 \<or> i = 8 \<or> i = 9"
    using assms by arith
  then show ?thesis by (auto simp: small_digits_def)
qed

lemma ISDIGIT_digit:
  assumes "i < 10"
  shows "ISDIGIT (of_nat (48 + i))" "uint (of_nat (48 + i) :: u8) = 48 + int i"
proof -
  have u: "unat (of_nat (48 + i) :: u8) = 48 + i" using assms by (intro unat_of_nat_id) simp
  then show "uint (of_nat (48 + i) :: u8) = 48 + int i" by (simp add: uint_nat)
  show "ISDIGIT (of_nat (48 + i))"
    using u assms by (simp add: ISDIGIT_def word_le_nat_alt word_less_nat_alt)
qed

lemma skip_atoi_digit_text:
  assumes "n + 48 < 2 ^ 31"
  shows "skip_atoi (digit_text small_digits 10 n @ rest) 0 = skip_atoi rest (int n)"
  using assms
proof (induction n arbitrary: rest rule: less_induct)
  case (less n)
  show ?case
  proof (cases "n < 10")
    case True
    then show ?thesis
      by (simp add: digit_text.simps [of _ _ n] small_digits_nth ISDIGIT_digit del: of_nat_add)
  next
    case False
    let ?d = "of_nat (48 + n mod 10) :: u8"
    have "digit_text small_digits 10 n @ rest = digit_text small_digits 10 (n div 10) @ ?d # rest"
      using False by (simp add: digit_text.simps [of _ _ n] small_digits_nth del: of_nat_add)
    moreover have "n div 10 < n" "n div 10 + 48 < 2 ^ 31" using False less.prems by simp_all
    ultimately have "skip_atoi (digit_text small_digits 10 n @ rest) 0 = skip_atoi (?d # rest) (int (n div 10))"
      using less.IH by simp
    moreover have "int (n div 10) * 10 + int (n mod 10) = int n" by presburger
    ultimately show ?thesis
      using less.prems by (simp add: ISDIGIT_digit del: of_nat_add)
  qed
qed

lemma length_digit_text:
  assumes "2 \<le> b" "0 < k" "n < b ^ k"
  shows "length (digit_text digits b n) \<le> k"
  using assms(2,3)
proof (induction k arbitrary: n)
  case (Suc k)
  show ?case
  proof (cases "n < b")
    case False
    then have "0 < k" "n div b < b ^ k"
      using Suc.prems assms(1) by (cases k; simp add: less_mult_imp_div_less mult.commute)+
    then show ?thesis using Suc.IH [of "n div b"] False assms(1) by (simp add: digit_text.simps [of _ _ n])
  qed (simp add: digit_text.simps [of _ _ n])
qed simp

text \<open>The text that \<open>%d\<close> gives an \<^verbatim>\<open>int\<close>.\<close>

definition decimal_text :: "u32 \<Rightarrow> u8 list" where
  "decimal_text w = (if sint w < 0 then [ch_minus] else []) @
     digit_text small_digits 10 (nat \<bar>sint w\<bar>)"

lemma word_sint_inv: "word_of_int (sint w) = (w :: u32)"
  by (metis scast_eq scast_id)

lemma unat_abs_sint:
  fixes w :: u32
  shows "unat (if sint w < 0 then - w else w) = nat \<bar>sint w\<bar>"
proof -
  have u: "unat (word_of_int k :: u32) = nat k" if "0 \<le> k" "k \<le> 2 ^ 31" for k
  proof -
    have "uint (word_of_int k :: u32) = k"
      unfolding uint_word_of_int using that by (intro mod_pos_pos_trivial) simp_all
    then show ?thesis by (simp only: unat_eq_nat_uint)
  qed
  have b: "- (2 ^ 31) \<le> sint w" "sint w \<le> 2 ^ 31"
    using sint_greater_eq [of w] sint_less [of w] by simp_all
  show ?thesis
  proof (cases "sint w < 0")
    case True
    have "unat (word_of_int (- sint w) :: u32) = nat (- sint w)"
      using True b(1) by (intro u) simp_all
    then show ?thesis using True by (simp only: if_True abs_of_neg of_int_minus word_sint_inv)
  next
    case False
    then have p: "0 \<le> sint w" by simp
    have "unat w = nat (sint w)" using u [OF p b(2)] by (simp only: word_sint_inv)
    then show ?thesis by (simp only: if_not_P [OF False] abs_of_nonneg [OF p])
  qed
qed

lemma format_text_d:
  "format_text [ch_percent, ch_d, 0] [Va_int w] = Some (decimal_text w)"
proof -
  have f: "format_text [ch_percent, ch_d, 0] [Va_int w] = Some (number_text w 10 (- 1) (- 1) SIGN)"
    by (simp add: directive_text_def ISDIGIT_def integer_text_def integer_value_def)
  have n: "number_sign w SIGN = (if sint w < 0 then [ch_minus] else [], if sint w < 0 then - w else w)"
    by (simp add: number_sign_def word_sless_alt)
  have x: "max (- 1) (int k) = int k" "nat (- 1 - int k) = 0" "nat (- 1 - int k - int j) = 0" for k j
    by simp_all
  show ?thesis
    unfolding f number_text_def n prod.case Let_def unat_abs_sint decimal_text_def x printed_base_def
    by simp
qed

lemma decimal_text_read:
  assumes "\<bar>sint w\<bar> + 48 < 2 ^ 31" "decimal_text w = cs"
  shows "if sint w < 0 then \<exists>ds. cs = ch_minus # ds \<and> skip_atoi (ds @ [0]) 0 = Some (- sint w, [0])
    else skip_atoi (cs @ [0]) 0 = Some (sint w, [0])"
proof -
  have "nat \<bar>sint w\<bar> + 48 < 2 ^ 31" using assms(1) by simp
  from skip_atoi_digit_text [OF this, of "[0]"]
  have "skip_atoi (digit_text small_digits 10 (nat \<bar>sint w\<bar>) @ [0]) 0 = Some (\<bar>sint w\<bar>, [0])"
    by (simp add: ISDIGIT_def)
  then show ?thesis using assms(2) by (auto simp: decimal_text_def)
qed

lemma length_decimal_text: "length (decimal_text w) \<le> 11"
proof -
  have "\<bar>sint w\<bar> < 10 ^ 10"
    using sint_greater_eq [of w] sint_less [of w] by simp
  then have "nat \<bar>sint w\<bar> < 10 ^ 10" by simp
  from length_digit_text [OF _ _ this, of small_digits]
  have "length (digit_text small_digits 10 (nat \<bar>sint w\<bar>)) \<le> 10" by simp
  moreover have "length (if sint w < 0 then [ch_minus] else []) \<le> 1" by simp
  ultimately show ?thesis unfolding decimal_text_def length_append by linarith
qed

section \<open>Properties\<close>

text \<open>C22: \<open>rt_vsnprintf\<close>, with its pointer that runs past the end of the buffer, its counters and its
  backward loop over the digits, puts into the buffer the text that the format and the arguments
  describe, cut to \<open>size - 1\<close> characters and ended by NUL, changes nothing else, and returns the
  length of the uncut text; for size 0 it writes nothing.\<close>

theorem rt_vsnprintf_text:
  assumes "unat buf + unat sz < 2 ^ 32" "unat buf + length cs < 2 ^ 32"
    and "format_text fmt args = Some cs"
  shows "rt_vsnprintf buf sz fmt args m = Some (of_nat (length cs),
    \<lambda>a. if unat (a - buf) < length (clipped (unat sz) cs)
        then clipped (unat sz) cs ! unat (a - buf) else m a)"
  using rt_vsnprintf_result [OF assms(1,3,2), of m] by (simp add: write_bytes_def)

text \<open>The format \<open>"<%+05d>"\<close> on a buffer of 6 bytes: the text \<open>"<+0042>"\<close> is cut.\<close>

theorem rt_vsnprintf_text_witness:
  "rt_vsnprintf 0x1000 6 [60, 37, 43, 48, 53, 100, 62, 0] [Va_int 42] (\<lambda>a. 0xee) =
     Some (7, \<lambda>a. if unat (a - 0x1000) < 6 then [60, 43, 48, 48, 52, 0] ! unat (a - 0x1000) else 0xee)"
proof -
  have "format_text [60, 37, 43, 48, 53, 100, 62, 0] [Va_int 42] = Some [60, 43, 48, 48, 52, 50, 62]"
    by code_simp
  moreover have "clipped (unat (6 :: u32)) [60, 43, 48, 48, 52, 50, 62] = [60, 43, 48, 48, 52, 0]"
    by code_simp
  moreover have "length [60, 43, 48, 48, 52, 0 :: u8] = 6" "length [60, 43, 48, 48, 52, 50, 62 :: u8] = 7"
    by simp_all
  ultimately show ?thesis
    using rt_vsnprintf_text [of "0x1000" 6 "[60, 43, 48, 48, 52, 50, 62]" _ _ "\<lambda>a. 0xee"]
    by (simp only:) simp
qed

text \<open>C24: \<open>rt_snprintf\<close> writes nothing outside its buffer, also when the text is longer than the buffer;
  the buffer then holds the text, cut to the size of the buffer less one, with a NUL behind it, and the
  result is the length of the whole text.  This holds for a buffer inside of the address space and a text that, written
  from the buffer on, would not run past the end of the address space: the code steps its
  pointer for every character, whether it stores it or not, so a longer text would make it wrap
  around to addresses below the end of the buffer.\<close>

theorem rt_snprintf_bounds:
  assumes "unat buf + unat sz < 2 ^ 32" "0 < sz" "format_text fmt args = Some cs"
    "unat buf + length cs < 2 ^ 32"
  shows "\<exists>m'. rt_snprintf buf sz fmt args m = Some (of_nat (length cs), m') \<and>
    writes_only buf (unat sz) m m' \<and>
    bytes m' buf (min (unat sz - 1) (length cs) + 1) = take (unat sz - 1) cs @ [0]"
proof -
  let ?m' = "write_bytes buf (clipped (unat sz) cs) m"
  have sz: "0 < unat sz" using assms(2) by (simp add: word_less_nat_alt)
  have len: "length (clipped (unat sz) cs) = min (unat sz - 1) (length cs) + 1"
    using sz by (simp add: clipped_def)
  have "writes_only buf (unat sz) m ?m'"
    using assms(1) sz len
    by (intro writes_only_within [OF writes_only_write_bytes]) (simp_all add: region_def)
  moreover have "bytes ?m' buf (length (clipped (unat sz) cs)) = clipped (unat sz) cs"
    using assms(1) length_clipped [of "unat sz" cs] by (intro bytes_write_bytes) linarith
  ultimately show ?thesis
    using rt_vsnprintf_result [OF assms(1,3,4), of m] sz
    by (simp add: rt_snprintf_def len clipped_def min.commute del: bytes_Suc)
qed

theorem rt_snprintf_bounds_witness:
  "\<exists>m'. rt_snprintf 0x1000 4 [104, 101, 108, 108, 111, 0] [] (\<lambda>a. 0xee) = Some (5, m') \<and>
    writes_only 0x1000 4 (\<lambda>a. 0xee) m' \<and> bytes m' 0x1000 4 = [104, 101, 108, 0]"
proof -
  have e: "min (unat (4 :: u32) - 1) (length [104, 101, 108, 108, 111 :: u8]) + 1 = 4"
    "take (unat (4 :: u32) - 1) [104, 101, 108, 108, 111] @ [0] = [104, 101, 108, 0 :: u8]"
    by simp_all
  show ?thesis
    using rt_snprintf_bounds [of "0x1000" 4 "[104, 101, 108, 108, 111, 0]" "[]"
        "[104, 101, 108, 108, 111]" "\<lambda>a. 0xee", unfolded e] by simp
qed

text \<open>C23: A format whose conversions, widths and precisions can be read has a list of argument types,
  and when arguments of these types are passed (more may follow), \<open>rt_vsnprintf\<close> returns: it
  takes no argument that is not there or of the wrong kind and reads past the end of no string.\<close>

theorem rt_vsnprintf_typed:
  assumes "format_types fmt = Some ts" "have_types ts args"
  shows "\<exists>n m'. rt_vsnprintf buf sz fmt args m = Some (n, m')"
proof -
  obtain cs where "format_text fmt args = Some cs" using format_progress [OF assms] ..
  then show ?thesis
    unfolding rt_vsnprintf_def by (auto simp: Let_def printf_loop_emit split: prod.split)
qed

text \<open>\<open>"%*d %s%p"\<close>.\<close>

theorem rt_vsnprintf_typed_witness:
  "\<exists>n m'. rt_vsnprintf 0x1000 16 [37, 42, 100, 32, 37, 115, 37, 112, 0]
     [Va_int 4, Va_int 42, Va_ptr 0 [], Va_ptr 0x2000 []] (\<lambda>a. 0) = Some (n, m')"
proof (rule rt_vsnprintf_typed)
  show "format_types [37, 42, 100, 32, 37, 115, 37, 112, 0] =
      Some [Ty_width, Ty_int, Ty_string, Ty_pointer]" by code_simp
qed (simp add: have_types_def)

text \<open>C25: A number printed with \<open>%d\<close> into a buffer of 12 bytes or more is there as a decimal
  numeral: reading it back with \<open>skip_atoi\<close>, after the minus sign of a negative number, gives the
  number and stops at the NUL.  The 48 numbers at either end of the range of \<open>int\<close>, where
  \<open>skip_atoi\<close> overflows on the way, are excluded.\<close>

theorem rt_snprintf_skip_atoi:
  assumes "unat buf + unat sz < 2 ^ 32" "12 \<le> unat sz" "\<bar>sint w\<bar> + 48 < 2 ^ 31"
    "unat buf + 11 < 2 ^ 32"
  shows "\<exists>n m'. rt_snprintf buf sz [ch_percent, ch_d, 0] [Va_int w] m = Some (n, m') \<and> n \<le> 11 \<and>
    (let s = bytes m' buf (unat n + 1)
     in if sint w < 0 then hd s = ch_minus \<and> skip_atoi (tl s) 0 = Some (- sint w, [0])
        else skip_atoi s 0 = Some (sint w, [0]))"
proof -
  let ?cs = "decimal_text w"
  let ?m' = "write_bytes buf (?cs @ [0]) m"
  have l: "length ?cs \<le> 11" by (rule length_decimal_text)
  then have c: "clipped (unat sz) ?cs = ?cs @ [0]" using assms(2) by (simp add: clipped_def)
  have n: "unat (of_nat (length ?cs) :: u32) = length ?cs" using l by (intro unat_of_nat_id) simp
  have "rt_snprintf buf sz [ch_percent, ch_d, 0] [Va_int w] m = Some (of_nat (length ?cs), ?m')"
    using rt_vsnprintf_result [OF assms(1) format_text_d, of w m] assms(4) l c
    by (simp add: rt_snprintf_def)
  moreover have "bytes ?m' buf (length ?cs + 1) = ?cs @ [0]"
    using bytes_write_bytes [of "?cs @ [0]" buf m] l by simp
  moreover have "of_nat (length ?cs) \<le> (11 :: u32)" using n l by (simp add: word_le_nat_alt)
  ultimately show ?thesis
    using decimal_text_read [OF assms(3) refl] n by (fastforce simp: Let_def split: if_splits)
qed

theorem rt_snprintf_skip_atoi_witness:
  "\<exists>n m'. rt_snprintf 0x1000 16 [ch_percent, ch_d, 0] [Va_int (- 1205)] (\<lambda>a. 0) = Some (n, m') \<and> n \<le> 11 \<and>
    (let s = bytes m' 0x1000 (unat n + 1)
     in hd s = ch_minus \<and> skip_atoi (tl s) 0 = Some (1205, [0]))"
  using rt_snprintf_skip_atoi [of "0x1000" 16 "- 1205" "\<lambda>a. 0"] by simp

end
