(* ===== verification/Msh.thy ===== *)
theory Msh
  imports KStrings
begin

text \<open>
  The command interpreter of the shell, \<^verbatim>\<open>components/finsh/msh.c\<close>, without modules and file
  system: splitting a line into arguments, looking up and calling a command, completing a command
  name.  What the functions print is left out.  A command buffer is a list of bytes; positions in
  it, also the pointers of \<^verbatim>\<open>argv\<close>, are its indices, and reading or writing behind its end has no
  result.  The table of commands that the linker collects is a parameter, the list of the names
  and functions of its entries.
\<close>

abbreviation (input) FINSH_ARG_MAX :: nat where "FINSH_ARG_MAX \<equiv> 8"

abbreviation (input) ch_tab :: u8 where "ch_tab \<equiv> 9"
abbreviation (input) ch_blank :: u8 where "ch_blank \<equiv> 32"
abbreviation (input) ch_quote :: u8 where "ch_quote \<equiv> 34"
abbreviation (input) ch_backslash :: u8 where "ch_backslash \<equiv> 92"

text \<open>\<^verbatim>\<open>cmd[i]\<close>.\<close>

definition char_at :: "char_ptr \<Rightarrow> nat \<Rightarrow> u8 option" where
  "char_at cmd i = (if i < length cmd then Some (cmd ! i) else None)"

definition is_blank :: "u8 \<Rightarrow> bool" where
  "is_blank c \<longleftrightarrow> c = ch_blank \<or> c = ch_tab"

section \<open>Splitting a line\<close>

text \<open>The three inner loops of \<^verbatim>\<open>msh_split\<close>: blanks are overwritten with NUL, a quoted string and a
  word are skipped.  The character is read before the position is compared.\<close>

function split_blanks :: "char_ptr \<Rightarrow> nat \<Rightarrow> nat \<Rightarrow> (char_ptr \<times> nat) option" where
  "split_blanks cmd len position = (case char_at cmd position of None \<Rightarrow> None
     | Some c \<Rightarrow>
         if is_blank c \<and> position < len
         then split_blanks (cmd[position := 0]) len (position + 1)
         else Some (cmd, position))"
  by pat_completeness auto
termination by (relation "measure (\<lambda>(cmd, len, position). len - position)") auto

function split_string :: "char_ptr \<Rightarrow> nat \<Rightarrow> nat \<Rightarrow> nat option" where
  "split_string cmd len position = (case char_at cmd position of None \<Rightarrow> None
     | Some c \<Rightarrow>
         if c \<noteq> ch_quote \<and> position < len then
           if c = ch_backslash then
             case char_at cmd (position + 1) of None \<Rightarrow> None
             | Some d \<Rightarrow> split_string cmd len (if d = ch_quote then position + 2 else position + 1)
           else split_string cmd len (position + 1)
         else Some position)"
  by pat_completeness auto
termination by (relation "measure (\<lambda>(cmd, len, position). len - position)") auto

function split_word :: "char_ptr \<Rightarrow> nat \<Rightarrow> nat \<Rightarrow> nat option" where
  "split_word cmd len position = (case char_at cmd position of None \<Rightarrow> None
     | Some c \<Rightarrow>
         if \<not> is_blank c \<and> position < len then split_word cmd len (position + 1)
         else Some position)"
  by pat_completeness auto
termination by (relation "measure (\<lambda>(cmd, len, position). len - position)") auto

declare split_blanks.simps [simp del] split_string.simps [simp del] split_word.simps [simp del]

lemma split_blanks_stop:
  "split_blanks cmd len p = Some (cmd', p') \<Longrightarrow>
     p \<le> p' \<and> (p' < len \<longrightarrow> (\<exists>c. char_at cmd' p' = Some c \<and> \<not> is_blank c))"
proof (induction cmd len p rule: split_blanks.induct)
  case (1 cmd len p)
  then show ?case by (subst (asm) (2) split_blanks.simps) (auto split: option.splits if_splits)
qed

lemma split_string_mono: "split_string cmd len p = Some p' \<Longrightarrow> p \<le> p'"
proof (induction cmd len p rule: split_string.induct)
  case (1 cmd len p)
  show ?case
    using 1(1,2) 1(3) [unfolded split_string.simps [of cmd len p]]
    by (fastforce split: option.splits if_splits)
qed

lemma split_word_mono: "split_word cmd len p = Some p' \<Longrightarrow> p \<le> p'"
proof (induction cmd len p rule: split_word.induct)
  case (1 cmd len p)
  then show ?case by (subst (asm) (2) split_word.simps) (fastforce split: option.splits if_splits)
qed

lemma split_word_advances:
  assumes "split_word cmd len p = Some p'" "char_at cmd p = Some c" "\<not> is_blank c" "p < len"
  shows "p < p'"
  using assms split_word_mono [of cmd len "p + 1" p'] by (subst (asm) split_word.simps) auto

text \<open>The outer loop; \<^verbatim>\<open>argc\<close> is the length of \<^verbatim>\<open>argv\<close>.\<close>

function msh_split_loop ::
  "char_ptr \<Rightarrow> nat \<Rightarrow> nat \<Rightarrow> nat list \<Rightarrow> (nat list \<times> char_ptr) option" where
  "msh_split_loop cmd len position argv =
     (if position < len then
        case split_blanks cmd len position of None \<Rightarrow> None
        | Some (cmd, position) \<Rightarrow>
            if length argv \<ge> FINSH_ARG_MAX then Some (argv, cmd)
            else if position \<ge> len then Some (argv, cmd)
            else if char_at cmd position = Some ch_quote then
              case split_string cmd len (position + 1) of None \<Rightarrow> None
              | Some position' \<Rightarrow>
                  if position' \<ge> len then Some (argv @ [position + 1], cmd)
                  else msh_split_loop (cmd[position' := 0]) len (position' + 1) (argv @ [position + 1])
            else
              case split_word cmd len position of None \<Rightarrow> None
              | Some position' \<Rightarrow>
                  if position' \<ge> len then Some (argv @ [position], cmd)
                  else msh_split_loop cmd len position' (argv @ [position])
      else Some (argv, cmd))"
  by pat_completeness auto
termination
proof (relation "measure (\<lambda>(cmd, len, position, argv). len - position)", goal_cases)
  case (2 cmd len position argv x cmd' position' p)
  then have "position \<le> position'" "position' + 1 \<le> p" "p < len"
    using split_blanks_stop [of cmd len position cmd' position'] split_string_mono [of cmd' len "position' + 1" p]
    by simp_all
  then show ?case by simp
next
  case (3 cmd len position argv x cmd' position' p)
  then have "position \<le> position'" "position' < p" "p < len"
    using split_blanks_stop [of cmd len position cmd' position'] split_word_advances [of cmd' len position' p]
    by auto
  then show ?case by simp
qed simp

definition msh_split :: "char_ptr \<Rightarrow> nat \<Rightarrow> (nat list \<times> char_ptr) option" where
  "msh_split cmd len = msh_split_loop cmd len 0 []"

declare msh_split_loop.simps [simp del]

section \<open>Commands\<close>

text \<open>The entries of \<^verbatim>\<open>_syscall_table\<close>: the name and a number for the function.\<close>

type_synonym syscall_table = "(char_ptr \<times> nat) list"

text \<open>\<open>"__cmd_"\<close>.\<close>

definition cmd_prefix :: char_ptr where "cmd_prefix = [95, 95, 99, 109, 100, 95, 0]"

fun msh_get_cmd :: "syscall_table \<Rightarrow> char_ptr \<Rightarrow> nat \<Rightarrow> nat option option" where
  "msh_get_cmd [] cmd sz = Some None"
| "msh_get_cmd ((nm, func) # index) cmd sz = do {
     r \<leftarrow> rt_strncmp nm cmd_prefix 6;
     if r \<noteq> 0 then msh_get_cmd index cmd sz
     else do {
       r \<leftarrow> rt_strncmp (drop 6 nm) cmd sz;
       if r = 0 then do {
         c \<leftarrow> char_at nm (6 + sz);
         if c = 0 then Some (Some func) else msh_get_cmd index cmd sz
       }
       else msh_get_cmd index cmd sz
     }
   }"

text \<open>A call of a command function: its number and its arguments, pointers into the buffer.\<close>

type_synonym cmd_call = "nat \<times> char_ptr list"

text \<open>\<^verbatim>\<open>_msh_exec_cmd\<close>: the call, if the result is not \<^verbatim>\<open>-RT_ERROR\<close>, and the buffer.  The loop that
  measures the first word is \<^const>\<open>split_word\<close>.\<close>

definition msh_exec_cmd ::
  "syscall_table \<Rightarrow> char_ptr \<Rightarrow> nat \<Rightarrow> (cmd_call option \<times> char_ptr) option" where
  "msh_exec_cmd table cmd len = do {
     cmd0_size \<leftarrow> split_word cmd len 0;
     if cmd0_size = 0 then Some (None, cmd)
     else do {
       cmd_func \<leftarrow> msh_get_cmd table cmd cmd0_size;
       case cmd_func of None \<Rightarrow> Some (None, cmd)
       | Some func \<Rightarrow> do {
           (argv, cmd) \<leftarrow> msh_split cmd len;
           if length argv = 0 then Some (None, cmd)
           else Some (Some (func, map (\<lambda>i. drop i cmd) argv), cmd)
         }
     }
   }"

fun skip_blanks :: "char_ptr \<Rightarrow> nat \<Rightarrow> (char_ptr \<times> nat) option" where
  "skip_blanks cmd 0 = Some (cmd, 0)"
| "skip_blanks [] (Suc len) = None"
| "skip_blanks (c # cmd) (Suc len) =
     (if is_blank c then skip_blanks cmd len else Some (c # cmd, Suc len))"

fun truncate_word :: "char_ptr \<Rightarrow> char_ptr option" where
  "truncate_word [] = None"
| "truncate_word (c # cmd) =
     (if c \<noteq> ch_blank \<and> c \<noteq> 0 then map_option (\<lambda>cmd. c # cmd) (truncate_word cmd)
      else Some (0 # cmd))"

text \<open>What \<^verbatim>\<open>msh_exec\<close> does: nothing for an empty line, the call of a command, or the message that
  there is no command of that name.\<close>

datatype msh_action = Nothing | Call cmd_call | Not_found char_ptr

definition msh_exec :: "syscall_table \<Rightarrow> char_ptr \<Rightarrow> nat \<Rightarrow> msh_action option" where
  "msh_exec table cmd len = do {
     (cmd, len) \<leftarrow> skip_blanks cmd len;
     if len = 0 then Some Nothing
     else do {
       (call, cmd) \<leftarrow> msh_exec_cmd table cmd len;
       case call of Some c \<Rightarrow> Some (Call c)
       | None \<Rightarrow> map_option Not_found (truncate_word cmd)
     }
   }"

section \<open>Completion\<close>

fun str_common_from :: "char_ptr \<Rightarrow> char_ptr \<Rightarrow> int \<Rightarrow> int option" where
  "str_common_from [] _ n = None"
| "str_common_from (c # str) [] n = (if c \<noteq> 0 then None else Some n)"
| "str_common_from (c # str) (d # str2) n =
     (if c \<noteq> 0 \<and> d \<noteq> 0 \<and> c = d then str_common_from str str2 (n + 1) else Some n)"

definition str_common :: "char_ptr \<Rightarrow> char_ptr \<Rightarrow> int option" where
  "str_common str1 str2 = str_common_from str1 str2 0"

text \<open>The loop over the commands: \<^verbatim>\<open>min_length\<close> and \<^verbatim>\<open>name_ptr\<close>.\<close>

fun complete_from ::
  "syscall_table \<Rightarrow> char_ptr \<Rightarrow> int \<Rightarrow> char_ptr option \<Rightarrow> (int \<times> char_ptr option) option" where
  "complete_from [] prefix min_length name_ptr = Some (min_length, name_ptr)"
| "complete_from ((nm, func) # index) prefix min_length name_ptr = do {
     r \<leftarrow> rt_strncmp nm cmd_prefix 6;
     if r \<noteq> 0 then complete_from index prefix min_length name_ptr
     else do {
       let cmd_name = drop 6 nm;
       n \<leftarrow> rt_strlen prefix;
       r \<leftarrow> rt_strncmp prefix cmd_name n;
       if r = 0 then do {
         (min_length, name_ptr) \<leftarrow>
           if min_length = 0 then do {
             n \<leftarrow> rt_strlen cmd_name;
             Some (int n, Some cmd_name)
           } else Some (min_length, name_ptr);
         p \<leftarrow> name_ptr;
         len \<leftarrow> str_common p cmd_name;
         complete_from index prefix (if len < min_length then len else min_length) (Some p)
       }
       else complete_from index prefix min_length name_ptr
     }
   }"

text \<open>\<^verbatim>\<open>msh_auto_complete\<close> yields the buffer that \<^verbatim>\<open>prefix\<close> points to.\<close>

definition msh_auto_complete :: "syscall_table \<Rightarrow> char_ptr \<Rightarrow> char_ptr option" where
  "msh_auto_complete table prefix = do {
     c \<leftarrow> char_at prefix 0;
     if c = 0 then Some prefix
     else do {
       (min_length, name_ptr) \<leftarrow> complete_from table prefix 0 None;
       case name_ptr of None \<Rightarrow> Some prefix
       | Some p \<Rightarrow> rt_strncpy prefix p (nat min_length)
     }
   }"

end
