(* ===== verification/Shell.thy ===== *)
theory Shell
  imports Msh
begin

text \<open>
  The line editor of the shell, \<^verbatim>\<open>components/finsh/shell.c\<close> with \<^verbatim>\<open>FINSH_USING_MSH_ONLY\<close>,
  \<^verbatim>\<open>FINSH_USING_HISTORY\<close> and \<^verbatim>\<open>FINSH_USING_AUTH\<close>: the loop of \<^verbatim>\<open>finsh_thread_entry\<close> as a function of one
  character, the history, the password, prompt and echo modes.  A character comes from
  \<^verbatim>\<open>finsh_getchar\<close> as an unsigned \<^verbatim>\<open>char\<close>, so that the test for a negative one never holds.  The
  device and its semaphore and what is printed are left out.  An access outside an array of the
  shell has no result.
\<close>

section \<open>The shell\<close>

abbreviation (input) FINSH_CMD_SIZE :: nat where "FINSH_CMD_SIZE \<equiv> 80"
abbreviation (input) FINSH_HISTORY_LINES :: nat where "FINSH_HISTORY_LINES \<equiv> 5"
abbreviation (input) FINSH_PASSWORD_MAX :: nat where "FINSH_PASSWORD_MAX \<equiv> 8"
abbreviation (input) FINSH_PASSWORD_MIN :: nat where "FINSH_PASSWORD_MIN \<equiv> 6"
abbreviation (input) RT_CONSOLEBUF_SIZE :: nat where "RT_CONSOLEBUF_SIZE \<equiv> 128"

datatype input_stat = WAIT_NORMAL | WAIT_SPEC_KEY | WAIT_FUNC_KEY

text \<open>\<^verbatim>\<open>echo_mode\<close> and \<^verbatim>\<open>prompt_mode\<close> are bit fields of one bit; \<open>input_stat\<close> is the member \<^verbatim>\<open>stat\<close>.\<close>

record finsh_shell =
  input_stat :: input_stat
  echo_mode :: "1 word"
  prompt_mode :: "1 word"
  current_history :: u16
  history_count :: u16
  cmd_history :: "char_ptr list"
  cmd_line :: char_ptr
  line_position :: u16
  line_curpos :: u16
  shell_password :: char_ptr

section \<open>Prompt and echo\<close>

definition finsh_get_prompt_mode :: "finsh_shell \<Rightarrow> u32" where
  "finsh_get_prompt_mode s = ucast (prompt_mode s)"

definition finsh_set_prompt_mode :: "u32 \<Rightarrow> finsh_shell \<Rightarrow> finsh_shell" where
  "finsh_set_prompt_mode mode s = s\<lparr>prompt_mode := ucast mode\<rparr>"

definition finsh_set_echo :: "u32 \<Rightarrow> finsh_shell \<Rightarrow> finsh_shell" where
  "finsh_set_echo echo s = s\<lparr>echo_mode := ucast (ucast echo :: u8)\<rparr>"

definition finsh_get_echo :: "finsh_shell \<Rightarrow> u32" where
  "finsh_get_echo s = ucast (echo_mode s)"

text \<open>The static buffer \<^verbatim>\<open>finsh_prompt\<close> is passed and returned; \<^verbatim>\<open>"msh >"\<close> is the default.\<close>

definition finsh_get_prompt :: "finsh_shell \<Rightarrow> char_ptr option \<Rightarrow> char_ptr \<Rightarrow> char_ptr option" where
  "finsh_get_prompt s finsh_prompt_custom finsh_prompt =
     (if prompt_mode s = 0 then
        if finsh_prompt = [] then None else Some (finsh_prompt[0 := 0])
      else case finsh_prompt_custom of
        Some prompt \<Rightarrow> rt_strncpy finsh_prompt prompt RT_CONSOLEBUF_SIZE
      | None \<Rightarrow> rt_strncpy finsh_prompt [109, 115, 104, 32, 62, 0] RT_CONSOLEBUF_SIZE)"

section \<open>The password\<close>

definition finsh_set_password :: "char_ptr \<Rightarrow> finsh_shell \<Rightarrow> (bool \<times> finsh_shell) option" where
  "finsh_set_password password s = do {
     pw_len \<leftarrow> rt_strlen password;
     if pw_len < FINSH_PASSWORD_MIN \<or> pw_len > FINSH_PASSWORD_MAX then Some (False, s)
     else do {
       pw \<leftarrow> rt_strncpy (shell_password s) password FINSH_PASSWORD_MAX;
       Some (True, s\<lparr>shell_password := pw\<rparr>)
     }
   }"

text \<open>One character of a password that is typed in: the local \<^verbatim>\<open>password\<close>, \<^verbatim>\<open>cur_pos\<close> and whether the
  input is finished.\<close>

definition auth_key :: "char_ptr \<Rightarrow> nat \<Rightarrow> u8 \<Rightarrow> char_ptr \<times> nat \<times> bool" where
  "auth_key password cur_pos ch =
     (if 32 \<le> ch \<and> ch \<le> 126 \<and> cur_pos < FINSH_PASSWORD_MAX then (password[cur_pos := ch], cur_pos + 1, False)
      else if ch = 8 \<and> cur_pos > 0 then (password[cur_pos - 1 := 0], cur_pos - 1, False)
      else (password, cur_pos, ch = 13 \<or> ch = 10))"

text \<open>The loop on the characters that arrive; its result is what is left of them when the shell
  starts, \<open>None\<close> as long as it waits.  The delay after a failure is left out.\<close>

fun auth_loop :: "char_ptr \<Rightarrow> char_ptr \<Rightarrow> nat \<Rightarrow> u8 list \<Rightarrow> u8 list option option" where
  "auth_loop stored password cur_pos [] = Some None"
| "auth_loop stored password cur_pos (ch # input) =
     (case auth_key password cur_pos ch of (password, cur_pos, input_finish) \<Rightarrow>
        if \<not> input_finish then auth_loop stored password cur_pos input
        else do {
          r \<leftarrow> rt_strncmp stored password FINSH_PASSWORD_MAX;
          if r = 0 then Some (Some input)
          else auth_loop stored (replicate FINSH_PASSWORD_MAX 0) 0 input
        })"

definition finsh_wait_auth :: "finsh_shell \<Rightarrow> u8 list \<Rightarrow> u8 list option option" where
  "finsh_wait_auth s input = do {
     n \<leftarrow> rt_strlen (shell_password s);
     if n = 0 then Some (Some input)
     else auth_loop (shell_password s) (replicate FINSH_PASSWORD_MAX 0) 0 input
   }"

section \<open>The line and the history\<close>

definition line_write :: "char_ptr \<Rightarrow> nat \<Rightarrow> u8 \<Rightarrow> char_ptr option" where
  "line_write l i c = (if i < length l then Some (l[i := c]) else None)"

text \<open>\<^verbatim>\<open>rt_memmove\<close> inside the line.\<close>

definition line_move :: "char_ptr \<Rightarrow> nat \<Rightarrow> nat \<Rightarrow> nat \<Rightarrow> char_ptr option" where
  "line_move l dst src n =
     (if dst + n \<le> length l \<and> src + n \<le> length l
      then Some (take dst l @ take n (drop src l) @ drop (dst + n) l) else None)"

text \<open>A cleared row of the history with the first \<open>n\<close> bytes of the line.\<close>

definition history_row :: "char_ptr \<Rightarrow> nat \<Rightarrow> char_ptr option" where
  "history_row l n =
     (if n \<le> FINSH_CMD_SIZE \<and> n \<le> length l then Some (take n l @ replicate (FINSH_CMD_SIZE - n) 0) else None)"

definition shell_push_history :: "finsh_shell \<Rightarrow> finsh_shell option" where
  "shell_push_history s = do {
     s \<leftarrow>
       if line_position s \<noteq> 0 then
         if unat (history_count s) \<ge> FINSH_HISTORY_LINES then
           if cmd_history s ! (FINSH_HISTORY_LINES - 1) \<noteq> cmd_line s then do {
             row \<leftarrow> history_row (cmd_line s) (unat (line_position s));
             Some (s\<lparr>cmd_history := tl (cmd_history s) @ [row], history_count := of_nat FINSH_HISTORY_LINES\<rparr>)
           } else Some s
         else
           if history_count s = 0 \<or> cmd_history s ! (unat (history_count s) - 1) \<noteq> cmd_line s then do {
             row \<leftarrow> history_row (cmd_line s) (unat (line_position s));
             Some (s\<lparr>cmd_history := (cmd_history s)[unat (history_count s) := row],
                     history_count := history_count s + 1\<rparr>)
           } else Some s
       else Some s;
     Some (s\<lparr>current_history := history_count s\<rparr>)
   }"

text \<open>Both history keys copy a row into the line and go to its end.\<close>

definition line_to_end :: "finsh_shell \<Rightarrow> finsh_shell option" where
  "line_to_end s = do {
     n \<leftarrow> rt_strlen (cmd_line s);
     Some (s\<lparr>line_position := of_nat n, line_curpos := of_nat n\<rparr>)
   }"

definition recall_history :: "finsh_shell \<Rightarrow> finsh_shell option" where
  "recall_history s =
     (if unat (current_history s) < length (cmd_history s)
      then line_to_end (s\<lparr>cmd_line := cmd_history s ! unat (current_history s)\<rparr>) else None)"

section \<open>Keys\<close>

definition key_up :: "finsh_shell \<Rightarrow> finsh_shell option" where
  "key_up s =
     (if current_history s > 0 then recall_history (s\<lparr>current_history := current_history s - 1\<rparr>)
      else Some (s\<lparr>current_history := 0\<rparr>))"

definition key_down :: "finsh_shell \<Rightarrow> finsh_shell option" where
  "key_down s =
     (if uint (current_history s) < uint (history_count s) - 1
      then recall_history (s\<lparr>current_history := current_history s + 1\<rparr>)
      else if history_count s \<noteq> 0 then recall_history (s\<lparr>current_history := history_count s - 1\<rparr>)
      else Some s)"

definition key_left :: "finsh_shell \<Rightarrow> finsh_shell" where
  "key_left s = (if line_curpos s \<noteq> 0 then s\<lparr>line_curpos := line_curpos s - 1\<rparr> else s)"

definition key_right :: "finsh_shell \<Rightarrow> finsh_shell" where
  "key_right s = (if line_curpos s < line_position s then s\<lparr>line_curpos := line_curpos s + 1\<rparr> else s)"

definition key_tab :: "syscall_table \<Rightarrow> finsh_shell \<Rightarrow> finsh_shell option" where
  "key_tab table s = do {
     l \<leftarrow> msh_auto_complete table (cmd_line s);
     line_to_end (s\<lparr>cmd_line := l\<rparr>)
   }"

definition key_backspace :: "finsh_shell \<Rightarrow> finsh_shell option" where
  "key_backspace s =
     (if line_curpos s = 0 then Some s
      else let s = s\<lparr>line_position := line_position s - 1, line_curpos := line_curpos s - 1\<rparr>
        in if line_position s > line_curpos s then do {
             l \<leftarrow> line_move (cmd_line s) (unat (line_curpos s)) (unat (line_curpos s) + 1)
                   (unat (line_position s) - unat (line_curpos s));
             l \<leftarrow> line_write l (unat (line_position s)) 0;
             Some (s\<lparr>cmd_line := l\<rparr>)
           } else do {
             l \<leftarrow> line_write (cmd_line s) (unat (line_position s)) 0;
             Some (s\<lparr>cmd_line := l\<rparr>)
           })"

definition key_enter :: "syscall_table \<Rightarrow> finsh_shell \<Rightarrow> (finsh_shell \<times> msh_action) option" where
  "key_enter table s = do {
     s \<leftarrow> shell_push_history s;
     act \<leftarrow> msh_exec table (cmd_line s) (unat (line_position s));
     Some (s\<lparr>cmd_line := replicate FINSH_CMD_SIZE 0, line_curpos := 0, line_position := 0\<rparr>, act)
   }"

definition key_char :: "finsh_shell \<Rightarrow> u8 \<Rightarrow> finsh_shell option" where
  "key_char s ch =
     (let s = (if unat (line_position s) \<ge> FINSH_CMD_SIZE then s\<lparr>line_position := 0\<rparr> else s) in do {
        l \<leftarrow>
          if line_curpos s < line_position s then do {
            l \<leftarrow> line_move (cmd_line s) (unat (line_curpos s) + 1) (unat (line_curpos s))
                  (unat (line_position s) - unat (line_curpos s));
            line_write l (unat (line_curpos s)) ch
          } else line_write (cmd_line s) (unat (line_position s)) ch;
        let s = s\<lparr>cmd_line := l, line_position := line_position s + 1, line_curpos := line_curpos s + 1\<rparr>;
        Some (if unat (line_position s) \<ge> FINSH_CMD_SIZE then s\<lparr>line_position := 0, line_curpos := 0\<rparr> else s)
      })"

section \<open>The loop\<close>

definition plain_key ::
  "syscall_table \<Rightarrow> finsh_shell \<Rightarrow> u8 \<Rightarrow> (finsh_shell \<times> msh_action option) option" where
  "plain_key table s ch =
     (if ch = 0 \<or> ch = 0xFF then Some (s, None)
      else if ch = 9 then map_option (\<lambda>s. (s, None)) (key_tab table s)
      else if ch = 0x7f \<or> ch = 0x08 then map_option (\<lambda>s. (s, None)) (key_backspace s)
      else if ch = 13 \<or> ch = 10 then map_option (\<lambda>(s, act). (s, Some act)) (key_enter table s)
      else map_option (\<lambda>s. (s, None)) (key_char s ch))"

text \<open>One round of the loop: the shell and, for the end of a line, what \<^const>\<open>msh_exec\<close> did.\<close>

definition finsh_key ::
  "syscall_table \<Rightarrow> finsh_shell \<Rightarrow> u8 \<Rightarrow> (finsh_shell \<times> msh_action option) option" where
  "finsh_key table s ch =
     (if ch = 0x1b then Some (s\<lparr>input_stat := WAIT_SPEC_KEY\<rparr>, None)
      else case input_stat s of
        WAIT_SPEC_KEY \<Rightarrow>
          if ch = 0x5b then Some (s\<lparr>input_stat := WAIT_FUNC_KEY\<rparr>, None)
          else plain_key table (s\<lparr>input_stat := WAIT_NORMAL\<rparr>) ch
      | WAIT_FUNC_KEY \<Rightarrow> let s = s\<lparr>input_stat := WAIT_NORMAL\<rparr> in
          if ch = 0x41 then map_option (\<lambda>s. (s, None)) (key_up s)
          else if ch = 0x42 then map_option (\<lambda>s. (s, None)) (key_down s)
          else if ch = 0x44 then Some (key_left s, None)
          else if ch = 0x43 then Some (key_right s, None)
          else plain_key table s ch
      | WAIT_NORMAL \<Rightarrow> plain_key table s ch)"

fun finsh_run :: "syscall_table \<Rightarrow> finsh_shell \<Rightarrow> u8 list \<Rightarrow> (finsh_shell \<times> msh_action list) option" where
  "finsh_run table s [] = Some (s, [])"
| "finsh_run table s (ch # chs) = do {
     (s, act) \<leftarrow> finsh_key table s ch;
     (s, acts) \<leftarrow> finsh_run table s chs;
     Some (s, (case act of None \<Rightarrow> acts | Some a \<Rightarrow> a # acts))
   }"

text \<open>The cleared structure of \<^verbatim>\<open>finsh_system_init\<close>, with its prompt, and the echo of
  \<^verbatim>\<open>finsh_thread_entry\<close>.\<close>

definition finsh_shell_init :: finsh_shell where
  "finsh_shell_init = \<lparr>input_stat = WAIT_NORMAL, echo_mode = 1, prompt_mode = 1,
     current_history = 0, history_count = 0,
     cmd_history = replicate FINSH_HISTORY_LINES (replicate FINSH_CMD_SIZE 0),
     cmd_line = replicate FINSH_CMD_SIZE 0, line_position = 0, line_curpos = 0,
     shell_password = replicate FINSH_PASSWORD_MAX 0\<rparr>"

text \<open>The password, when none is set, is \<^verbatim>\<open>"rtthread"\<close>; then the log-in and the loop.\<close>

definition finsh_thread_entry ::
  "syscall_table \<Rightarrow> finsh_shell \<Rightarrow> u8 list \<Rightarrow> (finsh_shell \<times> msh_action list) option" where
  "finsh_thread_entry table s input = do {
     let s = s\<lparr>echo_mode := 1\<rparr>;
     n \<leftarrow> rt_strlen (shell_password s);
     s \<leftarrow> if n = 0
         then map_option snd (finsh_set_password [114, 116, 116, 104, 114, 101, 97, 100, 0] s)
         else Some s;
     rest \<leftarrow> finsh_wait_auth s input;
     case rest of None \<Rightarrow> Some (s, []) | Some input \<Rightarrow> finsh_run table s input
   }"

end
