(* ===== verification/MshSplit.thy ===== *)
theory MshSplit
  imports Msh
begin

text \<open>
  What \<^const>\<open>msh_split\<close> computes: \<open>tokens\<close> describes the words and quoted strings of a line as
  lists of characters, and the arguments that \<^const>\<open>msh_split\<close> leaves in the buffer are the
  first of them.
\<close>

section \<open>The words of a line\<close>

text \<open>A quoted string ends at the next quote that no backslash precedes; the backslashes stay.\<close>

fun quoted :: "u8 list \<Rightarrow> u8 list \<times> u8 list" where
  "quoted [] = ([], [])"
| "quoted (c # cs) =
     (if c = ch_quote then ([], cs)
      else if c = ch_backslash \<and> cs \<noteq> [] \<and> hd cs = ch_quote
      then case quoted (tl cs) of (t, r) \<Rightarrow> (c # hd cs # t, r)
      else case quoted cs of (t, r) \<Rightarrow> (c # t, r))"

text \<open>With its closing quote, or without one.\<close>

lemma quoted_split: "quoted cs = (t, r) \<Longrightarrow> cs = t \<and> r = [] \<or> cs = t @ ch_quote # r"
proof (induction cs arbitrary: t r rule: quoted.induct)
  case (2 c cs)
  consider "c = ch_quote" | "c \<noteq> ch_quote" "c = ch_backslash \<and> cs \<noteq> [] \<and> hd cs = ch_quote"
    | "c \<noteq> ch_quote" "\<not> (c = ch_backslash \<and> cs \<noteq> [] \<and> hd cs = ch_quote)" by blast
  then show ?case
  proof cases
    case 1
    then show ?thesis using 2(3) by simp
  next
    case 2
    obtain t' r' where q: "quoted (tl cs) = (t', r')" by (cases "quoted (tl cs)")
    then have "t = c # hd cs # t'" "r = r'" using "2.prems" 2 by simp_all
    then show ?thesis using "2.IH"(1) [OF 2 q] 2 by (cases cs) auto
  next
    case 3
    obtain t' r' where q: "quoted cs = (t', r')" by (cases "quoted cs")
    then have "t = c # t'" "r = r'" using "2.prems" 3 by (auto split: if_splits)
    then show ?thesis using "2.IH"(2) [OF 3 q] by auto
  qed
qed simp

lemma quoted_length: "quoted cs = (t, r) \<Longrightarrow> length r \<le> length cs"
  by (drule quoted_split) auto

function tokens :: "u8 list \<Rightarrow> u8 list list" where
  "tokens [] = []"
| "tokens (c # cs) =
     (if is_blank c then tokens cs
      else if c = ch_quote then case quoted cs of (t, r) \<Rightarrow> t # tokens r
      else takeWhile (\<lambda>c. \<not> is_blank c) (c # cs) # tokens (dropWhile (\<lambda>c. \<not> is_blank c) (c # cs)))"
  by pat_completeness auto
termination
  by (relation "measure length")
     (auto simp: le_imp_less_Suc length_dropWhile_le dest!: sym [of "(_, _)"] quoted_length)

declare tokens.simps(2) [simp del]

lemma tokens_skip: "tokens cs = tokens (dropWhile is_blank cs)"
  by (induction cs) (simp_all add: tokens.simps(2))

section \<open>The loops\<close>

lemma char_at_append: "char_at (pre @ c # rest) (length pre) = Some c"
  by (simp add: char_at_def)

lemma split_blanks_eq:
  assumes "\<And>c. c \<in> set line \<Longrightarrow> c \<noteq> 0"
  shows "split_blanks (pre @ line @ 0 # junk) (length pre + length line) (length pre) =
    Some (pre @ replicate (length (takeWhile is_blank line)) 0 @ dropWhile is_blank line @ 0 # junk,
      length pre + length (takeWhile is_blank line))"
  using assms
proof (induction line arbitrary: pre)
  case Nil
  then show ?case by (subst split_blanks.simps) (simp add: char_at_append is_blank_def)
next
  case (Cons c line)
  show ?case
  proof (cases "is_blank c")
    case True
    have "split_blanks (pre @ (c # line) @ 0 # junk) (length pre + length (c # line)) (length pre) =
        split_blanks ((pre @ [0]) @ line @ 0 # junk) (length (pre @ [0]) + length line) (length (pre @ [0]))"
      using True by (subst split_blanks.simps) (simp add: char_at_append list_update_append)
    also have "\<dots> = Some ((pre @ [0]) @ replicate (length (takeWhile is_blank line)) 0 @
        dropWhile is_blank line @ 0 # junk, length (pre @ [0]) + length (takeWhile is_blank line))"
      using Cons.prems by (intro Cons.IH) simp
    finally show ?thesis using True by simp
  next
    case False
    then show ?thesis by (subst split_blanks.simps) (simp add: char_at_append)
  qed
qed

lemma split_word_eq:
  "split_word (pre @ line @ 0 # junk) (length pre + length line) (length pre) =
    Some (length pre + length (takeWhile (\<lambda>c. \<not> is_blank c) line))"
proof (induction line arbitrary: pre)
  case Nil
  then show ?case by (subst split_word.simps) (simp add: char_at_append)
next
  case (Cons c line)
  show ?case
  proof (cases "is_blank c")
    case False
    have "split_word (pre @ (c # line) @ 0 # junk) (length pre + length (c # line)) (length pre) =
        split_word ((pre @ [c]) @ line @ 0 # junk) (length (pre @ [c]) + length line) (length (pre @ [c]))"
      using False by (subst split_word.simps) (simp add: char_at_append)
    also have "\<dots> = Some (length (pre @ [c]) + length (takeWhile (\<lambda>c. \<not> is_blank c) line))"
      by (rule Cons.IH)
    finally show ?thesis using False by simp
  next
    case True
    then show ?thesis by (subst split_word.simps) (simp add: char_at_append)
  qed
qed

lemma split_string_eq:
  assumes "quoted cs = (t, r)"
  shows "split_string (pre @ cs @ 0 # junk) (length pre + length cs) (length pre) = Some (length pre + length t)"
  using assms
proof (induction cs arbitrary: pre t r rule: quoted.induct)
  case 1
  then show ?case by (subst split_string.simps) (simp add: char_at_append)
next
  case (2 c cs)
  let ?cmd = "pre @ (c # cs) @ 0 # junk" and ?len = "length pre + length (c # cs)"
  have c: "char_at ?cmd (length pre) = Some c" by (simp add: char_at_append)
  consider "c = ch_quote" | "c \<noteq> ch_quote" "c = ch_backslash \<and> cs \<noteq> [] \<and> hd cs = ch_quote"
    | "c \<noteq> ch_quote" "\<not> (c = ch_backslash \<and> cs \<noteq> [] \<and> hd cs = ch_quote)" by blast
  then show ?case
  proof cases
    case 1
    then show ?thesis using "2.prems" c by (subst split_string.simps) simp
  next
    case 2
    obtain t' r' where q: "quoted (tl cs) = (t', r')" by (cases "quoted (tl cs)")
    then have t: "t = c # hd cs # t'" using "2.prems" 2 by simp
    obtain d ds where cs: "cs = d # ds" using 2 by (cases cs) auto
    have d: "char_at ?cmd (length pre + 1) = Some ch_quote"
      using 2 cs char_at_append [of "pre @ [c]" d "ds @ 0 # junk"] by simp
    have "split_string ?cmd ?len (length pre) = split_string ?cmd ?len (length pre + 2)"
      using 2 c d by (subst split_string.simps) simp
    also have "\<dots> = Some (length pre + length t)"
      using "2.IH"(1) [OF 2 q, of "pre @ [c, d]"] cs t by simp
    finally show ?thesis .
  next
    case 3
    obtain t' r' where q: "quoted cs = (t', r')" by (cases "quoted cs")
    then have t: "t = c # t'" using "2.prems" 3 by (auto split: if_splits)
    have d: "\<exists>d. char_at ?cmd (length pre + 1) = Some d \<and> (c = ch_backslash \<longrightarrow> d \<noteq> ch_quote)"
      using 3 char_at_append [of "pre @ [c]" "hd (cs @ [0])" "tl (cs @ [0]) @ junk"] by (cases cs) auto
    have "split_string ?cmd ?len (length pre) = split_string ?cmd ?len (length pre + 1)"
      using 3 c d by (subst split_string.simps) auto
    also have "\<dots> = Some (length pre + length t)"
      using "2.IH"(2) [OF 3 q, of "pre @ [c]"] t by simp
    finally show ?thesis .
  qed
qed

lemma c_string_append:
  assumes "0 \<notin> set t" "rest \<noteq> []" "hd rest = 0"
  shows "c_string (drop (length pre) (pre @ t @ rest)) = Some t"
proof -
  obtain r where "rest = 0 # r" using assms(2,3) by (cases rest) auto
  moreover have "takeWhile (\<lambda>c. c \<noteq> 0) (t @ 0 # r) = t"
    using assms(1) by (subst takeWhile_append2) auto
  ultimately show ?thesis using assms(1) by (simp add: c_string_def)
qed

text \<open>One round of the outer loop, on what follows the leading blanks.\<close>

abbreviation (input) loop_at :: "u8 list \<Rightarrow> u8 list \<Rightarrow> u8 list \<Rightarrow> nat list \<Rightarrow> (nat list \<times> char_ptr) option" where
  "loop_at pre line junk argv \<equiv>
     msh_split_loop (pre @ line @ 0 # junk) (length pre + length line) (length pre) argv"

lemma split_blanks_none:
  assumes "\<not> is_blank c"
  shows "split_blanks (pre @ (c # cs) @ 0 # junk) n (length pre) =
    Some (pre @ (c # cs) @ 0 # junk, length pre)"
  using assms by (subst split_blanks.simps) (simp add: char_at_append)

lemma loop_word:
  assumes "w \<noteq> []" "\<And>c. c \<in> set w \<Longrightarrow> \<not> is_blank c" "hd w \<noteq> ch_quote" "length argv < FINSH_ARG_MAX"
  shows "loop_at pre w junk argv = Some (argv @ [length pre], pre @ w @ 0 # junk)"
    and "r \<noteq> [] \<Longrightarrow> is_blank (hd r) \<Longrightarrow>
      loop_at pre (w @ r) junk argv = loop_at (pre @ w) r junk (argv @ [length pre])"
proof -
  obtain c cs where w: "w = c # cs" using assms(1) by (cases w) auto
  have s: "split_word (pre @ w @ x) (length pre + length (w @ r)) (length pre) = Some (length pre + length w)"
    if "x = r @ 0 # junk" "r = [] \<or> is_blank (hd r)" for x r
  proof -
    have "takeWhile (\<lambda>c. \<not> is_blank c) (w @ r) = w"
      using assms(2) that(2) by (subst takeWhile_append2) (auto simp: takeWhile_eq_Nil_iff)
    then show ?thesis using split_word_eq [of pre "w @ r" junk] that(1) by simp
  qed
  have b: "split_blanks (pre @ w @ x) n (length pre) = Some (pre @ w @ x, length pre)"
    "char_at (pre @ w @ x) (length pre) = Some c" for x n
    using assms(2) by (subst split_blanks.simps, simp_all add: w char_at_append)
  show "loop_at pre w junk argv = Some (argv @ [length pre], pre @ w @ 0 # junk)"
    using s [of "0 # junk" "[]"] assms by (subst msh_split_loop.simps) (simp add: b, simp add: w)
  show "loop_at pre (w @ r) junk argv = loop_at (pre @ w) r junk (argv @ [length pre])"
    if "r \<noteq> []" "is_blank (hd r)"
    using s [of "r @ 0 # junk" r] assms that
    by (subst msh_split_loop.simps) (simp add: b add.assoc, simp add: w)
qed

lemma loop_quoted:
  assumes "quoted cs = (t, r)" "length argv < FINSH_ARG_MAX"
  shows "cs = t \<Longrightarrow> loop_at pre (ch_quote # t) junk argv =
      Some (argv @ [length pre + 1], pre @ ch_quote # t @ 0 # junk)"
    and "cs = t @ ch_quote # r \<Longrightarrow> loop_at pre (ch_quote # cs) junk argv =
      loop_at (pre @ ch_quote # t @ [0]) r junk (argv @ [length pre + 1])"
proof -
  have nb: "\<not> is_blank ch_quote" by (simp add: is_blank_def)
  have b: "split_blanks (pre @ ch_quote # x) n (length pre) = Some (pre @ ch_quote # x, length pre)"
    "char_at (pre @ ch_quote # x) (length pre) = Some ch_quote" for x n
    using nb by (subst split_blanks.simps, simp_all add: char_at_append)
  have s: "split_string (pre @ ch_quote # cs @ 0 # junk) (length pre + length (ch_quote # cs)) (length pre + 1) =
      Some (length pre + 1 + length t)"
    using split_string_eq [OF assms(1), of "pre @ [ch_quote]" junk] by simp
  show "loop_at pre (ch_quote # t) junk argv =
      Some (argv @ [length pre + 1], pre @ ch_quote # t @ 0 # junk)" if "cs = t"
    using s assms(2) that by (subst msh_split_loop.simps) (simp add: b)
  show "loop_at pre (ch_quote # cs) junk argv =
      loop_at (pre @ ch_quote # t @ [0]) r junk (argv @ [length pre + 1])" if "cs = t @ ch_quote # r"
    using s assms(2) that by (subst msh_split_loop.simps) (simp add: b list_update_append add.assoc)
qed

text \<open>Leading blanks are overwritten; the loop then behaves as if it had started behind them.\<close>

lemma loop_blanks:
  fixes pre line junk :: "u8 list" and argv :: "nat list"
  assumes "0 \<notin> set line"
  defines "rest \<equiv> dropWhile is_blank line"
    and "pre1 \<equiv> pre @ replicate (length (takeWhile is_blank line)) 0"
  shows "rest = [] \<or> FINSH_ARG_MAX \<le> length argv \<Longrightarrow>
      loop_at pre line junk argv = Some (argv, pre1 @ rest @ 0 # junk)"
    and "rest \<noteq> [] \<Longrightarrow> loop_at pre line junk argv = loop_at pre1 rest junk argv"
proof -
  have b: "split_blanks (pre @ line @ 0 # junk) (length pre + length line) (length pre) =
      Some (pre1 @ rest @ 0 # junk, length pre1)"
    using split_blanks_eq [of line pre junk] assms(1) by (auto simp: pre1_def rest_def)
  have l: "length pre1 + length rest = length pre + length line"
    unfolding pre1_def rest_def by (metis add.assoc length_append length_replicate takeWhile_dropWhile_id)
  show "loop_at pre line junk argv = Some (argv, pre1 @ rest @ 0 # junk)"
    if "rest = [] \<or> FINSH_ARG_MAX \<le> length argv"
  proof (cases "line = []")
    case True
    then show ?thesis by (subst msh_split_loop.simps) (simp add: pre1_def rest_def)
  next
    case False
    then show ?thesis using that l by (subst msh_split_loop.simps) (auto simp: b)
  qed
  show "loop_at pre line junk argv = loop_at pre1 rest junk argv" if ne: "rest \<noteq> []"
  proof -
    obtain c cs where r: "rest = c # cs" using ne by (cases rest) auto
    then have "\<not> is_blank c" unfolding rest_def by (metis hd_dropWhile list.sel(1) list.simps(3))
    then have "split_blanks (pre1 @ rest @ 0 # junk) (length pre1 + length rest) (length pre1) =
        Some (pre1 @ rest @ 0 # junk, length pre1)"
      unfolding r by (rule split_blanks_none)
    moreover have "line \<noteq> []" using ne by (auto simp: rest_def)
    moreover have "length pre < length pre + length line" "length pre1 < length pre1 + length rest"
      using ne \<open>line \<noteq> []\<close> by simp_all
    ultimately show ?thesis
      unfolding l by (subst (1 2) msh_split_loop.simps) (simp add: b)
  qed
qed

text \<open>\<open>os\<close> are the arguments a call of the loop adds and \<open>line'\<close> is what it leaves of the line.\<close>

definition split_result :: "u8 list \<Rightarrow> u8 list \<Rightarrow> u8 list \<Rightarrow> nat list \<Rightarrow> nat list \<Rightarrow> u8 list \<Rightarrow> bool" where
  "split_result pre line junk argv os line' \<longleftrightarrow>
     loop_at pre line junk argv = Some (argv @ os, pre @ line' @ 0 # junk) \<and>
     (line \<noteq> [] \<and> is_blank (hd line) \<longrightarrow> hd line' = 0 \<and> line' \<noteq> []) \<and>
     map (\<lambda>i. c_string (drop i (pre @ line' @ 0 # junk))) os =
       map Some (take (FINSH_ARG_MAX - length argv) (tokens line))"

lemma take_room: "length argv < FINSH_ARG_MAX \<Longrightarrow>
    take (FINSH_ARG_MAX - length argv) (t # ts) = t # take (FINSH_ARG_MAX - length (argv @ [i])) ts"
  by (simp add: take_Cons' Suc_diff_Suc diff_Suc)

lemma split_result_quoted:
  assumes "quoted cs = (t, r)" "0 \<notin> set cs" "length argv < FINSH_ARG_MAX"
    and "\<And>pre argv. cs = t @ ch_quote # r \<Longrightarrow> \<exists>os r'. split_result pre r junk argv os r'"
  shows "\<exists>os line'. split_result pre (ch_quote # cs) junk argv os line'"
proof -
  have nb: "\<not> is_blank ch_quote" by (simp add: is_blank_def)
  have ts: "tokens (ch_quote # cs) = t # tokens r" using nb assms(1) by (simp add: tokens.simps(2))
  from quoted_split [OF assms(1)] show ?thesis
  proof
    assume cs: "cs = t \<and> r = []"
    then have ts': "tokens (ch_quote # t) = [t]" using ts by simp
    have "c_string (drop (length (pre @ [ch_quote])) ((pre @ [ch_quote]) @ t @ 0 # junk)) = Some t"
      using assms(2) cs by (intro c_string_append) auto
    then show ?thesis
      using loop_quoted(1) [OF assms(1,3), of pre junk] cs nb assms(3)
      by (intro exI [of _ "[length pre + 1]"] exI [of _ "ch_quote # t"])
        (simp add: split_result_def ts' take_room)
  next
    assume cs: "cs = t @ ch_quote # r"
    from assms(4) [OF this, of "pre @ ch_quote # t @ [0]" "argv @ [length pre + 1]"]
    obtain os r' where r': "split_result (pre @ ch_quote # t @ [0]) r junk (argv @ [length pre + 1]) os r'"
      by blast
    have "c_string (drop (length (pre @ [ch_quote])) ((pre @ [ch_quote]) @ t @ 0 # r' @ 0 # junk)) = Some t"
      using assms(2) cs by (intro c_string_append) auto
    then show ?thesis
      using loop_quoted(2) [OF assms(1,3) cs, of pre junk] r' nb
      by (intro exI [of _ "(length pre + 1) # os"] exI [of _ "ch_quote # t @ 0 # r'"])
        (simp add: split_result_def ts take_room [OF assms(3), of _ _ 0])
  qed
qed

lemma split_result_word:
  assumes "w \<noteq> []" "\<And>c. c \<in> set w \<Longrightarrow> \<not> is_blank c" "hd w \<noteq> ch_quote" "r = [] \<or> is_blank (hd r)"
    and "0 \<notin> set w" "length argv < FINSH_ARG_MAX"
    and "\<And>pre argv. \<exists>os r'. split_result pre r junk argv os r'"
  shows "\<exists>os line'. split_result pre (w @ r) junk argv os line'"
proof -
  have "takeWhile (\<lambda>c. \<not> is_blank c) (w @ r) = w" "dropWhile (\<lambda>c. \<not> is_blank c) (w @ r) = r"
    using assms(2,4) by (auto simp: takeWhile_append2 dropWhile_append2 takeWhile_eq_Nil_iff dropWhile_eq_self_iff)
  then have ts: "tokens (w @ r) = w # tokens r"
    using assms(1-3) by (cases w) (simp_all add: tokens.simps(2))
  have nb: "\<not> is_blank (hd w)" using assms(1,2) by simp
  show ?thesis
  proof (cases "r = []")
    case True
    have "c_string (drop (length pre) (pre @ w @ 0 # junk)) = Some w"
      using assms(5) by (intro c_string_append) auto
    then show ?thesis
      using True loop_word(1) [OF assms(1-3,6), of pre junk] nb assms(1,6) ts
      by (intro exI [of _ "[length pre]"] exI [of _ w]) (simp add: split_result_def take_room)
  next
    case False
    then have b: "is_blank (hd r)" using assms(4) by simp
    obtain os r' where r': "split_result (pre @ w) r junk (argv @ [length pre]) os r'"
      using assms(7) by blast
    then have "hd r' = 0" "r' \<noteq> []" using False b by (auto simp: split_result_def)
    then have "c_string (drop (length pre) (pre @ w @ r' @ 0 # junk)) = Some w"
      using assms(5) by (intro c_string_append) auto
    then show ?thesis
      using loop_word(2) [OF assms(1-3,6) False b, of pre junk] r' nb assms(1)
      by (intro exI [of _ "length pre # os"] exI [of _ "w @ r'"])
        (simp add: split_result_def ts take_room [OF assms(6), of _ _ 0])
  qed
qed

lemma split_loop_tokens:
  assumes "0 \<notin> set line"
  shows "\<exists>os line'. split_result pre line junk argv os line'"
  using assms
proof (induction "length line" arbitrary: line pre argv rule: less_induct)
  case less
  define rest where "rest = dropWhile is_blank line"
  define blanks where "blanks = replicate (length (takeWhile is_blank line)) (0 :: u8)"
  have toks: "tokens line = tokens rest" unfolding rest_def by (rule tokens_skip)
  have rest0: "0 \<notin> set rest" using less.prems by (auto simp: rest_def dest: set_dropWhileD)
  have hd0: "line \<noteq> [] \<and> is_blank (hd line) \<Longrightarrow> hd (blanks @ xs) = 0 \<and> blanks @ xs \<noteq> []" for xs
    by (cases line) (auto simp: blanks_def)
  have len: "length rest \<le> length line" by (simp add: rest_def length_dropWhile_le)
  note skip = loop_blanks [OF less.prems, where argv = argv and pre = pre and junk = junk, folded rest_def blanks_def]
  show ?case
  proof (cases "rest = [] \<or> FINSH_ARG_MAX \<le> length argv")
    case True
    then show ?thesis
      using skip(1) hd0 toks
      by (intro exI [of _ "[]"] exI [of _ "blanks @ rest"]) (auto simp: split_result_def)
  next
    case False
    then obtain c cs where rest: "rest = c # cs" and room: "length argv < FINSH_ARG_MAX"
      by (cases rest) auto
    have c: "\<not> is_blank c" using rest unfolding rest_def by (metis hd_dropWhile list.sel(1) list.simps(3))
    have IH: "\<exists>os r'. split_result pre r junk argv os r'" if "length r < length line" "0 \<notin> set r" for r pre argv
      using less.hyps that by blast
    have "\<exists>os rest'. split_result (pre @ blanks) rest junk argv os rest'"
    proof (cases "c = ch_quote")
      case True
      obtain t r where q: "quoted cs = (t, r)" by (cases "quoted cs")
      show ?thesis
        unfolding rest True using rest rest0 len room
        by (intro split_result_quoted [OF q]) (auto intro!: IH)
    next
      case False
      let ?w = "takeWhile (\<lambda>c. \<not> is_blank c) rest" and ?r = "dropWhile (\<lambda>c. \<not> is_blank c) rest"
      have "length ?r < length line" using len c rest length_dropWhile_le [of "\<lambda>c. \<not> is_blank c" cs] by simp
      moreover have "?r = [] \<or> is_blank (hd ?r)" using hd_dropWhile [of "\<lambda>c. \<not> is_blank c" rest] by auto
      ultimately have "\<exists>os rest'. split_result (pre @ blanks) (?w @ ?r) junk argv os rest'"
        using False c rest rest0 room
        by (intro split_result_word IH) (auto dest: set_takeWhileD set_dropWhileD simp del: takeWhile_dropWhile_id)
      then show ?thesis by simp
    qed
    then obtain os rest' where "split_result (pre @ blanks) rest junk argv os rest'" by blast
    then show ?thesis
      using skip(2) False hd0 toks
      by (intro exI [of _ os] exI [of _ "blanks @ rest'"]) (simp add: split_result_def)
  qed
qed

text \<open>\<open>msh_split\<close> cuts a line into the words and quoted strings that \<open>tokens\<close> describes: the
  arguments it yields point to NUL-terminated strings in the buffer, which are the first eight of
  them, in their order.\<close>

lemma msh_split_tokens:
  assumes "0 \<notin> set line"
  shows "\<exists>argv cmd. msh_split (line @ 0 # junk) (length line) = Some (argv, cmd) \<and>
    map (\<lambda>i. c_string (drop i cmd)) argv = map Some (take FINSH_ARG_MAX (tokens line))"
  using split_loop_tokens [OF assms, of "[]" junk "[]"] by (auto simp: msh_split_def split_result_def)

end
