(* ===== verification/MshExec.thy ===== *)
theory MshExec
  imports MshSplit "HOL-Library.Sublist"
begin

text \<open>
  What running and completing a command line do, described on the texts: the table of commands
  is a map from names, \<open>exec_line\<close> looks the first word of a line up and \<open>complete_line\<close> extends a
  line to the longest common beginning of the commands that start with it.  \<^const>\<open>msh_exec\<close> and
  \<^const>\<open>msh_auto_complete\<close> are shown to do that on the buffer.
\<close>

section \<open>The commands of a table\<close>

abbreviation (input) cmd_tag :: "u8 list" where "cmd_tag \<equiv> [95, 95, 99, 109, 100, 95]"

definition table_ok :: "syscall_table \<Rightarrow> bool" where
  "table_ok table \<longleftrightarrow> (\<forall>(nm, func) \<in> set table. c_string nm \<noteq> None)"

fun commands :: "syscall_table \<Rightarrow> (u8 list \<times> nat) list" where
  "commands [] = []"
| "commands ((nm, func) # table) = (case c_string nm of None \<Rightarrow> commands table
     | Some a \<Rightarrow> if take 6 a = cmd_tag then (drop 6 a, func) # commands table else commands table)"

lemma table_ok_simps [simp]:
  "table_ok []" "table_ok ((nm, func) # table) \<longleftrightarrow> c_string nm \<noteq> None \<and> table_ok table"
  by (auto simp: table_ok_def)

lemma c_string_drop: "c_string s = Some a \<Longrightarrow> n \<le> length a \<Longrightarrow> c_string (drop n s) = Some (drop n a)"
proof (induction s arbitrary: a n)
  case (Cons c s)
  then show ?case by (cases n) (auto split: if_splits)
qed simp

lemma c_string_no_zero: "c_string s = Some a \<Longrightarrow> 0 \<notin> set a"
  by (auto simp: c_string_def split: if_splits dest: set_takeWhileD)

lemma char_at_c_string: "c_string s = Some a \<Longrightarrow> n \<le> length a \<Longrightarrow> char_at s n = Some ((a @ [0]) ! n)"
proof (induction s arbitrary: a n)
  case (Cons c s)
  show ?case
  proof (cases n)
    case (Suc m)
    then show ?thesis
      using Cons.prems Cons.IH [of _ m] by (fastforce simp: char_at_def split: if_splits)
  qed (use Cons.prems in \<open>auto simp: char_at_def split: if_splits\<close>)
qed simp

lemma tag_strncmp:
  assumes "c_string nm = Some a"
  shows "\<exists>r. rt_strncmp nm cmd_prefix 6 = Some r \<and> (r = 0 \<longleftrightarrow> take 6 a = cmd_tag)"
  using rt_strncmp_zero [OF assms, of cmd_prefix cmd_tag 6] by (simp add: cmd_prefix_def)

text \<open>The names of the commands and their first part, up to \<open>sz\<close> characters, with the line.\<close>

lemma name_strncmp:
  assumes "c_string nm = Some a" "take 6 a = cmd_tag" "c_string cmd = Some t" "sz \<le> length t"
  shows "\<exists>r. rt_strncmp (drop 6 nm) cmd sz = Some r \<and> (r = 0 \<longleftrightarrow> take sz (drop 6 a) = take sz t)"
    and "take sz (drop 6 a) = take sz t \<Longrightarrow>
      \<exists>c. char_at nm (6 + sz) = Some c \<and> (c = 0 \<longleftrightarrow> drop 6 a = take sz t)"
proof -
  have a: "6 \<le> length a" using arg_cong [OF assms(2), of length] by simp
  then show "\<exists>r. rt_strncmp (drop 6 nm) cmd sz = Some r \<and> (r = 0 \<longleftrightarrow> take sz (drop 6 a) = take sz t)"
    using rt_strncmp_zero [OF c_string_drop [OF assms(1)] assms(3)] by simp
  assume eq: "take sz (drop 6 a) = take sz t"
  then have "length (take sz (drop 6 a)) = sz" using assms(4) by simp
  then have sz: "6 + sz \<le> length a" using a by (auto simp: min_def split: if_splits)
  have "(a @ [0]) ! (6 + sz) = 0 \<longleftrightarrow> length a = 6 + sz"
    using sz c_string_no_zero [OF assms(1)] by (auto simp: nth_append dest: nth_mem)
  also have "\<dots> \<longleftrightarrow> take sz (drop 6 a) = drop 6 a"
    unfolding take_all_iff using sz by auto
  also have "\<dots> \<longleftrightarrow> drop 6 a = take sz t"
    by (simp only: eq) (rule eq_commute)
  finally show "\<exists>c. char_at nm (6 + sz) = Some c \<and> (c = 0 \<longleftrightarrow> drop 6 a = take sz t)"
    using char_at_c_string [OF assms(1) sz] by blast
qed

lemma msh_get_cmd_eq:
  assumes "table_ok table" "c_string cmd = Some t" "sz \<le> length t"
  shows "msh_get_cmd table cmd sz = Some (map_of (commands table) (take sz t))"
  using assms(1)
proof (induction table)
  case (Cons e table)
  obtain nm func where e: "e = (nm, func)" by (cases e)
  obtain a where a: "c_string nm = Some a" and ok: "table_ok table" using Cons.prems e by auto
  obtain r where r: "rt_strncmp nm cmd_prefix 6 = Some r" "r = 0 \<longleftrightarrow> take 6 a = cmd_tag"
    using tag_strncmp [OF a] by blast
  show ?case
  proof (cases "take 6 a = cmd_tag")
    case True
    have cmds: "commands (e # table) = (drop 6 a, func) # commands table" using a True by (simp add: e)
    obtain q where q: "rt_strncmp (drop 6 nm) cmd sz = Some q" "q = 0 \<longleftrightarrow> take sz (drop 6 a) = take sz t"
      using name_strncmp(1) [OF a True assms(2,3)] by blast
    show ?thesis
    proof (cases "q = 0")
      case True
      then obtain c where c: "char_at nm (6 + sz) = Some c" "c = 0 \<longleftrightarrow> drop 6 a = take sz t"
        using name_strncmp(2) [OF a \<open>take 6 a = cmd_tag\<close> assms(2,3)] q(2) by blast
      have "msh_get_cmd (e # table) cmd sz = (if c = 0 then Some (Some func) else msh_get_cmd table cmd sz)"
        using r \<open>take 6 a = cmd_tag\<close> q(1) True c(1) by (simp add: e)
      then show ?thesis unfolding cmds using Cons.IH [OF ok] c(2) by auto
    next
      case False
      have "msh_get_cmd (e # table) cmd sz = msh_get_cmd table cmd sz"
        using r \<open>take 6 a = cmd_tag\<close> q(1) False by (simp add: e)
      moreover have "drop 6 a \<noteq> take sz t" using False q(2) by (metis take_take min.idem)
      ultimately show ?thesis unfolding cmds using Cons.IH [OF ok] by simp
    qed
  qed (use r a Cons.IH [OF ok] e in simp)
qed simp

section \<open>Running a line\<close>

datatype action = Idle | Run nat "u8 list list" | Unknown "u8 list"

fun action_view :: "msh_action \<Rightarrow> action option" where
  "action_view Nothing = Some Idle"
| "action_view (Call (func, argv)) =
     (if list_all (\<lambda>s. c_string s \<noteq> None) argv then Some (Run func (map (\<lambda>s. the (c_string s)) argv)) else None)"
| "action_view (Not_found cmd) = map_option Unknown (c_string cmd)"

definition exec_line :: "(u8 list \<times> nat) list \<Rightarrow> u8 list \<Rightarrow> action" where
  "exec_line cmds input = (let line = dropWhile is_blank input in
     if line = [] then Idle
     else case map_of cmds (takeWhile (\<lambda>c. \<not> is_blank c) line) of
       Some func \<Rightarrow> Run func (take FINSH_ARG_MAX (tokens line))
     | None \<Rightarrow> Unknown (takeWhile (\<lambda>c. c \<noteq> ch_blank) line))"

lemma skip_blanks_eq:
  "skip_blanks (input @ rest) (length input) = Some (dropWhile is_blank input @ rest, length (dropWhile is_blank input))"
  by (induction input) auto

lemma truncate_word_eq:
  "0 \<notin> set input \<Longrightarrow> \<exists>cmd. truncate_word (input @ 0 # junk) = Some cmd \<and>
     c_string cmd = Some (takeWhile (\<lambda>c. c \<noteq> ch_blank) input)"
  by (induction input) auto

lemma tokens_nonempty: "line \<noteq> [] \<Longrightarrow> \<not> is_blank (hd line) \<Longrightarrow> tokens line \<noteq> []"
  by (cases line) (auto simp: tokens.simps(2) split: prod.split)

lemma msh_exec_eq:
  assumes "table_ok table" "0 \<notin> set input"
  shows "\<exists>act. msh_exec table (input @ 0 # junk) (length input) = Some act \<and>
    action_view act = Some (exec_line (commands table) input)"
proof -
  define line where "line = dropWhile is_blank input"
  define w where "w = takeWhile (\<lambda>c. \<not> is_blank c) line"
  have skip: "skip_blanks (input @ 0 # junk) (length input) = Some (line @ 0 # junk, length line)"
    unfolding line_def by (rule skip_blanks_eq)
  have l0: "0 \<notin> set line" using assms(2) by (auto simp: line_def dest: set_dropWhileD)
  show ?thesis
  proof (cases "line = []")
    case True
    then show ?thesis using skip by (simp add: msh_exec_def exec_line_def line_def Let_def)
  next
    case False
    then have nb: "\<not> is_blank (hd line)" unfolding line_def by (rule hd_dropWhile)
    have w: "w \<noteq> []" using False nb by (cases line) (auto simp: w_def)
    have lw: "length w \<le> length line" "take (length w) line = w"
      by (simp_all add: w_def length_takeWhile_le takeWhile_eq_take [symmetric])
    have word: "split_word (line @ 0 # junk) (length line) 0 = Some (length w)"
      using split_word_eq [of "[]" line junk] by (simp add: w_def)
    have str: "c_string (line @ 0 # junk) = Some line"
      using c_string_append [OF l0, of "0 # junk" "[]"] by simp
    have get: "msh_get_cmd table (line @ 0 # junk) (length w) = Some (map_of (commands table) w)"
      using msh_get_cmd_eq [OF assms(1) str lw(1)] lw(2) by simp
    show ?thesis
    proof (cases "map_of (commands table) w")
      case None
      obtain cmd where "truncate_word (line @ 0 # junk) = Some cmd"
        "c_string cmd = Some (takeWhile (\<lambda>c. c \<noteq> ch_blank) line)"
        using truncate_word_eq [OF l0] by blast
      then show ?thesis
        using None False skip word w get
        by (simp add: msh_exec_def msh_exec_cmd_def exec_line_def Let_def line_def [symmetric] w_def [symmetric])
    next
      case (Some func)
      obtain os line' where s: "split_result [] line junk [] os line'"
        using split_loop_tokens [OF l0] by blast
      then have split: "msh_split (line @ 0 # junk) (length line) = Some (os, line' @ 0 # junk)"
        and args: "map (\<lambda>i. c_string (drop i (line' @ 0 # junk))) os = map Some (take FINSH_ARG_MAX (tokens line))"
        by (simp_all add: split_result_def msh_split_def)
      have "os \<noteq> []" using args tokens_nonempty [OF False nb] by auto
      have "list_all (\<lambda>s. c_string s \<noteq> None) (map (\<lambda>i. drop i (line' @ 0 # junk)) os) \<and>
          map (\<lambda>s. the (c_string s)) (map (\<lambda>i. drop i (line' @ 0 # junk)) os) = take FINSH_ARG_MAX (tokens line)"
        using args by (auto simp: list_eq_iff_nth_eq list_all_length)
      then show ?thesis
        using False skip word w get Some split \<open>os \<noteq> []\<close>
        by (simp add: msh_exec_def msh_exec_cmd_def exec_line_def Let_def line_def [symmetric] w_def [symmetric])
    qed
  qed
qed

text \<open>Executing the line in the buffer calls the command whose name is the first word of the
  line, with the words and quoted strings of the line as its arguments; for a word that is no
  command there is a message with that word, and a blank line does nothing.\<close>

theorem msh_exec_line:
  assumes "table_ok table" "0 \<notin> set input"
  shows "\<exists>act. msh_exec table (input @ 0 # junk) (length input) = Some act \<and>
    action_view act = Some (exec_line (commands table) input)"
  by (rule msh_exec_eq [OF assms])

theorem msh_exec_line_witness:
  "\<exists>act. msh_exec [([95, 95, 99, 109, 100, 95, 112, 115, 0], 7)] [32, 112, 115, 32, 45, 109, 0] (length [32, 112, 115, 32, 45, 109 :: u8]) = Some act \<and>
    action_view act = Some (Run 7 [[112, 115], [45, 109]])"
proof -
  have "exec_line (commands [([95, 95, 99, 109, 100, 95, 112, 115, 0], 7)]) [32, 112, 115, 32, 45, 109] =
      Run 7 [[112, 115], [45, 109]]"
    by (simp add: exec_line_def Let_def is_blank_def tokens.simps(2))
  then show ?thesis
    using msh_exec_line [of "[([95, 95, 99, 109, 100, 95, 112, 115, 0], 7)]" "[32, 112, 115, 32, 45, 109]" "[]"]
    by simp
qed

section \<open>Completing a line\<close>

definition matching :: "u8 list list \<Rightarrow> u8 list \<Rightarrow> u8 list list" where
  "matching names input = filter (\<lambda>n. take (length input) n = input) names"

definition complete_line :: "u8 list list \<Rightarrow> u8 list \<Rightarrow> u8 list" where
  "complete_line names input = (if input = [] then [] else case matching names input of
     [] \<Rightarrow> input | n # ns \<Rightarrow> foldl longest_common_prefix n ns)"

lemma str_common_from_eq:
  assumes "c_string s = Some a" "c_string t = Some b"
  shows "str_common_from s t n = Some (n + int (length (longest_common_prefix a b)))"
  using assms
proof (induction s t n arbitrary: a b rule: str_common_from.induct)
  case (3 c s d t n)
  then show ?case by (auto split: if_splits)
qed simp_all

lemma str_common_eq:
  assumes "c_string s = Some a" "c_string t = Some b"
  shows "str_common s t = Some (int (length (longest_common_prefix a b)))"
  unfolding str_common_def by (simp add: str_common_from_eq [OF assms])

lemma lcp_take: "longest_common_prefix (take k a) b = take (min k (length (longest_common_prefix a b))) a"
proof (induction a b arbitrary: k rule: longest_common_prefix.induct)
  case (1 x xs y ys)
  then show ?case by (cases k) simp_all
qed simp_all

lemma lcp_keeps_prefix: "take n a = p \<Longrightarrow> take n b = p \<Longrightarrow> length p = n \<Longrightarrow> take n (longest_common_prefix a b) = p"
proof (induction a b arbitrary: n p rule: longest_common_prefix.induct)
  case (1 x xs y ys)
  then show ?case by (cases n) auto
qed auto

text \<open>The loop has found a first name \<open>n\<close> and keeps \<open>k\<close> characters of it.\<close>

lemma complete_from_found:
  assumes "table_ok table" "c_string buf = Some p" "p \<noteq> []" "c_string q = Some n"
    and "take (length p) (take k n) = p" "k \<le> length n"
  shows "\<exists>k'. complete_from table buf (int k) (Some q) = Some (int k', Some q) \<and> k' \<le> length n \<and>
    take k' n = foldl longest_common_prefix (take k n) (matching (map fst (commands table)) p)"
  using assms(1,5,6)
proof (induction table arbitrary: k)
  case Nil
  then show ?case by (simp add: matching_def)
next
  case (Cons e table)
  obtain nm func where e: "e = (nm, func)" by (cases e)
  obtain a where a: "c_string nm = Some a" and ok: "table_ok table" using Cons.prems e by auto
  obtain r where r: "rt_strncmp nm cmd_prefix 6 = Some r" "r = 0 \<longleftrightarrow> take 6 a = cmd_tag"
    using tag_strncmp [OF a] by blast
  have k: "k \<noteq> 0" using Cons.prems(2) assms(3) by (cases k) auto
  show ?case
  proof (cases "take 6 a = cmd_tag")
    case False
    then show ?thesis using Cons.IH [OF ok Cons.prems(2,3)] r a by (simp add: e)
  next
    case True
    then have cmds: "commands (e # table) = (drop 6 a, func) # commands table" using a by (simp add: e)
    have six: "6 \<le> length a" using arg_cong [OF True, of length] by simp
    have name: "c_string (drop 6 nm) = Some (drop 6 a)" by (rule c_string_drop [OF a six])
    obtain s where s: "rt_strncmp buf (drop 6 nm) (length p) = Some s" "s = 0 \<longleftrightarrow> take (length p) (drop 6 a) = p"
      using rt_strncmp_zero [OF assms(2) name, of "length p"] by auto
    have len: "rt_strlen buf = Some (length p)" using assms(2) by (simp add: rt_strlen_c_string)
    define l where "l = length (longest_common_prefix n (drop 6 a))"
    have com: "str_common q (drop 6 nm) = Some (int l)" unfolding l_def by (rule str_common_eq [OF assms(4) name])
    show ?thesis
    proof (cases "s = 0")
      case False
      then show ?thesis using Cons.IH [OF ok Cons.prems(2,3)] r True s len by (simp add: cmds matching_def) (simp add: e)
    next
      case match: True
      define k' where "k' = min k l"
      have t: "take k' n = longest_common_prefix (take k n) (drop 6 a)"
        by (simp add: lcp_take k'_def l_def)
      have "take (length p) (take k' n) = p"
        unfolding t using Cons.prems(2) s match by (intro lcp_keeps_prefix) auto
      moreover have "k' \<le> length n" using Cons.prems(3) by (simp add: k'_def)
      moreover have "complete_from (e # table) buf (int k) (Some q) = complete_from table buf (int k') (Some q)"
        using r True s match len com k by (simp add: e k'_def min_def)
      ultimately show ?thesis
        using Cons.IH [OF ok, of k'] s match unfolding t [symmetric] by (simp add: cmds matching_def t)
    qed
  qed
qed

lemma complete_from_eq:
  assumes "table_ok table" "c_string buf = Some p" "p \<noteq> []"
  shows "\<exists>r. complete_from table buf 0 None = Some r \<and>
    (case matching (map fst (commands table)) p of [] \<Rightarrow> r = (0, None)
     | n # ns \<Rightarrow> \<exists>k q. r = (int k, Some q) \<and> c_string q = Some n \<and> k \<le> length n \<and>
         take k n = foldl longest_common_prefix n ns)"
  using assms(1)
proof (induction table)
  case Nil
  then show ?case by (simp add: matching_def)
next
  case (Cons e table)
  obtain nm func where e: "e = (nm, func)" by (cases e)
  obtain a where a: "c_string nm = Some a" and ok: "table_ok table" using Cons.prems e by auto
  obtain r where r: "rt_strncmp nm cmd_prefix 6 = Some r" "r = 0 \<longleftrightarrow> take 6 a = cmd_tag"
    using tag_strncmp [OF a] by blast
  show ?case
  proof (cases "take 6 a = cmd_tag")
    case False
    then show ?thesis using Cons.IH [OF ok] r a by (simp add: e)
  next
    case True
    then have cmds: "commands (e # table) = (drop 6 a, func) # commands table" using a by (simp add: e)
    have six: "6 \<le> length a" using arg_cong [OF True, of length] by simp
    have name: "c_string (drop 6 nm) = Some (drop 6 a)" by (rule c_string_drop [OF a six])
    obtain s where s: "rt_strncmp buf (drop 6 nm) (length p) = Some s" "s = 0 \<longleftrightarrow> take (length p) (drop 6 a) = p"
      using rt_strncmp_zero [OF assms(2) name, of "length p"] by auto
    have len: "rt_strlen buf = Some (length p)" "rt_strlen (drop 6 nm) = Some (length (drop 6 a))"
      using assms(2) name by (simp_all add: rt_strlen_c_string)
    have lcp: "longest_common_prefix xs xs = xs" for xs :: "u8 list" by (induction xs) simp_all
    show ?thesis
    proof (cases "s = 0")
      case False
      then show ?thesis using Cons.IH [OF ok] r True s len by (simp add: cmds matching_def) (simp add: e)
    next
      case match: True
      have "str_common (drop 6 nm) (drop 6 nm) = Some (int (length (drop 6 a)))"
        using str_common_eq [OF name name] by (simp add: lcp)
      then have "complete_from (e # table) buf 0 None =
          complete_from table buf (int (length (drop 6 a))) (Some (drop 6 nm))"
        using r True s match len by (simp add: e del: length_drop)
      moreover have "take (length p) (take (length (drop 6 a)) (drop 6 a)) = p" using s match by simp
      ultimately show ?thesis
        using complete_from_found [OF ok assms(2,3) name, of "length (drop 6 a)"] s match name
        unfolding cmds matching_def by (auto simp del: length_drop)
    qed
  qed
qed

lemma foldl_lcp_keeps_prefix:
  "take n a = p \<Longrightarrow> (\<And>b. b \<in> set bs \<Longrightarrow> take n b = p) \<Longrightarrow> length p = n \<Longrightarrow>
    take n (foldl longest_common_prefix a bs) = p"
  by (induction bs arbitrary: a) (auto intro: lcp_keeps_prefix)

lemma complete_line_extends: "take (length input) (complete_line names input) = input"
proof (cases "matching names input")
  case (Cons n ns)
  then have "take (length input) m = input" if "m \<in> set (n # ns)" for m
    using that by (metis (mono_tags) matching_def filter_eq_ConsD mem_Collect_eq set_filter)
  then show ?thesis using Cons by (auto simp: complete_line_def intro!: foldl_lcp_keeps_prefix)
qed (simp add: complete_line_def)

lemma msh_auto_complete_eq:
  assumes "table_ok table" "0 \<notin> set input" "length (complete_line (map fst (commands table)) input) < n"
  shows "msh_auto_complete table (name_field n input) = Some (name_field n (complete_line (map fst (commands table)) input))"
proof -
  let ?names = "map fst (commands table)"
  have len: "length input \<le> length (complete_line ?names input)"
    using arg_cong [OF complete_line_extends [of input ?names], of length] by simp
  have field: "name_field n a = a @ replicate (n - length a) 0" if "length a \<le> n" for a
    using that by (simp add: name_field_def)
  have str: "c_string (name_field n input) = Some input"
    using assms(2,3) len by (subst field) (auto intro!: c_string_append [of _ _ "[]", simplified])
  show ?thesis
  proof (cases "input = []")
    case True
    then show ?thesis using assms(3)
      by (simp add: msh_auto_complete_def complete_line_def name_field_def char_at_def)
  next
    case False
    then obtain d ds where d: "input = d # ds" by (cases input) auto
    have c: "char_at (name_field n input) 0 = Some d" "d \<noteq> 0"
      using assms(2,3) len by (auto simp: char_at_def field d)
    obtain r where r: "complete_from table (name_field n input) 0 None = Some r"
      "case matching ?names input of [] \<Rightarrow> r = (0, None)
       | m # ms \<Rightarrow> \<exists>k q. r = (int k, Some q) \<and> c_string q = Some m \<and> k \<le> length m \<and>
           take k m = foldl longest_common_prefix m ms"
      using complete_from_eq [OF assms(1) str False] by blast
    show ?thesis
    proof (cases "matching ?names input")
      case Nil
      then show ?thesis using r c False by (simp add: msh_auto_complete_def complete_line_def)
    next
      case (Cons m ms)
      then obtain k q where k: "r = (int k, Some q)" "c_string q = Some m" "k \<le> length m"
        "take k m = complete_line ?names input" using r(2) False by (auto simp: complete_line_def)
      have kn: "length (complete_line ?names input) = k" using k(3) arg_cong [OF k(4), of length] by simp
      have "rt_strncpy (name_field n input) q k = Some (name_field k m @ drop k (name_field n input))"
        using assms(3) kn by (intro rt_strncpy_eq [OF k(2)]) simp
      moreover have "name_field k m = complete_line ?names input" using k(3,4) by (simp add: name_field_def)
      moreover have "drop k (name_field n input) = replicate (n - k) 0"
        using len assms(3) kn by (simp add: field)
      ultimately show ?thesis
        using r(1) c k(1) assms(3) kn by (simp add: msh_auto_complete_def field)
    qed
  qed
qed

lemma commands_no_zero: "n \<in> set (map fst (commands table)) \<Longrightarrow> 0 \<notin> set n"
proof (induction table)
  case (Cons x table)
  then show ?case
    by (cases x) (auto split: option.splits if_splits dest!: c_string_no_zero in_set_dropD)
qed simp

lemma foldl_lcp_prefix: "set (foldl longest_common_prefix n ns) \<subseteq> set n"
proof (induction ns arbitrary: n)
  case (Cons m ns)
  have "set (longest_common_prefix n m) \<subseteq> set n"
    by (rule set_mono_prefix [OF longest_common_prefix_prefix1])
  then show ?case using Cons [of "longest_common_prefix n m"] by auto
qed simp

lemma complete_line_no_zero:
  assumes "0 \<notin> set input"
  shows "0 \<notin> set (complete_line (map fst (commands table)) input)"
proof (cases "matching (map fst (commands table)) input")
  case (Cons n ns)
  then have "n \<in> set (map fst (commands table))"
    unfolding matching_def by (metis (mono_tags) filter_eq_ConsD in_set_conv_decomp)
  then show ?thesis using Cons commands_no_zero [of n table] foldl_lcp_prefix [of n ns]
    by (auto simp: complete_line_def)
qed (use assms in \<open>simp add: complete_line_def\<close>)

end
