(* ===== verification/Editor.thy ===== *)
theory Editor
  imports Shell MshExec
begin

text \<open>
  The line editor as an editor of texts: a text before and a text behind the cursor, the lines
  entered before, and the keys as operations on them.  \<open>shell_shows\<close> says which editor a shell
  with its 80-byte line, its two positions and its rows of history stands for; every key acts on
  the shell as the operation acts on the editor, as long as the line is shorter than 80 characters.
\<close>

section \<open>The editor\<close>

record editor =
  esc :: input_stat
  before :: "u8 list"
  after :: "u8 list"
  past :: "u8 list list"
  browse :: nat

definition at_end :: "u8 list \<Rightarrow> editor \<Rightarrow> editor" where
  "at_end t e = e\<lparr>before := t, after := []\<rparr>"

definition remember :: "u8 list \<Rightarrow> u8 list list \<Rightarrow> u8 list list" where
  "remember t ts =
     (if t = [] \<or> ts \<noteq> [] \<and> last ts = t then ts
      else if length ts = FINSH_HISTORY_LINES then tl ts @ [t] else ts @ [t])"

definition edit_up :: "editor \<Rightarrow> editor" where
  "edit_up e = (if browse e = 0 then e else at_end (past e ! (browse e - 1)) (e\<lparr>browse := browse e - 1\<rparr>))"

definition edit_down :: "editor \<Rightarrow> editor" where
  "edit_down e =
     (if past e = [] then e
      else let i = min (browse e + 1) (length (past e) - 1) in at_end (past e ! i) (e\<lparr>browse := i\<rparr>))"

definition edit_left :: "editor \<Rightarrow> editor" where
  "edit_left e = (if before e = [] then e
     else e\<lparr>before := butlast (before e), after := last (before e) # after e\<rparr>)"

definition edit_right :: "editor \<Rightarrow> editor" where
  "edit_right e = (case after e of [] \<Rightarrow> e | c # cs \<Rightarrow> e\<lparr>before := before e @ [c], after := cs\<rparr>)"

text \<open>A key, for the commands \<open>cmds\<close>: the editor, if its text still fits, and the action.\<close>

definition edit_plain :: "(u8 list \<times> nat) list \<Rightarrow> editor \<Rightarrow> u8 \<Rightarrow> (editor \<times> action option) option" where
  "edit_plain cmds e ch =
     (if ch = 0 \<or> ch = 0xFF then Some (e, None)
      else if ch = 9 then
        let t = complete_line (map fst cmds) (before e @ after e)
        in if length t < FINSH_CMD_SIZE then Some (at_end t e, None) else None
      else if ch = 0x7f \<or> ch = 0x08 then Some (e\<lparr>before := butlast (before e)\<rparr>, None)
      else if ch = 13 \<or> ch = 10 then
        let t = before e @ after e; ts = remember t (past e)
        in Some (e\<lparr>before := [], after := [], past := ts, browse := length ts\<rparr>, Some (exec_line cmds t))
      else if length (before e @ after e) + 1 < FINSH_CMD_SIZE
      then Some (e\<lparr>before := before e @ [ch]\<rparr>, None) else None)"

definition edit_key :: "(u8 list \<times> nat) list \<Rightarrow> editor \<Rightarrow> u8 \<Rightarrow> (editor \<times> action option) option" where
  "edit_key cmds e ch =
     (if ch = 0x1b then Some (e\<lparr>esc := WAIT_SPEC_KEY\<rparr>, None)
      else if esc e = WAIT_SPEC_KEY \<and> ch = 0x5b then Some (e\<lparr>esc := WAIT_FUNC_KEY\<rparr>, None)
      else let e' = e\<lparr>esc := WAIT_NORMAL\<rparr> in
        if esc e = WAIT_FUNC_KEY \<and> ch = 0x41 then Some (edit_up e', None)
        else if esc e = WAIT_FUNC_KEY \<and> ch = 0x42 then Some (edit_down e', None)
        else if esc e = WAIT_FUNC_KEY \<and> ch = 0x43 then Some (edit_right e', None)
        else if esc e = WAIT_FUNC_KEY \<and> ch = 0x44 then Some (edit_left e', None)
        else edit_plain cmds e' ch)"

fun edit_run :: "(u8 list \<times> nat) list \<Rightarrow> editor \<Rightarrow> u8 list \<Rightarrow> (editor \<times> action list) option" where
  "edit_run cmds e [] = Some (e, [])"
| "edit_run cmds e (ch # chs) = do {
     (e, act) \<leftarrow> edit_key cmds e ch;
     (e, acts) \<leftarrow> edit_run cmds e chs;
     Some (e, (case act of None \<Rightarrow> acts | Some a \<Rightarrow> a # acts))
   }"

section \<open>The editor a shell shows\<close>

definition fits :: "u8 list \<Rightarrow> bool" where
  "fits t \<longleftrightarrow> 0 \<notin> set t \<and> length t < FINSH_CMD_SIZE"

definition line_shows :: "finsh_shell \<Rightarrow> u8 list \<Rightarrow> u8 list \<Rightarrow> bool" where
  "line_shows s b a \<longleftrightarrow> fits (b @ a) \<and> cmd_line s = name_field FINSH_CMD_SIZE (b @ a) \<and>
     line_curpos s = of_nat (length b) \<and> line_position s = of_nat (length (b @ a))"

definition history_shows :: "finsh_shell \<Rightarrow> u8 list list \<Rightarrow> nat \<Rightarrow> bool" where
  "history_shows s ts i \<longleftrightarrow> length ts \<le> FINSH_HISTORY_LINES \<and> i \<le> length ts \<and> (\<forall>t \<in> set ts. fits t) \<and>
     history_count s = of_nat (length ts) \<and> current_history s = of_nat i \<and>
     length (cmd_history s) = FINSH_HISTORY_LINES \<and>
     take (length ts) (cmd_history s) = map (name_field FINSH_CMD_SIZE) ts"

definition shell_shows :: "finsh_shell \<Rightarrow> editor \<Rightarrow> bool" where
  "shell_shows s e \<longleftrightarrow> input_stat s = esc e \<and> line_shows s (before e) (after e) \<and>
     history_shows s (past e) (browse e)"

lemma line_field: "length t \<le> n \<Longrightarrow> name_field n t = t @ replicate (n - length t) 0"
  by (simp add: name_field_def)

lemma fits_field:
  assumes "fits t"
  shows "name_field FINSH_CMD_SIZE t = t @ 0 # replicate (79 - length t) 0"
    "c_string (name_field FINSH_CMD_SIZE t) = Some t"
proof -
  show f: "name_field FINSH_CMD_SIZE t = t @ 0 # replicate (79 - length t) 0"
    using assms by (auto simp: fits_def line_field Suc_diff_le simp flip: replicate_Suc)
  show "c_string (name_field FINSH_CMD_SIZE t) = Some t"
    unfolding f using assms c_string_append [of t "0 # replicate (79 - length t) 0" "[]"] by (simp add: fits_def)
qed

lemma field_inject: "fits t \<Longrightarrow> fits u \<Longrightarrow> name_field FINSH_CMD_SIZE t = name_field FINSH_CMD_SIZE u \<longleftrightarrow> t = u"
  by (metis fits_field(2) option.inject)

text \<open>A position that fits in the line is below the wrap-around.\<close>

lemma unat_pos [simp]: "n \<le> 80 \<Longrightarrow> unat (of_nat n :: u16) = n"
  by (simp add: unat_of_nat take_bit_nat_eq_self)

lemma pos_less [simp]: "m \<le> 80 \<Longrightarrow> n \<le> 80 \<Longrightarrow> (of_nat m :: u16) < of_nat n \<longleftrightarrow> m < n"
  by (simp add: word_less_nat_alt)

lemma pos_eq [simp]: "m \<le> 80 \<Longrightarrow> n \<le> 80 \<Longrightarrow> (of_nat m :: u16) = of_nat n \<longleftrightarrow> m = n"
  by (metis unat_pos)

lemma pos_zero [simp]: "n \<le> 80 \<Longrightarrow> (of_nat n :: u16) = 0 \<longleftrightarrow> n = 0"
  using pos_eq [of n 0] by simp

lemma pos_pred [simp]: "0 < n \<Longrightarrow> (of_nat n :: u16) - 1 = of_nat (n - 1)"
  by simp

lemma pos_succ [simp]: "(of_nat n :: u16) + 1 = of_nat (Suc n)"
  by simp

declare of_nat_Suc [simp del] of_nat_add [simp del] of_nat_diff [simp del]

lemma line_shows_bounds: "line_shows s b a \<Longrightarrow> length b + length a < 80"
  by (simp add: line_shows_def fits_def)

section \<open>The keys\<close>

lemma line_to_end_shows:
  assumes "fits t" "cmd_line s = name_field FINSH_CMD_SIZE t"
  shows "\<exists>s'. line_to_end s = Some s' \<and> line_shows s' t [] \<and>
    s' = s\<lparr>line_position := of_nat (length t), line_curpos := of_nat (length t)\<rparr>"
  using fits_field(2) [OF assms(1)] assms by (simp add: line_to_end_def rt_strlen_c_string line_shows_def)

lemma key_left_shows: "shell_shows s e \<Longrightarrow> shell_shows (key_left s) (edit_left e)"
  using line_shows_bounds [of s "before e" "after e"]
  by (cases "before e" rule: rev_cases)
    (auto simp: shell_shows_def key_left_def edit_left_def line_shows_def history_shows_def)

lemma key_right_shows: "shell_shows s e \<Longrightarrow> shell_shows (key_right s) (edit_right e)"
  using line_shows_bounds [of s "before e" "after e"]
  by (cases "after e")
    (auto simp: shell_shows_def key_right_def edit_right_def line_shows_def history_shows_def)

lemma recall_history_shows:
  assumes "history_shows s ts i" "i < length ts"
  shows "\<exists>s'. recall_history s = Some s' \<and> line_shows s' (ts ! i) [] \<and> history_shows s' ts i \<and>
    input_stat s' = input_stat s"
proof -
  have i: "unat (current_history s) = i" "i < length (cmd_history s)"
    using assms by (auto simp: history_shows_def)
  have row: "cmd_history s ! i = name_field FINSH_CMD_SIZE (ts ! i)"
    using assms nth_take [of i "length ts" "cmd_history s"] by (simp add: history_shows_def)
  have "fits (ts ! i)" using assms by (auto simp: history_shows_def)
  from line_to_end_shows [OF this, of "s\<lparr>cmd_line := cmd_history s ! i\<rparr>"]
  show ?thesis using assms i row by (auto simp: recall_history_def history_shows_def)
qed

lemma history_shows_cursor:
  "history_shows s ts i \<Longrightarrow> j \<le> length ts \<Longrightarrow> history_shows (s\<lparr>current_history := of_nat j\<rparr>) ts j"
  by (simp add: history_shows_def)

lemma key_up_shows:
  assumes "shell_shows s e"
  shows "\<exists>s'. key_up s = Some s' \<and> shell_shows s' (edit_up e)"
proof -
  have h: "history_shows s (past e) (browse e)" using assms by (simp add: shell_shows_def)
  then have cur: "current_history s = of_nat (browse e)" "browse e \<le> length (past e)" "browse e \<le> 5"
    by (simp_all add: history_shows_def)
  show ?thesis
  proof (cases "browse e = 0")
    case True
    then show ?thesis using assms cur
      by (auto simp: key_up_def edit_up_def shell_shows_def line_shows_def history_shows_def)
  next
    case False
    let ?s = "s\<lparr>current_history := of_nat (browse e - 1)\<rparr>"
    have "history_shows ?s (past e) (browse e - 1)" using history_shows_cursor [OF h] cur by simp
    moreover have "browse e - 1 < length (past e)" using False cur by linarith
    ultimately obtain s' where
      "recall_history ?s = Some s'" "line_shows s' (past e ! (browse e - 1)) []"
      "history_shows s' (past e) (browse e - 1)" "input_stat s' = input_stat s"
      using recall_history_shows [of ?s "past e" "browse e - 1"] by auto
    then show ?thesis
      using False cur assms by (simp add: key_up_def edit_up_def at_end_def shell_shows_def word_gt_0)
  qed
qed

lemma key_down_shows:
  assumes "shell_shows s e"
  shows "\<exists>s'. key_down s = Some s' \<and> shell_shows s' (edit_down e)"
proof -
  have h: "history_shows s (past e) (browse e)" using assms by (simp add: shell_shows_def)
  then have cur: "current_history s = of_nat (browse e)" "browse e \<le> length (past e)" "length (past e) \<le> 5"
    and count: "history_count s = of_nat (length (past e))"
    by (simp_all add: history_shows_def)
  show ?thesis
  proof (cases "past e = []")
    case True
    then show ?thesis using assms cur count
      by (auto simp: key_down_def edit_down_def shell_shows_def line_shows_def)
  next
    case False
    define i where "i = min (browse e + 1) (length (past e) - 1)"
    let ?s = "s\<lparr>current_history := of_nat i\<rparr>"
    have i: "i < length (past e)" using False by (auto simp: i_def min_def)
    have "history_shows ?s (past e) i" using history_shows_cursor [OF h] i by simp
    from recall_history_shows [OF this i] obtain s' where
      s': "recall_history ?s = Some s'" "line_shows s' (past e ! i) []" "history_shows s' (past e) i"
        "input_stat s' = input_stat s" by auto
    have "uint (current_history s) < uint (history_count s) - 1 \<longleftrightarrow> browse e + 1 < length (past e)"
      using cur count unat_pos [of "browse e"] unat_pos [of "length (past e)"] False
      by (simp add: uint_nat del: unat_pos) linarith
    then have "key_down s = recall_history ?s"
      using False cur count by (auto simp: key_down_def i_def min_def not_less pos_pred)
    then show ?thesis
      using False s' assms unfolding edit_down_def i_def [symmetric] Let_def
      by (simp add: at_end_def shell_shows_def)
  qed
qed

text \<open>The two ways the line is moved, on lists.\<close>

lemma drop_last: "drop (length a) (c # a @ z) = last (c # a) # z"
  by (induction a arbitrary: c) auto

lemma delete_before:
  assumes "l = b @ c # a @ z"
  shows "(if length a > 0 then line_move l (length b) (length b + 1) (length a) else Some l) =
      Some (b @ a @ last (c # a) # z)"
    and "line_write (b @ a @ d # z) (length b + length a) 0 = Some (b @ a @ 0 # z)"
  using drop_last [of a c z]
  by (auto simp: assms line_move_def line_write_def list_update_append)

lemma insert_at:
  assumes "l = b @ a @ d # z"
  shows "a \<noteq> [] \<Longrightarrow> line_move l (length b + 1) (length b) (length a) = Some ((b @ [hd a]) @ a @ z)"
    and "a \<noteq> [] \<Longrightarrow> line_write ((b @ [hd a]) @ a @ z) (length b) ch = Some (b @ ch # a @ z)"
    and "a = [] \<Longrightarrow> line_write l (length b + length a) ch = Some (b @ ch # a @ z)"
  by (cases a, auto simp: assms line_move_def line_write_def list_update_append)+

lemma key_backspace_shows:
  assumes "shell_shows s e"
  shows "\<exists>s'. key_backspace s = Some s' \<and> shell_shows s' (e\<lparr>before := butlast (before e)\<rparr>)"
proof (cases "before e" rule: rev_cases)
  case Nil
  then show ?thesis using assms
    by (auto simp: key_backspace_def shell_shows_def line_shows_def history_shows_def)
next
  case (snoc b c)
  have l: "line_shows s (b @ [c]) (after e)" using assms snoc by (simp add: shell_shows_def)
  define z where "z = replicate (79 - length (b @ c # after e)) (0 :: u8)"
  have fit: "fits (b @ c # after e)" "fits (b @ after e)" using l by (auto simp: line_shows_def fits_def)
  have n: "length b + length (after e) < 79" using fit(1) by (simp add: fits_def)
  have line: "cmd_line s = b @ c # after e @ 0 # z"
    using l fits_field(1) [OF fit(1)] by (simp add: line_shows_def z_def)
  have field: "name_field FINSH_CMD_SIZE (b @ after e) = b @ after e @ 0 # 0 # z"
  proof -
    have "80 - length (b @ after e) = Suc (Suc (79 - length (b @ c # after e)))" using n by simp
    then show ?thesis using n by (simp only: line_field z_def) (simp add: line_field)
  qed
  have pos: "line_curpos s = of_nat (Suc (length b))" "line_position s = of_nat (Suc (length b + length (after e)))"
    using l by (simp_all add: line_shows_def)
  define s1 where "s1 = s\<lparr>line_position := of_nat (length b + length (after e)), line_curpos := of_nat (length b)\<rparr>"
  have "key_backspace s = Some (s1\<lparr>cmd_line := b @ after e @ 0 # 0 # z\<rparr>)"
  proof -
    have "line_curpos s \<noteq> 0" using n pos(1) by simp
    moreover have "s\<lparr>line_position := line_position s - 1, line_curpos := line_curpos s - 1\<rparr> = s1"
      by (simp add: s1_def pos)
    moreover have "line_curpos s1 < line_position s1 \<longleftrightarrow> 0 < length (after e)"
      "unat (line_curpos s1) = length b" "unat (line_position s1) = length b + length (after e)"
      using n by (simp_all add: s1_def)
    moreover have "cmd_line s1 = cmd_line s" by (simp add: s1_def)
    ultimately show ?thesis
      using delete_before [OF line] by (cases "after e") (simp_all add: key_backspace_def Let_def)
  qed
  moreover have "shell_shows (s1\<lparr>cmd_line := b @ after e @ 0 # 0 # z\<rparr>) (e\<lparr>before := b\<rparr>)"
    using assms fit field by (simp add: s1_def shell_shows_def line_shows_def history_shows_def)
  ultimately show ?thesis using snoc by simp
qed

lemma key_char_shows:
  assumes "shell_shows s e" "ch \<noteq> 0" "length (before e @ after e) + 1 < FINSH_CMD_SIZE"
  shows "\<exists>s'. key_char s ch = Some s' \<and> shell_shows s' (e\<lparr>before := before e @ [ch]\<rparr>)"
proof -
  let ?b = "before e" and ?a = "after e"
  have l: "line_shows s ?b ?a" using assms by (simp add: shell_shows_def)
  define z where "z = replicate (79 - length (?b @ ?a)) (0 :: u8)"
  have fit: "fits (?b @ ?a)" "fits (?b @ ch # ?a)" using l assms(2,3) by (auto simp: line_shows_def fits_def)
  have line: "cmd_line s = ?b @ ?a @ 0 # z"
    using l fits_field(1) [OF fit(1)] by (simp add: line_shows_def z_def)
  have field: "name_field FINSH_CMD_SIZE (?b @ ch # ?a) = ?b @ ch # ?a @ z"
    using assms(3) by (simp add: line_field z_def)
  have pos: "line_curpos s = of_nat (length ?b)" "line_position s = of_nat (length ?b + length ?a)"
    using l by (simp_all add: line_shows_def)
  define s1 where "s1 = s\<lparr>cmd_line := ?b @ ch # ?a @ z, line_position := of_nat (Suc (length ?b + length ?a)),
      line_curpos := of_nat (Suc (length ?b))\<rparr>"
  have "key_char s ch = Some s1"
  proof -
    have "\<not> unat (line_position s) \<ge> FINSH_CMD_SIZE" "line_curpos s < line_position s \<longleftrightarrow> ?a \<noteq> []"
      "unat (line_curpos s) = length ?b" "unat (line_position s) = length ?b + length ?a"
      "\<not> unat (line_position s + 1) \<ge> FINSH_CMD_SIZE"
      using assms(3) by (simp_all add: pos s1_def)
    moreover have "s\<lparr>cmd_line := ?b @ ch # ?a @ z, line_position := line_position s + 1,
        line_curpos := line_curpos s + 1\<rparr> = s1"
      by (simp add: s1_def pos)
    ultimately show ?thesis
      using insert_at [OF line] by (cases ?a) (simp_all add: key_char_def Let_def)
  qed
  moreover have "shell_shows s1 (e\<lparr>before := ?b @ [ch]\<rparr>)"
    using assms fit field by (simp add: s1_def shell_shows_def line_shows_def history_shows_def)
  ultimately show ?thesis by simp
qed

lemma key_tab_shows:
  assumes "shell_shows s e" "table_ok table"
    and "length (complete_line (map fst (commands table)) (before e @ after e)) < FINSH_CMD_SIZE"
  shows "\<exists>s'. key_tab table s = Some s' \<and>
    shell_shows s' (at_end (complete_line (map fst (commands table)) (before e @ after e)) e)"
proof -
  define t where "t = complete_line (map fst (commands table)) (before e @ after e)"
  have l: "fits (before e @ after e)" "cmd_line s = name_field FINSH_CMD_SIZE (before e @ after e)"
    using assms(1) by (simp_all add: shell_shows_def line_shows_def)
  have "msh_auto_complete table (cmd_line s) = Some (name_field FINSH_CMD_SIZE t)"
    unfolding l(2) t_def using msh_auto_complete_eq [OF assms(2), of "before e @ after e"] l(1) assms(3)
    by (simp add: fits_def)
  moreover have "0 \<notin> set t"
    unfolding t_def using complete_line_no_zero l(1) by (simp add: fits_def)
  ultimately show ?thesis
    using line_to_end_shows [of t "s\<lparr>cmd_line := name_field FINSH_CMD_SIZE t\<rparr>"] assms
    by (auto simp: key_tab_def t_def [symmetric] at_end_def shell_shows_def history_shows_def fits_def)
qed

lemma history_row_field: "fits t \<Longrightarrow> history_row (name_field FINSH_CMD_SIZE t) (length t) = Some (name_field FINSH_CMD_SIZE t)"
  by (simp add: history_row_def fits_def line_field)

lemma remember_bounds:
  "length ts \<le> FINSH_HISTORY_LINES \<Longrightarrow> length (remember t ts) \<le> FINSH_HISTORY_LINES"
  "\<forall>u \<in> set ts. fits u \<Longrightarrow> fits t \<Longrightarrow> \<forall>u \<in> set (remember t ts). fits u"
  by (cases ts; auto simp: remember_def)+

text \<open>The rows after an insertion.\<close>

lemma history_shift:
  assumes "length h = FINSH_HISTORY_LINES" "length ts = FINSH_HISTORY_LINES" "take (length ts) h = map f ts"
  shows "take (length ts) (tl h @ [f t]) = map f (tl ts @ [t])"
  using assms by (simp add: map_tl)

lemma history_append:
  assumes "length ts < length h" "take (length ts) h = map f ts"
  shows "take (Suc (length ts)) (h[length ts := f t]) = map f (ts @ [t])"
  using assms by (simp add: take_Suc_conv_app_nth)

lemma shell_push_history_shows:
  assumes "line_shows s b a" "history_shows s ts i"
  defines "us \<equiv> remember (b @ a) ts"
  shows "\<exists>s'. shell_push_history s = Some s' \<and> history_shows s' us (length us) \<and>
    s' = s\<lparr>cmd_history := cmd_history s', history_count := history_count s', current_history := current_history s'\<rparr>"
proof -
  define t where "t = b @ a"
  let ?line = "name_field FINSH_CMD_SIZE t" and ?h = "cmd_history s"
  have fit: "fits t" "\<forall>u \<in> set ts. fits u" using assms(1,2) by (auto simp: line_shows_def history_shows_def t_def)
  have line: "cmd_line s = ?line" "line_position s = of_nat (length t)" "length t \<le> 80"
    using assms(1) by (simp_all add: line_shows_def t_def fits_def)
  have h: "length ts \<le> 5" "history_count s = of_nat (length ts)" "length ?h = 5"
    "take (length ts) ?h = map (name_field FINSH_CMD_SIZE) ts"
    using assms(2) by (simp_all add: history_shows_def)
  have row: "?h ! (length ts - 1) = ?line \<longleftrightarrow> last ts = t" if "ts \<noteq> []"
  proof -
    have "?h ! (length ts - 1) = name_field FINSH_CMD_SIZE (last ts)"
      using that nth_take [of "length ts - 1" "length ts" ?h] h(4) by (simp add: last_conv_nth)
    then show ?thesis using that fit field_inject [of "last ts" t] by simp
  qed
  have new: "history_row (cmd_line s) (unat (line_position s)) = Some ?line"
    using line history_row_field [OF fit(1)] by simp
  define s0 where "s0 = (\<lambda>h n. s\<lparr>cmd_history := h, history_count := n, current_history := n\<rparr>)"
  have "\<exists>h'. shell_push_history s = Some (s0 h' (of_nat (length us))) \<and> length h' = 5 \<and>
      take (length us) h' = map (name_field FINSH_CMD_SIZE) us"
  proof (cases "t = [] \<or> ts \<noteq> [] \<and> last ts = t")
    case True
    then have us: "us = ts" by (simp add: us_def remember_def t_def)
    have "shell_push_history s = Some (s0 ?h (of_nat (length us)))"
      using True h line row us by (cases "t = []") (auto simp: shell_push_history_def s0_def)
    then show ?thesis using h us by blast
  next
    case False
    then have t: "line_position s \<noteq> 0" using line by simp
    show ?thesis
    proof (cases "length ts = 5")
      case True
      then have us: "us = tl ts @ [t]" using False unfolding us_def t_def [symmetric] remember_def by auto
      have "ts \<noteq> []" using True by auto
      then have "?h ! 4 \<noteq> cmd_line s" using row False True line(1) by simp
      then have "shell_push_history s = Some (s0 (tl ?h @ [?line]) (of_nat (length us)))"
        using True h(2) new t us by (simp add: shell_push_history_def s0_def)
      then show ?thesis
        using history_shift [OF h(3) True h(4), of t] h(3) True us by (intro exI [of _ "tl ?h @ [?line]"]) simp
    next
      case less: False
      then have us: "us = ts @ [t]" using False unfolding us_def t_def [symmetric] remember_def by auto
      have "shell_push_history s = Some (s0 (?h[length ts := ?line]) (of_nat (length us)))"
      proof -
        have "ts \<noteq> [] \<Longrightarrow> ?h ! (length ts - 1) \<noteq> cmd_line s" using row False line(1) by simp
        moreover have "\<not> 5 \<le> unat (history_count s)" "history_count s = 0 \<longleftrightarrow> ts = []"
          "unat (history_count s) = length ts" "history_count s + 1 = of_nat (length us)"
          using h(1,2) less us by simp_all
        ultimately show ?thesis using new t by (cases "ts = []") (simp_all add: shell_push_history_def s0_def)
      qed
      moreover have lt: "length ts < length ?h" using less h(1,3) by simp
      have "take (length us) (?h[length ts := ?line]) = map (name_field FINSH_CMD_SIZE) us"
        unfolding us length_append_singleton by (rule history_append [OF lt h(4)])
      ultimately show ?thesis using h(3) by (intro exI [of _ "?h[length ts := ?line]"]) simp
    qed
  qed
  then obtain h' where "shell_push_history s = Some (s0 h' (of_nat (length us)))" "length h' = 5"
    "take (length us) h' = map (name_field FINSH_CMD_SIZE) us" by blast
  moreover have "length us \<le> 5" unfolding us_def by (rule remember_bounds(1) [OF h(1)])
  moreover have "\<forall>u \<in> set us. fits u"
    unfolding us_def t_def [symmetric] by (rule remember_bounds(2) [OF fit(2,1)])
  ultimately show ?thesis
    by (intro exI [of _ "s0 h' (of_nat (length us))"] conjI) (simp_all add: s0_def history_shows_def)
qed

definition same_action :: "msh_action option \<Rightarrow> action option \<Rightarrow> bool" where
  "same_action act a \<longleftrightarrow> (case a of None \<Rightarrow> act = None
     | Some x \<Rightarrow> \<exists>m. act = Some m \<and> action_view m = Some x)"

lemma key_enter_shows:
  assumes "shell_shows s e" "table_ok table"
  defines "t \<equiv> before e @ after e"
  defines "ts \<equiv> remember t (past e)"
  shows "\<exists>s' act. key_enter table s = Some (s', act) \<and> action_view act = Some (exec_line (commands table) t) \<and>
    shell_shows s' (e\<lparr>before := [], after := [], past := ts, browse := length ts\<rparr>)"
proof -
  have l: "line_shows s (before e) (after e)" "history_shows s (past e) (browse e)" "input_stat s = esc e"
    using assms(1) by (simp_all add: shell_shows_def)
  obtain s' where s': "shell_push_history s = Some s'" "history_shows s' ts (length ts)"
    "s' = s\<lparr>cmd_history := cmd_history s', history_count := history_count s', current_history := current_history s'\<rparr>"
    using shell_push_history_shows [OF l(1,2)] by (auto simp: ts_def t_def)
  have same: "cmd_line s' = cmd_line s" "line_position s' = line_position s" "input_stat s' = input_stat s"
    by (subst s'(3), simp)+
  have fit: "fits t" using l(1) by (simp add: line_shows_def t_def)
  obtain act where act: "msh_exec table (cmd_line s) (unat (line_position s)) = Some act"
    "action_view act = Some (exec_line (commands table) t)"
    using msh_exec_eq [OF assms(2), of t] fits_field(1) [OF fit] l(1) fit
    by (auto simp: line_shows_def t_def fits_def)
  have "shell_shows (s'\<lparr>cmd_line := replicate FINSH_CMD_SIZE 0, line_curpos := 0, line_position := 0\<rparr>)
      (e\<lparr>before := [], after := [], past := ts, browse := length ts\<rparr>)"
    using s'(2) l(3) same
    by (simp add: shell_shows_def line_shows_def history_shows_def fits_def name_field_def)
  then show ?thesis using s'(1) act same by (simp add: key_enter_def)
qed

section \<open>The loop\<close>

lemma plain_key_shows:
  assumes "shell_shows s e" "table_ok table" "edit_plain (commands table) e ch = Some (e', a)"
  shows "\<exists>s' act. plain_key table s ch = Some (s', act) \<and> shell_shows s' e' \<and> same_action act a"
proof -
  have e: "e\<lparr>before := before e\<rparr> = e" by simp
  consider "ch = 0 \<or> ch = 0xFF" | "ch = 9" | "ch = 0x7f \<or> ch = 0x08" | "ch = 13 \<or> ch = 10"
    | "\<not> (ch = 0 \<or> ch = 0xFF)" "ch \<noteq> 9" "\<not> (ch = 0x7f \<or> ch = 0x08)" "\<not> (ch = 13 \<or> ch = 10)" by blast
  then show ?thesis
  proof cases
    case 1
    then show ?thesis using assms by (auto simp: plain_key_def edit_plain_def same_action_def)
  next
    case 2
    then show ?thesis using assms key_tab_shows [OF assms(1,2)]
      by (auto simp: plain_key_def edit_plain_def same_action_def Let_def split: if_splits)
  next
    case 3
    then show ?thesis using assms key_backspace_shows [OF assms(1)]
      by (auto simp: plain_key_def edit_plain_def same_action_def)
  next
    case 4
    obtain s' act where "key_enter table s = Some (s', act)"
      "action_view act = Some (exec_line (commands table) (before e @ after e))"
      "shell_shows s' (e\<lparr>before := [], after := [], past := remember (before e @ after e) (past e),
         browse := length (remember (before e @ after e) (past e))\<rparr>)"
      using key_enter_shows [OF assms(1,2)] by blast
    moreover have "e' = e\<lparr>before := [], after := [], past := remember (before e @ after e) (past e),
         browse := length (remember (before e @ after e) (past e))\<rparr>"
      "a = Some (exec_line (commands table) (before e @ after e))"
      using 4 assms(3) by (auto simp: edit_plain_def Let_def)
    ultimately show ?thesis using 4
      by (auto simp: plain_key_def same_action_def)
  next
    case 5
    then have "length (before e @ after e) + 1 < FINSH_CMD_SIZE" "e' = e\<lparr>before := before e @ [ch]\<rparr>" "a = None"
      using assms(3) by (auto simp: edit_plain_def split: if_splits)
    then show ?thesis using 5 key_char_shows [OF assms(1), of ch]
      by (auto simp: plain_key_def same_action_def)
  qed
qed

lemma shell_shows_esc: "shell_shows s e \<Longrightarrow> shell_shows (s\<lparr>input_stat := st\<rparr>) (e\<lparr>esc := st\<rparr>)"
  by (simp add: shell_shows_def line_shows_def history_shows_def)

lemma finsh_key_shows:
  assumes "shell_shows s e" "table_ok table" "edit_key (commands table) e ch = Some (e', a)"
  shows "\<exists>s' act. finsh_key table s ch = Some (s', act) \<and> shell_shows s' e' \<and> same_action act a"
proof -
  have st: "input_stat s = esc e" using assms(1) by (simp add: shell_shows_def)
  let ?s = "s\<lparr>input_stat := WAIT_NORMAL\<rparr>" and ?e = "e\<lparr>esc := WAIT_NORMAL\<rparr>"
  have n: "shell_shows ?s ?e" by (rule shell_shows_esc [OF assms(1)])
  have same: "esc e = WAIT_NORMAL \<Longrightarrow> ?s = s" "esc e = WAIT_NORMAL \<Longrightarrow> ?e = e"
    using st by (cases s, simp, cases e, simp)
  have plain: "finsh_key table s ch = plain_key table ?s ch \<and>
      edit_key (commands table) e ch = edit_plain (commands table) ?e ch"
    if "ch \<noteq> 0x1b" "\<not> (esc e = WAIT_SPEC_KEY \<and> ch = 0x5b)"
      "\<not> (esc e = WAIT_FUNC_KEY \<and> ch \<in> {0x41, 0x42, 0x43, 0x44})"
  proof (cases "esc e")
    case WAIT_NORMAL
    then show ?thesis unfolding same [OF WAIT_NORMAL] using that st
      by (simp add: finsh_key_def edit_key_def Let_def same(2))
  qed (use that st in \<open>simp_all add: finsh_key_def edit_key_def Let_def\<close>)
  consider "ch = 0x1b" | "ch \<noteq> 0x1b" "esc e = WAIT_SPEC_KEY" "ch = 0x5b"
    | "esc e = WAIT_FUNC_KEY" "ch \<in> {0x41, 0x42, 0x43, 0x44}"
    | "ch \<noteq> 0x1b" "\<not> (esc e = WAIT_SPEC_KEY \<and> ch = 0x5b)"
      "\<not> (esc e = WAIT_FUNC_KEY \<and> ch \<in> {0x41, 0x42, 0x43, 0x44})" by blast
  then show ?thesis
  proof cases
    case 1
    then show ?thesis using assms shell_shows_esc by (auto simp: finsh_key_def edit_key_def same_action_def)
  next
    case 2
    then show ?thesis using assms shell_shows_esc st by (auto simp: finsh_key_def edit_key_def same_action_def)
  next
    case 3
    then show ?thesis
      using assms(3) st key_up_shows [OF n] key_down_shows [OF n] key_left_shows [OF n] key_right_shows [OF n]
      by (auto simp: finsh_key_def edit_key_def same_action_def Let_def)
  next
    case 4
    then show ?thesis using plain plain_key_shows [OF n assms(2)] assms(3) by simp
  qed
qed

lemma finsh_run_shows:
  assumes "shell_shows s e" "table_ok table" "edit_run (commands table) e keys = Some (e', as)"
  shows "\<exists>s' acts. finsh_run table s keys = Some (s', acts) \<and> shell_shows s' e' \<and>
    map action_view acts = map Some as"
  using assms(1,3)
proof (induction keys arbitrary: s e as)
  case (Cons ch chs)
  obtain e1 a as1 where e1: "edit_key (commands table) e ch = Some (e1, a)"
    "edit_run (commands table) e1 chs = Some (e', as1)" "as = (case a of None \<Rightarrow> as1 | Some a \<Rightarrow> a # as1)"
    using Cons.prems(2) by (auto split: bind_splits)
  obtain s1 act where s1: "finsh_key table s ch = Some (s1, act)" "shell_shows s1 e1" "same_action act a"
    using finsh_key_shows [OF Cons.prems(1) assms(2) e1(1)] by blast
  from Cons.IH [OF s1(2) e1(2)] show ?case
    using s1 e1(3) by (cases a; cases act) (auto simp: same_action_def)
qed simp

section \<open>What the shell does\<close>

lemma shell_init_shows:
  "shell_shows finsh_shell_init \<lparr>esc = WAIT_NORMAL, before = [], after = [], past = [], browse = 0\<rparr>"
  by (simp add: shell_shows_def line_shows_def history_shows_def finsh_shell_init_def fits_def name_field_def)

text \<open>C35: the loop of the shell thread is an editor: whatever sequence of characters arrives, keys
  and escape sequences included, the 80-byte line, its positions and the rows of history stand for
  the texts that the same keys produce in the abstract editor, and each end of a line runs the text
  the editor holds.  The only condition is that the edited text stays shorter than the line.\<close>

theorem finsh_run_edits:
  assumes "shell_shows s e" "table_ok table" "edit_run (commands table) e keys = Some (e', as)"
  shows "\<exists>s' acts. finsh_run table s keys = Some (s', acts) \<and> shell_shows s' e' \<and>
    map action_view acts = map Some as"
  by (rule finsh_run_shows [OF assms])

definition demo_table :: syscall_table where
  "demo_table = [([95, 95, 99, 109, 100, 95, 112, 115, 0], 7), ([95, 95, 99, 109, 100, 95, 112, 119, 100, 0], 8)]"

text \<open>\<^verbatim>\<open>s\<close>, left, \<^verbatim>\<open>p\<close>, return; then up, backspace, \<^verbatim>\<open>w\<close>, tab, return.\<close>

definition demo_keys :: "u8 list" where
  "demo_keys = [115, 0x1b, 0x5b, 0x44, 112, 13, 0x1b, 0x5b, 0x41, 8, 119, 9, 10]"

theorem finsh_run_edits_witness:
  "\<exists>s acts. finsh_run demo_table finsh_shell_init demo_keys = Some (s, acts) \<and>
    shell_shows s \<lparr>esc = WAIT_NORMAL, before = [], after = [], past = [[112, 115], [112, 119, 100]], browse = 2\<rparr> \<and>
    map action_view acts = map Some [Run 7 [[112, 115]], Run 8 [[112, 119, 100]]]"
proof (rule finsh_run_edits [OF shell_init_shows])
  show "table_ok demo_table" by (simp add: demo_table_def)
  show "edit_run (commands demo_table)
      \<lparr>esc = WAIT_NORMAL, before = [], after = [], past = [], browse = 0\<rparr> demo_keys =
    Some (\<lparr>esc = WAIT_NORMAL, before = [], after = [], past = [[112, 115], [112, 119, 100]], browse = 2\<rparr>,
      [Run 7 [[112, 115]], Run 8 [[112, 119, 100]]])"
    by code_simp
qed

text \<open>Characters that are no keys.\<close>

definition printable :: "u8 \<Rightarrow> bool" where
  "printable c \<longleftrightarrow> c \<notin> {0, 0xFF, 9, 0x7f, 8, 13, 10, 0x1b}"

lemma edit_run_append:
  "edit_run cmds e (xs @ ys) = do {
     (e, as) \<leftarrow> edit_run cmds e xs;
     (e, bs) \<leftarrow> edit_run cmds e ys;
     Some (e, as @ bs)
   }"
proof (induction xs arbitrary: e)
  case Nil
  then show ?case by (cases "edit_run cmds e ys") auto
next
  case (Cons x xs)
  then show ?case
    by (cases "edit_key cmds e x") (auto split: option.splits bind_splits simp: Option.bind_assoc case_prod_unfold)
qed

lemma edit_run_printable:
  assumes "\<forall>c \<in> set t. printable c" "esc e = WAIT_NORMAL" "after e = []"
    and "length (before e) + length t < FINSH_CMD_SIZE"
  shows "edit_run cmds e t = Some (e\<lparr>before := before e @ t\<rparr>, [])"
  using assms
proof (induction t arbitrary: e)
  case (Cons c t)
  have e: "e\<lparr>esc := WAIT_NORMAL\<rparr> = e" using Cons.prems(2) by (cases e) simp
  have "edit_key cmds e c = Some (e\<lparr>before := before e @ [c]\<rparr>, None)"
    using Cons.prems by (simp add: edit_key_def edit_plain_def printable_def e)
  moreover have "edit_run cmds (e\<lparr>before := before e @ [c]\<rparr>) t = Some (e\<lparr>before := before e @ c # t\<rparr>, [])"
    using Cons.prems Cons.IH [of "e\<lparr>before := before e @ [c]\<rparr>"] by simp
  ultimately show ?case by simp
qed simp

text \<open>C36: typing a line at the empty prompt and then return runs exactly that line: the command named
  by its first word is called with the words of the line, or the word is reported as unknown; the
  line is then empty again and is the last entry of the history.\<close>

theorem finsh_types_line:
  assumes "shell_shows s e" "esc e = WAIT_NORMAL" "before e = []" "after e = []" "table_ok table"
    and "\<forall>c \<in> set t. printable c" "length t < FINSH_CMD_SIZE"
  shows "\<exists>s' act. finsh_run table s (t @ [13]) = Some (s', [act]) \<and>
    action_view act = Some (exec_line (commands table) t) \<and>
    shell_shows s' (e\<lparr>past := remember t (past e), browse := length (remember t (past e))\<rparr>)"
proof -
  let ?e = "e\<lparr>past := remember t (past e), browse := length (remember t (past e))\<rparr>"
  have "e\<lparr>esc := WAIT_NORMAL, before := t\<rparr> = e\<lparr>before := t\<rparr>" using assms(2) by (cases e) simp
  then have "edit_run (commands table) e (t @ [13]) = Some (?e, [exec_line (commands table) t])"
    using edit_run_printable [OF assms(6,2,4), of "commands table"] assms(2-4,7)
    by (cases e) (simp add: edit_run_append edit_key_def edit_plain_def Let_def)
  from finsh_run_shows [OF assms(1,5) this] show ?thesis by auto
qed

theorem finsh_types_line_witness:
  "\<exists>s act. finsh_run demo_table finsh_shell_init ([112, 119, 100, 32, 45, 80] @ [13]) = Some (s, [act]) \<and>
    action_view act = Some (Run 8 [[112, 119, 100], [45, 80]])"
proof -
  have "exec_line (commands demo_table) [112, 119, 100, 32, 45, 80] = Run 8 [[112, 119, 100], [45, 80]]"
    by code_simp
  then show ?thesis
    using finsh_types_line [OF shell_init_shows, of demo_table "[112, 119, 100, 32, 45, 80]"]
    by (auto simp: printable_def demo_table_def)
qed

text \<open>The two ends of the line.  A line of 80 characters is discarded, but its characters stay in the
  buffer without a NUL behind them: completing then reads on behind the buffer.  The default
  password of eight characters fills its field, and measuring it reads on behind that.\<close>

lemma overlong_line: "finsh_run demo_table finsh_shell_init (replicate 80 120 @ [9]) = None"
  by code_simp

lemma default_password_unterminated: "finsh_thread_entry table finsh_shell_init input = None"
proof -
  let ?s = "finsh_shell_init\<lparr>echo_mode := 1\<rparr>" and ?pw = "[114, 116, 116, 104, 114, 101, 97, 100]"
  have "rt_strlen (shell_password ?s) = Some 0" "rt_strlen ?pw = None" by code_simp+
  moreover have "map_option (shell_password \<circ> snd) (finsh_set_password (?pw @ [0]) ?s) = Some ?pw"
    by code_simp
  ultimately show ?thesis
    by (auto simp: finsh_thread_entry_def finsh_wait_auth_def Let_def)
qed

end
