(* ===== verification/Dynamic.thy ===== *)
theory Dynamic
  imports Heap Mutex Event Mailbox MessageQueue Mempool
begin

text \<open>
  The objects that are made on the heap: \<^verbatim>\<open>rt_object_allocate\<close> and \<^verbatim>\<open>rt_object_delete\<close> of
  \<^verbatim>\<open>src/object.c\<close>, the functions of \<^verbatim>\<open>src/thread.c\<close>, \<^verbatim>\<open>src/timer.c\<close>, \<^verbatim>\<open>src/ipc.c\<close> and
  \<^verbatim>\<open>src/mempool.c\<close> that create and delete, and the part of the idle thread (\<^verbatim>\<open>src/idle.c\<close>) that
  frees dead threads.  The number of a created object is its address.  Clearing its memory clears
  the record of the object; the NULL pointers this puts into its list nodes are not represented.
  A call that has to wait for \<open>heap_sem\<close> ends in \<open>Waits\<close>, here as in \<open>SmallMem\<close>.
\<close>

section \<open>Objects\<close>

text \<open>\<^verbatim>\<open>sizeof\<close> of the structures of the classes, in the order of \<^const>\<open>rt_object_container\<close>.\<close>

definition object_sizes :: "u32 list" where
  "object_sizes = [128, 32, 36, 32, 48, 60, 100, 52, 68, 44]"

definition object_at :: "u8 \<Rightarrow> nat \<Rightarrow> obj_ptr" where
  "object_at ty p =
     (if ty = RT_Object_Class_Thread then Obj_thread p
      else if ty = RT_Object_Class_Semaphore then Obj_sem p
      else if ty = RT_Object_Class_Mutex then Obj_mutex p
      else if ty = RT_Object_Class_Event then Obj_event p
      else if ty = RT_Object_Class_MailBox then Obj_mb p
      else if ty = RT_Object_Class_MessageQueue then Obj_mq p
      else if ty = RT_Object_Class_MemHeap then Obj_memheap p
      else if ty = RT_Object_Class_MemPool then Obj_mempool p
      else if ty = RT_Object_Class_Device then Obj_device p
      else Obj_timer (User_timer p))"

text \<open>The timer of a thread is a member of it, at the offset 76.\<close>

fun object_address :: "obj_ptr \<Rightarrow> u32" where
  "object_address (Obj_thread t) = of_nat t"
| "object_address (Obj_timer (User_timer t)) = of_nat t"
| "object_address (Obj_timer (Thread_timer t)) = of_nat t + 76"
| "object_address (Obj_sem s) = of_nat s"
| "object_address (Obj_mutex m) = of_nat m"
| "object_address (Obj_event e) = of_nat e"
| "object_address (Obj_mb b) = of_nat b"
| "object_address (Obj_mq q) = of_nat q"
| "object_address (Obj_mempool p) = of_nat p"
| "object_address (Obj_memheap p) = of_nat p"
| "object_address (Obj_device d) = of_nat d"

definition zero_object :: rt_object where
  "zero_object = \<lparr>name = replicate RT_NAME_MAX 0, type = 0, flag = 0\<rparr>"

definition zero_thread :: rt_thread where
  "zero_thread = \<lparr>sp = 0, entry = 0, parameter = 0, stack_addr = 0, stack_size = 0, error = 0,
     stat = 0, current_priority = 0, init_priority = 0, number_mask = 0, event_set = 0,
     event_info = 0, thread_init_tick = 0, remaining_tick = 0, cleanup = None, user_data = 0\<rparr>"

definition zero_timer :: rt_timer where
  "zero_timer = \<lparr>timeout_func = Timeout_fn 0 0, init_tick = 0, timeout_tick = 0\<rparr>"

fun clear_body :: "obj_ptr \<Rightarrow> kernel \<Rightarrow> kernel" where
  "clear_body (Obj_thread t) k =
     upd_object (Obj_timer (Thread_timer t)) (\<lambda>_. zero_object)
       (upd_timer (Thread_timer t) (\<lambda>_. zero_timer) (upd_thread t (\<lambda>_. zero_thread) k))"
| "clear_body (Obj_timer t) k = upd_timer t (\<lambda>_. zero_timer) k"
| "clear_body (Obj_sem s) k = upd_sem s (\<lambda>_. \<lparr>sem_value = 0\<rparr>) k"
| "clear_body (Obj_mutex m) k =
     upd_mutex m (\<lambda>_. \<lparr>mutex_value = 0, original_priority = 0, hold = 0, owner = None\<rparr>) k"
| "clear_body (Obj_event e) k = upd_event e (\<lambda>_. \<lparr>event_bits = 0\<rparr>) k"
| "clear_body (Obj_mb b) k =
     upd_mailbox b (\<lambda>_. \<lparr>msg_pool = 0, mb_size = 0, mb_entry = 0, in_offset = 0, out_offset = 0\<rparr>) k"
| "clear_body (Obj_mq q) k =
     upd_mq q (\<lambda>_. \<lparr>mq_msg_pool = 0, msg_size = 0, max_msgs = 0, mq_entry = 0,
       msg_queue_head = 0, msg_queue_tail = 0, msg_queue_free = 0\<rparr>) k"
| "clear_body (Obj_mempool p) k =
     upd_mempool p (\<lambda>_. \<lparr>start_address = 0, mp_size = 0, block_size = 0, block_list = 0,
       block_total_count = 0, block_free_count = 0\<rparr>) k"
| "clear_body (Obj_memheap _) k = k"
| "clear_body (Obj_device _) k = k"

text \<open>\<^verbatim>\<open>rt_memset(object, 0x0, information->object_size)\<close>.\<close>

definition clear_object :: "obj_ptr \<Rightarrow> u32 \<Rightarrow> kernel \<Rightarrow> kernel" where
  "clear_object ob sz k = clear_body ob (upd_object ob (\<lambda>_. zero_object)
     (mem_update (rt_memset (object_address ob) 0 sz) k))"

section \<open>Allocation and deletion\<close>

fun heap_then :: "('a heap_call \<times> heap \<times> kernel) option \<Rightarrow>
    ('a \<Rightarrow> heap \<Rightarrow> kernel \<Rightarrow> ('b heap_call \<times> heap \<times> kernel) option) \<Rightarrow>
    ('b heap_call \<times> heap \<times> kernel) option" where
  "heap_then None f = None"
| "heap_then (Some (Waits, h, k)) f = Some (Waits, h, k)"
| "heap_then (Some (Returns x, h, k)) f = f x h k"

definition rt_object_allocate ::
  "u8 \<Rightarrow> char_ptr \<Rightarrow> heap \<Rightarrow> kernel \<Rightarrow> (nat option heap_call \<times> heap \<times> kernel) option" where
  "rt_object_allocate ty nm h k = do {
     info \<leftarrow> rt_object_get_information ty;
     heap_then (rt_malloc (object_sizes ! info) h k) (\<lambda>p h k.
       if p = 0 then Some (Returns None, h, k)
       else do {
         let object = object_at ty (unat p);
         let k = clear_object object (object_sizes ! info) k;
         let k = upd_object object (\<lambda>ob. ob\<lparr>type := ty\<rparr>) k;
         let k = upd_object object (\<lambda>ob. ob\<lparr>flag := 0\<rparr>) k;
         nm' \<leftarrow> rt_strncpy (name (objects k object)) nm RT_NAME_MAX;
         let k = upd_object object (\<lambda>ob. ob\<lparr>name := nm'\<rparr>) k;
         let k = upd_lists (rt_list_insert_after (Container_head info) (Obj_list object)) k;
         Some (Returns (Some (unat p)), h, k)
       })
   }"

definition rt_object_delete ::
  "obj_ptr \<Rightarrow> heap \<Rightarrow> kernel \<Rightarrow> (unit heap_call \<times> heap \<times> kernel) option" where
  "rt_object_delete object h k = do {
     RT_ASSERT (type (objects k object) AND RT_Object_Class_Static = 0);
     let k = upd_object object (\<lambda>ob. ob\<lparr>type := RT_Object_Class_Null\<rparr>) k;
     let k = upd_lists (rt_list_remove (Obj_list object)) k;
     rt_free (object_address object) h k
   }"

text \<open>The last statements of the functions that delete.\<close>

definition delete_ok :: "obj_ptr \<Rightarrow> heap \<Rightarrow> kernel \<Rightarrow> (err heap_call \<times> heap \<times> kernel) option" where
  "delete_ok object h k = heap_then (rt_object_delete object h k) (\<lambda>_ h k. Some (Returns RT_EOK, h, k))"

section \<open>Semaphores, mutexes and events\<close>

definition rt_sem_create ::
  "char_ptr \<Rightarrow> u32 \<Rightarrow> u8 \<Rightarrow> heap \<Rightarrow> kernel \<Rightarrow> (nat option heap_call \<times> heap \<times> kernel) option" where
  "rt_sem_create nm v fl h k = do {
     RT_ASSERT (v < 0x10000);
     heap_then (rt_object_allocate RT_Object_Class_Semaphore nm h k) (\<lambda>sem h k. case sem of
       None \<Rightarrow> Some (Returns None, h, k)
     | Some s \<Rightarrow>
         let k = rt_ipc_object_init (sem_obj s) k;
           k = upd_sem s (\<lambda>sem. sem\<lparr>sem_value := ucast v\<rparr>) k;
           k = upd_object (sem_obj s) (\<lambda>ob. ob\<lparr>flag := fl\<rparr>) k
         in Some (Returns (Some s), h, k))
   }"

definition rt_sem_delete :: "nat \<Rightarrow> heap \<Rightarrow> kernel \<Rightarrow> (err heap_call \<times> heap \<times> kernel) option" where
  "rt_sem_delete s h k = do {
     RT_ASSERT (rt_object_get_type (sem_obj s) k = RT_Object_Class_Semaphore);
     RT_ASSERT (\<not> rt_object_is_systemobject (sem_obj s) k);
     (_, k) \<leftarrow> rt_ipc_list_resume_all (sem_list s) k;
     delete_ok (sem_obj s) h k
   }"

definition rt_mutex_create ::
  "char_ptr \<Rightarrow> u8 \<Rightarrow> heap \<Rightarrow> kernel \<Rightarrow> (nat option heap_call \<times> heap \<times> kernel) option" where
  "rt_mutex_create nm fl h k =
     heap_then (rt_object_allocate RT_Object_Class_Mutex nm h k) (\<lambda>mutex h k. case mutex of
       None \<Rightarrow> Some (Returns None, h, k)
     | Some m \<Rightarrow>
         let k = rt_ipc_object_init (mutex_obj m) k;
           k = upd_mutex m (\<lambda>mx. mx\<lparr>mutex_value := 1\<rparr>) k;
           k = upd_mutex m (\<lambda>mx. mx\<lparr>owner := None\<rparr>) k;
           k = upd_mutex m (\<lambda>mx. mx\<lparr>original_priority := 0xff\<rparr>) k;
           k = upd_mutex m (\<lambda>mx. mx\<lparr>hold := 0\<rparr>) k;
           k = upd_object (mutex_obj m) (\<lambda>ob. ob\<lparr>flag := fl\<rparr>) k
         in Some (Returns (Some m), h, k))"

definition rt_mutex_delete :: "nat \<Rightarrow> heap \<Rightarrow> kernel \<Rightarrow> (err heap_call \<times> heap \<times> kernel) option" where
  "rt_mutex_delete m h k = do {
     RT_ASSERT (rt_object_get_type (mutex_obj m) k = RT_Object_Class_Mutex);
     RT_ASSERT (\<not> rt_object_is_systemobject (mutex_obj m) k);
     (_, k) \<leftarrow> rt_ipc_list_resume_all (mutex_list m) k;
     delete_ok (mutex_obj m) h k
   }"

definition rt_event_create ::
  "char_ptr \<Rightarrow> u8 \<Rightarrow> heap \<Rightarrow> kernel \<Rightarrow> (nat option heap_call \<times> heap \<times> kernel) option" where
  "rt_event_create nm fl h k =
     heap_then (rt_object_allocate RT_Object_Class_Event nm h k) (\<lambda>event h k. case event of
       None \<Rightarrow> Some (Returns None, h, k)
     | Some e \<Rightarrow>
         let k = upd_object (event_obj e) (\<lambda>ob. ob\<lparr>flag := fl\<rparr>) k;
           k = rt_ipc_object_init (event_obj e) k;
           k = upd_event e (\<lambda>ev. ev\<lparr>event_bits := 0\<rparr>) k
         in Some (Returns (Some e), h, k))"

definition rt_event_delete :: "nat \<Rightarrow> heap \<Rightarrow> kernel \<Rightarrow> (err heap_call \<times> heap \<times> kernel) option" where
  "rt_event_delete e h k = do {
     RT_ASSERT (rt_object_get_type (event_obj e) k = RT_Object_Class_Event);
     RT_ASSERT (\<not> rt_object_is_systemobject (event_obj e) k);
     (_, k) \<leftarrow> rt_ipc_list_resume_all (event_list e) k;
     delete_ok (event_obj e) h k
   }"

section \<open>Mailboxes, message queues and memory pools\<close>

text \<open>The pool of a new object: when there is no memory for it, the object is deleted.\<close>

definition allocate_pool :: "obj_ptr \<Rightarrow> u32 \<Rightarrow> heap \<Rightarrow> kernel \<Rightarrow>
    (u32 option heap_call \<times> heap \<times> kernel) option" where
  "allocate_pool object sz h k = heap_then (rt_malloc sz h k) (\<lambda>p h k.
     if p = 0 then heap_then (rt_object_delete object h k) (\<lambda>_ h k. Some (Returns None, h, k))
     else Some (Returns (Some p), h, k))"

definition rt_mb_create ::
  "char_ptr \<Rightarrow> u32 \<Rightarrow> u8 \<Rightarrow> heap \<Rightarrow> kernel \<Rightarrow> (nat option heap_call \<times> heap \<times> kernel) option" where
  "rt_mb_create nm sz fl h k =
     heap_then (rt_object_allocate RT_Object_Class_MailBox nm h k) (\<lambda>mb h k. case mb of
       None \<Rightarrow> Some (Returns None, h, k)
     | Some b \<Rightarrow>
         let k = upd_object (mb_obj b) (\<lambda>ob. ob\<lparr>flag := fl\<rparr>) k;
           k = rt_ipc_object_init (mb_obj b) k;
           k = upd_mailbox b (\<lambda>mb. mb\<lparr>mb_size := ucast sz\<rparr>) k
         in heap_then (allocate_pool (mb_obj b) (ucast (mb_size (mailboxes k b)) * 4) h k) (\<lambda>p h k. case p of
           None \<Rightarrow> Some (Returns None, h, k)
         | Some p \<Rightarrow>
             let k = upd_mailbox b (\<lambda>mb. mb\<lparr>msg_pool := p\<rparr>) k;
               k = upd_mailbox b (\<lambda>mb. mb\<lparr>mb_entry := 0\<rparr>) k;
               k = upd_mailbox b (\<lambda>mb. mb\<lparr>in_offset := 0\<rparr>) k;
               k = upd_mailbox b (\<lambda>mb. mb\<lparr>out_offset := 0\<rparr>) k;
               k = upd_lists (rt_list_init (mb_senders b)) k
             in Some (Returns (Some b), h, k)))"

definition rt_mb_delete :: "nat \<Rightarrow> heap \<Rightarrow> kernel \<Rightarrow> (err heap_call \<times> heap \<times> kernel) option" where
  "rt_mb_delete b h k = do {
     RT_ASSERT (rt_object_get_type (mb_obj b) k = RT_Object_Class_MailBox);
     RT_ASSERT (\<not> rt_object_is_systemobject (mb_obj b) k);
     (_, k) \<leftarrow> rt_ipc_list_resume_all (mb_list b) k;
     (_, k) \<leftarrow> rt_ipc_list_resume_all (mb_senders b) k;
     heap_then (rt_free (msg_pool (mailboxes k b)) h k) (\<lambda>_. delete_ok (mb_obj b))
   }"

definition rt_mq_create ::
  "char_ptr \<Rightarrow> u32 \<Rightarrow> u32 \<Rightarrow> u8 \<Rightarrow> heap \<Rightarrow> kernel \<Rightarrow> (nat option heap_call \<times> heap \<times> kernel) option" where
  "rt_mq_create nm m_size n_msgs fl h k =
     heap_then (rt_object_allocate RT_Object_Class_MessageQueue nm h k) (\<lambda>mq h k. case mq of
       None \<Rightarrow> Some (Returns None, h, k)
     | Some q \<Rightarrow>
         let k = upd_object (mq_obj q) (\<lambda>ob. ob\<lparr>flag := fl\<rparr>) k;
           k = rt_ipc_object_init (mq_obj q) k;
           k = upd_mq q (\<lambda>mq. mq\<lparr>msg_size := ucast (RT_ALIGN m_size RT_ALIGN_SIZE)\<rparr>) k;
           k = upd_mq q (\<lambda>mq. mq\<lparr>max_msgs := ucast n_msgs\<rparr>) k;
           pool_size = (ucast (msg_size (mqs k q)) + 4) * ucast (max_msgs (mqs k q))
         in heap_then (allocate_pool (mq_obj q) pool_size h k) (\<lambda>p h k. case p of
           None \<Rightarrow> Some (Returns None, h, k)
         | Some p \<Rightarrow>
             let k = upd_mq q (\<lambda>mq. mq\<lparr>mq_msg_pool := p\<rparr>) k;
               k = upd_mq q (\<lambda>mq. mq\<lparr>msg_queue_head := 0\<rparr>) k;
               k = upd_mq q (\<lambda>mq. mq\<lparr>msg_queue_tail := 0\<rparr>) k;
               k = upd_mq q (\<lambda>mq. mq\<lparr>msg_queue_free := 0\<rparr>) k;
               k = mq_init_free q 0 (unat (max_msgs (mqs k q))) k;
               k = upd_mq q (\<lambda>mq. mq\<lparr>mq_entry := 0\<rparr>) k;
               k = upd_lists (rt_list_init (mq_senders q)) k
             in Some (Returns (Some q), h, k)))"

definition rt_mq_delete :: "nat \<Rightarrow> heap \<Rightarrow> kernel \<Rightarrow> (err heap_call \<times> heap \<times> kernel) option" where
  "rt_mq_delete q h k = do {
     RT_ASSERT (rt_object_get_type (mq_obj q) k = RT_Object_Class_MessageQueue);
     RT_ASSERT (\<not> rt_object_is_systemobject (mq_obj q) k);
     (_, k) \<leftarrow> rt_ipc_list_resume_all (mq_list q) k;
     (_, k) \<leftarrow> rt_ipc_list_resume_all (mq_senders q) k;
     heap_then (rt_free (mq_msg_pool (mqs k q)) h k) (\<lambda>_. delete_ok (mq_obj q))
   }"

text \<open>The size of a pool is computed without a check for overflow.\<close>

definition rt_mp_create ::
  "char_ptr \<Rightarrow> u32 \<Rightarrow> u32 \<Rightarrow> heap \<Rightarrow> kernel \<Rightarrow> (nat option heap_call \<times> heap \<times> kernel) option" where
  "rt_mp_create nm block_count blk h k = do {
     RT_ASSERT (block_count > 0 \<and> blk > 0);
     heap_then (rt_object_allocate RT_Object_Class_MemPool nm h k) (\<lambda>mp h k. case mp of
       None \<Rightarrow> Some (Returns None, h, k)
     | Some p \<Rightarrow>
         let blk = RT_ALIGN blk RT_ALIGN_SIZE;
           k = upd_mempool p (\<lambda>mp. mp\<lparr>block_size := blk\<rparr>) k;
           k = upd_mempool p (\<lambda>mp. mp\<lparr>mp_size := (blk + 4) * block_count\<rparr>) k
         in heap_then (allocate_pool (mp_obj p) ((blk + 4) * block_count) h k) (\<lambda>start h k. case start of
           None \<Rightarrow> Some (Returns None, h, k)
         | Some block_ptr \<Rightarrow>
             let k = upd_mempool p (\<lambda>mp. mp\<lparr>start_address := block_ptr\<rparr>) k;
               k = upd_mempool p (\<lambda>mp. mp\<lparr>block_total_count := block_count\<rparr>) k;
               k = upd_mempool p (\<lambda>mp. mp\<lparr>block_free_count := block_total_count mp\<rparr>) k;
               k = upd_lists (rt_list_init (mp_list p)) k;
               k = mem_update (mp_link_blocks block_ptr (blk + 4) 0 (unat block_count)) k;
               k = mem_update (store32 (block_ptr + (block_count - 1) * (blk + 4)) 0) k;
               k = upd_mempool p (\<lambda>mp. mp\<lparr>block_list := block_ptr\<rparr>) k
             in Some (Returns (Some p), h, k)))
   }"

definition rt_mp_delete :: "nat \<Rightarrow> heap \<Rightarrow> kernel \<Rightarrow> (err heap_call \<times> heap \<times> kernel) option" where
  "rt_mp_delete p h k = do {
     RT_ASSERT (rt_object_get_type (mp_obj p) k = RT_Object_Class_MemPool);
     RT_ASSERT (\<not> rt_object_is_systemobject (mp_obj p) k);
     (_, k) \<leftarrow> rt_ipc_list_resume_all (mp_list p) k;
     heap_then (rt_free (start_address (mempools k p)) h k) (\<lambda>_. delete_ok (mp_obj p))
   }"

section \<open>Timers and threads\<close>

definition rt_timer_create ::
  "char_ptr \<Rightarrow> timeout_fn \<Rightarrow> u32 \<Rightarrow> u8 \<Rightarrow> heap \<Rightarrow> kernel \<Rightarrow> (nat option heap_call \<times> heap \<times> kernel) option" where
  "rt_timer_create nm timeout time fl h k =
     heap_then (rt_object_allocate RT_Object_Class_Timer nm h k) (\<lambda>timer h k. case timer of
       None \<Rightarrow> Some (Returns None, h, k)
     | Some t \<Rightarrow> Some (Returns (Some t), h, rt_timer_init0 (User_timer t) timeout time fl k))"

definition rt_timer_delete :: "nat \<Rightarrow> heap \<Rightarrow> kernel \<Rightarrow> (err heap_call \<times> heap \<times> kernel) option" where
  "rt_timer_delete t h k = (let timer = User_timer t in do {
     RT_ASSERT (rt_object_get_type (Obj_timer timer) k = RT_Object_Class_Timer);
     RT_ASSERT (\<not> rt_object_is_systemobject (Obj_timer timer) k);
     let k = rt_timer_remove timer k;
     let k = set_timer_flag timer (\<lambda>fl. fl AND NOT RT_TIMER_FLAG_ACTIVATED) k;
     delete_ok (Obj_timer timer) h k
   })"

definition rt_thread_create :: "u32 \<Rightarrow> char_ptr \<Rightarrow> u32 \<Rightarrow> u32 \<Rightarrow> u32 \<Rightarrow> u8 \<Rightarrow> u32 \<Rightarrow> heap \<Rightarrow> kernel \<Rightarrow>
    (tid option heap_call \<times> heap \<times> kernel) option" where
  "rt_thread_create texit nm ent param stk_size priority tick h k =
     heap_then (rt_object_allocate RT_Object_Class_Thread nm h k) (\<lambda>thread h k. case thread of
       None \<Rightarrow> Some (Returns None, h, k)
     | Some t \<Rightarrow>
         heap_then (allocate_pool (Obj_thread t) stk_size h k) (\<lambda>stack_start h k. case stack_start of
           None \<Rightarrow> Some (Returns None, h, k)
         | Some stack_start \<Rightarrow> do {
             (_, k) \<leftarrow> rt_thread_init0 texit t ent param stack_start stk_size priority tick k;
             Some (Returns (Some t), h, k)
           }))"

definition rt_thread_delete :: "cleanup_fn \<Rightarrow> tid \<Rightarrow> kernel \<Rightarrow> (err \<times> kernel) option" where
  "rt_thread_delete app_cleanup t k = do {
     RT_ASSERT (rt_object_get_type (Obj_thread t) k = RT_Object_Class_Thread);
     RT_ASSERT (\<not> rt_object_is_systemobject (Obj_thread t) k);
     if stat (threads k t) AND RT_THREAD_STAT_MASK = RT_THREAD_CLOSE then Some (RT_EOK, k)
     else do {
       k \<leftarrow> if stat (threads k t) AND RT_THREAD_STAT_MASK \<noteq> RT_THREAD_INIT
            then rt_schedule_remove_thread t k else Some k;
       k \<leftarrow> thread_cleanup_execute app_cleanup t k;
       (_, k) \<leftarrow> rt_timer_detach (Thread_timer t) k;
       let k = upd_thread t (\<lambda>th. th\<lparr>stat := RT_THREAD_CLOSE\<rparr>) k;
       Some (RT_EOK, upd_lists (rt_list_insert_after Defunct_head (Tlist t)) k)
     }
   }"

section \<open>The idle thread\<close>

definition has_defunct_thread :: "kernel \<Rightarrow> bool" where
  "has_defunct_thread k \<longleftrightarrow> nxt (lists k) Defunct_head \<noteq> Defunct_head"

text \<open>The body of the loop of \<^verbatim>\<open>rt_thread_idle_excute\<close>.\<close>

definition idle_reap :: "heap \<Rightarrow> kernel \<Rightarrow> (unit heap_call \<times> heap \<times> kernel) option" where
  "idle_reap h k = do {
     thread \<leftarrow> thread_entry (nxt (lists k) Defunct_head);
     let k = upd_lists (rt_list_remove (Tlist thread)) k;
     heap_then (rt_free (stack_addr (threads k thread)) h k) (\<lambda>_. rt_object_delete (Obj_thread thread))
   }"

partial_function (option) rt_thread_idle_excute ::
  "heap \<Rightarrow> kernel \<Rightarrow> (unit heap_call \<times> heap \<times> kernel) option" where
  "rt_thread_idle_excute h k =
     (if \<not> has_defunct_thread k then Some (Returns (), h, k)
      else case idle_reap h k of None \<Rightarrow> None
        | Some (Waits, h, k) \<Rightarrow> Some (Waits, h, k)
        | Some (Returns _, h, k) \<Rightarrow> rt_thread_idle_excute h k)"

end
