(* ===== verification/Lifecycle.thy ===== *)
theory Lifecycle
  imports Dynamic Example
begin

text \<open>
  Creating and deleting objects on the heap keeps the invariants of the kernel and of the heap
  together.  \<open>placed\<close> connects the two: an object in use lies in an allocated block of
  the heap, or outside of it.  A new block of the heap hence holds no object in use, and an object
  whose block is given back is in use no longer.
\<close>

section \<open>The kernel around heap calls\<close>

lemma heap_call_frame:
  assumes f: "heap_free L k" and c: "heap_call body h k = Some (r, h', k')"
  shows "k' = k\<lparr>mem := mem k'\<rparr>"
proof -
  have s: "sem_ok L k heap_sem" "sem_value (sems k heap_sem) > 0" using f by (simp_all add: heap_free_def)
  have "heap_in h (upd_sem heap_sem g k) = heap_in h k" for g by simp
  then obtain x h1 where b: "body (heap_in h k) = Some (x, h1)"
    using c sem_take_available [OF s] by (auto simp: heap_call_def heap_body_def split: bind_splits)
  show ?thesis using c heap_call_free [where body = body and h = h, OF f b] by auto
qed

lemma rt_malloc_frame:
  assumes "heap_free L k" "rt_malloc sz h k = Some (r, h', k')"
  shows "k' = k\<lparr>mem := mem k'\<rparr>"
  using assms(2) heap_call_frame [OF assms(1)] by (auto simp: rt_malloc_def Let_def split: if_splits)

lemma rt_free_frame:
  assumes "heap_free L k" "rt_free p h k = Some (r, h', k')"
  shows "k' = k\<lparr>mem := mem k'\<rparr>"
  using assms(2) heap_call_frame [OF assms(1)] by (auto simp: rt_free_def split: if_splits)

text \<open>Changes of an object that is neither a thread nor a timer.\<close>

fun ipc_object :: "obj_ptr \<Rightarrow> bool" where
  "ipc_object (Obj_thread _) = False"
| "ipc_object (Obj_timer _) = False"
| "ipc_object _ = True"

definition same_threads :: "obj_ptr \<Rightarrow> kernel \<Rightarrow> kernel \<Rightarrow> bool" where
  "same_threads ob k k' \<longleftrightarrow> threads k' = threads k \<and> timers k' = timers k \<and> rt_tick k' = rt_tick k \<and>
     rt_thread_ready_priority_group k' = rt_thread_ready_priority_group k \<and>
     (\<forall>u. u \<noteq> ob \<longrightarrow> objects k' u = objects k u)"

lemma kernel_ok_relink:
  assumes ok: "kernel_ok L k" and ob: "ipc_object ob" and s: "same_threads ob k k'"
    and r: "rings is_head (lists k') L'"
    and l: "\<And>x. (\<forall>i. x \<noteq> Container_head i) \<Longrightarrow> is_head x \<Longrightarrow> L' x = L x"
    and c: "\<And>i n. n \<in> set (L' (Container_head i)) \<Longrightarrow> n \<in> set (L (Container_head i)) \<or> n = Obj_list ob"
  shows "kernel_ok L' k'"
proof -
  have o: "objects k' (Obj_thread t) = objects k (Obj_thread t)" "objects k' (Obj_timer tm) = objects k (Obj_timer tm)" for t tm
    using ob s by (cases ob; auto simp: same_threads_def)+
  have live: "live k' (Obj_thread t) = live k (Obj_thread t)" "live k' (Obj_timer tm) = live k (Obj_timer tm)" for t tm
    by (simp_all add: live_def rt_object_get_type_def o)
  have fl: "timer_flag k' tm = timer_flag k tm" for tm by (simp add: timer_flag_def o)
  have s': "threads k' = threads k" "timers k' = timers k" "rt_tick k' = rt_tick k"
    "rt_thread_ready_priority_group k' = rt_thread_ready_priority_group k"
    using s by (simp_all add: same_threads_def)
  have tl: "timer_live k' t = timer_live k t" for t
    by (simp add: timer_live_def live one_shot_def fl s')
  note o = kernel_okD [OF ok]
  have "queue_ok {} L' k'" using l by (intro queue_ok_frame [OF o(1) r]) (simp_all add: s')
  moreover have "timers_ok {} L' k'"
  proof (rule timers_ok_frame [OF o(2) r])
    show "Row t \<in> set (L x)" if x: "is_head x" and t: "Row t \<in> set (L' x)" for x t
    proof (cases "\<exists>i. x = Container_head i")
      case True
      then show ?thesis using c t by blast
    next
      case False
      then show ?thesis using l x t by auto
    qed
  qed (use l s' fl live in simp_all)
  moreover have "threads_ok L' k'"
  proof (rule threads_ok_frame [OF o(3)])
    show "set (L' x) \<subseteq> set (L x)" if "wait_head x" for x
      using l [of x] wait_head_is_head [OF that] that by (cases x) auto
  qed (simp_all add: s' active_def fl tl live)
  ultimately show ?thesis by (simp add: kernel_ok_def)
qed

abbreviation add_to :: "nat \<Rightarrow> obj_ptr \<Rightarrow> (node \<Rightarrow> node list) \<Rightarrow> node \<Rightarrow> node list" where
  "add_to i ob L \<equiv> L(Container_head i := Obj_list ob # L (Container_head i))"

lemma kernel_ok_add:
  assumes ok: "kernel_ok L k" and ob: "ipc_object ob" and s: "same_threads ob k k'"
    and fresh: "\<not> on_list is_head L (Obj_list ob)"
    and l: "lists k' = rt_list_insert_after (Container_head i) (Obj_list ob) (lists k)"
  shows "kernel_ok (add_to i ob L) k'"
proof (rule kernel_ok_relink [OF ok ob s])
  show "rings is_head (lists k') (add_to i ob L)"
    unfolding l using fresh by (intro rings_insert_after [OF kernel_okD(4) [OF ok]]) simp_all
qed (auto split: if_splits)

lemma kernel_ok_drop:
  assumes ok: "kernel_ok L k" and ob: "ipc_object ob" and s: "same_threads ob k k'"
    and l: "lists k' = rt_list_remove (Obj_list ob) (lists k)"
    and c: "\<And>x. is_head x \<Longrightarrow> Obj_list ob \<in> set (L x) \<Longrightarrow> \<exists>i. x = Container_head i"
  shows "kernel_ok (without (Obj_list ob) L) k'"
proof (rule kernel_ok_relink [OF ok ob s])
  show "rings is_head (lists k') (without (Obj_list ob) L)"
    unfolding l by (rule rings_remove [OF kernel_okD(4) [OF ok]]) simp
  show "without (Obj_list ob) L x = L x" if "\<forall>i. x \<noteq> Container_head i" "is_head x" for x
    using c that by (intro removeAll_id) blast
qed auto

section \<open>Objects and blocks\<close>

definition in_use :: "(node \<Rightarrow> node list) \<Rightarrow> obj_ptr \<Rightarrow> bool" where
  "in_use L ob \<longleftrightarrow> on_list is_head L (Obj_list ob) \<or> L (Suspend_head ob) \<noteq> [] \<or> L (Sender_head ob) \<noteq> []"

definition in_block :: "heap \<Rightarrow> u32 \<Rightarrow> nat \<times> nat \<Rightarrow> bool" where
  "in_block h p ab \<longleftrightarrow> unat (heap_ptr h) + fst ab + 12 \<le> unat p \<and> unat p < unat (heap_ptr h) + snd ab"

definition placed :: "(node \<Rightarrow> node list) \<Rightarrow> (nat \<times> nat) set \<Rightarrow> heap \<Rightarrow> bool" where
  "placed L B h \<longleftrightarrow> (\<forall>ob. in_use L ob \<longrightarrow> object_address ob < heap_ptr h \<or> heap_end h \<le> object_address ob \<or>
     (\<exists>ab \<in> B. in_block h (object_address ob) ab))"

text \<open>A new block holds no object in use.\<close>

lemma new_block_unused:
  assumes ch: "chain_ok os h" and ab: "(a, b) \<in> adj os" and pl: "placed L B h"
    and apart: "\<forall>(c, d) \<in> B. d \<le> a \<or> b \<le> c" and ob: "in_block h (object_address ob) (a, b)"
  shows "\<not> in_use L ob"
proof
  assume "in_use L ob"
  note bp = block_pointer [OF ch ab]
  have "\<not> in_block h (object_address ob) cd" if "cd \<in> B" for cd
    using apart that ob by (auto simp: in_block_def)
  moreover have "unat (heap_end h) = unat (heap_ptr h) + heap_size h + 12"
    using chain_bound(3) [OF ch chain_mem(2) [OF ch]] chain_okD(4) [OF ch] by simp
  then have "\<not> object_address ob < heap_ptr h" "\<not> heap_end h \<le> object_address ob"
    using ob bp(7) by (simp_all add: in_block_def word_less_nat_alt word_le_nat_alt)
  ultimately show False using pl \<open>in_use L ob\<close> unfolding placed_def by blast
qed

lemma object_address_at: "object_address (object_at ty (unat p)) = p"
  by (simp add: object_at_def)

text \<open>The invariants of kernel and heap together.\<close>

definition dynamic_ok :: "(node \<Rightarrow> node list) \<Rightarrow> nat list \<Rightarrow> heap \<Rightarrow> kernel \<Rightarrow> bool" where
  "dynamic_ok L os h k \<longleftrightarrow> heap_free L k \<and> heap_ok os (heap_in h k) \<and> placed L (allocated os (heap_in h k)) h"

lemma dynamic_okD:
  assumes "dynamic_ok L os h k"
  shows "heap_free L k" "heap_ok os (heap_in h k)" "placed L (allocated os (heap_in h k)) h" "kernel_ok L k"
    "chain_ok os (heap_in h k)"
  using assms by (auto simp: dynamic_ok_def heap_free_def heap_ok_def)

text \<open>Steps that change one object which is no thread, timer or the semaphore of the heap.\<close>

definition changes_only :: "obj_ptr \<Rightarrow> kernel \<Rightarrow> kernel \<Rightarrow> bool" where
  "changes_only ob k k' \<longleftrightarrow> ipc_object ob \<and> ob \<noteq> sem_obj heap_sem \<and> same_threads ob k k' \<and>
     sems k' heap_sem = sems k heap_sem"

lemma heap_free_relink:
  assumes f: "heap_free L k" and ch: "changes_only ob k k'" and ok: "kernel_ok L' k'"
    and l: "L' (sem_list heap_sem) = L (sem_list heap_sem)"
  shows "heap_free L' k'"
proof -
  have o: "objects k' (sem_obj heap_sem) = objects k (sem_obj heap_sem)" "sems k' heap_sem = sems k heap_sem"
    using ch by (auto simp: changes_only_def same_threads_def)
  then have "sem_ok L' k' heap_sem = sem_ok L k heap_sem"
    by (simp add: sem_ok_def ipc_ok_def live_def rt_object_get_type_def ipc_flag_def waiting_def l)
  then show ?thesis using f ok o by (simp add: heap_free_def)
qed

lemma heap_free_add:
  assumes "heap_free L k" "changes_only ob k k'" "\<not> in_use L ob"
    "lists k' = rt_list_insert_after (Container_head i) (Obj_list ob) (lists k)"
  shows "heap_free (add_to i ob L) k'"
proof -
  have "kernel_ok (add_to i ob L) k'"
    using assms by (intro kernel_ok_add [of L k]) (auto simp: heap_free_def changes_only_def in_use_def)
  then show ?thesis by (intro heap_free_relink [OF assms(1,2)]) simp_all
qed

lemma heap_free_drop:
  assumes "heap_free L k" "changes_only ob k k'" "lists k' = rt_list_remove (Obj_list ob) (lists k)"
    and c: "\<And>x. is_head x \<Longrightarrow> Obj_list ob \<in> set (L x) \<Longrightarrow> \<exists>i. x = Container_head i"
  shows "heap_free (without (Obj_list ob) L) k'"
proof -
  have "kernel_ok (without (Obj_list ob) L) k'"
    using assms by (intro kernel_ok_drop [of L k]) (auto simp: heap_free_def changes_only_def)
  moreover have "Obj_list ob \<notin> set (L (sem_list heap_sem))" using c [of "sem_list heap_sem"] by auto
  ultimately show ?thesis by (intro heap_free_relink [OF assms(1,2)]) (simp_all add: removeAll_id)
qed

lemma heap_free_same:
  assumes "heap_free L k" "changes_only ob k k'" "lists k' = lists k"
  shows "heap_free L k'"
proof -
  have r: "rings is_head (lists k') L" using assms(1,3) by (simp add: heap_free_def kernel_okD(4))
  have "kernel_ok L k'"
    using assms by (intro kernel_ok_relink [of L k, OF _ _ _ r]) (auto simp: heap_free_def changes_only_def)
  then show ?thesis by (intro heap_free_relink [OF assms(1,2)]) simp_all
qed

section \<open>Allocating an object\<close>

lemma memset_in_block:
  assumes "a + 12 + unat sz \<le> b" "b < 2 ^ 32" "(a, b) \<in> B"
  shows "writes_to B h m (rt_memset (heap_ptr h + of_nat (a + 12)) c sz m)"
  unfolding writes_to_def
proof (intro allI impI)
  fix i :: nat assume i: "i < 2 ^ 32" and out: "\<forall>(a, b) \<in> B. \<not> (a + 12 \<le> i \<and> i < b)"
  then have o: "i < a + 12 \<or> a + 12 + unat sz \<le> i" using assms(1,3) by fastforce
  have "\<not> (of_nat i :: u32) - of_nat (a + 12) < sz"
  proof (cases "i < a + 12")
    case True
    have u: "unat (of_nat i :: u32) = i" "unat (of_nat (a + 12) :: u32) = a + 12"
      using i assms(1,2) by (intro unat_of_nat_id; simp)+
    then have "unat ((of_nat i :: u32) - of_nat (a + 12)) = i + 2 ^ 32 - (a + 12)"
      using True by (subst unat_sub_if') (simp add: u)
    then show ?thesis using assms(1,2) True by (simp add: word_less_nat_alt)
  next
    case False
    then have "(of_nat i :: u32) - of_nat (a + 12) = of_nat (i - (a + 12))" by simp
    moreover have "unat (of_nat (i - (a + 12)) :: u32) = i - (a + 12)" using i by (intro unat_of_nat_id) simp
    ultimately show ?thesis using o False by (simp add: word_less_nat_alt)
  qed
  then show "rt_memset (heap_ptr h + of_nat (a + 12)) c sz m (heap_ptr h + of_nat i) = m (heap_ptr h + of_nat i)"
    by (simp add: rt_memset_bytes algebra_simps)
qed

definition fresh_object :: "obj_ptr \<Rightarrow> u8 \<Rightarrow> nat \<Rightarrow> u8 list \<Rightarrow> kernel \<Rightarrow> kernel" where
  "fresh_object ob ty i a k = upd_lists (rt_list_insert_after (Container_head i) (Obj_list ob))
     (upd_object ob (\<lambda>_. \<lparr>name = name_field RT_NAME_MAX a, type = ty, flag = 0\<rparr>) (clear_body ob k))"

lemma clear_body_frame:
  "mem (clear_body ob k) = mem k" "lists (clear_body ob k) = lists k"
  "ipc_object ob \<Longrightarrow> objects (clear_body ob k) = objects k"
  by (cases ob; simp)+

lemma clear_body_changes:
  assumes "ipc_object ob" "ob \<noteq> sem_obj heap_sem"
  shows "changes_only ob k (fresh_object ob ty i a k)"
  using assms by (cases ob) (auto simp: changes_only_def same_threads_def fresh_object_def)

text \<open>The sizes of the classes fit.\<close>

lemma object_sizes_bounds:
  assumes "rt_object_get_information ty = Some i"
  shows "object_sizes ! i \<noteq> 0" "object_sizes ! i \<le> 0xfffffffc"
proof -
  have "i < 10" using get_information_from_nth [of ty 0 rt_object_container i] assms
    by (simp add: rt_object_get_information_def rt_object_container_def)
  then have "i \<in> {0, 1, 2, 3, 4, 5, 6, 7, 8, 9}" by auto
  then show "object_sizes ! i \<noteq> 0" "object_sizes ! i \<le> 0xfffffffc"
    by (auto simp: object_sizes_def)
qed

lemma upd_object_cleared:
  "upd_object ob (\<lambda>_. r) (clear_body ob (upd_object ob (\<lambda>_. z) k)) = upd_object ob (\<lambda>_. r) (clear_body ob k)"
  by (cases ob; cases k) (simp_all add: fun_upd_twist)

lemma rt_object_allocate_new:
  assumes p: "rt_malloc (object_sizes ! i) h k = Some (Returns p, h', k1)" "p \<noteq> 0"
    and i: "rt_object_get_information ty = Some i" and nm: "c_string nm = Some a"
  defines "ob \<equiv> object_at ty (unat p)"
  shows "rt_object_allocate ty nm h k = Some (Returns (Some (unat p)), h',
    fresh_object ob ty i a (mem_update (rt_memset p 0 (object_sizes ! i)) k1))"
proof -
  have n: "rt_strncpy (replicate RT_NAME_MAX 0) nm RT_NAME_MAX = Some (name_field RT_NAME_MAX a)"
    using rt_strncpy_eq [OF nm, of RT_NAME_MAX "replicate RT_NAME_MAX 0"] by simp
  have ad: "object_address ob = p" by (simp add: ob_def object_address_at)
  let ?k = "mem_update (rt_memset p 0 (object_sizes ! i)) k1"
  define k2 where "k2 = clear_object ob (object_sizes ! i) k1"
  have o: "objects k2 ob = zero_object" by (cases ob) (simp_all add: k2_def clear_object_def)
  have k2: "upd_object ob (\<lambda>_. r) k2 = upd_object ob (\<lambda>_. r) (clear_body ob ?k)" for r
    by (simp add: k2_def clear_object_def upd_object_cleared ad)
  have upd: "objects_update ((\<lambda>m. m(ob := m ob\<lparr>name := x\<rparr>)) \<circ> (\<lambda>m. m(ob := m ob\<lparr>flag := 0\<rparr>)) \<circ>
      (\<lambda>m. m(ob := m ob\<lparr>type := ty\<rparr>))) k2 = upd_object ob (\<lambda>_. \<lparr>name = x, type = ty, flag = 0\<rparr>) k2" for x
    using o by (cases k2) (simp add: zero_object_def)
  show ?thesis
    using p(2) n unfolding rt_object_allocate_def
    by (simp add: i p(1) Let_def ob_def [symmetric] fresh_object_def k2_def [symmetric] o zero_object_def upd k2)
qed

text \<open>An allocation, with what it means for the objects.\<close>

definition new_block :: "(node \<Rightarrow> node list) \<Rightarrow> (nat \<times> nat) set \<Rightarrow> heap \<Rightarrow> u32 \<Rightarrow> nat \<times> nat \<Rightarrow> bool" where
  "new_block L B h p ab \<longleftrightarrow> p = heap_ptr h + of_nat (fst ab + 12) \<and> p \<noteq> 0 \<and> 4 dvd unat p \<and>
     in_block h p ab \<and> ab \<notin> B \<and> snd ab < 2 ^ 32 \<and>
     (\<forall>u. in_block h (object_address u) ab \<longrightarrow> \<not> in_use L u)"

text \<open>\<open>no_room sz\<close>: when \<^verbatim>\<open>rt_malloc(sz)\<close> may return NULL.  The size is 0, or every free block of the
  heap is too small for it, or fits exactly and is the last one of the heap.\<close>

definition no_room :: "u32 \<Rightarrow> heap \<Rightarrow> kernel \<Rightarrow> bool" where
  "no_room sz h k \<longleftrightarrow> sz = 0 \<or> (\<exists>os. heap_ok os (heap_in h k)) \<and> (\<forall>os. heap_ok os (heap_in h k) \<longrightarrow>
     (\<forall>(a, b) \<in> adj os. usedf (heap_in h k) a = 0 \<longrightarrow>
        b < a + 12 + unat (malloc_size (RT_ALIGN sz 4)) \<or>
        b = heap_size h + 12 \<and> a + 12 + unat (malloc_size (RT_ALIGN sz 4)) = b))"

lemma not_fits_small:
  assumes "heap_ok os h" "(a, b) \<in> adj os" "usedf h a = 0"
    "unat s \<le> heap_size h \<longrightarrow> (\<forall>ab \<in> adj os. \<not> fits h s ab)"
  shows "b < a + 12 + unat s \<or> b = heap_size h + 12 \<and> a + 12 + unat s = b"
proof -
  have ch: "chain_ok os h" using assms(1) by (simp add: heap_ok_def)
  have "b \<le> heap_size h + 12" using chain_bound(1) [OF ch] adj_mem [OF assms(2)] by auto
  then show ?thesis using assms(2-4) by (fastforce simp: fits_def)
qed

lemma rt_malloc_null:
  assumes f: "heap_free L k" and ok: "heap_ok os0 (heap_in h k)" and sz: "sz \<le> 0xfffffffc"
    and r: "rt_malloc sz h k = Some (Returns 0, h', k')"
  shows "no_room sz h k"
proof (cases "sz = 0")
  case False
  show ?thesis
    unfolding no_room_def
  proof (intro disjI2 conjI allI impI ballI exI, rule ok, safe)
    fix os a b
    assume os: "heap_ok os (heap_in h k)" and ab: "(a, b) \<in> adj os" "usedf (heap_in h k) a = 0"
      and n: "\<not> b < a + 12 + unat (malloc_size (RT_ALIGN sz 4))"
    have nf: "unat (malloc_size (RT_ALIGN sz 4)) \<le> heap_size h \<longrightarrow>
        (\<forall>ab \<in> adj os. \<not> fits (heap_in h k) (malloc_size (RT_ALIGN sz 4)) ab)"
      using malloc_free [OF f os False sz]
    proof (elim disjE exE conjE)
      fix c e os' h2 k2
      assume m: "rt_malloc sz h k = Some (Returns (heap_ptr h + of_nat (c + 12)), h2, k2)"
        "heap_ok os' (heap_in h2 k2)" "same_heap h h2" "(c, e) \<in> adj os'"
      have "chain_ok os' (heap_in h2 k2)" using m(2) by (simp add: heap_ok_def)
      then have "heap_ptr h + of_nat (c + 12) \<noteq> 0"
        using block_pointer(2) [OF _ m(4)] m(3) by (fastforce simp: same_heap_def)
      then show ?thesis using m(1) r by simp
    qed
    show "b = heap_size h + 12" "a + 12 + unat (malloc_size (RT_ALIGN sz 4)) = b"
      using not_fits_small [OF os ab, of "malloc_size (RT_ALIGN sz 4)"] nf n by auto
  qed
qed (simp add: no_room_def)

lemma rt_malloc_dynamic:
  assumes ok: "dynamic_ok L os h k" and sz: "sz \<noteq> 0" "sz \<le> 0xfffffffc"
  shows "(\<exists>h'. rt_malloc sz h k = Some (Returns 0, h', k) \<and> same_heap h h' \<and> dynamic_ok L os h' k \<and>
      allocated os (heap_in h' k) = allocated os (heap_in h k) \<and> no_room sz h k) \<or>
    (\<exists>p ab os' h' k'. rt_malloc sz h k = Some (Returns p, h', k') \<and> same_heap h h' \<and>
      k' = k\<lparr>mem := mem k'\<rparr> \<and> dynamic_ok L os' h' k' \<and> fst ab + 12 + unat sz \<le> snd ab \<and>
      new_block L (allocated os (heap_in h k)) h p ab \<and>
      allocated os' (heap_in h' k') = insert ab (allocated os (heap_in h k)))"
  using malloc_free [OF dynamic_okD(1,2) [OF ok] sz]
proof (elim disjE exE conjE)
  fix h' assume h': "rt_malloc sz h k = Some (Returns 0, h', k)" "heap_in h' k = heap_in h k"
  then have "same_heap h h'" by (cases h; cases h') (simp add: same_heap_def)
  moreover have "dynamic_ok L os h' k"
    using dynamic_okD [OF ok] h'(2) \<open>same_heap h h'\<close>
    by (simp add: dynamic_ok_def same_heap_def placed_def in_block_def)
  moreover have "no_room sz h k" by (rule rt_malloc_null [OF dynamic_okD(1,2) [OF ok] sz(2) h'(1)])
  ultimately show ?thesis using h' by auto
next
  fix a b os' h' k'
  assume r: "rt_malloc sz h k = Some (Returns (heap_ptr h + of_nat (a + 12)), h', k')" "heap_free L k'"
    "heap_ok os' (heap_in h' k')" "same_heap h h'" "a + 12 + unat (malloc_size (RT_ALIGN sz 4)) \<le> b"
    "(a, b) \<in> adj os'" "allocated os' (heap_in h' k') = insert (a, b) (allocated os (heap_in h k))"
    "\<forall>(c, d) \<in> allocated os (heap_in h k). d \<le> a \<or> b \<le> c"
  define p where "p = heap_ptr h + of_nat (a + 12)"
  have ch: "chain_ok os' (heap_in h' k')" using r(3) by (simp add: heap_ok_def)
  have hp: "heap_ptr (heap_in h' k') = heap_ptr h" "heap_end (heap_in h' k') = heap_end h"
    using r(4) by (simp_all add: same_heap_def)
  note bp = block_pointer [OF ch r(6), unfolded hp, folded p_def]
  have g: "a + 24 \<le> b" by (rule chain_okD(15) [OF ch r(6)])
  have pl: "placed L (allocated os (heap_in h k)) (heap_in h' k')"
    using dynamic_okD(3) [OF ok] hp by (simp add: placed_def in_block_def)
  have un: "\<not> in_use L u" if "in_block h (object_address u) (a, b)" for u
    using that hp by (intro new_block_unused [OF ch r(6) pl r(8)]) (simp add: in_block_def)
  have b: "b < 2 ^ 32" using bp(7) chain_okD(1) [OF ch] by simp
  have "(a, b) \<notin> allocated os (heap_in h k)" using r(8) g by fastforce
  then have nb: "new_block L (allocated os (heap_in h k)) h p (a, b)"
    using bp un b g by (simp add: new_block_def in_block_def) (simp add: p_def)
  have "placed L (insert (a, b) (allocated os (heap_in h k))) h'"
    using dynamic_okD(3) [OF ok] r(4) by (auto simp: placed_def in_block_def same_heap_def)
  then have sys: "dynamic_ok L os' h' k'" using r(2,3,7) by (simp add: dynamic_ok_def)
  have "a + 12 + unat sz \<le> b" using r(5) round_size(3) [OF sz] by simp
  moreover have "k' = k\<lparr>mem := mem k'\<rparr>" by (rule rt_malloc_frame [OF dynamic_okD(1) [OF ok] r(1)])
  ultimately show ?thesis
    using r(1,4,7) nb sys by (intro disjI2 exI [of _ p] exI [of _ "(a, b)"] exI [of _ os'] exI [of _ h']
        exI [of _ k'] conjI) (simp_all add: p_def)
qed

text \<open>The memory of a block may be written.\<close>

lemma dynamic_ok_write:
  assumes ok: "dynamic_ok L os h k" and w: "writes_to (allocated os (heap_in h k)) h (mem k) m"
  shows "dynamic_ok L os h (k\<lparr>mem := m\<rparr>)" "allocated os (heap_in h (k\<lparr>mem := m\<rparr>)) = allocated os (heap_in h k)"
  using write_ok [OF dynamic_okD(2) [OF ok] w] dynamic_okD(1,3) [OF ok]
  by (simp_all add: dynamic_ok_def)

text \<open>Steps on one object.\<close>

lemma dynamic_ok_same:
  assumes "dynamic_ok L os h k" "changes_only ob k k'" "lists k' = lists k" "mem k' = mem k"
  shows "dynamic_ok L os h k'" "allocated os (heap_in h k') = allocated os (heap_in h k)"
  using assms heap_free_same [OF dynamic_okD(1) [OF assms(1)] assms(2,3)] by (simp_all add: dynamic_ok_def)

lemma changes_only_trans: "changes_only ob k k' \<Longrightarrow> changes_only ob k' k'' \<Longrightarrow> changes_only ob k k''"
  by (simp add: changes_only_def same_threads_def)

lemma changes_only_mem:
  assumes "k' = k\<lparr>mem := mem k'\<rparr>" "ipc_object ob" "ob \<noteq> sem_obj heap_sem"
  shows "changes_only ob k k'"
proof -
  have "objects k' = objects k" "threads k' = threads k" "timers k' = timers k" "rt_tick k' = rt_tick k"
    "rt_thread_ready_priority_group k' = rt_thread_ready_priority_group k" "sems k' = sems k"
    by (subst assms(1), simp)+
  then show ?thesis using assms(2,3) by (simp add: changes_only_def same_threads_def)
qed

text \<open>Either there is no memory and nothing happens, or the object is in a new block, cleared, named
  and the first one of its container.  \<open>owns\<close>: no other object lies in the block.\<close>

definition owns :: "(node \<Rightarrow> node list) \<Rightarrow> heap \<Rightarrow> obj_ptr \<Rightarrow> nat \<times> nat \<Rightarrow> bool" where
  "owns L h ob ab \<longleftrightarrow> object_address ob = heap_ptr h + of_nat (fst ab + 12) \<and>
     (\<forall>u. in_use L u \<longrightarrow> in_block h (object_address u) ab \<longrightarrow> u = ob)"

lemma in_use_add: "in_use (add_to i ob L) u \<Longrightarrow> u = ob \<or> in_use L u"
  by (auto simp: in_use_def on_list_def split: if_splits)

lemma rt_object_allocate_ok:
  assumes ok: "dynamic_ok L os h k" and i: "rt_object_get_information ty = Some i"
    and nm: "c_string nm = Some nm'" and ty: "\<And>p. ipc_object (object_at ty p)"
  shows "(\<exists>h'. rt_object_allocate ty nm h k = Some (Returns None, h', k) \<and> dynamic_ok L os h' k \<and>
      allocated os (heap_in h' k) = allocated os (heap_in h k) \<and> no_room (object_sizes ! i) h k) \<or>
    (\<exists>s os' h' k1 ab. let ob = object_at ty s; k' = fresh_object ob ty i nm' k1; L' = add_to i ob L in
      rt_object_allocate ty nm h k = Some (Returns (Some s), h', k') \<and>
      \<not> in_use L ob \<and> changes_only ob k k' \<and> dynamic_ok L' os' h' k' \<and> owns L' h' ob ab \<and>
      ab \<notin> allocated os (heap_in h k) \<and>
      allocated os' (heap_in h' k') = insert ab (allocated os (heap_in h k)))"
  using rt_malloc_dynamic [OF ok object_sizes_bounds [OF i]]
proof (elim disjE exE conjE)
  fix h' assume "rt_malloc (object_sizes ! i) h k = Some (Returns 0, h', k)" "dynamic_ok L os h' k"
    "allocated os (heap_in h' k) = allocated os (heap_in h k)" "no_room (object_sizes ! i) h k"
  then show ?thesis using i by (auto simp: rt_object_allocate_def)
next
  let ?sz = "object_sizes ! i" and ?B = "allocated os (heap_in h k)"
  fix p ab os' h' k'
  assume r: "rt_malloc ?sz h k = Some (Returns p, h', k')" "same_heap h h'" "k' = k\<lparr>mem := mem k'\<rparr>"
    "dynamic_ok L os' h' k'" "fst ab + 12 + unat ?sz \<le> snd ab" "new_block L ?B h p ab"
    "allocated os' (heap_in h' k') = insert ab ?B"
  define ob where "ob = object_at ty (unat p)"
  define k1 where "k1 = mem_update (rt_memset p 0 ?sz) k'"
  define k2 where "k2 = fresh_object ob ty i nm' k1"
  have ad: "object_address ob = p" by (simp add: ob_def object_address_at)
  have nb: "p = heap_ptr h + of_nat (fst ab + 12)" "p \<noteq> 0" "4 dvd unat p" "in_block h p ab" "ab \<notin> ?B"
    "snd ab < 2 ^ 32" "\<And>u. in_block h (object_address u) ab \<Longrightarrow> \<not> in_use L u"
    using r(6) unfolding new_block_def by blast+
  have hp: "heap_ptr h' = heap_ptr h" "heap_end h' = heap_end h" using r(2) by (simp_all add: same_heap_def)
  have alloc: "rt_object_allocate ty nm h k = Some (Returns (Some (unat p)), h', k2)"
    using rt_object_allocate_new [OF r(1) nb(2) i nm] by (simp add: k2_def k1_def ob_def)
  have un: "\<not> in_use L ob" using nb(4,7) by (simp add: ad)
  have ipc: "ipc_object ob" by (simp add: ob_def ty)
  have "unat p \<noteq> heap_sem" using nb(3) by (auto simp: heap_sem_def)
  then have sem: "ob \<noteq> sem_obj heap_sem" by (auto simp: ob_def object_at_def split: if_splits)
  have w: "writes_to (allocated os' (heap_in h' k')) h' (mem k') (mem k1)"
    using r(5) nb(6) r(7) memset_in_block [of "fst ab" ?sz "snd ab" "allocated os' (heap_in h' k')" h' "mem k'" 0]
    by (simp add: k1_def nb(1) hp)
  have k1: "k1 = k'\<lparr>mem := mem k1\<rparr>" by (simp add: k1_def)
  note ok1 = dynamic_ok_write [OF r(4) w, folded k1]
  have c': "changes_only ob k1 k2"
    using clear_body_changes [OF ipc sem, of k1 ty i nm'] by (simp add: k2_def)
  have "changes_only ob k k1"
    using r(3) by (intro changes_only_mem [OF _ ipc sem]) (metis k1 kernel.surjective kernel.update_convs(1))
  then have c: "changes_only ob k k2" using c' changes_only_trans by blast
  have l: "lists k2 = rt_list_insert_after (Container_head i) (Obj_list ob) (lists k1)" "mem k2 = mem k1"
    by (simp_all add: k2_def fresh_object_def clear_body_frame)
  have f: "heap_free (add_to i ob L) k2" by (rule heap_free_add [OF dynamic_okD(1) [OF ok1(1)] c' un l(1)])
  have "placed (add_to i ob L) (insert ab ?B) h'"
    using dynamic_okD(3) [OF r(4)] nb(4) hp in_use_add
    unfolding placed_def r(7) in_block_def by (metis ad insertI1)
  then have sys: "dynamic_ok (add_to i ob L) os' h' k2"
    using f dynamic_okD(2) [OF ok1(1)] ok1(2) r(7) l(2) by (simp add: dynamic_ok_def)
  have "owns (add_to i ob L) h' ob ab"
    unfolding owns_def
  proof (intro conjI allI impI)
    fix u assume u: "in_use (add_to i ob L) u" "in_block h' (object_address u) ab"
    then have "in_block h (object_address u) ab" using hp by (simp add: in_block_def)
    then have "\<not> in_use L u" by (rule nb(7))
    then show "u = ob" using in_use_add [OF u(1)] by blast
  qed (simp add: ad nb(1) hp)
  then have "let ob = object_at ty (unat p); k' = fresh_object ob ty i nm' k1; L' = add_to i ob L in
      rt_object_allocate ty nm h k = Some (Returns (Some (unat p)), h', k') \<and>
      \<not> in_use L ob \<and> changes_only ob k k' \<and> dynamic_ok L' os' h' k' \<and> owns L' h' ob ab \<and>
      ab \<notin> ?B \<and> allocated os' (heap_in h' k') = insert ab ?B"
    using alloc un c sys nb(5) ok1(2) r(7) l(2) unfolding Let_def ob_def [symmetric] k2_def [symmetric] by simp
  then show ?thesis by blast
qed

section \<open>Deleting an object\<close>

lemma unlink_closed:
  assumes ok: "dynamic_ok L os h k" and ob: "ipc_object ob" "ob \<noteq> sem_obj heap_sem"
    and own: "owns L h ob ab" "ab \<in> allocated os (heap_in h k)"
    and alone: "L (Suspend_head ob) = []" "L (Sender_head ob) = []"
      "\<And>x. is_head x \<Longrightarrow> Obj_list ob \<in> set (L x) \<Longrightarrow> \<exists>i. x = Container_head i"
    and ty: "type (objects k ob) AND RT_Object_Class_Static = 0"
  shows "\<exists>os' h' k'. rt_object_delete ob h k = Some (Returns (), h', k') \<and>
    dynamic_ok (without (Obj_list ob) L) os' h' k' \<and> same_heap h h' \<and> changes_only ob k k' \<and>
    allocated os' (heap_in h' k') = allocated os (heap_in h k) - {ab} \<and> \<not> live k' ob"
proof -
  let ?L = "without (Obj_list ob) L" and ?B = "allocated os (heap_in h k)"
  obtain a b where ab: "ab = (a, b)" by (cases ab)
  define k1 where "k1 = upd_lists (rt_list_remove (Obj_list ob)) (upd_object ob (\<lambda>ob. ob\<lparr>type := 0\<rparr>) k)"
  have c1: "changes_only ob k k1" using ob by (simp add: changes_only_def same_threads_def k1_def)
  have l1: "lists k1 = rt_list_remove (Obj_list ob) (lists k)" "heap_in h k1 = heap_in h k" by (simp_all add: k1_def)
  have f1: "heap_free ?L k1" by (rule heap_free_drop [OF dynamic_okD(1) [OF ok] c1 l1(1) alone(3)])
  obtain os' h' k' where r: "rt_free (heap_ptr h + of_nat (a + 12)) h k1 = Some (Returns (), h', k')"
    "heap_free ?L k'" "heap_ok os' (heap_in h' k')" "same_heap h h'"
    "allocated os' (heap_in h' k') = ?B - {(a, b)}"
    using free_free [OF f1, of os h a b] dynamic_okD(2) [OF ok] own(2) unfolding l1(2) ab by blast
  have m: "k' = k1\<lparr>mem := mem k'\<rparr>" by (rule rt_free_frame [OF f1 r(1)])
  have "rt_object_delete ob h k = rt_free (object_address ob) h k1"
    using ty by (simp add: rt_object_delete_def k1_def)
  then have d: "rt_object_delete ob h k = Some (Returns (), h', k')"
    using r(1) own(1) by (simp add: owns_def ab)
  have use: "in_use L u \<and> u \<noteq> ob" if "in_use ?L u" for u
    using that alone(1,2) by (auto simp: in_use_def on_list_def)
  have "placed ?L (?B - {ab}) h'"
    unfolding placed_def
  proof (intro allI impI)
    fix u assume "in_use ?L u"
    then have u: "in_use L u" "u \<noteq> ob" using use by blast+
    then have "\<not> in_block h (object_address u) ab" using own(1) by (auto simp: owns_def)
    then show "object_address u < heap_ptr h' \<or> heap_end h' \<le> object_address u \<or>
        (\<exists>ab \<in> ?B - {ab}. in_block h' (object_address u) ab)"
      using dynamic_okD(3) [OF ok] u(1) r(4) by (auto simp: placed_def in_block_def same_heap_def)
  qed
  then have "dynamic_ok ?L os' h' k'" using r(2,3,5) by (simp add: dynamic_ok_def ab)
  moreover have "changes_only ob k k'"
    by (rule changes_only_trans [OF c1 changes_only_mem [OF m ob]])
  moreover have "\<not> live k' ob"
  proof -
    have "objects k' = objects k1" by (subst m) simp
    moreover have "object_class ob \<noteq> 0" by (cases ob) simp_all
    ultimately show ?thesis by (simp add: live_def rt_object_get_type_def k1_def)
  qed
  ultimately show ?thesis using d r(4,5) unfolding ab by blast
qed

section \<open>Mailboxes\<close>

text \<open>The state of a new mailbox before its pool is allocated, and after.\<close>

definition mb_prepared :: "nat \<Rightarrow> u32 \<Rightarrow> u8 \<Rightarrow> kernel \<Rightarrow> kernel" where
  "mb_prepared b sz fl k = upd_mailbox b (\<lambda>mb. mb\<lparr>mb_size := ucast sz\<rparr>)
     (rt_ipc_object_init (mb_obj b) (upd_object (mb_obj b) (\<lambda>ob. ob\<lparr>flag := fl\<rparr>) k))"

definition mb_complete :: "nat \<Rightarrow> u32 \<Rightarrow> kernel \<Rightarrow> kernel" where
  "mb_complete b p k = upd_lists (rt_list_init (mb_senders b))
     (upd_mailbox b (\<lambda>mb. mb\<lparr>msg_pool := p, mb_entry := 0, in_offset := 0, out_offset := 0\<rparr>) k)"

lemma fresh_object_type: "objects (fresh_object ob ty i a k) ob = \<lparr>name = name_field RT_NAME_MAX a, type = ty, flag = 0\<rparr>"
  by (simp add: fresh_object_def)

lemma unused_heads:
  assumes "\<not> in_use L ob"
  shows "add_to i ob L (Suspend_head ob) = []" "add_to i ob L (Sender_head ob) = []"
    "is_head x \<Longrightarrow> Obj_list ob \<in> set (add_to i ob L x) \<Longrightarrow> \<exists>i. x = Container_head i"
    "is_head x \<Longrightarrow> without (Obj_list ob) (add_to i ob L) x = L x"
  using assms by (auto simp: in_use_def on_list_def removeAll_id split: if_splits)

lemma rings_init_ipc:
  assumes "kernel_ok L k" "is_head x" "L x = []"
  shows "rt_list_init x (lists k) = lists k"
  using assms by (intro rings_init_hd_nil [OF kernel_okD(4)])

lemma mb_prepared_ok:
  assumes ok: "dynamic_ok L os h k" and l: "L (mb_list b) = []"
  shows "dynamic_ok L os h (mb_prepared b sz fl k)" "changes_only (mb_obj b) k (mb_prepared b sz fl k)"
    "allocated os (heap_in h (mb_prepared b sz fl k)) = allocated os (heap_in h k)"
proof -
  have i: "rt_list_init (mb_list b) (lists k) = lists k"
    using l by (intro rings_init_ipc [OF dynamic_okD(4) [OF ok]]) simp_all
  show c: "changes_only (mb_obj b) k (mb_prepared b sz fl k)"
    by (simp add: changes_only_def same_threads_def mb_prepared_def rt_ipc_object_init_def)
  show "dynamic_ok L os h (mb_prepared b sz fl k)"
    "allocated os (heap_in h (mb_prepared b sz fl k)) = allocated os (heap_in h k)"
    using dynamic_ok_same [OF ok c] i by (simp_all add: mb_prepared_def rt_ipc_object_init_def)
qed

lemma rt_malloc_zero: "rt_malloc 0 h k = Some (Returns 0, h, k)"
  by (simp add: rt_malloc_def)

text \<open>A pool for a new object, or the object is gone again.\<close>

lemma allocate_pool_ok:
  assumes ok: "dynamic_ok L os h k" and ob: "ipc_object ob" "ob \<noteq> sem_obj heap_sem"
    and own: "owns L h ob ab" "ab \<in> allocated os (heap_in h k)"
    and alone: "L (Suspend_head ob) = []" "L (Sender_head ob) = []"
      "\<And>x. is_head x \<Longrightarrow> Obj_list ob \<in> set (L x) \<Longrightarrow> \<exists>i. x = Container_head i"
    and ty: "type (objects k ob) AND RT_Object_Class_Static = 0" and sz: "sz \<le> 0xfffffffc"
  shows "(\<exists>os' h' k'. allocate_pool ob sz h k = Some (Returns None, h', k') \<and>
      dynamic_ok (without (Obj_list ob) L) os' h' k' \<and> changes_only ob k k' \<and>
      allocated os' (heap_in h' k') = allocated os (heap_in h k) - {ab} \<and> no_room sz h k) \<or>
    (\<exists>p pool os' h' k'. allocate_pool ob sz h k = Some (Returns (Some p), h', k') \<and> sz \<noteq> 0 \<and>
      k' = k\<lparr>mem := mem k'\<rparr> \<and> dynamic_ok L os' h' k' \<and> fst pool + 12 + unat sz \<le> snd pool \<and>
      new_block L (allocated os (heap_in h k)) h p pool \<and>
      allocated os' (heap_in h' k') = insert pool (allocated os (heap_in h k)))"
proof -
  have none: "\<exists>os' h2 k2. allocate_pool ob sz h k = Some (Returns None, h2, k2) \<and>
      dynamic_ok (without (Obj_list ob) L) os' h2 k2 \<and> changes_only ob k k2 \<and>
      allocated os' (heap_in h2 k2) = allocated os (heap_in h k) - {ab} \<and> no_room sz h k"
    if m: "rt_malloc sz h k = Some (Returns 0, h', k)" "same_heap h h'" "dynamic_ok L os h' k"
      "allocated os (heap_in h' k) = allocated os (heap_in h k)" "no_room sz h k" for h'
  proof -
    have o: "owns L h' ob ab" using own(1) m(2) by (simp add: owns_def same_heap_def in_block_def)
    show ?thesis
      using unlink_closed [OF m(3) ob o _ alone ty] own(2) m(1,4,5) by (auto simp: allocate_pool_def)
  qed
  show ?thesis
  proof (cases "sz = 0")
    case True
    then show ?thesis using none [of h] ok rt_malloc_zero by (simp add: same_heap_def no_room_def)
  next
    case False
    from rt_malloc_dynamic [OF ok False sz] show ?thesis
    proof (elim disjE exE conjE)
      fix h' assume "rt_malloc sz h k = Some (Returns 0, h', k)" "same_heap h h'" "dynamic_ok L os h' k"
        "allocated os (heap_in h' k) = allocated os (heap_in h k)" "no_room sz h k"
      then show ?thesis using none by blast
    next
      fix p pool os' h' k'
      assume r: "rt_malloc sz h k = Some (Returns p, h', k')" "new_block L (allocated os (heap_in h k)) h p pool"
        and s: "k' = k\<lparr>mem := mem k'\<rparr>" "dynamic_ok L os' h' k'" "fst pool + 12 + unat sz \<le> snd pool"
        "allocated os' (heap_in h' k') = insert pool (allocated os (heap_in h k))"
      have "p \<noteq> 0" using r(2) unfolding new_block_def by blast
      then have "allocate_pool ob sz h k = Some (Returns (Some p), h', k')" using r(1) by (simp add: allocate_pool_def)
      then show ?thesis using False r(2) s by blast
    qed
  qed
qed

lemma mb_complete_ok:
  assumes ok: "dynamic_ok L os h k" and l: "L (mb_senders b) = []"
  shows "dynamic_ok L os h (mb_complete b p k)" "changes_only (mb_obj b) k (mb_complete b p k)"
    "allocated os (heap_in h (mb_complete b p k)) = allocated os (heap_in h k)"
proof -
  have i: "rt_list_init (mb_senders b) (lists k) = lists k"
    using l by (intro rings_init_ipc [OF dynamic_okD(4) [OF ok]]) simp_all
  show c: "changes_only (mb_obj b) k (mb_complete b p k)"
    by (simp add: changes_only_def same_threads_def mb_complete_def)
  show "dynamic_ok L os h (mb_complete b p k)"
    "allocated os (heap_in h (mb_complete b p k)) = allocated os (heap_in h k)"
    using dynamic_ok_same [OF ok c] i by (simp_all add: mb_complete_def)
qed

lemma rt_mb_create_allocated:
  assumes "rt_object_allocate RT_Object_Class_MailBox nm h k = Some (Returns (Some b), h', k')"
  shows "rt_mb_create nm sz fl h k =
    heap_then (allocate_pool (mb_obj b) (ucast (ucast sz :: u16) * 4) h' (mb_prepared b sz fl k')) (\<lambda>p h k.
      case p of None \<Rightarrow> Some (Returns None, h, k) | Some p \<Rightarrow> Some (Returns (Some b), h, mb_complete b p k))"
  using assms
  by (simp add: rt_mb_create_def mb_prepared_def mb_complete_def comp_def fun_upd_twist cong: option.case_cong)

text \<open>The first data of a mailbox.\<close>

lemma mb_complete_view:
  assumes l: "L (mb_list b) = []" "L (mb_senders b) = []" and fl: "fl = RT_IPC_FLAG_FIFO \<or> fl = RT_IPC_FLAG_PRIO"
    and ty: "type (objects k (mb_obj b)) = RT_Object_Class_MailBox" and sz: "(ucast sz :: u16) \<noteq> 0"
    and k': "k' = (mb_prepared b sz fl k)\<lparr>mem := mem k'\<rparr>"
  shows "mb_ok (mb_complete b p k') b" "mb_view L (mb_complete b p k') b = ([], [], [])"
    "mb_capacity b (mb_complete b p k') = unat (ucast sz :: u16)"
    "name (objects (mb_complete b p k') (mb_obj b)) = name (objects k (mb_obj b))"
proof -
  have o: "objects k' (mb_obj b) = (objects k (mb_obj b))\<lparr>flag := fl\<rparr>"
    by (subst k') (simp add: mb_prepared_def rt_ipc_object_init_def)
  have m: "mb_size (mailboxes k' b) = ucast sz"
    by (subst k') (simp add: mb_prepared_def rt_ipc_object_init_def)
  let ?k = "mb_complete b p k'"
  have "ipc_ok ?k (mb_obj b)"
    using fl ty o by (auto simp: ipc_ok_def ipc_flag_def live_def rt_object_get_type_def mb_complete_def)
  moreover have "mb_data_ok b ?k"
    using sz by (simp add: mb_data_ok_def mb_complete_def Let_def m word_gt_0)
  ultimately show "mb_ok ?k b" by (simp add: mb_ok_def)
  show "mb_view L ?k b = ([], [], [])"
    by (simp add: mb_view_def mb_contents_def mb_complete_def waiting_def l)
  show "mb_capacity b ?k = unat (ucast sz :: u16)" by (simp add: mb_capacity_def mb_complete_def m)
  show "name (objects ?k (mb_obj b)) = name (objects k (mb_obj b))" by (simp add: mb_complete_def o)
qed

lemma pool_size_bound: "ucast (n :: u16) * 4 \<le> (0xfffffffc :: u32)"
proof -
  have u: "unat (ucast n :: u32) = unat n" by transfer (simp add: take_bit_eq_mod)
  have "unat n < 2 ^ 16" using unsigned_less [of n, where 'a = nat] by simp
  then show ?thesis by (simp add: word_le_nat_alt unat_word_ariths u)
qed

lemma mb_information: "rt_object_get_information RT_Object_Class_MailBox = Some 4"
  by (simp add: rt_object_get_information_def rt_object_container_def)

lemma object_at_mb: "object_at RT_Object_Class_MailBox p = mb_obj p" "ipc_object (object_at RT_Object_Class_MailBox p)"
  by (simp_all add: object_at_def)

text \<open>The demo kernel with its heap: no object of it lies on the heap.\<close>

lemma demo_not_in_use: "\<not> in_use demo_ring ob"
  by (auto simp: in_use_def on_list_def demo_ring_def split: if_splits)

lemma demo_dynamic_ok: "dynamic_ok demo_ring [0, 1012] demo_fresh (demo_with demo_fresh)"
  using demo_fresh_ok(1) demo_heap_free [of demo_fresh] by (simp add: dynamic_ok_def placed_def demo_not_in_use)

text \<open>C31: \<^verbatim>\<open>rt_mb_create\<close> is all or nothing, and never waits when \<open>heap_sem\<close> is free.  It returns NULL only
  when there is no room for the 48 bytes of the object, or, once the object is made, none for its
  pool (4 bytes for a message; a capacity of 0 modulo 65536 has no pool).  No room means that every free
  block of the heap is too small, or fits exactly and is the heap's last one.  Then the kernel
  is as before: no list has another member, no thread has changed, and the heap has the same
  allocated blocks, so the object that was already made is given back.  In every other case the new
  mailbox is empty, has nobody waiting, the name and the capacity asked for (in 16 bits), and lives
  in two new blocks.\<close>

theorem rt_mb_create_all_or_nothing:
  assumes ok: "dynamic_ok L os h k" and nm: "c_string nm = Some a"
    and fl: "fl = RT_IPC_FLAG_FIFO \<or> fl = RT_IPC_FLAG_PRIO"
  shows "(\<exists>L' os' h' k'. rt_mb_create nm sz fl h k = Some (Returns None, h', k') \<and>
      dynamic_ok L' os' h' k' \<and> (\<forall>x. is_head x \<longrightarrow> L' x = L x) \<and> threads k' = threads k \<and>
      allocated os' (heap_in h' k') = allocated os (heap_in h k) \<and>
      (no_room 48 h k \<or> (\<exists>b h1 k1. rt_object_allocate RT_Object_Class_MailBox nm h k = Some (Returns (Some b), h1, k1) \<and>
         no_room (4 * ucast (ucast sz :: u16)) h1 k1))) \<or>
    (\<exists>b L' os' h' k' ab pool. rt_mb_create nm sz fl h k = Some (Returns (Some b), h', k') \<and>
      dynamic_ok L' os' h' k' \<and> mb_ok k' b \<and> mb_view L' k' b = ([], [], []) \<and>
      mb_capacity b k' = unat (ucast sz :: u16) \<and> name (objects k' (mb_obj b)) = name_field RT_NAME_MAX a \<and>
      threads k' = threads k \<and> ab \<notin> allocated os (heap_in h k) \<and>
      pool \<notin> insert ab (allocated os (heap_in h k)) \<and>
      allocated os' (heap_in h' k') = insert pool (insert ab (allocated os (heap_in h k))))"
  using rt_object_allocate_ok [OF ok mb_information nm object_at_mb(2)] unfolding object_at_mb(1) Let_def
proof (elim disjE exE conjE)
  fix h' assume "rt_object_allocate RT_Object_Class_MailBox nm h k = Some (Returns None, h', k)"
    "dynamic_ok L os h' k" "allocated os (heap_in h' k) = allocated os (heap_in h k)"
    "no_room (object_sizes ! 4) h k"
  then show ?thesis
    by (intro disjI1 exI [of _ L] exI [of _ os] exI [of _ h'] exI [of _ k]) (simp add: rt_mb_create_def object_sizes_def)
next
  fix b os1 h1 k0 ab
  let ?B = "allocated os (heap_in h k)" and ?L = "add_to 4 (mb_obj b) L" and ?s = "ucast (ucast sz :: u16) * 4 :: u32"
  let ?k1 = "fresh_object (mb_obj b) RT_Object_Class_MailBox 4 a k0"
  let ?k2 = "mb_prepared b sz fl ?k1"
  assume alloc: "rt_object_allocate RT_Object_Class_MailBox nm h k = Some (Returns (Some b), h1, ?k1)"
    and un: "\<not> in_use L (mb_obj b)" and c1: "changes_only (mb_obj b) k ?k1" and ok1: "dynamic_ok ?L os1 h1 ?k1"
    and own: "owns ?L h1 (mb_obj b) ab" and ab: "ab \<notin> ?B" "allocated os1 (heap_in h1 ?k1) = insert ab ?B"
  note uh = unused_heads [OF un, where i = 4]
  note p = mb_prepared_ok [OF ok1 uh(1), of sz fl]
  have ob: "ipc_object (mb_obj b)" "mb_obj b \<noteq> sem_obj heap_sem" by simp_all
  have ty: "type (objects ?k2 (mb_obj b)) = RT_Object_Class_MailBox"
    by (simp add: mb_prepared_def rt_ipc_object_init_def fresh_object_type)
  have al: "allocated os1 (heap_in h1 ?k2) = insert ab ?B" using p(3) ab(2) by simp
  note sz = pool_size_bound [of "ucast sz"]
  note create = rt_mb_create_allocated [OF alloc, of sz fl]
  have th: "threads k' = threads k" if "changes_only (mb_obj b) ?k2 k'" for k'
    using changes_only_trans [OF changes_only_trans [OF c1 p(2)] that]
    by (simp add: changes_only_def same_threads_def)
  have m: "ab \<in> allocated os1 (heap_in h1 ?k2)" unfolding al by blast
  have t: "type (objects ?k2 (mb_obj b)) AND RT_Object_Class_Static = 0" unfolding ty by simp
  have "(\<exists>os' h' k'. allocate_pool (mb_obj b) ?s h1 ?k2 = Some (Returns None, h', k') \<and>
      dynamic_ok (without (Obj_list (mb_obj b)) ?L) os' h' k' \<and> changes_only (mb_obj b) ?k2 k' \<and>
      allocated os' (heap_in h' k') = insert ab ?B - {ab} \<and> no_room ?s h1 ?k2) \<or>
    (\<exists>q pool os' h' k'. allocate_pool (mb_obj b) ?s h1 ?k2 = Some (Returns (Some q), h', k') \<and> ?s \<noteq> 0 \<and>
      k' = ?k2\<lparr>mem := mem k'\<rparr> \<and> dynamic_ok ?L os' h' k' \<and> fst pool + 12 + unat ?s \<le> snd pool \<and>
      new_block ?L (insert ab ?B) h1 q pool \<and> allocated os' (heap_in h' k') = insert pool (insert ab ?B))"
    unfolding al [symmetric] by (rule allocate_pool_ok [OF p(1) ob own m uh(1,2) _ t sz]) (rule uh(3))
  then show ?thesis
  proof (elim disjE exE conjE)
    fix os' h' k'
    assume r: "allocate_pool (mb_obj b) ?s h1 ?k2 = Some (Returns None, h', k')"
      "dynamic_ok (without (Obj_list (mb_obj b)) ?L) os' h' k'" "changes_only (mb_obj b) ?k2 k'"
      "allocated os' (heap_in h' k') = insert ab ?B - {ab}" "no_room ?s h1 ?k2"
    have "rt_mb_create nm sz fl h k = Some (Returns None, h', k')" using r(1) create by simp
    moreover have "no_room (4 * ucast (ucast sz :: u16)) h1 ?k1"
      using r(5) by (simp add: no_room_def mb_prepared_def rt_ipc_object_init_def mult.commute)
    ultimately show ?thesis using r(2,4) ab(1) th [OF r(3)] uh(4) alloc by blast
  next
    fix q pool os' h' k'
    assume r: "allocate_pool (mb_obj b) ?s h1 ?k2 = Some (Returns (Some q), h', k')" "?s \<noteq> 0"
      "k' = ?k2\<lparr>mem := mem k'\<rparr>" "dynamic_ok ?L os' h' k'" "new_block ?L (insert ab ?B) h1 q pool"
      "allocated os' (heap_in h' k') = insert pool (insert ab ?B)"
    note c = mb_complete_ok [OF r(4) uh(2), of q]
    have z: "(ucast sz :: u16) \<noteq> 0" using r(2) by auto
    have ty1: "type (objects ?k1 (mb_obj b)) = RT_Object_Class_MailBox" by (simp add: fresh_object_type)
    note v = mb_complete_view [OF uh(1,2) fl ty1 z r(3), of q]
    have n: "name (objects (mb_complete b q k') (mb_obj b)) = name_field RT_NAME_MAX a"
      unfolding v(4) by (simp add: fresh_object_type)
    have "rt_mb_create nm sz fl h k = Some (Returns (Some b), h', mb_complete b q k')"
      using r(1) create by simp
    moreover have "pool \<notin> insert ab ?B" using r(5) unfolding new_block_def by blast
    moreover have "threads (mb_complete b q k') = threads k"
      by (rule th [OF changes_only_trans [OF changes_only_mem [OF r(3) ob] c(2)]])
    ultimately show ?thesis using c(1) v(1-3) n ab(1) c(3) [unfolded r(6)] by blast
  qed
qed

text \<open>On the fresh heap of 1000 bytes there is room for both.\<close>

lemma demo_room:
  assumes "heap_ok [0, 60, 1012] (heap_in h k)" "usedf (heap_in h k) 60 = 0" "heap_size h = 1000"
    "unat (malloc_size (RT_ALIGN sz 4)) < 900" "sz \<noteq> 0"
  shows "\<not> no_room sz h k"
proof
  assume "no_room sz h k"
  then have "\<forall>(a, b) \<in> adj [0, 60, 1012]. usedf (heap_in h k) a = 0 \<longrightarrow>
      b < a + 12 + unat (malloc_size (RT_ALIGN sz 4)) \<or> b = heap_size h + 12 \<and> a + 12 + unat (malloc_size (RT_ALIGN sz 4)) = b"
    using assms(1,5) unfolding no_room_def by blast
  then show False using assms(2-4) by simp
qed

lemma demo_object:
  obtains b h1 k1 where
    "rt_object_allocate RT_Object_Class_MailBox [109, 0] demo_fresh (demo_with demo_fresh) = Some (Returns (Some b), h1, k1)"
    "\<not> no_room 16 h1 k1"
proof -
  have nm: "c_string [109, 0] = Some [109]" by simp
  have n: "unat (malloc_size (RT_ALIGN 48 RT_ALIGN_SIZE)) = 48" by (simp add: malloc_size_def RT_ALIGN_def)
  obtain e h1 k1 where r: "rt_malloc 48 demo_fresh (demo_with demo_fresh) = Some (Returns (heap_ptr demo_fresh + of_nat 12), h1, k1)"
    "heap_ok [0, 60, 1012] (heap_in h1 k1)" "same_heap demo_fresh h1" "(0, e) \<in> adj [0, 60, 1012]"
    "allocated [0, 60, 1012] (heap_in h1 k1) = {(0, e)}"
    by (rule demo_malloc [OF _ _ n]) simp_all
  let ?p = "heap_ptr demo_fresh + of_nat 12"
  have p: "?p = 0x800c" by (simp add: demo_fresh_ok)
  define k2 where "k2 = mem_update (rt_memset ?p 0 48) k1"
  have e: "e = 60" using r(4) by simp
  have hp: "heap_ptr h1 = heap_ptr demo_fresh" "heap_size h1 = 1000" using r(3) by (simp_all add: same_heap_def demo_fresh_ok)
  have m2: "mem k2 = rt_memset ?p 0 48 (mem k1)" by (simp add: k2_def)
  have "writes_to {(0, e)} h1 (mem k1) (rt_memset (heap_ptr h1 + of_nat (0 + 12)) 0 48 (mem k1))"
    by (rule memset_in_block) (simp_all add: e)
  then have "writes_to (allocated [0, 60, 1012] (heap_in h1 k1)) h1 (mem k1) (mem k2)"
    unfolding m2 r(5) hp by simp
  note w = write_ok [OF r(2) this, unfolded r(5)]
  have "(60, 1012) \<notin> allocated [0, 60, 1012] (heap_in h1 k2)" unfolding w(2) by simp
  then have u: "usedf (heap_in h1 k2) 60 = 0" unfolding allocated_def by simp
  have m: "rt_malloc (object_sizes ! 4) demo_fresh (demo_with demo_fresh) = Some (Returns ?p, h1, k1)"
    using r(1) by (simp add: object_sizes_def)
  have "?p \<noteq> 0" unfolding p by simp
  note al = rt_object_allocate_new [OF m this mb_information nm, unfolded object_at_mb(1)]
  let ?k3 = "fresh_object (mb_obj (unat ?p)) RT_Object_Class_MailBox 4 [109] k2"
  have z: "object_sizes ! 4 = 48" by (simp add: object_sizes_def)
  have "rt_object_allocate RT_Object_Class_MailBox [109, 0] demo_fresh (demo_with demo_fresh) =
      Some (Returns (Some (unat ?p)), h1, ?k3)"
    using al unfolding k2_def z .
  moreover have "mem ?k3 = mem k2" by (simp add: fresh_object_def)
  then have "\<not> no_room 16 h1 ?k3"
    using w(1) u hp(2) by (intro demo_room) (simp_all add: malloc_size_def RT_ALIGN_def)
  ultimately show thesis by (rule that)
qed

theorem rt_mb_create_all_or_nothing_witness:
  "\<exists>b L' os' h' k'. rt_mb_create [109, 0] 4 RT_IPC_FLAG_FIFO demo_fresh (demo_with demo_fresh) =
      Some (Returns (Some b), h', k') \<and> dynamic_ok L' os' h' k' \<and> mb_capacity b k' = 4 \<and> mb_view L' k' b = ([], [], [])"
proof -
  have nm: "c_string [109, 0] = Some [109]" by simp
  obtain b h1 k1 where o: "rt_object_allocate RT_Object_Class_MailBox [109, 0] demo_fresh (demo_with demo_fresh) =
      Some (Returns (Some b), h1, k1)" "\<not> no_room 16 h1 k1" by (rule demo_object)
  have n: "\<not> no_room 48 demo_fresh (demo_with demo_fresh)"
  proof
    assume r: "no_room 48 demo_fresh (demo_with demo_fresh)"
    have "usedf demo_fresh 0 = 0" using demo_fresh_ok(2) by (auto simp: allocated_def)
    then show False using r demo_fresh_ok(1,4) unfolding no_room_def
      by (auto simp: malloc_size_def RT_ALIGN_def dest!: spec [of _ "[0, 1012]"])
  qed
  show ?thesis
    using rt_mb_create_all_or_nothing [OF demo_dynamic_ok nm disjI1 [OF refl], where sz = 4]
  proof (elim disjE exE conjE)
    fix b' L' os' h' k'
    assume "rt_mb_create [109, 0] 4 RT_IPC_FLAG_FIFO demo_fresh (demo_with demo_fresh) = Some (Returns (Some b'), h', k')"
      "dynamic_ok L' os' h' k'" "mb_view L' k' b' = ([], [], [])" "mb_capacity b' k' = unat (ucast (4 :: u32) :: u16)"
    then show ?thesis by (intro exI [of _ b'] exI [of _ L'] exI [of _ os'] exI [of _ h'] exI [of _ k']) simp
  qed (use o n in simp_all)
qed

section \<open>Deleting a semaphore that threads wait for\<close>

lemma map_filter_removeAll:
  "List.map_filter thread_entry (removeAll (Tlist t) ns) = removeAll t (List.map_filter thread_entry ns) \<and>
   List.map_filter thread_entry (removeAll (Row tm) ns) = List.map_filter thread_entry ns"
proof (induction ns)
  case (Cons n ns)
  then show ?case by (cases n) (auto simp: map_filter_simps)
qed (simp add: map_filter_simps)

lemma waiting_resume_ring: "wait_head y \<Longrightarrow> waiting (resume_ring k t L) y = removeAll t (waiting L y)"
  by (cases y) (simp_all add: waiting_def resume_ring_def map_filter_removeAll)

lemma waiting_resume_each:
  "wait_head y \<Longrightarrow> waiting (resume_each_ring k us L) y = filter (\<lambda>t. t \<notin> set us) (waiting L y)"
proof (induction us arbitrary: L)
  case (Cons t us)
  have "filter (\<lambda>u. u \<notin> set us) (removeAll t W) = filter (\<lambda>u. u \<notin> set (t # us)) W" for W
    by (induction W) auto
  then show ?case using Cons by (simp add: waiting_resume_ring)
qed simp

lemma in_use_resume_each: "in_use (resume_each_ring k us L) u \<Longrightarrow> in_use L u"
proof (induction us arbitrary: L)
  case (Cons t us)
  then have "in_use (resume_ring k t L) u" by simp
  then show ?case by (auto simp: in_use_def on_list_def resume_ring_def split: if_splits)
qed simp

lemma obj_list_resume_each: "Obj_list ob \<in> set (resume_each_ring k us L x) \<Longrightarrow> Obj_list ob \<in> set (L x)"
proof (induction us arbitrary: L)
  case (Cons t us)
  then have "Obj_list ob \<in> set (resume_ring k t L x)" by simp
  then show ?case by (auto simp: resume_ring_def split: if_splits)
qed simp

lemma waiting_apart:
  assumes "kernel_ok L k" "wait_head x" "wait_head y" "t \<in> set (waiting L x)" "t \<in> set (waiting L y)"
  shows "x = y"
proof -
  have "Tlist t \<in> set (L x)" "Tlist t \<in> set (L y)"
    using assms waiting_map [OF assms(1,2)] waiting_map [OF assms(1,3)] by (metis imageI list.set_map)+
  then show ?thesis
    using rings_unique [OF kernel_okD(4) [OF assms(1)]] wait_head_is_head assms(2,3) by blast
qed

lemma objects_resume_each:
  assumes "ipc_object ob"
  shows "objects (resume_each us k) ob = objects k ob"
proof (induction us arbitrary: k)
  case (Cons t us)
  have "ob \<noteq> Obj_timer tm" for tm using assms by auto
  then have "objects (resume_thread t k) ob = objects k ob" for k
    by (auto simp: resume_thread_def stop_timer_def take_off_def Let_def)
  then show ?case using Cons by simp
qed simp

text \<open>Waking all threads of a list keeps the invariants.\<close>

lemma dynamic_ok_resume_all:
  assumes ok: "dynamic_ok L os h k" and x: "wait_head x"
  defines "k' \<equiv> resume_each (waiting L x) k" and "L' \<equiv> resume_each_ring k (waiting L x) L"
  shows "rt_ipc_list_resume_all x k = Some (RT_EOK, k')" "dynamic_ok L' os h k'"
    "allocated os (heap_in h k') = allocated os (heap_in h k)"
proof -
  note r = resume_all_closed [OF dynamic_okD(4) [OF ok] x refl, folded k'_def L'_def]
  show "rt_ipc_list_resume_all x k = Some (RT_EOK, k')" by (rule r(1))
  show a: "allocated os (heap_in h k') = allocated os (heap_in h k)" by (simp add: k'_def)
  have w: "waiting L' (sem_list heap_sem) = filter (\<lambda>t. t \<notin> set (waiting L x)) (waiting L (sem_list heap_sem))"
    unfolding L'_def by (rule waiting_resume_each) simp
  have "heap_free L' k'"
    using dynamic_okD(1) [OF ok] r(2) w by (auto simp: heap_free_def sem_ok_def k'_def)
  moreover have "placed L' (allocated os (heap_in h k)) h"
    using dynamic_okD(3) [OF ok] in_use_resume_each unfolding placed_def L'_def by blast
  ultimately show "dynamic_ok L' os h k'" using dynamic_okD(2) [OF ok] by (simp add: dynamic_ok_def k'_def)
qed

text \<open>C32: \<^verbatim>\<open>rt_sem_delete\<close> of a semaphore on the heap (not the one of the heap itself) wakes every
  thread that waits for it with the error \<^verbatim>\<open>-RT_ERROR\<close>, leaves all other threads and wait lists
  alone, takes the object out of its container and gives its block back, and no other block.  The
  invariants of the kernel and of the heap still hold.\<close>

theorem rt_sem_delete_releases:
  assumes ok: "dynamic_ok L os h k" and s: "s \<noteq> heap_sem" "type (objects k (sem_obj s)) = RT_Object_Class_Semaphore"
    and own: "owns L h (sem_obj s) ab" "ab \<in> allocated os (heap_in h k)"
    and on: "L (Sender_head (sem_obj s)) = []"
      "\<And>x. is_head x \<Longrightarrow> Obj_list (sem_obj s) \<in> set (L x) \<Longrightarrow> \<exists>i. x = Container_head i"
  shows "\<exists>L' os' h' k'. rt_sem_delete s h k = Some (Returns RT_EOK, h', k') \<and> dynamic_ok L' os' h' k' \<and>
    allocated os' (heap_in h' k') = allocated os (heap_in h k) - {ab} \<and>
    \<not> live k' (sem_obj s) \<and> \<not> in_use L' (sem_obj s) \<and>
    (\<forall>t. thread_state k' t = (if t \<in> set (waiting L (sem_list s)) then RT_THREAD_READY else thread_state k t) \<and>
      error (threads k' t) = (if t \<in> set (waiting L (sem_list s)) then - RT_ERROR else error (threads k t))) \<and>
    (\<forall>y. wait_head y \<longrightarrow> y \<noteq> sem_list s \<longrightarrow> waiting L' y = waiting L y)"
proof -
  let ?us = "waiting L (sem_list s)" and ?ob = "sem_obj s"
  let ?k = "resume_each ?us k" and ?L = "resume_each_ring k ?us L"
  have wh: "wait_head (sem_list s)" by simp
  note r = dynamic_ok_resume_all [OF ok wh]
  have ob: "ipc_object ?ob" "?ob \<noteq> sem_obj heap_sem" using s(1) by simp_all
  have ty: "type (objects ?k ?ob) = RT_Object_Class_Semaphore" using s(2) objects_resume_each [OF ob(1)] by simp
  have own': "owns ?L h ?ob ab" using own(1) in_use_resume_each unfolding owns_def by blast
  have w: "waiting ?L y = filter (\<lambda>t. t \<notin> set ?us) (waiting L y)" if "wait_head y" for y
    using waiting_resume_each [OF that] .
  note wm = waiting_map [OF dynamic_okD(4) [OF r(2)]]
  have "waiting ?L (sem_list s) = []" unfolding w [OF wh] by (rule filter_False) blast
  then have e1: "?L (sem_list s) = []" by (subst wm [OF wh]) (simp only: list.map)
  have wh': "wait_head (Sender_head ?ob)" by simp
  have "waiting L (Sender_head ?ob) = []" using on(1) by (simp add: waiting_def map_filter_simps)
  then have "waiting ?L (Sender_head ?ob) = []" unfolding w [OF wh'] by (simp only: filter.simps)
  then have e2: "?L (Sender_head ?ob) = []" by (subst wm [OF wh']) (simp only: list.map)
  have e3: "\<exists>i. x = Container_head i" if "is_head x" "Obj_list ?ob \<in> set (?L x)" for x
    using that on(2) [of x] obj_list_resume_each by blast
  have m: "ab \<in> allocated os (heap_in h ?k)" using own(2) r(3) by simp
  have st: "type (objects ?k ?ob) AND RT_Object_Class_Static = 0" unfolding ty by simp
  obtain os' h' k' where d: "rt_object_delete ?ob h ?k = Some (Returns (), h', k')"
    "dynamic_ok (without (Obj_list ?ob) ?L) os' h' k'" "changes_only ?ob ?k k'" "\<not> live k' ?ob"
    "allocated os' (heap_in h' k') = allocated os (heap_in h ?k) - {ab}"
    using unlink_closed [OF r(2) ob own' m e1 e2 e3 st] by blast
  have "rt_sem_delete s h k = Some (Returns RT_EOK, h', k')"
    using s(2) r(1) d(1) by (simp add: rt_sem_delete_def rt_object_get_type_def rt_object_is_systemobject_def delete_ok_def)
  moreover have "\<not> in_use (without (Obj_list ?ob) ?L) ?ob" using e1 e2 by (auto simp: in_use_def on_list_def)
  moreover have "threads k' = threads ?k" using d(3) by (simp add: changes_only_def same_threads_def)
  then have "thread_state k' t = thread_state ?k t" "threads k' t = threads ?k t" for t
    by (simp_all add: thread_state_def)
  moreover have "waiting (without (Obj_list ?ob) ?L) y = waiting L y" if y: "wait_head y" "y \<noteq> sem_list s" for y
  proof -
    have "set ?us \<inter> set (waiting L y) = {}" using waiting_apart [OF dynamic_okD(4) [OF ok] wh y(1)] y(2) by blast
    then have "waiting ?L y = waiting L y" using waiting_resume_each [OF y(1), of k ?us L] by (auto intro: filter_True)
    moreover have "Obj_list ?ob \<notin> set (?L y)" using e3 [of y] y(1) wait_head_is_head [OF y(1)] by auto
    ultimately show ?thesis by (simp add: waiting_def removeAll_id)
  qed
  moreover have "allocated os' (heap_in h' k') = allocated os (heap_in h k) - {ab}" using d(5) r(3) by simp
  ultimately show ?thesis using d(2,4) resume_each_facts(1,2) by (metis (no_types, lifting))
qed

lemma demo_wait_lists:
  "\<not> on_list is_head (demo_wait_ring (sem_list s)) (Obj_list u)"
  "wait_head y \<Longrightarrow> y \<noteq> sem_list s \<Longrightarrow> demo_wait_ring (sem_list s) y = []"
proof -
  show "\<not> on_list is_head (demo_wait_ring (sem_list s)) (Obj_list u)"
    by (auto simp: on_list_def demo_wait_ring_def block_ring_def start_ring_def wait_ring_def Let_def demo_ring_def
        split: if_splits)
  show "demo_wait_ring (sem_list s) y = []" if "wait_head y" "y \<noteq> sem_list s"
    using that by (subst waiting_map [OF demo_wait_ok that(1)]) simp_all
qed

lemma in_use_demo_wait: "in_use (demo_wait_ring (sem_list s)) u \<Longrightarrow> u = sem_obj s"
  using demo_wait_lists(1) [of s u] demo_wait_lists(2) [of "Suspend_head u" s] demo_wait_lists(2) [of "Sender_head u" s]
  by (auto simp: in_use_def)

theorem rt_sem_delete_releases_witness:
  "\<exists>L' os' h' k'. rt_sem_delete 0x800c demo_used ((demo_wait (sem_list 0x800c))\<lparr>mem := ram demo_used\<rparr>) =
      Some (Returns RT_EOK, h', k') \<and> dynamic_ok L' os' h' k' \<and> allocated os' (heap_in h' k') = {} \<and>
      thread_state k' 2 = RT_THREAD_READY \<and> error (threads k' 2) = - RT_ERROR"
proof -
  let ?x = "sem_list 0x800c" and ?L = "demo_wait_ring (sem_list 0x800c)"
  let ?k = "(demo_wait ?x)\<lparr>mem := ram demo_used\<rparr>"
  have x: "wait_head ?x" by simp
  have o: "objects (demo_wait ?x) (sem_obj s) = objects demo (sem_obj s)" for s
    by (auto simp: demo_wait_def block_thread_def Let_def begin_timer_def take_off_def)
  have t: "type (objects demo (sem_obj s)) = RT_Object_Class_Semaphore" for s
    by (auto simp: demo_def startup_thread_def resume_thread_def stop_timer_def insert_ready_def
        prepare_thread_def boot_def active_def timer_flag_def)
  have p: "heap_ptr demo_used = 0x8000"
    using malloc_mark_heap(3) [OF demo_fresh_ok(1), of 0 1012 100] demo_fresh_ok(2,3)
    by (auto simp: demo_used_def same_heap_def allocated_def)
  have "sem_ok ?L (demo_wait ?x) heap_sem" by (simp add: sem_ok_def ipc_ok_def heap_sem_def)
  then have "heap_free ?L (demo_wait ?x)" using demo_wait_ok [OF x] by (simp add: heap_free_def heap_sem_def)
  then have "heap_free ?L ?k" by simp
  moreover have "in_block demo_used 0x800c (0, 112)" by (simp add: in_block_def p)
  then have "placed ?L {(0, 112)} demo_used" using in_use_demo_wait [of "0x800c"] by (fastforce simp: placed_def)
  ultimately have ok: "dynamic_ok ?L [0, 112, 1012] demo_used ?k" using demo_used_ok by (simp add: dynamic_ok_def)
  have own: "owns ?L demo_used (sem_obj 0x800c) (0, 112)"
    using in_use_demo_wait by (auto simp: owns_def p)
  have ab: "(0, 112) \<in> allocated [0, 112, 1012] (heap_in demo_used ?k)" by (simp add: demo_used_ok(2))
  have ty: "type (objects ?k (sem_obj 0x800c)) = RT_Object_Class_Semaphore" by (simp add: o t)
  have ns: "(0x800c :: nat) \<noteq> heap_sem" by (simp add: heap_sem_def)
  have se: "?L (Sender_head (sem_obj 0x800c)) = []" by (rule demo_wait_lists(2)) simp_all
  have ol: "\<exists>i. x = Container_head i" if "is_head x" "Obj_list (sem_obj 0x800c) \<in> set (?L x)" for x
    using that demo_wait_lists(1) [of "0x800c" "sem_obj 0x800c"] by (auto simp: on_list_def)
  from rt_sem_delete_releases [OF ok ns ty own ab se ol]
  obtain L' os' h' k' where "rt_sem_delete 0x800c demo_used ?k = Some (Returns RT_EOK, h', k')"
    "dynamic_ok L' os' h' k'" "allocated os' (heap_in h' k') = allocated [0, 112, 1012] (heap_in demo_used ?k) - {(0, 112)}"
    "\<forall>t. thread_state k' t = (if t \<in> set (waiting ?L ?x) then RT_THREAD_READY else thread_state ?k t) \<and>
      error (threads k' t) = (if t \<in> set (waiting ?L ?x) then - RT_ERROR else error (threads ?k t))" by blast
  moreover have "2 \<in> set (waiting ?L ?x)" by simp
  moreover have "allocated [0, 112, 1012] (heap_in demo_used ?k) - {(0, 112)} = {}" by (simp add: demo_used_ok(2))
  ultimately show ?thesis by metis
qed

end
