(* ===== verification/Device.thy ===== *)
theory Device
  imports Dynamic
begin

text \<open>
  The device framework \<^verbatim>\<open>components/device/device.c\<close>.  The functions of a driver, the members
  \<^verbatim>\<open>init\<close> to \<^verbatim>\<open>control\<close> of its \<^verbatim>\<open>struct rt_device\<close>, belong to code outside of the kernel: they
  are the parameter \<open>ops\<close>, with \<open>None\<close> for a function that is not there, and may do to the whole
  state what they like.  \<open>'w\<close> is the state of the drivers themselves.  The message that is
  printed when a device cannot be initialised is left out.
\<close>

section \<open>The data\<close>

record rt_device =
  dev_type :: u32
  dev_flag :: u16
  open_flag :: u16
  ref_count :: u8
  device_id :: u8
  rx_indicate :: "nat option"
  tx_complete :: "nat option"
  dev_user_data :: u32

record 'w dstate =
  kern :: kernel
  devs :: "nat \<Rightarrow> rt_device"
  world :: 'w

record 'w rt_device_ops =
  device_init :: "(nat \<Rightarrow> 'w dstate \<Rightarrow> (err \<times> 'w dstate) option) option"
  device_open :: "(nat \<Rightarrow> u16 \<Rightarrow> 'w dstate \<Rightarrow> (err \<times> 'w dstate) option) option"
  device_close :: "(nat \<Rightarrow> 'w dstate \<Rightarrow> (err \<times> 'w dstate) option) option"
  device_read :: "(nat \<Rightarrow> u32 \<Rightarrow> u32 \<Rightarrow> u32 \<Rightarrow> 'w dstate \<Rightarrow> (u32 \<times> 'w dstate) option) option"
  device_write :: "(nat \<Rightarrow> u32 \<Rightarrow> u32 \<Rightarrow> u32 \<Rightarrow> 'w dstate \<Rightarrow> (u32 \<times> 'w dstate) option) option"
  device_control :: "(nat \<Rightarrow> int \<Rightarrow> u32 \<Rightarrow> 'w dstate \<Rightarrow> (err \<times> 'w dstate) option) option"

type_synonym 'w drivers = "nat \<Rightarrow> 'w rt_device_ops"

abbreviation dev_obj :: "nat \<Rightarrow> obj_ptr" where "dev_obj d \<equiv> Obj_device d"

abbreviation upd_dev :: "nat \<Rightarrow> (rt_device \<Rightarrow> rt_device) \<Rightarrow> 'w dstate \<Rightarrow> 'w dstate" where
  "upd_dev d f \<equiv> devs_update (\<lambda>ds. ds(d := f (ds d)))"

abbreviation (input) RT_DEVICE_FLAG_STANDALONE :: u16 where "RT_DEVICE_FLAG_STANDALONE \<equiv> 0x008"
abbreviation (input) RT_DEVICE_FLAG_ACTIVATED :: u16 where "RT_DEVICE_FLAG_ACTIVATED \<equiv> 0x010"
abbreviation (input) RT_DEVICE_OFLAG_CLOSE :: u16 where "RT_DEVICE_OFLAG_CLOSE \<equiv> 0x000"
abbreviation (input) RT_DEVICE_OFLAG_OPEN :: u16 where "RT_DEVICE_OFLAG_OPEN \<equiv> 0x008"
abbreviation (input) RT_DEVICE_OFLAG_MASK :: u16 where "RT_DEVICE_OFLAG_MASK \<equiv> 0xf0f"

section \<open>Registration\<close>

definition rt_device_find :: "char_ptr option \<Rightarrow> kernel \<Rightarrow> (obj_ptr option \<times> kernel) option" where
  "rt_device_find nm k = rt_object_find nm RT_Object_Class_Device k"

text \<open>A NULL pointer for the device is \<open>None\<close>.\<close>

definition rt_device_register ::
  "nat option \<Rightarrow> char_ptr \<Rightarrow> u16 \<Rightarrow> 'w dstate \<Rightarrow> (err \<times> 'w dstate) option" where
  "rt_device_register dev nm flags s = (case dev of None \<Rightarrow> Some (- RT_ERROR, s)
   | Some d \<Rightarrow> do {
       (found, k) \<leftarrow> rt_device_find (Some nm) (kern s);
       let s = s\<lparr>kern := k\<rparr>;
       if found \<noteq> None then Some (- RT_ERROR, s)
       else do {
         k \<leftarrow> rt_object_init (dev_obj d) RT_Object_Class_Device nm (kern s);
         let s = s\<lparr>kern := k\<rparr>;
         let s = upd_dev d (\<lambda>dv. dv\<lparr>dev_flag := flags\<rparr>) s;
         let s = upd_dev d (\<lambda>dv. dv\<lparr>ref_count := 0\<rparr>) s;
         let s = upd_dev d (\<lambda>dv. dv\<lparr>open_flag := 0\<rparr>) s;
         Some (RT_EOK, s)
       }
     })"

definition rt_device_unregister :: "nat \<Rightarrow> 'w dstate \<Rightarrow> (err \<times> 'w dstate) option" where
  "rt_device_unregister d s = do {
     RT_ASSERT (rt_object_get_type (dev_obj d) (kern s) = RT_Object_Class_Device);
     RT_ASSERT (rt_object_is_systemobject (dev_obj d) (kern s));
     Some (RT_EOK, s\<lparr>kern := rt_object_detach (dev_obj d) (kern s)\<rparr>)
   }"

definition rt_device_init_all :: "'w dstate \<Rightarrow> err \<times> 'w dstate" where
  "rt_device_init_all s = (RT_EOK, s)"

section \<open>Creation on the heap\<close>

definition zero_device :: rt_device where
  "zero_device = \<lparr>dev_type = 0, dev_flag = 0, open_flag = 0, ref_count = 0, device_id = 0,
     rx_indicate = None, tx_complete = None, dev_user_data = 0\<rparr>"

text \<open>\<^verbatim>\<open>sizeof(struct rt_device)\<close> is 68, see \<^const>\<open>object_sizes\<close>.\<close>

definition rt_device_create :: "u32 \<Rightarrow> u32 \<Rightarrow> heap \<Rightarrow> 'w dstate \<Rightarrow>
    (nat option heap_call \<times> heap \<times> 'w dstate) option" where
  "rt_device_create ty attach_size h s = do {
     let sz = RT_ALIGN 68 RT_ALIGN_SIZE;
     let attach_size = RT_ALIGN attach_size RT_ALIGN_SIZE;
     let sz = sz + attach_size;
     (r, h, k) \<leftarrow> rt_malloc sz h (kern s);
     let s = s\<lparr>kern := k\<rparr>;
     case r of Waits \<Rightarrow> Some (Waits, h, s)
     | Returns p \<Rightarrow>
         if p \<noteq> 0 then
           let d = unat p;
             k = upd_object (dev_obj d) (\<lambda>_. zero_object) (mem_update (rt_memset p 0 68) (kern s));
             s = upd_dev d (\<lambda>_. zero_device) (s\<lparr>kern := k\<rparr>);
             s = upd_dev d (\<lambda>dv. dv\<lparr>dev_type := ty\<rparr>) s
           in Some (Returns (Some d), h, s)
         else Some (Returns None, h, s)
   }"

definition rt_device_destroy :: "nat \<Rightarrow> heap \<Rightarrow> 'w dstate \<Rightarrow> (unit heap_call \<times> heap \<times> 'w dstate) option" where
  "rt_device_destroy d h s = do {
     RT_ASSERT (rt_object_get_type (dev_obj d) (kern s) = RT_Object_Class_Device);
     RT_ASSERT (\<not> rt_object_is_systemobject (dev_obj d) (kern s));
     let k = rt_object_detach (dev_obj d) (kern s);
     (r, h, k) \<leftarrow> rt_free (of_nat d) h k;
     Some (r, h, s\<lparr>kern := k\<rparr>)
   }"

section \<open>Use\<close>

definition rt_device_init :: "'w drivers \<Rightarrow> nat \<Rightarrow> 'w dstate \<Rightarrow> (err \<times> 'w dstate) option" where
  "rt_device_init ops d s = (case device_init (ops d) of None \<Rightarrow> Some (RT_EOK, s)
   | Some init \<Rightarrow>
       if dev_flag (devs s d) AND RT_DEVICE_FLAG_ACTIVATED = 0 then do {
         (result, s) \<leftarrow> init d s;
         if result \<noteq> RT_EOK then Some (result, s)
         else Some (result, upd_dev d (\<lambda>dv. dv\<lparr>dev_flag := dev_flag dv OR RT_DEVICE_FLAG_ACTIVATED\<rparr>) s)
       } else Some (RT_EOK, s))"

text \<open>The first part of \<^verbatim>\<open>rt_device_open\<close>: \<open>Inl\<close> is a return with an error.\<close>

definition open_activate :: "'w drivers \<Rightarrow> nat \<Rightarrow> 'w dstate \<Rightarrow> ((err + unit) \<times> 'w dstate) option" where
  "open_activate ops d s =
     (if dev_flag (devs s d) AND RT_DEVICE_FLAG_ACTIVATED = 0 then do {
        (result, s) \<leftarrow> (case device_init (ops d) of None \<Rightarrow> Some (RT_EOK, s) | Some init \<Rightarrow> init d s);
        if result \<noteq> RT_EOK then Some (Inl result, s)
        else Some (Inr (), upd_dev d (\<lambda>dv. dv\<lparr>dev_flag := dev_flag dv OR RT_DEVICE_FLAG_ACTIVATED\<rparr>) s)
      } else Some (Inr (), s))"

definition rt_device_open :: "'w drivers \<Rightarrow> nat \<Rightarrow> u16 \<Rightarrow> 'w dstate \<Rightarrow> (err \<times> 'w dstate) option" where
  "rt_device_open ops d oflag s = do {
     RT_ASSERT (rt_object_get_type (dev_obj d) (kern s) = RT_Object_Class_Device);
     (r, s) \<leftarrow> open_activate ops d s;
     case r of Inl result \<Rightarrow> Some (result, s)
     | Inr _ \<Rightarrow>
         if dev_flag (devs s d) AND RT_DEVICE_FLAG_STANDALONE \<noteq> 0 \<and>
            open_flag (devs s d) AND RT_DEVICE_OFLAG_OPEN \<noteq> 0
         then Some (- RT_EBUSY, s)
         else do {
           (result, s) \<leftarrow> (case device_open (ops d) of
               Some opn \<Rightarrow> opn d oflag s
             | None \<Rightarrow> Some (RT_EOK, upd_dev d (\<lambda>dv. dv\<lparr>open_flag := oflag AND RT_DEVICE_OFLAG_MASK\<rparr>) s));
           if result = RT_EOK \<or> result = - RT_ENOSYS then do {
             let s = upd_dev d (\<lambda>dv. dv\<lparr>open_flag := open_flag dv OR RT_DEVICE_OFLAG_OPEN\<rparr>) s;
             let s = upd_dev d (\<lambda>dv. dv\<lparr>ref_count := ref_count dv + 1\<rparr>) s;
             RT_ASSERT (ref_count (devs s d) \<noteq> 0);
             Some (result, s)
           } else Some (result, s)
         }
   }"

definition rt_device_close :: "'w drivers \<Rightarrow> nat \<Rightarrow> 'w dstate \<Rightarrow> (err \<times> 'w dstate) option" where
  "rt_device_close ops d s = do {
     RT_ASSERT (rt_object_get_type (dev_obj d) (kern s) = RT_Object_Class_Device);
     if ref_count (devs s d) = 0 then Some (- RT_ERROR, s)
     else do {
       let s = upd_dev d (\<lambda>dv. dv\<lparr>ref_count := ref_count dv - 1\<rparr>) s;
       if ref_count (devs s d) \<noteq> 0 then Some (RT_EOK, s)
       else do {
         (result, s) \<leftarrow> (case device_close (ops d) of None \<Rightarrow> Some (RT_EOK, s) | Some cls \<Rightarrow> cls d s);
         if result = RT_EOK \<or> result = - RT_ENOSYS
         then Some (result, upd_dev d (\<lambda>dv. dv\<lparr>open_flag := RT_DEVICE_OFLAG_CLOSE\<rparr>) s)
         else Some (result, s)
       }
     }
   }"

definition rt_device_read ::
  "'w drivers \<Rightarrow> nat \<Rightarrow> u32 \<Rightarrow> u32 \<Rightarrow> u32 \<Rightarrow> 'w dstate \<Rightarrow> (u32 \<times> 'w dstate) option" where
  "rt_device_read ops d pos buffer sz s = do {
     RT_ASSERT (rt_object_get_type (dev_obj d) (kern s) = RT_Object_Class_Device);
     if ref_count (devs s d) = 0 then Some (0, s\<lparr>kern := rt_set_errno (- RT_ERROR) (kern s)\<rparr>)
     else case device_read (ops d) of Some rd \<Rightarrow> rd d pos buffer sz s
       | None \<Rightarrow> Some (0, s\<lparr>kern := rt_set_errno (- RT_ENOSYS) (kern s)\<rparr>)
   }"

definition rt_device_write ::
  "'w drivers \<Rightarrow> nat \<Rightarrow> u32 \<Rightarrow> u32 \<Rightarrow> u32 \<Rightarrow> 'w dstate \<Rightarrow> (u32 \<times> 'w dstate) option" where
  "rt_device_write ops d pos buffer sz s = do {
     RT_ASSERT (rt_object_get_type (dev_obj d) (kern s) = RT_Object_Class_Device);
     if ref_count (devs s d) = 0 then Some (0, s\<lparr>kern := rt_set_errno (- RT_ERROR) (kern s)\<rparr>)
     else case device_write (ops d) of Some wr \<Rightarrow> wr d pos buffer sz s
       | None \<Rightarrow> Some (0, s\<lparr>kern := rt_set_errno (- RT_ENOSYS) (kern s)\<rparr>)
   }"

definition rt_device_control :: "'w drivers \<Rightarrow> nat \<Rightarrow> int \<Rightarrow> u32 \<Rightarrow> 'w dstate \<Rightarrow> (err \<times> 'w dstate) option" where
  "rt_device_control ops d cmd arg s = do {
     RT_ASSERT (rt_object_get_type (dev_obj d) (kern s) = RT_Object_Class_Device);
     case device_control (ops d) of Some ctl \<Rightarrow> ctl d cmd arg s
     | None \<Rightarrow> Some (- RT_ENOSYS, s)
   }"

definition rt_device_set_rx_indicate :: "nat \<Rightarrow> nat option \<Rightarrow> 'w dstate \<Rightarrow> (err \<times> 'w dstate) option" where
  "rt_device_set_rx_indicate d rx_ind s = do {
     RT_ASSERT (rt_object_get_type (dev_obj d) (kern s) = RT_Object_Class_Device);
     Some (RT_EOK, upd_dev d (\<lambda>dv. dv\<lparr>rx_indicate := rx_ind\<rparr>) s)
   }"

definition rt_device_set_tx_complete :: "nat \<Rightarrow> nat option \<Rightarrow> 'w dstate \<Rightarrow> (err \<times> 'w dstate) option" where
  "rt_device_set_tx_complete d tx_done s = do {
     RT_ASSERT (rt_object_get_type (dev_obj d) (kern s) = RT_Object_Class_Device);
     Some (RT_EOK, upd_dev d (\<lambda>dv. dv\<lparr>tx_complete := tx_done\<rparr>) s)
   }"

section \<open>A device that is created cannot be destroyed\<close>

text \<open>\<^verbatim>\<open>rt_device_destroy\<close> wants an object of the class of devices that is not static; but registering
  makes a device static, and before and after that it is of no class.\<close>

lemma rt_object_init_type:
  "rt_object_init ob ty nm k = Some k' \<Longrightarrow> type (objects k' ob) = ty OR RT_Object_Class_Static"
  by (auto simp: rt_object_init_def Let_def split: bind_splits if_splits)

lemma rt_device_destroy_fails:
  "rt_device_register (Some d) nm flags s = Some (RT_EOK, s') \<Longrightarrow> rt_device_destroy d h s' = None"
  "rt_device_unregister d s = Some (r, s') \<Longrightarrow> rt_device_destroy d h s' = None"
  "rt_device_create ty n h s = Some (Returns (Some d), h', s') \<Longrightarrow> rt_device_destroy d h' s' = None"
proof -
  have n: "rt_device_destroy d h s = None"
    if "type (objects (kern s) (dev_obj d)) = RT_Object_Class_Device OR RT_Object_Class_Static \<or>
        type (objects (kern s) (dev_obj d)) = 0" for h and s :: "'a dstate"
    using that by (auto simp: rt_device_destroy_def rt_object_get_type_def rt_object_is_systemobject_def)
  show "rt_device_register (Some d) nm flags s = Some (RT_EOK, s') \<Longrightarrow> rt_device_destroy d h s' = None"
    by (rule n) (auto simp: rt_device_register_def Let_def dest!: rt_object_init_type split: bind_splits if_splits)
  show "rt_device_unregister d s = Some (r, s') \<Longrightarrow> rt_device_destroy d h s' = None"
    by (rule n) (auto simp: rt_device_unregister_def rt_object_detach_def Let_def split: bind_splits if_splits)
  show "rt_device_create ty n h s = Some (Returns (Some d), h', s') \<Longrightarrow> rt_device_destroy d h' s' = None"
    by (rule n) (auto simp: rt_device_create_def Let_def zero_object_def split: bind_splits heap_call.splits if_splits)
qed

section \<open>Opening and closing\<close>

text \<open>What the framework relies on: the functions of the driver return, and leave the reference count
  of their device, its class, the bits \<^verbatim>\<open>ACTIVATED\<close> and \<^verbatim>\<open>STANDALONE\<close> of the flag and, unless an
  opening succeeds, the bit \<^verbatim>\<open>OPEN\<close> of the open flag alone.  Their results are arbitrary.\<close>

definition device_flags :: "nat \<Rightarrow> 'w dstate \<Rightarrow> u8 \<times> u8 \<times> bool \<times> bool \<times> bool" where
  "device_flags d s = (rt_object_get_type (dev_obj d) (kern s), ref_count (devs s d),
     dev_flag (devs s d) AND RT_DEVICE_FLAG_ACTIVATED \<noteq> 0, dev_flag (devs s d) AND RT_DEVICE_FLAG_STANDALONE \<noteq> 0,
     open_flag (devs s d) AND RT_DEVICE_OFLAG_OPEN \<noteq> 0)"

definition success :: "err \<Rightarrow> bool" where
  "success r \<longleftrightarrow> r = RT_EOK \<or> r = - RT_ENOSYS"

definition driver_ok :: "'w drivers \<Rightarrow> nat \<Rightarrow> bool" where
  "driver_ok ops d \<longleftrightarrow>
     (\<forall>f s. device_init (ops d) = Some f \<longrightarrow> (\<exists>r s'. f d s = Some (r, s') \<and> device_flags d s' = device_flags d s)) \<and>
     (\<forall>f s fl. device_open (ops d) = Some f \<longrightarrow> (\<exists>r s' opn'. f d fl s = Some (r, s') \<and>
        (case device_flags d s of (ty, n, act, sa, opn) \<Rightarrow>
           device_flags d s' = (ty, n, act, sa, if success r then opn' else opn)))) \<and>
     (\<forall>f s. device_close (ops d) = Some f \<longrightarrow> (\<exists>r s'. f d s = Some (r, s') \<and> device_flags d s' = device_flags d s))"

lemma driver_okD:
  assumes "driver_ok ops d"
  shows "device_init (ops d) = Some f \<Longrightarrow> \<exists>r s'. f d s = Some (r, s') \<and> device_flags d s' = device_flags d s"
    "device_open (ops d) = Some g \<Longrightarrow> \<exists>r s' opn'. g d fl s = Some (r, s') \<and>
       (case device_flags d s of (ty, n, act, sa, opn) \<Rightarrow>
          device_flags d s' = (ty, n, act, sa, if success r then opn' else opn))"
    "device_close (ops d) = Some f \<Longrightarrow> \<exists>r s'. f d s = Some (r, s') \<and> device_flags d s' = device_flags d s"
  using assms by (simp_all add: driver_ok_def)



lemma open_bits:
  "device_flags d s = (ty, n, act, sa, opn) \<Longrightarrow>
     device_flags d (upd_dev d (\<lambda>dv. dv\<lparr>open_flag := open_flag dv OR RT_DEVICE_OFLAG_OPEN, ref_count := ref_count dv + 1\<rparr>) s) =
       (ty, n + 1, act, sa, True)"
  "device_flags d s = (ty, n, act, sa, opn) \<Longrightarrow>
     device_flags d (upd_dev d (\<lambda>dv. dv\<lparr>ref_count := c\<rparr>) s) = (ty, c, act, sa, opn)"
  "device_flags d s = (ty, n, act, sa, opn) \<Longrightarrow>
     device_flags d (upd_dev d (\<lambda>dv. dv\<lparr>open_flag := fl\<rparr>) s) = (ty, n, act, sa, fl AND RT_DEVICE_OFLAG_OPEN \<noteq> 0)"
  by (simp_all add: device_flags_def bit.conj_disj_distrib2)


lemma rt_device_close_flags:
  assumes dr: "driver_ok ops d" and fl: "device_flags d s = (RT_Object_Class_Device, n, act, sa, opn)"
  shows "\<exists>r s' opn'. rt_device_close ops d s = Some (r, s') \<and>
    device_flags d s' = (RT_Object_Class_Device, if n = 0 then 0 else n - 1, act, sa, opn') \<and>
    (n \<noteq> 1 \<longrightarrow> opn' = opn) \<and> (n = 1 \<longrightarrow> opn' = (if success r then False else opn))"
proof -
  have ty: "rt_object_get_type (dev_obj d) (kern s) = RT_Object_Class_Device" "ref_count (devs s d) = n"
    using fl by (simp_all add: device_flags_def)
  let ?s = "upd_dev d (\<lambda>dv. dv\<lparr>ref_count := ref_count dv - 1\<rparr>) s"
  have f1: "device_flags d ?s = (RT_Object_Class_Device, n - 1, act, sa, opn)"
    using open_bits(2) [OF fl, of "n - 1"] ty(2) by (simp add: device_flags_def)
  show ?thesis
  proof (cases "n = 0 \<or> n - 1 \<noteq> 0")
    case True
    then show ?thesis using ty f1 fl by (auto simp: rt_device_close_def Let_def)
  next
    case False
    let ?c = "case device_close (ops d) of None \<Rightarrow> Some (RT_EOK, ?s) | Some cls \<Rightarrow> cls d ?s"
    obtain e s2 where c: "?c = Some (e, s2)" "device_flags d s2 = (RT_Object_Class_Device, n - 1, act, sa, opn)"
      using driver_okD(3) [OF dr, of _ ?s] f1 by (cases "device_close (ops d)") fastforce+
    have "rt_device_close ops d s = (if success e then Some (e, upd_dev d (\<lambda>dv. dv\<lparr>open_flag := RT_DEVICE_OFLAG_CLOSE\<rparr>) s2)
        else Some (e, s2))"
      using ty False c(1) unfolding rt_device_close_def success_def by (auto simp: comp_def)
    then show ?thesis using False c(2) open_bits(3) [OF c(2), of RT_DEVICE_OFLAG_CLOSE] by auto
  qed
qed







text \<open>When the driver fails to close a stand-alone device, its count is 0 but it stays marked as open: it
  can neither be closed nor opened again.\<close>

lemma failed_close_locks:
  assumes dr: "driver_ok ops d" and fl: "device_flags d s = (RT_Object_Class_Device, 1, True, True, True)"
    and c: "rt_device_close ops d s = Some (r, s')" "\<not> success r"
  shows "rt_device_open ops d oflag s' = Some (- RT_EBUSY, s')" "rt_device_close ops d s' = Some (- RT_ERROR, s')"
proof -
  have "device_flags d s' = (RT_Object_Class_Device, 0, True, True, True)"
    using rt_device_close_flags [OF dr fl] c by auto
  then show "rt_device_open ops d oflag s' = Some (- RT_EBUSY, s')" "rt_device_close ops d s' = Some (- RT_ERROR, s')"
    by (auto simp: device_flags_def rt_device_open_def open_activate_def rt_device_close_def)
qed

end
