(* ===== verification/Console.thy ===== *)
theory Console
  imports PrintfText Kernel
begin

text \<open>
  What reaches the console: the characters that \<^verbatim>\<open>rt_kprintf\<close> of \<^verbatim>\<open>src/kservice.c\<close> gives to
  \<^verbatim>\<open>rt_hw_console_output\<close> are the text of its format, as far as it fits into the buffer, with a
  carriage return before each newline.  \<open>kprintf\<close> is a call that adds its characters to the
  output so far, \<open>print_text\<close> what it amounts to.
\<close>

section \<open>The output of one call\<close>

definition console_text :: "u8 list \<Rightarrow> u8 list" where
  "console_text cs = concat (map (\<lambda>c. if c = 10 then [13, c] else [c]) cs)"

lemma console_text_append [simp]: "console_text (xs @ ys) = console_text xs @ console_text ys"
  by (simp add: console_text_def)

lemma console_bytes_text: "console_bytes n cs = console_text (take n cs)"
  by (induction n cs rule: console_bytes.induct) (auto simp: console_text_def)

lemma rt_hw_console_output_text: "rt_hw_console_output s = map_option console_text (c_string s)"
proof (cases "c_string s")
  case None
  then show ?thesis by (simp add: rt_hw_console_output_def rt_strlen_c_string)
next
  case (Some a)
  then have "a = takeWhile (\<lambda>c. c \<noteq> 0) s" by (auto simp: c_string_def split: if_splits)
  then have "take (length a) s = a" by (metis takeWhile_eq_take length_takeWhile_le)
  then show ?thesis using Some by (simp add: rt_hw_console_output_def rt_strlen_c_string console_bytes_text)
qed

text \<open>The characters of a text before the first NUL, and only those that fit into \<^verbatim>\<open>rt_log_buf\<close>.\<close>

definition printed :: "u8 list \<Rightarrow> u8 list" where
  "printed txt = console_text (takeWhile (\<lambda>c. c \<noteq> 0) (take 126 txt))"

lemma c_string_terminated: "c_string (a @ 0 # rest) = Some (takeWhile (\<lambda>c. c \<noteq> 0) a)"
  by (induction a) auto

lemma rt_kprintf_printed:
  assumes "unat lb + 127 < 2 ^ 32" "format_text fmt args = Some txt" "unat lb + length txt < 2 ^ 32"
  shows "\<exists>m'. rt_kprintf lb fmt args m = Some (printed txt, m') \<and> writes_only lb 127 m m'"
proof -
  let ?cs = "clipped 127 txt" and ?t = "take 126 txt"
  let ?m' = "write_bytes lb ?cs m"
  have n: "unat (RT_CONSOLEBUF_SIZE - 1 :: u32) = 127" by simp
  have r: "rt_vsnprintf lb (RT_CONSOLEBUF_SIZE - 1) fmt args m = Some (of_nat (length txt), ?m')"
    using rt_vsnprintf_result [of lb "RT_CONSOLEBUF_SIZE - 1" fmt args "txt" m] assms unfolding n by blast
  have cs: "?cs = ?t @ [0]" "length ?cs \<le> 127" by (simp_all add: clipped_def)
  have "[0..<128] = [0..<length ?cs] @ [length ?cs..<128]"
    using cs(2) upt_add_eq_append [of 0 "length ?cs" "128 - length ?cs"] by simp
  then have "bytes ?m' lb 128 = bytes ?m' lb (length ?cs) @ map (\<lambda>i. ?m' (lb + of_nat i)) [length ?cs..<128]"
    unfolding bytes_def by simp
  also have "bytes ?m' lb (length ?cs) = ?cs" using cs(2) by (intro bytes_write_bytes) simp
  finally have "c_string (bytes ?m' lb 128) = Some (takeWhile (\<lambda>c. c \<noteq> 0) ?t)"
    using c_string_terminated [of ?t] unfolding cs(1) by simp
  then have "rt_kprintf lb fmt args m = Some (printed txt, ?m')"
    using r by (simp add: rt_kprintf_def rt_hw_console_output_text printed_def)
  moreover have "writes_only lb 127 m ?m'"
    using writes_only_write_bytes [of lb ?cs m] cs(2) assms(1) by (auto simp: region_def writes_only_def)
  ultimately show ?thesis by blast
qed

section \<open>Calls that print\<close>

text \<open>String literals of the code.\<close>

definition c_text :: "string \<Rightarrow> u8 list" where
  "c_text s = map of_char s"

definition c_str :: "string \<Rightarrow> char_ptr" where
  "c_str s = c_text s @ [0]"

text \<open>The output so far and the state of the kernel, whose memory holds \<^verbatim>\<open>rt_log_buf\<close> at the
  address \<open>lb\<close>.\<close>

type_synonym con = "u8 list \<times> kernel"

fun kprintf :: "u32 \<Rightarrow> string \<Rightarrow> va_list \<Rightarrow> con \<Rightarrow> con option" where
  "kprintf lb fmt args (out, k) = do {
     (cs, m) \<leftarrow> rt_kprintf lb (c_str fmt) args (mem k);
     Some (out @ cs, k\<lparr>mem := m\<rparr>)
   }"

text \<open>A string literal as an argument: its address is not NULL.\<close>

definition str_arg :: "string \<Rightarrow> va" where
  "str_arg s = Va_ptr 1 (c_str s)"

text \<open>\<open>__DATE__\<close> is a parameter.\<close>

definition rt_show_version :: "u32 \<Rightarrow> string \<Rightarrow> con \<Rightarrow> con option" where
  "rt_show_version lb date con = do {
     con \<leftarrow> kprintf lb (''\<newline> '' @ CHR 0x5C # '' | /\<newline>'') [] con;
     con \<leftarrow> kprintf lb ''- RT -     Thread Operating System\<newline>'' [] con;
     con \<leftarrow> kprintf lb ('' / | '' @ CHR 0x5C # ''     %d.%d.%d build %s\<newline>'') [Va_int 3, Va_int 1, Va_int 5, str_arg date] con;
     kprintf lb '' 2006 - 2020 Copyright by rt-thread team\<newline>'' [] con
   }"

text \<open>A call prints its text and changes nothing but the memory of the buffer.\<close>

definition prints :: "(con \<Rightarrow> con option) \<Rightarrow> kernel \<Rightarrow> u8 list \<Rightarrow> bool" where
  "prints f k txt \<longleftrightarrow> (\<forall>out m. \<exists>m'. f (out, k\<lparr>mem := m\<rparr>) = Some (out @ txt, k\<lparr>mem := m'\<rparr>))"

lemma prints_seq:
  assumes "prints f k x" "prints g k y"
  shows "prints (\<lambda>con. do { con \<leftarrow> f con; g con }) k (x @ y)"
  unfolding prints_def
proof (intro allI)
  fix out m
  obtain m1 where "f (out, k\<lparr>mem := m\<rparr>) = Some (out @ x, k\<lparr>mem := m1\<rparr>)" using assms(1) unfolding prints_def by blast
  moreover obtain m2 where "g (out @ x, k\<lparr>mem := m1\<rparr>) = Some ((out @ x) @ y, k\<lparr>mem := m2\<rparr>)"
    using assms(2) unfolding prints_def by blast
  ultimately show "\<exists>m'. do { con \<leftarrow> f (out, k\<lparr>mem := m\<rparr>); g con } = Some (out @ x @ y, k\<lparr>mem := m'\<rparr>)" by auto
qed

lemma prints_Some: "prints Some k []"
  by (auto simp: prints_def)

lemma kprintf_prints:
  assumes "unat lb + 127 < 2 ^ 32" "format_text (c_str fmt) args = Some txt" "unat lb + length txt < 2 ^ 32"
  shows "prints (kprintf lb fmt args) k (printed txt)"
  unfolding prints_def
proof (intro allI)
  fix out m
  obtain m' where "rt_kprintf lb (c_str fmt) args m = Some (printed txt, m')"
    using rt_kprintf_printed [OF assms] by blast
  then show "\<exists>m'. kprintf lb fmt args (out, k\<lparr>mem := m\<rparr>) = Some (out @ printed txt, k\<lparr>mem := m'\<rparr>)" by auto
qed

lemma prints_cong: "prints f k x \<Longrightarrow> (\<And>out m. g (out, k\<lparr>mem := m\<rparr>) = f (out, k\<lparr>mem := m\<rparr>)) \<Longrightarrow> prints g k x"
  by (simp add: prints_def)

section \<open>The text of a literal\<close>

text \<open>A format literal, piece by piece.\<close>

declare format_text.simps [simp del]

lemma format_end: "format_text (0 # fmt) args = Some []"
  by (simp add: format_text.simps)

lemma format_char:
  "c \<noteq> 0 \<Longrightarrow> c \<noteq> ch_percent \<Longrightarrow> format_text (c # fmt) args = map_option ((#) c) (format_text fmt args)"
  by (simp add: format_text.simps)

lemma format_directive:
  "directive_text fmt args = Some (fmt', args', txt) \<Longrightarrow>
     format_text (ch_percent # fmt) args = map_option ((@) txt) (format_text fmt' args')"
  by (simp add: format_text.simps)

lemmas directive_eval = directive_text_def ISDIGIT_def integer_text_def integer_value_def field_text_def
  string_text_def Let_def RT_NAME_MAX_def

lemma decimal_number_text: "number_text n 10 (- 1) (- 1) SIGN = decimal_text n"
  using format_text_d [of n] by (simp add: format_text.simps directive_text_def ISDIGIT_def integer_text_def integer_value_def)

lemma format_decimal:
  "format_text (37 # 100 # rest) (Va_int x # args) = map_option ((@) (decimal_text x)) (format_text rest args)"
  by (rule format_directive) (simp add: directive_eval decimal_number_text)

lemma format_string:
  "a \<noteq> 0 \<Longrightarrow> 0 \<in> set s \<Longrightarrow> format_text (37 # 115 # rest) (Va_ptr a s # args) =
     map_option ((@) (takeWhile (\<lambda>c. c \<noteq> 0) s)) (format_text rest args)"
  by (rule format_directive) (simp add: directive_eval)

lemmas format_eval = format_end format_char format_decimal format_string

text \<open>The buffer lies in front of the end of the address space, far enough for the longest line.\<close>

abbreviation log_buf :: "u32 \<Rightarrow> bool" where "log_buf lb \<equiv> unat lb + 255 < 2 ^ 32"

lemma kprintf_prints_text:
  assumes "log_buf lb" "format_text (c_str fmt) args = Some txt" "length txt \<le> 255"
  shows "prints (kprintf lb fmt args) k (printed txt)"
  using assms by (intro kprintf_prints) simp_all

end
