(* ===== verification/Cmd.thy ===== *)
theory Cmd
  imports Console Device Msh Clock
begin

text \<open>
  The commands of the shell that print tables of kernel objects: \<^verbatim>\<open>components/finsh/cmd.c\<close>,
  \<^verbatim>\<open>msh_help\<close>, \<^verbatim>\<open>cmd_ps\<close> and \<^verbatim>\<open>cmd_free\<close> of \<^verbatim>\<open>msh.c\<close> and \<^verbatim>\<open>list_mem\<close> of \<^verbatim>\<open>src/mem.c\<close>.
  A command maps the output so far and the kernel to the output and the kernel after it; nothing
  else runs in between.  \<^verbatim>\<open>lb\<close> is the address of \<^verbatim>\<open>rt_log_buf\<close>.
\<close>

section \<open>Walking through a container\<close>

definition LIST_FIND_OBJ_NR :: nat where "LIST_FIND_OBJ_NR = 8"

definition hello :: "u32 \<Rightarrow> con \<Rightarrow> con option" where
  "hello lb con = kprintf lb ''Hello RT-Thread!\<newline>'' [] con"

definition version :: "u32 \<Rightarrow> string \<Rightarrow> con \<Rightarrow> con option" where
  "version lb date con = rt_show_version lb date con"

fun object_split :: "u32 \<Rightarrow> nat \<Rightarrow> con \<Rightarrow> con option" where
  "object_split lb 0 con = Some con"
| "object_split lb (Suc len) con = do { con \<leftarrow> kprintf lb ''-'' [] con; object_split lb len con }"

text \<open>The members of \<^verbatim>\<open>list_get_next_t\<close> that do not change: \<open>list\<close>, \<open>type\<close> and \<open>nr\<close>.\<close>

type_synonym list_get_next_t = "node \<times> u8 \<times> nat"

definition list_find_init :: "u8 \<Rightarrow> nat \<Rightarrow> list_get_next_t option" where
  "list_find_init ty nr = do {
     info \<leftarrow> rt_object_get_information ty;
     Some (Container_head info, ty, nr)
   }"

text \<open>The loop of \<^verbatim>\<open>list_get_next\<close>, with the number of entries that are left in the array: the node to go
  on with, \<open>None\<close> for NULL, and the entries.\<close>

fun get_nodes :: "node \<Rightarrow> nat \<Rightarrow> node \<Rightarrow> kernel \<Rightarrow> node option \<times> node list" where
  "get_nodes list 0 node k = (Some node, [])"
| "get_nodes list (Suc left) node k = (let
     node = nxt (lists k) node
   in if node = list then (None, [])
      else if left = 0 then (Some node, [node])
      else let (next, array) = get_nodes list left node k in (next, node # array))"

definition list_get_next ::
  "node option \<Rightarrow> list_get_next_t \<Rightarrow> kernel \<Rightarrow> (node option \<times> node list) option" where
  "list_get_next current arg k = (case arg of (list, ty, nr) \<Rightarrow>
     if nr = 0 \<or> ty = 0 then Some (None, [])
     else case current of None \<Rightarrow> Some (get_nodes list nr list k)
       | Some node \<Rightarrow> do {
           obj \<leftarrow> object_entry node;
           if rt_object_get_type obj k \<noteq> ty then Some (None, []) else Some (get_nodes list nr node k)
         })"

text \<open>The loop that every \<^verbatim>\<open>list_\<close> command repeats, for the body \<open>visit\<close> that prints an object.  An object
  that is gone by now is left out.\<close>

fun visit_nodes :: "u8 \<Rightarrow> (obj_ptr \<Rightarrow> con \<Rightarrow> con option) \<Rightarrow> node list \<Rightarrow> con \<Rightarrow> con option" where
  "visit_nodes ty visit [] con = Some con"
| "visit_nodes ty visit (n # ns) con = do {
     obj \<leftarrow> object_entry n;
     con \<leftarrow> if rt_object_get_type obj (snd con) \<noteq> ty then Some con else visit obj con;
     visit_nodes ty visit ns con
   }"

partial_function (option) list_loop ::
  "list_get_next_t \<Rightarrow> (obj_ptr \<Rightarrow> con \<Rightarrow> con option) \<Rightarrow> node option \<Rightarrow> con \<Rightarrow> con option" where
  "list_loop arg visit next con = do {
     (next, array) \<leftarrow> list_get_next next arg (snd con);
     con \<leftarrow> visit_nodes (fst (snd arg)) visit array con;
     if next \<noteq> None then list_loop arg visit next con else Some con
   }"

definition list_objects :: "u8 \<Rightarrow> (obj_ptr \<Rightarrow> con \<Rightarrow> con option) \<Rightarrow> con \<Rightarrow> con option" where
  "list_objects ty visit con = do {
     arg \<leftarrow> list_find_init ty LIST_FIND_OBJ_NR;
     list_loop arg visit None con
   }"

text \<open>The head of a table: \<open>title\<close> is the format of the first line, \<open>line\<close> the text under it.\<close>

definition list_head :: "u32 \<Rightarrow> string \<Rightarrow> string \<Rightarrow> string \<Rightarrow> con \<Rightarrow> con option" where
  "list_head lb title item_title line con = do {
     let maxlen = RT_NAME_MAX;
     con \<leftarrow> kprintf lb title [Va_int (of_nat maxlen), str_arg item_title] con;
     con \<leftarrow> object_split lb maxlen con;
     kprintf lb line [] con
   }"

section \<open>The tables\<close>

text \<open>The argument for the name of an object, which does not lie at NULL.  Behind the characters of the name lie the type and the
  flag of the object.\<close>

definition name_arg :: "kernel \<Rightarrow> obj_ptr \<Rightarrow> va" where
  "name_arg k ob = (let obj = objects k ob in
     Va_ptr 1 (name obj @ [type obj, flag obj]))"

abbreviation name_width :: u32 where "name_width \<equiv> of_nat RT_NAME_MAX"

text \<open>The first byte of a stack that is not \<open>#\<close>.\<close>

partial_function (option) stack_top :: "u32 \<Rightarrow> memory \<Rightarrow> u32 option" where
  "stack_top ptr m = (if m ptr = 35 then stack_top (ptr + 1) m else Some ptr)"

definition thread_status :: "u8 \<Rightarrow> string option" where
  "thread_status st =
     (if st = RT_THREAD_READY then Some '' ready  ''
      else if st = RT_THREAD_SUSPEND then Some '' suspend''
      else if st = RT_THREAD_INIT then Some '' init   ''
      else if st = RT_THREAD_CLOSE then Some '' close  ''
      else if st = 0x03 then Some '' running''
      else None)"

fun thread_line :: "u32 \<Rightarrow> obj_ptr \<Rightarrow> con \<Rightarrow> con option" where
  "thread_line lb (Obj_thread t) con = do {
     let th = threads (snd con) t;
     con \<leftarrow> kprintf lb ''%-*.*s %3d '' [Va_int name_width, Va_int name_width, name_arg (snd con) (Obj_thread t),
       Va_int (ucast (current_priority th))] con;
     con \<leftarrow> (case thread_status (stat th AND RT_THREAD_STAT_MASK) of None \<Rightarrow> Some con
       | Some txt \<Rightarrow> kprintf lb txt [] con);
     ptr \<leftarrow> stack_top (stack_addr th) (mem (snd con));
     RT_ASSERT (stack_size th \<noteq> 0);
     kprintf lb '' 0x%08x 0x%08x    %02d%%   0x%08x %03d\<newline>''
       [Va_int (stack_size th + (stack_addr th - sp th)), Va_int (stack_size th),
        Va_int ((stack_size th - (ptr - stack_addr th)) * 100 div stack_size th),
        Va_int (remaining_tick th), Va_int (word_of_int (error th))] con
   }"
| "thread_line lb _ con = None"

definition list_thread :: "u32 \<Rightarrow> con \<Rightarrow> con option" where
  "list_thread lb con = do {
     con \<leftarrow> list_head lb ''%-*.s pri  status      sp     stack size max used left tick  error\<newline>'' ''thread''
       '' ---  ------- ---------- ----------  ------  ---------- ---\<newline>'' con;
     list_objects RT_Object_Class_Thread (thread_line lb) con
   }"

partial_function (option) wait_queue_from :: "u32 \<Rightarrow> node \<Rightarrow> node \<Rightarrow> con \<Rightarrow> con option" where
  "wait_queue_from lb list node con =
     (if node = list then Some con
      else do {
        thread \<leftarrow> thread_entry node;
        con \<leftarrow> kprintf lb ''%s'' [name_arg (snd con) (Obj_thread thread)] con;
        con \<leftarrow> if nxt (lists (snd con)) node \<noteq> list then kprintf lb ''/'' [] con else Some con;
        wait_queue_from lb list (nxt (lists (snd con)) node) con
      })"

definition show_wait_queue :: "u32 \<Rightarrow> node \<Rightarrow> con \<Rightarrow> con option" where
  "show_wait_queue lb list con = wait_queue_from lb list (nxt (lists (snd con)) list) con"

text \<open>The end of the line of an object that threads can wait for: with waiting threads the format \<open>busy\<close>
  and the queue, otherwise the format \<open>free\<close>.\<close>

definition wait_line :: "u32 \<Rightarrow> obj_ptr \<Rightarrow> string \<Rightarrow> va_list \<Rightarrow> string \<Rightarrow> va_list \<Rightarrow> con \<Rightarrow> con option" where
  "wait_line lb ob busy busy_args free free_args con =
     (let args = [Va_int name_width, Va_int name_width, name_arg (snd con) ob]
      in if \<not> rt_list_isempty (Suspend_head ob) (lists (snd con)) then do {
           con \<leftarrow> kprintf lb busy (args @ busy_args) con;
           con \<leftarrow> show_wait_queue lb (Suspend_head ob) con;
           kprintf lb ''\<newline>'' [] con
         } else kprintf lb free (args @ free_args) con)"

definition wait_len :: "obj_ptr \<Rightarrow> con \<Rightarrow> u32 option" where
  "wait_len ob con = map_option of_nat (rt_list_len (Suspend_head ob) (lists (snd con)))"

fun sem_line :: "u32 \<Rightarrow> obj_ptr \<Rightarrow> con \<Rightarrow> con option" where
  "sem_line lb (Obj_sem s) con = do {
     n \<leftarrow> wait_len (sem_obj s) con;
     let args = [Va_int (ucast (sem_value (sems (snd con) s))), Va_int n];
     wait_line lb (sem_obj s) ''%-*.*s %03d %d:'' args ''%-*.*s %03d %d\<newline>'' args con
   }"
| "sem_line lb _ con = None"

definition list_sem :: "u32 \<Rightarrow> con \<Rightarrow> con option" where
  "list_sem lb con = do {
     con \<leftarrow> list_head lb ''%-*.s v   suspend thread\<newline>'' ''semaphore'' '' --- --------------\<newline>'' con;
     list_objects RT_Object_Class_Semaphore (sem_line lb) con
   }"

fun event_line :: "u32 \<Rightarrow> obj_ptr \<Rightarrow> con \<Rightarrow> con option" where
  "event_line lb (Obj_event e) con = do {
     n \<leftarrow> wait_len (event_obj e) con;
     let v = Va_int (event_bits (events (snd con) e));
     wait_line lb (event_obj e) ''%-*.*s  0x%08x %03d:'' [v, Va_int n] ''%-*.*s  0x%08x 0\<newline>'' [v] con
   }"
| "event_line lb _ con = None"

definition list_event :: "u32 \<Rightarrow> con \<Rightarrow> con option" where
  "list_event lb con = do {
     con \<leftarrow> list_head lb ''%-*.s      set    suspend thread\<newline>'' ''event'' ''  ---------- --------------\<newline>'' con;
     list_objects RT_Object_Class_Event (event_line lb) con
   }"

text \<open>The name of the owner is read through a null pointer when the mutex is free.\<close>

fun mutex_line :: "u32 \<Rightarrow> obj_ptr \<Rightarrow> con \<Rightarrow> con option" where
  "mutex_line lb (Obj_mutex m) con = do {
     let mx = mutexes (snd con) m;
     n \<leftarrow> wait_len (mutex_obj m) con;
     t \<leftarrow> owner mx;
     kprintf lb ''%-*.*s %-8.*s %04d %d\<newline>'' [Va_int name_width, Va_int name_width, name_arg (snd con) (mutex_obj m),
       Va_int name_width, name_arg (snd con) (Obj_thread t), Va_int (ucast (hold mx)), Va_int n] con
   }"
| "mutex_line lb _ con = None"

definition list_mutex :: "u32 \<Rightarrow> con \<Rightarrow> con option" where
  "list_mutex lb con = do {
     con \<leftarrow> list_head lb ''%-*.s   owner  hold suspend thread\<newline>'' ''mutex'' '' -------- ---- --------------\<newline>'' con;
     list_objects RT_Object_Class_Mutex (mutex_line lb) con
   }"

fun mailbox_line :: "u32 \<Rightarrow> obj_ptr \<Rightarrow> con \<Rightarrow> con option" where
  "mailbox_line lb (Obj_mb b) con = do {
     n \<leftarrow> wait_len (mb_obj b) con;
     let mb = mailboxes (snd con) b;
     let args = [Va_int (ucast (mb_entry mb)), Va_int (ucast (mb_size mb)), Va_int n];
     wait_line lb (mb_obj b) ''%-*.*s %04d  %04d %d:'' args ''%-*.*s %04d  %04d %d\<newline>'' args con
   }"
| "mailbox_line lb _ con = None"

definition list_mailbox :: "u32 \<Rightarrow> con \<Rightarrow> con option" where
  "list_mailbox lb con = do {
     con \<leftarrow> list_head lb ''%-*.s entry size suspend thread\<newline>'' ''mailbox'' '' ----  ---- --------------\<newline>'' con;
     list_objects RT_Object_Class_MailBox (mailbox_line lb) con
   }"

fun msgqueue_line :: "u32 \<Rightarrow> obj_ptr \<Rightarrow> con \<Rightarrow> con option" where
  "msgqueue_line lb (Obj_mq q) con = do {
     n \<leftarrow> wait_len (mq_obj q) con;
     let args = [Va_int (ucast (mq_entry (mqs (snd con) q))), Va_int n];
     wait_line lb (mq_obj q) ''%-*.*s %04d  %d:'' args ''%-*.*s %04d  %d\<newline>'' args con
   }"
| "msgqueue_line lb _ con = None"

definition list_msgqueue :: "u32 \<Rightarrow> con \<Rightarrow> con option" where
  "list_msgqueue lb con = do {
     con \<leftarrow> list_head lb ''%-*.s entry suspend thread\<newline>'' ''msgqueue'' '' ----  --------------\<newline>'' con;
     list_objects RT_Object_Class_MessageQueue (msgqueue_line lb) con
   }"

text \<open>The line of a memory pool depends on the number of waiting threads that it has counted.\<close>

fun mempool_line :: "u32 \<Rightarrow> obj_ptr \<Rightarrow> con \<Rightarrow> con option" where
  "mempool_line lb (Obj_mempool p) con = do {
     n \<leftarrow> wait_len (mp_obj p) con;
     let mp = mempools (snd con) p;
     let args = [Va_int name_width, Va_int name_width, name_arg (snd con) (mp_obj p),
       Va_int (block_size mp), Va_int (block_total_count mp), Va_int (block_free_count mp), Va_int n];
     if 0 <s n then do {
       con \<leftarrow> kprintf lb ''%-*.*s %04d  %04d  %04d %d:'' args con;
       con \<leftarrow> show_wait_queue lb (mp_list p) con;
       kprintf lb ''\<newline>'' [] con
     } else kprintf lb ''%-*.*s %04d  %04d  %04d %d\<newline>'' args con
   }"
| "mempool_line lb _ con = None"

definition list_mempool :: "u32 \<Rightarrow> con \<Rightarrow> con option" where
  "list_mempool lb con = do {
     con \<leftarrow> list_head lb ''%-*.s block total free suspend thread\<newline>'' ''mempool''
       '' ----  ----  ---- --------------\<newline>'' con;
     list_objects RT_Object_Class_MemPool (mempool_line lb) con
   }"

fun timer_line :: "u32 \<Rightarrow> obj_ptr \<Rightarrow> con \<Rightarrow> con option" where
  "timer_line lb (Obj_timer t) con = do {
     let tm = timers (snd con) t;
     con \<leftarrow> kprintf lb ''%-*.*s 0x%08x 0x%08x '' [Va_int name_width, Va_int name_width,
       name_arg (snd con) (Obj_timer t), Va_int (init_tick tm), Va_int (timeout_tick tm)] con;
     if flag (objects (snd con) (Obj_timer t)) AND RT_TIMER_FLAG_ACTIVATED \<noteq> 0
     then kprintf lb ''activated\<newline>'' [] con else kprintf lb ''deactivated\<newline>'' [] con
   }"
| "timer_line lb _ con = None"

definition list_timer :: "u32 \<Rightarrow> con \<Rightarrow> con option" where
  "list_timer lb con = do {
     con \<leftarrow> list_head lb ''%-*.s  periodic   timeout       flag\<newline>'' ''timer''
       '' ---------- ---------- -----------\<newline>'' con;
     con \<leftarrow> list_objects RT_Object_Class_Timer (timer_line lb) con;
     kprintf lb ''current tick:0x%08x\<newline>'' [Va_int (rt_tick_get (snd con))] con
   }"

definition device_type_str :: "string list" where
  "device_type_str = [''Character Device'', ''Block Device'', ''Network Interface'', ''MTD Device'', ''CAN Device'',
     ''RTC'', ''Sound Device'', ''Graphic Device'', ''I2C Bus'', ''USB Slave Device'', ''USB Host Bus'',
     ''SPI Bus'', ''SPI Device'', ''SDIO Bus'', ''PM Pseudo Device'', ''Pipe'', ''Portal Device'',
     ''Timer Device'', ''Miscellaneous Device'', ''Sensor Device'', ''Touch Device'', ''Unknown'']"

fun device_line :: "u32 \<Rightarrow> (nat \<Rightarrow> rt_device) \<Rightarrow> obj_ptr \<Rightarrow> con \<Rightarrow> con option" where
  "device_line lb ds (Obj_device d) con =
     kprintf lb ''%-*.*s %-20s %-8d\<newline>'' [Va_int name_width, Va_int name_width, name_arg (snd con) (dev_obj d),
       str_arg (device_type_str ! (if dev_type (ds d) \<le> 21 then unat (dev_type (ds d)) else 21)),
       Va_int (ucast (ref_count (ds d)))] con"
| "device_line lb ds _ con = None"

definition list_device :: "u32 \<Rightarrow> (nat \<Rightarrow> rt_device) \<Rightarrow> con \<Rightarrow> con option" where
  "list_device lb ds con = do {
     con \<leftarrow> list_head lb ''%-*.s         type         ref count\<newline>'' ''device''
       '' -------------------- ----------\<newline>'' con;
     list_objects RT_Object_Class_Device (device_line lb ds) con
   }"

definition list_mem :: "u32 \<Rightarrow> heap \<Rightarrow> con \<Rightarrow> con option" where
  "list_mem lb h con = do {
     con \<leftarrow> kprintf lb ''total memory: %d\<newline>'' [Va_int (mem_size_aligned h)] con;
     con \<leftarrow> kprintf lb ''used memory : %d\<newline>'' [Va_int (used_mem h)] con;
     kprintf lb ''maximum allocated memory: %d\<newline>'' [Va_int (max_mem h)] con
   }"

section \<open>The table of commands\<close>

text \<open>The name and the description of each entry of \<^verbatim>\<open>_syscall_table\<close>.\<close>

fun list_syms :: "u32 \<Rightarrow> (char_ptr \<times> char_ptr) list \<Rightarrow> con \<Rightarrow> con option" where
  "list_syms lb [] con = Some con"
| "list_syms lb ((nm, desc) # table) con = do {
     r \<leftarrow> rt_strncmp nm (c_str ''__'') 2;
     con \<leftarrow> if r = 0 then Some con else kprintf lb ''%-16s -- %s\<newline>'' [Va_ptr 1 nm, Va_ptr 1 desc] con;
     list_syms lb table con
   }"

definition list_cmd :: "u32 \<Rightarrow> (char_ptr \<times> char_ptr) list \<Rightarrow> con \<Rightarrow> con option" where
  "list_cmd lb table con = do {
     con \<leftarrow> kprintf lb ''--Function List:\<newline>'' [] con;
     list_syms lb table con
   }"

fun help_syms :: "u32 \<Rightarrow> (char_ptr \<times> char_ptr) list \<Rightarrow> con \<Rightarrow> con option" where
  "help_syms lb [] con = Some con"
| "help_syms lb ((nm, desc) # table) con = do {
     r \<leftarrow> rt_strncmp nm (c_str ''__cmd_'') 6;
     con \<leftarrow> if r \<noteq> 0 then Some con else kprintf lb ''%-16s - %s\<newline>'' [Va_ptr 1 (drop 6 nm), Va_ptr 1 desc] con;
     help_syms lb table con
   }"

definition msh_help :: "u32 \<Rightarrow> (char_ptr \<times> char_ptr) list \<Rightarrow> con \<Rightarrow> con option" where
  "msh_help lb table con = do {
     con \<leftarrow> kprintf lb ''RT-Thread shell commands:\<newline>'' [] con;
     con \<leftarrow> help_syms lb table con;
     kprintf lb ''\<newline>'' [] con
   }"

definition cmd_ps :: "u32 \<Rightarrow> con \<Rightarrow> con option" where
  "cmd_ps lb con = list_thread lb con"

definition cmd_free :: "u32 \<Rightarrow> heap \<Rightarrow> con \<Rightarrow> con option" where
  "cmd_free lb h con = list_mem lb h con"

end
