(* ===== verification/CmdText.thy ===== *)
theory CmdText
  imports Cmd Lifecycle
begin

text \<open>
  What the commands of \<open>Cmd\<close> print.  The loop that a \<^verbatim>\<open>list_\<close> command runs over batches of
  \<^verbatim>\<open>LIST_FIND_OBJ_NR\<close> objects visits every object of the container once, in the order of the
  list; on it rest the exact texts of \<^verbatim>\<open>list_timer\<close> and \<^verbatim>\<open>list_sem\<close>.
\<close>

section \<open>The loop over batches\<close>

lemma get_nodes_dll:
  assumes "dll (lists k) x (as @ bs)" "0 < n"
  shows "get_nodes x n (last (x # as)) k = (if length bs < n then None else Some (bs ! (n - 1)), take n bs)"
  using assms
proof (induction n arbitrary: as bs)
  case (Suc n)
  have nx: "nxt (lists k) (last (x # as)) = hd (bs @ [x])"
  proof (cases as rule: rev_cases)
    case (snoc as' a)
    then show ?thesis using dll_next_mem [of "lists k" x as' a bs] Suc.prems(1) by simp
  qed (use dll_next Suc.prems(1) in simp)
  show ?case
  proof (cases bs)
    case (Cons b bs')
    moreover have "b \<noteq> x" using Suc.prems(1) Cons by (auto simp: dll_def)
    moreover have "get_nodes x n b k = (if length bs' < n then None else Some (bs' ! (n - 1)), take n bs')" if "0 < n"
      using Suc.IH [of "as @ [b]" bs'] Suc.prems(1) Cons that by simp
    ultimately show ?thesis unfolding get_nodes.simps Let_def nx by (cases "n = 0") (auto simp: nth_Cons')
  qed (simp only: get_nodes.simps Let_def nx, simp)
qed simp

text \<open>An object of the class \<open>ty\<close> whose visit prints \<open>txt ob\<close>.\<close>

definition visited :: "u8 \<Rightarrow> (obj_ptr \<Rightarrow> con \<Rightarrow> con option) \<Rightarrow> (obj_ptr \<Rightarrow> u8 list) \<Rightarrow> kernel \<Rightarrow> obj_ptr \<Rightarrow> bool" where
  "visited ty visit txt k ob \<longleftrightarrow> rt_object_get_type ob k = ty \<and> prints (visit ob) k (txt ob)"

lemma rt_object_get_type_mem [simp]: "rt_object_get_type ob (k\<lparr>mem := m\<rparr>) = rt_object_get_type ob k"
  by (simp add: rt_object_get_type_def)

lemma get_nodes_mem [simp]: "get_nodes x n node (k\<lparr>mem := m\<rparr>) = get_nodes x n node k"
  by (induction x n node k rule: get_nodes.induct) (simp_all add: Let_def)

lemma list_get_next_mem [simp]: "list_get_next cur arg (k\<lparr>mem := m\<rparr>) = list_get_next cur arg k"
  by (auto simp: list_get_next_def split: prod.splits option.splits bind_split)

lemma visit_nodes_prints:
  "\<forall>ob \<in> set obs. visited ty visit txt k ob \<Longrightarrow>
     prints (visit_nodes ty visit (map Obj_list obs)) k (concat (map txt obs))"
proof (induction obs)
  case (Cons ob obs)
  then have v: "rt_object_get_type ob k = ty" "prints (visit ob) k (txt ob)" by (simp_all add: visited_def)
  have "prints (visit_nodes ty visit (map Obj_list obs)) k (concat (map txt obs))" using Cons by simp
  from prints_seq [OF v(2) this] show ?case
    unfolding list.map concat.simps by (rule prints_cong) (simp add: v(1))
qed (auto simp: prints_def)

lemma list_loop_prints:
  assumes "dll (lists k) x (map Obj_list (as @ bs))" "\<forall>ob \<in> set (as @ bs). visited ty visit txt k ob"
    and "ty \<noteq> 0" "0 < nr"
  shows "prints (list_loop (x, ty, nr) visit (if as = [] then None else Some (Obj_list (last as)))) k
    (concat (map txt bs))"
  using assms
proof (induction bs arbitrary: as rule: length_induct)
  case (1 bs)
  let ?cur = "if as = [] then None else Some (Obj_list (last as))"
  let ?as' = "as @ take nr bs" and ?bs' = "drop nr bs"
  let ?next = "if length bs < nr then None else Some (Obj_list (bs ! (nr - 1)))"
  have "get_nodes x nr (last (x # map Obj_list as)) k = (?next, map Obj_list (take nr bs))"
    using get_nodes_dll [of k x "map Obj_list as" "map Obj_list bs" nr] 1(2,5) by (simp add: take_map)
  then have g: "list_get_next ?cur (x, ty, nr) k = Some (?next, map Obj_list (take nr bs))"
    using 1(3-5) by (cases as rule: rev_cases) (auto simp: list_get_next_def visited_def last_map)
  have v: "prints (visit_nodes ty visit (map Obj_list (take nr bs))) k (concat (map txt (take nr bs)))"
    using 1(3) by (intro visit_nodes_prints) (auto dest: in_set_takeD)
  show ?case
  proof (cases "length bs < nr")
    case True
    have "concat (map txt (take nr bs)) = concat (map txt bs)" using True by simp
    with v have v: "prints (visit_nodes ty visit (map Obj_list (take nr bs))) k (concat (map txt bs))" by simp
    from prints_seq [OF v prints_Some] show ?thesis
      unfolding append_Nil2 by (rule prints_cong, subst list_loop.simps) (simp add: g True)
  next
    case False
    then have l: "length ?bs' < length bs" "?as' \<noteq> []" "last ?as' = bs ! (nr - 1)"
      using 1(5) by (auto simp: last_append last_conv_nth)
    then have cur: "(if ?as' = [] then None else Some (Obj_list (last ?as'))) = ?next" using False by simp
    have "prints (list_loop (x, ty, nr) visit ?next) k (concat (map txt ?bs'))"
      using 1(1) [rule_format, OF l(1), of ?as', unfolded cur] 1(2-5)
      by (auto simp only: append_assoc append_take_drop_id)
    from prints_seq [OF v this] have "prints (\<lambda>con. visit_nodes ty visit (map Obj_list (take nr bs)) con \<bind>
        list_loop (x, ty, nr) visit ?next) k (concat (map txt bs))"
      by (metis append_take_drop_id concat_append map_append)
    then show ?thesis by (rule prints_cong, subst list_loop.simps) (simp add: g False)
  qed
qed

text \<open>A container holds the objects of its class.\<close>

lemma container_class:
  assumes "containers_ok L k" "rt_object_get_information ty = Some i" "ob \<in> set (container L i)"
  shows "object_class ob = ty"
  using containers_ok_member(1) [OF assms(1,3)] assms(2) get_information_from_nth [of ty 0 rt_object_container i]
    get_information_from_nth [of "object_class ob" 0 rt_object_container i]
  by (simp add: rt_object_get_information_def)

lemma list_objects_prints:
  assumes c: "containers_ok L k" and i: "rt_object_get_information ty = Some i"
    and "\<And>ob. ob \<in> set (container L i) \<Longrightarrow> prints (visit ob) k (txt ob)"
  shows "prints (list_objects ty visit) k (concat (map txt (container L i)))"
proof -
  have ty: "ty \<noteq> 0" using i by (auto simp: rt_object_get_information_def rt_object_container_def)
  have "rt_object_get_type ob k = ty" if "ob \<in> set (container L i)" for ob
    using container_class [OF c i that] containers_ok_member(2) [OF c that] by (simp add: live_def)
  then have "\<forall>ob \<in> set ([] @ container L i). visited ty visit txt k ob" using assms(3) by (simp add: visited_def)
  from list_loop_prints [OF _ this ty, of "Container_head i" LIST_FIND_OBJ_NR] containers_ok_dll [OF c, of i]
  have "prints (list_loop (Container_head i, ty, LIST_FIND_OBJ_NR) visit None) k (concat (map txt (container L i)))"
    by (simp add: LIST_FIND_OBJ_NR_def)
  then show ?thesis by (rule prints_cong) (simp add: list_objects_def list_find_init_def i)
qed

section \<open>The texts of the fields\<close>

text \<open>\<open>%08x\<close>, \<open>%03d\<close>, and \<open>%-*.*s\<close> of a name: the name without the NULs that fill it up, and blanks.\<close>

definition hex8 :: "u32 \<Rightarrow> u8 list" where
  "hex8 n = number_text n 16 8 (- 1) ZEROPAD"

definition dec3 :: "u32 \<Rightarrow> u8 list" where
  "dec3 n = number_text n 10 3 (- 1) (ZEROPAD OR SIGN)"

definition name_column :: "u8 list \<Rightarrow> u8 list" where
  "name_column nm = (let txt = takeWhile (\<lambda>c. c \<noteq> 0) (take RT_NAME_MAX nm)
   in txt @ replicate (RT_NAME_MAX - length txt) ch_space)"

lemma takeWhile_take: "take n (takeWhile P xs) = takeWhile P (take n xs)"
  by (induction xs arbitrary: n) (auto simp: take_Cons')

lemma length_name_column [simp]: "length (name_column nm) = RT_NAME_MAX"
proof -
  have "length (takeWhile (\<lambda>c. c \<noteq> 0) (take RT_NAME_MAX nm)) \<le> RT_NAME_MAX"
    by (rule le_trans [OF length_takeWhile_le]) simp
  then show ?thesis by (simp add: name_column_def Let_def)
qed

lemma length_number_text:
  assumes "2 \<le> k" "\<And>n :: u32. unat n < printed_base b ^ k" "precision = - 1" "0 \<le> width"
  shows "length (number_text n b width precision fl) \<le> k + 1 + nat width"
proof -
  let ?d = "if fl AND LARGE \<noteq> 0 then large_digits else small_digits"
  obtain sg v where s: "number_sign n fl = (sg, v)" by (cases "number_sign n fl")
  then have sg: "length sg \<le> 1" by (auto simp: number_sign_def split: if_splits)
  have "length (digit_text ?d (printed_base b) (unat v)) \<le> k"
    using assms(1,2) by (intro length_digit_text) (simp_all add: printed_base_def)
  then show ?thesis using sg assms(3,4) unfolding number_text_def s by (auto simp: Let_def)
qed

lemma length_hex8: "length (hex8 n) \<le> 17"
  using length_number_text [of 8 16 "- 1" 8 n ZEROPAD] unsigned_less [where 'b = 32 and 'a = nat]
  by (simp add: hex8_def printed_base_def)

lemma length_dec3: "length (dec3 n) \<le> 14"
proof -
  have "unat w < 10 ^ 10" for w :: u32 using unsigned_less [of w, where 'a = nat] by simp
  then show ?thesis using length_number_text [of 10 10 "- 1" 3 n "ZEROPAD OR SIGN"]
    by (simp add: dec3_def printed_base_def)
qed

lemma format_hex8:
  "format_text (37 # 48 # 56 # 120 # rest) (Va_int x # args) = map_option ((@) (hex8 x)) (format_text rest args)"
  by (rule format_directive) (simp add: directive_eval hex8_def)

lemma format_dec3:
  "format_text (37 # 48 # 51 # 100 # rest) (Va_int x # args) = map_option ((@) (dec3 x)) (format_text rest args)"
  by (rule format_directive) (simp add: directive_eval dec3_def)

lemma format_title:
  "0 \<in> set s \<Longrightarrow> format_text (37 # 45 # 42 # 46 # 115 # rest) (Va_int name_width # Va_ptr 1 s # args) =
     map_option ((@) (name_column s)) (format_text rest args)"
  by (rule format_directive) (simp add: directive_eval takeWhile_take name_column_def)

lemma format_name:
  "a \<noteq> 0 \<Longrightarrow> RT_NAME_MAX \<le> length nm \<Longrightarrow>
     format_text (37 # 45 # 42 # 46 # 42 # 115 # rest) (Va_int name_width # Va_int name_width # Va_ptr a nm # args) =
       map_option ((@) (name_column nm)) (format_text rest args)"
  by (rule format_directive) (simp add: directive_eval takeWhile_take name_column_def)

lemmas field_eval = format_eval format_hex8 format_dec3 format_title format_name

section \<open>Tables\<close>

lemma object_split_prints:
  assumes "log_buf lb"
  shows "prints (object_split lb n) k (replicate n 45)"
proof (induction n)
  case (Suc n)
  have "prints (kprintf lb ''-'' []) k (printed [45])"
    using assms by (intro kprintf_prints_text) (simp_all add: c_str_def c_text_def field_eval)
  moreover have "printed [45] = [45]" by (simp add: printed_def console_text_def)
  ultimately have "prints (kprintf lb ''-'' []) k [45]" by simp
  from prints_seq [OF this Suc.IH] show ?case by simp
qed (auto simp: prints_def)

lemma list_head_prints:
  assumes "log_buf lb" "format_text (c_str fmt) [Va_int name_width, str_arg item_title] = Some a"
    and "format_text (c_str line) [] = Some b" "length a \<le> 255" "length b \<le> 255"
  shows "prints (list_head lb fmt item_title line) k (printed a @ replicate RT_NAME_MAX 45 @ printed b)"
proof -
  have "prints (kprintf lb fmt [Va_int name_width, str_arg item_title]) k (printed a)"
    "prints (object_split lb RT_NAME_MAX) k (replicate RT_NAME_MAX 45)" "prints (kprintf lb line []) k (printed b)"
    using assms by (simp_all add: kprintf_prints_text object_split_prints)
  from prints_seq [OF this(1) prints_seq [OF this(2,3)]] show ?thesis
    by (rule prints_cong) (simp add: list_head_def)
qed

lemma container_index:
  "rt_object_get_information RT_Object_Class_Semaphore = Some 1"
  "rt_object_get_information RT_Object_Class_Timer = Some 9"
  by (simp_all add: rt_object_get_information_def rt_object_container_def)

lemma dashes: "c_text ''--------'' = replicate RT_NAME_MAX 45"
  by (simp add: c_text_def RT_NAME_MAX_def numeral_eq_Suc)

text \<open>The names of the columns.\<close>

lemma replicate_3: "replicate 3 x = [x, x, x]"
  by (simp add: numeral_eq_Suc)

lemma titles:
  "name_column [116, 105, 109, 101, 114, 0] = [116, 105, 109, 101, 114, 32, 32, 32]"
  "name_column [115, 101, 109, 97, 112, 104, 111, 114, 101, 0] = [115, 101, 109, 97, 112, 104, 111, 114]"
  by (simp_all add: name_column_def RT_NAME_MAX_def replicate_3)

lemmas title_eval = c_str_def c_text_def str_arg_def field_eval titles

text \<open>The line of a timer.\<close>

definition timer_row :: "kernel \<Rightarrow> obj_ptr \<Rightarrow> u8 list" where
  "timer_row k ob = (case ob of Obj_timer t \<Rightarrow>
     printed (name_column (name (objects k ob)) @ c_text '' 0x'' @ hex8 (init_tick (timers k t)) @
       c_text '' 0x'' @ hex8 (timeout_tick (timers k t)) @ c_text '' '') @
     printed (c_text (if active k t then ''activated\<newline>'' else ''deactivated\<newline>''))
   | _ \<Rightarrow> [])"

definition timer_head :: "u8 list" where
  "timer_head = printed (c_text ''timer     periodic   timeout       flag\<newline>'') @ c_text ''--------'' @
     printed (c_text '' ---------- ---------- -----------\<newline>'')"

definition has_name :: "kernel \<Rightarrow> obj_ptr \<Rightarrow> bool" where
  "has_name k ob \<longleftrightarrow> length (name (objects k ob)) = RT_NAME_MAX"

lemma name_column_append [simp]: "RT_NAME_MAX \<le> length a \<Longrightarrow> name_column (a @ b) = name_column a"
  by (simp add: name_column_def)

lemma timer_line_prints:
  assumes "log_buf lb" "has_name k (Obj_timer t)"
  shows "prints (timer_line lb (Obj_timer t)) k (timer_row k (Obj_timer t))"
proof -
  let ?x = "hex8 (init_tick (timers k t))" and ?y = "hex8 (timeout_tick (timers k t))"
  let ?nm = "name (objects k (Obj_timer t))" and ?z = "if active k t then ''activated\<newline>'' else ''deactivated\<newline>''"
  let ?txt = "name_column ?nm @ c_text '' 0x'' @ ?x @ c_text '' 0x'' @ ?y @ c_text '' ''"
  let ?args = "[Va_int name_width, Va_int name_width, name_arg k (Obj_timer t), Va_int (init_tick (timers k t)),
    Va_int (timeout_tick (timers k t))]"
  have f: "format_text (c_str ''%-*.*s 0x%08x 0x%08x '') ?args = Some ?txt"
    using assms(2) by (simp add: c_str_def c_text_def field_eval name_arg_def Let_def has_name_def)
  have "length ?txt \<le> 255" using length_hex8 [of "init_tick (timers k t)"] length_hex8 [of "timeout_tick (timers k t)"]
    by (simp add: c_text_def RT_NAME_MAX_def)
  from kprintf_prints_text [OF assms(1) f this]
  have p: "prints (kprintf lb ''%-*.*s 0x%08x 0x%08x '' ?args) k (printed ?txt)" .
  have "prints (kprintf lb ?z []) k (printed (c_text ?z))"
    using assms(1) by (intro kprintf_prints_text) (simp_all add: c_str_def c_text_def field_eval)
  from prints_seq [OF p this] have "prints (\<lambda>con. kprintf lb ''%-*.*s 0x%08x 0x%08x '' ?args con \<bind> kprintf lb ?z [])
      k (timer_row k (Obj_timer t))" by (simp add: timer_row_def)
  moreover have "timer_line lb (Obj_timer t) (out, k\<lparr>mem := m\<rparr>) =
      kprintf lb ''%-*.*s 0x%08x 0x%08x '' ?args (out, k\<lparr>mem := m\<rparr>) \<bind> kprintf lb ?z []" for out m
    by (auto simp: name_arg_def Let_def active_def timer_flag_def split: bind_splits)
  ultimately show ?thesis by (rule prints_cong)
qed

text \<open>The line of a semaphore: with waiting threads, their names follow the number of them.\<close>

fun queue_text :: "kernel \<Rightarrow> tid list \<Rightarrow> u8 list" where
  "queue_text k [] = []"
| "queue_text k (t # ts) = printed (takeWhile (\<lambda>c. c \<noteq> 0) (name (objects k (Obj_thread t)))) @
     (if ts = [] then [] else printed [47]) @ queue_text k ts"

definition sem_row :: "(node \<Rightarrow> node list) \<Rightarrow> kernel \<Rightarrow> obj_ptr \<Rightarrow> u8 list" where
  "sem_row L k ob = (case ob of Obj_sem s \<Rightarrow> (let ts = waiting L (sem_list s) in
     printed (name_column (name (objects k ob)) @ c_text '' '' @ dec3 (ucast (sem_value (sems k s))) @ c_text '' '' @
       decimal_text (of_nat (length ts)) @ c_text (if ts = [] then ''\<newline>'' else '':'')) @
     queue_text k ts @ (if ts = [] then [] else printed [10]))
   | _ \<Rightarrow> [])"

definition sem_head :: "u8 list" where
  "sem_head = printed (c_text ''semaphor v   suspend thread\<newline>'') @ c_text ''--------'' @
     printed (c_text '' --- --------------\<newline>'')"

lemma takeWhile_append_mem: "0 \<in> set a \<Longrightarrow> takeWhile (\<lambda>c. c \<noteq> 0) (a @ b) = takeWhile (\<lambda>c. c \<noteq> (0 :: u8)) a"
  by (induction a) auto

lemma wait_queue_prints:
  assumes "log_buf lb" "dll (lists k) x (as @ map Tlist ts)"
    and "\<forall>t \<in> set ts. has_name k (Obj_thread t) \<and> 0 \<in> set (name (objects k (Obj_thread t)))"
  shows "prints (wait_queue_from lb x (hd (map Tlist ts @ [x]))) k (queue_text k ts)"
  using assms(2,3)
proof (induction ts arbitrary: as)
  case Nil
  then show ?case by (simp add: prints_def) (subst wait_queue_from.simps, auto)
next
  case (Cons t ts)
  let ?nm = "name (objects k (Obj_thread t))" and ?c = "if ts \<noteq> [] then kprintf lb ''/'' [] else Some"
  define nd where "nd = hd (map Tlist ts @ [x])"
  have nx: "nxt (lists k) (Tlist t) = nd"
    unfolding nd_def using Cons.prems(1) by (intro dll_next_mem [of _ x as]) simp
  have ne: "Tlist t \<noteq> x" "nd = x \<longleftrightarrow> ts = []"
    unfolding nd_def using Cons.prems(1) by (cases ts; auto simp: dll_def)+
  have q: "prints (wait_queue_from lb x nd) k (queue_text k ts)"
    unfolding nd_def using Cons.IH [of "as @ [Tlist t]"] Cons.prems by simp
  have nm: "length (takeWhile (\<lambda>c. c \<noteq> 0) ?nm) \<le> 8" "0 \<in> set ?nm"
    using Cons.prems(2) length_takeWhile_le [of "\<lambda>c. c \<noteq> 0" ?nm] by (auto simp: has_name_def RT_NAME_MAX_def)
  have p: "prints (kprintf lb ''%s'' [name_arg k (Obj_thread t)]) k (printed (takeWhile (\<lambda>c. c \<noteq> 0) ?nm))"
    using nm by (intro kprintf_prints_text [OF assms(1)])
      (simp_all add: c_str_def c_text_def field_eval name_arg_def Let_def takeWhile_append_mem)
  have c: "prints ?c k (if ts = [] then [] else printed [47])"
    using kprintf_prints_text [OF assms(1), of "''/''" "[]" "[47]"]
    by (auto simp: prints_Some c_str_def c_text_def field_eval)
  from prints_seq [OF p prints_seq [OF c q]] show ?case
    unfolding queue_text.simps list.map append_Cons list.sel
    by (rule prints_cong, subst wait_queue_from.simps)
       (auto simp: ne nx name_arg_def Let_def split: bind_splits)
qed

lemma wait_line_prints:
  assumes lb: "log_buf lb" and d: "dll (lists k) (Suspend_head ob) (map Tlist ts)"
    and ts: "\<forall>t \<in> set ts. has_name k (Obj_thread t) \<and> 0 \<in> set (name (objects k (Obj_thread t)))"
    and "format_text (c_str busy) ([Va_int name_width, Va_int name_width, name_arg k ob] @ busy_args) = Some a"
      "length a \<le> 255"
    and "format_text (c_str free) ([Va_int name_width, Va_int name_width, name_arg k ob] @ free_args) = Some b"
      "length b \<le> 255"
  shows "prints (wait_line lb ob busy busy_args free free_args) k
    (if ts = [] then printed b else printed a @ queue_text k ts @ printed [10])"
proof -
  let ?args = "[Va_int name_width, Va_int name_width, name_arg k ob]"
  have e: "rt_list_isempty (Suspend_head ob) (lists k) \<longleftrightarrow> ts = []" using dll_isempty [OF d] by simp
  have n: "nxt (lists k) (Suspend_head ob) = hd (map Tlist ts @ [Suspend_head ob])" by (rule dll_next [OF d])
  have b: "prints (kprintf lb busy (?args @ busy_args)) k (printed a)" "prints (kprintf lb free (?args @ free_args)) k (printed b)"
    by (rule kprintf_prints_text; fact)+
  have "prints (wait_queue_from lb (Suspend_head ob) (hd (map Tlist ts @ [Suspend_head ob]))) k (queue_text k ts)"
    using wait_queue_prints [OF lb, of k "Suspend_head ob" "[]"] d ts by simp
  then have q: "prints (show_wait_queue lb (Suspend_head ob)) k (queue_text k ts)"
    by (rule prints_cong) (simp add: show_wait_queue_def n)
  have nl: "prints (kprintf lb ''\<newline>'' []) k (printed [10])"
    by (rule kprintf_prints_text [OF lb]) (simp_all add: c_str_def c_text_def field_eval)
  show ?thesis
  proof (cases "ts = []")
    case True
    then show ?thesis using b(2) by (simp, elim prints_cong) (simp add: wait_line_def Let_def e name_arg_def)
  next
    case False
    then show ?thesis using prints_seq [OF b(1) prints_seq [OF q nl]]
      by (simp, elim prints_cong) (simp add: wait_line_def Let_def e name_arg_def)
  qed
qed

lemma sem_line_prints:
  assumes lb: "log_buf lb" and nm: "has_name k (sem_obj s)" and k: "kernel_ok L k"
    and ts: "\<forall>t \<in> set (waiting L (sem_list s)).
      has_name k (Obj_thread t) \<and> 0 \<in> set (name (objects k (Obj_thread t)))"
  shows "prints (sem_line lb (sem_obj s)) k (sem_row L k (sem_obj s))"
proof -
  define ts where "ts = waiting L (sem_list s)"
  define v n where "v = (ucast (sem_value (sems k s)) :: u32)" and "n = (of_nat (length ts) :: u32)"
  let ?txt = "\<lambda>c. name_column (name (objects k (sem_obj s))) @ 32 # dec3 v @ 32 # decimal_text n @ [c]"
  have d: "dll (lists k) (sem_list s) (map Tlist ts)"
    unfolding ts_def waiting_map [OF k wait_head_Suspend, symmetric]
    using k rings_dll [of is_head "lists k" L "sem_list s"] by (simp add: kernel_ok_def queue_ok_def)
  have len: "length (?txt c) \<le> 255" for c
    using length_dec3 [of v] length_decimal_text [of n] by (simp add: RT_NAME_MAX_def)
  have "format_text (c_str ''%-*.*s %03d %d:'') ([Va_int name_width, Va_int name_width, name_arg k (sem_obj s)] @
      [Va_int v, Va_int n]) = Some (?txt 58)"
    "format_text (c_str ''%-*.*s %03d %d\<newline>'') ([Va_int name_width, Va_int name_width, name_arg k (sem_obj s)] @
      [Va_int v, Va_int n]) = Some (?txt 10)"
    using nm by (simp_all add: c_str_def c_text_def field_eval name_arg_def Let_def has_name_def)
  note p = wait_line_prints [OF lb d ts [folded ts_def] this(1) len this(2) len]
  have "sem_row L k (sem_obj s) =
      (if ts = [] then printed (?txt 10) else printed (?txt 58) @ queue_text k ts @ printed [10])"
    by (simp add: sem_row_def ts_def [symmetric] v_def n_def c_text_def)
  then show ?thesis
    using p by (simp only:) (erule prints_cong, simp add: wait_len_def rt_list_len_dll [OF d] v_def n_def Let_def)
qed

text \<open>\<open>list_timer\<close> prints its title, then one line for every timer in the container - the name cut or
  filled up to eight characters, the period, the time of expiry and the state - in the order of the list although the
  command reads the list in batches of eight, then the current tick; it changes nothing but the bytes of the
  output buffer.\<close>

theorem list_timer_table:
  assumes "log_buf lb" "containers_ok L k"
  shows "\<exists>m'. list_timer lb (out, k) = Some (out @ timer_head @ concat (map (timer_row k) (container L 9)) @
    printed (c_text ''current tick:0x'' @ hex8 (rt_tick k) @ [10]), k\<lparr>mem := m'\<rparr>)"
proof -
  have row: "prints (timer_line lb ob) k (timer_row k ob)" if ob: "ob \<in> set (container L 9)" for ob
  proof -
    obtain a where "named k ob a" using containers_ok_member(3) [OF assms(2) ob] by blast
    then have "has_name k ob" by (simp add: has_name_def named_def)
    moreover obtain t where "ob = Obj_timer t"
      using container_class [OF assms(2) container_index(2) ob] by (cases ob) simp_all
    ultimately show ?thesis using timer_line_prints assms(1) by blast
  qed
  have head: "prints (list_head lb ''%-*.s  periodic   timeout       flag\<newline>'' ''timer''
      '' ---------- ---------- -----------\<newline>'') k timer_head"
    unfolding timer_head_def dashes by (rule list_head_prints [OF assms(1)]) (simp_all add: title_eval)
  have "format_text (c_str ''current tick:0x%08x\<newline>'') [Va_int (rt_tick k)] =
      Some (c_text ''current tick:0x'' @ hex8 (rt_tick k) @ [10])"
    by (simp add: c_str_def c_text_def field_eval)
  moreover have "length (c_text ''current tick:0x'' @ hex8 (rt_tick k) @ [10]) \<le> 255"
    using length_hex8 [of "rt_tick k"] by (simp add: c_text_def)
  ultimately have "prints (kprintf lb ''current tick:0x%08x\<newline>'' [Va_int (rt_tick k)]) k
      (printed (c_text ''current tick:0x'' @ hex8 (rt_tick k) @ [10]))"
    by (rule kprintf_prints_text [OF assms(1)])
  then have tick: "prints (\<lambda>con. kprintf lb ''current tick:0x%08x\<newline>'' [Va_int (rt_tick_get (snd con))] con) k
      (printed (c_text ''current tick:0x'' @ hex8 (rt_tick k) @ [10]))"
    by (rule prints_cong) (simp add: rt_tick_get_def)
  have objs: "prints (list_objects RT_Object_Class_Timer (timer_line lb)) k (concat (map (timer_row k) (container L 9)))"
    by (rule list_objects_prints [OF assms(2) container_index(2) row])
  from prints_seq [OF head prints_seq [OF objs tick]] have "prints (list_timer lb) k (timer_head @
      concat (map (timer_row k) (container L 9)) @ printed (c_text ''current tick:0x'' @ hex8 (rt_tick k) @ [10]))"
    by (rule prints_cong) (simp add: list_timer_def)
  from this [unfolded prints_def, rule_format, of out "mem k"] show ?thesis by simp
qed

text \<open>C34: In a state that satisfies the invariants, and when every thread that waits for a semaphore has a
  name of less than 8 characters (its field of \<^verbatim>\<open>RT_NAME_MAX\<close> bytes holds a NUL), \<open>list_sem\<close> prints
  its title, then one line for every semaphore in the container - name, value,
  the number of waiting threads and, when there are any, their names in the order in which they will be woken,
  separated by slashes - and changes nothing but the bytes of the output buffer.  (Of a waiting thread
  whose name fills its field, the code prints the bytes behind the field as well; the names of the
  semaphores may fill theirs.)\<close>

theorem list_sem_table:
  assumes "log_buf lb" "kernel_ok L k" "containers_ok L k"
    and "\<forall>s. \<forall>t \<in> set (waiting L (sem_list s)).
      has_name k (Obj_thread t) \<and> 0 \<in> set (name (objects k (Obj_thread t)))"
  shows "\<exists>m'. list_sem lb (out, k) =
    Some (out @ sem_head @ concat (map (sem_row L k) (container L 1)), k\<lparr>mem := m'\<rparr>)"
proof -
  have row: "prints (sem_line lb ob) k (sem_row L k ob)" if ob: "ob \<in> set (container L 1)" for ob
  proof -
    obtain a where "named k ob a" using containers_ok_member(3) [OF assms(3) ob] by blast
    then have "has_name k ob" by (simp add: has_name_def named_def)
    moreover obtain s where "ob = sem_obj s"
      using container_class [OF assms(3) container_index(1) ob] by (cases ob) simp_all
    ultimately show ?thesis using sem_line_prints [OF assms(1) _ assms(2)] assms(4) by blast
  qed
  have head: "prints (list_head lb ''%-*.s v   suspend thread\<newline>'' ''semaphore'' '' --- --------------\<newline>'') k sem_head"
    unfolding sem_head_def dashes by (rule list_head_prints [OF assms(1)]) (simp_all add: title_eval)
  have objs: "prints (list_objects RT_Object_Class_Semaphore (sem_line lb)) k
      (concat (map (sem_row L k) (container L 1)))"
    by (rule list_objects_prints [OF assms(3) container_index(1) row])
  from prints_seq [OF head objs]
  have "prints (list_sem lb) k (sem_head @ concat (map (sem_row L k) (container L 1)))"
    by (rule prints_cong) (simp add: list_sem_def)
  from this [unfolded prints_def, rule_format, of out "mem k"] show ?thesis by simp
qed

text \<open>Thread 2 waits for the semaphore \<open>s1\<close>.\<close>

definition sem_demo :: kernel where
  "sem_demo = init_object (sem_obj 8) 1 [115, 49] (demo_wait (sem_list 8))"

definition sem_demo_ring :: "node \<Rightarrow> node list" where
  "sem_demo_ring = (demo_wait_ring (sem_list 8))(Container_head 1 := [Obj_list (sem_obj 8)])"

lemma demo_wait_object: "objects (demo_wait (sem_list 8)) (Obj_thread t) = \<lparr>name = replicate 8 0, type = 1, flag = 0\<rparr>"
  by (auto simp: demo_wait_def block_thread_def Let_def begin_timer_def take_off_def demo_def startup_thread_def
      resume_thread_def stop_timer_def insert_ready_def prepare_thread_def boot_def active_def timer_flag_def)

lemma sem_demo_facts:
  "containers_ok sem_demo_ring sem_demo" "kernel_ok sem_demo_ring sem_demo"
  "container sem_demo_ring 1 = [sem_obj 8]"
  "waiting sem_demo_ring (sem_list s) = (if s = 8 then [2] else [])"
  "objects sem_demo (Obj_thread t) = \<lparr>name = replicate 8 0, type = 1, flag = 0\<rparr>"
proof -
  let ?x = "sem_list 8" and ?L = "demo_wait_ring (sem_list 8)"
  have x: "wait_head ?x" by simp
  have e: "?L (Container_head i) = []" for i
    by (simp add: demo_wait_ring_def block_ring_def start_ring_def wait_ring_def Let_def demo_ring_def)
  have fresh: "\<not> on_list is_head ?L (Obj_list (sem_obj 8))" by (rule demo_wait_lists(1))
  have r: "rings is_head (lists (demo_wait ?x)) ?L" using demo_wait_ok [OF x] by (simp add: kernel_ok_def queue_ok_def)
  then have c: "containers_ok ?L (demo_wait ?x)" by (simp add: containers_ok_def e)
  show "containers_ok sem_demo_ring sem_demo"
    using containers_ok_init_object [OF c _ fresh, of 1 "[115, 49]"] container_index
    by (simp add: sem_demo_def sem_demo_ring_def e)
  show "kernel_ok sem_demo_ring sem_demo"
    using kernel_ok_add [OF demo_wait_ok [OF x] _ _ fresh, of sem_demo 1]
    by (simp add: sem_demo_def sem_demo_ring_def e init_object_def same_threads_def)
  show "container sem_demo_ring 1 = [sem_obj 8]" by (simp add: container_def sem_demo_ring_def map_filter_simps)
  show "waiting sem_demo_ring (sem_list s) = (if s = 8 then [2] else [])"
    using demo_wait_waiting [OF x, of "sem_list s"] by (simp add: sem_demo_ring_def waiting_def)
  show "objects sem_demo (Obj_thread t) = \<lparr>name = replicate 8 0, type = 1, flag = 0\<rparr>"
    by (simp add: sem_demo_def init_object_def demo_wait_object)
qed

theorem list_sem_table_witness:
  "\<exists>m'. list_sem 0x1000 ([], sem_demo) =
    Some (sem_head @ sem_row sem_demo_ring sem_demo (sem_obj 8), sem_demo\<lparr>mem := m'\<rparr>)"
  using list_sem_table [of "0x1000" sem_demo_ring sem_demo "[]"] sem_demo_facts
  by (simp add: has_name_def RT_NAME_MAX_def)

end
