(* ===== verification/Board.thy ===== *)
theory Board
  imports KMem
begin

text \<open>
  The board \<^verbatim>\<open>bsp/tang-nano-9k\<close>: the registers of \<^verbatim>\<open>tang9k.h\<close> and the functions of \<^verbatim>\<open>tang9k.c\<close>
  that access them, and \<^verbatim>\<open>reset_data\<close>, \<^verbatim>\<open>uart_init\<close> and \<^verbatim>\<open>ostick_config\<close> of \<^verbatim>\<open>board.c\<close>.  The
  registers are a record of their own, apart from the memory.  What the devices do between two
  accesses of the CPU is a parameter \<open>hw\<close> of the loops that wait for them.
\<close>

section \<open>Registers\<close>

record board =
  debug_char :: u32      \<comment> \<open>\<^verbatim>\<open>Core_Debug_Char_Port\<close>\<close>
  debug_assert :: u32    \<comment> \<open>\<^verbatim>\<open>Core_Debug_Assert_Port\<close>\<close>
  mie :: u32
  mip :: u32
  mtime :: u32
  mtimeh :: u32
  mtimecmp :: u32
  mtimecmph :: u32
  baudcmp :: u32
  send_data :: u32
  status :: u32
  read_data :: u32

abbreviation (input) Core_Debug_Assert_OK :: u32 where "Core_Debug_Assert_OK \<equiv> 0x7F"
abbreviation (input) Core_Debug_Assert_Unexpected :: u32 where "Core_Debug_Assert_Unexpected \<equiv> 0x7C"
abbreviation (input) Core_Interrupt_Enable_System_Timer :: u32 where "Core_Interrupt_Enable_System_Timer \<equiv> 0x80"
abbreviation (input) UART_Status_Sending :: u32 where "UART_Status_Sending \<equiv> 1"
abbreviation (input) UART_Status_Received :: u32 where "UART_Status_Received \<equiv> 2"
abbreviation (input) SystemCoreClock :: u32 where "SystemCoreClock \<equiv> 2700000"

definition Core_Debug_Transmit :: "u32 \<Rightarrow> board \<Rightarrow> board" where
  "Core_Debug_Transmit ch b = b\<lparr>debug_char := ch\<rparr>"

definition Core_Debug_Assert :: "u32 \<Rightarrow> board \<Rightarrow> board" where
  "Core_Debug_Assert assertion b =
     b\<lparr>debug_assert := if assertion \<noteq> 0 then Core_Debug_Assert_OK else Core_Debug_Assert_Unexpected\<rparr>"

definition Core_Interrupt_Enable_SetBits :: "u32 \<Rightarrow> board \<Rightarrow> board" where
  "Core_Interrupt_Enable_SetBits bits b = b\<lparr>mie := mie b OR bits\<rparr>"

definition Core_Interrupt_Enable_ResetBits :: "u32 \<Rightarrow> board \<Rightarrow> board" where
  "Core_Interrupt_Enable_ResetBits bits b = b\<lparr>mie := mie b AND NOT bits\<rparr>"

definition Core_Interrupt_Enable_Get :: "board \<Rightarrow> u32" where
  "Core_Interrupt_Enable_Get b = mie b"

definition Core_Interrupt_Pending_Get :: "board \<Rightarrow> u32" where
  "Core_Interrupt_Pending_Get b = mip b"

section \<open>The system timer\<close>

text \<open>The two halves of a register of 64 bits are written and read one after the other.\<close>

definition System_Timer_Set_Time :: "u64 \<Rightarrow> board \<Rightarrow> board" where
  "System_Timer_Set_Time val b = (let
     b = b\<lparr>mtime := ucast val\<rparr>
   in b\<lparr>mtimeh := ucast (drop_bit 32 val)\<rparr>)"

definition System_Timer_Get_Time :: "board \<Rightarrow> u64" where
  "System_Timer_Get_Time b = (let
     res = 0;
     res = res OR ucast (mtime b);
     res = res OR push_bit 32 (ucast (mtimeh b))
   in res)"

definition System_Timer_Set_Timecmp :: "u64 \<Rightarrow> board \<Rightarrow> board" where
  "System_Timer_Set_Timecmp val b = (let
     b = b\<lparr>mtimecmp := ucast val\<rparr>
   in b\<lparr>mtimecmph := ucast (drop_bit 32 val)\<rparr>)"

definition System_Timer_Get_Timecmp :: "board \<Rightarrow> u64" where
  "System_Timer_Get_Timecmp b = (let
     res = 0;
     res = res OR ucast (mtimecmp b);
     res = res OR push_bit 32 (ucast (mtimecmph b))
   in res)"

lemma halves_join: "ucast (ucast v :: u32) OR push_bit 32 (ucast (ucast (drop_bit 32 v) :: u32)) = (v :: u64)"
  by (rule bit_word_eqI)
    (auto simp: bit_or_iff bit_push_bit_iff bit_ucast_iff bit_drop_bit_eq dest: bit_imp_le_length)

lemma System_Timer_Get_Set:
  "System_Timer_Get_Time (System_Timer_Set_Time v b) = v"
  "System_Timer_Get_Timecmp (System_Timer_Set_Timecmp v b) = v"
  using halves_join [of v]
  by (simp_all add: System_Timer_Get_Time_def System_Timer_Set_Time_def System_Timer_Get_Timecmp_def
      System_Timer_Set_Timecmp_def Let_def)

section \<open>The UART\<close>

definition UART_Set_Baud :: "u32 \<Rightarrow> board \<Rightarrow> board" where
  "UART_Set_Baud baud b = b\<lparr>baudcmp := baud\<rparr>"

definition UART_Status_Read :: "board \<Rightarrow> u32" where
  "UART_Status_Read b = status b"

definition UART_Status_SetBits :: "u32 \<Rightarrow> board \<Rightarrow> board" where
  "UART_Status_SetBits bits b = b\<lparr>status := status b OR bits\<rparr>"

definition UART_Status_ResetBits :: "u32 \<Rightarrow> board \<Rightarrow> board" where
  "UART_Status_ResetBits bits b = b\<lparr>status := status b AND NOT bits\<rparr>"

text \<open>Reading the status until the condition holds; the devices go on between the reads.\<close>

partial_function (option) uart_wait ::
  "(board \<Rightarrow> board) \<Rightarrow> (u32 \<Rightarrow> bool) \<Rightarrow> board \<Rightarrow> board option" where
  "uart_wait hw ready b = (if ready (UART_Status_Read b) then Some b else uart_wait hw ready (hw b))"

definition UART_Transmit :: "(board \<Rightarrow> board) \<Rightarrow> u32 \<Rightarrow> board \<Rightarrow> board option" where
  "UART_Transmit hw data b = do {
     b \<leftarrow> uart_wait hw (\<lambda>s. \<not> s AND UART_Status_Sending \<noteq> 0) b;
     let b = b\<lparr>send_data := data\<rparr>;
     Some (UART_Status_SetBits UART_Status_Sending b)
   }"

definition UART_Receive :: "(board \<Rightarrow> board) \<Rightarrow> board \<Rightarrow> (u32 \<times> board) option" where
  "UART_Receive hw b = do {
     b \<leftarrow> uart_wait hw (\<lambda>s. s AND UART_Status_Received \<noteq> 0) b;
     let data = read_data b;
     Some (data, UART_Status_ResetBits UART_Status_Received b)
   }"

lemma uart_wait_returns:
  assumes "ready (status ((hw ^^ n) b))"
  shows "\<exists>i \<le> n. uart_wait hw ready b = Some ((hw ^^ i) b) \<and> ready (status ((hw ^^ i) b)) \<and>
    (\<forall>j < i. \<not> ready (status ((hw ^^ j) b)))"
  using assms
proof (induction n arbitrary: b)
  case 0
  then show ?case by (intro exI [of _ 0]) (simp add: uart_wait.simps UART_Status_Read_def)
next
  case (Suc n)
  show ?case
  proof (cases "ready (status b)")
    case True
    then show ?thesis by (intro exI [of _ 0]) (simp add: uart_wait.simps UART_Status_Read_def)
  next
    case False
    have "ready (status ((hw ^^ n) (hw b)))" using Suc.prems by (simp add: funpow_swap1)
    then obtain i where i: "i \<le> n" "uart_wait hw ready (hw b) = Some ((hw ^^ i) (hw b))"
      "ready (status ((hw ^^ i) (hw b)))" "\<forall>j < i. \<not> ready (status ((hw ^^ j) (hw b)))"
      using Suc.IH by blast
    have "\<not> ready (status ((hw ^^ j) b))" if "j < Suc i" for j
      using that i(4) False by (cases j) (simp_all add: funpow_swap1)
    then show ?thesis
      using i(1-3) False by (intro exI [of _ "Suc i"]) (subst uart_wait.simps, simp add: UART_Status_Read_def funpow_swap1)
  qed
qed

text \<open>A transmitter that gets ready again takes the character, unless it is still busy with the one before.\<close>

lemma UART_Transmit_sends:
  assumes "status ((hw ^^ n) b) AND UART_Status_Sending = 0"
  shows "\<exists>i \<le> n. UART_Transmit hw data b = Some (((hw ^^ i) b)\<lparr>send_data := data,
      status := status ((hw ^^ i) b) OR UART_Status_Sending\<rparr>) \<and> status ((hw ^^ i) b) AND UART_Status_Sending = 0"
  using uart_wait_returns [where ready = "\<lambda>s. \<not> s AND UART_Status_Sending \<noteq> 0" and hw = hw and n = n and b = b] assms
  by (auto simp: UART_Transmit_def UART_Status_SetBits_def)

section \<open>Initialisation\<close>

definition ostick_config :: "u32 \<Rightarrow> board \<Rightarrow> board" where
  "ostick_config ticks b = (let
     b = System_Timer_Set_Timecmp (ucast ticks) b;
     b = Core_Interrupt_Enable_SetBits Core_Interrupt_Enable_System_Timer b
   in System_Timer_Set_Time 0 b)"

lemma ostick_config_registers:
  "System_Timer_Get_Time (ostick_config ticks b) = 0"
  "System_Timer_Get_Timecmp (ostick_config ticks b) = ucast ticks"
  "Core_Interrupt_Enable_Get (ostick_config ticks b) AND Core_Interrupt_Enable_System_Timer =
     Core_Interrupt_Enable_System_Timer"
proof -
  show "System_Timer_Get_Time (ostick_config ticks b) = 0"
    by (simp only: ostick_config_def Let_def System_Timer_Get_Set)
  have "System_Timer_Get_Timecmp (ostick_config ticks b) =
      System_Timer_Get_Timecmp (System_Timer_Set_Timecmp (ucast ticks) b)"
    by (simp add: ostick_config_def System_Timer_Get_Timecmp_def System_Timer_Set_Time_def
        Core_Interrupt_Enable_SetBits_def Let_def)
  then show "System_Timer_Get_Timecmp (ostick_config ticks b) = ucast ticks" by (simp only: System_Timer_Get_Set)
  show "Core_Interrupt_Enable_Get (ostick_config ticks b) AND Core_Interrupt_Enable_System_Timer =
      Core_Interrupt_Enable_System_Timer"
    unfolding Core_Interrupt_Enable_Get_def ostick_config_def System_Timer_Set_Time_def System_Timer_Set_Timecmp_def
      Core_Interrupt_Enable_SetBits_def Let_def
    by (rule bit_word_eqI) (auto simp: bit_and_iff bit_or_iff)
qed

definition uart_init :: "board \<Rightarrow> board" where
  "uart_init b = UART_Set_Baud (SystemCoreClock div 9600) b"

text \<open>The two loops of \<^verbatim>\<open>reset_data\<close>.\<close>

function clear_bss :: "u32 \<Rightarrow> u32 \<Rightarrow> memory \<Rightarrow> memory option" where
  "clear_bss bss_start bss_end m =
     (if bss_start < bss_end then
        (if bss_start > 0xfffffffb then None else clear_bss (bss_start + 4) bss_end (store32 bss_start 0 m))
      else Some m)"
  by pat_completeness auto
termination
proof (relation "measure (\<lambda>(s, e, m). 2 ^ 32 - unat s)")
  fix s e :: u32 and m :: memory
  assume "s < e" "\<not> 0xfffffffb < s"
  then have "unat s \<le> 0xfffffffb" by (simp add: word_le_nat_alt not_less)
  moreover from this have "unat (s + 4) = unat s + 4" by (simp add: unat_word_ariths)
  ultimately show "((s + 4, e, store32 s 0 m), s, e, m) \<in> measure (\<lambda>(s, e, m). 2 ^ 32 - unat s)" by simp
qed simp

fun copy_data :: "nat \<Rightarrow> nat \<Rightarrow> u32 \<Rightarrow> u32 \<Rightarrow> memory \<Rightarrow> memory" where
  "copy_data i 0 to from m = m"
| "copy_data i (Suc n) to from m =
     copy_data (Suc i) n to from (store32 (to + 4 * of_nat i) (load32 m (from + 4 * of_nat i)) m)"

definition reset_data :: "u32 \<Rightarrow> u32 \<Rightarrow> memory \<Rightarrow> memory option" where
  "reset_data bss_start bss_end m = do {
     m \<leftarrow> clear_bss bss_start bss_end m;
     Some (copy_data 0 256 0x80000000 0x21C00 m)
   }"

text \<open>The memory with which the program starts: the BSS, rounded up to words, is zero, and 1024 bytes of
  initialised data have been copied from the flash memory.\<close>

lemma clear_bss_fill:
  assumes "unat s + 4 * q < 2 ^ 32" "unat e \<le> unat s + 4 * q" "q = 0 \<or> unat s + 4 * (q - 1) < unat e"
  shows "clear_bss s e m = Some (fill s 0 (4 * q) m)"
  using assms
proof (induction q arbitrary: s m)
  case 0
  then have "\<not> s < e" by (simp add: word_less_nat_alt)
  then show ?case by (subst clear_bss.simps) (simp add: fill_def)
next
  case (Suc q)
  have u: "unat (s + 4) = unat s + 4" using Suc.prems(1) by (simp add: unat_word_ariths)
  have l: "s < e" "\<not> 0xfffffffb < s" using Suc.prems by (auto simp: word_less_nat_alt)
  have "clear_bss (s + 4) e (store32 s 0 m) = Some (fill (s + 4) 0 (4 * q) (store32 s 0 m))"
    using Suc.prems by (intro Suc.IH) (auto simp: u)
  moreover have "fill (s + 4) 0 (4 * q) (store32 s 0 m) = fill s 0 (4 * Suc q) m"
    using fill_append [of 4 "4 * q" s 0 m] store32_rep4 [of s 0 m] Suc.prems(1) by (simp add: rep4_def)
  ultimately show ?case using l by (subst clear_bss.simps) simp
qed

lemma copy_data_copy:
  assumes "4 * (i + n) \<le> 2 ^ 32" "copies_up to from (4 * (i + n))"
  shows "copy_data i n to from (copy to from (4 * i) m) = copy to from (4 * (i + n)) m"
  using assms
proof (induction n arbitrary: i)
  case (Suc n)
  have c: "copies_up to from (4 * i + 4)" using Suc.prems(2) by (rule copies_up_less) simp
  have "store32 (to + 4 * of_nat i) (load32 (copy to from (4 * i) m) (from + 4 * of_nat i)) (copy to from (4 * i) m) =
      copy to from (4 * Suc i) m"
    using copy_append4 [OF _ c, of m] Suc.prems(1) by (simp add: add.commute)
  then show ?case using Suc.IH [of "Suc i"] Suc.prems by simp
qed simp

lemma reset_data_memory:
  assumes "unat s + 4 * q < 2 ^ 32" "unat e \<le> unat s + 4 * q" "q = 0 \<or> unat s + 4 * (q - 1) < unat e"
  shows "reset_data s e m = Some (copy 0x80000000 0x21C00 1024 (fill s 0 (4 * q) m))"
proof -
  have "copies_up 0x80000000 0x21C00 1024" by (simp add: copies_up_def)
  then show ?thesis
    using clear_bss_fill [OF assms] copy_data_copy [of 0 256 "0x80000000" "0x21C00" "fill s 0 (4 * q) m"]
    by (simp add: reset_data_def)
qed

end
