(* ===== verification/Startup.thy ===== *)
theory Startup
  imports System Board Console
begin

text \<open>
  System start-up: \<^verbatim>\<open>src/components.c\<close>, the idle thread of \<^verbatim>\<open>src/idle.c\<close> and \<^verbatim>\<open>rt_hw_board_init\<close>
  of \<^verbatim>\<open>bsp/tang-nano-9k/board.c\<close>, in the configuration without a heap, where the main thread and its
  stack are static.  The state is that of the registers, of the console and of the kernel; it is shown
  to become an initial state of \<open>System\<close>.
\<close>

section \<open>The operations\<close>

type_synonym init_fn = "kernel \<Rightarrow> (int \<times> kernel) option"

definition rti_start :: init_fn where "rti_start k = Some (0, k)"
definition rti_board_start :: init_fn where "rti_board_start k = Some (0, k)"
definition rti_board_end :: init_fn where "rti_board_end k = Some (0, k)"
definition rti_end :: init_fn where "rti_end k = Some (0, k)"

fun call_init_fns :: "init_fn list \<Rightarrow> kernel \<Rightarrow> kernel option" where
  "call_init_fns [] k = Some k"
| "call_init_fns (fn # fns) k = do { (_, k) \<leftarrow> fn k; call_init_fns fns k }"

text \<open>The functions that \<^verbatim>\<open>INIT_EXPORT\<close> puts behind the markers \<open>rti_board_start\<close> and
  \<open>rti_board_end\<close>, in the order of the linker, are parameters.\<close>

definition rt_components_board_init :: "init_fn list \<Rightarrow> kernel \<Rightarrow> kernel option" where
  "rt_components_board_init fns k = call_init_fns (rti_board_start # fns) k"

definition rt_components_init :: "init_fn list \<Rightarrow> kernel \<Rightarrow> kernel option" where
  "rt_components_init fns k = call_init_fns (rti_board_end # fns) k"

definition rt_hw_board_init :: "init_fn list \<Rightarrow> board \<times> con \<Rightarrow> (board \<times> con) option" where
  "rt_hw_board_init fns = (\<lambda>(b, out, k). do {
     let b = uart_init b;
     let b = ostick_config (SystemCoreClock div RT_TICK_PER_SECOND) b;
     k \<leftarrow> rt_components_board_init fns k;
     Some (b, out, k)
   })"

text \<open>The addresses of the functions, of the stacks and of \<^verbatim>\<open>rt_log_buf\<close>, which the linker chooses.\<close>

record link_map =
  rt_thread_exit_addr :: u32
  main_thread_entry_addr :: u32
  main_stack :: u32
  rt_thread_idle_entry_addr :: u32
  rt_thread_stack :: u32
  rt_log_buf :: u32

text \<open>The static threads \<^verbatim>\<open>idle\<close> and \<^verbatim>\<open>main_thread\<close>.\<close>

definition idle :: tid where "idle = 0"
definition main_thread :: tid where "main_thread = 1"

definition RT_MAIN_THREAD_PRIORITY :: nat where
  "RT_MAIN_THREAD_PRIORITY = RT_THREAD_PRIORITY_MAX div 3"

definition rt_application_init :: "link_map \<Rightarrow> kernel \<Rightarrow> kernel option" where
  "rt_application_init lm k = do {
     (result, k) \<leftarrow> rt_thread_init (rt_thread_exit_addr lm) main_thread (c_str ''main'')
       (main_thread_entry_addr lm) 0 (main_stack lm) 2048 (of_nat RT_MAIN_THREAD_PRIORITY) 20 k;
     RT_ASSERT (result = RT_EOK);
     (_, k) \<leftarrow> rt_thread_startup main_thread k;
     Some k
   }"

definition rt_thread_idle_init :: "link_map \<Rightarrow> kernel \<Rightarrow> kernel option" where
  "rt_thread_idle_init lm k = do {
     (_, k) \<leftarrow> rt_thread_init (rt_thread_exit_addr lm) idle (c_str ''tidle'')
       (rt_thread_idle_entry_addr lm) 0 (rt_thread_stack lm) 1024 (of_nat (RT_THREAD_PRIORITY_MAX - 1)) 32 k;
     (_, k) \<leftarrow> rt_thread_startup idle k;
     Some k
   }"

definition rt_thread_idle_gethandler :: tid where
  "rt_thread_idle_gethandler = idle"

text \<open>\<^verbatim>\<open>rt_system_timer_thread_init\<close> does nothing without soft timers.\<close>

definition rt_system_timer_thread_init :: "kernel \<Rightarrow> kernel" where
  "rt_system_timer_thread_init k = k"

definition rtthread_startup ::
  "init_fn list \<Rightarrow> link_map \<Rightarrow> string \<Rightarrow> board \<times> con \<Rightarrow> (board \<times> con) option" where
  "rtthread_startup fns lm date s = do {
     (b, con) \<leftarrow> rt_hw_board_init fns s;
     (out, k) \<leftarrow> rt_show_version (rt_log_buf lm) date con;
     let k = rt_system_timer_init k;
     let k = rt_system_scheduler_init k;
     k \<leftarrow> rt_application_init lm k;
     let k = rt_system_timer_thread_init k;
     k \<leftarrow> rt_thread_idle_init lm k;
     k \<leftarrow> rt_system_scheduler_start k;
     Some (b, out, k)
   }"

text \<open>The main thread initialises the components and calls the \<^verbatim>\<open>main\<close> of the application.\<close>

definition main_thread_entry :: "init_fn list \<Rightarrow> (kernel \<Rightarrow> kernel option) \<Rightarrow> kernel \<Rightarrow> kernel option" where
  "main_thread_entry fns main k = do { k \<leftarrow> rt_components_init fns k; main k }"

section \<open>Initialising a thread\<close>

text \<open>A thread that the scheduler does not know, with its timer.\<close>

definition unused_thread :: "(node \<Rightarrow> node list) \<Rightarrow> kernel \<Rightarrow> tid \<Rightarrow> bool" where
  "unused_thread L k t \<longleftrightarrow> thread_state k t \<notin> {RT_THREAD_READY, RT_THREAD_SUSPEND} \<and>
     \<not> active k (Thread_timer t) \<and>
     (\<forall>n \<in> {Tlist t, Row (Thread_timer t), Obj_list (Obj_thread t), Obj_list (Obj_timer (Thread_timer t))}.
        \<forall>x. n \<notin> set (L x)) \<and>
     length (name (objects k (Obj_thread t))) = RT_NAME_MAX \<and>
     length (name (objects k (Obj_timer (Thread_timer t)))) = RT_NAME_MAX"

text \<open>What an initialisation leaves alone.\<close>

definition only_thread :: "tid \<Rightarrow> kernel \<Rightarrow> kernel \<Rightarrow> bool" where
  "only_thread t k k' \<longleftrightarrow> (\<forall>u. u \<noteq> t \<longrightarrow> threads k' u = threads k u) \<and>
     (\<forall>tm. tm \<noteq> Thread_timer t \<longrightarrow> timers k' tm = timers k tm) \<and>
     (\<forall>ob. ob \<noteq> Obj_thread t \<longrightarrow> ob \<noteq> Obj_timer (Thread_timer t) \<longrightarrow> objects k' ob = objects k ob) \<and>
     rt_tick k' = rt_tick k \<and> rt_thread_ready_priority_group k' = rt_thread_ready_priority_group k"

lemma kernel_ok_only_thread:
  assumes ok: "kernel_ok L k" and un: "unused_thread L k t" and o: "only_thread t k k'"
    and r: "rings is_head (lists k') L'"
    and st: "thread_state k' t \<notin> {RT_THREAD_READY, RT_THREAD_SUSPEND}" "\<not> active k' (Thread_timer t)"
    and l: "\<And>x. (\<forall>i. x \<noteq> Container_head i) \<Longrightarrow> L' x = L x"
    and c: "\<And>i n. n \<in> set (L' (Container_head i)) \<Longrightarrow> n \<in> set (L (Container_head i)) \<or> (\<exists>ob. n = Obj_list ob)"
  shows "kernel_ok L' k'"
proof -
  note d = kernel_okD [OF ok]
  have s: "thread_state k' u = thread_state k u" "prio k' u = prio k u" "prio_ok k' u = prio_ok k u" if "u \<noteq> t" for u
    using o that by (simp_all add: only_thread_def thread_state_def prio_ok_def)
  have fl: "timer_flag k' tm = timer_flag k tm" "timers k' tm = timers k tm"
    "live k' (Obj_timer tm) = live k (Obj_timer tm)" if "tm \<noteq> Thread_timer t" for tm
    using o that by (simp_all add: only_thread_def timer_flag_def live_def rt_object_get_type_def)
  have act: "active k' tm = active k tm" for tm
    using fl [of tm] st(2) un by (cases "tm = Thread_timer t") (simp_all add: active_def unused_thread_def)
  have ut: "thread_state k t \<notin> {RT_THREAD_READY, RT_THREAD_SUSPEND}" using un by (simp add: unused_thread_def)
  have lv: "live k' (Obj_thread u) = live k (Obj_thread u)" "timer_live k' u = timer_live k u" if "u \<noteq> t" for u
    using o that by (simp_all add: only_thread_def live_def rt_object_get_type_def timer_live_def one_shot_def timer_flag_def)
  have "queue_ok {} L' k'"
    unfolding queue_ok_def
  proof (intro conjI allI impI)
    fix i n assume "n \<in> set (L' (Ready_head i))"
    then have "n \<in> set (L (Ready_head i))" using l by simp
    then obtain u where u: "n = Tlist u" "thread_state k u = RT_THREAD_READY" "prio k u = i"
      using queue_ok_member [OF d(1)] by blast
    then have "u \<noteq> t" using ut by auto
    then show "\<exists>u. n = Tlist u \<and> thread_state k' u = RT_THREAD_READY \<and> prio k' u = i" using u s by auto
  next
    fix u assume u: "thread_state k' u = RT_THREAD_READY"
    then have "u \<noteq> t" using st(1) by auto
    then show "Tlist u \<in> set (L' (Ready_head (prio k' u)))" using queue_ok_ready [OF d(1), of u] u s l by simp
  next
    fix u assume u: "thread_state k' u \<in> {RT_THREAD_READY, RT_THREAD_SUSPEND}"
    then have "u \<noteq> t" using st(1) by auto
    then show "prio_ok k' u" using queue_ok_prio [OF d(1), of u] u s by simp
  next
    fix i show "bit (rt_thread_ready_priority_group k') i = (i < RT_THREAD_PRIORITY_MAX \<and> L' (Ready_head i) \<noteq> [])"
      using queue_ok_group [OF d(1), of i] o l by (simp add: only_thread_def)
  qed (fact r)
  moreover have "timers_ok {} L' k'"
  proof -
    have tl: "timer_list L' = timer_list L" using l by (simp add: timer_list_def)
    have nt: "Thread_timer t \<notin> set (timer_list L)" using d(2) un by (auto simp: timers_ok_def unused_thread_def)
    then have rm: "remaining k' tm = remaining k tm" "live k' (Obj_timer tm) = live k (Obj_timer tm)"
      if "tm \<in> set (timer_list L)" for tm
    proof -
      have "tm \<noteq> Thread_timer t" using that nt by auto
      then show "remaining k' tm = remaining k tm" "live k' (Obj_timer tm) = live k (Obj_timer tm)"
        using fl o by (simp_all add: remaining_def only_thread_def)
    qed
    then have "map (remaining k') (timer_list L) = map (remaining k) (timer_list L)" by simp
    then have "sorted (map (remaining k') (timer_list L))" using timers_okD(3) [OF d(2)] by (simp only:)
    moreover have "Row tm \<in> set (L x)" if "Row tm \<in> set (L' x)" for x tm
      using that c [of "Row tm"] l [of x] by (cases "\<exists>i. x = Container_head i") auto
    then have "\<forall>x tm. is_head x \<longrightarrow> Row tm \<in> set (L' x) \<longrightarrow> x = Timer_head \<or> x = Timer_tmp_head \<and> tm \<in> {}"
      using d(2) unfolding timers_ok_def by blast
    moreover have "\<forall>tm \<in> set (timer_list L). live k' (Obj_timer tm) \<and> active k tm \<and> remaining k' tm < unat HALF_TICK_MAX"
      "\<forall>tm. active k tm \<longrightarrow> tm \<in> {} \<or> tm \<in> set (timer_list L)" "L' Timer_head = map Row (timer_list L)"
      using d(2) rm l by (simp_all add: timers_ok_def)
    ultimately show ?thesis using r unfolding timers_ok_def tl act by blast
  qed
  moreover have "threads_ok L' k'"
  proof (rule threads_okI)
    show "live k' (Obj_thread u) \<and> timer_live k' u"
      if "thread_state k' u = RT_THREAD_READY \<or> thread_state k' u = RT_THREAD_SUSPEND" for u
      using that st(1) kernel_ok_live [OF ok, of u] s lv by (cases "u = t") auto
    show "thread_state k' u = RT_THREAD_SUSPEND" if "active k' (Thread_timer u)" for u
      using kernel_ok_active [OF ok, of u] that st(2) act s by (cases "u = t") auto
    show "\<exists>u. n = Tlist u \<and> thread_state k' u = RT_THREAD_SUSPEND" if w: "wait_head x" "n \<in> set (L' x)" for x n
    proof -
      have "n \<in> set (L x)" using w l [of x] by (cases x) auto
      from kernel_ok_waiting [OF ok w(1) this] obtain u where "n = Tlist u" "thread_state k u = RT_THREAD_SUSPEND" by blast
      moreover from this have "u \<noteq> t" using ut by auto
      ultimately show ?thesis using s by (intro exI [of _ u]) simp
    qed
  qed
  ultimately show ?thesis by (simp add: kernel_ok_def)
qed

text \<open>The scheduler, the interrupts and the CPU, which an initialisation does not touch either.\<close>

definition same_cpu :: "kernel \<Rightarrow> kernel \<Rightarrow> bool" where
  "same_cpu k k' \<longleftrightarrow> rt_current_thread k' = rt_current_thread k \<and> rt_scheduler_lock_nest k' = rt_scheduler_lock_nest k \<and>
     rt_interrupt_nest k' = rt_interrupt_nest k \<and> cpu_context k' = cpu_context k \<and>
     rt_thread_switch_interrupt_flag k' = rt_thread_switch_interrupt_flag k"

definition init_ring :: "tid \<Rightarrow> (node \<Rightarrow> node list) \<Rightarrow> node \<Rightarrow> node list" where
  "init_ring t L = (let L = L(Container_head 0 := Obj_list (Obj_thread t) # L (Container_head 0))
   in L(Container_head 9 := Obj_list (Obj_timer (Thread_timer t)) # L (Container_head 9)))"

lemma on_list_add:
  assumes "is_head x"
  shows "on_list is_head (L(x := n # L x)) m \<longleftrightarrow> m = n \<or> on_list is_head L m"
proof -
  have "(\<exists>y. is_head y \<and> m \<in> set ((L(x := n # L x)) y)) \<longleftrightarrow> m = n \<or> (\<exists>y. is_head y \<and> m \<in> set (L y))"
    using assms by (metis fun_upd_apply set_ConsD list.set_intros)
  then show ?thesis by (simp only: on_list_def)
qed

lemma on_list_init_ring [simp]:
  "on_list is_head (init_ring t L) m \<longleftrightarrow>
     m = Obj_list (Obj_timer (Thread_timer t)) \<or> m = Obj_list (Obj_thread t) \<or> on_list is_head L m"
  unfolding init_ring_def Let_def by (simp only: on_list_add is_head.simps)

lemma thread_containers:
  "rt_object_get_information (object_class (Obj_thread t)) = Some 0"
  "rt_object_get_information (object_class (Obj_timer tm)) = Some 9"
  by (simp_all add: rt_object_get_information_def rt_object_container_def)

lemma upd_lists_id: "f (lists k) = lists k \<Longrightarrow> upd_lists f k = k"
  by (cases k) simp

lemma rt_thread_init0_timer:
  assumes "rt_list_init (Tlist t) (lists k) = lists k" "unat p < RT_THREAD_PRIORITY_MAX"
  shows "\<exists>m stk. rt_thread_init0 texit t ent param stack sz p tick k = do {
      k \<leftarrow> rt_timer_init (Thread_timer t) (name (objects k (Obj_thread t))) (Rt_thread_timeout t) 0 0
        (upd_thread t (\<lambda>th. th\<lparr>entry := ent, parameter := param, stack_addr := stack, stack_size := sz, sp := stk,
           init_priority := p, current_priority := p, number_mask := 0, thread_init_tick := tick,
           remaining_tick := tick, error := RT_EOK, stat := RT_THREAD_INIT, cleanup := None, user_data := 0\<rparr>) (k\<lparr>mem := m\<rparr>));
      Some (RT_EOK, k) }"
proof -
  obtain stk m where m: "rt_hw_stack_init ent param (stack + sz - 4) texit (rt_memset stack 35 sz (mem k)) = (stk, m)"
    by (cases "rt_hw_stack_init ent param (stack + sz - 4) texit (rt_memset stack 35 sz (mem k))")
  show ?thesis
    using assms(2) m by (intro exI [of _ m] exI [of _ stk])
      (simp add: rt_thread_init0_def Let_def upd_lists_id [where f = "rt_list_init (Tlist t)", OF assms(1)] comp_def)
qed

lemma rt_thread_init_ok:
  assumes ok: "kernel_ok L k" and un: "unused_thread L k t" and stk: "stack \<noteq> 0" and nm: "c_string nm = Some a"
    and a: "length a < RT_NAME_MAX" and p: "unat p < RT_THREAD_PRIORITY_MAX"
    and cpu: "rt_current_thread k = None" "rt_scheduler_lock_nest k = 0"
  shows "\<exists>k'. rt_thread_init texit t nm ent param stack sz p tick k = Some (RT_EOK, k') \<and>
    kernel_ok (init_ring t L) k' \<and> startable t k' \<and> init_priority (threads k' t) = p \<and>
    only_thread t k k' \<and> same_cpu k k'"
proof -
  let ?tt = "Thread_timer t" and ?L1 = "L(Container_head 0 := Obj_list (Obj_thread t) # L (Container_head 0))"
  have fresh: "\<not> on_list is_head L (Tlist t)" "\<not> on_list is_head L (Obj_list (Obj_thread t))"
    "\<not> on_list is_head L (Row ?tt)" "\<not> on_list is_head L (Obj_list (Obj_timer ?tt))"
    and len: "length (name (objects k (Obj_thread t))) = RT_NAME_MAX"
      "length (name (objects k (Obj_timer ?tt))) = RT_NAME_MAX"
    and st: "thread_state k t \<noteq> RT_THREAD_READY" "thread_state k t \<noteq> RT_THREAD_SUSPEND" "\<not> active k ?tt"
    using un by (simp_all add: unused_thread_def on_list_def)
  define k1 where "k1 = init_object (Obj_thread t) 0 a k"
  have 1: "rt_object_init (Obj_thread t) RT_Object_Class_Thread nm k = Some k1"
    using rt_object_init_closed [OF kernel_okD(1) [OF ok] _ _ thread_containers(1) fresh(2) nm len(1)] cpu
    by (simp add: k1_def runs_highest_def)
  have r1: "rings is_head (lists k1) ?L1"
    using rings_insert_after [OF kernel_okD(4) [OF ok], of "Container_head 0" "Obj_list (Obj_thread t)"] fresh(2)
    by (simp add: k1_def init_object_def)
  have l1: "\<not> on_list is_head ?L1 (Tlist t)" "\<not> on_list is_head ?L1 (Row ?tt)" "\<not> on_list is_head ?L1 (Obj_list (Obj_timer ?tt))"
    using fresh by (simp_all add: on_list_add)
  have "rt_list_init (Tlist t) (lists k1) = lists k1" using l1(1) by (intro rings_init [OF r1]) simp_all
  from rt_thread_init0_timer [OF this p] obtain m stk' where
    2: "rt_thread_init0 texit t ent param stack sz p tick k1 = do {
      k \<leftarrow> rt_timer_init ?tt (name (objects k1 (Obj_thread t))) (Rt_thread_timeout t) 0 0
        (upd_thread t (\<lambda>th. th\<lparr>entry := ent, parameter := param, stack_addr := stack, stack_size := sz, sp := stk',
           init_priority := p, current_priority := p, number_mask := 0, thread_init_tick := tick,
           remaining_tick := tick, error := RT_EOK, stat := RT_THREAD_INIT, cleanup := None, user_data := 0\<rparr>)
          (k1\<lparr>mem := m\<rparr>));
      Some (RT_EOK, k) }" by blast
  define k2 where "k2 = upd_thread t (\<lambda>th. th\<lparr>entry := ent, parameter := param, stack_addr := stack, stack_size := sz,
    sp := stk', init_priority := p, current_priority := p, number_mask := 0, thread_init_tick := tick,
    remaining_tick := tick, error := RT_EOK, stat := RT_THREAD_INIT, cleanup := None, user_data := 0\<rparr>) (k1\<lparr>mem := m\<rparr>)"
  have o2: "only_thread t k k2" "same_cpu k k2" "lists k2 = lists k1" "init_priority (threads k2 t) = p"
    "objects k2 (Obj_timer ?tt) = objects k (Obj_timer ?tt)" "objects k2 (Obj_thread t) = objects k1 (Obj_thread t)"
    by (simp_all add: k2_def k1_def init_object_def only_thread_def same_cpu_def)
  have s2: "thread_state k2 t = RT_THREAD_INIT" "\<not> active k2 ?tt"
    using st(3) by (simp_all add: thread_state_def k2_def k1_def init_object_def active_def timer_flag_def)
  have ok2: "kernel_ok ?L1 k2"
    using r1 s2 by (intro kernel_ok_only_thread [OF ok un o2(1)]) (auto simp: o2(3) split: if_splits)
  define k3 where "k3 = init_object (Obj_timer ?tt) 9 a k2"
  have "0 \<notin> set a" by (rule c_string_no_NUL [OF nm])
  then have t: "takeWhile (\<lambda>c. c \<noteq> 0) a = a" by (auto simp: takeWhile_eq_all_conv)
  have "name (objects k1 (Obj_thread t)) = a @ 0 # replicate (RT_NAME_MAX - length a - 1) 0"
    using a by (simp add: k1_def init_object_def name_field_def Suc_diff_Suc flip: replicate_Suc)
  then have nm2: "c_string (name (objects k1 (Obj_thread t))) = Some a" by (simp add: c_string_terminated t)
  have 3: "rt_object_init (Obj_timer ?tt) RT_Object_Class_Timer (name (objects k1 (Obj_thread t))) k2 = Some k3"
    using rt_object_init_closed [OF kernel_okD(1) [OF ok2] _ _ thread_containers(2) l1(3) nm2] cpu o2(2,5) len(2)
    by (simp add: k3_def runs_highest_def same_cpu_def)
  have r3: "rings is_head (lists k3) (init_ring t L)"
    using rings_insert_after [OF kernel_okD(4) [OF ok2], of "Container_head 9" "Obj_list (Obj_timer ?tt)"] l1(3)
    by (simp add: k3_def init_object_def init_ring_def Let_def)
  have "\<not> on_list is_head (init_ring t L) (Row ?tt)"
    using fresh by simp
  then have 4: "rt_list_init (Row ?tt) (lists k3) = lists k3" by (intro rings_init [OF r3]) simp_all
  define k4 where "k4 = rt_timer_init0 ?tt (Rt_thread_timeout t) 0 0 k3"
  have "rt_thread_init texit t nm ent param stack sz p tick k = Some (RT_EOK, k4)"
    using stk by (simp add: rt_thread_init_def 1 2 rt_timer_init_def 3 k4_def flip: k2_def)
  moreover have l4: "lists k4 = lists k3" by (simp add: k4_def rt_timer_init0_def Let_def 4)
  have o4: "only_thread t k k4" "same_cpu k k4"
    using o2(1,2) by (simp_all add: k4_def rt_timer_init0_def Let_def k3_def init_object_def only_thread_def same_cpu_def)
  have s4: "thread_state k4 t = RT_THREAD_INIT" "\<not> active k4 ?tt" "threads k4 t = threads k2 t"
    using s2(1) by (simp_all add: k4_def rt_timer_init0_def Let_def k3_def init_object_def thread_state_def active_def timer_flag_def)
  moreover have "kernel_ok (init_ring t L) k4"
    using r3 l4 s4 by (intro kernel_ok_only_thread [OF ok un o4(1)]) (auto simp: init_ring_def Let_def split: if_splits)
  moreover have "live k3 (Obj_thread t)" "live k3 (Obj_timer ?tt)"
    by (simp_all add: k3_def k2_def k1_def live_def rt_object_get_type_def init_object_def)
  then have "live k4 (Obj_thread t)" "timer_live k4 t"
    by (simp_all add: k4_def rt_timer_init0_def Let_def timer_live_def one_shot_def timer_flag_def live_def
        rt_object_get_type_def)
  moreover have "init_priority (threads k4 t) = p" using o2(4) s4(3) by simp
  ultimately show ?thesis using o4 p by (auto simp: startable_def)
qed

definition started_ring :: "tid \<Rightarrow> u8 \<Rightarrow> (node \<Rightarrow> node list) \<Rightarrow> node \<Rightarrow> node list" where
  "started_ring t p L = (init_ring t L)(Ready_head (unat p) := L (Ready_head (unat p)) @ [Tlist t])"

lemma startup_objects: "\<not> active k (Thread_timer t) \<Longrightarrow> objects (startup_thread t k) = objects k"
  by (simp add: startup_thread_def resume_thread_def stop_timer_def active_def timer_flag_def prepare_thread_def)

lemma startup_cpu: "same_cpu k (startup_thread t k)"
  by (simp add: same_cpu_def startup_thread_def resume_thread_def stop_timer_def take_off_def insert_ready_def
      prepare_thread_def)

lemma same_cpu_trans: "same_cpu k k1 \<Longrightarrow> same_cpu k1 k2 \<Longrightarrow> same_cpu k k2"
  by (simp add: same_cpu_def)

lemma startup_ring_started:
  assumes "unused_thread L k t" "init_priority (threads k' t) = p"
  shows "startup_ring t k' (init_ring t L) = started_ring t p L"
proof -
  have n: "Tlist t \<notin> set (init_ring t L x)" "Row (Thread_timer t) \<notin> set (init_ring t L x)" for x
    using assms(1) by (simp_all add: unused_thread_def init_ring_def Let_def)
  have p: "prio (prepare_thread t k') t = unat p" using assms(2) by (simp add: prepare_thread_def)
  show ?thesis by (rule ext) (simp add: startup_ring_def resume_ring_def started_ring_def p n, simp add: init_ring_def Let_def)
qed

text \<open>The kernel \<open>k'\<close> after starting \<open>t\<close> in \<open>k\<close>.\<close>

definition started :: "tid \<Rightarrow> u8 \<Rightarrow> (node \<Rightarrow> node list) \<Rightarrow> kernel \<Rightarrow> kernel \<Rightarrow> bool" where
  "started t p L k k' \<longleftrightarrow> kernel_ok (started_ring t p L) k' \<and> same_cpu k k' \<and>
     (\<forall>u. thread_state k' u = (if u = t then RT_THREAD_READY else thread_state k u)) \<and>
     (\<forall>s. live k' (sem_obj s) = live k (sem_obj s)) \<and>
     (\<forall>tm. active k' tm \<longleftrightarrow> tm \<noteq> Thread_timer t \<and> active k tm) \<and>
     (\<forall>u. u \<noteq> t \<longrightarrow> unused_thread L k u \<longrightarrow> unused_thread (started_ring t p L) k' u)"

lemma startedD:
  assumes "started t p L k k'"
  shows "kernel_ok (started_ring t p L) k'" "same_cpu k k'"
    "thread_state k' u = (if u = t then RT_THREAD_READY else thread_state k u)"
    "live k' (sem_obj s) = live k (sem_obj s)" "active k' tm \<longleftrightarrow> tm \<noteq> Thread_timer t \<and> active k tm"
    "u \<noteq> t \<Longrightarrow> unused_thread L k u \<Longrightarrow> unused_thread (started_ring t p L) k' u"
  using assms unfolding started_def by blast+

lemma start_static_thread:
  assumes ok: "kernel_ok L k" and un: "unused_thread L k t" and stk: "stack \<noteq> 0" and nm: "c_string nm = Some a"
    and a: "length a < RT_NAME_MAX" and p: "unat p < RT_THREAD_PRIORITY_MAX"
    and cpu: "rt_current_thread k = None" "rt_scheduler_lock_nest k = 0"
  shows "\<exists>k1 k'. rt_thread_init texit t nm ent param stack sz p tick k = Some (RT_EOK, k1) \<and>
    rt_thread_startup t k1 = Some (RT_EOK, k') \<and> started t p L k k'"
proof -
  obtain k1 where i: "rt_thread_init texit t nm ent param stack sz p tick k = Some (RT_EOK, k1)"
    "kernel_ok (init_ring t L) k1" "startable t k1" "init_priority (threads k1 t) = p" "only_thread t k k1" "same_cpu k k1"
    using rt_thread_init_ok [OF assms, of texit ent param sz tick] by blast
  define k' where "k' = startup_thread t k1"
  note r = startup_ring_started [OF un i(4)]
  have na: "\<not> active k1 (Thread_timer t)" using i(3) by (simp add: startable_def)
  have s: "rt_thread_startup t k1 = Some (RT_EOK, k')"
    using rt_thread_startup_closed(1) [OF i(2,3)] i(6) cpu by (simp add: k'_def same_cpu_def)
  have ok': "kernel_ok (started_ring t p L) k'" using kernel_ok_startup [OF i(2,3)] by (simp add: k'_def r)
  have c: "same_cpu k k'" using same_cpu_trans [OF i(6) startup_cpu] by (simp add: k'_def)
  have st: "thread_state k' u = (if u = t then RT_THREAD_READY else thread_state k u)" for u
    using i(5) by (simp add: k'_def only_thread_def) (simp add: thread_state_def)
  have o: "objects k' ob = objects k ob" if "ob \<noteq> Obj_thread t" "ob \<noteq> Obj_timer (Thread_timer t)" for ob
    using i(5) that startup_objects [OF na] by (simp add: k'_def only_thread_def)
  then have l: "live k' (sem_obj s) = live k (sem_obj s)" for s by (simp add: live_def rt_object_get_type_def)
  have act: "active k' tm \<longleftrightarrow> tm \<noteq> Thread_timer t \<and> active k tm" for tm
    using o na startup_objects [OF na] by (cases "tm = Thread_timer t") (simp_all add: active_def timer_flag_def k'_def)
  have "unused_thread (started_ring t p L) k' u" if u: "u \<noteq> t" "unused_thread L k u" for u
  proof -
    have "n \<notin> set (started_ring t p L x)"
      if "n \<in> {Tlist u, Row (Thread_timer u), Obj_list (Obj_thread u), Obj_list (Obj_timer (Thread_timer u))}" for n x
      using that u by (auto simp: unused_thread_def started_ring_def init_ring_def Let_def)
    then show ?thesis using u st act o by (simp add: unused_thread_def)
  qed
  then show ?thesis using i(1) s ok' c st l act by (auto simp: started_def)
qed

section \<open>The start\<close>

text \<open>The kernel after reset: \<^verbatim>\<open>.bss\<close> is zero and the containers are initialised statically.  The nodes of
  objects that have not been initialised count as linked to themselves; only the heads that the start
  initialises are arbitrary.\<close>

definition after_reset :: "kernel \<Rightarrow> bool" where
  "after_reset k \<longleftrightarrow> (\<forall>t. stat (threads k t) = RT_THREAD_INIT) \<and>
     (\<forall>ob. type (objects k ob) = RT_Object_Class_Null \<and> flag (objects k ob) = 0 \<and>
        length (name (objects k ob)) = RT_NAME_MAX) \<and>
     (\<forall>n. n \<notin> {Timer_head, Defunct_head} \<union> Ready_head ` {..<RT_THREAD_PRIORITY_MAX} \<longrightarrow>
        nxt (lists k) n = n \<and> prv (lists k) n = n) \<and>
     rt_interrupt_nest k = 0 \<and> rt_thread_switch_interrupt_flag k = 0"

lemma init_priority_table_heads:
  "nxt (init_priority_table i n h) x = (if x \<in> Ready_head ` {i..<i + n} then x else nxt h x) \<and>
   prv (init_priority_table i n h) x = (if x \<in> Ready_head ` {i..<i + n} then x else prv h x)"
proof (induction i n h rule: init_priority_table.induct)
  case (2 i n h)
  have "Ready_head ` {i..<i + Suc n} = insert (Ready_head i) (Ready_head ` {Suc i..<Suc i + n})"
    by (auto simp: image_iff)
  then show ?case using 2 by (auto simp: nxt_init prv_init)
qed simp

lemma scheduler_init_ok:
  assumes r: "after_reset k" and k': "k' = rt_system_scheduler_init (rt_system_timer_init (k\<lparr>mem := m\<rparr>))"
  shows "kernel_ok (\<lambda>_. []) k'" "unused_thread (\<lambda>_. []) k' t" "\<not> live k' (sem_obj s)" "\<not> active k' tm"
    "rt_current_thread k' = None" "rt_scheduler_lock_nest k' = 0" "rt_interrupt_nest k' = 0"
    "rt_thread_switch_interrupt_flag k' = 0"
proof -
  have o: "objects k' = objects k" "threads k' = threads k" "rt_thread_ready_priority_group k' = 0"
    by (simp_all add: k' rt_system_scheduler_init_def rt_system_timer_init_def Let_def)
  have h: "nxt (lists k') n = n" "prv (lists k') n = n" for n
    using r init_priority_table_heads [of 0 RT_THREAD_PRIORITY_MAX]
    by (auto simp: k' rt_system_scheduler_init_def rt_system_timer_init_def Let_def nxt_init prv_init after_reset_def
        atLeast0LessThan)
  have st: "thread_state k' t = RT_THREAD_INIT" and act: "\<not> active k' tm" for t tm
    using r by (simp_all add: o thread_state_def active_def timer_flag_def after_reset_def)
  have "rings is_head (lists k') (\<lambda>_. [])" using h by (simp add: rings_def dll_def)
  moreover from this have "queue_ok {} (\<lambda>_. []) k'" by (simp add: queue_ok_def st o)
  moreover have "timers_ok {} (\<lambda>_. []) k'"
    using calculation act by (simp add: timers_ok_def timer_list_def map_filter_simps)
  ultimately show "kernel_ok (\<lambda>_. []) k'" by (simp add: kernel_ok_def threads_ok_def st act)
  show "\<not> active k' tm" by (rule act)
  show "unused_thread (\<lambda>_. []) k' t" using r act by (simp add: unused_thread_def st o after_reset_def)
  show "\<not> live k' (sem_obj s)" using r by (simp add: live_def rt_object_get_type_def o after_reset_def)
qed (use r in \<open>simp_all add: k' rt_system_scheduler_init_def rt_system_timer_init_def Let_def after_reset_def\<close>)

text \<open>What \<^verbatim>\<open>rt_show_version\<close> prints.\<close>

definition version_text :: "string \<Rightarrow> u8 list" where
  "version_text date =
     printed (c_text (''\<newline> '' @ CHR 0x5C # '' | /\<newline>'')) @
     printed (c_text ''- RT -     Thread Operating System\<newline>'') @
     printed (c_text ('' / | '' @ CHR 0x5C # ''     3.1.5 build '') @ takeWhile (\<lambda>c. c \<noteq> 0) (c_str date) @ [10]) @
     printed (c_text '' 2006 - 2020 Copyright by rt-thread team\<newline>'')"

lemma decimal_digit:
  "decimal_text 3 = [51]" "decimal_text 1 = [49]" "decimal_text 5 = [53]"
  by (simp_all add: decimal_text_def digit_text.simps small_digits_def)

lemma rt_show_version_prints:
  assumes "log_buf lb" "length date \<le> 100"
  shows "prints (rt_show_version lb date) k (version_text date)"
proof -
  let ?a = "''\<newline> '' @ CHR 0x5C # '' | /\<newline>''" and ?b = "''- RT -     Thread Operating System\<newline>''"
  let ?c = "'' / | '' @ CHR 0x5C # ''     %d.%d.%d build %s\<newline>''" and ?d = "'' 2006 - 2020 Copyright by rt-thread team\<newline>''"
  let ?date = "takeWhile (\<lambda>c. c \<noteq> 0) (c_str date)"
  let ?txt = "c_text ('' / | '' @ CHR 0x5C # ''     3.1.5 build '') @ ?date @ [10]"
  have "length ?date \<le> length (c_str date)" by (rule length_takeWhile_le)
  then have n: "length ?txt \<le> 255" using assms(2) by (simp add: c_str_def c_text_def)
  have z: "0 \<in> set (c_str date)" by (simp add: c_str_def)
  have "format_text (c_str ?c) [Va_int 3, Va_int 1, Va_int 5, Va_ptr 1 (c_str date)] = Some ?txt"
    using z by (simp add: c_str_def [of ?c, simplified] c_text_def [of ?c, simplified] c_text_def format_eval decimal_digit)
  from kprintf_prints_text [OF assms(1) this n]
  have c: "prints (kprintf lb ?c [Va_int 3, Va_int 1, Va_int 5, str_arg date]) k (printed ?txt)" by (simp add: str_arg_def)
  have abd: "prints (kprintf lb ?a []) k (printed (c_text ?a))" "prints (kprintf lb ?b []) k (printed (c_text ?b))"
    "prints (kprintf lb ?d []) k (printed (c_text ?d))"
    by (rule kprintf_prints_text [OF assms(1)]; simp add: c_str_def c_text_def format_eval)+
  from prints_seq [OF abd(1) prints_seq [OF abd(2) prints_seq [OF c abd(3)]]] show ?thesis
    unfolding version_text_def by (rule prints_cong) (simp add: rt_show_version_def)
qed

text \<open>Board functions that leave the kernel as it is after reset.\<close>

definition quiet :: "init_fn \<Rightarrow> bool" where
  "quiet fn \<longleftrightarrow> (\<forall>k. after_reset k \<longrightarrow> (\<exists>r k'. fn k = Some (r, k') \<and> after_reset k'))"

lemma quiet_calls:
  "\<forall>fn \<in> set fns. quiet fn \<Longrightarrow> after_reset k \<Longrightarrow> \<exists>k'. call_init_fns fns k = Some k' \<and> after_reset k'"
proof (induction fns arbitrary: k)
  case (Cons fn fns)
  have "quiet fn" using Cons.prems(1) by simp
  then obtain r k1 where "fn k = Some (r, k1)" "after_reset k1" using Cons.prems(2) by (auto simp only: quiet_def)
  then show ?case using Cons.IH [of k1] Cons.prems(1) by simp
qed simp

lemma start_threads:
  assumes k: "kernel_ok (\<lambda>_. []) k" "\<And>t. unused_thread (\<lambda>_. []) k t" "\<And>s. \<not> live k (sem_obj s)" "\<And>tm. \<not> active k tm"
    "rt_current_thread k = None" "rt_scheduler_lock_nest k = 0" "rt_interrupt_nest k = 0"
    "rt_thread_switch_interrupt_flag k = 0"
    and lm: "main_stack lm \<noteq> 0" "rt_thread_stack lm \<noteq> 0"
  obtains L k1 k2 k3 where "rt_application_init lm k = Some k1" "rt_thread_idle_init lm k1 = Some k2"
    "rt_system_scheduler_start k2 = Some k3" "system_ok L k3" "rt_current_thread k3 = Some main_thread"
    "thread_state k3 main_thread = RT_THREAD_READY"
proof -
  have num: "length [109, 97, 105, 110 :: u8] < RT_NAME_MAX" "length [116, 105, 100, 108, 101 :: u8] < RT_NAME_MAX"
    "unat (2 :: u8) < RT_THREAD_PRIORITY_MAX" "unat (7 :: u8) < RT_THREAD_PRIORITY_MAX"
    by (simp_all add: RT_NAME_MAX_def RT_THREAD_PRIORITY_MAX_def)
  have str: "c_string (c_str ''main'') = Some [109, 97, 105, 110]"
    "c_string (c_str ''tidle'') = Some [116, 105, 100, 108, 101]" by (simp_all add: c_str_def c_text_def)
  have ne: "idle \<noteq> main_thread" by (simp add: idle_def main_thread_def)
  obtain a1 k1 where 1: "rt_thread_init (rt_thread_exit_addr lm) main_thread (c_str ''main'') (main_thread_entry_addr lm)
      0 (main_stack lm) 2048 2 20 k = Some (RT_EOK, a1)" "rt_thread_startup main_thread a1 = Some (RT_EOK, k1)"
      "started main_thread 2 (\<lambda>_. []) k k1"
    using start_static_thread [OF k(1) k(2) lm(1) str(1) num(1,3) k(5,6)] by blast
  note m = startedD [OF 1(3)]
  have cpu: "rt_current_thread k1 = None" "rt_scheduler_lock_nest k1 = 0" using k m(2) by (simp_all add: same_cpu_def)
  let ?L = "started_ring idle 7 (started_ring main_thread 2 (\<lambda>_. []))"
  obtain a2 k2 where 2: "rt_thread_init (rt_thread_exit_addr lm) idle (c_str ''tidle'') (rt_thread_idle_entry_addr lm)
      0 (rt_thread_stack lm) 1024 7 32 k1 = Some (RT_EOK, a2)" "rt_thread_startup idle a2 = Some (RT_EOK, k2)"
      "started idle 7 (started_ring main_thread 2 (\<lambda>_. [])) k1 k2"
    using start_static_thread [OF m(1) m(6) [OF ne k(2)] lm(2) str(2) num(2,4) cpu] by blast
  note i = startedD [OF 2(3)]
  have nx: "is_next_thread ?L 2 main_thread"
    by (simp add: is_next_thread_def started_ring_def init_ring_def Let_def)
  have h: "highest_ready_thread k2 = Some (2, main_thread)" by (rule highest_ready_thread_eq [OF kernel_okD(1) [OF i(1)] nx])
  define k3 where "k3 = k2\<lparr>rt_current_thread := Some main_thread, cpu_context := Some main_thread\<rparr>"
  have e: "threads k3 = threads k2" "objects k3 = objects k2" "timers k3 = timers k2" "lists k3 = lists k2" "rt_tick k3 = rt_tick k2"
    "rt_thread_ready_priority_group k3 = rt_thread_ready_priority_group k2" by (simp_all add: k3_def)
  have ok3: "kernel_ok ?L k3" using i(1) by (subst kernel_ok_cong [of k3 k2]) (simp_all add: e)
  have act: "\<not> active k3 tm" for tm using i(5) m(5) k(4) by (simp add: active_def timer_flag_def e)
  have c: "rt_scheduler_lock_nest k3 = 0" "rt_interrupt_nest k3 = 0" "rt_thread_switch_interrupt_flag k3 = 0"
    using same_cpu_trans [OF m(2) i(2)] k by (simp_all add: same_cpu_def k3_def)
  have "?L Timer_head = []" "?L Timer_tmp_head = []" by (simp_all add: started_ring_def init_ring_def Let_def)
  then have "tick_ready ?L k3"
    using ok3 c nx act by (auto simp: tick_ready_def check_state_def timeouts_ok_def due_timers_def timer_list_def
        map_filter_simps runs_highest_def k3_def)
  moreover have st: "thread_state k3 u = thread_state k2 u" for u by (simp add: thread_state_def e)
  moreover have "\<not> live k3 (sem_obj s)" for s using i(4) m(4) k(3) by (simp add: live_def rt_object_get_type_def e)
  ultimately have "system_ok ?L k3" using c i(3) [of 0] by (simp add: system_ok_def cpu_ok_def k3_def idle_def)
  moreover have "rt_application_init lm k = Some k1" using 1(1,2) by (simp add: rt_application_init_def RT_MAIN_THREAD_PRIORITY_def RT_THREAD_PRIORITY_MAX_def)
  moreover have "rt_thread_idle_init lm k1 = Some k2" using 2(1,2) by (simp add: rt_thread_idle_init_def RT_THREAD_PRIORITY_MAX_def)
  moreover have "rt_system_scheduler_start k2 = Some k3"
    by (simp add: rt_system_scheduler_start_def h rt_hw_context_switch_to_def k3_def)
  moreover have "thread_state k3 main_thread = RT_THREAD_READY" using i(3) m(3) ne by (simp add: st)
  moreover have "rt_current_thread k3 = Some main_thread" by (simp add: k3_def)
  ultimately show thesis by (intro that)
qed

section \<open>Properties\<close>

text \<open>C2: from a kernel as it is after reset, \<open>rtthread_startup\<close> comes to its end: it programs the timer
  with the clock divided by the ticks per second and enables its interrupt, prints the version, and
  creates and starts the main and the idle thread; the CPU then runs the main thread, in a state from which, by
  \<open>cpu_runs_highest_priority\<close>, it will always run a ready thread of the highest priority.\<close>

theorem rtthread_startup_runs_main:
  assumes "after_reset k" "\<forall>fn \<in> set fns. quiet fn"
    and "main_stack lm \<noteq> 0" "rt_thread_stack lm \<noteq> 0" "log_buf (rt_log_buf lm)" "length date \<le> 100"
  shows "\<exists>b' k' L. rtthread_startup fns lm date (b, out, k) = Some (b', out @ version_text date, k') \<and>
    system_ok L k' \<and> rt_current_thread k' = Some main_thread \<and> cpu_context k' = Some main_thread \<and>
    thread_state k' main_thread = RT_THREAD_READY \<and> thread_state k' rt_thread_idle_gethandler = RT_THREAD_READY \<and>
    System_Timer_Get_Time b' = 0 \<and> System_Timer_Get_Timecmp b' = 270 \<and>
    Core_Interrupt_Enable_Get b' AND Core_Interrupt_Enable_System_Timer = Core_Interrupt_Enable_System_Timer"
proof -
  have "quiet rti_board_start" by (simp add: quiet_def rti_board_start_def)
  then obtain k0 where k0: "call_init_fns (rti_board_start # fns) k = Some k0" "after_reset k0"
    using quiet_calls [of "rti_board_start # fns" k] assms(1,2) by auto
  obtain m where v: "rt_show_version (rt_log_buf lm) date (out, k0\<lparr>mem := mem k0\<rparr>) =
      Some (out @ version_text date, k0\<lparr>mem := m\<rparr>)"
    using rt_show_version_prints [OF assms(5,6), of k0] unfolding prints_def by blast
  define k1 where "k1 = rt_system_scheduler_init (rt_system_timer_init (k0\<lparr>mem := m\<rparr>))"
  note s = scheduler_init_ok [OF k0(2) k1_def]
  obtain L k2 k3 k4 where t: "rt_application_init lm k1 = Some k2" "rt_thread_idle_init lm k2 = Some k3"
    "rt_system_scheduler_start k3 = Some k4" "system_ok L k4" "rt_current_thread k4 = Some main_thread"
    "thread_state k4 main_thread = RT_THREAD_READY"
    by (rule start_threads [OF s assms(3,4)])
  define b' where "b' = ostick_config (SystemCoreClock div RT_TICK_PER_SECOND) (uart_init b)"
  have "rt_hw_board_init fns (b, out, k) = Some (b', out, k0)"
    unfolding rt_hw_board_init_def rt_components_board_init_def k0(1) by (simp add: k0(1) b'_def del: call_init_fns.simps)
  then have "rtthread_startup fns lm date (b, out, k) = Some (b', out @ version_text date, k4)"
    using v t(1-3) by (simp add: rtthread_startup_def rt_system_timer_thread_init_def k1_def)
  moreover have "cpu_context k4 = Some main_thread" "thread_state k4 rt_thread_idle_gethandler = RT_THREAD_READY"
    using t(4,5) system_ok_cpu [OF t(4)] by (simp_all add: system_ok_def rt_thread_idle_gethandler_def idle_def)
  moreover have "System_Timer_Get_Time b' = 0 \<and> System_Timer_Get_Timecmp b' = 270 \<and>
      Core_Interrupt_Enable_Get b' AND Core_Interrupt_Enable_System_Timer = Core_Interrupt_Enable_System_Timer"
    using ostick_config_registers [of "SystemCoreClock div RT_TICK_PER_SECOND" "uart_init b"]
    by (simp add: b'_def RT_TICK_PER_SECOND_def)
  ultimately show ?thesis using t(4-6) by blast
qed

definition bss_kernel :: kernel where
  "bss_kernel = boot\<lparr>objects := \<lambda>_. \<lparr>name = replicate 8 0, type = 0, flag = 0\<rparr>, rt_tick := 0\<rparr>"

definition demo_link_map :: link_map where
  "demo_link_map = \<lparr>rt_thread_exit_addr = 0x1000, main_thread_entry_addr = 0x1100, main_stack = 0x80000400,
     rt_thread_idle_entry_addr = 0x1200, rt_thread_stack = 0x80000c00, rt_log_buf = 0x80001000\<rparr>"

definition reset_board :: board where
  "reset_board = \<lparr>debug_char = 0, debug_assert = 0, mie = 0, mip = 0, mtime = 0, mtimeh = 0, mtimecmp = 0,
     mtimecmph = 0, baudcmp = 0, send_data = 0, status = 0, read_data = 0\<rparr>"

theorem rtthread_startup_runs_main_witness:
  "\<exists>b' k' L. rtthread_startup [rti_start] demo_link_map ''Jan 01 2024'' (reset_board, [], bss_kernel) =
      Some (b', version_text ''Jan 01 2024'', k') \<and> system_ok L k' \<and> cpu_context k' = Some main_thread"
proof -
  have r: "after_reset bss_kernel" by (simp add: after_reset_def bss_kernel_def boot_def RT_NAME_MAX_def)
  have q: "\<forall>fn \<in> set [rti_start]. quiet fn" by (simp add: quiet_def rti_start_def)
  have lm: "main_stack demo_link_map \<noteq> 0" "rt_thread_stack demo_link_map \<noteq> 0" "log_buf (rt_log_buf demo_link_map)"
    by (simp_all add: demo_link_map_def)
  have d: "length ''Jan 01 2024'' \<le> 100" by simp
  from rtthread_startup_runs_main [OF r q lm d, of reset_board "[]"] show ?thesis by auto
qed

end
