(* ===== verification/Spec2Isabelle.thy ===== *)
theory Spec2Isabelle
  imports System Heap Mutex Event Mailbox MessageContract Mempool PrintfText Editor Lifecycle
    Device CmdText Startup
begin

text \<open>
  The RT-Thread Nano kernel of \<^verbatim>\<open>src/os/rt-thread-nano\<close>, as it is configured for the RV32 core
  of this repository (\<^verbatim>\<open>bsp/tang-nano-9k/rtconfig.h\<close>): a preemptive priority scheduler, timers,
  the objects through which threads synchronise and communicate, memory managers, devices, the
  formatted output, the shell with its commands, and the start of the system.  The
  paths below are relative to that directory.

  \<^bold>\<open>How the code is modelled.\<close>
  The state of the kernel is the record \<open>kernel\<close> of \<open>Kernel\<close>: the byte-addressed memory, the
  pointer structure of all \<^verbatim>\<open>rt_list_t\<close> nodes, the objects (one map per structure of
  \<^verbatim>\<open>include/rtdef.h\<close>) and the global variables.  A C function is a function on that state under
  its own name.  A result of type \<open>option\<close> is \<open>None\<close> where the code does not go on in a defined
  way: a failed \<^verbatim>\<open>RT_ASSERT\<close>, a pointer that does not point to an object of its type, an access
  outside an array, an overflow of the mathematical integers that stand for \<^verbatim>\<open>int\<close> in the widths of
  \<open>Printf\<close>, a loop that does not end.  A theorem
  with a conclusion \<open>f x = Some y\<close> hence says that the code returns.  Three signed computations
  that C leaves undefined when they overflow are modelled as the compiled code does them, in 32
  bits that wrap around: \<^verbatim>\<open>num = -num\<close> of \<^verbatim>\<open>print_number\<close> for the least number, the product in
  \<^verbatim>\<open>rt_tick_from_millisecond\<close>, and \<^verbatim>\<open>int len = count\<close> in \<^verbatim>\<open>rt_memcpy\<close> from \<open>2 ^ 31\<close> on.
  Error codes are returned as the code returns them.  Integers that can wrap are words of their width.  Loops over lists are
  partial functions, and the lemmas show that they return on the lists the invariants describe;
  loops that count are functions with a measure or a counter; no fuel is used.

  Code between \<^verbatim>\<open>rt_hw_interrupt_disable\<close> and \<^verbatim>\<open>rt_hw_interrupt_enable\<close> is one step.  A function
  that gives up the processor is cut behind its call of \<^verbatim>\<open>rt_schedule\<close>: it returns \<open>Blocked\<close> with its
  local variables (an \<open>outcome\<close>, \<open>IpcList\<close>), and the function with the suffix \<open>_wake\<close> is the rest
  of it, run when the thread is scheduled again.  The functions of the components run their critical
  section and \<^verbatim>\<open>rt_schedule\<close> one after the other; \<open>System\<close> cuts the calls of threads between the two as
  well (\<open>yield_section\<close>, \<open>sleep_section\<close>, \<open>take_section\<close>, \<open>release_section\<close>, put together again in
  \<open>whole_call_sections\<close>), and there the clock interrupt may come in between.  A call of the heap that finds \<open>heap_sem\<close> taken
  ends in \<open>Waits\<close>.  A loop of the code that blocks in its body goes
  round through that function.

  \<^bold>\<open>Theories, from the bottom up.\<close>

  \<^item> \<open>Prelude\<close>: C types, error codes, assertions, rounding of words.  \<open>RtList\<close>: the linked lists
    of \<^verbatim>\<open>include/rtservice.h\<close>; \<open>dll\<close> relates a ring to the list of its nodes, \<open>rings\<close> all rings of
    the kernel to one map \<open>L\<close> from heads to nodes.
  \<^item> \<open>KMem\<close>, \<open>KStrings\<close>, \<open>KService\<close>: memory routines, strings and find-first-set of
    \<^verbatim>\<open>src/kservice.c\<close>, shown equal to byte-wise or list-wise descriptions.  \<open>Regions\<close>: frame rules
    for regions of memory, linked cells in memory.
  \<^item> \<open>Printf\<close>: \<^verbatim>\<open>rt_vsnprintf\<close> and its callers; \<open>PrintfText\<close>: the text a format stands for
    (\<open>format_text\<close>), the types of its arguments (\<open>format_types\<close>), and that the routines put that
    text into the buffer and nothing outside.
  \<^item> \<open>Kernel\<close>: the data.  \<open>Scheduler\<close>: ready queue, bitmap, \<^verbatim>\<open>rt_schedule\<close>, critical sections,
    interrupt nesting and the context switch (\<^verbatim>\<open>src/scheduler.c\<close>, \<^verbatim>\<open>src/irq.c\<close>,
    \<^verbatim>\<open>libcpu/risc-v/lltrisc-v\<close>).  \<open>Object\<close>: \<^verbatim>\<open>src/object.c\<close>.  \<open>Timer\<close>, \<open>TimerCheck\<close>, \<open>Clock\<close>:
    \<^verbatim>\<open>src/timer.c\<close> and \<^verbatim>\<open>src/clock.c\<close>.  \<open>Thread\<close>: \<^verbatim>\<open>src/thread.c\<close>; it defines the invariant
    \<open>kernel_ok L k\<close> (ready queue, timer list, threads and rings agree), which every operation of
    the later theories keeps.  \<open>Errno\<close>: the error numbers.
  \<^item> \<open>IpcList\<close>: the wait lists of \<^verbatim>\<open>src/ipc.c\<close>, with closed forms of blocking and waking and the
    specifications \<open>send_spec\<close> and \<open>recv_spec\<close> of a buffer between threads.  \<open>Example\<close>: the
    concrete systems of the witnesses.
  \<^item> \<open>Semaphore\<close>, \<open>Mutex\<close>, \<open>Event\<close>, \<open>Mailbox\<close>, \<open>MessageQueue\<close>: the objects of \<^verbatim>\<open>src/ipc.c\<close>;
    \<open>MessageList\<close>, \<open>MessageContract\<close>: the proofs for message queues.  \<open>Mempool\<close>:
    \<^verbatim>\<open>src/mempool.c\<close>.  \<open>SmallMem\<close>, \<open>HeapProof\<close>, \<open>HeapContract\<close>, \<open>Heap\<close>: \<^verbatim>\<open>src/mem.c\<close>.
  \<^item> \<open>Msh\<close>, \<open>Shell\<close>: the command interpreter and the line editor of the shell,
    \<^verbatim>\<open>components/finsh/msh.c\<close> and \<^verbatim>\<open>shell.c\<close>.  \<open>MshSplit\<close>: the words of a line (\<open>tokens\<close>).  \<open>MshExec\<close>:
    what executing and completing a line do.  \<open>Editor\<close>: an editor of texts that the shell refines.
  \<^item> \<open>Dynamic\<close>: objects and threads that are created and deleted on the heap (\<^verbatim>\<open>src/object.c\<close>,
    \<^verbatim>\<open>src/ipc.c\<close>, \<^verbatim>\<open>src/mempool.c\<close>, \<^verbatim>\<open>src/timer.c\<close>, \<^verbatim>\<open>src/thread.c\<close>), and the part of
    \<^verbatim>\<open>src/idle.c\<close> that frees deleted threads.  The number of such an object is its address.
    \<open>Lifecycle\<close>: the invariants of kernel and heap together (\<open>dynamic_ok\<close>), and that creating and
    deleting keep them.
  \<^item> \<open>Device\<close>: the device framework \<^verbatim>\<open>components/device/device.c\<close>, with the functions of the drivers
    as a parameter.  \<open>Board\<close>: the registers of the board, \<^verbatim>\<open>bsp/tang-nano-9k/tang9k.c\<close> and \<^verbatim>\<open>board.c\<close>.
  \<^item> \<open>Console\<close>: what a call of \<^verbatim>\<open>rt_kprintf\<close> prints.  \<open>Cmd\<close>: the commands of the shell,
    \<^verbatim>\<open>components/finsh/cmd.c\<close>; \<open>CmdText\<close>: the texts of their tables.
  \<^item> \<open>System\<close>: threads and the clock interrupt together.  \<open>Startup\<close>: \<^verbatim>\<open>src/components.c\<close>, from reset
    to the first thread.

  \<^bold>\<open>Interfaces.\<close>
  \<open>timeout_functions\<close> (\<open>TimerCheck\<close>) is what the timer interrupt relies on, interpreted with
  \<^verbatim>\<open>rt_thread_timeout\<close>.  \<open>bounded_fifo\<close> (\<open>Fifo\<close>) is what clients of mailboxes and message queues
  rely on, interpreted with both.  \<open>block_pool\<close> (\<open>Mempool\<close>) is the contract of an allocator of
  blocks, interpreted with the memory pools.

  \<^bold>\<open>What the lemmas show.\<close>

  \<^item> Closed forms (\<open>kernel_simps\<close>): under the invariant each operation equals an explicit change of
    the state, so it returns, and the invariant holds afterwards with a new map \<open>L\<close>.
  \<^item> Refinement: semaphores, mutexes (with priority inheritance), events, mailboxes, message queues
    and memory pools refine abstract objects, given by their value and their queues of waiting
    threads; the view functions \<open>sem_view\<close>, \<open>mutex_view\<close>, \<open>mb_view\<close>, \<open>mq_view\<close> and \<open>mp_view\<close> are
    the abstraction functions, and \<open>event_scan\<close> says what a sent event does to the waiting threads.
    What the calls do to the threads is said by \<open>woke\<close> (the first waiting thread, and no other, becomes
    ready, and the highest ready thread is the running one), \<open>gave_up\<close> (the caller is suspended, its
    timer runs, and another thread, the highest ready one, is the running one) and \<open>call_effect\<close>,
    which chooses between them by the outcome; \<open>held_since\<close> is the priority a thread had when it
    became the owner of a mutex.
  \<^item> The shell: every key does on the line buffer what it does on the texts of the editor
    (\<open>shell_shows\<close>), and each return runs the line that was typed (\<open>exec_line\<close>).
  \<^item> The heap: its chain of blocks stays well formed, allocated blocks do not overlap and keep their
    contents, for any sequence of calls (\<open>heap_run\<close>).
  \<^item> Devices: in any run the reference count of a device is the number of opens without a close
    (\<open>device_run\<close>), for drivers that always return and leave the framework's own data alone
    (\<open>driver_ok\<close>, an assumption on code outside of the repository).  Commands: a table has one line for every object of a container, in order
    (\<open>prints\<close>).
  \<^item> The system: the start ends in a state of the invariant \<open>system_ok\<close> that runs the main thread
    (\<open>after_reset\<close>).  Threads that sleep, yield and use semaphores are interleaved with the clock
    interrupt, also between a critical section and \<^verbatim>\<open>rt_schedule\<close> (\<open>system_step\<close>): no reachable state
    (\<open>reachable\<close>) is a failure, and the CPU runs a ready thread of the highest priority, but for the
    moments before a call of \<^verbatim>\<open>rt_schedule\<close> that makes it so.  A sleeping thread is woken by the tick at which it is due.

  The bounds that appear in hypotheses come from the code: waiting times are below half of the
  tick range (\<^verbatim>\<open>rt_timer_start\<close> asserts it), regions of memory do not wrap around, nor does the text that is
  formatted into a buffer, and an idle
  thread is always ready, as \<^verbatim>\<open>src/idle.c\<close> provides.

  \<^bold>\<open>Not modelled.\<close>
  The configured-out parts (hooks, soft timers, \<^verbatim>\<open>RT_USING_TINY_SIZE\<close>, the debugging commands of the
  memory managers, multiprocessors); the endless loop of the idle thread; the alternative memory managers
  \<^verbatim>\<open>src/slab.c\<close> and \<^verbatim>\<open>src/memheap.c\<close>; the echo of the shell; the demo \<^verbatim>\<open>main\<close> and the assembly code
  of the start.  The registers that the assembly code saves and restores are abstracted to the
  thread whose context the CPU holds.  The hardware in \<^verbatim>\<open>hw\<close> is another language, below the
  instruction set.
\<close>

end
